(* ===== verification/Prelude.thy ===== *)
theory Prelude
  imports Main "HOL-Library.Word" "HOL-Library.Multiset"
begin

text \<open>
  Shared vocabulary of the development: Rust's machine integers as bounded HOL integers, the
  slice routines of the standard library that the modelled code calls, and generic list lemmas.

  An \<open>i64\<close> is an \<open>int\<close> in the range of \<open>i64_ok\<close>; saturating and wrapping arithmetic are
  written out. The bit-level code (the \<open>NonMinI64\<close> niche, the byte encodings) uses \<open>64 word\<close>
  and \<open>8 word\<close> from \<open>HOL-Library.Word\<close>.
\<close>

named_theorems i64_simps "facts that move between i64 operations and integer arithmetic"
named_theorems slice_simps "facts about slices, masks and index lists"

section \<open>Signed 64-bit integers\<close>

type_synonym i64 = int

definition i64_MIN :: i64 where
  "i64_MIN = - (2 ^ 63)"

definition i64_MAX :: i64 where
  "i64_MAX = 2 ^ 63 - 1"

definition i64_ok :: "int \<Rightarrow> bool" where
  "i64_ok x \<longleftrightarrow> i64_MIN \<le> x \<and> x \<le> i64_MAX"

text \<open>Clamping to the range of \<open>i64\<close>: what every saturating operation of Rust does.\<close>

definition i64_clamp :: "int \<Rightarrow> i64" where
  "i64_clamp x = max i64_MIN (min i64_MAX x)"

text \<open>Reduction modulo \<open>2 ^ 64\<close> into the signed range: what unchecked arithmetic does in a
  release build.\<close>

definition i64_wrap :: "int \<Rightarrow> i64" where
  "i64_wrap x = (x + 2 ^ 63) mod 2 ^ 64 - 2 ^ 63"

definition i64_saturating_add :: "i64 \<Rightarrow> i64 \<Rightarrow> i64" where
  "i64_saturating_add a b = i64_clamp (a + b)"

definition i64_saturating_sub :: "i64 \<Rightarrow> i64 \<Rightarrow> i64" where
  "i64_saturating_sub a b = i64_clamp (a - b)"

definition i64_saturating_mul :: "i64 \<Rightarrow> i64 \<Rightarrow> i64" where
  "i64_saturating_mul a b = i64_clamp (a * b)"

text \<open>Rust's \<open>midpoint\<close>: the average computed without overflow and rounded towards zero.\<close>

definition i64_midpoint :: "i64 \<Rightarrow> i64 \<Rightarrow> i64" where
  "i64_midpoint a b = (let s = a + b in if s < 0 then - ((- s) div 2) else s div 2)"

lemma i64_MIN_le_MAX [simp]: "i64_MIN \<le> i64_MAX" "i64_MIN < i64_MAX"
  by (simp_all add: i64_MIN_def i64_MAX_def)

lemma i64_ok_clamp [simp]: "i64_ok (i64_clamp x)"
  by (simp add: i64_ok_def i64_clamp_def)

lemma i64_clamp_id [i64_simps]: "i64_ok x \<Longrightarrow> i64_clamp x = x"
  by (auto simp: i64_ok_def i64_clamp_def)

lemma i64_clamp_mono: "x \<le> y \<Longrightarrow> i64_clamp x \<le> i64_clamp y"
  by (auto simp: i64_clamp_def)

lemma i64_ok_wrap [simp]: "i64_ok (i64_wrap x)"
proof -
  have "0 \<le> (x + 2 ^ 63) mod (2 ^ 64)" by simp
  moreover have "(x + 2 ^ 63) mod (2 ^ 64) < 2 ^ 64" by simp
  ultimately show ?thesis by (simp add: i64_ok_def i64_wrap_def i64_MIN_def i64_MAX_def)
qed

lemma i64_wrap_id [i64_simps]: "i64_ok x \<Longrightarrow> i64_wrap x = x"
  by (simp add: i64_ok_def i64_wrap_def i64_MIN_def i64_MAX_def)

lemma i64_ok_saturating [simp]:
  "i64_ok (i64_saturating_add a b)" "i64_ok (i64_saturating_sub a b)"
  "i64_ok (i64_saturating_mul a b)"
  by (simp_all add: i64_saturating_add_def i64_saturating_sub_def i64_saturating_mul_def)

lemma i64_midpoint_between:
  "a \<le> b \<Longrightarrow> a \<le> i64_midpoint a b \<and> i64_midpoint a b \<le> b"
  by (auto simp: i64_midpoint_def Let_def)

lemma i64_midpoint_commute: "i64_midpoint a b = i64_midpoint b a"
  by (simp add: i64_midpoint_def add.commute)

lemma i64_midpoint_gt:
  "m < a \<Longrightarrow> m < b \<Longrightarrow> m < i64_midpoint a b"
  by (auto simp: i64_midpoint_def Let_def)

lemma i64_midpoint_le:
  "a \<le> m \<Longrightarrow> b \<le> m \<Longrightarrow> i64_midpoint a b \<le> m"
  by (auto simp: i64_midpoint_def Let_def)

section \<open>Slices of the standard library\<close>

text \<open>\<open>slice::partition_point\<close>: the index of the first element that fails the predicate, for a
  slice that is partitioned by it, which is what the standard library asks of its callers.\<close>

definition partition_point :: "('a \<Rightarrow> bool) \<Rightarrow> 'a list \<Rightarrow> nat" where
  "partition_point p xs = length (takeWhile p xs)"

text \<open>\<open>windows(2).all(|w| w[0] <= w[1])\<close>: the linear sortedness check the code uses throughout.\<close>

fun windows2_all :: "('a \<Rightarrow> 'a \<Rightarrow> bool) \<Rightarrow> 'a list \<Rightarrow> bool" where
  "windows2_all p (x # y # zs) = (p x y \<and> windows2_all p (y # zs))"
| "windows2_all p _ = True"

text \<open>Selecting the positions of a boolean mask, and gathering an index list.\<close>

fun mask_select :: "bool list \<Rightarrow> 'a list \<Rightarrow> 'a list" where
  "mask_select (b # bs) (x # xs) = (if b then x # mask_select bs xs else mask_select bs xs)"
| "mask_select _ _ = []"

definition gather :: "'a list \<Rightarrow> nat list \<Rightarrow> 'a list" where
  "gather xs is = map (\<lambda>i. xs ! i) is"

lemma windows2_all_sorted [simp]: "windows2_all (\<le>) xs = sorted (xs :: 'a :: linorder list)"
  by (induction "(\<le>) :: 'a \<Rightarrow> 'a \<Rightarrow> bool" xs rule: windows2_all.induct)
    (auto intro: order_trans)

lemma partition_point_le [simp]: "partition_point p xs \<le> length xs"
  by (simp add: partition_point_def length_takeWhile_le)

lemma partition_point_before:
  "i < partition_point p xs \<Longrightarrow> p (xs ! i)"
  by (metis nth_mem partition_point_def set_takeWhileD takeWhile_nth)

lemma partition_point_at:
  "partition_point p xs < length xs \<Longrightarrow> \<not> p (xs ! partition_point p xs)"
  by (simp add: partition_point_def nth_length_takeWhile)

text \<open>On a sorted slice a downward-closed predicate holds exactly before the partition point.\<close>

lemma partition_point_iff:
  fixes xs :: "'a :: linorder list"
  assumes "sorted xs" and "i < length xs" and down: "\<And>x y. x \<le> y \<Longrightarrow> p y \<Longrightarrow> p x"
  shows "i < partition_point p xs \<longleftrightarrow> p (xs ! i)"
proof (rule iffI)
  assume "i < partition_point p xs"
  then show "p (xs ! i)" by (rule partition_point_before)
next
  assume p: "p (xs ! i)"
  show "i < partition_point p xs"
  proof (rule ccontr)
    assume "\<not> i < partition_point p xs"
    then have le: "partition_point p xs \<le> i" by simp
    with assms(2) have "\<not> p (xs ! partition_point p xs)" by (simp add: partition_point_at)
    moreover have "xs ! partition_point p xs \<le> xs ! i"
      using assms(1,2) le by (simp add: sorted_nth_mono)
    ultimately show False using p down by blast
  qed
qed

lemmas partition_point_le_iff = partition_point_iff [where p = "\<lambda>x. x \<le> v" for v]
lemmas partition_point_less_iff = partition_point_iff [where p = "\<lambda>x. x < v" for v]

lemma length_mask_select [slice_simps]:
  "length m = length xs \<Longrightarrow> length (mask_select m xs) = length (filter id m)"
  by (induction m xs rule: mask_select.induct) auto

lemma set_mask_select: "set (mask_select m xs) \<subseteq> set xs"
  by (induction m xs rule: mask_select.induct) auto

lemma sorted_mask_select: "sorted xs \<Longrightarrow> sorted (mask_select m xs)"
proof (induction m xs rule: mask_select.induct)
  case (1 b bs x xs)
  then show ?case using set_mask_select [of bs xs] by auto
qed auto

lemma map_mask_select: "map f (mask_select m xs) = mask_select m (map f xs)"
  by (induction m xs rule: mask_select.induct) auto

lemma length_gather [simp]: "length (gather xs is) = length is"
  by (simp add: gather_def)

lemma gather_nth [simp]: "i < length is \<Longrightarrow> gather xs is ! i = xs ! (is ! i)"
  by (simp add: gather_def)

lemma map_gather: "set is \<subseteq> {..<length xs} \<Longrightarrow> map f (gather xs is) = gather (map f xs) is"
  by (auto simp: gather_def)

lemma gather_upt [simp]: "gather xs [0..<length xs] = xs"
  by (simp add: gather_def map_nth)

lemma gather_append: "set is \<subseteq> {..<length xs} \<Longrightarrow> gather (xs @ ys) is = gather xs is"
  by (auto simp: gather_def nth_append)

text \<open>Masks and slices are index lists.\<close>

lemma gather_Cons_Suc: "gather (x # xs) (map Suc is) = gather xs is"
  by (simp add: gather_def)

lemma mask_select_map: "mask_select m (map f xs) = map f (mask_select m xs)"
  by (simp add: map_mask_select)

lemma mask_select_gather:
  "length m = length xs \<Longrightarrow> mask_select m xs = gather xs (mask_select m [0..<length xs])"
proof (induction m xs rule: mask_select.induct)
  case (1 b bs x xs)
  have u: "[0..<length (x # xs)] = 0 # map Suc [0..<length xs]"
    by (simp add: upt_conv_Cons map_Suc_upt del: upt_Suc)
  have g: "gather (x # xs) (map Suc (mask_select bs [0..<length xs])) = mask_select bs xs"
    using 1 by (cases b) (simp_all add: gather_Cons_Suc)
  show ?case
    unfolding u mask_select.simps mask_select_map using g by (simp add: gather_def)
qed (auto simp: gather_def)

lemma slice_gather:
  "index + len \<le> length xs \<Longrightarrow> take len (drop index xs) = gather xs [index..<index + len]"
  by (rule nth_equalityI) auto

lemma sorted_gather_mono:
  assumes "sorted xs" "sorted is" "set is \<subseteq> {..<length xs}"
  shows "sorted (gather xs is)"
  using assms by (auto simp: sorted_iff_nth_mono subset_iff in_set_conv_nth)

lemma sorted_map_mono: "mono f \<Longrightarrow> sorted xs \<Longrightarrow> sorted (map f xs)"
  by (induction xs) (auto dest: monoD)

section \<open>Fallible iteration\<close>

text \<open>\<open>iter().map(f).collect()\<close> where \<open>f\<close> can fail: the first failure ends the iteration.\<close>

fun traverse :: "('a \<Rightarrow> 'b option) \<Rightarrow> 'a list \<Rightarrow> 'b list option" where
  "traverse f [] = Some []"
| "traverse f (x # xs) =
     (case f x of None \<Rightarrow> None | Some y \<Rightarrow> map_option ((#) y) (traverse f xs))"

lemma traverse_Some_iff: "traverse f xs = Some ys \<longleftrightarrow> list_all2 (\<lambda>x y. f x = Some y) xs ys"
  by (induction xs arbitrary: ys)
    (auto simp: list_all2_Cons1 split: option.splits)

lemma traverse_total:
  assumes "\<And>x. x \<in> set xs \<Longrightarrow> \<exists>y. f x = Some y"
  shows "\<exists>ys. traverse f xs = Some ys"
  using assms by (induction xs) (force split: option.splits)+

lemma traverse_pure [simp]: "traverse (\<lambda>x. Some (f x)) xs = Some (map f xs)"
  by (induction xs) auto

lemma traverse_cong_Some:
  assumes "\<And>x. x \<in> set xs \<Longrightarrow> f x = Some (g x)"
  shows "traverse f xs = Some (map g xs)"
  using assms by (induction xs) auto

section \<open>Hash maps as association lists\<close>

text \<open>An \<open>IntMap\<close> is an association list with distinct keys; the order of the list stands for the
  unspecified order of iteration.\<close>

fun al_insert :: "'k \<Rightarrow> 'v \<Rightarrow> ('k \<times> 'v) list \<Rightarrow> ('k \<times> 'v) list" where
  "al_insert k v [] = [(k, v)]"
| "al_insert k v ((k', v') # m) = (if k' = k then (k, v) # m else (k', v') # al_insert k v m)"

lemma map_of_al_insert [simp]: "map_of (al_insert k v m) = (map_of m)(k \<mapsto> v)"
  by (induction k v m rule: al_insert.induct) auto

lemma keys_al_insert: "fst ` set (al_insert k v m) = insert k (fst ` set m)"
  by (induction k v m rule: al_insert.induct) auto

lemma distinct_al_insert: "distinct (map fst m) \<Longrightarrow> distinct (map fst (al_insert k v m))"
proof (induction k v m rule: al_insert.induct)
  case (2 k v k' v' m)
  then show ?case using keys_al_insert [of k v m] by (auto simp: image_iff)
qed simp

lemma al_insert_fresh: "k \<notin> fst ` set m \<Longrightarrow> al_insert k v m = m @ [(k, v)]"
  by (induction k v m rule: al_insert.induct) auto

lemma map_of_map_values: "map_of (map (\<lambda>(k, v). (k, f k v)) m) k = map_option (f k) (map_of m k)"
  by (induction m) auto

lemma traverse_values:
  assumes "\<And>k v. (k, v) \<in> set m \<Longrightarrow> f v = Some (g v)"
  shows "traverse (\<lambda>(k, v). map_option (Pair k) (f v)) m = Some (map (\<lambda>(k, v). (k, g v)) m)"
  by (rule traverse_cong_Some) (use assms in auto)

end
