(* ===== verification/Bytes.thy ===== *)
theory Bytes
  imports Prelude "HOL-Library.List_Lexorder"
begin

text \<open>
  Fixed-width byte encodings of unsigned integers (\<open>to_le_bytes\<close>, \<open>from_le_bytes\<close> and their
  big-endian twins of the Rust standard library), with the round trips both ways and the fact the
  time-ordered identifiers rest on: big-endian bytes of one length compare as the numbers they
  encode.
\<close>

type_synonym byte = "8 word"

section \<open>Little endian\<close>

fun le_bytes :: "nat \<Rightarrow> nat \<Rightarrow> byte list" where
  "le_bytes 0 n = []"
| "le_bytes (Suc k) n = word_of_nat (n mod 256) # le_bytes k (n div 256)"

fun le_value :: "byte list \<Rightarrow> nat" where
  "le_value [] = 0"
| "le_value (b # bs) = unat b + 256 * le_value bs"

lemma unat_byte_less [simp]: "unat (b :: byte) < 256"
  using unsigned_less [of b, where 'a = nat] by simp

lemma unat_of_byte: "n < 256 \<Longrightarrow> unat (word_of_nat n :: byte) = n"
  by (simp add: unat_of_nat)

lemma word_of_nat_unat [simp]: "word_of_nat (unat w) = (w :: 'a :: len word)"
  by (simp add: word_unat_eq_iff unat_of_nat)

lemma length_le_bytes [simp]: "length (le_bytes k n) = k"
  by (induction k arbitrary: n) auto

lemma le_value_bytes: "n < 256 ^ k \<Longrightarrow> le_value (le_bytes k n) = n"
proof (induction k arbitrary: n)
  case (Suc k)
  then have "n div 256 < 256 ^ k" by (simp add: div_less_iff_less_mult mult.commute)
  with Suc.IH show ?case by (simp add: unat_of_byte)
qed simp

lemma le_value_less: "le_value bs < 256 ^ length bs"
proof (induction bs)
  case (Cons b bs)
  have "unat b < 256" by simp
  with Cons have "unat b + 256 * le_value bs < 256 * 256 ^ length bs" by linarith
  then show ?case by simp
qed simp

lemma le_bytes_value [simp]: "le_bytes (length bs) (le_value bs) = bs"
  by (induction bs) simp_all

lemma le_bytes_value_length: "length bs = k \<Longrightarrow> le_bytes k (le_value bs) = bs"
  using le_bytes_value by blast

section \<open>Big endian\<close>

definition be_bytes :: "nat \<Rightarrow> nat \<Rightarrow> byte list" where
  "be_bytes k n = rev (le_bytes k n)"

definition be_value :: "byte list \<Rightarrow> nat" where
  "be_value bs = le_value (rev bs)"

lemma length_be_bytes [simp]: "length (be_bytes k n) = k"
  by (simp add: be_bytes_def)

lemma be_value_bytes: "n < 256 ^ k \<Longrightarrow> be_value (be_bytes k n) = n"
  by (simp add: be_bytes_def be_value_def le_value_bytes)

lemma be_bytes_value: "length bs = k \<Longrightarrow> be_bytes k (be_value bs) = bs"
  by (metis be_bytes_def be_value_def le_bytes_value length_rev rev_rev_ident)

lemma be_value_less: "be_value bs < 256 ^ length bs"
  using le_value_less [of "rev bs"] by (simp add: be_value_def)

lemma le_value_append: "le_value (xs @ ys) = le_value xs + 256 ^ length xs * le_value ys"
  by (induction xs) (simp_all add: algebra_simps)

lemma be_value_Nil [simp]: "be_value [] = 0"
  by (simp add: be_value_def)

lemma be_value_Cons: "be_value (b # bs) = unat b * 256 ^ length bs + be_value bs"
  by (simp add: be_value_def le_value_append)

lemma be_value_append: "be_value (xs @ ys) = be_value xs * 256 ^ length ys + be_value ys"
  by (simp add: be_value_def le_value_append)

lemma digit_compare:
  fixes a b c d m :: nat
  assumes "b < m" "d < m"
  shows "a * m + b < c * m + d \<longleftrightarrow> a < c \<or> a = c \<and> b < d"
proof (cases a c rule: linorder_cases)
  case less
  then have "(a + 1) * m \<le> c * m" by (simp add: mult_le_mono1 del: mult_Suc)
  with less assms show ?thesis by (simp add: algebra_simps)
next
  case greater
  then have "(c + 1) * m \<le> a * m" by (simp add: mult_le_mono1 del: mult_Suc)
  with greater assms show ?thesis by (simp add: algebra_simps)
qed simp

lemma be_value_less_iff:
  "length xs = length ys \<Longrightarrow> (be_value xs < be_value ys) = (xs < ys)"
proof (induction xs ys rule: list_induct2)
  case (Cons x xs y ys)
  have "be_value xs < 256 ^ length ys" "be_value ys < 256 ^ length ys"
    using Cons.hyps be_value_less by metis+
  with Cons show ?case
    by (simp add: be_value_Cons digit_compare word_less_nat_alt word_unat_eq_iff [of x y])
qed simp

section \<open>The widths the code uses\<close>

type_synonym u32 = "32 word"
type_synonym u64 = "64 word"

definition u32_to_le_bytes :: "u32 \<Rightarrow> byte list" where
  "u32_to_le_bytes w = le_bytes 4 (unat w)"

definition u32_from_le_bytes :: "byte list \<Rightarrow> u32" where
  "u32_from_le_bytes bs = word_of_nat (le_value bs)"

definition u64_to_le_bytes :: "u64 \<Rightarrow> byte list" where
  "u64_to_le_bytes w = le_bytes 8 (unat w)"

definition u64_from_le_bytes :: "byte list \<Rightarrow> u64" where
  "u64_from_le_bytes bs = word_of_nat (le_value bs)"

definition u64_to_be_bytes :: "u64 \<Rightarrow> byte list" where
  "u64_to_be_bytes w = be_bytes 8 (unat w)"

definition u64_from_be_bytes :: "byte list \<Rightarrow> u64" where
  "u64_from_be_bytes bs = word_of_nat (be_value bs)"

lemma unat_less_256_pow:
  "unat (w :: u32) < 256 ^ 4" "unat (v :: u64) < 256 ^ 8"
  using unsigned_less [of w, where 'a = nat] unsigned_less [of v, where 'a = nat] by simp_all

lemma bytes_roundtrip [simp]:
  "u32_from_le_bytes (u32_to_le_bytes w) = w"
  "u64_from_le_bytes (u64_to_le_bytes v) = v"
  "u64_from_be_bytes (u64_to_be_bytes v) = v"
  by (simp_all only: u32_from_le_bytes_def u32_to_le_bytes_def u64_from_le_bytes_def
      u64_to_le_bytes_def u64_from_be_bytes_def u64_to_be_bytes_def
      le_value_bytes be_value_bytes unat_less_256_pow word_of_nat_unat)

lemma bytes_lengths [simp]:
  "length (u32_to_le_bytes w) = 4" "length (u64_to_le_bytes v) = 8"
  "length (u64_to_be_bytes v) = 8"
  by (simp_all add: u32_to_le_bytes_def u64_to_le_bytes_def u64_to_be_bytes_def)

lemma unat_u64_from_be_bytes:
  assumes "length bs = 8"
  shows "unat (u64_from_be_bytes bs) = be_value bs"
proof -
  have "be_value bs < 2 ^ 64" using be_value_less [of bs] assms by simp
  then show ?thesis by (simp add: u64_from_be_bytes_def unat_of_nat)
qed

lemma u32_to_from_le_bytes: "length bs = 4 \<Longrightarrow> u32_to_le_bytes (u32_from_le_bytes bs) = bs"
proof -
  assume len: "length bs = 4"
  then have "le_value bs < 2 ^ 32" using le_value_less [of bs] by simp
  with len show ?thesis
    by (simp add: u32_to_le_bytes_def u32_from_le_bytes_def unat_of_nat le_bytes_value_length)
qed

lemma u64_to_from_le_bytes: "length bs = 8 \<Longrightarrow> u64_to_le_bytes (u64_from_le_bytes bs) = bs"
proof -
  assume len: "length bs = 8"
  then have "le_value bs < 2 ^ 64" using le_value_less [of bs] by simp
  with len show ?thesis
    by (simp add: u64_to_le_bytes_def u64_from_le_bytes_def unat_of_nat le_bytes_value_length)
qed

lemma u64_to_from_be_bytes: "length bs = 8 \<Longrightarrow> u64_to_be_bytes (u64_from_be_bytes bs) = bs"
  by (simp add: u64_to_be_bytes_def unat_u64_from_be_bytes be_bytes_value)

end
