(* ===== verification/Tuid.thy ===== *)
theory Tuid
  imports Bytes "HOL-Library.Char_ord"
begin

text \<open>
  Time-based unique identifiers (\<open>crates/utils/re_tuid\<close>): two big-endian 64-bit numbers kept as
  bytes, the derived order, the conversions to \<open>u128\<close>, to bytes and to text, and the generator.
  Row and chunk identifiers of the store are such values. The clock of \<open>Tuid::new\<close> is an argument.
  The lemmas show that the four views (value, number, bytes, text) are ordered alike and convert
  into each other without loss, and that a generator fed by a clock that does not go back yields a
  strictly increasing sequence.
\<close>

unbundle bit_operations_syntax

section \<open>The identifier\<close>

datatype Tuid = Tuid (time_nanos: "byte list") (inc_bytes: "byte list")

type_synonym RowId = Tuid
type_synonym ChunkId = Tuid

text \<open>Both fields are arrays of eight bytes.\<close>

definition tuid_wf :: "Tuid \<Rightarrow> bool" where
  "tuid_wf t \<longleftrightarrow> length (time_nanos t) = 8 \<and> length (inc_bytes t) = 8"

text \<open>\<open>derive(PartialOrd, Ord)\<close>: the fields in order, each array lexicographically.\<close>

instantiation Tuid :: linorder
begin

definition less_Tuid :: "Tuid \<Rightarrow> Tuid \<Rightarrow> bool" where
  "less_Tuid a b \<longleftrightarrow>
     time_nanos a < time_nanos b \<or> time_nanos a = time_nanos b \<and> inc_bytes a < inc_bytes b"

definition less_eq_Tuid :: "Tuid \<Rightarrow> Tuid \<Rightarrow> bool" where
  "less_eq_Tuid a b \<longleftrightarrow>
     time_nanos a < time_nanos b \<or> time_nanos a = time_nanos b \<and> inc_bytes a \<le> inc_bytes b"

instance
  by standard (auto simp: less_Tuid_def less_eq_Tuid_def Tuid.expand)

end

definition from_nanos_and_inc :: "u64 \<Rightarrow> u64 \<Rightarrow> Tuid" where
  "from_nanos_and_inc nanos inc = Tuid (u64_to_be_bytes nanos) (u64_to_be_bytes inc)"

definition nanos_since_epoch :: "Tuid \<Rightarrow> u64" where
  "nanos_since_epoch t = u64_from_be_bytes (time_nanos t)"

definition tuid_inc :: "Tuid \<Rightarrow> u64" where
  "tuid_inc t = u64_from_be_bytes (inc_bytes t)"

definition Tuid_ZERO :: Tuid where
  "Tuid_ZERO = Tuid (replicate 8 0) (replicate 8 0)"

definition Tuid_MAX :: Tuid where
  "Tuid_MAX = Tuid (u64_to_be_bytes (- 1)) (u64_to_be_bytes (- 1))"

definition from_u128 :: "128 word \<Rightarrow> Tuid" where
  "from_u128 i =
     from_nanos_and_inc (ucast (drop_bit 64 i)) (ucast (i AND drop_bit 64 (- 1)))"

definition as_u128 :: "Tuid \<Rightarrow> 128 word" where
  "as_u128 t = push_bit 64 (ucast (nanos_since_epoch t)) OR ucast (tuid_inc t)"

definition tuid_from_bytes :: "byte list \<Rightarrow> Tuid" where
  "tuid_from_bytes bytes = from_u128 (word_of_nat (be_value bytes))"

definition tuid_as_bytes :: "Tuid \<Rightarrow> byte list" where
  "tuid_as_bytes t = be_bytes 16 (unat (as_u128 t))"

text \<open>The next identifiers: the counter wraps, the time stays.\<close>

definition tuid_next :: "Tuid \<Rightarrow> Tuid" where
  "tuid_next t = Tuid (time_nanos t) (u64_to_be_bytes (u64_from_be_bytes (inc_bytes t) + 1))"

definition incremented_by :: "Tuid \<Rightarrow> u64 \<Rightarrow> Tuid" where
  "incremented_by t n = Tuid (time_nanos t) (u64_to_be_bytes (u64_from_be_bytes (inc_bytes t) + n))"

text \<open>\<open>Tuid::new\<close>: the thread-local latest identifier is the state, \<open>now\<close> the reading of the
  monotonic clock. The addition is unchecked in a release build.\<close>

definition tuid_new :: "Tuid \<Rightarrow> u64 \<Rightarrow> Tuid \<times> Tuid" where
  "tuid_new latest now = (let new = from_nanos_and_inc now (tuid_inc latest + 1) in (new, new))"

fun tuid_news :: "Tuid \<Rightarrow> u64 list \<Rightarrow> Tuid list" where
  "tuid_news latest [] = []"
| "tuid_news latest (now # nows) =
     (let (new, latest') = tuid_new latest now in new # tuid_news latest' nows)"

section \<open>Text\<close>

definition hex_char :: "bool \<Rightarrow> nat \<Rightarrow> char" where
  "hex_char upper d = char_of (if d < 10 then 48 + d else if upper then 55 + d else 87 + d)"

fun le_digits :: "nat \<Rightarrow> nat \<Rightarrow> nat list" where
  "le_digits 0 n = []"
| "le_digits (Suc k) n = n mod 16 # le_digits k (n div 16)"

text \<open>\<open>{:016X}\<close> and \<open>{:016x}\<close> of a \<open>u64\<close>: sixteen digits, padded with zeros.\<close>

definition hex16 :: "bool \<Rightarrow> u64 \<Rightarrow> string" where
  "hex16 upper n = map (hex_char upper) (rev (le_digits 16 (unat n)))"

definition tuid_display :: "Tuid \<Rightarrow> string" where
  "tuid_display t = hex16 True (nanos_since_epoch t) @ hex16 False (tuid_inc t)"

datatype ParseIntError = Empty | InvalidDigit | PosOverflow

definition to_digit16 :: "char \<Rightarrow> nat option" where
  "to_digit16 c = (let n = of_char c :: nat in
     if 48 \<le> n \<and> n \<le> 57 then Some (n - 48)
     else if 65 \<le> n \<and> n \<le> 70 then Some (n - 55)
     else if 97 \<le> n \<and> n \<le> 102 then Some (n - 87)
     else None)"

fun parse_digits16 :: "nat \<Rightarrow> string \<Rightarrow> ParseIntError + nat" where
  "parse_digits16 acc [] = Inr acc"
| "parse_digits16 acc (c # cs) =
     (case to_digit16 c of
        None \<Rightarrow> Inl InvalidDigit
      | Some d \<Rightarrow> if acc * 16 + d < 2 ^ 128 then parse_digits16 (acc * 16 + d) cs
                  else Inl PosOverflow)"

text \<open>\<open>u128::from_str_radix(s, 16)\<close>: one leading plus sign is accepted.\<close>

definition u128_from_hex :: "string \<Rightarrow> ParseIntError + nat" where
  "u128_from_hex s =
     (if s = [] then Inl Empty
      else if s = ''+'' \<or> s = ''-'' then Inl InvalidDigit
      else if hd s = CHR ''+'' then parse_digits16 0 (tl s) else parse_digits16 0 s)"

definition tuid_from_str :: "string \<Rightarrow> ParseIntError + Tuid" where
  "tuid_from_str s = map_sum id (\<lambda>n. from_u128 (word_of_nat n)) (u128_from_hex s)"

definition short_string :: "Tuid \<Rightarrow> string" where
  "short_string t = (let str = tuid_display t in drop (length str - 8) str)"

section \<open>Facts\<close>

lemma nat_push_or:
  fixes m i :: nat
  assumes "i < 2 ^ 64"
  shows "push_bit 64 m OR i = m * 2 ^ 64 + i"
proof -
  have i: "take_bit 64 i = i" using assms by (simp add: take_bit_nat_eq_self)
  have "push_bit 64 m + i = push_bit 64 m OR i"
  proof (rule disjunctive_add)
    fix n
    show "\<not> bit (push_bit 64 m) n \<or> \<not> bit i n"
      using i by (metis bit_push_bit_iff bit_take_bit_iff not_le)
  qed
  then show ?thesis by (simp add: push_bit_eq_mult)
qed

lemma unat_as_u128:
  "unat (as_u128 t) = unat (nanos_since_epoch t) * 2 ^ 64 + unat (tuid_inc t)"
proof -
  let ?n = "unat (nanos_since_epoch t)"
  let ?i = "unat (tuid_inc t)"
  have n: "?n < 2 ^ 64" and i: "?i < 2 ^ 64"
    using unsigned_less [of "nanos_since_epoch t", where 'a = nat]
      unsigned_less [of "tuid_inc t", where 'a = nat] by simp_all
  have un: "unat (ucast (nanos_since_epoch t) :: 128 word) = ?n"
    using n by (simp add: unsigned_ucast_eq take_bit_nat_eq_self)
  have ui: "unat (ucast (tuid_inc t) :: 128 word) = ?i"
    using i by (simp add: unsigned_ucast_eq take_bit_nat_eq_self)
  have "?n * 2 ^ 64 < 2 ^ 64 * 2 ^ 64" using n by simp
  then have "?n * 2 ^ 64 < 2 ^ 128" by simp
  then have tb: "take_bit 128 (push_bit 64 ?n) = push_bit 64 ?n"
    by (simp only: push_bit_eq_mult take_bit_nat_eq_self)
  have "unat (as_u128 t) = take_bit 128 (push_bit 64 ?n) OR ?i"
    by (simp add: as_u128_def unsigned_or_eq unsigned_push_bit_eq un ui)
  also have "\<dots> = ?n * 2 ^ 64 + ?i" by (simp only: tb nat_push_or [OF i])
  finally show ?thesis .
qed

lemma from_u128_fields:
  "unat (nanos_since_epoch (from_u128 i)) = unat i div 2 ^ 64"
  "unat (tuid_inc (from_u128 i)) = unat i mod 2 ^ 64"
proof -
  have lt: "unat i < 2 ^ 128" using unsigned_less [of i, where 'a = nat] by simp
  have "unat i div 2 ^ 64 < 2 ^ 64" using lt by (simp add: div_less_iff_less_mult)
  then have q: "take_bit 64 (unat i div 2 ^ 64) = unat i div 2 ^ 64"
    by (simp only: take_bit_nat_eq_self)
  have d: "unat (drop_bit 64 i) = unat i div 2 ^ 64"
    by (simp only: drop_bit_eq_div unat_div_distrib) simp
  show "unat (nanos_since_epoch (from_u128 i)) = unat i div 2 ^ 64"
    unfolding nanos_since_epoch_def from_u128_def from_nanos_and_inc_def Tuid.sel bytes_roundtrip
      unsigned_ucast_eq d using q by simp
  have m: "i AND drop_bit 64 (- 1) = take_bit 64 i"
    by (rule bit_word_eqI) (auto simp: bit_simps)
  show "unat (tuid_inc (from_u128 i)) = unat i mod 2 ^ 64"
    unfolding tuid_inc_def from_u128_def from_nanos_and_inc_def Tuid.sel bytes_roundtrip
      unsigned_ucast_eq m by (simp add: take_bit_eq_mod unat_mod_distrib)
qed

lemma from_nanos_and_inc_sel [simp]:
  "nanos_since_epoch (from_nanos_and_inc n i) = n" "tuid_inc (from_nanos_and_inc n i) = i"
  "tuid_wf (from_nanos_and_inc n i)"
  by (simp_all add: nanos_since_epoch_def tuid_inc_def from_nanos_and_inc_def tuid_wf_def)

lemma from_nanos_and_inc_fields: "tuid_wf t \<Longrightarrow> from_nanos_and_inc (nanos_since_epoch t) (tuid_inc t) = t"
  by (cases t) (simp add: tuid_wf_def from_nanos_and_inc_def nanos_since_epoch_def tuid_inc_def
      u64_to_from_be_bytes)

lemma tuid_wf_from_u128 [simp]: "tuid_wf (from_u128 i)"
  by (simp add: from_u128_def)

lemma as_u128_from_u128 [simp]: "as_u128 (from_u128 i) = i"
  by (simp only: word_unat_eq_iff unat_as_u128 from_u128_fields div_mult_mod_eq)

lemma tuid_eqI:
  "tuid_wf s \<Longrightarrow> tuid_wf t \<Longrightarrow> nanos_since_epoch s = nanos_since_epoch t \<Longrightarrow>
   tuid_inc s = tuid_inc t \<Longrightarrow> s = t"
  by (metis from_nanos_and_inc_fields)

lemma from_u128_as_u128: "tuid_wf t \<Longrightarrow> from_u128 (as_u128 t) = t"
proof (rule tuid_eqI)
  have lt: "unat (tuid_inc t) < 2 ^ 64" using unsigned_less [of "tuid_inc t", where 'a = nat] by simp
  then show "nanos_since_epoch (from_u128 (as_u128 t)) = nanos_since_epoch t"
    by (simp only: word_unat_eq_iff from_u128_fields unat_as_u128 div_mult_self3 div_less)
  show "tuid_inc (from_u128 (as_u128 t)) = tuid_inc t"
    using lt by (simp only: word_unat_eq_iff from_u128_fields unat_as_u128 mod_mult_self3 mod_less)
qed simp_all

lemma tuid_less_iff:
  assumes "tuid_wf s" "tuid_wf t"
  shows "s < t \<longleftrightarrow> as_u128 s < as_u128 t"
proof -
  have b: "unat (tuid_inc s) < 2 ^ 64" "unat (tuid_inc t) < 2 ^ 64"
    using unsigned_less [of "tuid_inc s", where 'a = nat]
      unsigned_less [of "tuid_inc t", where 'a = nat] by simp_all
  have v: "unat (nanos_since_epoch u) = be_value (time_nanos u)"
    "unat (tuid_inc u) = be_value (inc_bytes u)" if "tuid_wf u" for u
    using that by (simp_all add: tuid_wf_def nanos_since_epoch_def tuid_inc_def
        unat_u64_from_be_bytes)
  have eq: "be_value (time_nanos s) = be_value (time_nanos t) \<longleftrightarrow> time_nanos s = time_nanos t"
    using assms by (metis be_bytes_value tuid_wf_def)
  have "as_u128 s < as_u128 t \<longleftrightarrow>
      be_value (time_nanos s) < be_value (time_nanos t) \<or>
      be_value (time_nanos s) = be_value (time_nanos t) \<and>
      be_value (inc_bytes s) < be_value (inc_bytes t)"
    unfolding word_less_nat_alt unat_as_u128 v [OF assms(1)] v [OF assms(2)]
    by (rule digit_compare) (use b in \<open>simp_all only: v [OF assms(1)] v [OF assms(2)]\<close>)
  with assms show ?thesis by (simp add: eq less_Tuid_def be_value_less_iff tuid_wf_def)
qed

lemma tuid_le_iff: "tuid_wf s \<Longrightarrow> tuid_wf t \<Longrightarrow> s \<le> t \<longleftrightarrow> as_u128 s \<le> as_u128 t"
  using tuid_less_iff [of t s] by (simp add: not_less [symmetric])

lemma tuid_as_bytes_eq:
  assumes "tuid_wf t"
  shows "tuid_as_bytes t = time_nanos t @ inc_bytes t"
proof -
  have len: "length (time_nanos t @ inc_bytes t) = 16" using assms by (simp add: tuid_wf_def)
  have "unat (as_u128 t) = be_value (time_nanos t @ inc_bytes t)"
    using assms by (simp add: unat_as_u128 be_value_append tuid_wf_def nanos_since_epoch_def
        tuid_inc_def unat_u64_from_be_bytes)
  then show ?thesis by (simp only: tuid_as_bytes_def be_bytes_value [OF len])
qed

lemma tuid_from_bytes_eq:
  assumes "length bs = 16"
  shows "tuid_wf (tuid_from_bytes bs)" "tuid_as_bytes (tuid_from_bytes bs) = bs"
proof -
  have "be_value bs < 2 ^ 128" using be_value_less [of bs] assms by simp
  then show "tuid_as_bytes (tuid_from_bytes bs) = bs"
    using assms by (simp add: tuid_as_bytes_def tuid_from_bytes_def unat_of_nat be_bytes_value)
qed (simp add: tuid_from_bytes_def)

lemma list_less_append:
  fixes a b c d :: "'a :: linorder list"
  shows "length a = length b \<Longrightarrow> (a @ c < b @ d) = (a < b \<or> a = b \<and> c < d)"
  by (induction a b rule: list_induct2) auto

text \<open>Hexadecimal digits.\<close>

lemma length_le_digits [simp]: "length (le_digits k n) = k"
  by (induction k arbitrary: n) auto

lemma le_digits_bound: "d \<in> set (le_digits k n) \<Longrightarrow> d < 16"
  by (induction k arbitrary: n) auto

lemma to_digit16_hex_char: "d < 16 \<Longrightarrow> to_digit16 (hex_char up d) = Some d"
  by (auto simp: to_digit16_def hex_char_def Let_def)

lemma parse_digits16_append:
  "parse_digits16 acc (xs @ ys) =
     (case parse_digits16 acc xs of Inl e \<Rightarrow> Inl e | Inr v \<Rightarrow> parse_digits16 v ys)"
  by (induction acc xs rule: parse_digits16.induct) (auto split: option.splits)

lemma parse_hex_digits:
  "n < 16 ^ k \<Longrightarrow> acc * 16 ^ k + n < 2 ^ 128 \<Longrightarrow>
   parse_digits16 acc (map (hex_char up) (rev (le_digits k n))) = Inr (acc * 16 ^ k + n)"
proof (induction k arbitrary: n)
  case (Suc k)
  have q: "n div 16 < 16 ^ k" using Suc.prems(1) by (simp add: div_less_iff_less_mult mult.commute)
  have split: "acc * 16 ^ Suc k + n = (acc * 16 ^ k + n div 16) * 16 + n mod 16"
    by (simp add: algebra_simps)
  with Suc.prems(2) have lt: "(acc * 16 ^ k + n div 16) * 16 + n mod 16 < 2 ^ 128" by simp
  moreover have "x \<le> x * 16 + n mod 16" for x by simp
  ultimately have "acc * 16 ^ k + n div 16 < 2 ^ 128" by (rule le_less_trans [rotated])
  from Suc.IH [OF q this] show ?case
    using lt split by (simp add: parse_digits16_append to_digit16_hex_char)
qed simp


lemma be_digits_less_iff:
  "n < 16 ^ k \<Longrightarrow> m < 16 ^ k \<Longrightarrow> (rev (le_digits k n) < rev (le_digits k m)) = (n < m)"
proof (induction k arbitrary: n m)
  case (Suc k)
  have q: "n div 16 < 16 ^ k" "m div 16 < 16 ^ k"
    using Suc.prems by (simp_all add: div_less_iff_less_mult mult.commute)
  have eq: "rev (le_digits k (n div 16)) = rev (le_digits k (m div 16)) \<longleftrightarrow> n div 16 = m div 16"
    using Suc.IH [OF q] Suc.IH [OF q(2,1)] by (metis linorder_neq_iff)
  have "n < m \<longleftrightarrow> n div 16 < m div 16 \<or> n div 16 = m div 16 \<and> n mod 16 < m mod 16"
    using digit_compare [of "n mod 16" 16 "m mod 16" "n div 16" "m div 16"] by simp
  with eq Suc.IH [OF q] show ?case by (simp add: list_less_append)
qed simp

lemma list_less_map:
  fixes f :: "'a :: linorder \<Rightarrow> 'b :: linorder"
  assumes "\<And>x y. x \<in> D \<Longrightarrow> y \<in> D \<Longrightarrow> f x < f y \<longleftrightarrow> x < y"
  shows "length xs = length ys \<Longrightarrow> set xs \<subseteq> D \<Longrightarrow> set ys \<subseteq> D \<Longrightarrow>
    (map f xs < map f ys) = (xs < ys)"
proof (induction xs ys rule: list_induct2)
  case (Cons x xs y ys)
  then have D: "x \<in> D" "y \<in> D" by auto
  with assms have "f x = f y \<longleftrightarrow> x = y" by (metis linorder_neq_iff)
  with Cons D assms show ?case by simp
qed simp

lemma hex_char_less: "d < 16 \<Longrightarrow> e < 16 \<Longrightarrow> hex_char up d < hex_char up e \<longleftrightarrow> d < e"
  by (auto simp: hex_char_def less_char_def)

lemma hex16_less_iff: "(hex16 up n < hex16 up m) = (n < m)"
proof -
  have "(hex16 up n < hex16 up m) = (rev (le_digits 16 (unat n)) < rev (le_digits 16 (unat m)))"
    unfolding hex16_def
    by (rule list_less_map [where D = "{..<16}"])
      (auto simp: hex_char_less dest: le_digits_bound)
  also have "\<dots> = (n < m)"
    using unsigned_less [of n, where 'a = nat] unsigned_less [of m, where 'a = nat]
    by (subst be_digits_less_iff) (simp_all add: word_less_nat_alt)
  finally show ?thesis .
qed

lemma hex16_inject: "(hex16 up n = hex16 up m) = (n = m)"
  using hex16_less_iff [of up n m] hex16_less_iff [of up m n] by (metis linorder_neq_iff)

lemma length_hex16 [simp]: "length (hex16 up n) = 16"
  by (simp add: hex16_def)

lemma tuid_less_fields:
  assumes "tuid_wf s" "tuid_wf t"
  shows "s < t \<longleftrightarrow> nanos_since_epoch s < nanos_since_epoch t
    \<or> nanos_since_epoch s = nanos_since_epoch t \<and> tuid_inc s < tuid_inc t"
proof -
  have b: "unat (tuid_inc s) < 2 ^ 64" "unat (tuid_inc t) < 2 ^ 64"
    using unsigned_less [of "tuid_inc s", where 'a = nat]
      unsigned_less [of "tuid_inc t", where 'a = nat] by simp_all
  show ?thesis
    unfolding tuid_less_iff [OF assms] word_less_nat_alt word_unat_eq_iff unat_as_u128
    by (rule digit_compare [OF b])
qed

lemma hex_char_not_plus: "d < 16 \<Longrightarrow> hex_char up d \<noteq> CHR ''+''"
  using to_digit16_hex_char [of d up] by (auto simp: to_digit16_def)

lemma hd_hex16_not_plus: "hd (hex16 up n) \<noteq> CHR ''+''"
proof -
  obtain d ds where d: "rev (le_digits 16 (unat n)) = d # ds"
    by (metis length_le_digits length_0_conv length_rev list.exhaust zero_neq_numeral)
  then have "d \<in> set (le_digits 16 (unat n))" by (metis list.set_intros(1) set_rev)
  then have "d < 16" by (rule le_digits_bound)
  with d show ?thesis by (simp add: hex16_def hex_char_not_plus)
qed

lemma parse_display: "u128_from_hex (tuid_display t) = Inr (unat (as_u128 t))"
proof -
  let ?n = "unat (nanos_since_epoch t)"
  let ?i = "unat (tuid_inc t)"
  have n: "?n < 16 ^ 16" and i: "?i < 16 ^ 16"
    using unsigned_less [of "nanos_since_epoch t", where 'a = nat]
      unsigned_less [of "tuid_inc t", where 'a = nat] by simp_all
  have u: "?n * 16 ^ 16 + ?i < 2 ^ 128"
    using unsigned_less [of "as_u128 t", where 'a = nat] by (simp add: unat_as_u128)
  have "parse_digits16 0 (tuid_display t) = Inr (?n * 16 ^ 16 + ?i)"
    using parse_hex_digits [OF n, of 0 True] parse_hex_digits [OF i u, of False] n
    by (simp add: tuid_display_def hex16_def parse_digits16_append)
  moreover have "hd (tuid_display t) \<noteq> CHR ''+''"
    by (simp add: tuid_display_def hd_hex16_not_plus hd_append flip: length_0_conv)
  moreover have "length (tuid_display t) = 32" by (simp add: tuid_display_def)
  ultimately show ?thesis by (auto simp: u128_from_hex_def unat_as_u128)
qed

section \<open>Properties\<close>

text \<open>The derived order of identifiers, the order of the 128-bit numbers, the order of the raw
  bytes and the alphabetical order of the printed identifiers are the same order.\<close>

theorem tuid_orders_agree:
  assumes "tuid_wf s" and "tuid_wf t"
  shows "(s < t) = (as_u128 s < as_u128 t) \<and> (s < t) = (tuid_as_bytes s < tuid_as_bytes t)
    \<and> (s < t) = (tuid_display s < tuid_display t)"
proof -
  have "(s < t) = (tuid_as_bytes s < tuid_as_bytes t)"
    using assms by (simp add: tuid_as_bytes_eq list_less_append tuid_wf_def less_Tuid_def)
  moreover have "(s < t) = (tuid_display s < tuid_display t)"
  proof -
    have "(tuid_display s < tuid_display t) = (nanos_since_epoch s < nanos_since_epoch t
        \<or> nanos_since_epoch s = nanos_since_epoch t \<and> tuid_inc s < tuid_inc t)"
      by (simp add: tuid_display_def list_less_append hex16_less_iff hex16_inject)
    then show ?thesis using tuid_less_fields [OF assms] by simp
  qed
  ultimately show ?thesis using tuid_less_iff [OF assms] by blast
qed

text \<open>An identifier survives every conversion: through \<open>u128\<close>, through its sixteen bytes (both
  directions) and through its printed form, which \<open>FromStr\<close> reads back.\<close>

theorem tuid_roundtrips:
  assumes "tuid_wf t" and "length bs = 16"
  shows "from_u128 (as_u128 t) = t \<and> tuid_from_bytes (tuid_as_bytes t) = t
    \<and> tuid_as_bytes (tuid_from_bytes bs) = bs \<and> tuid_from_str (tuid_display t) = Inr t"
proof -
  have u: "unat (as_u128 t) < 2 ^ 128" using unsigned_less [of "as_u128 t", where 'a = nat] by simp
  have bytes: "tuid_from_bytes (tuid_as_bytes t) = t"
    using u from_u128_as_u128 [OF assms(1)]
    by (simp add: tuid_from_bytes_def tuid_as_bytes_def be_value_bytes)
  have printed: "tuid_from_str (tuid_display t) = Inr t"
    using parse_display [of t] from_u128_as_u128 [OF assms(1)] by (simp add: tuid_from_str_def)
  show ?thesis
    using bytes printed tuid_from_bytes_eq(2) [OF assms(2)] from_u128_as_u128 [OF assms(1)] by simp
qed

theorem tuid_roundtrips_witness:
  "tuid_wf Tuid_ZERO \<and> length (replicate 16 (7 :: byte)) = 16
    \<and> tuid_from_str (tuid_display Tuid_ZERO) = Inr Tuid_ZERO"
proof -
  have a: "tuid_wf Tuid_ZERO" by (simp add: tuid_wf_def Tuid_ZERO_def)
  have b: "length (replicate 16 (7 :: byte)) = 16" by simp
  show ?thesis using a b tuid_roundtrips [OF a b] by simp
qed

theorem tuid_orders_agree_witness:
  "tuid_display (from_nanos_and_inc 1 9) < tuid_display (from_nanos_and_inc 1 10)"
proof -
  have "from_nanos_and_inc 1 9 < from_nanos_and_inc 1 10" by (simp add: tuid_less_fields)
  then show ?thesis
    using tuid_orders_agree [OF from_nanos_and_inc_sel(3) from_nanos_and_inc_sel(3)] by blast
qed

text \<open>On a clock that does not go back, and until the 64-bit counter wraps, the identifiers one
  thread generates are strictly increasing, and all of them are larger than the one it started
  from.\<close>

theorem tuid_news_increasing:
  assumes "tuid_wf latest" and "sorted (nanos_since_epoch latest # nows)"
    and "unat (tuid_inc latest) + length nows < 2 ^ 64"
  shows "sorted_wrt (<) (latest # tuid_news latest nows)"
  using assms
proof (induction nows arbitrary: latest)
  case (Cons now nows)
  let ?new = "from_nanos_and_inc now (tuid_inc latest + 1)"
  have inc: "unat (tuid_inc latest + 1) = unat (tuid_inc latest) + 1"
    using Cons.prems(3) by (simp add: unat_word_ariths)
  have "sorted_wrt (<) (?new # tuid_news ?new nows)"
    by (rule Cons.IH) (use Cons.prems inc in simp_all)
  moreover have "tuid_inc latest < tuid_inc latest + 1" by (simp add: word_less_nat_alt inc)
  then have "latest < ?new"
    using Cons.prems(1,2) by (auto simp: tuid_less_fields)
  ultimately show ?case by (auto simp: tuid_new_def Let_def intro: less_trans)
qed simp

theorem tuid_news_increasing_witness:
  "sorted_wrt (<) (Tuid_ZERO # tuid_news Tuid_ZERO [3, 3, 5])"
proof (rule tuid_news_increasing)
  have z: "u64_from_be_bytes (replicate 8 0) = 0"
    by (simp add: u64_from_be_bytes_def be_value_def eval_nat_numeral)
  show "tuid_wf Tuid_ZERO" by (simp add: tuid_wf_def Tuid_ZERO_def)
  show "sorted (nanos_since_epoch Tuid_ZERO # [3, 3, 5])"
    by (simp add: nanos_since_epoch_def Tuid_ZERO_def z)
  show "unat (tuid_inc Tuid_ZERO) + length [3, 3, 5 :: u64] < 2 ^ 64"
    by (simp add: tuid_inc_def Tuid_ZERO_def z)
qed

text \<open>\<open>incremented_by n\<close> is \<open>next\<close> repeated \<open>n\<close> times, wrap-around included, as its
  documentation says.\<close>

theorem incremented_by_iterates:
  assumes "tuid_wf t"
  shows "incremented_by t n = (tuid_next ^^ unat n) t"
proof -
  have "(tuid_next ^^ k) t = incremented_by t (word_of_nat k)" for k
  proof (induction k)
    case 0
    show ?case using assms
      by (cases t) (simp add: incremented_by_def tuid_wf_def u64_to_from_be_bytes)
  next
    case (Suc k)
    then show ?case by (simp add: tuid_next_def incremented_by_def add.commute add.left_commute)
  qed
  from this [of "unat n"] show ?thesis by simp
qed

theorem incremented_by_iterates_witness:
  "tuid_wf Tuid_MAX \<and> incremented_by Tuid_MAX 2 = (tuid_next ^^ 2) Tuid_MAX"
proof -
  have a: "tuid_wf Tuid_MAX" by (simp add: tuid_wf_def Tuid_MAX_def)
  show ?thesis using a incremented_by_iterates [OF a, of 2] by simp
qed
end
