(* ===== verification/Arrow.thy ===== *)
theory Arrow
  imports Tuid
begin

text \<open>
  Arrow arrays as the chunk code sees them, and the wrappers of \<open>crates/utils/re_arrow_util\<close>.

  A list array keeps its documented layout: an offset buffer, one flat array of values and an
  optional validity bitmap, so that zero-copy slicing (which moves the offsets and leaves the values
  alone) is visible. The compute kernels of the \<open>arrow\<close> crate (\<open>concat\<close>, \<open>filter\<close>, \<open>take\<close> and the
  copying of \<open>MutableArrayData\<close>) are not part of the repository: they are the fields of an
  \<open>arrow_kernels\<close> argument, and \<open>arrow_laws\<close> states what their documentation promises about the
  rows of the result.
\<close>

section \<open>List arrays\<close>

record 'c list_array =
  la_datatype :: string
  la_offsets :: "nat list"
  la_values :: "'c list"
  la_nulls :: "bool list option"

definition la_len :: "'c list_array \<Rightarrow> nat" where
  "la_len la = length (la_offsets la) - 1"

definition la_value :: "'c list_array \<Rightarrow> nat \<Rightarrow> 'c list" where
  "la_value la i =
     take (la_offsets la ! Suc i - la_offsets la ! i) (drop (la_offsets la ! i) (la_values la))"

definition la_is_valid :: "'c list_array \<Rightarrow> nat \<Rightarrow> bool" where
  "la_is_valid la i = (case la_nulls la of None \<Rightarrow> True | Some v \<Rightarrow> v ! i)"

definition la_validity :: "'c list_array \<Rightarrow> bool list" where
  "la_validity la = (case la_nulls la of None \<Rightarrow> replicate (la_len la) True | Some v \<Rightarrow> v)"

text \<open>\<open>ListArray::iter\<close>: one optional cell per row.\<close>

definition la_iter :: "'c list_array \<Rightarrow> 'c list option list" where
  "la_iter la = map (\<lambda>i. if la_is_valid la i then Some (la_value la i) else None) [0..<la_len la]"

text \<open>Zero-copy slicing: offsets and validity move, the values stay.\<close>

definition la_slice :: "'c list_array \<Rightarrow> nat \<Rightarrow> nat \<Rightarrow> 'c list_array" where
  "la_slice la index len = la\<lparr>
     la_offsets := take (Suc len) (drop index (la_offsets la)),
     la_nulls := map_option (\<lambda>v. take len (drop index v)) (la_nulls la)\<rparr>"

fun offsets_from :: "nat \<Rightarrow> nat list \<Rightarrow> nat list" where
  "offsets_from a [] = [a]"
| "offsets_from a (l # ls) = a # offsets_from (a + l) ls"

text \<open>\<open>OffsetBuffer::from_lengths\<close>.\<close>

definition from_lengths :: "nat list \<Rightarrow> nat list" where
  "from_lengths ls = offsets_from 0 ls"

definition la_new_null :: "string \<Rightarrow> nat \<Rightarrow> 'c list_array" where
  "la_new_null ty n = \<lparr>la_datatype = ty, la_offsets = replicate (Suc n) 0, la_values = [],
     la_nulls = Some (replicate n False)\<rparr>"

text \<open>What the constructors of a list array check.\<close>

definition la_wf :: "'c list_array \<Rightarrow> bool" where
  "la_wf la \<longleftrightarrow> la_offsets la \<noteq> [] \<and> sorted (la_offsets la)
     \<and> last (la_offsets la) \<le> length (la_values la)
     \<and> (case la_nulls la of None \<Rightarrow> True | Some v \<Rightarrow> length v = la_len la)"

section \<open>Kernels\<close>

text \<open>\<open>dyn Array\<close>: the three kinds of arrays a chunk is made of.\<close>

datatype 'c arrow_array =
  Int64Array "i64 list" | FixedSizeBinaryArray "RowId list" | ListArray "'c list_array"

datatype 'c slot = SlotI64 i64 | SlotRowId RowId | SlotList "'c list option"

datatype arrow_type = TypeI64 | TypeRowId | TypeList string

fun arr_slots :: "'c arrow_array \<Rightarrow> 'c slot list" where
  "arr_slots (Int64Array xs) = map SlotI64 xs"
| "arr_slots (FixedSizeBinaryArray xs) = map SlotRowId xs"
| "arr_slots (ListArray la) = map SlotList (la_iter la)"

fun arr_type :: "'c arrow_array \<Rightarrow> arrow_type" where
  "arr_type (Int64Array xs) = TypeI64"
| "arr_type (FixedSizeBinaryArray xs) = TypeRowId"
| "arr_type (ListArray la) = TypeList (la_datatype la)"

fun arr_wf :: "'c arrow_array \<Rightarrow> bool" where
  "arr_wf (ListArray la) = la_wf la"
| "arr_wf _ = True"

definition arr_len :: "'c arrow_array \<Rightarrow> nat" where
  "arr_len a = length (arr_slots a)"

text \<open>The kernels; \<open>None\<close> is an \<open>Err\<close>. \<open>k_concat_values\<close> concatenates the child arrays of cells.\<close>

record 'c arrow_kernels =
  k_concat :: "'c arrow_array list \<Rightarrow> 'c arrow_array option"
  k_filter :: "'c arrow_array \<Rightarrow> bool list \<Rightarrow> 'c arrow_array option"
  k_take :: "'c arrow_array \<Rightarrow> nat list \<Rightarrow> 'c arrow_array option"
  k_extend :: "'c arrow_array \<Rightarrow> nat \<Rightarrow> nat \<Rightarrow> 'c arrow_array"
  k_concat_values :: "'c list list \<Rightarrow> 'c list option"

definition arr_result :: "'c arrow_array option \<Rightarrow> arrow_type \<Rightarrow> 'c slot list \<Rightarrow> bool" where
  "arr_result r ty slots =
     (case r of None \<Rightarrow> False | Some b \<Rightarrow> arr_type b = ty \<and> arr_slots b = slots \<and> arr_wf b)"

definition concat_law :: "'c arrow_kernels \<Rightarrow> bool" where
  "concat_law K \<longleftrightarrow> (\<forall>a b. arr_wf a \<and> arr_wf b \<and> arr_type a = arr_type b \<longrightarrow>
     arr_result (k_concat K [a, b]) (arr_type a) (arr_slots a @ arr_slots b))"

definition filter_law :: "'c arrow_kernels \<Rightarrow> bool" where
  "filter_law K \<longleftrightarrow> (\<forall>a m. arr_wf a \<and> length m = arr_len a \<longrightarrow>
     arr_result (k_filter K a m) (arr_type a) (mask_select m (arr_slots a)))"

definition take_law :: "'c arrow_kernels \<Rightarrow> bool" where
  "take_law K \<longleftrightarrow> (\<forall>a is. arr_wf a \<and> set is \<subseteq> {..<arr_len a} \<longrightarrow>
     arr_result (k_take K a is) (arr_type a) (gather (arr_slots a) is))"

definition extend_law :: "'c arrow_kernels \<Rightarrow> bool" where
  "extend_law K \<longleftrightarrow> (\<forall>a s e. arr_wf a \<and> s \<le> e \<and> e \<le> arr_len a \<longrightarrow>
     arr_result (Some (k_extend K a s e)) (arr_type a) (take (e - s) (drop s (arr_slots a))))"

definition concat_values_law :: "'c arrow_kernels \<Rightarrow> bool" where
  "concat_values_law K \<longleftrightarrow> (\<forall>xs. xs \<noteq> [] \<longrightarrow> k_concat_values K xs = Some (concat xs))"

definition arrow_laws :: "'c arrow_kernels \<Rightarrow> bool" where
  "arrow_laws K \<longleftrightarrow>
     concat_law K \<and> filter_law K \<and> take_law K \<and> extend_law K \<and> concat_values_law K"

section \<open>The wrappers of re\_arrow\_util\<close>

text \<open>Downcasting; \<open>None\<close> is the \<open>unwrap\<close> that would panic.\<close>

fun as_list_array :: "'c arrow_array \<Rightarrow> 'c list_array option" where
  "as_list_array (ListArray la) = Some la"
| "as_list_array _ = None"

fun as_row_ids :: "'c arrow_array \<Rightarrow> RowId list option" where
  "as_row_ids (FixedSizeBinaryArray xs) = Some xs"
| "as_row_ids _ = None"

fun as_int64 :: "'c arrow_array \<Rightarrow> i64 list option" where
  "as_int64 (Int64Array xs) = Some xs"
| "as_int64 _ = None"

definition concat_arrays :: "'c arrow_kernels \<Rightarrow> 'c arrow_array list \<Rightarrow> 'c arrow_array option" where
  "concat_arrays K arrays = k_concat K arrays"

text \<open>\<open>filter_array\<close> asserts that the lengths agree; \<open>None\<close> is a panic.\<close>

definition filter_array :: "'c arrow_kernels \<Rightarrow> 'c arrow_array \<Rightarrow> bool list \<Rightarrow> 'c arrow_array option" where
  "filter_array K array flt =
     (if arr_len array \<noteq> length flt then None else k_filter K array flt)"

text \<open>\<open>take_array\<close> returns the array itself for the identity permutation. Its test reads
  \<open>indices[0]\<close> without a check, which panics when both sides are empty.\<close>

definition take_array :: "'c arrow_kernels \<Rightarrow> 'c arrow_array \<Rightarrow> nat list \<Rightarrow> 'c arrow_array option" where
  "take_array K array indices =
     (if length indices = arr_len array then
        if indices = [] then None
        else if hd indices = 0 \<and> windows2_all (\<lambda>a b. b = a + 1) indices then Some array
        else k_take K array indices
      else k_take K array indices)"

definition deep_slice_array :: "'c arrow_kernels \<Rightarrow> 'c arrow_array \<Rightarrow> nat \<Rightarrow> nat \<Rightarrow> 'c arrow_array" where
  "deep_slice_array K array offset len = k_extend K array offset (offset + len)"

text \<open>Padding with null rows: the offsets are rebuilt from the lengths of the cells, the values are
  kept as they are.\<close>

definition cell_lengths :: "'c list_array \<Rightarrow> nat list" where
  "cell_lengths la = map (\<lambda>r. case r of None \<Rightarrow> 0 | Some xs \<Rightarrow> length xs) (la_iter la)"

definition pad_list_array_back :: "'c list_array \<Rightarrow> nat \<Rightarrow> 'c list_array" where
  "pad_list_array_back la target_len =
     (let missing_len = target_len - la_len la in
      if missing_len = 0 then la
      else \<lparr>la_datatype = la_datatype la,
            la_offsets = from_lengths (cell_lengths la @ replicate missing_len 0),
            la_values = la_values la,
            la_nulls = Some ((case la_nulls la of Some v \<Rightarrow> v | None \<Rightarrow> replicate (la_len la) True)
              @ replicate missing_len False)\<rparr>)"

definition pad_list_array_front :: "'c list_array \<Rightarrow> nat \<Rightarrow> 'c list_array" where
  "pad_list_array_front la target_len =
     (let missing_len = target_len - la_len la in
      if missing_len = 0 then la
      else \<lparr>la_datatype = la_datatype la,
            la_offsets = from_lengths (replicate missing_len 0 @ cell_lengths la),
            la_values = la_values la,
            la_nulls = Some (replicate missing_len False
              @ (case la_nulls la of Some v \<Rightarrow> v | None \<Rightarrow> replicate (la_len la) True))\<rparr>)"

section \<open>Layout facts\<close>

lemma length_offsets_from [simp]: "length (offsets_from a ls) = Suc (length ls)"
  by (induction a ls rule: offsets_from.induct) auto

lemma offsets_from_nth: "i \<le> length ls \<Longrightarrow> offsets_from a ls ! i = a + sum_list (take i ls)"
proof (induction a ls arbitrary: i rule: offsets_from.induct)
  case (2 a l ls)
  then show ?case by (cases i) auto
qed simp

lemma offsets_from_ge: "x \<in> set (offsets_from a ls) \<Longrightarrow> a \<le> x"
  by (induction a ls arbitrary: x rule: offsets_from.induct) force+

lemma sorted_offsets_from [simp]: "sorted (offsets_from a ls)"
  by (induction a ls rule: offsets_from.induct) (auto dest: offsets_from_ge)

lemma last_offsets_from [simp]: "last (offsets_from a ls) = a + sum_list ls"
proof (induction a ls rule: offsets_from.induct)
  case (2 a l ls)
  have "offsets_from (a + l) ls \<noteq> []" using length_offsets_from [of "a + l" ls] by force
  with 2 show ?case by simp
qed simp

lemma offsets_from_not_Nil [simp]: "offsets_from a ls \<noteq> []"
  by (cases ls) auto

lemma length_la_iter [simp]: "length (la_iter la) = la_len la"
  by (simp add: la_iter_def)

lemma la_iter_nth:
  "i < la_len la \<Longrightarrow> la_iter la ! i = (if la_is_valid la i then Some (la_value la i) else None)"
  by (simp add: la_iter_def)

lemma la_iter_eqI:
  assumes "la_len a = n" "length rows = n"
    "\<And>i. i < n \<Longrightarrow> (if la_is_valid a i then Some (la_value a i) else None) = rows ! i"
  shows "la_iter a = rows"
  by (rule nth_equalityI) (use assms in \<open>auto simp: la_iter_nth\<close>)

lemma nth_concat_slice:
  "i < length xs \<Longrightarrow> take (length (xs ! i)) (drop (sum_list (take i (map length xs))) (concat xs @ r)) = xs ! i"
proof (induction xs arbitrary: i)
  case (Cons x xs)
  then show ?case by (cases i) auto
qed simp

lemma sum_list_take_Suc:
  "i < length xs \<Longrightarrow> sum_list (take (Suc i) xs) = sum_list (take i xs) + (xs ! i :: nat)"
  by (simp add: take_Suc_conv_app_nth)

text \<open>An array built from the lengths and the concatenation of its cells has those cells.\<close>

lemma la_value_from_lengths:
  assumes "la_offsets la = from_lengths (map length xs)" "la_values la = concat xs @ r"
    and "i < length xs"
  shows "la_value la i = xs ! i"
proof -
  have "la_value la i =
      take (length (xs ! i)) (drop (sum_list (take i (map length xs))) (concat xs @ r))"
    using assms by (simp add: la_value_def from_lengths_def offsets_from_nth sum_list_take_Suc
        del: take_append drop_append)
  then show ?thesis using assms(3) by (simp only: nth_concat_slice)
qed


lemma la_len_slice: "index + len \<le> la_len la \<Longrightarrow> la_wf la \<Longrightarrow> la_len (la_slice la index len) = len"
  by (auto simp: la_len_def la_slice_def la_wf_def)

lemma la_iter_slice:
  assumes "la_wf la" "index + len \<le> la_len la"
  shows "la_iter (la_slice la index len) = take len (drop index (la_iter la))"
proof (rule la_iter_eqI [where n = len])
  fix i assume i: "i < len"
  have "la_is_valid (la_slice la index len) i = la_is_valid la (index + i)"
    using assms i by (auto simp: la_is_valid_def la_slice_def la_wf_def split: option.splits)
  moreover have "la_value (la_slice la index len) i = la_value la (index + i)"
    using assms i by (simp add: la_value_def la_slice_def la_len_def nth_take)
  ultimately show "(if la_is_valid (la_slice la index len) i
      then Some (la_value (la_slice la index len) i) else None) = take len (drop index (la_iter la)) ! i"
    using assms i by (simp add: la_iter_nth)
qed (use assms in \<open>auto simp: la_len_slice\<close>)

lemma la_wf_slice:
  assumes "la_wf la" "index + len \<le> la_len la"
  shows "la_wf (la_slice la index len)"
proof -
  let ?o = "take (Suc len) (drop index (la_offsets la))"
  have "index < length (la_offsets la)"
    using assms by (cases "la_offsets la") (auto simp: la_wf_def la_len_def)
  then have ne: "?o \<noteq> []" by simp
  then have "last ?o \<in> set (la_offsets la)"
    by (meson in_set_dropD in_set_takeD last_in_set)
  then have "last ?o \<le> last (la_offsets la)"
    using assms(1) by (metis la_wf_def last_conv_nth in_set_conv_nth sorted_nth_mono
        length_greater_0_conv diff_less less_Suc_eq_le Suc_diff_1 zero_less_one)
  then show ?thesis
    using assms ne la_len_slice [OF assms(2,1)]
    by (auto simp: la_wf_def la_slice_def sorted_wrt_drop sorted_wrt_take split: option.splits)
qed

section \<open>Typed wrappers\<close>

definition filter_list :: "'c arrow_kernels \<Rightarrow> 'c list_array \<Rightarrow> bool list \<Rightarrow> 'c list_array option" where
  "filter_list K la flt = Option.bind (filter_array K (ListArray la) flt) as_list_array"

definition filter_row_ids :: "'c arrow_kernels \<Rightarrow> RowId list \<Rightarrow> bool list \<Rightarrow> RowId list option" where
  "filter_row_ids K ids flt = Option.bind (filter_array K (FixedSizeBinaryArray ids) flt) as_row_ids"

definition filter_int64 :: "'c arrow_kernels \<Rightarrow> i64 list \<Rightarrow> bool list \<Rightarrow> i64 list option" where
  "filter_int64 K xs flt = Option.bind (filter_array K (Int64Array xs) flt) as_int64"

definition take_list :: "'c arrow_kernels \<Rightarrow> 'c list_array \<Rightarrow> nat list \<Rightarrow> 'c list_array option" where
  "take_list K la indices = Option.bind (take_array K (ListArray la) indices) as_list_array"

definition take_row_ids :: "'c arrow_kernels \<Rightarrow> RowId list \<Rightarrow> nat list \<Rightarrow> RowId list option" where
  "take_row_ids K ids indices = Option.bind (take_array K (FixedSizeBinaryArray ids) indices) as_row_ids"

definition take_int64 :: "'c arrow_kernels \<Rightarrow> i64 list \<Rightarrow> nat list \<Rightarrow> i64 list option" where
  "take_int64 K xs indices = Option.bind (take_array K (Int64Array xs) indices) as_int64"

definition concat_lists :: "'c arrow_kernels \<Rightarrow> 'c list_array \<Rightarrow> 'c list_array \<Rightarrow> 'c list_array option" where
  "concat_lists K a b = Option.bind (concat_arrays K [ListArray a, ListArray b]) as_list_array"

definition concat_row_ids :: "'c arrow_kernels \<Rightarrow> RowId list \<Rightarrow> RowId list \<Rightarrow> RowId list option" where
  "concat_row_ids K a b =
     Option.bind (concat_arrays K [FixedSizeBinaryArray a, FixedSizeBinaryArray b]) as_row_ids"

definition deep_slice_list :: "'c arrow_kernels \<Rightarrow> 'c list_array \<Rightarrow> nat \<Rightarrow> nat \<Rightarrow> 'c list_array option" where
  "deep_slice_list K la offset len = as_list_array (deep_slice_array K (ListArray la) offset len)"

definition deep_slice_row_ids :: "'c arrow_kernels \<Rightarrow> RowId list \<Rightarrow> nat \<Rightarrow> nat \<Rightarrow> RowId list option" where
  "deep_slice_row_ids K ids offset len =
     as_row_ids (deep_slice_array K (FixedSizeBinaryArray ids) offset len)"

text \<open>A list array that carries the given rows: what every list kernel returns.\<close>

definition list_with_rows :: "string \<Rightarrow> 'c list option list \<Rightarrow> 'c list_array option \<Rightarrow> bool" where
  "list_with_rows ty rows r =
     (case r of None \<Rightarrow> False | Some b \<Rightarrow> la_datatype b = ty \<and> la_iter b = rows \<and> la_wf b)"

lemma list_with_rowsE:
  assumes "list_with_rows ty rows r"
  obtains b where "r = Some b" "la_datatype b = ty" "la_iter b = rows" "la_wf b"
  using assms by (auto simp: list_with_rows_def split: option.splits)

lemma slot_maps_inject [simp]:
  "map SlotList xs = map SlotList ys \<longleftrightarrow> xs = ys"
  "map SlotRowId is = map SlotRowId js \<longleftrightarrow> is = js"
  "map SlotI64 ts = map SlotI64 us \<longleftrightarrow> ts = us"
  by (auto intro!: map_injective simp: inj_def)

lemma arr_result_list:
  "arr_result r (TypeList ty) (map SlotList rows) \<Longrightarrow>
   list_with_rows ty rows (Option.bind r as_list_array)"
proof -
  assume r: "arr_result r (TypeList ty) (map SlotList rows)"
  then obtain b where b: "r = Some b" "arr_type b = TypeList ty" "arr_slots b = map SlotList rows"
    "arr_wf b" by (auto simp: arr_result_def split: option.splits)
  then obtain la where la: "b = ListArray la" by (cases b) auto
  with b la show ?thesis by (simp add: list_with_rows_def)
qed

lemma arr_result_row_ids:
  "arr_result r TypeRowId (map SlotRowId ids) \<Longrightarrow> Option.bind r as_row_ids = Some ids"
proof -
  assume r: "arr_result r TypeRowId (map SlotRowId ids)"
  then obtain b where b: "r = Some b" "arr_type b = TypeRowId" "arr_slots b = map SlotRowId ids"
    by (auto simp: arr_result_def split: option.splits)
  with b show ?thesis by (cases b) auto
qed

lemma arr_result_int64:
  "arr_result r TypeI64 (map SlotI64 xs) \<Longrightarrow> Option.bind r as_int64 = Some xs"
proof -
  assume r: "arr_result r TypeI64 (map SlotI64 xs)"
  then obtain b where b: "r = Some b" "arr_type b = TypeI64" "arr_slots b = map SlotI64 xs"
    by (auto simp: arr_result_def split: option.splits)
  with b show ?thesis by (cases b) auto
qed

lemma arr_len_simps [simp]:
  "arr_len (Int64Array xs) = length xs" "arr_len (FixedSizeBinaryArray ids) = length ids"
  "arr_len (ListArray la) = la_len la"
  by (simp_all add: arr_len_def)


text \<open>The laws, one kernel at a time.\<close>

lemma arrow_lawsD:
  assumes "arrow_laws K"
  shows "arr_wf a \<Longrightarrow> arr_wf b \<Longrightarrow> arr_type a = arr_type b \<Longrightarrow>
      arr_result (k_concat K [a, b]) (arr_type a) (arr_slots a @ arr_slots b)"
    and "arr_wf a \<Longrightarrow> length m = arr_len a \<Longrightarrow>
      arr_result (k_filter K a m) (arr_type a) (mask_select m (arr_slots a))"
    and "arr_wf a \<Longrightarrow> set is \<subseteq> {..<arr_len a} \<Longrightarrow>
      arr_result (k_take K a is) (arr_type a) (gather (arr_slots a) is)"
    and "arr_wf a \<Longrightarrow> s \<le> e \<Longrightarrow> e \<le> arr_len a \<Longrightarrow>
      arr_result (Some (k_extend K a s e)) (arr_type a) (take (e - s) (drop s (arr_slots a)))"
    and "xs \<noteq> [] \<Longrightarrow> k_concat_values K xs = Some (concat xs)"
  using assms
  unfolding arrow_laws_def concat_law_def filter_law_def take_law_def extend_law_def
    concat_values_law_def
  by blast+

text \<open>Under the laws, every wrapper acts on the rows as the list function it is named after.\<close>

lemma filter_list_rows:
  "arrow_laws K \<Longrightarrow> la_wf la \<Longrightarrow> length m = la_len la \<Longrightarrow>
   list_with_rows (la_datatype la) (mask_select m (la_iter la)) (filter_list K la m)"
  unfolding filter_list_def
  by (rule arr_result_list)
    (use arrow_lawsD(2) [of K "ListArray la" m] in \<open>simp add: map_mask_select filter_array_def\<close>)

lemma filter_row_ids_eq:
  "arrow_laws K \<Longrightarrow> length m = length ids \<Longrightarrow> filter_row_ids K ids m = Some (mask_select m ids)"
  unfolding filter_row_ids_def
  by (rule arr_result_row_ids)
    (use arrow_lawsD(2) [of K "FixedSizeBinaryArray ids" m]
      in \<open>simp add: map_mask_select filter_array_def\<close>)

lemma filter_int64_eq:
  "arrow_laws K \<Longrightarrow> length m = length xs \<Longrightarrow> filter_int64 K xs m = Some (mask_select m xs)"
  unfolding filter_int64_def
  by (rule arr_result_int64)
    (use arrow_lawsD(2) [of K "Int64Array xs" m] in \<open>simp add: map_mask_select filter_array_def\<close>)

lemma filter_int64_length: "length m \<noteq> length xs \<Longrightarrow> filter_int64 K xs m = None"
  by (simp add: filter_int64_def filter_array_def)

lemma consecutive_upt:
  "windows2_all (\<lambda>a b. b = a + 1) is \<Longrightarrow> is \<noteq> [] \<Longrightarrow> is = [hd is..<hd is + length is]"
proof (induction "is")
  case (Cons x zs)
  show ?case
  proof (cases zs)
    case (Cons y ws)
    with Cons.prems have y: "y = x + 1" and w: "windows2_all (\<lambda>a b. b = a + 1) zs" by auto
    have "zs = [y..<y + length zs]" using Cons.IH [OF w] Cons by simp
    then show ?thesis using y by (simp add: upt_conv_Cons del: upt_Suc)
  qed simp
qed simp

lemma take_array_result:
  assumes "arrow_laws K" "arr_wf a" "is \<noteq> [] \<or> arr_len a \<noteq> 0" "set is \<subseteq> {..<arr_len a}"
  shows "arr_result (take_array K a is) (arr_type a) (gather (arr_slots a) is)"
proof (cases "length is = arr_len a \<and> hd is = 0 \<and> windows2_all (\<lambda>a b. b = a + 1) is")
  case True
  with assms(3) have "is \<noteq> []" by auto
  with True have "is = [0..<arr_len a]" using consecutive_upt [of "is"] by simp
  then have "gather (arr_slots a) is = arr_slots a" by (simp add: arr_len_def)
  with True assms(2) \<open>is \<noteq> []\<close> show ?thesis by (simp add: take_array_def arr_result_def)
next
  case False
  then have "take_array K a is = k_take K a is" using assms(3) by (auto simp: take_array_def)
  with arrow_lawsD(3) [OF assms(1,2,4)] show ?thesis by simp
qed

lemma take_list_rows:
  "arrow_laws K \<Longrightarrow> la_wf la \<Longrightarrow> is \<noteq> [] \<or> la_len la \<noteq> 0 \<Longrightarrow> set is \<subseteq> {..<la_len la} \<Longrightarrow>
   list_with_rows (la_datatype la) (gather (la_iter la) is) (take_list K la is)"
  unfolding take_list_def
  by (rule arr_result_list)
    (use take_array_result [of K "ListArray la" "is"] in \<open>simp add: map_gather\<close>)

lemma take_row_ids_eq:
  "arrow_laws K \<Longrightarrow> is \<noteq> [] \<or> ids \<noteq> [] \<Longrightarrow> set is \<subseteq> {..<length ids} \<Longrightarrow>
   take_row_ids K ids is = Some (gather ids is)"
  unfolding take_row_ids_def
  by (rule arr_result_row_ids)
    (use take_array_result [of K "FixedSizeBinaryArray ids" "is"] in \<open>simp add: map_gather\<close>)

lemma take_int64_eq:
  "arrow_laws K \<Longrightarrow> is \<noteq> [] \<or> xs \<noteq> [] \<Longrightarrow> set is \<subseteq> {..<length xs} \<Longrightarrow>
   take_int64 K xs is = Some (gather xs is)"
  unfolding take_int64_def
  by (rule arr_result_int64)
    (use take_array_result [of K "Int64Array xs" "is"] in \<open>simp add: map_gather\<close>)

lemma concat_lists_rows:
  "arrow_laws K \<Longrightarrow> la_wf a \<Longrightarrow> la_wf b \<Longrightarrow> la_datatype a = la_datatype b \<Longrightarrow>
   list_with_rows (la_datatype a) (la_iter a @ la_iter b) (concat_lists K a b)"
  unfolding concat_lists_def concat_arrays_def
  by (rule arr_result_list) (use arrow_lawsD(1) [of K "ListArray a" "ListArray b"] in simp)

lemma concat_row_ids_eq: "arrow_laws K \<Longrightarrow> concat_row_ids K a b = Some (a @ b)"
  unfolding concat_row_ids_def concat_arrays_def
  by (rule arr_result_row_ids)
    (use arrow_lawsD(1) [of K "FixedSizeBinaryArray a" "FixedSizeBinaryArray b"] in simp)

lemma deep_slice_list_rows:
  assumes "arrow_laws K" "la_wf la" "offset + len \<le> la_len la"
  shows "list_with_rows (la_datatype la) (take len (drop offset (la_iter la)))
    (deep_slice_list K la offset len)"
proof -
  have "arr_result (Some (k_extend K (ListArray la) offset (offset + len)))
      (TypeList (la_datatype la)) (map SlotList (take len (drop offset (la_iter la))))"
    using assms arrow_lawsD(4) [of K "ListArray la" offset "offset + len"]
    by (simp add: take_map drop_map)
  from arr_result_list [OF this] show ?thesis
    by (simp add: deep_slice_list_def deep_slice_array_def)
qed

lemma deep_slice_row_ids_eq:
  assumes "arrow_laws K" "offset + len \<le> length ids"
  shows "deep_slice_row_ids K ids offset len = Some (take len (drop offset ids))"
proof -
  have "arr_result (Some (k_extend K (FixedSizeBinaryArray ids) offset (offset + len)))
      TypeRowId (map SlotRowId (take len (drop offset ids)))"
    using assms arrow_lawsD(4) [of K "FixedSizeBinaryArray ids" offset "offset + len"]
    by (simp add: take_map drop_map)
  from arr_result_row_ids [OF this] show ?thesis
    by (simp add: deep_slice_row_ids_def deep_slice_array_def)
qed

section \<open>Padding\<close>

text \<open>The layout padding relies on: the offsets start at zero and null rows own no values.\<close>

definition la_compact :: "'c list_array \<Rightarrow> bool" where
  "la_compact la \<longleftrightarrow> la_wf la \<and> hd (la_offsets la) = 0
     \<and> (\<forall>i < la_len la. \<not> la_is_valid la i \<longrightarrow> la_offsets la ! Suc i = la_offsets la ! i)"

lemma length_la_value:
  assumes "la_wf la" "i < la_len la"
  shows "length (la_value la i) = la_offsets la ! Suc i - la_offsets la ! i"
    "la_offsets la ! i \<le> la_offsets la ! Suc i"
proof -
  have l: "Suc i < length (la_offsets la)" using assms by (simp add: la_len_def)
  then show le: "la_offsets la ! i \<le> la_offsets la ! Suc i"
    using assms(1) by (simp add: la_wf_def sorted_nth_mono)
  have "la_offsets la ! Suc i \<le> last (la_offsets la)"
    using l assms(1) by (auto simp: la_wf_def last_conv_nth intro!: sorted_nth_mono)
  then have "la_offsets la ! Suc i \<le> length (la_values la)" using assms(1) by (simp add: la_wf_def)
  then show "length (la_value la i) = la_offsets la ! Suc i - la_offsets la ! i"
    by (simp add: la_value_def)
qed

lemma cell_lengths_nth:
  assumes "la_compact la" "i < la_len la"
  shows "cell_lengths la ! i = la_offsets la ! Suc i - la_offsets la ! i"
  using assms length_la_value [of la i]
  by (auto simp: cell_lengths_def la_iter_nth la_compact_def)

lemma length_cell_lengths [simp]: "length (cell_lengths la) = la_len la"
  by (simp add: cell_lengths_def)

lemma offsets_compact:
  assumes "la_compact la"
  shows "i \<le> la_len la \<Longrightarrow> la_offsets la ! i = sum_list (take i (cell_lengths la))"
proof (induction i)
  case 0
  have "la_offsets la \<noteq> []" "hd (la_offsets la) = 0"
    using assms by (simp_all add: la_compact_def la_wf_def)
  then show ?case by (cases "la_offsets la") auto
next
  case (Suc i)
  then have "la_offsets la ! i \<le> la_offsets la ! Suc i"
    using assms by (intro length_la_value(2)) (simp_all add: la_compact_def)
  with Suc assms show ?case by (simp add: sum_list_take_Suc cell_lengths_nth)
qed

lemma sum_list_take_replicate_0 [simp]: "sum_list (take i (replicate n (0::nat))) = 0"
  by (simp add: take_replicate)

lemma la_validity_nth: "i < la_len la \<Longrightarrow> la_validity la ! i = la_is_valid la i"
  by (auto simp: la_validity_def la_is_valid_def split: option.splits)

lemma length_la_validity: "la_wf la \<Longrightarrow> length (la_validity la) = la_len la"
  by (auto simp: la_validity_def la_wf_def split: option.splits)

lemma offsets_bound:
  assumes "la_wf la" "i \<le> la_len la"
  shows "la_offsets la ! i \<le> length (la_values la)"
proof -
  have "i < length (la_offsets la)" using assms by (cases "la_offsets la") (auto simp: la_wf_def la_len_def)
  then have "la_offsets la ! i \<le> last (la_offsets la)"
    using assms(1) by (auto simp: la_wf_def last_conv_nth intro!: sorted_nth_mono)
  with assms(1) show ?thesis by (simp add: la_wf_def)
qed

lemma sum_cell_lengths:
  "la_compact la \<Longrightarrow> sum_list (cell_lengths la) \<le> length (la_values la)"
  using offsets_compact [of la "la_len la"] offsets_bound [of la "la_len la"]
  by (simp add: la_compact_def)

lemma pad_list_array_back_rows:
  assumes c: "la_compact la"
  shows "la_iter (pad_list_array_back la n) = la_iter la @ replicate (n - la_len la) None"
    and "la_wf (pad_list_array_back la n)"
proof -
  let ?m = "n - la_len la" and ?p = "pad_list_array_back la n"
  have wf: "la_wf la" using c by (simp add: la_compact_def)
  note v = length_la_validity [OF wf]
  have *: "la_iter ?p = la_iter la @ replicate ?m None \<and> la_wf ?p" if "?m \<noteq> 0"
  proof
    have p: "la_offsets ?p = from_lengths (cell_lengths la @ replicate ?m 0)"
        "la_nulls ?p = Some (la_validity la @ replicate ?m False)" "la_values ?p = la_values la"
      using that by (auto simp: pad_list_array_back_def la_validity_def Let_def split: option.splits)
    have len: "la_len ?p = la_len la + ?m" by (simp add: la_len_def [of ?p] p from_lengths_def)
    have off: "la_offsets ?p ! i = la_offsets la ! i" if "i \<le> la_len la" for i
      using that by (simp add: p from_lengths_def offsets_from_nth offsets_compact [OF c])
    show "la_iter ?p = la_iter la @ replicate ?m None"
    proof (rule la_iter_eqI [OF len])
      fix i assume "i < la_len la + ?m"
      then show "(if la_is_valid ?p i then Some (la_value ?p i) else None)
          = (la_iter la @ replicate ?m None) ! i"
        by (cases "i < la_len la")
          (simp_all add: nth_append la_iter_nth la_is_valid_def [of ?p] la_value_def p(2,3) v off
            la_validity_nth)
    qed simp
    show "la_wf ?p"
      using sum_cell_lengths [OF c] by (simp add: la_wf_def len p v) (simp add: from_lengths_def sum_list_replicate)
  qed
  then show "la_iter ?p = la_iter la @ replicate ?m None" "la_wf ?p"
    using wf by (cases "?m = 0"; simp add: pad_list_array_back_def)+
qed

lemma pad_list_array_front_rows:
  assumes c: "la_compact la"
  shows "la_iter (pad_list_array_front la n) = replicate (n - la_len la) None @ la_iter la"
    and "la_wf (pad_list_array_front la n)"
proof -
  let ?m = "n - la_len la" and ?p = "pad_list_array_front la n"
  have wf: "la_wf la" using c by (simp add: la_compact_def)
  note v = length_la_validity [OF wf]
  have *: "la_iter ?p = replicate ?m None @ la_iter la \<and> la_wf ?p" if "?m \<noteq> 0"
  proof
    have p: "la_offsets ?p = from_lengths (replicate ?m 0 @ cell_lengths la)"
        "la_nulls ?p = Some (replicate ?m False @ la_validity la)" "la_values ?p = la_values la"
      using that by (auto simp: pad_list_array_front_def la_validity_def Let_def split: option.splits)
    have len: "la_len ?p = ?m + la_len la" by (simp add: la_len_def [of ?p] p from_lengths_def)
    have off: "la_offsets ?p ! (?m + i) = la_offsets la ! i" if "i \<le> la_len la" for i
      using that by (simp add: p from_lengths_def offsets_from_nth offsets_compact [OF c])
    show "la_iter ?p = replicate ?m None @ la_iter la"
    proof (rule la_iter_eqI [OF len])
      fix i assume i: "i < ?m + la_len la"
      show "(if la_is_valid ?p i then Some (la_value ?p i) else None)
          = (replicate ?m None @ la_iter la) ! i"
      proof (cases "i < ?m")
        case False
        then obtain j where j: "i = ?m + j" "j < la_len la" using i
          by (metis add_less_cancel_left le_Suc_ex linorder_not_less)
        have "la_offsets ?p ! Suc i = la_offsets la ! Suc j" using off [of "Suc j"] j by simp
        then show ?thesis using j off [of j]
          by (simp add: nth_append la_iter_nth la_is_valid_def [of ?p] la_value_def p(2,3) v
            la_validity_nth)
      qed (simp add: nth_append la_is_valid_def p(2))
    qed simp
    show "la_wf ?p"
      using sum_cell_lengths [OF c] by (simp add: la_wf_def len p v) (simp add: from_lengths_def sum_list_replicate)
  qed
  then show "la_iter ?p = replicate ?m None @ la_iter la" "la_wf ?p"
    using wf by (cases "?m = 0"; simp add: pad_list_array_front_def)+
qed

lemma pad_list_array_datatype [simp]:
  "la_datatype (pad_list_array_back la n) = la_datatype la"
  "la_datatype (pad_list_array_front la n) = la_datatype la"
  by (simp_all add: pad_list_array_back_def pad_list_array_front_def Let_def)

section \<open>Reference kernels\<close>

text \<open>The laws can hold: the kernels that rebuild an array from the list of its rows satisfy them.
  Concrete runs of the chunk operations use these kernels.\<close>

definition la_of_rows :: "string \<Rightarrow> 'c list option list \<Rightarrow> 'c list_array" where
  "la_of_rows ty rows =
     (let cells = map (\<lambda>r. case r of None \<Rightarrow> [] | Some xs \<Rightarrow> xs) rows in
      \<lparr>la_datatype = ty, la_offsets = from_lengths (map length cells), la_values = concat cells,
       la_nulls = Some (map (\<lambda>r. r \<noteq> None) rows)\<rparr>)"

fun slot_list :: "'c slot \<Rightarrow> 'c list option" where
  "slot_list (SlotList r) = r"
| "slot_list _ = None"

fun slot_row_id :: "'c slot \<Rightarrow> RowId" where
  "slot_row_id (SlotRowId r) = r"
| "slot_row_id _ = Tuid_ZERO"

fun slot_i64 :: "'c slot \<Rightarrow> i64" where
  "slot_i64 (SlotI64 x) = x"
| "slot_i64 _ = 0"

fun arr_of_slots :: "arrow_type \<Rightarrow> 'c slot list \<Rightarrow> 'c arrow_array" where
  "arr_of_slots TypeI64 ss = Int64Array (map slot_i64 ss)"
| "arr_of_slots TypeRowId ss = FixedSizeBinaryArray (map slot_row_id ss)"
| "arr_of_slots (TypeList ty) ss = ListArray (la_of_rows ty (map slot_list ss))"

fun list_concat :: "'c arrow_array list \<Rightarrow> 'c arrow_array option" where
  "list_concat [] = None"
| "list_concat (a # as) = (if \<forall>b\<in>set as. arr_type b = arr_type a
     then Some (arr_of_slots (arr_type a) (concat (map arr_slots (a # as)))) else None)"

definition list_kernels :: "'c arrow_kernels" where
  "list_kernels = \<lparr>
     k_concat = list_concat,
     k_filter = (\<lambda>a m. Some (arr_of_slots (arr_type a) (mask_select m (arr_slots a)))),
     k_take = (\<lambda>a is. if \<forall>i\<in>set is. i < arr_len a
       then Some (arr_of_slots (arr_type a) (gather (arr_slots a) is)) else None),
     k_extend = (\<lambda>a s e. arr_of_slots (arr_type a) (take (e - s) (drop s (arr_slots a)))),
     k_concat_values = (\<lambda>xs. if xs = [] then None else Some (concat xs))\<rparr>"

lemma la_len_of_rows [simp]: "la_len (la_of_rows ty rows) = length rows"
  by (simp add: la_len_def la_of_rows_def from_lengths_def)

lemma la_of_rows_rows [simp]: "la_iter (la_of_rows ty rows) = rows"
proof (rule la_iter_eqI [where n = "length rows"])
  fix i assume i: "i < length rows"
  let ?c = "map (\<lambda>r. case r of None \<Rightarrow> [] | Some xs \<Rightarrow> xs) rows"
  have "la_value (la_of_rows ty rows) i = ?c ! i"
    by (rule la_value_from_lengths [where r = "[]"]) (use i in \<open>simp_all add: la_of_rows_def\<close>)
  then show "(if la_is_valid (la_of_rows ty rows) i then Some (la_value (la_of_rows ty rows) i)
      else None) = rows ! i"
    using i by (auto simp: la_is_valid_def la_of_rows_def)
qed simp_all

lemma la_wf_of_rows [simp]: "la_wf (la_of_rows ty rows)"
  by (simp add: la_wf_def)
    (simp add: la_len_def la_of_rows_def from_lengths_def length_concat comp_def)

lemma la_compact_of_rows: "la_compact (la_of_rows ty rows)"
proof -
  have "hd (la_offsets (la_of_rows ty rows)) = 0"
    by (simp add: la_of_rows_def from_lengths_def) (cases rows; simp)
  moreover have "la_offsets (la_of_rows ty rows) ! Suc i = la_offsets (la_of_rows ty rows) ! i"
    if "i < length rows" "\<not> la_is_valid (la_of_rows ty rows) i" for i
    using that by (simp add: la_of_rows_def from_lengths_def offsets_from_nth sum_list_take_Suc
        la_is_valid_def)
  ultimately show ?thesis by (simp add: la_compact_def)
qed

text \<open>Slots drawn from an array of a type rebuild to an array with those slots.\<close>

lemma arr_of_slots_result:
  assumes "set ss \<subseteq> (\<Union>a\<in>{a. arr_type a = ty}. set (arr_slots a))"
  shows "arr_result (Some (arr_of_slots ty ss)) ty ss"
proof (cases ty)
  case TypeI64
  have "\<exists>x. s = SlotI64 x" if "s \<in> set ss" for s
  proof -
    from that assms obtain a where "arr_type a = TypeI64" "s \<in> set (arr_slots a)"
      using TypeI64 by blast
    then show ?thesis by (cases a) auto
  qed
  then have "map (\<lambda>s. SlotI64 (slot_i64 s)) ss = ss" by (intro map_idI) force
  then show ?thesis using TypeI64 by (simp add: arr_result_def comp_def)
next
  case TypeRowId
  have "\<exists>x. s = SlotRowId x" if "s \<in> set ss" for s
  proof -
    from that assms obtain a where "arr_type a = TypeRowId" "s \<in> set (arr_slots a)"
      using TypeRowId by blast
    then show ?thesis by (cases a) auto
  qed
  then have "map (\<lambda>s. SlotRowId (slot_row_id s)) ss = ss" by (intro map_idI) force
  then show ?thesis using TypeRowId by (simp add: arr_result_def comp_def)
next
  case (TypeList t)
  have "\<exists>x. s = SlotList x" if "s \<in> set ss" for s
  proof -
    from that assms obtain a where "arr_type a = TypeList t" "s \<in> set (arr_slots a)"
      using TypeList by blast
    then show ?thesis by (cases a) auto
  qed
  then have "map (\<lambda>s. SlotList (slot_list s)) ss = ss" by (intro map_idI) force
  moreover have "la_datatype (la_of_rows t xs) = t" for xs :: "'a list option list"
    by (simp add: la_of_rows_def Let_def)
  ultimately show ?thesis using TypeList by (simp add: arr_result_def comp_def)
qed

lemma set_gather_subset: "set is \<subseteq> {..<length xs} \<Longrightarrow> set (gather xs is) \<subseteq> set xs"
  by (auto simp: gather_def)

lemma arrow_laws_list_kernels [simp]: "arrow_laws list_kernels"
proof -
  have sub: "arr_result (Some (arr_of_slots (arr_type a) ss)) (arr_type a) ss"
    if "set ss \<subseteq> set (arr_slots a)" for a :: "'a arrow_array" and ss
    using that by (intro arr_of_slots_result) blast
  have "arr_result (Some (arr_of_slots (arr_type a) (arr_slots a @ arr_slots b))) (arr_type a)
      (arr_slots a @ arr_slots b)" if "arr_type a = arr_type b" for a b :: "'a arrow_array"
    by (rule arr_of_slots_result) (use that in auto)
  then have "concat_law (list_kernels :: 'a arrow_kernels)"
    by (simp add: concat_law_def list_kernels_def)
  moreover have "filter_law (list_kernels :: 'a arrow_kernels)"
    by (auto simp: filter_law_def list_kernels_def intro!: sub set_mask_select)
  moreover have "take_law (list_kernels :: 'a arrow_kernels)"
    by (auto simp: take_law_def list_kernels_def arr_len_def intro!: sub set_gather_subset)
  moreover have "extend_law (list_kernels :: 'a arrow_kernels)"
    by (auto simp: extend_law_def list_kernels_def intro!: sub dest!: in_set_takeD in_set_dropD)
  moreover have "concat_values_law (list_kernels :: 'a arrow_kernels)"
    by (simp add: concat_values_law_def list_kernels_def)
  ultimately show ?thesis by (simp add: arrow_laws_def)
qed

end
