(* ===== verification/Time_Int.thy ===== *)
theory Time_Int
  imports Prelude
begin

text \<open>
  Time values of \<open>re_log_types::index\<close>: \<open>NonMinI64\<close> (an \<open>i64\<close> that is never \<open>i64::MIN\<close>, kept in
  a \<open>NonZeroI64\<close> by flipping the top bit), \<open>TimeInt\<close> (a time, or the static marker in the niche)
  and \<open>AbsoluteTimeRange\<close>. The lemmas relate each operation to integer arithmetic: the niche
  encoding is a faithful copy of the non-minimal integers, the derived orders are the integer
  orders with the static time below every time, arithmetic saturates and never leaves the
  temporal values, and a range is the interval of its bounds.
\<close>

unbundle bit_operations_syntax

section \<open>NonMinI64\<close>

text \<open>\<open>core::num::NonZeroI64\<close> is a 64-bit word different from zero; \<open>NonMinI64\<close> wraps it.\<close>

typedef NonMinI64 = "{w :: 64 word. w \<noteq> 0}"
  morphisms inner NonMinI64
  by (rule exI [of _ 1]) simp

setup_lifting type_definition_NonMinI64

definition i64_MIN_word :: "64 word" where
  "i64_MIN_word = 0x8000000000000000"

text \<open>\<open>NonMinI64::new\<close>: flip the top bit; zero, the image of \<open>i64::MIN\<close>, is refused.\<close>

lift_definition (code_dt) nonmin_new :: "i64 \<Rightarrow> NonMinI64 option" is
  "\<lambda>value. let w = (word_of_int value :: 64 word) XOR i64_MIN_word
           in if w = 0 then None else Some w"
  by (simp add: Let_def)

text \<open>\<open>NonMinI64::get\<close>.\<close>

lift_definition nonmin_get :: "NonMinI64 \<Rightarrow> i64" is
  "\<lambda>w. sint (w XOR i64_MIN_word)" .

text \<open>\<open>NonMinI64::new_unchecked\<close> is unsafe: its result is undefined when the value is
  \<open>i64::MIN\<close>, which is \<open>None\<close> here.\<close>

definition nonmin_new_unchecked :: "i64 \<Rightarrow> NonMinI64 option" where
  "nonmin_new_unchecked value = nonmin_new value"

definition NonMinI64_ZERO :: NonMinI64 where
  "NonMinI64_ZERO = the (nonmin_new_unchecked 0)"

definition NonMinI64_ONE :: NonMinI64 where
  "NonMinI64_ONE = the (nonmin_new_unchecked 1)"

definition NonMinI64_MIN :: NonMinI64 where
  "NonMinI64_MIN = the (nonmin_new_unchecked (i64_MIN + 1))"

definition NonMinI64_MAX :: NonMinI64 where
  "NonMinI64_MAX = the (nonmin_new_unchecked i64_MAX)"

definition nonmin_saturating_from_i64 :: "i64 \<Rightarrow> NonMinI64" where
  "nonmin_saturating_from_i64 value =
     (case nonmin_new value of Some n \<Rightarrow> n | None \<Rightarrow> NonMinI64_MIN)"

definition nonmin_saturating_from_u128 :: "nat \<Rightarrow> NonMinI64 option" where
  "nonmin_saturating_from_u128 value =
     nonmin_new_unchecked (min (int value) (nonmin_get NonMinI64_MAX))"

text \<open>\<open>midpoint\<close> unwraps; \<open>None\<close> is the panic.\<close>

definition nonmin_midpoint :: "NonMinI64 \<Rightarrow> NonMinI64 \<Rightarrow> NonMinI64 option" where
  "nonmin_midpoint a b = nonmin_new (i64_midpoint (nonmin_get a) (nonmin_get b))"

text \<open>\<open>Neg\<close>: the code negates the flipped word, not the value.\<close>

lift_definition nonmin_neg :: "NonMinI64 \<Rightarrow> NonMinI64" is "\<lambda>w. - w"
  by simp

text \<open>\<open>BitAnd\<close>: the conjunction of the values, rebuilt without a check.\<close>

definition nonmin_bitand :: "NonMinI64 \<Rightarrow> NonMinI64 \<Rightarrow> NonMinI64 option" where
  "nonmin_bitand a b = nonmin_new_unchecked (nonmin_get a AND nonmin_get b)"

section \<open>The niche encoding\<close>

lemma xor_MIN_word_invol [simp]: "(w XOR i64_MIN_word) XOR i64_MIN_word = w"
  by (simp add: ac_simps)

lemma xor_MIN_word_eq_0: "(w XOR i64_MIN_word = 0) = (w = i64_MIN_word)"
  by (metis xor.left_neutral xor_MIN_word_invol)

lemma sint_MIN_word [simp]: "sint i64_MIN_word = i64_MIN"
  by (simp add: i64_MIN_word_def i64_MIN_def)

lemma sint_word_of_int_64: "i64_ok v \<Longrightarrow> sint (word_of_int v :: 64 word) = v"
  by (simp add: int_word_sint i64_ok_def i64_MIN_def i64_MAX_def)

lemma sint_64_ok: "i64_ok (sint (w :: 64 word))"
  using sint_range_size [of w] by (simp add: i64_ok_def i64_MIN_def i64_MAX_def word_size)

lemma sint_word_inject: "(sint (a :: 64 word) = sint b) = (a = b)"
  by (metis of_int_sint scast_id)

lemma sint_eq_MIN_iff: "(sint w = i64_MIN) = (w = i64_MIN_word)"
  by (metis sint_MIN_word sint_word_inject)

lemma nonmin_get_inject [simp]: "(nonmin_get a = nonmin_get b) = (a = b)"
  by transfer (metis sint_word_inject xor_MIN_word_invol)

lemma nonmin_get_range: "i64_MIN < nonmin_get a" "nonmin_get a \<le> i64_MAX"
proof -
  have "i64_ok (nonmin_get a)" by transfer (rule sint_64_ok)
  moreover have "nonmin_get a \<noteq> i64_MIN"
    by transfer (simp add: sint_eq_MIN_iff, metis xor_MIN_word_invol xor_self_eq)
  ultimately show "i64_MIN < nonmin_get a" "nonmin_get a \<le> i64_MAX"
    by (auto simp: i64_ok_def)
qed

lemma i64_ok_nonmin_get [simp]: "i64_ok (nonmin_get a)"
  using nonmin_get_range [of a] by (simp add: i64_ok_def)

lemma nonmin_new_None: "i64_ok v \<Longrightarrow> (nonmin_new v = None) = (v = i64_MIN)"
  by transfer (simp add: Let_def xor_MIN_word_eq_0, metis sint_eq_MIN_iff sint_word_of_int_64)

lemma nonmin_get_new: "i64_ok v \<Longrightarrow> nonmin_new v = Some n \<Longrightarrow> nonmin_get n = v"
  by transfer (auto simp: Let_def sint_word_of_int_64 split: if_splits)

lemma nonmin_new_get [simp]: "nonmin_new (nonmin_get n) = Some n"
proof (cases "nonmin_new (nonmin_get n)")
  case None
  then show ?thesis using nonmin_new_None [of "nonmin_get n"] nonmin_get_range(1) [of n] by simp
next
  case (Some m)
  then show ?thesis using nonmin_get_new [of "nonmin_get n" m] by simp
qed

lemma nonmin_new_Some:
  assumes "i64_MIN < v" "v \<le> i64_MAX"
  obtains n where "nonmin_new v = Some n" "nonmin_get n = v"
proof -
  have ok: "i64_ok v" using assms by (simp add: i64_ok_def)
  with assms(1) obtain n where "nonmin_new v = Some n"
    using nonmin_new_None [OF ok] by (cases "nonmin_new v") auto
  with ok that show thesis by (blast intro: nonmin_get_new)
qed

lemma get_the_new: "i64_MIN < v \<Longrightarrow> v \<le> i64_MAX \<Longrightarrow> nonmin_get (the (nonmin_new v)) = v"
  by (metis nonmin_new_Some option.sel)

lemma nonmin_get_consts [simp]:
  "nonmin_get NonMinI64_ZERO = 0" "nonmin_get NonMinI64_ONE = 1"
  "nonmin_get NonMinI64_MIN = i64_MIN + 1" "nonmin_get NonMinI64_MAX = i64_MAX"
  by (simp_all add: NonMinI64_ZERO_def NonMinI64_ONE_def NonMinI64_MIN_def NonMinI64_MAX_def
      nonmin_new_unchecked_def get_the_new i64_MIN_def i64_MAX_def)

text \<open>Flipping the top bit is adding \<open>2 ^ 63\<close>, so negating the flipped word negates the value.\<close>

lemma bit_MIN_word: "bit i64_MIN_word n = (n = 63)"
proof -
  have eq: "i64_MIN_word = push_bit 63 1" by (simp add: i64_MIN_word_def)
  show ?thesis unfolding eq by (simp only: bit_push_bit_iff bit_1_iff possible_bit_word) auto
qed

lemma xor_MIN_word_add_clear:
  assumes "\<not> bit w 63"
  shows "w XOR i64_MIN_word = w + i64_MIN_word"
proof -
  have "w + i64_MIN_word = w OR i64_MIN_word"
    by (rule disjunctive_add) (use assms in \<open>auto simp: bit_MIN_word\<close>)
  also have "\<dots> = w XOR i64_MIN_word"
    using assms by (auto intro!: bit_word_eqI simp: bit_MIN_word bit_simps)
  finally show ?thesis ..
qed

lemma xor_MIN_word_add: "w XOR i64_MIN_word = w + i64_MIN_word"
proof (cases "bit w 63")
  case True
  have "\<not> bit (w XOR i64_MIN_word) 63" using True by (simp add: bit_MIN_word bit_simps)
  then have "w = (w XOR i64_MIN_word) + i64_MIN_word"
    using xor_MIN_word_add_clear [of "w XOR i64_MIN_word"] by simp
  then have "w + i64_MIN_word = (w XOR i64_MIN_word) + (i64_MIN_word + i64_MIN_word)"
    by (metis add.assoc)
  also have "i64_MIN_word + i64_MIN_word = 0" by (simp add: i64_MIN_word_def)
  finally show ?thesis by simp
next
  case False
  then show ?thesis by (rule xor_MIN_word_add_clear)
qed

lemma nonmin_get_neg [simp]: "nonmin_get (nonmin_neg a) = - nonmin_get a"
proof -
  have "sint (- w + i64_MIN_word) = - sint (w + i64_MIN_word)" if "w \<noteq> 0" for w :: "64 word"
  proof -
    have "- i64_MIN_word = i64_MIN_word" by (simp add: i64_MIN_word_def)
    then have eq: "- w + i64_MIN_word = - (w + i64_MIN_word)"
      by (metis minus_add_distrib)
    have "w + i64_MIN_word \<noteq> i64_MIN_word" using that by simp
    then have "sint (w + i64_MIN_word) \<noteq> i64_MIN" by (simp add: sint_eq_MIN_iff)
    then have "i64_ok (- sint (w + i64_MIN_word))"
      using sint_64_ok [of "w + i64_MIN_word"] by (auto simp: i64_ok_def i64_MIN_def i64_MAX_def)
    then show ?thesis
      unfolding eq using sint_word_of_int_64 [of "- sint (w + i64_MIN_word)"] by simp
  qed
  then show ?thesis by transfer (simp add: xor_MIN_word_add)
qed


text \<open>\<open>Ord for NonMinI64\<close> compares the values.\<close>

instantiation NonMinI64 :: linorder
begin

definition less_eq_NonMinI64 :: "NonMinI64 \<Rightarrow> NonMinI64 \<Rightarrow> bool" where
  "less_eq_NonMinI64 a b = (nonmin_get a \<le> nonmin_get b)"

definition less_NonMinI64 :: "NonMinI64 \<Rightarrow> NonMinI64 \<Rightarrow> bool" where
  "less_NonMinI64 a b = (nonmin_get a < nonmin_get b)"

instance
  by standard (auto simp: less_eq_NonMinI64_def less_NonMinI64_def)

end

instantiation NonMinI64 :: equal
begin

definition equal_NonMinI64 :: "NonMinI64 \<Rightarrow> NonMinI64 \<Rightarrow> bool" where
  "equal_NonMinI64 a b = (nonmin_get a = nonmin_get b)"

instance
  by standard (simp add: equal_NonMinI64_def)

end

section \<open>TimeInt\<close>

datatype TimeInt = TimeInt "NonMinI64 option"

fun as_i64 :: "TimeInt \<Rightarrow> i64" where
  "as_i64 (TimeInt (Some t)) = nonmin_get t"
| "as_i64 (TimeInt None) = i64_MIN"

text \<open>The static time is the one value the niche leaves free, so \<open>as_i64\<close> is injective.\<close>

lemma as_i64_inject [simp]: "(as_i64 a = as_i64 b) = (a = b)"
  using nonmin_get_range(1)
  by (cases a rule: as_i64.cases; cases b rule: as_i64.cases) (auto simp: less_le, metis)

text \<open>The derived order of \<open>Option<NonMinI64>\<close>: \<open>None\<close> (static) first.\<close>

instantiation TimeInt :: linorder
begin

fun less_eq_TimeInt :: "TimeInt \<Rightarrow> TimeInt \<Rightarrow> bool" where
  "less_eq_TimeInt (TimeInt None) _ = True"
| "less_eq_TimeInt (TimeInt (Some _)) (TimeInt None) = False"
| "less_eq_TimeInt (TimeInt (Some a)) (TimeInt (Some b)) = (a \<le> b)"

definition less_TimeInt :: "TimeInt \<Rightarrow> TimeInt \<Rightarrow> bool" where
  "less_TimeInt a b = (a \<le> b \<and> \<not> b \<le> a)"

lemma less_eq_TimeInt_iff: "(a :: TimeInt) \<le> b \<longleftrightarrow> as_i64 a \<le> as_i64 b"
  using nonmin_get_range(1)
  by (cases a rule: as_i64.cases; cases b rule: as_i64.cases)
    (auto simp: less_eq_NonMinI64_def less_imp_le not_le)

instance
  by standard (auto simp: less_eq_TimeInt_iff less_TimeInt_def)

end

lemma less_TimeInt_iff: "(a :: TimeInt) < b \<longleftrightarrow> as_i64 a < as_i64 b"
  by (auto simp: less_eq_TimeInt_iff less_TimeInt_def)

definition TimeInt_STATIC :: TimeInt where
  "TimeInt_STATIC = TimeInt None"

definition TimeInt_MIN :: TimeInt where
  "TimeInt_MIN = TimeInt (Some NonMinI64_MIN)"

definition TimeInt_MAX :: TimeInt where
  "TimeInt_MAX = TimeInt (Some NonMinI64_MAX)"

definition TimeInt_ZERO :: TimeInt where
  "TimeInt_ZERO = TimeInt (Some NonMinI64_ZERO)"

definition TimeInt_ONE :: TimeInt where
  "TimeInt_ONE = TimeInt (Some NonMinI64_ONE)"

definition is_static :: "TimeInt \<Rightarrow> bool" where
  "is_static t \<longleftrightarrow> t = TimeInt_STATIC"

definition new_temporal :: "i64 \<Rightarrow> TimeInt" where
  "new_temporal time =
     (case nonmin_new time of None \<Rightarrow> TimeInt_MIN | Some t \<Rightarrow> TimeInt (Some t))"

definition from_nanos :: "NonMinI64 \<Rightarrow> TimeInt" where
  "from_nanos nanos = TimeInt (Some nanos)"

definition from_millis :: "NonMinI64 \<Rightarrow> TimeInt" where
  "from_millis millis = new_temporal (i64_saturating_mul (nonmin_get millis) 1000000)"

definition from_sequence :: "NonMinI64 \<Rightarrow> TimeInt" where
  "from_sequence sequence = TimeInt (Some sequence)"

definition saturated_temporal_i64 :: "i64 \<Rightarrow> TimeInt" where
  "saturated_temporal_i64 value = TimeInt (Some (nonmin_saturating_from_i64 value))"

text \<open>The argument of \<open>saturated_temporal\<close> is the outcome of the caller's \<open>try_into\<close>.\<close>

definition saturated_temporal :: "TimeInt option \<Rightarrow> TimeInt" where
  "saturated_temporal value =
     max (case value of Some t \<Rightarrow> t | None \<Rightarrow> TimeInt_MIN) TimeInt_MIN"

fun time_inc :: "TimeInt \<Rightarrow> TimeInt" where
  "time_inc (TimeInt (Some t)) = new_temporal (i64_saturating_add (nonmin_get t) 1)"
| "time_inc (TimeInt None) = TimeInt None"

fun time_dec :: "TimeInt \<Rightarrow> TimeInt" where
  "time_dec (TimeInt (Some t)) = new_temporal (i64_saturating_sub (nonmin_get t) 1)"
| "time_dec (TimeInt None) = TimeInt None"

fun time_midpoint :: "TimeInt \<Rightarrow> TimeInt \<Rightarrow> TimeInt option" where
  "time_midpoint (TimeInt (Some lhs)) (TimeInt (Some rhs)) =
     map_option (\<lambda>m. TimeInt (Some m)) (nonmin_midpoint lhs rhs)"
| "time_midpoint _ _ = Some TimeInt_STATIC"

text \<open>Rust's \<open>/\<close> truncates and \<open>div_euclid\<close> rounds so that the remainder is not negative.\<close>

definition i64_div :: "i64 \<Rightarrow> i64 \<Rightarrow> i64" where
  "i64_div a b = sgn a * sgn b * (\<bar>a\<bar> div \<bar>b\<bar>)"

definition i64_div_euclid :: "i64 \<Rightarrow> i64 \<Rightarrow> i64" where
  "i64_div_euclid a b = (if 0 < b then a div b else - (a div (- b)))"

text \<open>\<open>None\<close> is a panic: division by zero, or \<open>i64::MIN / -1\<close>. The last multiplication is
  unchecked and wraps in a release build.\<close>

fun closest_multiple_of :: "TimeInt \<Rightarrow> i64 \<Rightarrow> TimeInt option" where
  "closest_multiple_of (TimeInt (Some t)) snap_interval =
     (let v = nonmin_get t;
          shifted = i64_saturating_add v (i64_div snap_interval 2)
      in if snap_interval = 0 \<or> (shifted = i64_MIN \<and> snap_interval = -1) then None
         else Some (new_temporal (i64_wrap (i64_div_euclid shifted snap_interval * snap_interval))))"
| "closest_multiple_of (TimeInt None) snap_interval = Some TimeInt_STATIC"

fun time_saturating_sub :: "TimeInt \<Rightarrow> i64 \<Rightarrow> TimeInt" where
  "time_saturating_sub (TimeInt (Some t)) arg = new_temporal (i64_saturating_sub (nonmin_get t) arg)"
| "time_saturating_sub (TimeInt None) arg = TimeInt_STATIC"

definition time_try_from :: "i64 \<Rightarrow> TimeInt option" where
  "time_try_from t = map_option (\<lambda>n. TimeInt (Some n)) (nonmin_new t)"

fun time_to_nonmin :: "TimeInt \<Rightarrow> NonMinI64" where
  "time_to_nonmin (TimeInt (Some v)) = v"
| "time_to_nonmin (TimeInt None) = NonMinI64_MIN"

fun time_neg :: "TimeInt \<Rightarrow> TimeInt" where
  "time_neg (TimeInt (Some t)) = TimeInt (Some (nonmin_neg t))"
| "time_neg (TimeInt None) = TimeInt None"

fun time_add :: "TimeInt \<Rightarrow> TimeInt \<Rightarrow> TimeInt" where
  "time_add (TimeInt (Some lhs)) (TimeInt (Some rhs)) =
     TimeInt (Some (case nonmin_new (i64_saturating_add (nonmin_get lhs) (nonmin_get rhs)) of
       Some n \<Rightarrow> n | None \<Rightarrow> NonMinI64_MIN))"
| "time_add _ _ = TimeInt None"

fun time_sub :: "TimeInt \<Rightarrow> TimeInt \<Rightarrow> TimeInt" where
  "time_sub (TimeInt (Some lhs)) (TimeInt (Some rhs)) =
     TimeInt (Some (case nonmin_new (i64_saturating_sub (nonmin_get lhs) (nonmin_get rhs)) of
       Some n \<Rightarrow> n | None \<Rightarrow> NonMinI64_MIN))"
| "time_sub _ _ = TimeInt None"


section \<open>AbsoluteTimeRange\<close>

record AbsoluteTimeRange =
  range_min :: TimeInt
  range_max :: TimeInt

definition AbsoluteTimeRange_EMPTY :: AbsoluteTimeRange where
  "AbsoluteTimeRange_EMPTY = \<lparr>range_min = TimeInt_MAX, range_max = TimeInt_MIN\<rparr>"

definition AbsoluteTimeRange_EVERYTHING :: AbsoluteTimeRange where
  "AbsoluteTimeRange_EVERYTHING = \<lparr>range_min = TimeInt_MIN, range_max = TimeInt_MAX\<rparr>"

definition range_new :: "TimeInt option \<Rightarrow> TimeInt option \<Rightarrow> AbsoluteTimeRange" where
  "range_new mn mx = \<lparr>range_min = saturated_temporal mn, range_max = saturated_temporal mx\<rparr>"

definition range_point :: "TimeInt option \<Rightarrow> AbsoluteTimeRange" where
  "range_point time =
     (let time = saturated_temporal time in \<lparr>range_min = time, range_max = time\<rparr>)"

definition range_set_min :: "AbsoluteTimeRange \<Rightarrow> TimeInt option \<Rightarrow> AbsoluteTimeRange" where
  "range_set_min r time = r\<lparr>range_min := saturated_temporal time\<rparr>"

definition range_set_max :: "AbsoluteTimeRange \<Rightarrow> TimeInt option \<Rightarrow> AbsoluteTimeRange" where
  "range_set_max r time = r\<lparr>range_max := saturated_temporal time\<rparr>"

definition range_abs_length :: "AbsoluteTimeRange \<Rightarrow> nat" where
  "range_abs_length r = nat \<bar>as_i64 (range_min r) - as_i64 (range_max r)\<bar>"

definition range_is_empty :: "AbsoluteTimeRange \<Rightarrow> bool" where
  "range_is_empty r \<longleftrightarrow> range_max r < range_min r"

definition range_center :: "AbsoluteTimeRange \<Rightarrow> TimeInt option" where
  "range_center r = time_midpoint (range_min r) (range_max r)"

definition range_contains :: "AbsoluteTimeRange \<Rightarrow> TimeInt \<Rightarrow> bool" where
  "range_contains r time \<longleftrightarrow> range_min r \<le> time \<and> time \<le> range_max r"

definition range_contains_range :: "AbsoluteTimeRange \<Rightarrow> AbsoluteTimeRange \<Rightarrow> bool" where
  "range_contains_range r other \<longleftrightarrow>
     range_min r \<le> range_min other \<and> range_max other \<le> range_max r"

definition range_intersects :: "AbsoluteTimeRange \<Rightarrow> AbsoluteTimeRange \<Rightarrow> bool" where
  "range_intersects r other \<longleftrightarrow>
     range_min r \<le> range_max other \<and> range_max r \<ge> range_min other"

definition range_intersection ::
    "AbsoluteTimeRange \<Rightarrow> AbsoluteTimeRange \<Rightarrow> AbsoluteTimeRange option" where
  "range_intersection r other =
     (if range_intersects r other
      then Some \<lparr>range_min = max (range_min r) (range_min other),
                 range_max = min (range_max r) (range_max other)\<rparr>
      else None)"

definition range_union :: "AbsoluteTimeRange \<Rightarrow> AbsoluteTimeRange \<Rightarrow> AbsoluteTimeRange" where
  "range_union r other =
     \<lparr>range_min = min (range_min r) (range_min other),
      range_max = max (range_max r) (range_max other)\<rparr>"

text \<open>Relative ranges: \<open>re_types_core::datatypes::TimeRangeBoundary\<close>, whose times are bare
  \<open>i64\<close> values added with saturation.\<close>

datatype TimeRangeBoundary = CursorRelative i64 | Absolute i64 | Infinite

fun start_boundary_time :: "TimeRangeBoundary \<Rightarrow> i64 \<Rightarrow> i64" where
  "start_boundary_time (Absolute time) cursor = time"
| "start_boundary_time (CursorRelative time) cursor = i64_saturating_add cursor time"
| "start_boundary_time Infinite cursor = i64_MIN + 1"

fun end_boundary_time :: "TimeRangeBoundary \<Rightarrow> i64 \<Rightarrow> i64" where
  "end_boundary_time (Absolute time) cursor = time"
| "end_boundary_time (CursorRelative time) cursor = i64_saturating_add cursor time"
| "end_boundary_time Infinite cursor = i64_MAX"

text \<open>The bounds are swapped when they are out of order; each is converted with \<open>From\<close>
  (\<open>new_temporal\<close>), which cannot fail.\<close>

definition from_relative_time_range ::
    "TimeRangeBoundary \<Rightarrow> TimeRangeBoundary \<Rightarrow> i64 \<Rightarrow> AbsoluteTimeRange" where
  "from_relative_time_range start_b end_b cursor =
     (let mn = start_boundary_time start_b cursor;
          mx = end_boundary_time end_b cursor;
          (mn, mx) = (if mn > mx then (mx, mn) else (mn, mx))
      in range_new (Some (new_temporal mn)) (Some (new_temporal mx)))"

section \<open>Facts about TimeInt\<close>

lemma as_i64_ok [simp]: "i64_ok (as_i64 t)"
  by (cases t rule: as_i64.cases) (auto simp: i64_ok_def nonmin_get_range less_imp_le)

lemma as_i64_consts [simp]:
  "as_i64 TimeInt_STATIC = i64_MIN" "as_i64 TimeInt_MIN = i64_MIN + 1"
  "as_i64 TimeInt_MAX = i64_MAX" "as_i64 TimeInt_ZERO = 0" "as_i64 TimeInt_ONE = 1"
  by (simp_all add: TimeInt_STATIC_def TimeInt_MIN_def TimeInt_MAX_def TimeInt_ZERO_def
      TimeInt_ONE_def)

lemma as_i64_temporal: "t \<noteq> TimeInt_STATIC \<Longrightarrow> i64_MIN + 1 \<le> as_i64 t"
  by (cases t rule: as_i64.cases)
    (auto simp: TimeInt_STATIC_def nonmin_get_range add1_zle_eq)

lemma as_i64_new_temporal [i64_simps]:
  assumes "i64_ok v"
  shows "as_i64 (new_temporal v) = max (i64_MIN + 1) v"
proof (cases "nonmin_new v")
  case None
  with assms have "v = i64_MIN" by (simp add: nonmin_new_None)
  with None show ?thesis by (simp add: new_temporal_def)
next
  case (Some n)
  with assms have "nonmin_get n = v" by (blast intro: nonmin_get_new)
  with Some nonmin_get_range(1) [of n] show ?thesis by (simp add: new_temporal_def)
qed

lemma new_temporal_not_static [simp]: "new_temporal v \<noteq> TimeInt_STATIC"
  by (simp add: new_temporal_def TimeInt_STATIC_def TimeInt_MIN_def split: option.splits)

lemma new_temporal_as_i64 [simp]: "t \<noteq> TimeInt_STATIC \<Longrightarrow> new_temporal (as_i64 t) = t"
  by (cases t rule: as_i64.cases) (simp_all add: new_temporal_def TimeInt_STATIC_def)

lemma new_temporal_mono: "i64_ok a \<Longrightarrow> i64_ok b \<Longrightarrow> a \<le> b \<Longrightarrow> new_temporal a \<le> new_temporal b"
  by (simp add: less_eq_TimeInt_iff as_i64_new_temporal)

lemma TimeInt_temporalE:
  assumes "t \<noteq> TimeInt_STATIC"
  obtains n where "t = TimeInt (Some n)" "as_i64 t = nonmin_get n"
  using assms by (cases t rule: as_i64.cases) (auto simp: TimeInt_STATIC_def)

lemma saturated_temporal_Some [simp]: "saturated_temporal (Some t) = max t TimeInt_MIN"
  by (simp add: saturated_temporal_def)

lemma temporal_iff_MIN_le: "t \<noteq> TimeInt_STATIC \<longleftrightarrow> TimeInt_MIN \<le> t"
  using as_i64_temporal [of t] by (auto simp: less_eq_TimeInt_iff)

lemma saturated_temporal_id: "t \<noteq> TimeInt_STATIC \<Longrightarrow> saturated_temporal (Some t) = t"
  by (simp add: temporal_iff_MIN_le max_absorb1)

lemma saturated_temporal_not_static [simp]: "saturated_temporal v \<noteq> TimeInt_STATIC"
  by (simp add: temporal_iff_MIN_le saturated_temporal_def)

lemma saturated_temporal_i64_eq: "i64_ok v \<Longrightarrow> saturated_temporal_i64 v = new_temporal v"
  by (simp add: saturated_temporal_i64_def nonmin_saturating_from_i64_def new_temporal_def
      TimeInt_MIN_def split: option.splits)

lemma as_i64_rebuild:
  assumes "i64_ok v"
  shows "nonmin_get (case nonmin_new v of Some n \<Rightarrow> n | None \<Rightarrow> NonMinI64_MIN) = max (i64_MIN + 1) v"
  using as_i64_new_temporal [OF assms]
  by (simp add: new_temporal_def TimeInt_MIN_def split: option.splits)


section \<open>Properties\<close>

text \<open>The \<open>NonMinI64\<close> niche is exact. For every \<open>i64\<close> value, \<open>new\<close> fails on \<open>i64::MIN\<close> only,
  \<open>get\<close> gives back the value \<open>new\<close> was given, \<open>new\<close> of \<open>get\<close> is the identity, and negation,
  which the code performs on the flipped word, is the negation of the value.\<close>

theorem nonmin_niche_exact:
  assumes "i64_ok v"
  shows "map_option nonmin_get (nonmin_new v) = (if v = i64_MIN then None else Some v)
    \<and> nonmin_new (nonmin_get n) = Some n
    \<and> nonmin_get (nonmin_neg n) = - nonmin_get n"
  using nonmin_new_None [OF assms] nonmin_get_new [OF assms] by (cases "nonmin_new v") auto

theorem nonmin_niche_exact_witness:
  "i64_ok (- 7) \<and> map_option nonmin_get (nonmin_new (- 7)) = Some (- 7)"
proof -
  have ok: "i64_ok (- 7)" by (simp add: i64_ok_def i64_MIN_def i64_MAX_def)
  show ?thesis using ok nonmin_niche_exact [OF ok] by (simp add: i64_MIN_def)
qed

text \<open>\<open>BitAnd for NonMinI64\<close> rebuilds its result with \<open>new_unchecked\<close>, whose safety condition
  it does not establish: two non-minimal values can have \<open>i64::MIN\<close> as their conjunction, which is
  undefined behaviour in the source.\<close>

theorem nonmin_bitand_unsound:
  "\<exists>a b. nonmin_bitand a b = None"
proof -
  have "i64_MIN < i64_MIN + 1" "i64_MIN + 1 \<le> i64_MAX"
    by (simp_all add: i64_MIN_def i64_MAX_def)
  then obtain a where a: "nonmin_get a = i64_MIN + 1" by (rule nonmin_new_Some)
  have "i64_MIN < i64_MIN + 2" "i64_MIN + 2 \<le> i64_MAX"
    by (simp_all add: i64_MIN_def i64_MAX_def)
  then obtain b where b: "nonmin_get b = i64_MIN + 2" by (rule nonmin_new_Some)
  have "nonmin_get a AND nonmin_get b = i64_MIN" by (simp add: a b i64_MIN_def)
  then have "nonmin_bitand a b = None"
    by (simp add: nonmin_bitand_def nonmin_new_unchecked_def nonmin_new_None i64_ok_def)
  then show ?thesis by blast
qed

text \<open>Arithmetic on \<open>TimeInt\<close>. On temporal operands addition and subtraction are the integer
  operations clamped to the temporal range, negation is exact, and the result is never the static
  time; the static time absorbs everything.\<close>

theorem time_arithmetic:
  assumes "a \<noteq> TimeInt_STATIC" and "b \<noteq> TimeInt_STATIC"
  shows "as_i64 (time_add a b) = max (i64_MIN + 1) (min i64_MAX (as_i64 a + as_i64 b))
    \<and> as_i64 (time_sub a b) = max (i64_MIN + 1) (min i64_MAX (as_i64 a - as_i64 b))
    \<and> as_i64 (time_neg a) = - as_i64 a
    \<and> time_add a TimeInt_STATIC = TimeInt_STATIC \<and> time_sub TimeInt_STATIC b = TimeInt_STATIC"
proof -
  obtain m where m: "a = TimeInt (Some m)" using assms(1) by (rule TimeInt_temporalE)
  obtain n where n: "b = TimeInt (Some n)" using assms(2) by (rule TimeInt_temporalE)
  show ?thesis
    by (simp add: m n as_i64_rebuild TimeInt_STATIC_def)
      (auto simp: i64_saturating_add_def i64_saturating_sub_def i64_clamp_def)
qed

theorem time_arithmetic_witness:
  "TimeInt_ONE \<noteq> TimeInt_STATIC \<and> TimeInt_MAX \<noteq> TimeInt_STATIC
    \<and> as_i64 (time_add TimeInt_ONE TimeInt_MAX) = i64_MAX"
proof -
  have a: "TimeInt_ONE \<noteq> TimeInt_STATIC" by (simp add: TimeInt_ONE_def TimeInt_STATIC_def)
  have b: "TimeInt_MAX \<noteq> TimeInt_STATIC" by (simp add: TimeInt_MAX_def TimeInt_STATIC_def)
  show ?thesis using a b time_arithmetic [OF a b] by (simp add: i64_MIN_def i64_MAX_def)
qed

text \<open>Rounding down to a multiple after adding half the interval gives the nearest multiple.\<close>

lemma nearest_multiple:
  fixes v s :: int
  assumes "1 \<le> s"
  defines "r \<equiv> (v + s div 2) div s * s"
  shows "s dvd r" "2 * \<bar>r - v\<bar> \<le> s" "v - s < r" "r \<le> v + s div 2"
proof -
  have eq: "r = v + s div 2 - (v + s div 2) mod s"
    by (simp add: r_def minus_mod_eq_div_mult)
  have m: "0 \<le> (v + s div 2) mod s" "(v + s div 2) mod s < s" using assms(1) by simp_all
  have h: "s \<le> 2 * (s div 2) + 1" "2 * (s div 2) \<le> s" "0 \<le> s div 2" using assms(1) by simp_all
  have "r - v \<le> s div 2" "v - r \<le> s - 1 - s div 2" using eq m by linarith+
  with h show "2 * \<bar>r - v\<bar> \<le> s" by (cases "v \<le> r") auto
  show "v - s < r" using eq m h by linarith
  show "r \<le> v + s div 2" using eq m by linarith
  show "s dvd r" by (simp add: r_def)
qed

text \<open>\<open>TimeInt::closest_multiple_of\<close> snaps a time to the nearest multiple of a positive
  interval (at most half an interval away), for times at least one interval away from the ends of
  the \<open>i64\<close> range.\<close>

theorem closest_multiple_of_nearest:
  assumes "t \<noteq> TimeInt_STATIC" and "1 \<le> s"
    and "as_i64 t + s \<le> i64_MAX" and "i64_MIN + s < as_i64 t"
  shows "\<exists>r. closest_multiple_of t s = Some r \<and> s dvd as_i64 r \<and> 2 * \<bar>as_i64 r - as_i64 t\<bar> \<le> s"
proof -
  obtain n where t: "t = TimeInt (Some n)" and v: "as_i64 t = nonmin_get n"
    using assms(1) by (rule TimeInt_temporalE)
  let ?v = "nonmin_get n"
  let ?r = "(?v + s div 2) div s * s"
  note near = nearest_multiple [OF assms(2), of ?v]
  have half: "0 \<le> s div 2" "s div 2 \<le> s" using assms(2) by auto
  then have ok: "i64_ok (?v + s div 2)"
    using assms(3,4) nonmin_get_range(1) [of n] v by (simp add: i64_ok_def)
  have shifted: "i64_saturating_add ?v (i64_div s 2) = ?v + s div 2"
    using assms(2) ok by (simp add: i64_saturating_add_def i64_div_def i64_clamp_id sgn_if)
  have rok: "i64_ok ?r" "i64_MIN + 1 \<le> ?r"
    using near(3,4) ok assms(4) v by (auto simp: i64_ok_def)
  have "closest_multiple_of t s = Some (new_temporal ?r)"
    using assms(2) rok(1) by (simp add: t Let_def shifted i64_div_euclid_def i64_wrap_id)
  moreover have "as_i64 (new_temporal ?r) = ?r"
    using rok by (simp add: as_i64_new_temporal)
  ultimately show ?thesis using near(1,2) v by simp
qed

theorem closest_multiple_of_nearest_witness:
  "\<exists>r. closest_multiple_of (new_temporal 27) 10 = Some r \<and> 10 dvd as_i64 r
     \<and> 2 * \<bar>as_i64 r - 27\<bar> \<le> 10"
proof -
  have v: "as_i64 (new_temporal 27) = 27"
    by (simp add: as_i64_new_temporal i64_ok_def i64_MIN_def i64_MAX_def)
  have h: "(1::int) \<le> 10" "as_i64 (new_temporal 27) + 10 \<le> i64_MAX"
    "i64_MIN + 10 < as_i64 (new_temporal 27)"
    by (simp_all add: v i64_MIN_def i64_MAX_def)
  show ?thesis using closest_multiple_of_nearest [OF new_temporal_not_static h] by (simp add: v)
qed

text \<open>Near the start of time the unchecked multiplication of \<open>closest_multiple_of\<close> overflows:
  snapping the earliest time to a multiple of ten gives a time at the very end of the range
  (a release build; a build with overflow checks panics).\<close>

theorem closest_multiple_of_overflow:
  "closest_multiple_of TimeInt_MIN 10 = Some (new_temporal (i64_MAX - 1))"
  by (simp add: TimeInt_MIN_def Let_def i64_saturating_add_def i64_clamp_def i64_div_def
      i64_div_euclid_def i64_wrap_def i64_MIN_def i64_MAX_def)

text \<open>The algebra of \<open>AbsoluteTimeRange\<close>. The intersection contains exactly the common times
  and is \<open>None\<close> only when there are none, the union contains every time of both ranges, and
  \<open>contains_range\<close> is inclusion for a range that is not empty.\<close>

theorem range_algebra:
  "(case range_intersection a b of
      Some r \<Rightarrow> range_contains r t = (range_contains a t \<and> range_contains b t)
    | None \<Rightarrow> \<not> (range_contains a t \<and> range_contains b t))
   \<and> (range_contains a t \<or> range_contains b t \<longrightarrow> range_contains (range_union a b) t)
   \<and> (range_is_empty b \<or> range_contains_range a b = (\<forall>u. range_contains b u \<longrightarrow> range_contains a u))"
proof -
  have "range_contains_range a b = (\<forall>u. range_contains b u \<longrightarrow> range_contains a u)"
    if "\<not> range_is_empty b"
    using that by (auto simp: range_contains_range_def range_contains_def range_is_empty_def not_less)
  then show ?thesis
    by (auto simp: range_intersection_def range_intersects_def range_contains_def range_union_def
        min_le_iff_disj le_max_iff_disj)
qed

theorem range_algebra_witness:
  "range_contains (range_union (range_point (Some TimeInt_ZERO)) (range_point (Some TimeInt_ONE)))
     TimeInt_ONE"
proof -
  have "range_contains (range_point (Some TimeInt_ONE)) TimeInt_ONE"
    by (simp add: range_contains_def range_point_def max_def less_eq_TimeInt_iff i64_MIN_def)
  then show ?thesis
    using range_algebra [where a = "range_point (Some TimeInt_ZERO)"
        and b = "range_point (Some TimeInt_ONE)" and t = TimeInt_ONE] by simp
qed

text \<open>Resolving a relative time range against a cursor always gives a range that is not empty
  and whose bounds are temporal, whatever the order of its bounds.\<close>

theorem from_relative_time_range_ordered:
  assumes "i64_ok (start_boundary_time s cursor)" and "i64_ok (end_boundary_time e cursor)"
  shows "\<not> range_is_empty (from_relative_time_range s e cursor)
    \<and> range_min (from_relative_time_range s e cursor) \<noteq> TimeInt_STATIC
    \<and> range_max (from_relative_time_range s e cursor) \<noteq> TimeInt_STATIC"
  using new_temporal_mono [OF assms] new_temporal_mono [OF assms(2,1)]
  by (auto simp: from_relative_time_range_def range_new_def range_is_empty_def Let_def not_less
      temporal_iff_MIN_le max.coboundedI1 split: prod.splits if_splits)

theorem from_relative_time_range_ordered_witness:
  "\<not> range_is_empty (from_relative_time_range (CursorRelative 5) (Absolute 3) 10)"
proof -
  have a: "i64_ok (start_boundary_time (CursorRelative 5) 10)" by simp
  have b: "i64_ok (end_boundary_time (Absolute 3) 10)"
    by (simp add: i64_ok_def i64_MIN_def i64_MAX_def)
  show ?thesis using from_relative_time_range_ordered [OF a b] by simp
qed

end
