(* ===== verification/Time_Column.thy ===== *)
theory Time_Column
  imports Arrow Time_Int
begin

text \<open>
  Time columns: \<open>TimeColumn\<close> of \<open>crates/store/re_chunk/src/chunk.rs\<close> and its operations in
  \<open>slice.rs\<close> and \<open>merge.rs\<close>.

  A column caches whether its times are sorted and their range. \<open>tc_wf\<close> is the invariant the
  debug build checks: the cached flag is exact and the cached range is tight. The lemmas show which
  operations keep it, what times the result holds, and that the lookups answer as a linear search
  would.
\<close>

datatype TimeType = Sequence | DurationNs | TimestampNs

type_synonym TimelineName = string

record Timeline =
  tl_name :: TimelineName
  tl_typ :: TimeType

record TimeColumn =
  tc_timeline :: Timeline
  tc_times :: "i64 list"
  tc_is_sorted :: bool
  tc_time_range :: AbsoluteTimeRange

section \<open>Operations\<close>

text \<open>\<open>Iterator::min\<close> and \<open>max\<close>: \<open>None\<close> on an empty iterator.\<close>

definition iter_min :: "'a :: linorder list \<Rightarrow> 'a option" where
  "iter_min xs = (if xs = [] then None else Some (Min (set xs)))"

definition iter_max :: "'a :: linorder list \<Rightarrow> 'a option" where
  "iter_max xs = (if xs = [] then None else Some (Max (set xs)))"

definition map_or :: "'b \<Rightarrow> ('a \<Rightarrow> 'b) \<Rightarrow> 'a option \<Rightarrow> 'b" where
  "map_or d f x = (case x of None \<Rightarrow> d | Some v \<Rightarrow> f v)"

definition list_first :: "'a list \<Rightarrow> 'a option" where
  "list_first xs = (if xs = [] then None else Some (hd xs))"

definition list_last :: "'a list \<Rightarrow> 'a option" where
  "list_last xs = (if xs = [] then None else Some (last xs))"

definition tc_new :: "bool option \<Rightarrow> Timeline \<Rightarrow> i64 list \<Rightarrow> TimeColumn" where
  "tc_new is_sorted_opt timeline ts =
     (let is_sorted = (case is_sorted_opt of Some b \<Rightarrow> b | None \<Rightarrow> windows2_all (\<le>) ts);
          time_range =
            (if is_sorted then
               range_new (Some (map_or TimeInt_MIN new_temporal (list_first ts)))
                 (Some (map_or TimeInt_MAX new_temporal (list_last ts)))
             else
               range_new (Some (map_or TimeInt_MIN new_temporal (iter_min ts)))
                 (Some (map_or TimeInt_MAX new_temporal (iter_max ts))))
      in \<lparr>tc_timeline = timeline, tc_times = ts, tc_is_sorted = is_sorted,
          tc_time_range = time_range\<rparr>)"

definition tc_new_sequence :: "TimelineName \<Rightarrow> i64 list \<Rightarrow> TimeColumn" where
  "tc_new_sequence name ts =
     tc_new None \<lparr>tl_name = name, tl_typ = Sequence\<rparr>
       (map (\<lambda>t. as_i64 (case time_try_from t of Some v \<Rightarrow> v | None \<Rightarrow> TimeInt_MIN)) ts)"

definition tc_new_duration_nanos :: "TimelineName \<Rightarrow> i64 list \<Rightarrow> TimeColumn" where
  "tc_new_duration_nanos name nanos =
     tc_new None \<lparr>tl_name = name, tl_typ = DurationNs\<rparr>
       (map (\<lambda>t. nonmin_get (case nonmin_new t of Some v \<Rightarrow> v | None \<Rightarrow> NonMinI64_MIN)) nanos)"

definition tc_new_timestamp_nanos_since_epoch :: "TimelineName \<Rightarrow> i64 list \<Rightarrow> TimeColumn" where
  "tc_new_timestamp_nanos_since_epoch name nanos =
     tc_new None \<lparr>tl_name = name, tl_typ = TimestampNs\<rparr>
       (map (\<lambda>t. nonmin_get (case nonmin_new t of Some v \<Rightarrow> v | None \<Rightarrow> NonMinI64_MIN)) nanos)"

definition tc_num_rows :: "TimeColumn \<Rightarrow> nat" where
  "tc_num_rows tc = length (tc_times tc)"

definition tc_is_empty :: "TimeColumn \<Rightarrow> bool" where
  "tc_is_empty tc \<longleftrightarrow> tc_num_rows tc = 0"

definition tc_times_iter :: "TimeColumn \<Rightarrow> TimeInt list" where
  "tc_times_iter tc = map new_temporal (tc_times tc)"

definition tc_times_nonmin :: "TimeColumn \<Rightarrow> NonMinI64 list" where
  "tc_times_nonmin tc = map nonmin_saturating_from_i64 (tc_times tc)"

definition tc_is_sorted_uncached :: "TimeColumn \<Rightarrow> bool" where
  "tc_is_sorted_uncached tc \<longleftrightarrow> windows2_all (\<le>) (tc_times tc)"

definition find_next_time :: "TimeColumn \<Rightarrow> TimeInt \<Rightarrow> TimeInt option" where
  "find_next_time tc after =
     (if tc_is_sorted tc then
        let idx = partition_point (\<lambda>t. t \<le> as_i64 after) (tc_times tc) in
        if idx < length (tc_times tc) then Some (new_temporal (tc_times tc ! idx)) else None
      else map_option new_temporal (iter_min (filter (\<lambda>t. t > as_i64 after) (tc_times tc))))"

definition find_prev_time :: "TimeColumn \<Rightarrow> TimeInt \<Rightarrow> TimeInt option" where
  "find_prev_time tc before =
     (if tc_is_sorted tc then
        let idx = partition_point (\<lambda>t. t < as_i64 before) (tc_times tc) in
        if idx > 0 then Some (new_temporal (tc_times tc ! (idx - 1))) else None
      else map_option new_temporal (iter_max (filter (\<lambda>t. t < as_i64 before) (tc_times tc))))"

definition offset_by_nanos :: "TimeColumn \<Rightarrow> i64 \<Rightarrow> TimeColumn" where
  "offset_by_nanos tc offset_ns =
     tc_new (Some (tc_is_sorted tc)) (tc_timeline tc)
       (map (\<lambda>t. nonmin_get (nonmin_saturating_from_i64 (i64_saturating_add t offset_ns)))
         (tc_times tc))"

definition tc_emptied :: "TimeColumn \<Rightarrow> TimeColumn" where
  "tc_emptied tc = tc_new (Some True) (tc_timeline tc) []"

definition tc_row_sliced :: "TimeColumn \<Rightarrow> nat \<Rightarrow> nat \<Rightarrow> TimeColumn" where
  "tc_row_sliced tc index len =
     (if index \<ge> tc_num_rows tc then tc_emptied tc
      else
        let end_offset = min (index + len) (tc_num_rows tc);
            len = end_offset - index
        in if len = 0 then tc_emptied tc
           else
             let is_sorted = (tc_is_sorted tc \<or> len < 2);
                 is_sorted_opt = (if is_sorted then Some is_sorted else None)
             in tc_new is_sorted_opt (tc_timeline tc) (take len (drop index (tc_times tc))))"

text \<open>\<open>None\<close> is a panic of the kernel wrapper.\<close>

definition tc_filtered :: "'c arrow_kernels \<Rightarrow> TimeColumn \<Rightarrow> bool list \<Rightarrow> TimeColumn option" where
  "tc_filtered K tc flt =
     (let is_sorted = (tc_is_sorted tc \<or> length (filter id flt) < 2);
          is_sorted_opt = (if is_sorted then Some is_sorted else None)
      in map_option (tc_new is_sorted_opt (tc_timeline tc)) (filter_int64 K (tc_times tc) flt))"

definition tc_taken :: "'c arrow_kernels \<Rightarrow> TimeColumn \<Rightarrow> nat list \<Rightarrow> TimeColumn option" where
  "tc_taken K tc indices =
     map_option (tc_new (Some (tc_is_sorted tc)) (tc_timeline tc))
       (take_int64 K (tc_times tc) indices)"

definition tc_concatenated :: "TimeColumn \<Rightarrow> TimeColumn \<Rightarrow> TimeColumn option" where
  "tc_concatenated lhs rhs =
     (if tc_timeline lhs \<noteq> tc_timeline rhs then None
      else Some \<lparr>tc_timeline = tc_timeline lhs,
        tc_times = tc_times lhs @ tc_times rhs,
        tc_is_sorted = (tc_is_sorted lhs \<and> tc_is_sorted rhs
          \<and> range_max (tc_time_range lhs) \<le> range_min (tc_time_range rhs)),
        tc_time_range = range_union (tc_time_range lhs) (tc_time_range rhs)\<rparr>)"

section \<open>Invariant\<close>

definition times_valid :: "i64 list \<Rightarrow> bool" where
  "times_valid ts \<longleftrightarrow> (\<forall>t\<in>set ts. i64_MIN < t \<and> t \<le> i64_MAX)"

definition range_tight :: "AbsoluteTimeRange \<Rightarrow> i64 list \<Rightarrow> bool" where
  "range_tight r ts \<longleftrightarrow> ts = [] \<or>
     as_i64 (range_min r) = Min (set ts) \<and> as_i64 (range_max r) = Max (set ts)"

definition tc_wf :: "TimeColumn \<Rightarrow> bool" where
  "tc_wf tc \<longleftrightarrow> times_valid (tc_times tc) \<and> tc_is_sorted tc = sorted (tc_times tc)
     \<and> range_tight (tc_time_range tc) (tc_times tc)"

lemma as_i64_new_temporal_valid:
  "i64_MIN < t \<Longrightarrow> t \<le> i64_MAX \<Longrightarrow> as_i64 (new_temporal t) = t"
  by (simp add: as_i64_new_temporal i64_ok_def)

lemma tc_new_sel [simp]:
  "tc_timeline (tc_new s tln ts) = tln" "tc_times (tc_new s tln ts) = ts"
  "tc_is_sorted (tc_new s tln ts) = (case s of Some b \<Rightarrow> b | None \<Rightarrow> sorted ts)"
  by (simp_all add: tc_new_def Let_def split: option.splits)

lemma sorted_Min_hd: "sorted xs \<Longrightarrow> xs \<noteq> [] \<Longrightarrow> Min (set xs) = hd xs"
  by (cases xs) (auto intro!: Min_eqI)

lemma sorted_Max_last: "sorted (xs :: 'a :: linorder list) \<Longrightarrow> xs \<noteq> [] \<Longrightarrow> Max (set xs) = last xs"
proof (rule Max_eqI)
  fix y assume "sorted xs" "xs \<noteq> []" "y \<in> set xs"
  then show "y \<le> last xs" by (auto simp: in_set_conv_nth last_conv_nth intro!: sorted_nth_mono)
qed auto

lemma range_new_times:
  assumes "i64_MIN < a" "a \<le> i64_MAX" "i64_MIN < b" "b \<le> i64_MAX"
  shows "as_i64 (range_min (range_new (Some (new_temporal a)) (Some (new_temporal b)))) = a"
    "as_i64 (range_max (range_new (Some (new_temporal a)) (Some (new_temporal b)))) = b"
proof -
  have "saturated_temporal (Some (new_temporal v)) = new_temporal v" for v
    by (rule saturated_temporal_id) simp
  with assms show "as_i64 (range_min (range_new (Some (new_temporal a)) (Some (new_temporal b)))) = a"
    "as_i64 (range_max (range_new (Some (new_temporal a)) (Some (new_temporal b)))) = b"
    by (simp_all add: range_new_def as_i64_new_temporal_valid del: saturated_temporal_Some)
qed

text \<open>The range \<open>new\<close> computes is tight whenever the flag it is given does not claim too much.\<close>

lemma range_tight_tc_new:
  assumes "times_valid ts" "s = Some True \<Longrightarrow> sorted ts"
  shows "range_tight (tc_time_range (tc_new s tln ts)) ts"
proof (cases "ts = []")
  case False
  then have v: "i64_MIN < Min (set ts)" "Min (set ts) \<le> i64_MAX" "i64_MIN < Max (set ts)"
      "Max (set ts) \<le> i64_MAX"
    using assms(1) Min_in [of "set ts"] Max_in [of "set ts"] by (auto simp: times_valid_def)
  let ?b = "case s of Some b \<Rightarrow> b | None \<Rightarrow> sorted ts"
  have "tc_time_range (tc_new s tln ts)
      = range_new (Some (new_temporal (Min (set ts)))) (Some (new_temporal (Max (set ts))))"
  proof (cases ?b)
    case True
    then have "sorted ts" using assms(2) by (auto split: option.splits)
    then have "Min (set ts) = hd ts" "Max (set ts) = last ts"
      using False by (simp_all add: sorted_Min_hd sorted_Max_last)
    with True False show ?thesis
      by (simp add: tc_new_def Let_def map_or_def list_first_def list_last_def split: option.splits)
  next
    case F: False
    with False show ?thesis
      by (simp add: tc_new_def Let_def map_or_def iter_min_def iter_max_def split: option.splits)
  qed
  with v show ?thesis by (simp add: range_tight_def range_new_times)
qed (simp add: range_tight_def)

lemma tc_wf_new:
  assumes "times_valid ts" "\<And>b. s = Some b \<Longrightarrow> b = sorted ts"
  shows "tc_wf (tc_new s tln ts)"
  using assms range_tight_tc_new [of ts s tln] by (auto simp: tc_wf_def split: option.splits)

lemma sorted_length_less_2: "length xs < 2 \<Longrightarrow> sorted xs"
  by (cases xs; cases "List.tl xs") auto

section \<open>What the operations keep\<close>

lemma times_valid_subset: "set us \<subseteq> set ts \<Longrightarrow> times_valid ts \<Longrightarrow> times_valid us"
  by (auto simp: times_valid_def)

lemma tc_wf_emptied [simp]: "tc_wf (tc_emptied tc)"
  unfolding tc_emptied_def by (rule tc_wf_new) (auto simp: times_valid_def)

lemma tc_emptied_sel [simp]:
  "tc_times (tc_emptied tc) = []" "tc_timeline (tc_emptied tc) = tc_timeline tc"
  by (simp_all add: tc_emptied_def)

text \<open>A flag that is only claimed when it is known (\<open>then_some\<close>) gives a well-formed column.\<close>

lemma tc_wf_new_known:
  assumes "times_valid ts" "b \<Longrightarrow> sorted ts"
  shows "tc_wf (tc_new (if b then Some b else None) tln ts)"
  using assms by (intro tc_wf_new) (auto split: if_splits)

lemma tc_row_sliced_times:
  "tc_times (tc_row_sliced tc index len) = take len (drop index (tc_times tc))"
  by (auto simp: tc_row_sliced_def tc_num_rows_def Let_def min_def)

lemma tc_row_sliced_timeline [simp]: "tc_timeline (tc_row_sliced tc index len) = tc_timeline tc"
  by (simp add: tc_row_sliced_def Let_def)

lemma tc_wf_row_sliced:
  assumes "tc_wf tc"
  shows "tc_wf (tc_row_sliced tc index len)"
proof -
  have "sorted (take k (drop index (tc_times tc)))" if "tc_is_sorted tc \<or> k < 2" for k
    using that assms by (auto simp: tc_wf_def sorted_wrt_take sorted_wrt_drop intro: sorted_length_less_2)
  moreover have "times_valid (take k (drop index (tc_times tc)))" for k
    using assms by (auto simp: tc_wf_def intro: times_valid_subset dest!: in_set_takeD in_set_dropD)
  ultimately show ?thesis
    unfolding tc_row_sliced_def Let_def
    by (simp only: tc_wf_emptied tc_wf_new_known simp_thms split: if_split)
qed

lemma tc_filtered_wf:
  assumes "arrow_laws K" "tc_wf tc" "length m = tc_num_rows tc"
  obtains tc' where "tc_filtered K tc m = Some tc'" "tc_wf tc'"
    "tc_times tc' = mask_select m (tc_times tc)" "tc_timeline tc' = tc_timeline tc"
proof -
  let ?ts = "mask_select m (tc_times tc)"
  have l: "length m = length (tc_times tc)" using assms(3) by (simp add: tc_num_rows_def)
  have "sorted ?ts" if "tc_is_sorted tc \<or> length (filter id m) < 2"
    using that assms(2) length_mask_select [OF l]
    by (auto simp: tc_wf_def intro: sorted_mask_select sorted_length_less_2)
  moreover have "times_valid ?ts"
    using assms(2) set_mask_select [of m "tc_times tc"] by (auto simp: tc_wf_def intro: times_valid_subset)
  ultimately show ?thesis
    using that assms(1) l
    by (simp add: tc_filtered_def Let_def filter_int64_eq) (metis (full_types) tc_new_sel(1,2) tc_wf_new_known)
qed

lemma tc_taken_times:
  assumes "arrow_laws K" "set is \<subseteq> {..<tc_num_rows tc}" "is \<noteq> [] \<or> tc_num_rows tc \<noteq> 0"
  obtains tc' where "tc_taken K tc is = Some tc'" "tc_times tc' = gather (tc_times tc) is"
    "tc_timeline tc' = tc_timeline tc" "tc_is_sorted tc' = tc_is_sorted tc"
    "tc' = tc_new (Some (tc_is_sorted tc)) (tc_timeline tc) (gather (tc_times tc) is)"
  using assms take_int64_eq [of K "is" "tc_times tc"]
  by (auto simp: tc_taken_def tc_num_rows_def)

lemma tc_wf_taken:
  assumes "arrow_laws K" "tc_wf tc" "set is \<subseteq> {..<tc_num_rows tc}" "is \<noteq> [] \<or> tc_num_rows tc \<noteq> 0"
    "sorted (gather (tc_times tc) is) = tc_is_sorted tc"
  obtains tc' where "tc_taken K tc is = Some tc'" "tc_wf tc'"
    "tc_times tc' = gather (tc_times tc) is" "tc_timeline tc' = tc_timeline tc"
proof -
  from tc_taken_times [OF assms(1,3,4)] obtain tc' where t: "tc_taken K tc is = Some tc'"
    "tc' = tc_new (Some (tc_is_sorted tc)) (tc_timeline tc) (gather (tc_times tc) is)" by metis
  have "times_valid (gather (tc_times tc) is)"
    using assms(2,3) set_gather_subset [of "is" "tc_times tc"]
    by (auto simp: tc_wf_def tc_num_rows_def intro: times_valid_subset)
  then have "tc_wf tc'" using t assms(5) by (auto intro: tc_wf_new)
  with t that show ?thesis by simp
qed

lemma Min_append: "xs \<noteq> [] \<Longrightarrow> ys \<noteq> [] \<Longrightarrow> Min (set (xs @ ys)) = min (Min (set xs)) (Min (set ys))"
  by (simp add: Min_Un)

lemma Max_append: "xs \<noteq> [] \<Longrightarrow> ys \<noteq> [] \<Longrightarrow> Max (set (xs @ ys)) = max (Max (set xs)) (Max (set ys))"
  by (simp add: Max_Un)

lemma as_i64_min: "as_i64 (min a b) = min (as_i64 a) (as_i64 b)"
  by (auto simp: min_def less_eq_TimeInt_iff)

lemma as_i64_max: "as_i64 (max a b) = max (as_i64 a) (as_i64 b)"
  by (auto simp: max_def less_eq_TimeInt_iff)

lemma sorted_append_iff:
  assumes "xs \<noteq> []" "ys \<noteq> []"
  shows "sorted (xs @ ys) \<longleftrightarrow> sorted xs \<and> sorted ys \<and> Max (set xs) \<le> Min (set ys)"
  using assms by (auto simp: sorted_append)

lemma tc_wf_concatenated:
  assumes "tc_wf lhs" "tc_wf rhs" "tc_timeline lhs = tc_timeline rhs"
    "tc_times lhs \<noteq> []" "tc_times rhs \<noteq> []"
  obtains tc where "tc_concatenated lhs rhs = Some tc" "tc_wf tc"
    "tc_times tc = tc_times lhs @ tc_times rhs" "tc_timeline tc = tc_timeline lhs"
proof -
  define tc where "tc = the (tc_concatenated lhs rhs)"
  have tc: "tc_concatenated lhs rhs = Some tc" "tc_times tc = tc_times lhs @ tc_times rhs"
      "tc_timeline tc = tc_timeline lhs"
      "tc_time_range tc = range_union (tc_time_range lhs) (tc_time_range rhs)"
      "tc_is_sorted tc = (tc_is_sorted lhs \<and> tc_is_sorted rhs
          \<and> range_max (tc_time_range lhs) \<le> range_min (tc_time_range rhs))"
    using assms(3) by (simp_all add: tc_concatenated_def tc_def)
  have "times_valid (tc_times tc)"
    using assms(1,2) by (auto simp: tc_wf_def times_valid_def tc(2))
  moreover have "tc_is_sorted tc = sorted (tc_times tc)"
    unfolding tc(2,5) sorted_append_iff [OF assms(4,5)]
    using assms by (simp add: tc_wf_def range_tight_def less_eq_TimeInt_iff)
  moreover have "range_tight (tc_time_range tc) (tc_times tc)"
    unfolding range_tight_def tc(2,4) Min_append [OF assms(4,5)] Max_append [OF assms(4,5)]
    using assms by (simp add: tc_wf_def range_tight_def range_union_def as_i64_min as_i64_max)
  ultimately have "tc_wf tc" by (simp add: tc_wf_def)
  with tc that show ?thesis by blast
qed

lemma tc_wf_offset:
  assumes "tc_wf tc"
  shows "tc_times (offset_by_nanos tc d)
      = map (\<lambda>t. max (i64_MIN + 1) (i64_clamp (t + d))) (tc_times tc)"
    and "tc_is_sorted tc \<Longrightarrow> tc_wf (offset_by_nanos tc d)"
proof -
  let ?f = "\<lambda>t. max (i64_MIN + 1) (i64_clamp (t + d))"
  have f: "nonmin_get (nonmin_saturating_from_i64 (i64_saturating_add t d)) = ?f t" for t
    using as_i64_rebuild [of "i64_saturating_add t d"]
    by (simp add: nonmin_saturating_from_i64_def i64_saturating_add_def)
  then show "tc_times (offset_by_nanos tc d) = map ?f (tc_times tc)"
    by (simp add: offset_by_nanos_def)
  assume s: "tc_is_sorted tc"
  have "mono ?f"
  proof (rule monoI)
    fix x y :: int assume "x \<le> y"
    then have "i64_clamp (x + d) \<le> i64_clamp (y + d)" by (intro i64_clamp_mono) simp
    then show "?f x \<le> ?f y" by simp
  qed
  then have "sorted (map ?f (tc_times tc))"
    using assms s by (intro sorted_map_mono) (simp_all add: tc_wf_def)
  moreover have "times_valid (map ?f (tc_times tc))"
    by (auto simp: times_valid_def i64_clamp_def i64_MIN_def i64_MAX_def)
  ultimately show "tc_wf (offset_by_nanos tc d)"
    unfolding offset_by_nanos_def f using s by (intro tc_wf_new) auto
qed

section \<open>Lookups\<close>

lemma Min_filter_sorted:
  assumes "sorted ts" "partition_point (\<lambda>t. t \<le> v) ts < length ts"
  shows "Min (set (filter (\<lambda>t. v < t) ts)) = ts ! partition_point (\<lambda>t. t \<le> v) ts" (is "_ = ts ! ?p")
proof (rule Min_eqI)
  have "\<not> ts ! ?p \<le> v" by (rule partition_point_at [OF assms(2)])
  with assms(2) show "ts ! ?p \<in> set (filter (\<lambda>t. v < t) ts)" by simp
next
  fix y assume "y \<in> set (filter (\<lambda>t. v < t) ts)"
  then obtain i where i: "i < length ts" "ts ! i = y" "v < y" by (auto simp: in_set_conv_nth)
  have "\<not> i < ?p" using i partition_point_before [of i "\<lambda>t. t \<le> v" ts] by auto
  with i assms(1) show "ts ! ?p \<le> y" by (auto intro: sorted_nth_mono)
qed simp

lemma Max_filter_sorted:
  assumes "sorted ts" "partition_point (\<lambda>t. t < v) ts > 0"
  shows "Max (set (filter (\<lambda>t. t < v) ts)) = ts ! (partition_point (\<lambda>t. t < v) ts - 1)"
    (is "_ = ts ! (?p - 1)")
proof (rule Max_eqI)
  have lt: "?p - 1 < length ts" using assms(2) partition_point_le [of "\<lambda>t. t < v" ts] by linarith
  have "ts ! (?p - 1) < v" using assms(2) partition_point_before [of "?p - 1" "\<lambda>t. t < v" ts] by simp
  with lt show "ts ! (?p - 1) \<in> set (filter (\<lambda>t. t < v) ts)" by simp
  fix y assume "y \<in> set (filter (\<lambda>t. t < v) ts)"
  then obtain i where i: "i < length ts" "ts ! i = y" "y < v" by (auto simp: in_set_conv_nth)
  have "i < ?p" using i partition_point_less_iff [OF assms(1), of i v] by auto
  with i lt assms(1) show "y \<le> ts ! (?p - 1)" by (auto intro: sorted_nth_mono)
qed simp

lemma iter_min_filter:
  "case iter_min (filter p xs) of None \<Rightarrow> \<forall>u\<in>set xs. \<not> p u
    | Some n \<Rightarrow> n \<in> set xs \<and> p n \<and> (\<forall>u\<in>set xs. p u \<longrightarrow> n \<le> u)"
  using Min_in [of "set (filter p xs)"] by (auto simp: iter_min_def filter_empty_conv)

lemma iter_max_filter:
  "case iter_max (filter p xs) of None \<Rightarrow> \<forall>u\<in>set xs. \<not> p u
    | Some n \<Rightarrow> n \<in> set xs \<and> p n \<and> (\<forall>u\<in>set xs. p u \<longrightarrow> u \<le> n)"
  using Max_in [of "set (filter p xs)"] by (auto simp: iter_max_def filter_empty_conv)

text \<open>The binary search of a sorted column gives what the linear scan of an unsorted one does.\<close>

lemma find_next_time_eq:
  assumes "tc_wf tc"
  shows "find_next_time tc after
    = map_option new_temporal (iter_min (filter (\<lambda>t. t > as_i64 after) (tc_times tc)))"
proof (cases "tc_is_sorted tc")
  case True
  then have s: "sorted (tc_times tc)" using assms by (simp add: tc_wf_def)
  let ?p = "partition_point (\<lambda>t. t \<le> as_i64 after) (tc_times tc)"
  show ?thesis
  proof (cases "?p < length (tc_times tc)")
    case lt: True
    have "\<not> tc_times tc ! ?p \<le> as_i64 after" by (rule partition_point_at [OF lt])
    then have "filter (\<lambda>t. t > as_i64 after) (tc_times tc) \<noteq> []"
      using lt by (auto simp: filter_empty_conv) (meson linorder_not_le nth_mem)
    with True lt Min_filter_sorted [OF s lt] show ?thesis
      by (simp add: find_next_time_def Let_def iter_min_def)
  next
    case False
    then have "?p = length (tc_times tc)" by (simp add: order_antisym)
    then have "filter (\<lambda>t. t > as_i64 after) (tc_times tc) = []"
      by (metis filter_False in_set_conv_nth linorder_not_less partition_point_before)
    with True False show ?thesis by (simp add: find_next_time_def Let_def iter_min_def)
  qed
qed (simp add: find_next_time_def)

lemma find_prev_time_eq:
  assumes "tc_wf tc"
  shows "find_prev_time tc before
    = map_option new_temporal (iter_max (filter (\<lambda>t. t < as_i64 before) (tc_times tc)))"
proof (cases "tc_is_sorted tc")
  case True
  then have s: "sorted (tc_times tc)" using assms by (simp add: tc_wf_def)
  let ?p = "partition_point (\<lambda>t. t < as_i64 before) (tc_times tc)"
  show ?thesis
  proof (cases "?p > 0")
    case gt: True
    then have "tc_times tc ! 0 < as_i64 before" "tc_times tc \<noteq> []"
      using partition_point_before [OF gt] by (auto simp: partition_point_def)
    then have "filter (\<lambda>t. t < as_i64 before) (tc_times tc) \<noteq> []"
      by (auto simp: filter_empty_conv)
    with True gt Max_filter_sorted [OF s gt] show ?thesis
      by (simp add: find_prev_time_def Let_def iter_max_def)
  next
    case False
    then have "\<not> t < as_i64 before" if "t \<in> set (tc_times tc)" for t
      using that partition_point_less_iff [OF s, of _ "as_i64 before"] by (auto simp: in_set_conv_nth)
    then have "filter (\<lambda>t. t < as_i64 before) (tc_times tc) = []" by (auto simp: filter_empty_conv)
    with True False show ?thesis by (simp add: find_prev_time_def Let_def iter_max_def)
  qed
qed (simp add: find_prev_time_def)

section \<open>Properties\<close>

text \<open>The constructors from raw integers accept every \<open>i64\<close>: the times are clamped to the legal
  minimum and the column is well-formed, with an exact sortedness flag and a tight range.\<close>

theorem time_column_constructors:
  assumes "\<forall>t\<in>set ts. i64_ok t"
  shows "tc_wf (tc_new_sequence name ts) \<and> tc_wf (tc_new_duration_nanos name ts)
    \<and> tc_wf (tc_new_timestamp_nanos_since_epoch name ts)
    \<and> tc_times (tc_new_sequence name ts) = map (max (i64_MIN + 1)) ts
    \<and> tc_times (tc_new_duration_nanos name ts) = map (max (i64_MIN + 1)) ts"
proof -
  have a: "as_i64 (case time_try_from t of Some v \<Rightarrow> v | None \<Rightarrow> TimeInt_MIN) = max (i64_MIN + 1) t"
    if "t \<in> set ts" for t
    using as_i64_rebuild [of t] assms that
    by (auto simp: time_try_from_def TimeInt_MIN_def split: option.splits)
  have b: "nonmin_get (case nonmin_new t of Some v \<Rightarrow> v | None \<Rightarrow> NonMinI64_MIN) = max (i64_MIN + 1) t"
    if "t \<in> set ts" for t
    using as_i64_rebuild [of t] assms that by auto
  have v: "times_valid (map (max (i64_MIN + 1)) ts)"
    using assms by (auto simp: times_valid_def i64_ok_def i64_MIN_def i64_MAX_def)
  show ?thesis
    unfolding tc_new_sequence_def tc_new_duration_nanos_def tc_new_timestamp_nanos_since_epoch_def
    using tc_wf_new [OF v, of None] by (simp add: a b cong: map_cong)
qed

theorem time_column_constructors_witness:
  "tc_times (tc_new_sequence ''frame'' [i64_MIN, 3]) = [i64_MIN + 1, 3]"
  using time_column_constructors [of "[i64_MIN, 3]" "''frame''"]
  by (simp add: i64_ok_def i64_MIN_def i64_MAX_def)

text \<open>\<open>find_next_time\<close> returns the earliest time of the column after the given one and
  \<open>find_prev_time\<close> the latest one before it, by binary search or by scan, and they return \<open>None\<close>
  only when there is no such time.\<close>

theorem find_time_nearest:
  assumes "tc_wf tc"
  shows "(case find_next_time tc t of
      None \<Rightarrow> \<forall>u\<in>set (tc_times_iter tc). u \<le> t
    | Some n \<Rightarrow> n \<in> set (tc_times_iter tc) \<and> t < n \<and> (\<forall>u\<in>set (tc_times_iter tc). t < u \<longrightarrow> n \<le> u))
   \<and> (case find_prev_time tc t of
      None \<Rightarrow> \<forall>u\<in>set (tc_times_iter tc). t \<le> u
    | Some n \<Rightarrow> n \<in> set (tc_times_iter tc) \<and> n < t \<and> (\<forall>u\<in>set (tc_times_iter tc). u < t \<longrightarrow> u \<le> n))"
proof -
  have v: "as_i64 (new_temporal u) = u" if "u \<in> set (tc_times tc)" for u
    using assms that by (auto simp: tc_wf_def times_valid_def as_i64_new_temporal_valid)
  have "case find_next_time tc t of
      None \<Rightarrow> \<forall>u\<in>set (tc_times_iter tc). u \<le> t
    | Some n \<Rightarrow> n \<in> set (tc_times_iter tc) \<and> t < n \<and> (\<forall>u\<in>set (tc_times_iter tc). t < u \<longrightarrow> n \<le> u)"
    using iter_min_filter [where p = "\<lambda>u. as_i64 t < u" and xs = "tc_times tc"] v
    unfolding find_next_time_eq [OF assms]
    by (cases "iter_min (filter (\<lambda>u. as_i64 t < u) (tc_times tc))")
      (simp_all add: tc_times_iter_def less_eq_TimeInt_iff less_TimeInt_iff not_less)
  moreover have "case find_prev_time tc t of
      None \<Rightarrow> \<forall>u\<in>set (tc_times_iter tc). t \<le> u
    | Some n \<Rightarrow> n \<in> set (tc_times_iter tc) \<and> n < t \<and> (\<forall>u\<in>set (tc_times_iter tc). u < t \<longrightarrow> u \<le> n)"
    using iter_max_filter [where p = "\<lambda>u. u < as_i64 t" and xs = "tc_times tc"] v
    unfolding find_prev_time_eq [OF assms]
    by (cases "iter_max (filter (\<lambda>u. u < as_i64 t) (tc_times tc))")
      (simp_all add: tc_times_iter_def less_eq_TimeInt_iff less_TimeInt_iff not_less)
  ultimately show ?thesis by blast
qed

theorem find_time_nearest_witness:
  "find_next_time (tc_new None \<lparr>tl_name = ''frame'', tl_typ = Sequence\<rparr> [5, 1]) TimeInt_ZERO
    = Some (new_temporal 1)"
proof -
  let ?tc = "tc_new None \<lparr>tl_name = ''frame'', tl_typ = Sequence\<rparr> [5, 1]"
  have wf: "tc_wf ?tc" by (rule tc_wf_new) (simp_all add: times_valid_def i64_MIN_def i64_MAX_def)
  have "as_i64 (new_temporal 1) = 1" "as_i64 (new_temporal 5) = 5"
    by (simp_all add: as_i64_new_temporal_valid i64_MIN_def i64_MAX_def)
  then show ?thesis using find_time_nearest [OF wf, of TimeInt_ZERO]
    by (auto simp: tc_times_iter_def less_eq_TimeInt_iff less_TimeInt_iff split: option.splits)
qed

text \<open>\<open>TimeColumn::taken\<close> keeps the sortedness flag of the original column although the indices
  may reorder its times: the result claims to be sorted, is not, and has its cached range the wrong
  way round.\<close>

theorem time_column_taken_stale_flag:
  "\<exists>tc'. tc_taken (list_kernels :: nat arrow_kernels)
      (tc_new None \<lparr>tl_name = ''frame'', tl_typ = Sequence\<rparr> [1, 2]) [1, 0] = Some tc'
    \<and> tc_times tc' = [2, 1] \<and> tc_is_sorted tc' \<and> range_is_empty (tc_time_range tc')"
proof -
  let ?tc = "tc_new None \<lparr>tl_name = ''frame'', tl_typ = Sequence\<rparr> [1, 2]"
  have "take_int64 (list_kernels :: nat arrow_kernels) (tc_times ?tc) [1, 0] = Some [2, 1]"
    using take_int64_eq [of list_kernels "[1, 0]" "tc_times ?tc"] by (simp add: gather_def)
  then have t: "tc_taken (list_kernels :: nat arrow_kernels) ?tc [1, 0]
      = Some (tc_new (Some True) \<lparr>tl_name = ''frame'', tl_typ = Sequence\<rparr> [2, 1])" (is "_ = Some ?tc'")
    by (simp add: tc_taken_def)
  have "range_is_empty (tc_time_range ?tc')"
    using range_new_times [of 2 1]
    by (simp add: tc_new_def map_or_def list_first_def list_last_def range_is_empty_def
        less_TimeInt_iff i64_MIN_def i64_MAX_def)
  with t show ?thesis by simp
qed

end
