(* ===== verification/Chunk.thy ===== *)
theory Chunk
  imports Time_Column
begin

text \<open>
  Chunks: the data type of \<open>crates/store/re_chunk/src/chunk.rs\<close>, its constructors, accessors and
  \<open>sanity_check\<close>.

  A chunk is columnar: a column of row ids, one time column per timeline and one list array per
  component. \<open>chunk_rows\<close> reads it row by row; the theories that follow prove each operation
  correct as an operation on these rows. \<open>chunk_wf\<close> is the invariant of the type, and the first
  properties relate it to the check the code runs.

  \<open>ChunkId::new()\<close> is an argument of the operations that call it. \<open>B\<close> describes the build: whether
  debug assertions are on, and the size the chunk's buffers measure. A hash map is an association
  list with distinct keys. The warnings that \<open>sanity_check\<close> logs are left out.
\<close>

type_synonym EntityPath = string
type_synonym ComponentIdentifier = string

record ComponentDescriptor =
  cd_archetype :: "string option"
  cd_component :: ComponentIdentifier
  cd_component_type :: "string option"

record 'c SerializedComponentColumn =
  sc_list_array :: "'c list_array"
  sc_descriptor :: ComponentDescriptor

type_synonym 'c ChunkComponents = "(ComponentIdentifier \<times> 'c SerializedComponentColumn) list"
type_synonym ChunkTimelines = "(TimelineName \<times> TimeColumn) list"

record 'c Chunk =
  ch_id :: ChunkId
  ch_entity_path :: EntityPath
  ch_heap_size_bytes :: nat
  ch_is_sorted :: bool
  ch_row_ids :: "RowId list"
  ch_timelines :: ChunkTimelines
  ch_components :: "'c ChunkComponents"

datatype MalformedReason =
    HeapSizeMismatch nat nat
  | RowIdsSortedFlag bool
  | TimelineLength TimelineName nat nat
  | TimesSortedFlag bool
  | TimeRangeNotTight
  | TimeRangeWrong i64
  | StaticTimeValue
  | DescriptorMismatch ComponentIdentifier
  | ComponentLength ComponentIdentifier nat nat
  | EmptyComponentColumn ComponentIdentifier
  | DifferentEntityPaths
  | DifferentTimelines
  | DifferentDatatypes
  | IncompatibleChunks
  | TimelineMissing TimelineName
  | TimelineDiffers TimelineName

datatype ChunkError = Malformed MalformedReason | ArrowError

record 'c build =
  debug_assertions :: bool
  measured_heap_size :: "'c Chunk \<Rightarrow> nat"

section \<open>Component maps\<close>

definition sc_new :: "'c list_array \<Rightarrow> ComponentDescriptor \<Rightarrow> 'c SerializedComponentColumn" where
  "sc_new la desc = \<lparr>sc_list_array = la, sc_descriptor = desc\<rparr>"

definition components_insert ::
    "'c SerializedComponentColumn \<Rightarrow> 'c ChunkComponents \<Rightarrow> 'c ChunkComponents" where
  "components_insert column comps = al_insert (cd_component (sc_descriptor column)) column comps"

definition components_from_iter :: "'c SerializedComponentColumn list \<Rightarrow> 'c ChunkComponents" where
  "components_from_iter columns = fold components_insert columns []"

definition get_array :: "'c ChunkComponents \<Rightarrow> ComponentIdentifier \<Rightarrow> 'c list_array option" where
  "get_array comps c = map_option sc_list_array (map_of comps c)"

definition get_descriptor ::
    "'c ChunkComponents \<Rightarrow> ComponentIdentifier \<Rightarrow> ComponentDescriptor option" where
  "get_descriptor comps c = map_option sc_descriptor (map_of comps c)"

definition get_by_component_type :: "'c ChunkComponents \<Rightarrow> string \<Rightarrow> 'c list_array list" where
  "get_by_component_type comps ty = map (sc_list_array \<circ> snd)
     (filter (\<lambda>(_, col). cd_component_type (sc_descriptor col) = Some ty) comps)"

definition list_arrays :: "'c ChunkComponents \<Rightarrow> 'c list_array list" where
  "list_arrays comps = map (sc_list_array \<circ> snd) comps"

definition component_descriptors :: "'c Chunk \<Rightarrow> ComponentDescriptor list" where
  "component_descriptors ch = map (sc_descriptor \<circ> snd) (ch_components ch)"

section \<open>Accessors\<close>

definition num_rows :: "'c Chunk \<Rightarrow> nat" where
  "num_rows ch = length (ch_row_ids ch)"

definition num_columns :: "'c Chunk \<Rightarrow> nat" where
  "num_columns ch = 1 + length (ch_timelines ch) + length (ch_components ch)"

definition chunk_is_empty :: "'c Chunk \<Rightarrow> bool" where
  "chunk_is_empty ch \<longleftrightarrow> num_rows ch = 0"

definition chunk_is_static :: "'c Chunk \<Rightarrow> bool" where
  "chunk_is_static ch \<longleftrightarrow> ch_timelines ch = []"

definition is_row_ids_sorted_uncached :: "'c Chunk \<Rightarrow> bool" where
  "is_row_ids_sorted_uncached ch \<longleftrightarrow> windows2_all (\<le>) (ch_row_ids ch)"

definition all_timelines_sorted :: "'c Chunk \<Rightarrow> bool" where
  "all_timelines_sorted ch \<longleftrightarrow> (\<forall>(_, tc) \<in> set (ch_timelines ch). tc_is_sorted tc)"

definition is_timeline_sorted :: "'c Chunk \<Rightarrow> TimelineName \<Rightarrow> bool" where
  "is_timeline_sorted ch timeline \<longleftrightarrow> chunk_is_static ch
     \<or> (case map_of (ch_timelines ch) timeline of None \<Rightarrow> False | Some tc \<Rightarrow> tc_is_sorted tc)"

definition is_timeline_sorted_uncached :: "'c Chunk \<Rightarrow> TimelineName \<Rightarrow> bool" where
  "is_timeline_sorted_uncached ch timeline \<longleftrightarrow> chunk_is_static ch
     \<or> (case map_of (ch_timelines ch) timeline of None \<Rightarrow> False | Some tc \<Rightarrow> tc_is_sorted_uncached tc)"

definition unsorted_timelines :: "'c Chunk \<Rightarrow> TimelineName list" where
  "unsorted_timelines ch = map fst (filter (\<lambda>(_, tc). \<not> tc_is_sorted tc) (ch_timelines ch))"

text \<open>\<open>slice::binary_search\<close>: the loop of the standard library halves \<open>size\<close> and keeps the last
  position known not to be greater.\<close>

function binary_search_loop :: "'a :: linorder list \<Rightarrow> 'a \<Rightarrow> nat \<Rightarrow> nat \<Rightarrow> nat" where
  "binary_search_loop xs x base sz =
     (if sz > 1 then
        let half = sz div 2; mid = base + half in
        binary_search_loop xs x (if xs ! mid > x then base else mid) (sz - half)
      else base)"
  by pat_completeness auto
termination by (relation "measure (\<lambda>(_, _, _, sz). sz)") auto

declare binary_search_loop.simps [simp del]

definition binary_search :: "'a :: linorder list \<Rightarrow> 'a \<Rightarrow> nat option" where
  "binary_search xs x =
     (if xs = [] then None
      else let base = binary_search_loop xs x 0 (length xs) in
        if xs ! base = x then Some base else None)"

fun position :: "('a \<Rightarrow> bool) \<Rightarrow> 'a list \<Rightarrow> nat option" where
  "position p [] = None"
| "position p (x # xs) = (if p x then Some 0 else map_option Suc (position p xs))"

definition row_index_of :: "'c Chunk \<Rightarrow> RowId \<Rightarrow> nat option" where
  "row_index_of ch row_id =
     (if ch_is_sorted ch then binary_search (ch_row_ids ch) row_id
      else position (\<lambda>r. r = row_id) (ch_row_ids ch))"

definition component_row_ids :: "'c Chunk \<Rightarrow> ComponentIdentifier \<Rightarrow> RowId list" where
  "component_row_ids ch c =
     (case get_array (ch_components ch) c of
        None \<Rightarrow> []
      | Some la \<Rightarrow>
          (case la_nulls la of
             None \<Rightarrow> ch_row_ids ch
           | Some validity \<Rightarrow> mask_select validity (ch_row_ids ch)))"

definition row_id_range :: "'c Chunk \<Rightarrow> (RowId \<times> RowId) option" where
  "row_id_range ch =
     (if chunk_is_empty ch then None
      else Some (if ch_is_sorted ch then (hd (ch_row_ids ch), last (ch_row_ids ch))
                 else (Min (set (ch_row_ids ch)), Max (set (ch_row_ids ch)))))"

text \<open>\<open>Chunk::cell\<close>, in \<open>slice.rs\<close>.\<close>

definition cell :: "'c Chunk \<Rightarrow> RowId \<Rightarrow> ComponentIdentifier \<Rightarrow> 'c list option" where
  "cell ch row_id c =
     (case get_array (ch_components ch) c of
        None \<Rightarrow> None
      | Some la \<Rightarrow>
          (case (if ch_is_sorted ch then binary_search (ch_row_ids ch) row_id
                 else position (\<lambda>r. r = row_id) (ch_row_ids ch)) of
             None \<Rightarrow> None
           | Some index \<Rightarrow> if la_is_valid la index then Some (la_value la index) else None))"

section \<open>Sanity checks\<close>

fun first_error :: "('a \<Rightarrow> 'e + unit) \<Rightarrow> 'a list \<Rightarrow> 'e + unit" where
  "first_error f [] = Inr ()"
| "first_error f (x # xs) = (case f x of Inl e \<Rightarrow> Inl e | Inr _ \<Rightarrow> first_error f xs)"

definition check_time :: "AbsoluteTimeRange \<Rightarrow> i64 \<Rightarrow> ChunkError + unit" where
  "check_time r t =
     (if t < as_i64 (range_min r) \<or> t > as_i64 (range_max r) then Inl (Malformed (TimeRangeWrong t))
      else if t = as_i64 TimeInt_STATIC then Inl (Malformed StaticTimeValue)
      else Inr ())"

definition tc_sanity_check :: "'c build \<Rightarrow> TimeColumn \<Rightarrow> ChunkError + unit" where
  "tc_sanity_check B tc =
     (if debug_assertions B \<and> tc_is_sorted tc \<noteq> windows2_all (\<le>) (tc_times tc)
      then Inl (Malformed (TimesSortedFlag (tc_is_sorted tc)))
      else if debug_assertions B then
        let is_tight_lower_bound = as_i64 (range_min (tc_time_range tc)) \<in> set (tc_times tc);
            is_tight_upper_bound = as_i64 (range_max (tc_time_range tc)) \<in> set (tc_times tc)
        in if \<not> tc_is_empty tc \<and> \<not> (is_tight_lower_bound \<and> is_tight_upper_bound)
           then Inl (Malformed TimeRangeNotTight)
           else first_error (check_time (tc_time_range tc)) (tc_times tc)
      else Inr ())"

definition check_timeline :: "'c build \<Rightarrow> nat \<Rightarrow> TimelineName \<times> TimeColumn \<Rightarrow> ChunkError + unit" where
  "check_timeline B n = (\<lambda>(name, tc).
     if length (tc_times tc) \<noteq> n then Inl (Malformed (TimelineLength name n (length (tc_times tc))))
     else tc_sanity_check B tc)"

definition check_component ::
    "nat \<Rightarrow> ComponentIdentifier \<times> 'c SerializedComponentColumn \<Rightarrow> ChunkError + unit" where
  "check_component n = (\<lambda>(c, col).
     if cd_component (sc_descriptor col) \<noteq> c then Inl (Malformed (DescriptorMismatch c))
     else if la_len (sc_list_array col) \<noteq> n
       then Inl (Malformed (ComponentLength c n (la_len (sc_list_array col))))
     else if n \<noteq> 0 \<and> la_nulls (sc_list_array col) = Some []
       then Inl (Malformed (EmptyComponentColumn c))
     else Inr ())"

definition sanity_check :: "'c build \<Rightarrow> 'c Chunk \<Rightarrow> ChunkError + unit" where
  "sanity_check B ch =
     (let measured = measured_heap_size B ch; advertised = ch_heap_size_bytes ch in
      if debug_assertions B \<and> advertised \<noteq> 0 \<and> advertised \<noteq> measured
      then Inl (Malformed (HeapSizeMismatch advertised measured))
      else if debug_assertions B \<and> ch_is_sorted ch \<noteq> is_row_ids_sorted_uncached ch
      then Inl (Malformed (RowIdsSortedFlag (ch_is_sorted ch)))
      else
        (case first_error (check_timeline B (num_rows ch)) (ch_timelines ch) of
           Inl e \<Rightarrow> Inl e
         | Inr _ \<Rightarrow> first_error (check_component (num_rows ch)) (ch_components ch)))"

section \<open>Constructors\<close>

definition chunk_new ::
    "'c build \<Rightarrow> ChunkId \<Rightarrow> EntityPath \<Rightarrow> bool option \<Rightarrow> RowId list \<Rightarrow> ChunkTimelines \<Rightarrow>
     'c ChunkComponents \<Rightarrow> ChunkError + 'c Chunk" where
  "chunk_new B id0 path is_sorted row_ids tls comps =
     (let ch = \<lparr>ch_id = id0, ch_entity_path = path, ch_heap_size_bytes = 0, ch_is_sorted = False,
            ch_row_ids = row_ids, ch_timelines = tls, ch_components = comps\<rparr>;
          ch = ch\<lparr>ch_is_sorted := (case is_sorted of Some b \<Rightarrow> b | None \<Rightarrow> is_row_ids_sorted_uncached ch)\<rparr>
      in case sanity_check B ch of Inl e \<Rightarrow> Inl e | Inr _ \<Rightarrow> Inr ch)"

definition new_static ::
    "'c build \<Rightarrow> ChunkId \<Rightarrow> EntityPath \<Rightarrow> bool option \<Rightarrow> RowId list \<Rightarrow> 'c ChunkComponents \<Rightarrow>
     ChunkError + 'c Chunk" where
  "new_static B id0 path is_sorted row_ids comps = chunk_new B id0 path is_sorted row_ids [] comps"

definition chunk_empty :: "ChunkId \<Rightarrow> EntityPath \<Rightarrow> 'c Chunk" where
  "chunk_empty id0 path = \<lparr>ch_id = id0, ch_entity_path = path, ch_heap_size_bytes = 0,
     ch_is_sorted = True, ch_row_ids = [], ch_timelines = [], ch_components = []\<rparr>"

text \<open>\<open>add_component\<close> and \<open>add_timeline\<close> mutate the chunk even when the check fails.\<close>

definition add_component ::
    "'c build \<Rightarrow> ChunkId \<Rightarrow> 'c Chunk \<Rightarrow> 'c SerializedComponentColumn \<Rightarrow> 'c Chunk \<times> (ChunkError + unit)" where
  "add_component B new_id ch column =
     (let ch = ch\<lparr>ch_id := new_id, ch_components := components_insert column (ch_components ch),
            ch_heap_size_bytes := 0\<rparr>
      in (ch, sanity_check B ch))"

definition add_timeline ::
    "'c build \<Rightarrow> ChunkId \<Rightarrow> 'c Chunk \<Rightarrow> TimeColumn \<Rightarrow> 'c Chunk \<times> (ChunkError + unit)" where
  "add_timeline B new_id ch tc =
     (let ch = ch\<lparr>ch_id := new_id,
            ch_timelines := al_insert (tl_name (tc_timeline tc)) tc (ch_timelines ch),
            ch_heap_size_bytes := 0\<rparr>
      in (ch, sanity_check B ch))"

fun row_ids_from :: "RowId \<Rightarrow> nat \<Rightarrow> RowId list" where
  "row_ids_from r 0 = []"
| "row_ids_from r (Suc n) = r # row_ids_from (tuid_next r) n"

definition auto_row_ids :: "ChunkId \<Rightarrow> nat \<Rightarrow> RowId list" where
  "auto_row_ids id0 n = row_ids_from (tuid_next id0) n"

section \<open>Clones\<close>

definition with_id :: "'c Chunk \<Rightarrow> ChunkId \<Rightarrow> 'c Chunk" where
  "with_id ch id0 = ch\<lparr>ch_id := id0\<rparr>"

definition clone_with_id :: "'c Chunk \<Rightarrow> ChunkId \<Rightarrow> 'c Chunk" where
  "clone_with_id ch id0 = ch\<lparr>ch_id := id0\<rparr>"

definition clone_with_new_entity_path :: "ChunkId \<Rightarrow> 'c Chunk \<Rightarrow> EntityPath \<Rightarrow> 'c Chunk" where
  "clone_with_new_entity_path new_id ch path = (clone_with_id ch new_id)\<lparr>ch_entity_path := path\<rparr>"

definition clone_as :: "'c Chunk \<Rightarrow> ChunkId \<Rightarrow> RowId \<Rightarrow> 'c Chunk" where
  "clone_as ch id0 first_row_id =
     (clone_with_id ch id0)\<lparr>ch_row_ids := row_ids_from first_row_id (length (ch_row_ids ch)),
       ch_heap_size_bytes := 0\<rparr>"

definition into_static :: "'c Chunk \<Rightarrow> 'c Chunk" where
  "into_static ch = ch\<lparr>ch_timelines := [], ch_heap_size_bytes := 0\<rparr>"

definition zeroed :: "ChunkId \<Rightarrow> 'c Chunk \<Rightarrow> 'c Chunk" where
  "zeroed new_id ch = ch\<lparr>ch_id := new_id,
     ch_row_ids := replicate (length (ch_row_ids ch)) Tuid_ZERO, ch_heap_size_bytes := 0\<rparr>"

text \<open>The closures of the two mapping operations are arguments; an error of the closure is returned
  unchanged.\<close>

definition with_mapped_component ::
    "ChunkId \<Rightarrow> 'c Chunk \<Rightarrow> ComponentIdentifier \<Rightarrow> ComponentDescriptor option \<Rightarrow>
     ('c list_array \<Rightarrow> 'e + 'c list_array) \<Rightarrow> 'e + 'c Chunk" where
  "with_mapped_component new_id ch source target f =
     (let rebuild = (\<lambda>comps. Inr \<lparr>ch_id = new_id, ch_entity_path = ch_entity_path ch,
            ch_heap_size_bytes = 0, ch_is_sorted = True,
            ch_row_ids = auto_row_ids new_id (num_rows ch), ch_timelines = ch_timelines ch,
            ch_components = comps\<rparr>)
      in case map_of (ch_components ch) source of
           None \<Rightarrow> rebuild (ch_components ch)
         | Some old \<Rightarrow>
             (case f (sc_list_array old) of
                Inl e \<Rightarrow> Inl e
              | Inr la \<Rightarrow> rebuild (components_insert
                    (sc_new la (case target of Some d \<Rightarrow> d | None \<Rightarrow> sc_descriptor old))
                    (filter (\<lambda>(c, _). c \<noteq> source) (ch_components ch)))))"

definition with_shadowed_component ::
    "ChunkId \<Rightarrow> 'c Chunk \<Rightarrow> ComponentIdentifier \<Rightarrow> ComponentIdentifier \<Rightarrow>
     ('c list_array \<Rightarrow> 'e + 'c list_array) \<Rightarrow> 'e + 'c Chunk" where
  "with_shadowed_component new_id ch source target f =
     (let new_chunk = clone_with_id ch new_id in
      case map_of (ch_components new_chunk) source of
        None \<Rightarrow> Inr new_chunk
      | Some old \<Rightarrow>
          (case f (sc_list_array old) of
             Inl e \<Rightarrow> Inl e
           | Inr la \<Rightarrow> Inr (new_chunk\<lparr>ch_components := components_insert
               (sc_new la \<lparr>cd_archetype = None, cd_component = target, cd_component_type = None\<rparr>)
               (filter (\<lambda>(c, _). c \<noteq> source) (ch_components new_chunk))\<rparr>)))"

text \<open>The heap size is computed once and cached; zero stands for not computed.\<close>

definition heap_size_bytes :: "'c build \<Rightarrow> 'c Chunk \<Rightarrow> nat \<times> 'c Chunk" where
  "heap_size_bytes B ch =
     (if ch_heap_size_bytes ch = 0
      then let n = measured_heap_size B ch in (n, ch\<lparr>ch_heap_size_bytes := n\<rparr>)
      else (ch_heap_size_bytes ch, ch))"

section \<open>The invariant\<close>

definition columns_ok :: "nat \<Rightarrow> 'c ChunkComponents \<Rightarrow> bool" where
  "columns_ok n comps \<longleftrightarrow> distinct (map fst comps) \<and> (\<forall>(c, col) \<in> set comps.
     cd_component (sc_descriptor col) = c \<and> la_wf (sc_list_array col) \<and> la_len (sc_list_array col) = n)"

definition timelines_ok :: "nat \<Rightarrow> ChunkTimelines \<Rightarrow> bool" where
  "timelines_ok n tls \<longleftrightarrow> distinct (map fst tls) \<and> (\<forall>(name, tc) \<in> set tls.
     tc_wf tc \<and> length (tc_times tc) = n)"

definition chunk_wf :: "'c Chunk \<Rightarrow> bool" where
  "chunk_wf ch \<longleftrightarrow> ch_is_sorted ch = sorted (ch_row_ids ch)
     \<and> timelines_ok (num_rows ch) (ch_timelines ch) \<and> columns_ok (num_rows ch) (ch_components ch)"

text \<open>What the types alone guarantee: distinct keys, list arrays that arrow accepted, times that are
  64-bit integers.\<close>

definition chunk_typed :: "'c Chunk \<Rightarrow> bool" where
  "chunk_typed ch \<longleftrightarrow> distinct (map fst (ch_timelines ch)) \<and> distinct (map fst (ch_components ch))
     \<and> (\<forall>(_, col) \<in> set (ch_components ch). la_wf (sc_list_array col))
     \<and> (\<forall>(_, tc) \<in> set (ch_timelines ch). \<forall>t\<in>set (tc_times tc). i64_ok t)"

lemma first_error_Inr [simp]: "first_error f xs = Inr u \<longleftrightarrow> (\<forall>x\<in>set xs. f x = Inr ())"
  by (induction xs) (auto split: sum.splits)

lemma first_error_then [simp]:
  "(case first_error f xs of Inl e \<Rightarrow> Inl e | Inr _ \<Rightarrow> r) = Inr u \<longleftrightarrow>
     (\<forall>x\<in>set xs. f x = Inr ()) \<and> r = Inr u"
proof (cases "first_error f xs")
  case (Inl e)
  then have "\<not> (\<forall>x\<in>set xs. f x = Inr ())" by (metis Inl_Inr_False first_error_Inr)
  with Inl show ?thesis by simp
next
  case (Inr v)
  then have "\<forall>x\<in>set xs. f x = Inr ()" by simp
  then show ?thesis unfolding Inr by simp
qed

lemma range_tight_iff:
  assumes "ts \<noteq> []"
  shows "range_tight r ts \<longleftrightarrow> as_i64 (range_min r) \<in> set ts \<and> as_i64 (range_max r) \<in> set ts
    \<and> (\<forall>t\<in>set ts. as_i64 (range_min r) \<le> t \<and> t \<le> as_i64 (range_max r))"
  using assms by (auto simp: range_tight_def intro!: Min_eqI [symmetric] Max_eqI [symmetric])

lemma tc_sanity_check_debug:
  assumes "debug_assertions B" "\<forall>t\<in>set (tc_times tc). i64_ok t"
  shows "tc_sanity_check B tc = Inr () \<longleftrightarrow> tc_wf tc"
proof (cases "tc_times tc = []")
  case False
  have "times_valid (tc_times tc) \<longleftrightarrow> (\<forall>t\<in>set (tc_times tc). t \<noteq> i64_MIN)"
    using assms(2) by (auto simp: times_valid_def i64_ok_def order_less_le)
  moreover have "tc_sanity_check B tc = Inr () \<longleftrightarrow> tc_is_sorted tc = sorted (tc_times tc)
      \<and> range_tight (tc_time_range tc) (tc_times tc) \<and> (\<forall>t\<in>set (tc_times tc). t \<noteq> i64_MIN)"
    using assms(1) False
    by (auto simp: tc_sanity_check_def tc_is_empty_def tc_num_rows_def check_time_def Let_def
        range_tight_iff split: if_splits)
  ultimately show ?thesis by (auto simp: tc_wf_def)
qed (use assms in \<open>auto simp: tc_sanity_check_def tc_wf_def times_valid_def range_tight_def
      tc_is_empty_def tc_num_rows_def\<close>)

lemma la_nulls_not_empty: "la_wf la \<Longrightarrow> la_len la = n \<Longrightarrow> n \<noteq> 0 \<Longrightarrow> la_nulls la \<noteq> Some []"
  by (auto simp: la_wf_def)

lemma check_component_ok:
  "la_wf (sc_list_array col) \<Longrightarrow> check_component n (c, col) = Inr () \<longleftrightarrow>
     cd_component (sc_descriptor col) = c \<and> la_len (sc_list_array col) = n"
  by (auto simp: check_component_def la_nulls_not_empty)

text \<open>C38: in a debug build \<open>sanity_check\<close> accepts exactly the chunks that satisfy the invariant \<open>chunk_wf\<close>: the
  flags are exact, every column has one entry per row, every cached time range is tight, no time is
  static, and every component sits under its own name. The chunk has intact arrays and no two columns
  of one name (\<open>chunk_typed\<close>), and its cached heap size is unset or exact. That a column has a non-null
  entry is not part of it: the check whose message asks for one only rejects an empty validity buffer.\<close>

theorem sanity_check_debug_exact:
  assumes "debug_assertions B" and "chunk_typed ch"
    and "ch_heap_size_bytes ch \<in> {0, measured_heap_size B ch}"
  shows "sanity_check B ch = Inr () \<longleftrightarrow> chunk_wf ch"
proof -
  have "(\<forall>x\<in>set (ch_timelines ch). check_timeline B (num_rows ch) x = Inr ())
      \<longleftrightarrow> timelines_ok (num_rows ch) (ch_timelines ch)"
    using assms(2) tc_sanity_check_debug [OF assms(1)]
    by (fastforce simp: check_timeline_def timelines_ok_def chunk_typed_def split: if_splits)
  moreover have "(\<forall>x\<in>set (ch_components ch). check_component (num_rows ch) x = Inr ())
      \<longleftrightarrow> columns_ok (num_rows ch) (ch_components ch)"
    using assms(2) by (fastforce simp: columns_ok_def chunk_typed_def check_component_ok)
  ultimately show ?thesis
    using assms(1,3)
    by (auto simp: sanity_check_def chunk_wf_def Let_def is_row_ids_sorted_uncached_def
        split: if_splits)
qed

lemma chunk_wf_typed: "chunk_wf ch \<Longrightarrow> chunk_typed ch"
  by (fastforce simp: chunk_wf_def chunk_typed_def timelines_ok_def columns_ok_def tc_wf_def
      times_valid_def i64_ok_def)

section \<open>Rows\<close>

text \<open>The abstract view of a chunk: a list of rows, each with its id, its time on every timeline and
  its cell for every component. A null cell and a missing column both read \<open>None\<close>.\<close>

record 'c row =
  r_id :: RowId
  r_times :: "TimelineName \<Rightarrow> i64 option"
  r_cells :: "ComponentIdentifier \<Rightarrow> 'c list option"

definition time_at :: "'c Chunk \<Rightarrow> nat \<Rightarrow> TimelineName \<Rightarrow> i64 option" where
  "time_at ch i tl0 = map_option (\<lambda>tc. tc_times tc ! i) (map_of (ch_timelines ch) tl0)"

definition cell_at :: "'c Chunk \<Rightarrow> nat \<Rightarrow> ComponentIdentifier \<Rightarrow> 'c list option" where
  "cell_at ch i c =
     Option.bind (map_of (ch_components ch) c) (\<lambda>col. la_iter (sc_list_array col) ! i)"

definition chunk_row :: "'c Chunk \<Rightarrow> nat \<Rightarrow> 'c row" where
  "chunk_row ch i = \<lparr>r_id = ch_row_ids ch ! i, r_times = time_at ch i, r_cells = cell_at ch i\<rparr>"

definition chunk_rows :: "'c Chunk \<Rightarrow> 'c row list" where
  "chunk_rows ch = map (chunk_row ch) [0..<num_rows ch]"

lemma length_chunk_rows [simp]: "length (chunk_rows ch) = num_rows ch"
  by (simp add: chunk_rows_def)

lemma chunk_rows_nth [simp]: "i < num_rows ch \<Longrightarrow> chunk_rows ch ! i = chunk_row ch i"
  by (simp add: chunk_rows_def)

lemma chunk_rows_ids: "map r_id (chunk_rows ch) = ch_row_ids ch"
  by (rule nth_equalityI) (auto simp: num_rows_def chunk_row_def)

lemma timelines_okD:
  assumes "timelines_ok n tls" "map_of tls k = Some tc"
  shows "tc_wf tc" "length (tc_times tc) = n"
  using assms by (auto simp: timelines_ok_def dest: map_of_SomeD)

lemma columns_okD:
  assumes "columns_ok n comps" "map_of comps c = Some col"
  shows "cd_component (sc_descriptor col) = c" "la_wf (sc_list_array col)"
    "la_len (sc_list_array col) = n"
  using assms by (auto simp: columns_ok_def dest: map_of_SomeD)

lemmas chunk_wfD = chunk_wf_def [THEN iffD1, THEN conjunct1]
  chunk_wf_def [THEN iffD1, THEN conjunct2, THEN conjunct1]
  chunk_wf_def [THEN iffD1, THEN conjunct2, THEN conjunct2]

lemma chunk_wf_column:
  assumes "chunk_wf ch" "(c, col) \<in> set (ch_components ch)"
  shows "cd_component (sc_descriptor col) = c" "la_wf (sc_list_array col)"
    "la_len (sc_list_array col) = num_rows ch"
  using assms by (auto simp: chunk_wf_def columns_ok_def)

lemma chunk_wf_timeline:
  assumes "chunk_wf ch" "(k, tc) \<in> set (ch_timelines ch)"
  shows "tc_wf tc" "length (tc_times tc) = num_rows ch"
  using assms by (auto simp: chunk_wf_def timelines_ok_def)

text \<open>Every vertical operation of the code picks rows by index, column by column. \<open>rows_gathered\<close> is
  what it does to the columns; on rows it is one \<open>gather\<close>.\<close>

definition rows_gathered :: "'c Chunk \<Rightarrow> nat list \<Rightarrow> 'c Chunk \<Rightarrow> bool" where
  "rows_gathered ch is ch' \<longleftrightarrow> ch_row_ids ch' = gather (ch_row_ids ch) is
     \<and> (\<forall>k. map_option tc_times (map_of (ch_timelines ch') k)
            = map_option (\<lambda>tc. gather (tc_times tc) is) (map_of (ch_timelines ch) k))
     \<and> (\<forall>c. map_option (la_iter \<circ> sc_list_array) (map_of (ch_components ch') c)
            = map_option (\<lambda>col. gather (la_iter (sc_list_array col)) is) (map_of (ch_components ch) c))"

lemma rows_gathered_rows:
  assumes g: "rows_gathered ch is ch'" and "set is \<subseteq> {..<num_rows ch}"
  shows "chunk_rows ch' = gather (chunk_rows ch) is"
proof (rule nth_equalityI)
  show len: "length (chunk_rows ch') = length (gather (chunk_rows ch) is)"
    using g by (simp add: rows_gathered_def num_rows_def)
  fix i assume "i < length (chunk_rows ch')"
  then have i: "i < length is" "is ! i < num_rows ch" "i < num_rows ch'"
    using len assms(2) by (auto simp: subset_iff)
  have "time_at ch' i k = time_at ch (is ! i) k" for k
  proof -
    from g have "map_option tc_times (map_of (ch_timelines ch') k)
      = map_option (\<lambda>tc. gather (tc_times tc) is) (map_of (ch_timelines ch) k)"
      by (simp add: rows_gathered_def)
    then show ?thesis using i
      by (cases "map_of (ch_timelines ch') k"; cases "map_of (ch_timelines ch) k")
        (auto simp: time_at_def)
  qed
  moreover have "cell_at ch' i c = cell_at ch (is ! i) c" for c
  proof -
    from g have "map_option (la_iter \<circ> sc_list_array) (map_of (ch_components ch') c)
      = map_option (\<lambda>col. gather (la_iter (sc_list_array col)) is) (map_of (ch_components ch) c)"
      by (simp add: rows_gathered_def)
    then show ?thesis using i
      by (cases "map_of (ch_components ch') c"; cases "map_of (ch_components ch) c")
        (auto simp: cell_at_def)
  qed
  ultimately show "chunk_rows ch' ! i = gather (chunk_rows ch) is ! i"
    using i g by (auto simp: chunk_row_def rows_gathered_def)
qed

section \<open>Lemmas on component maps\<close>

lemma fold_components_insert_fresh:
  assumes "distinct (map (cd_component \<circ> sc_descriptor) cols)"
    "(cd_component \<circ> sc_descriptor) ` set cols \<inter> fst ` set m = {}"
  shows "fold components_insert cols m
    = m @ map (\<lambda>col. (cd_component (sc_descriptor col), col)) cols"
  using assms
proof (induction cols arbitrary: m)
  case (Cons col cols)
  have "components_insert col m = m @ [(cd_component (sc_descriptor col), col)]"
    using Cons.prems by (simp add: components_insert_def al_insert_fresh)
  moreover have "fold components_insert cols (m @ [(cd_component (sc_descriptor col), col)])
      = (m @ [(cd_component (sc_descriptor col), col)])
        @ map (\<lambda>col. (cd_component (sc_descriptor col), col)) cols"
    using Cons.prems by (intro Cons.IH) auto
  ultimately show ?case by simp
qed simp

lemma components_from_iter_distinct:
  "distinct (map (cd_component \<circ> sc_descriptor) cols) \<Longrightarrow>
   components_from_iter cols = map (\<lambda>col. (cd_component (sc_descriptor col), col)) cols"
  using fold_components_insert_fresh [of cols "[]"] by (simp add: components_from_iter_def)

text \<open>Rebuilding a map from its columns with the arrays replaced keeps keys and order.\<close>

lemma components_rebuild:
  assumes "distinct (map fst comps)" "\<forall>(c, col) \<in> set comps. cd_component (sc_descriptor col) = c"
  shows "components_from_iter (map (\<lambda>(_, col). sc_new (f col) (sc_descriptor col)) comps)
    = map (\<lambda>(c, col). (c, sc_new (f col) (sc_descriptor col))) comps"
proof -
  have k: "map (cd_component \<circ> sc_descriptor) (map (\<lambda>(_, col). sc_new (f col) (sc_descriptor col)) comps)
      = map fst comps"
    using assms(2) by (auto simp: sc_new_def)
  have "map (\<lambda>col. (cd_component (sc_descriptor col), col))
      (map (\<lambda>(_, col). sc_new (f col) (sc_descriptor col)) comps)
    = map (\<lambda>(c, col). (c, sc_new (f col) (sc_descriptor col))) comps"
    using assms(2) by (auto simp: sc_new_def)
  with assms(1) show ?thesis by (simp only: components_from_iter_distinct k)
qed

section \<open>Vertical operations\<close>

text \<open>An operation that rebuilds every column by the same index list keeps the invariant and gathers
  the rows.\<close>

lemma gathered_rows:
  assumes ids: "ch_row_ids ch' = gather (ch_row_ids ch) is"
    and tls: "ch_timelines ch' = map (\<lambda>(k, tc). (k, ft tc)) (ch_timelines ch)"
    and comps: "ch_components ch' = map (\<lambda>(c, col). (c, fc col)) (ch_components ch)"
    and ft: "\<And>k tc. (k, tc) \<in> set (ch_timelines ch) \<Longrightarrow> tc_times (ft tc) = gather (tc_times tc) is"
    and fc: "\<And>c col. (c, col) \<in> set (ch_components ch) \<Longrightarrow>
      la_iter (sc_list_array (fc col)) = gather (la_iter (sc_list_array col)) is"
  shows "rows_gathered ch is ch'"
  unfolding rows_gathered_def ids tls comps map_of_map_values
  using ft fc by (auto simp: option.map_comp comp_def intro!: option.map_cong0 dest!: map_of_SomeD
      split: option.splits)

lemma gathered_chunk:
  assumes wf: "chunk_wf ch"
    and ids: "ch_row_ids ch' = gather (ch_row_ids ch) is"
    and srt: "ch_is_sorted ch' = sorted (ch_row_ids ch')"
    and tls: "ch_timelines ch' = map (\<lambda>(k, tc). (k, ft tc)) (ch_timelines ch)"
    and comps: "ch_components ch' = map (\<lambda>(c, col). (c, fc col)) (ch_components ch)"
    and ft: "\<And>k tc. (k, tc) \<in> set (ch_timelines ch) \<Longrightarrow>
      tc_wf (ft tc) \<and> tc_times (ft tc) = gather (tc_times tc) is"
    and fc: "\<And>c col. (c, col) \<in> set (ch_components ch) \<Longrightarrow>
      la_wf (sc_list_array (fc col)) \<and> sc_descriptor (fc col) = sc_descriptor col
      \<and> la_iter (sc_list_array (fc col)) = gather (la_iter (sc_list_array col)) is"
  shows "rows_gathered ch is ch'" "chunk_wf ch'"
proof -
  have n: "num_rows ch' = length is" by (simp add: num_rows_def ids)
  have fstt: "map fst (ch_timelines ch') = map fst (ch_timelines ch)" by (auto simp: tls)
  have fstc: "map fst (ch_components ch') = map fst (ch_components ch)" by (auto simp: comps)
  have len: "la_len (sc_list_array (fc col)) = length is" if "(c, col) \<in> set (ch_components ch)" for c col
    using fc [OF that] length_la_iter [of "sc_list_array (fc col)"] by simp
  show "chunk_wf ch'"
    unfolding chunk_wf_def timelines_ok_def columns_ok_def fstt fstc n
    using wf ft fc len srt by (auto simp: tls comps chunk_wf_def timelines_ok_def columns_ok_def)
  show "rows_gathered ch is ch'"
    by (rule gathered_rows [OF ids tls comps]) (use ft fc in auto)
qed

section \<open>A concrete chunk\<close>

text \<open>Three rows on one timeline, which is not sorted, with one sparse component. The concrete runs of
  the operations use it.\<close>

definition demo_id :: "nat \<Rightarrow> RowId" where
  "demo_id n = from_u128 (of_nat n)"

definition demo_column :: "nat SerializedComponentColumn" where
  "demo_column = sc_new (la_of_rows ''u64'' [Some [7], None, Some [8, 9]])
     \<lparr>cd_archetype = None, cd_component = ''pos'', cd_component_type = None\<rparr>"

definition demo_chunk :: "nat Chunk" where
  "demo_chunk = \<lparr>ch_id = demo_id 9, ch_entity_path = ''/world'', ch_heap_size_bytes = 0,
     ch_is_sorted = True, ch_row_ids = [demo_id 1, demo_id 2, demo_id 3],
     ch_timelines = [(''frame'', tc_new None \<lparr>tl_name = ''frame'', tl_typ = Sequence\<rparr> [5, 3, 3])],
     ch_components = [(''pos'', demo_column)]\<rparr>"

lemma demo_id_less [simp]: "a < 2 ^ 128 \<Longrightarrow> b < 2 ^ 128 \<Longrightarrow> demo_id a < demo_id b \<longleftrightarrow> a < b"
  by (simp add: demo_id_def tuid_less_iff word_less_nat_alt unat_of_nat)

lemma demo_id_le [simp]: "a < 2 ^ 128 \<Longrightarrow> b < 2 ^ 128 \<Longrightarrow> demo_id a \<le> demo_id b \<longleftrightarrow> a \<le> b"
  by (metis demo_id_less not_less)

lemma demo_id_inject [simp]: "a < 2 ^ 128 \<Longrightarrow> b < 2 ^ 128 \<Longrightarrow> demo_id a = demo_id b \<longleftrightarrow> a = b"
  by (metis demo_id_le order_antisym order_refl)

lemma demo_chunk_sel [simp]:
  "ch_heap_size_bytes demo_chunk = 0" "ch_is_sorted demo_chunk"
  "ch_row_ids demo_chunk = [demo_id 1, demo_id 2, demo_id 3]"
  "ch_timelines demo_chunk
    = [(''frame'', tc_new None \<lparr>tl_name = ''frame'', tl_typ = Sequence\<rparr> [5, 3, 3])]"
  "ch_components demo_chunk = [(''pos'', demo_column)]" "num_rows demo_chunk = 3"
  by (simp_all add: demo_chunk_def num_rows_def)

lemma demo_chunk_wf [simp]: "chunk_wf demo_chunk"
proof -
  have "tc_wf (tc_new None \<lparr>tl_name = ''frame'', tl_typ = Sequence\<rparr> [5, 3, 3])"
    by (rule tc_wf_new) (simp_all add: times_valid_def i64_MIN_def i64_MAX_def)
  then show ?thesis
    by (simp add: chunk_wf_def demo_chunk_def timelines_ok_def columns_ok_def num_rows_def
        demo_column_def sc_new_def)
qed

theorem sanity_check_debug_exact_witness:
  "sanity_check \<lparr>debug_assertions = True, measured_heap_size = \<lambda>_. 64\<rparr> demo_chunk = Inr ()"
  using sanity_check_debug_exact [of "\<lparr>debug_assertions = True, measured_heap_size = \<lambda>_. 64\<rparr>" demo_chunk]
    chunk_wf_typed [OF demo_chunk_wf]
  by simp

end
