(* ===== verification/Chunk_Stats.thy ===== *)
theory Chunk_Stats
  imports Chunk
begin

text \<open>
  Lookups and statistics of a chunk (\<open>chunk.rs\<close>, \<open>slice.rs\<close>): finding a row or a cell by id, the
  row-id and time ranges of the chunk and of each component, and the event counts that the time
  panel shows. The optimised routines are proved equal to the counting they stand for.
\<close>

section \<open>Operations\<close>

definition la_num_valid :: "'c list_array \<Rightarrow> nat" where
  "la_num_valid la =
     (case la_nulls la of None \<Rightarrow> la_len la | Some v \<Rightarrow> length v - length (filter Not v))"

definition num_events_cumulative :: "'c Chunk \<Rightarrow> nat" where
  "num_events_cumulative ch = sum_list (map la_num_valid (list_arrays (ch_components ch)))"

definition num_events_for_component :: "'c Chunk \<Rightarrow> ComponentIdentifier \<Rightarrow> nat option" where
  "num_events_for_component ch c = map_option la_num_valid (get_array (ch_components ch) c)"

text \<open>\<open>counts_raw[i] += is_valid as u64\<close>. A validity bitmap longer than the chunk would panic; both
  have one entry per row.\<close>

fun add_validity :: "nat list \<Rightarrow> bool list \<Rightarrow> nat list" where
  "add_validity (c # cs) (b # bs) = (c + (if b then 1 else 0)) # add_validity cs bs"
| "add_validity cs _ = cs"

definition add_array :: "'c list_array \<Rightarrow> nat list \<Rightarrow> nat list" where
  "add_array la counts =
     (case la_nulls la of Some v \<Rightarrow> add_validity counts v | None \<Rightarrow> map (\<lambda>c. c + 1) counts)"

fun run_step :: "(TimeInt \<times> nat) list \<times> TimeInt \<times> nat \<Rightarrow> TimeInt \<times> nat \<Rightarrow> (TimeInt \<times> nat) list \<times> TimeInt \<times> nat" where
  "run_step (counts, cur_time, cur_count) (t, n) =
     (if t = cur_time then (counts, cur_time, cur_count + n)
      else (counts @ [(cur_time, cur_count)], t, n))"

definition run_finish :: "(TimeInt \<times> nat) list \<times> TimeInt \<times> nat \<Rightarrow> (TimeInt \<times> nat) list" where
  "run_finish = (\<lambda>(counts, cur_time, cur_count).
     if map_option fst (list_last counts) \<noteq> Some cur_time then counts @ [(cur_time, cur_count)]
     else counts)"

definition num_events_sorted :: "'c Chunk \<Rightarrow> TimeColumn \<Rightarrow> (TimeInt \<times> nat) list" where
  "num_events_sorted ch tc =
     (let counts_raw = fold add_array (list_arrays (ch_components ch)) (replicate (num_rows ch) 0) in
      case list_first (tc_times_iter tc) of
        None \<Rightarrow> []
      | Some cur_time \<Rightarrow>
          run_finish (foldl run_step ([], cur_time, 0) (zip (tc_times_iter tc) counts_raw)))"

definition entry_add :: "TimeInt \<Rightarrow> nat \<Rightarrow> (TimeInt \<times> nat) list \<Rightarrow> (TimeInt \<times> nat) list" where
  "entry_add t n acc = al_insert t ((case map_of acc t of Some k \<Rightarrow> k | None \<Rightarrow> 0) + n) acc"

definition array_entries :: "TimeInt list \<Rightarrow> 'c list_array \<Rightarrow> (TimeInt \<times> nat) list" where
  "array_entries ts la =
     (case la_nulls la of
        Some v \<Rightarrow> zip ts (map (\<lambda>b. if b then 1 else 0) v)
      | None \<Rightarrow> map (\<lambda>t. (t, 1)) ts)"

definition num_events_unsorted :: "'c Chunk \<Rightarrow> TimeColumn \<Rightarrow> (TimeInt \<times> nat) list" where
  "num_events_unsorted ch tc =
     sort_key fst
       (fold (\<lambda>la acc. fold (\<lambda>(t, n). entry_add t n) (array_entries (tc_times_iter tc) la) acc)
         (list_arrays (ch_components ch)) [])"

definition num_events_cumulative_per_unique_time ::
    "'c Chunk \<Rightarrow> TimelineName \<Rightarrow> (TimeInt \<times> nat) list" where
  "num_events_cumulative_per_unique_time ch timeline =
     (if chunk_is_static ch then [(TimeInt_STATIC, num_events_cumulative ch)]
      else case map_of (ch_timelines ch) timeline of
        None \<Rightarrow> []
      | Some tc \<Rightarrow>
          if range_min (tc_time_range tc) = range_max (tc_time_range tc)
          then [(range_min (tc_time_range tc), num_events_cumulative ch)]
          else if tc_is_sorted tc then num_events_sorted ch tc else num_events_unsorted ch tc)"

text \<open>The valid times of a sparse column; the first and the last one when the times are sorted.\<close>

definition component_time_range :: "TimeColumn \<Rightarrow> 'c list_array \<Rightarrow> AbsoluteTimeRange option" where
  "component_time_range tc la =
     (case la_nulls la of
        None \<Rightarrow> Some (tc_time_range tc)
      | Some validity \<Rightarrow>
          if validity = [] then None
          else if length (filter Not validity) = 0 then Some (tc_time_range tc)
          else
            let valid_times = mask_select validity (tc_times tc);
                is_sorted = sorted (tc_times tc);
                time_min = map_or TimeInt_MAX new_temporal
                  (if is_sorted then list_first valid_times else iter_min valid_times);
                time_max = map_or TimeInt_MIN new_temporal
                  (if is_sorted then list_last valid_times else iter_max valid_times)
            in Some (range_new (Some time_min) (Some time_max)))"

definition tc_time_range_per_component ::
    "TimeColumn \<Rightarrow> 'c ChunkComponents \<Rightarrow> (ComponentIdentifier \<times> AbsoluteTimeRange) list" where
  "tc_time_range_per_component tc comps =
     List.map_filter (\<lambda>(c, col). map_option (Pair c) (component_time_range tc (sc_list_array col))) comps"

definition time_range_per_component ::
    "'c Chunk \<Rightarrow> (TimelineName \<times> (ComponentIdentifier \<times> AbsoluteTimeRange) list) list" where
  "time_range_per_component ch =
     map (\<lambda>(name, tc). (name, tc_time_range_per_component tc (ch_components ch))) (ch_timelines ch)"

text \<open>\<open>row_id_range_per_component\<close>, as written: the two loops assign on every valid row, the first
  one forwards into the minimum and the second one backwards into the maximum; the comparisons of
  the unsorted branch start from the wrong ends.\<close>

definition row_id_range_component ::
    "'c Chunk \<Rightarrow> 'c list_array \<Rightarrow> (RowId \<times> RowId) option" where
  "row_id_range_component ch la =
     (let rows = zip [0..<num_rows ch] (ch_row_ids ch) in
      if ch_is_sorted ch then
        let row_id_min = foldl (\<lambda>acc (i, r). if la_is_valid la i then Some r else acc) None rows;
            row_id_max = foldl (\<lambda>acc (i, r). if la_is_valid la i then Some r else acc) None (rev rows)
        in (case (row_id_min, row_id_max) of (Some a, Some b) \<Rightarrow> Some (a, b) | _ \<Rightarrow> None)
      else
        let row_id_min = foldl (\<lambda>acc (i, r). if la_is_valid la i \<and> r > acc then r else acc) Tuid_MAX rows;
            row_id_max = foldl (\<lambda>acc (i, r). if la_is_valid la i \<and> r < acc then r else acc) Tuid_ZERO (rev rows)
        in Some (row_id_min, row_id_max))"

definition row_id_range_per_component ::
    "'c Chunk \<Rightarrow> (ComponentIdentifier \<times> RowId \<times> RowId) list" where
  "row_id_range_per_component ch =
     List.map_filter (\<lambda>(c, col). map_option (Pair c) (row_id_range_component ch (sc_list_array col)))
       (ch_components ch)"

section \<open>Lookups by row id\<close>

lemma binary_search_loop_bounds:
  assumes "sz > 0" "base + sz \<le> length xs"
  shows "binary_search_loop xs x base sz < length xs"
  using assms
proof (induction xs x base sz rule: binary_search_loop.induct)
  case (1 xs x base sz)
  show ?case
  proof (cases "sz > 1")
    case True
    let ?half = "sz div 2"
    have "?half < sz" "?half > 0" using True by auto
    then show ?thesis using 1 True by (subst binary_search_loop.simps) (auto simp: Let_def)
  next
    case False
    then show ?thesis using 1 by (subst binary_search_loop.simps) auto
  qed
qed

text \<open>Everything right of the window is greater, and the element at its left end is not, unless the
  window starts at zero.\<close>

lemma binary_search_loop_finds:
  assumes "sorted xs" "sz > 0" "base + sz \<le> length xs"
    "\<forall>i. base + sz \<le> i \<and> i < length xs \<longrightarrow> x < xs ! i" "base = 0 \<or> xs ! base \<le> x" "x \<in> set xs"
  shows "xs ! binary_search_loop xs x base sz = x"
  using assms
proof (induction xs x base sz rule: binary_search_loop.induct)
  case (1 xs x base sz)
  show ?case
  proof (cases "sz > 1")
    case True
    let ?half = "sz div 2" and ?mid = "base + sz div 2"
    have h: "?half < sz" "?half > 0" "?mid < length xs" using True 1(4) by auto
    let ?base = "if xs ! ?mid > x then base else ?mid"
    have right: "\<forall>i. ?base + (sz - ?half) \<le> i \<and> i < length xs \<longrightarrow> x < xs ! i"
    proof (cases "xs ! ?mid > x")
      case gt: True
      show ?thesis
      proof (intro allI impI, elim conjE)
        fix i assume i: "?base + (sz - ?half) \<le> i" "i < length xs"
        have "?mid \<le> i" using i gt h by auto
        then have "xs ! ?mid \<le> xs ! i" using 1(2) i by (simp add: sorted_nth_mono)
        with gt show "x < xs ! i" by simp
      qed
    qed (use 1(5) h in auto)
    have "xs ! binary_search_loop xs x ?base (sz - ?half) = x"
    proof (rule 1(1) [OF True refl refl 1(2) _ _ right])
      show "0 < sz - ?half" "?base + (sz - ?half) \<le> length xs" using h 1(4) by auto
      show "?base = 0 \<or> xs ! ?base \<le> x" using 1(6) by auto
    qed (rule 1(7))
    then show ?thesis using True by (subst binary_search_loop.simps) (simp add: Let_def)
  next
    case False
    then have sz: "sz = 1" using 1(3) by simp
    obtain i where i: "i < length xs" "xs ! i = x" using 1(7) by (auto simp: in_set_conv_nth)
    have "\<not> base + sz \<le> i" using 1(5) i by auto
    then have "i \<le> base" using sz by simp
    moreover have "xs ! base = x" if "i < base"
    proof -
      have "xs ! i \<le> xs ! base" using 1(2) 1(4) sz that by (simp add: sorted_nth_mono)
      then show ?thesis using 1(6) i that by auto
    qed
    ultimately show ?thesis using i sz by (subst binary_search_loop.simps) (auto simp: le_less)
  qed
qed

lemma binary_search_Some: "binary_search xs x = Some i \<Longrightarrow> i < length xs \<and> xs ! i = x"
  using binary_search_loop_bounds [of "length xs" 0 xs x]
  by (auto simp: binary_search_def Let_def split: if_splits)

lemma binary_search_None: "sorted xs \<Longrightarrow> binary_search xs x = None \<longleftrightarrow> x \<notin> set xs"
proof -
  assume s: "sorted xs"
  show "binary_search xs x = None \<longleftrightarrow> x \<notin> set xs"
  proof (cases "xs = []")
    case False
    then have "binary_search_loop xs x 0 (length xs) < length xs"
      by (intro binary_search_loop_bounds) auto
    moreover have "xs ! binary_search_loop xs x 0 (length xs) = x" if "x \<in> set xs"
      by (rule binary_search_loop_finds) (use s False that in auto)
    ultimately show ?thesis
      using False nth_mem by (fastforce simp: binary_search_def Let_def)
  qed (simp add: binary_search_def)
qed

lemma position_Some: "position p xs = Some i \<Longrightarrow> i < length xs \<and> p (xs ! i)"
  by (induction p xs arbitrary: i rule: position.induct) (auto split: if_splits)

lemma position_None: "position p xs = None \<longleftrightarrow> (\<forall>x\<in>set xs. \<not> p x)"
  by (induction p xs rule: position.induct) auto

lemma row_index_of_Some:
  "row_index_of ch r = Some i \<Longrightarrow> i < num_rows ch \<and> ch_row_ids ch ! i = r"
  by (auto simp: row_index_of_def num_rows_def dest: binary_search_Some position_Some split: if_splits)

lemma row_index_of_None:
  "chunk_wf ch \<Longrightarrow> row_index_of ch r = None \<longleftrightarrow> r \<notin> set (ch_row_ids ch)"
  by (auto simp: row_index_of_def chunk_wf_def binary_search_None position_None)

lemma cell_row_index:
  "cell ch r c = (case get_array (ch_components ch) c of None \<Rightarrow> None | Some la \<Rightarrow>
     (case row_index_of ch r of None \<Rightarrow> None
      | Some i \<Rightarrow> if la_is_valid la i then Some (la_value la i) else None))"
  by (simp add: cell_def row_index_of_def split: option.splits)

lemma cell_at_eq:
  assumes "chunk_wf ch" "i < num_rows ch"
  shows "cell_at ch i c = (case get_array (ch_components ch) c of None \<Rightarrow> None
    | Some la \<Rightarrow> if la_is_valid la i then Some (la_value la i) else None)"
  using assms columns_okD(3) [OF chunk_wfD(3), of ch c]
  by (cases "map_of (ch_components ch) c") (auto simp: cell_at_def get_array_def la_iter_nth)

section \<open>Counting events\<close>

declare sorted_list_of_set_insert_remove [simp del]

definition valid_rows :: "'c list_array \<Rightarrow> nat list" where
  "valid_rows la = filter (la_is_valid la) [0..<la_len la]"

lemma filter_nth_upt: "length (filter id v) = length (filter (\<lambda>i. v ! i) [0..<length v])"
proof -
  have "filter id v = map (\<lambda>i. v ! i) (filter (\<lambda>i. v ! i) [0..<length v])"
    by (subst map_nth [symmetric, of v]) (simp only: filter_map comp_def id_apply)
  then show ?thesis by simp
qed

lemma la_num_valid_eq: "la_wf la \<Longrightarrow> la_num_valid la = length (valid_rows la)"
proof (cases "la_nulls la")
  case (Some v)
  assume "la_wf la"
  with Some have "length v = la_len la" by (simp add: la_wf_def)
  moreover have "length v - length (filter Not v) = length (filter id v)"
    using sum_length_filter_compl [of Not v] by (simp add: id_def)
  moreover have "la_is_valid la = (\<lambda>i. v ! i)" using Some by (auto simp: la_is_valid_def)
  ultimately show ?thesis
    using Some filter_nth_upt [of v] by (simp add: la_num_valid_def valid_rows_def)
next
  case None
  then have "la_is_valid la = (\<lambda>i. True)" by (auto simp: la_is_valid_def)
  with None show ?thesis by (simp add: la_num_valid_def valid_rows_def)
qed

lemma length_add_validity [simp]: "length (add_validity cs v) = length cs"
  by (induction cs v rule: add_validity.induct) auto

lemma add_validity_nth:
  "length v = length cs \<Longrightarrow> i < length cs \<Longrightarrow> add_validity cs v ! i = cs ! i + (if v ! i then 1 else 0)"
proof (induction cs v arbitrary: i rule: add_validity.induct)
  case (1 c cs b bs)
  then show ?case by (cases i) auto
qed auto

lemma length_add_array [simp]: "length (add_array la cs) = length cs"
  by (simp add: add_array_def split: option.splits)

lemma add_array_nth:
  "la_wf la \<Longrightarrow> la_len la = length cs \<Longrightarrow> i < length cs \<Longrightarrow>
   add_array la cs ! i = cs ! i + (if la_is_valid la i then 1 else 0)"
  by (auto simp: add_array_def la_is_valid_def la_wf_def add_validity_nth split: option.splits)

lemma length_counts_raw [simp]: "length (fold add_array las cs) = length cs"
  by (induction las arbitrary: cs) auto

lemma counts_raw_nth:
  assumes "\<forall>la\<in>set las. la_wf la \<and> la_len la = length cs" "i < length cs"
  shows "fold add_array las cs ! i = cs ! i + length (filter (\<lambda>la. la_is_valid la i) las)"
  using assms by (induction las arbitrary: cs) (auto simp: add_array_nth)

text \<open>The reference count: the valid cells of the rows at a given time.\<close>

definition events_at :: "'c Chunk \<Rightarrow> TimeInt list \<Rightarrow> TimeInt \<Rightarrow> nat" where
  "events_at ch ts t = sum_list (map (\<lambda>la. length (filter (\<lambda>i. ts ! i = t) (valid_rows la)))
     (list_arrays (ch_components ch)))"

definition sum_at :: "TimeInt \<Rightarrow> (TimeInt \<times> nat) list \<Rightarrow> nat" where
  "sum_at t ps = sum_list (map snd (filter (\<lambda>p. fst p = t) ps))"

lemma sum_at_simps [simp]:
  "sum_at t [] = 0" "sum_at t ((u, n) # ps) = (if u = t then n else 0) + sum_at t ps"
  "sum_at t (ps @ qs) = sum_at t ps + sum_at t qs"
  by (simp_all add: sum_at_def)

lemma sum_at_absent: "t \<notin> fst ` set ps \<Longrightarrow> sum_at t ps = 0"
  by (induction ps) auto

text \<open>The run-length loop over sorted times adds up each run.\<close>

lemma run_loop_sums:
  assumes "sorted (t # map fst ps)" "\<forall>p\<in>set cs. fst p < t"
  shows "run_finish (foldl run_step (cs, t, n) ps)
    = cs @ map (\<lambda>u. (u, (if u = t then n else 0) + sum_at u ps)) (sorted_list_of_set (insert t (fst ` set ps)))"
  using assms
proof (induction ps arbitrary: cs t n)
  case Nil
  have "map_option fst (list_last cs) \<noteq> Some t"
    using Nil by (auto simp: list_last_def split: if_splits dest!: last_in_set)
  then show ?case by (simp add: run_finish_def)
next
  case (Cons p ps)
  obtain u k where p: "p = (u, k)" by fastforce
  show ?case
  proof (cases "u = t")
    case True
    have "run_finish (foldl run_step (cs, t, n + k) ps)
      = cs @ map (\<lambda>u. (u, (if u = t then n + k else 0) + sum_at u ps))
          (sorted_list_of_set (insert t (fst ` set ps)))"
      using Cons.prems by (intro Cons.IH) auto
    then show ?thesis using True p by (auto intro!: map_cong)
  next
    case False
    then have lt: "t < u" "\<forall>q\<in>set ps. u \<le> fst q" using Cons.prems p by auto
    have ih: "run_finish (foldl run_step (cs @ [(t, n)], u, k) ps)
      = (cs @ [(t, n)]) @ map (\<lambda>v. (v, (if v = u then k else 0) + sum_at v ps))
          (sorted_list_of_set (insert u (fst ` set ps)))"
      using Cons.prems p lt(1) by (intro Cons.IH) auto
    have tn: "t \<notin> insert u (fst ` set ps)" using lt by auto
    let ?L = "sorted_list_of_set (insert u (fst ` set ps))"
    have "insort t ?L = t # ?L" by (rule insort_is_Cons) (use lt in auto)
    then have sl: "sorted_list_of_set (insert t (insert u (fst ` set ps))) = t # ?L"
      using tn sorted_list_of_set_insert_remove [of "insert u (fst ` set ps)" t] by simp
    have "sum_at t ps = 0" using tn by (simp add: sum_at_absent)
    with ih sl False p tn show ?thesis by (auto intro!: map_cong)
  qed
qed

text \<open>The hash map of the unsorted branch holds the same sums.\<close>

lemma entry_add_lookup:
  "map_of (entry_add t n acc) = (map_of acc)(t \<mapsto> (case map_of acc t of Some k \<Rightarrow> k | None \<Rightarrow> 0) + n)"
  by (simp add: entry_add_def)

lemma fold_entry_add:
  "map_of (fold (\<lambda>(t, n). entry_add t n) ps acc) t =
     (if t \<in> fst ` set ps \<or> t \<in> dom (map_of acc)
      then Some ((case map_of acc t of Some k \<Rightarrow> k | None \<Rightarrow> 0) + sum_at t ps) else None)"
proof (induction ps arbitrary: acc)
  case (Cons p ps)
  obtain u k where "p = (u, k)" by fastforce
  with Cons show ?case
    by (auto simp: entry_add_lookup dom_def sum_at_absent split: option.splits)
qed (auto simp: dom_def split: option.splits)

lemma fold_entry_add_distinct:
  "distinct (map fst acc) \<Longrightarrow> distinct (map fst (fold (\<lambda>(t, n). entry_add t n) ps acc))"
  by (induction ps arbitrary: acc) (auto simp: entry_add_def distinct_al_insert)

lemma fold_fold_concat: "fold (\<lambda>la acc. fold g (f la) acc) las acc = fold g (concat (map f las)) acc"
  by (induction las arbitrary: acc) auto

lemma sort_key_map_of:
  fixes m :: "('k :: linorder \<times> 'v) list"
  assumes "distinct (map fst m)"
  shows "sort_key fst m = map (\<lambda>k. (k, the (map_of m k))) (sorted_list_of_set (fst ` set m))"
proof -
  have "map fst (sort_key fst m) = sort (map fst m)"
    by (rule properties_for_sort [symmetric]) (simp_all add: mset_map)
  also have "\<dots> = sorted_list_of_set (fst ` set m)"
    using assms by (metis list.set_map sorted_list_of_set_sort_remdups distinct_remdups_id)
  finally have k: "sorted_list_of_set (fst ` set m) = map fst (sort_key fst m)" by simp
  have "(fst p, the (map_of m (fst p))) = p" if "p \<in> set (sort_key fst m)" for p
  proof -
    obtain k v where p: "p = (k, v)" by fastforce
    with that assms have "map_of m k = Some v" by simp
    with p show ?thesis by simp
  qed
  then have "map (\<lambda>p. (fst p, the (map_of m (fst p)))) (sort_key fst m) = sort_key fst m"
    by (intro map_idI) blast
  then show ?thesis unfolding k by (simp add: comp_def)
qed

lemma num_events_unsorted_sums:
  "num_events_unsorted ch tc =
     (let ps = concat (map (array_entries (tc_times_iter tc)) (list_arrays (ch_components ch)))
      in map (\<lambda>t. (t, sum_at t ps)) (sorted_list_of_set (fst ` set ps)))"
proof -
  let ?ps = "concat (map (array_entries (tc_times_iter tc)) (list_arrays (ch_components ch)))"
  let ?m = "fold (\<lambda>(t, n). entry_add t n) ?ps []"
  have lk: "map_of ?m t = (if t \<in> fst ` set ?ps then Some (sum_at t ?ps) else None)" for t
    using fold_entry_add [of ?ps "[]" t] by simp
  then have dm: "fst ` set ?m = fst ` set ?ps"
    by (metis (full_types) option.distinct(1) map_of_eq_None_iff subsetI subset_antisym)
  have "num_events_unsorted ch tc = sort_key fst ?m"
    by (simp add: num_events_unsorted_def fold_fold_concat)
  also have "\<dots> = map (\<lambda>k. (k, the (map_of ?m k))) (sorted_list_of_set (fst ` set ?m))"
    by (rule sort_key_map_of) (simp add: fold_entry_add_distinct)
  finally show ?thesis unfolding dm by (simp add: lk Let_def)
qed

text \<open>Both branches sum the same cells.\<close>

lemma sum_at_zip:
  assumes "length ns = length ts"
  shows "sum_at t (zip ts ns) = (\<Sum>i | i < length ts \<and> ts ! i = t. ns ! i)"
  using assms
proof (induction ts arbitrary: ns)
  case (Cons u ts)
  then obtain n ms where ns: "ns = n # ms" "length ms = length ts" by (cases ns) auto
  have "{i. i < length (u # ts) \<and> (u # ts) ! i = t}
      = (if u = t then {0} else {}) \<union> Suc ` {i. i < length ts \<and> ts ! i = t}"
    by (auto simp: less_Suc_eq_0_disj)
  moreover have "(\<Sum>i\<in>Suc ` {i. i < length ts \<and> ts ! i = t}. (n # ms) ! i)
      = (\<Sum>i | i < length ts \<and> ts ! i = t. ms ! i)"
    by (simp add: sum.reindex)
  ultimately show ?case using Cons.IH [OF ns(2)] ns by simp
qed simp

lemma valid_rows_at:
  "length (filter (\<lambda>i. ts ! i = t) (valid_rows la))
    = (\<Sum>i | i < la_len la \<and> ts ! i = t. if la_is_valid la i then 1 else 0)"
proof -
  let ?A = "{i. i < la_len la \<and> ts ! i = t}"
  have "length (filter (\<lambda>i. ts ! i = t) (valid_rows la))
      = card (set (filter (\<lambda>i. ts ! i = t) (valid_rows la)))"
    by (rule distinct_card [symmetric]) (simp add: valid_rows_def)
  also have "set (filter (\<lambda>i. ts ! i = t) (valid_rows la)) = {i \<in> ?A. la_is_valid la i}"
    by (auto simp: valid_rows_def)
  also have "card {i \<in> ?A. la_is_valid la i} = (\<Sum>i\<in>?A. if la_is_valid la i then 1 else 0)"
    by (simp only: card_eq_sum) (rule sum.inter_filter, simp)
  finally show ?thesis .
qed

lemma sum_at_array_entries:
  assumes "la_wf la" "la_len la = length ts"
  shows "sum_at t (array_entries ts la) = length (filter (\<lambda>i. ts ! i = t) (valid_rows la))"
proof -
  let ?ns = "map (\<lambda>i. if la_is_valid la i then 1 else 0) [0..<length ts]"
  have "array_entries ts la = zip ts ?ns"
    using assms by (auto simp: array_entries_def la_is_valid_def la_wf_def split: option.splits
        intro!: nth_equalityI)
  then have "sum_at t (array_entries ts la) = (\<Sum>i | i < length ts \<and> ts ! i = t. ?ns ! i)"
    by (simp add: sum_at_zip)
  also have "\<dots> = (\<Sum>i | i < length ts \<and> ts ! i = t. if la_is_valid la i then 1 else 0)"
    by (intro sum.cong) auto
  finally show ?thesis using assms(2) by (simp add: valid_rows_at)
qed

lemma sum_at_concat: "sum_at t (concat pss) = sum_list (map (sum_at t) pss)"
  by (induction pss) auto

lemma keys_array_entries: "la_wf la \<Longrightarrow> la_len la = length ts \<Longrightarrow> fst ` set (array_entries ts la) = set ts"
proof -
  assume "la_wf la" "la_len la = length ts"
  then have "map fst (array_entries ts la) = ts"
    by (auto simp: array_entries_def la_wf_def comp_def split: option.splits)
  then show ?thesis by (metis list.set_map)
qed

lemma sum_length_filter:
  "finite A \<Longrightarrow> (\<Sum>i\<in>A. length (filter (\<lambda>la. P la i) las)) = sum_list (map (\<lambda>la. \<Sum>i\<in>A. if P la i then 1 else 0) las)"
proof (induction las)
  case (Cons a las)
  have "(\<Sum>i\<in>A. length (filter (\<lambda>la. P la i) (a # las)))
      = (\<Sum>i\<in>A. (if P a i then 1 else 0) + length (filter (\<lambda>la. P la i) las))"
    by (intro sum.cong) auto
  with Cons show ?case by (simp add: sum.distrib)
qed simp

lemma list_arrays_wf:
  "chunk_wf ch \<Longrightarrow> la \<in> set (list_arrays (ch_components ch)) \<Longrightarrow> la_wf la \<and> la_len la = num_rows ch"
  by (auto simp: list_arrays_def chunk_wf_def columns_ok_def)

lemma length_times_iter [simp]: "length (tc_times_iter tc) = length (tc_times tc)"
  by (simp add: tc_times_iter_def)

lemma num_events_sorted_eq:
  assumes wf: "chunk_wf ch" and tc: "map_of (ch_timelines ch) tl0 = Some tc" and "tc_is_sorted tc"
    "num_rows ch \<noteq> 0"
  shows "num_events_sorted ch tc
    = map (\<lambda>t. (t, events_at ch (tc_times_iter tc) t)) (sorted_list_of_set (set (tc_times_iter tc)))"
proof -
  let ?ts = "tc_times_iter tc" and ?las = "list_arrays (ch_components ch)"
  let ?ns = "fold add_array ?las (replicate (num_rows ch) 0)"
  have tcw: "tc_wf tc" "length (tc_times tc) = num_rows ch"
    using timelines_okD [OF chunk_wfD(2) [OF wf] tc] by auto
  have "sorted (tc_times tc)" using tcw assms(3) by (simp add: tc_wf_def)
  then have s: "sorted ?ts"
    using tcw(1) unfolding tc_times_iter_def tc_wf_def times_valid_def
    by (auto simp: sorted_iff_nth_mono intro!: new_temporal_mono simp: i64_ok_def less_imp_le)
  have ne: "?ts \<noteq> []" using assms(4) tcw by (auto simp: tc_times_iter_def)
  have sums: "sum_at u (zip ?ts ?ns) = events_at ch ?ts u" for u
  proof -
    have "sum_at u (zip ?ts ?ns) = (\<Sum>i | i < num_rows ch \<and> ?ts ! i = u. ?ns ! i)"
      using tcw by (simp add: sum_at_zip)
    also have "\<dots> = (\<Sum>i | i < num_rows ch \<and> ?ts ! i = u. length (filter (\<lambda>la. la_is_valid la i) ?las))"
      using list_arrays_wf [OF wf] by (intro sum.cong) (auto simp: counts_raw_nth)
    also have "\<dots> = sum_list (map (\<lambda>la. \<Sum>i | i < num_rows ch \<and> ?ts ! i = u.
        if la_is_valid la i then 1 else 0) ?las)"
      by (rule sum_length_filter) simp
    also have "\<dots> = events_at ch ?ts u"
      unfolding events_at_def valid_rows_at using list_arrays_wf [OF wf]
      by (intro arg_cong [where f = sum_list] map_cong) auto
    finally show ?thesis .
  qed
  have fst_zip: "map fst (zip ?ts ?ns) = ?ts" using tcw by simp
  then have keys: "fst ` set (zip ?ts ?ns) = set ?ts" by (metis list.set_map)
  have "num_events_sorted ch tc = run_finish (foldl run_step ([], hd ?ts, 0) (zip ?ts ?ns))"
    using ne by (simp add: num_events_sorted_def list_first_def Let_def)
  also have "\<dots> = map (\<lambda>u. (u, sum_at u (zip ?ts ?ns)))
      (sorted_list_of_set (insert (hd ?ts) (fst ` set (zip ?ts ?ns))))"
  proof -
    have "sorted (hd ?ts # map fst (zip ?ts ?ns))"
      unfolding fst_zip using s ne by (cases ?ts) auto
    from run_loop_sums [OF this, of "[]" 0] show ?thesis by simp
  qed
  finally show ?thesis using ne by (simp add: keys sums insert_absorb)
qed

lemma num_events_unsorted_eq:
  assumes wf: "chunk_wf ch" and tc: "map_of (ch_timelines ch) tl0 = Some tc" and "ch_components ch \<noteq> []"
  shows "num_events_unsorted ch tc
    = map (\<lambda>t. (t, events_at ch (tc_times_iter tc) t)) (sorted_list_of_set (set (tc_times_iter tc)))"
proof -
  let ?ts = "tc_times_iter tc" and ?las = "list_arrays (ch_components ch)"
  let ?ps = "concat (map (array_entries ?ts) ?las)"
  have l: "la_wf la \<and> la_len la = length ?ts" if "la \<in> set ?las" for la
    using list_arrays_wf [OF wf that] timelines_okD [OF chunk_wfD(2) [OF wf] tc] by simp
  have "fst ` set ?ps = (\<Union>la\<in>set ?las. fst ` set (array_entries ?ts la))" by auto
  also have "\<dots> = (\<Union>la\<in>set ?las. set ?ts)" using l by (intro SUP_cong) (simp_all add: keys_array_entries)
  also have "\<dots> = set ?ts" using assms(3) by (auto simp: list_arrays_def)
  finally have k: "fst ` set ?ps = set ?ts" .
  have "sum_at u ?ps = events_at ch ?ts u" for u
    unfolding events_at_def sum_at_concat map_map comp_def
    using l by (intro arg_cong [where f = sum_list] map_cong) (simp_all add: sum_at_array_entries)
  then show ?thesis unfolding num_events_unsorted_sums Let_def k by simp
qed

lemma num_events_cumulative_eq:
  "chunk_wf ch \<Longrightarrow>
   num_events_cumulative ch = sum_list (map (length \<circ> valid_rows) (list_arrays (ch_components ch)))"
  unfolding num_events_cumulative_def
  using list_arrays_wf [of ch] by (intro arg_cong [where f = sum_list] map_cong) (auto simp: la_num_valid_eq)

lemma events_at_single:
  assumes wf: "chunk_wf ch" and tc: "map_of (ch_timelines ch) tl0 = Some tc"
    and all: "\<forall>u\<in>set (tc_times_iter tc). u = t"
  shows "events_at ch (tc_times_iter tc) t = num_events_cumulative ch"
proof -
  have "filter (\<lambda>i. tc_times_iter tc ! i = t) (valid_rows la) = valid_rows la"
    if "la \<in> set (list_arrays (ch_components ch))" for la
    using all list_arrays_wf [OF wf that] timelines_okD(2) [OF chunk_wfD(2) [OF wf] tc]
    by (intro filter_True) (auto simp: valid_rows_def)
  then show ?thesis unfolding num_events_cumulative_eq [OF wf] events_at_def
    by (intro arg_cong [where f = sum_list] map_cong) auto
qed

lemma tc_times_iter_bounds:
  assumes "tc_wf tc" "u \<in> set (tc_times_iter tc)"
  shows "range_min (tc_time_range tc) \<le> u" "u \<le> range_max (tc_time_range tc)"
proof -
  obtain t where t: "t \<in> set (tc_times tc)" "u = new_temporal t"
    using assms(2) by (auto simp: tc_times_iter_def)
  then have "as_i64 u = t" "tc_times tc \<noteq> []"
    using assms(1) by (auto simp: tc_wf_def times_valid_def as_i64_new_temporal_valid)
  with t assms(1) show "range_min (tc_time_range tc) \<le> u" "u \<le> range_max (tc_time_range tc)"
    by (auto simp: tc_wf_def range_tight_def less_eq_TimeInt_iff)
qed

section \<open>Properties\<close>

text \<open>Looking a row id up finds it exactly when the chunk holds it, by binary search on a sorted
  chunk and by scan otherwise, and \<open>cell\<close> returns the cell of that row: the value of a row is found
  by its id, and an unknown id has no cell.\<close>

theorem cell_lookup:
  assumes "chunk_wf ch" and "distinct (ch_row_ids ch)"
  shows "(i < num_rows ch \<longrightarrow> row_index_of ch (ch_row_ids ch ! i) = Some i
      \<and> cell ch (ch_row_ids ch ! i) c = cell_at ch i c)
    \<and> (r \<notin> set (ch_row_ids ch) \<longrightarrow> row_index_of ch r = None \<and> cell ch r c = None)"
proof (intro conjI impI)
  assume i: "i < num_rows ch"
  let ?r = "ch_row_ids ch ! i"
  have "?r \<in> set (ch_row_ids ch)" using i by (simp add: num_rows_def)
  then obtain j where j: "row_index_of ch ?r = Some j"
    using row_index_of_None [OF assms(1), of ?r] by auto
  with row_index_of_Some [OF j] show r: "row_index_of ch ?r = Some i"
    using i assms(2) by (metis num_rows_def nth_eq_iff_index_eq)
  show "cell ch ?r c = cell_at ch i c"
    by (simp add: r cell_row_index cell_at_eq [OF assms(1) i] split: option.split)
next
  assume "r \<notin> set (ch_row_ids ch)"
  then show r: "row_index_of ch r = None" using row_index_of_None [OF assms(1)] by simp
  show "cell ch r c = None" by (simp add: r cell_row_index split: option.splits)
qed

text \<open>The event counts per unique time are exact. Whichever branch runs (the single-time shortcut,
  the run-length loop over sorted times, the hash map over unsorted ones), the result lists every
  time of the column once, in increasing order, with the number of non-null cells logged at it.\<close>

theorem num_events_per_unique_time_exact:
  assumes wf: "chunk_wf ch" and tc: "map_of (ch_timelines ch) timeline = Some tc"
    and "ch_components ch \<noteq> []" and "num_rows ch \<noteq> 0"
  shows "num_events_cumulative_per_unique_time ch timeline
    = map (\<lambda>t. (t, events_at ch (tc_times_iter tc) t)) (sorted_list_of_set (set (tc_times_iter tc)))"
proof -
  have ns: "\<not> chunk_is_static ch" using tc by (auto simp: chunk_is_static_def)
  have tcw: "tc_wf tc" "length (tc_times tc) = num_rows ch"
    using timelines_okD [OF chunk_wfD(2) [OF wf] tc] by auto
  show ?thesis
  proof (cases "range_min (tc_time_range tc) = range_max (tc_time_range tc)")
    case True
    then have all: "\<forall>u\<in>set (tc_times_iter tc). u = range_min (tc_time_range tc)"
      using tc_times_iter_bounds [OF tcw(1)] by (metis order_antisym)
    moreover have "tc_times_iter tc \<noteq> []" using assms(4) tcw by (auto simp: tc_times_iter_def)
    ultimately have "set (tc_times_iter tc) = {range_min (tc_time_range tc)}"
      by (metis insertI1 insert_absorb singletonI set_empty subset_singletonD subsetI singleton_iff)
    with True ns tc events_at_single [OF wf tc all] show ?thesis
      by (simp add: num_events_cumulative_per_unique_time_def)
  next
    case False
    with ns tc num_events_sorted_eq [OF wf tc _ assms(4)] num_events_unsorted_eq [OF wf tc assms(3)]
    show ?thesis by (simp add: num_events_cumulative_per_unique_time_def)
  qed
qed

theorem cell_lookup_witness: "cell demo_chunk (demo_id 3) ''pos'' = Some [8, 9]"
proof -
  have d: "distinct (ch_row_ids demo_chunk)" by simp
  have "cell demo_chunk (ch_row_ids demo_chunk ! 2) ''pos'' = cell_at demo_chunk 2 ''pos''"
    using cell_lookup [OF demo_chunk_wf d, of 2 "''pos''" "demo_id 1"] by simp
  then show ?thesis by (simp add: cell_at_def demo_column_def sc_new_def)
qed

lemma valid_rows_iter: "la_iter la = rows \<Longrightarrow> valid_rows la = filter (\<lambda>i. rows ! i \<noteq> None) [0..<length rows]"
  by (auto simp: valid_rows_def la_iter_nth intro!: filter_cong split: if_splits)

theorem num_events_per_unique_time_exact_witness:
  "num_events_cumulative_per_unique_time demo_chunk ''frame'' = [(new_temporal 3, 1), (new_temporal 5, 1)]"
proof -
  let ?tc = "tc_new None \<lparr>tl_name = ''frame'', tl_typ = Sequence\<rparr> [5, 3, 3]"
  have a: "as_i64 (new_temporal 3) = 3" "as_i64 (new_temporal 5) = 5"
    by (simp_all add: as_i64_new_temporal_valid i64_MIN_def i64_MAX_def)
  then have lt: "new_temporal 3 < new_temporal 5" by (simp add: less_TimeInt_iff)
  have ts: "tc_times_iter ?tc = [new_temporal 5, new_temporal 3, new_temporal 3]"
    by (simp add: tc_times_iter_def)
  have v: "valid_rows (sc_list_array demo_column) = [0, 2]"
    unfolding valid_rows_iter [OF refl] by (simp add: demo_column_def sc_new_def upt_rec)
  have e: "events_at demo_chunk (tc_times_iter ?tc) u
      = (if u = new_temporal 5 then 1 else 0) + (if u = new_temporal 3 then 1 else 0)" for u
    by (simp add: events_at_def list_arrays_def v ts)
  have s: "sorted_list_of_set (set (tc_times_iter ?tc)) = [new_temporal 3, new_temporal 5]"
    using lt less_imp_le [OF lt] sorted_list_of_set.idem_if_sorted_distinct [of "[new_temporal 3, new_temporal 5]"]
    by (simp add: ts insert_commute)
  show ?thesis
    using num_events_per_unique_time_exact [of demo_chunk "''frame''" ?tc] lt less_imp_le [OF lt]
    by (simp only: e s) simp
qed

section \<open>Ranges\<close>

lemma map_of_map_filter:
  assumes "distinct (map fst m)"
  shows "map_of (List.map_filter (\<lambda>(k, v). map_option (Pair k) (f v)) m) k = Option.bind (map_of m k) f"
  using assms
proof (induction m)
  case (Cons p m)
  obtain k' v where p: "p = (k', v)" by fastforce
  have "map_of m k' = None" using Cons.prems p by (auto simp: map_of_eq_None_iff)
  with Cons p show ?case by (auto simp: map_filter_simps split: option.splits)
qed (simp add: map_filter_simps)

lemma la_validity_dense:
  assumes "la_nulls la = Some v" "length (filter Not v) = 0"
  shows "mask_select v xs = take (length v) xs"
  using assms(2)
proof (induction v xs rule: mask_select.induct)
  case (1 b bs x xs)
  then show ?case by (cases b) auto
qed auto

lemma mask_select_True: "mask_select (replicate (length xs) True) xs = xs"
  by (induction xs) auto

lemma component_time_range_tight:
  assumes tc: "tc_wf tc" and la: "la_wf la" "la_len la = length (tc_times tc)"
    and ne: "mask_select (la_validity la) (tc_times tc) \<noteq> []"
  shows "\<exists>r. component_time_range tc la = Some r
    \<and> range_tight r (mask_select (la_validity la) (tc_times tc))"
proof (cases "la_nulls la")
  case None
  then show ?thesis using tc la
    by (simp add: component_time_range_def la_validity_def mask_select_True tc_wf_def)
next
  case (Some v)
  let ?vt = "mask_select v (tc_times tc)"
  have v: "la_validity la = v" "length v = length (tc_times tc)"
    using Some la by (simp_all add: la_validity_def la_wf_def)
  have ne': "?vt \<noteq> []" "v \<noteq> []" using ne v by auto
  show ?thesis
  proof (cases "length (filter Not v) = 0")
    case True
    have "?vt = tc_times tc" using la_validity_dense [OF Some True, of "tc_times tc"] v(2) by simp
    with True show ?thesis using Some tc v ne' by (simp add: component_time_range_def tc_wf_def)
  next
    case False
    have val: "times_valid ?vt"
      using tc set_mask_select [of v "tc_times tc"] by (auto simp: tc_wf_def intro: times_valid_subset)
    let ?s = "sorted (tc_times tc)"
    have s: "sorted ?vt" if ?s using that by (rule sorted_mask_select)
    have "component_time_range tc la = Some (range_new (Some (new_temporal (Min (set ?vt))))
        (Some (new_temporal (Max (set ?vt)))))"
      using False Some ne' s
      by (auto simp: component_time_range_def Let_def map_or_def list_first_def list_last_def
          iter_min_def iter_max_def sorted_Min_hd sorted_Max_last)
    moreover have "i64_MIN < Min (set ?vt)" "Min (set ?vt) \<le> i64_MAX"
        "i64_MIN < Max (set ?vt)" "Max (set ?vt) \<le> i64_MAX"
      using val ne' Min_in [of "set ?vt"] Max_in [of "set ?vt"] by (auto simp: times_valid_def)
    ultimately show ?thesis by (simp add: v range_tight_def range_new_times)
  qed
qed

text \<open>C40: the time range of a component is tight: for every component that has a value somewhere in the
  chunk, \<open>time_range_per_component\<close> gives the least and the greatest time of the rows where its cell
  is not null, for dense and sparse columns and for sorted and unsorted timelines.\<close>

theorem time_range_per_component_tight:
  assumes wf: "chunk_wf ch" and tc: "map_of (ch_timelines ch) timeline = Some tc"
    and col: "map_of (ch_components ch) c = Some col"
    and "mask_select (la_validity (sc_list_array col)) (tc_times tc) \<noteq> []"
  shows "\<exists>rs r. map_of (time_range_per_component ch) timeline = Some rs \<and> map_of rs c = Some r
    \<and> range_tight r (mask_select (la_validity (sc_list_array col)) (tc_times tc))"
proof -
  have d: "distinct (map fst (ch_components ch))"
    using wf by (simp add: chunk_wf_def columns_ok_def)
  have l: "la_wf (sc_list_array col)" "la_len (sc_list_array col) = length (tc_times tc)"
    using columns_okD [OF chunk_wfD(3) [OF wf] col] timelines_okD [OF chunk_wfD(2) [OF wf] tc] by auto
  obtain r where r: "component_time_range tc (sc_list_array col) = Some r"
    "range_tight r (mask_select (la_validity (sc_list_array col)) (tc_times tc))"
    using component_time_range_tight [OF timelines_okD(1) [OF chunk_wfD(2) [OF wf] tc] l assms(4)] by blast
  have "map_of (tc_time_range_per_component tc (ch_components ch)) c = Some r"
    using col r(1) map_of_map_filter [OF d, of "\<lambda>col. component_time_range tc (sc_list_array col)" c]
    by (simp add: tc_time_range_per_component_def)
  with tc r(2) show ?thesis
    by (simp add: time_range_per_component_def map_of_map_values)
qed

theorem time_range_per_component_tight_witness:
  "\<exists>rs r. map_of (time_range_per_component demo_chunk) ''frame'' = Some rs \<and> map_of rs ''pos'' = Some r
    \<and> range_tight r [5, 3]"
proof -
  have m: "mask_select (la_validity (sc_list_array demo_column)) [5, 3, 3 :: int] = [5, 3]"
    by (simp add: demo_column_def sc_new_def la_validity_def la_of_rows_def)
  show ?thesis
    using time_range_per_component_tight [OF demo_chunk_wf, of "''frame''" _ "''pos''" demo_column]
    by (simp add: m)
qed

lemma foldl_last_valid:
  "foldl (\<lambda>acc (i, r). if P i then Some r else acc) acc rows
    = (if filter (\<lambda>p. P (fst p)) rows = [] then acc
       else Some (snd (last (filter (\<lambda>p. P (fst p)) rows))))"
  by (induction rows rule: rev_induct) auto

lemma filter_zip_mask:
  "map snd (filter (\<lambda>p. P (fst p)) (zip [k..<k + length xs] xs)) = mask_select (map P [k..<k + length xs]) xs"
proof (induction xs arbitrary: k)
  case (Cons x xs)
  have "[k..<k + length (x # xs)] = k # [Suc k..<Suc k + length xs]"
    by (simp add: upt_conv_Cons del: upt_Suc)
  then show ?case using Cons.IH [of "Suc k"] by simp
qed simp

lemma component_row_ids_eq:
  assumes "chunk_wf ch" "map_of (ch_components ch) c = Some col"
  shows "component_row_ids ch c
    = map snd (filter (\<lambda>p. la_is_valid (sc_list_array col) (fst p)) (zip [0..<num_rows ch] (ch_row_ids ch)))"
proof -
  let ?la = "sc_list_array col"
  have l: "la_wf ?la" "la_len ?la = length (ch_row_ids ch)"
    using columns_okD [OF chunk_wfD(3) [OF assms(1)] assms(2)] by (simp_all add: num_rows_def)
  have "map (la_is_valid ?la) [0..<length (ch_row_ids ch)] = la_validity ?la"
    by (rule nth_equalityI) (use l in \<open>auto simp: length_la_validity la_validity_nth\<close>)
  then have "map snd (filter (\<lambda>p. la_is_valid ?la (fst p)) (zip [0..<num_rows ch] (ch_row_ids ch)))
      = mask_select (la_validity ?la) (ch_row_ids ch)"
    using filter_zip_mask [of "la_is_valid ?la" 0 "ch_row_ids ch"] by (simp add: num_rows_def)
  then show ?thesis
    using assms(2) l by (auto simp: component_row_ids_def get_array_def la_validity_def mask_select_True
        split: option.splits)
qed

text \<open>On a sorted chunk \<open>row_id_range_per_component\<close> returns its bounds the wrong way round: the
  first component of the pair, meant to be the minimum, is the last row id with a value, and the
  second one is the first.\<close>

theorem row_id_range_per_component_swapped:
  assumes wf: "chunk_wf ch" and "ch_is_sorted ch" and col: "map_of (ch_components ch) c = Some col"
    and ne: "component_row_ids ch c \<noteq> []"
  shows "map_of (row_id_range_per_component ch) c
    = Some (last (component_row_ids ch c), hd (component_row_ids ch c))"
proof -
  have d: "distinct (map fst (ch_components ch))"
    using wf by (simp add: chunk_wf_def columns_ok_def)
  let ?la = "sc_list_array col" and ?rows = "zip [0..<num_rows ch] (ch_row_ids ch)"
  let ?f = "filter (\<lambda>p. la_is_valid ?la (fst p)) ?rows"
  have ids: "component_row_ids ch c = map snd ?f"
    using component_row_ids_eq [OF wf col] by simp
  then have f: "?f \<noteq> []" using ne by auto
  have rf: "filter (\<lambda>p. la_is_valid ?la (fst p)) (rev ?rows) = rev ?f" by (simp add: rev_filter)
  have "row_id_range_component ch ?la = Some (snd (last ?f), snd (hd ?f))"
    using assms(2) f unfolding row_id_range_component_def Let_def foldl_last_valid rf
    by (simp add: last_rev)
  moreover have "snd (last ?f) = last (component_row_ids ch c)" "snd (hd ?f) = hd (component_row_ids ch c)"
    using f by (simp_all add: ids last_map hd_map)
  ultimately show ?thesis
    using col map_of_map_filter [OF d, of "\<lambda>col. row_id_range_component ch (sc_list_array col)" c]
    by (simp add: row_id_range_per_component_def)
qed

theorem row_id_range_per_component_swapped_witness:
  "map_of (row_id_range_per_component demo_chunk) ''pos'' = Some (demo_id 3, demo_id 1)"
proof -
  have ids: "component_row_ids demo_chunk ''pos'' = [demo_id 1, demo_id 3]"
    by (simp add: component_row_ids_def get_array_def demo_column_def sc_new_def la_of_rows_def)
  show ?thesis
    using row_id_range_per_component_swapped [OF demo_chunk_wf, of "''pos''" demo_column]
    by (simp add: ids)
qed

end
