(* ===== verification/Row_Ops.thy ===== *)
theory Row_Ops
  imports Chunk
begin

text \<open>
  The contract of the operations that turn a chunk into a chunk.

  \<open>row_operation\<close> says that an operation on columns does not panic, keeps the invariant and acts on
  the rows of the chunk as a list function. \<open>row_selection\<close> adds that the rows of the result are rows
  of the argument, so that no operation can mix the cells of two rows, and \<open>row_pipeline\<close> composes two
  operations. The theories that define sorting, slicing, filtering and densifying interpret the
  contract; the queries are proved from it.
\<close>

locale row_operation =
  fixes pre :: "'c Chunk \<Rightarrow> bool"
    and oper :: "'c Chunk \<Rightarrow> 'c Chunk option"
    and spec :: "'c row list \<Rightarrow> 'c row list"
  assumes refines: "pre ch \<Longrightarrow>
    \<exists>ch'. oper ch = Some ch' \<and> chunk_wf ch' \<and> chunk_rows ch' = spec (chunk_rows ch)"
begin

lemma no_panic: "pre ch \<Longrightarrow> oper ch \<noteq> None"
  using refines by fastforce

lemma result:
  assumes "pre ch" "oper ch = Some ch'"
  shows "chunk_wf ch'" "chunk_rows ch' = spec (chunk_rows ch)" "num_rows ch' = length (spec (chunk_rows ch))"
proof -
  show "chunk_wf ch'" and rows: "chunk_rows ch' = spec (chunk_rows ch)" using refines assms by fastforce+
  show "num_rows ch' = length (spec (chunk_rows ch))" using rows by (metis length_chunk_rows)
qed

lemma resultE:
  assumes "pre ch"
  obtains ch' where "oper ch = Some ch'" "chunk_wf ch'" "chunk_rows ch' = spec (chunk_rows ch)"
  using refines [OF assms] by blast

end

locale row_selection = row_operation +
  assumes selects: "mset (spec rows) \<subseteq># mset rows"
begin

lemma selected_row:
  assumes "pre ch" "oper ch = Some ch'" "i < num_rows ch'"
  shows "\<exists>j < num_rows ch. chunk_row ch' i = chunk_row ch j"
proof -
  have "chunk_rows ch' ! i \<in> set (spec (chunk_rows ch))"
    using assms result(2) [OF assms(1,2)] by (metis length_chunk_rows nth_mem)
  then have "chunk_rows ch' ! i \<in> set (chunk_rows ch)"
    using mset_subset_eqD [OF selects, of "chunk_rows ch' ! i" "chunk_rows ch"] by simp
  then show ?thesis using assms(3) by (auto simp: in_set_conv_nth)
qed

lemma not_more_rows: "pre ch \<Longrightarrow> oper ch = Some ch' \<Longrightarrow> num_rows ch' \<le> num_rows ch"
  using result(3) [of ch ch'] size_mset_mono [OF selects, of "chunk_rows ch"] by simp

end

locale row_pipeline =
  first: row_operation pre oper1 spec1 + second: row_operation pre2 oper2 spec2
  for pre :: "'c Chunk \<Rightarrow> bool" and oper1 spec1 pre2 oper2 spec2 +
  assumes chained: "pre ch \<Longrightarrow> oper1 ch = Some ch' \<Longrightarrow> pre2 ch'"
begin

sublocale row_operation pre "\<lambda>ch. Option.bind (oper1 ch) oper2" "\<lambda>rows. spec2 (spec1 rows)"
proof
  fix ch assume pre: "pre ch"
  from first.resultE [OF this] obtain ch1 where
    1: "oper1 ch = Some ch1" "chunk_rows ch1 = spec1 (chunk_rows ch)" by blast
  from second.resultE [OF chained [OF pre 1(1)]] obtain ch2 where
    "oper2 ch1 = Some ch2" "chunk_wf ch2" "chunk_rows ch2 = spec2 (chunk_rows ch1)" by blast
  with 1 show "\<exists>ch'. Option.bind (oper1 ch) oper2 = Some ch' \<and> chunk_wf ch'
      \<and> chunk_rows ch' = spec2 (spec1 (chunk_rows ch))" by simp
qed

end

end
