(* ===== verification/Chunk_Shuffle.thy ===== *)
theory Chunk_Shuffle
  imports Row_Ops "HOL-Library.Product_Lexorder"
begin

text \<open>
  Reordering the rows of a chunk (\<open>crates/store/re_chunk/src/shuffle.rs\<close>) and the constructor that
  relies on it, \<open>Chunk::from_auto_row_ids\<close>.

  \<open>shuffle_with\<close> permutes every column separately. On rows it is a single permutation, and the two
  sorts are stable sorts of the rows by row id and by time and row id. \<open>None\<close> is a panic.
\<close>

section \<open>Operations\<close>

text \<open>\<open>let mut sorted = xs.to_vec(); for (to, from) in swaps { sorted[to] = xs[from] }\<close>.\<close>

definition shuffled :: "'a list \<Rightarrow> nat list \<Rightarrow> 'a list option" where
  "shuffled xs swaps =
     (if length swaps \<le> length xs \<and> (\<forall>i\<in>set swaps. i < length xs)
      then Some (gather xs swaps @ drop (length swaps) xs) else None)"

definition shuffle_time_column :: "nat list \<Rightarrow> TimeColumn \<Rightarrow> TimeColumn option" where
  "shuffle_time_column swaps tc =
     map_option (\<lambda>sorted_times. tc\<lparr>tc_is_sorted := windows2_all (\<le>) sorted_times,
         tc_times := sorted_times\<rparr>)
       (shuffled (tc_times tc) swaps)"

definition shuffle_list_array :: "'c arrow_kernels \<Rightarrow> nat list \<Rightarrow> 'c list_array \<Rightarrow> 'c list_array option" where
  "shuffle_list_array K swaps original =
     (if \<forall>i\<in>set swaps. i < la_len original then
        let sorted_arrays = map (la_value original) swaps;
            offsets = from_lengths (map length sorted_arrays);
            validity = map_option (\<lambda>v. map (\<lambda>from. v ! from) swaps) (la_nulls original)
        in map_option (\<lambda>values. \<lparr>la_datatype = la_datatype original, la_offsets = offsets,
             la_values = values, la_nulls = validity\<rparr>) (k_concat_values K sorted_arrays)
      else None)"

definition shuffle_column ::
    "'c arrow_kernels \<Rightarrow> nat list \<Rightarrow> 'c SerializedComponentColumn \<Rightarrow> 'c SerializedComponentColumn option" where
  "shuffle_column K swaps col =
     map_option (\<lambda>la. col\<lparr>sc_list_array := la\<rparr>) (shuffle_list_array K swaps (sc_list_array col))"

definition shuffle_with :: "'c arrow_kernels \<Rightarrow> ChunkId \<Rightarrow> 'c Chunk \<Rightarrow> nat list \<Rightarrow> 'c Chunk option" where
  "shuffle_with K new_id ch swaps =
     (case shuffled (ch_row_ids ch) swaps of
        None \<Rightarrow> None
      | Some row_ids \<Rightarrow>
          (case traverse (\<lambda>(name, tc). map_option (Pair name) (shuffle_time_column swaps tc))
                  (ch_timelines ch) of
             None \<Rightarrow> None
           | Some tls \<Rightarrow>
               (case traverse (\<lambda>(c, col). map_option (Pair c) (shuffle_column K swaps col))
                        (ch_components ch) of
                  None \<Rightarrow> None
                | Some comps \<Rightarrow>
                    let ch = ch\<lparr>ch_id := new_id, ch_row_ids := row_ids, ch_timelines := tls,
                           ch_components := comps\<rparr>
                    in Some (ch\<lparr>ch_is_sorted := is_row_ids_sorted_uncached ch\<rparr>))))"

definition sort_by_row_ids_if_needed ::
    "'c arrow_kernels \<Rightarrow> ChunkId \<Rightarrow> ChunkId \<Rightarrow> 'c Chunk \<Rightarrow> 'c Chunk option" where
  "sort_by_row_ids_if_needed K new_id shuffle_id ch =
     (if ch_is_sorted ch then Some ch
      else
        let ch = ch\<lparr>ch_id := new_id\<rparr>;
            row_ids = ch_row_ids ch;
            swaps = sort_key (\<lambda>i. row_ids ! i) [0..<length row_ids]
        in shuffle_with K shuffle_id ch swaps)"

text \<open>The sort key reads \<open>row_ids[i]\<close> for every time; both columns have one entry per row.\<close>

definition sorted_by_timeline_if_unsorted ::
    "'c arrow_kernels \<Rightarrow> ChunkId \<Rightarrow> ChunkId \<Rightarrow> 'c Chunk \<Rightarrow> TimelineName \<Rightarrow> 'c Chunk option" where
  "sorted_by_timeline_if_unsorted K new_id shuffle_id ch timeline =
     (case map_of (ch_timelines ch) timeline of
        None \<Rightarrow> Some ch
      | Some tc \<Rightarrow>
          if tc_is_sorted tc then Some ch
          else
            let chunk = clone_with_id ch new_id;
                row_ids = ch_row_ids chunk;
                ts = tc_times tc;
                swaps = sort_key (\<lambda>i. (ts ! i, row_ids ! i)) [0..<length ts]
            in if length row_ids < length ts then None else shuffle_with K shuffle_id chunk swaps)"

text \<open>\<open>from_auto_row_ids\<close>: the rows are sorted by their times, timeline after timeline in the order of
  the names, and numbered afresh. A timeline shorter than the component columns makes the comparison
  of two rows index out of bounds. \<open>Inl None\<close> is that panic.\<close>

definition timeline_keys :: "ChunkTimelines \<Rightarrow> nat \<Rightarrow> i64 list" where
  "timeline_keys tls i = map (\<lambda>name. tc_times (the (map_of tls name)) ! i) (sort (map fst tls))"

definition from_auto_row_ids ::
    "'c build \<Rightarrow> 'c arrow_kernels \<Rightarrow> ChunkId \<Rightarrow> ChunkId \<Rightarrow> EntityPath \<Rightarrow> ChunkTimelines \<Rightarrow>
     'c ChunkComponents \<Rightarrow> ChunkError option + 'c Chunk" where
  "from_auto_row_ids B K id0 shuffle_id path tls comps =
     (let n = (case list_first (list_arrays comps) of None \<Rightarrow> 0 | Some la \<Rightarrow> la_len la) in
      if n \<ge> 2 \<and> (\<exists>(_, tc) \<in> set tls. length (tc_times tc) < n) then Inl None
      else
        let swaps = sort_key (timeline_keys tls) [0..<n] in
        case chunk_new B id0 path (Some True) (auto_row_ids id0 n) tls comps of
          Inl e \<Rightarrow> Inl (Some e)
        | Inr ch \<Rightarrow>
            if swaps = [0..<n] then Inr ch
            else
              (case shuffle_with K shuffle_id ch swaps of
                 None \<Rightarrow> Inl None
               | Some ch \<Rightarrow>
                   Inr (ch\<lparr>ch_row_ids := auto_row_ids (ch_id ch) n, ch_is_sorted := True\<rparr>)))"

definition from_columns ::
    "'c build \<Rightarrow> 'c arrow_kernels \<Rightarrow> ChunkId \<Rightarrow> ChunkId \<Rightarrow> EntityPath \<Rightarrow> TimeColumn list \<Rightarrow>
     (ComponentDescriptor \<times> 'c list_array) list \<Rightarrow> ChunkError option + 'c Chunk" where
  "from_columns B K new_id shuffle_id path tcs cols =
     from_auto_row_ids B K new_id shuffle_id path
       (fold (\<lambda>tc. al_insert (tl_name (tc_timeline tc)) tc) tcs [])
       (components_from_iter (map (\<lambda>(desc, la). sc_new la desc) cols))"

section \<open>Permuting the columns\<close>

lemma permutation_facts:
  assumes "mset swaps = mset [0..<n]"
  shows "length swaps = n" "set swaps = {..<n}" "distinct swaps"
  using assms mset_eq_length mset_eq_setD mset_eq_imp_distinct_iff
  by (metis length_upt minus_nat.diff_0, metis atLeast_upt, metis distinct_upt)

lemma shuffled_permutation:
  assumes "mset swaps = mset [0..<length xs]"
  shows "shuffled xs swaps = Some (gather xs swaps)"
  using permutation_facts [OF assms] by (auto simp: shuffled_def)

lemma mset_gather: "mset swaps = mset [0..<length xs] \<Longrightarrow> mset (gather xs swaps) = mset xs"
  unfolding gather_def by (metis map_nth mset_map)

lemma shuffle_time_column_wf:
  assumes "tc_wf tc" "mset swaps = mset [0..<length (tc_times tc)]"
  obtains tc' where "shuffle_time_column swaps tc = Some tc'" "tc_wf tc'"
    "tc_times tc' = gather (tc_times tc) swaps" "tc_timeline tc' = tc_timeline tc"
proof -
  let ?tc' = "tc\<lparr>tc_is_sorted := sorted (gather (tc_times tc) swaps), tc_times := gather (tc_times tc) swaps\<rparr>"
  have m: "set (gather (tc_times tc) swaps) = set (tc_times tc)"
    using mset_gather [OF assms(2)] by (metis set_mset_mset)
  then have "tc_wf ?tc'"
    using assms(1) by (auto simp: tc_wf_def times_valid_def range_tight_def)
  moreover have "shuffle_time_column swaps tc = Some ?tc'"
    by (simp add: shuffle_time_column_def shuffled_permutation [OF assms(2)])
  ultimately show ?thesis using that by simp
qed

lemma shuffle_list_array_rows:
  assumes "arrow_laws K" "la_wf la" "swaps \<noteq> []" "set swaps \<subseteq> {..<la_len la}"
  obtains la' where "shuffle_list_array K swaps la = Some la'" "la_wf la'"
    "la_iter la' = gather (la_iter la) swaps" "la_datatype la' = la_datatype la"
proof -
  let ?cells = "map (la_value la) swaps"
  let ?la' = "\<lparr>la_datatype = la_datatype la, la_offsets = from_lengths (map length ?cells),
    la_values = concat ?cells, la_nulls = map_option (\<lambda>v. map (\<lambda>from. v ! from) swaps) (la_nulls la)\<rparr>"
  have eq: "shuffle_list_array K swaps la = Some ?la'"
    using assms arrow_lawsD(5) [OF assms(1), of ?cells]
    by (auto simp: shuffle_list_array_def Let_def)
  have len: "la_len ?la' = length swaps" by (simp add: la_len_def from_lengths_def)
  have "la_iter ?la' = gather (la_iter la) swaps"
  proof (rule la_iter_eqI [OF len])
    fix i assume i: "i < length swaps"
    have "la_value ?la' i = la_value la (swaps ! i)"
      using la_value_from_lengths [where r = "[]" and la = ?la' and xs = ?cells and i = i] i by simp
    moreover have "la_is_valid ?la' i = la_is_valid la (swaps ! i)"
      using i by (simp add: la_is_valid_def split: option.split)
    moreover have "swaps ! i < la_len la" using assms(4) i by (auto simp: subset_iff)
    ultimately show "(if la_is_valid ?la' i then Some (la_value ?la' i) else None)
        = gather (la_iter la) swaps ! i" using i by (simp add: la_iter_nth)
  qed simp
  moreover have "la_wf ?la'"
    using len by (auto simp: la_wf_def from_lengths_def length_concat comp_def split: option.splits)
  ultimately show ?thesis using that eq by simp
qed

text \<open>On rows, \<open>shuffle_with\<close> is the permutation it is given, for any chunk that is not empty.\<close>

lemma shuffle_with_gathers:
  assumes K: "arrow_laws K" and wf: "chunk_wf ch" and perm: "mset swaps = mset [0..<num_rows ch]"
    and "num_rows ch \<noteq> 0"
  obtains ch' where "shuffle_with K new_id ch swaps = Some ch'" "rows_gathered ch swaps ch'" "chunk_wf ch'"
    "ch_id ch' = new_id" "ch_entity_path ch' = ch_entity_path ch" "ch_heap_size_bytes ch' = ch_heap_size_bytes ch"
proof -
  define ft where "ft = (\<lambda>tc. the (shuffle_time_column swaps tc))"
  define fc where "fc = (\<lambda>col. the (shuffle_column K swaps col))"
  note p = permutation_facts [OF perm]
  have ne: "swaps \<noteq> []" using p(1) assms(4) by auto
  have ft: "shuffle_time_column swaps tc = Some (ft tc) \<and> tc_wf (ft tc)
      \<and> tc_times (ft tc) = gather (tc_times tc) swaps" if "(k, tc) \<in> set (ch_timelines ch)" for k tc
  proof -
    have "tc_wf tc" "mset swaps = mset [0..<length (tc_times tc)]"
      using wf that perm by (auto simp: chunk_wf_def timelines_ok_def)
    then show ?thesis by (metis shuffle_time_column_wf ft_def option.sel)
  qed
  have fc: "shuffle_column K swaps col = Some (fc col) \<and> la_wf (sc_list_array (fc col))
      \<and> sc_descriptor (fc col) = sc_descriptor col
      \<and> la_iter (sc_list_array (fc col)) = gather (la_iter (sc_list_array col)) swaps"
    if "(c, col) \<in> set (ch_components ch)" for c col
  proof -
    have "la_wf (sc_list_array col)" "set swaps \<subseteq> {..<la_len (sc_list_array col)}"
      using wf that p(2) by (auto simp: chunk_wf_def columns_ok_def)
    from shuffle_list_array_rows [OF K this(1) ne this(2)] obtain la'
      where la': "shuffle_list_array K swaps (sc_list_array col) = Some la'" "la_wf la'"
        "la_iter la' = gather (la_iter (sc_list_array col)) swaps" by metis
    then have "shuffle_column K swaps col = Some (col\<lparr>sc_list_array := la'\<rparr>)"
      by (simp add: shuffle_column_def)
    moreover from this have "fc col = col\<lparr>sc_list_array := la'\<rparr>" by (simp add: fc_def)
    ultimately show ?thesis using la' by simp
  qed
  let ?m = "ch\<lparr>ch_id := new_id, ch_row_ids := gather (ch_row_ids ch) swaps,
    ch_timelines := map (\<lambda>(k, tc). (k, ft tc)) (ch_timelines ch),
    ch_components := map (\<lambda>(c, col). (c, fc col)) (ch_components ch)\<rparr>"
  let ?ch' = "?m\<lparr>ch_is_sorted := is_row_ids_sorted_uncached ?m\<rparr>"
  have "shuffle_with K new_id ch swaps = Some ?ch'"
    using perm shuffled_permutation [of swaps "ch_row_ids ch"]
      traverse_values [where f = "shuffle_time_column swaps" and g = ft and m = "ch_timelines ch"]
      traverse_values [where f = "shuffle_column K swaps" and g = fc and m = "ch_components ch"] ft fc
    by (simp add: shuffle_with_def num_rows_def Let_def)
  moreover have "rows_gathered ch swaps ?ch'" "chunk_wf ?ch'"
    by (rule gathered_chunk [OF wf, where ft = ft and fc = fc];
        use ft fc in \<open>auto simp: is_row_ids_sorted_uncached_def\<close>)+
  ultimately show ?thesis using that by simp
qed

section \<open>Sorting\<close>

lemma map_insort_key: "map g (insort_key (\<lambda>x. f (g x)) x xs) = insort_key f (g x) (map g xs)"
  by (induction xs) auto

lemma map_sort_key: "map g (sort_key (\<lambda>x. f (g x)) xs) = sort_key f (map g xs)"
  by (induction xs) (auto simp: map_insort_key)

lemma insort_key_agree:
  "\<forall>y\<in>insert x (set xs). f y = g y \<Longrightarrow> insort_key f x xs = insort_key g x xs"
  by (induction xs) auto

lemma sort_key_agree: "\<forall>y\<in>set xs. f y = g y \<Longrightarrow> sort_key f xs = sort_key g xs"
proof (induction xs)
  case (Cons x xs)
  then have "insort_key f x (sort_key g xs) = insort_key g x (sort_key g xs)"
    by (intro insort_key_agree) simp
  with Cons show ?case by simp
qed simp

text \<open>Sorting indices by the key of the element they point at sorts the elements.\<close>

lemma gather_sort_key:
  assumes "\<And>i. i < length xs \<Longrightarrow> key i = f (xs ! i)"
  shows "gather xs (sort_key key [0..<length xs]) = sort_key f xs"
proof -
  have "sort_key key [0..<length xs] = sort_key (\<lambda>i. f (xs ! i)) [0..<length xs]"
    using assms by (intro sort_key_agree) simp
  then show ?thesis by (simp add: gather_def map_sort_key map_nth)
qed

definition row_time_key :: "TimelineName \<Rightarrow> 'c row \<Rightarrow> i64 \<times> RowId" where
  "row_time_key timeline r = (the (r_times r timeline), r_id r)"

lemma rows_gathered_sort:
  assumes g: "rows_gathered ch (sort_key key [0..<num_rows ch]) ch'"
    and key: "\<And>i. i < num_rows ch \<Longrightarrow> key i = f (chunk_row ch i)"
  shows "chunk_rows ch' = sort_key f (chunk_rows ch)"
proof -
  have "chunk_rows ch' = gather (chunk_rows ch) (sort_key key [0..<num_rows ch])"
    by (rule rows_gathered_rows [OF g]) auto
  also have "\<dots> = sort_key f (chunk_rows ch)"
    using gather_sort_key [of "chunk_rows ch" key f] key by simp
  finally show ?thesis .
qed

lemma clone_rows [simp]: "chunk_rows (ch\<lparr>ch_id := i\<rparr>) = chunk_rows ch"
  "chunk_wf (ch\<lparr>ch_id := i\<rparr>) = chunk_wf ch" "num_rows (ch\<lparr>ch_id := i\<rparr>) = num_rows ch"
  by (simp_all add: chunk_rows_def num_rows_def chunk_row_def time_at_def [abs_def]
      cell_at_def [abs_def] chunk_wf_def)

lemma row_ids_sort_key_id:
  assumes "sorted (ch_row_ids ch)"
  shows "sort_key r_id (chunk_rows ch) = chunk_rows ch"
  using assms by (intro sort_key_id_if_sorted) (simp add: chunk_rows_ids)

section \<open>Fresh row ids\<close>

lemma tuid_next_fields:
  "nanos_since_epoch (tuid_next r) = nanos_since_epoch r" "tuid_inc (tuid_next r) = tuid_inc r + 1"
  by (simp_all add: tuid_next_def nanos_since_epoch_def tuid_inc_def)

lemma tuid_wf_next [simp]: "tuid_wf r \<Longrightarrow> tuid_wf (tuid_next r)"
  by (simp add: tuid_next_def tuid_wf_def)

lemma length_row_ids_from [simp]: "length (row_ids_from r n) = n"
  by (induction r n rule: row_ids_from.induct) auto

lemma row_ids_from_increasing:
  assumes "tuid_wf r" "unat (tuid_inc r) + n < 2 ^ 64"
  shows "sorted_wrt (<) (row_ids_from r n) \<and> (\<forall>x\<in>set (row_ids_from r n). r \<le> x)"
  using assms
proof (induction r n rule: row_ids_from.induct)
  case (2 r n)
  have inc: "unat (tuid_inc r + 1) = unat (tuid_inc r) + 1"
    using 2(3) by (simp add: unat_word_ariths)
  then have "r < tuid_next r"
    using 2(2) by (simp add: tuid_less_fields tuid_next_fields word_less_nat_alt)
  moreover have "sorted_wrt (<) (row_ids_from (tuid_next r) n)
      \<and> (\<forall>x\<in>set (row_ids_from (tuid_next r) n). tuid_next r \<le> x)"
    using 2 inc by (intro 2(1)) (simp_all add: tuid_next_fields)
  ultimately show ?case by auto
qed simp

lemma auto_row_ids_sorted:
  assumes "tuid_wf i" "unat (tuid_inc i) + n + 1 < 2 ^ 64"
  shows "sorted (auto_row_ids i n)" "length (auto_row_ids i n) = n"
proof -
  have "unat (tuid_inc (tuid_next i)) + n < 2 ^ 64"
    using assms(2) by (simp add: tuid_next_fields unat_word_ariths)
  with assms(1) show "sorted (auto_row_ids i n)"
    unfolding auto_row_ids_def
    by (intro strict_sorted_imp_sorted) (simp add: row_ids_from_increasing)
qed (simp add: auto_row_ids_def)

section \<open>Properties\<close>

lemma sort_by_row_ids_rows:
  assumes K: "arrow_laws K" and wf: "chunk_wf ch"
  shows "\<exists>ch'. sort_by_row_ids_if_needed K new_id shuffle_id ch = Some ch' \<and> chunk_wf ch'
    \<and> ch_is_sorted ch' \<and> chunk_rows ch' = sort_key r_id (chunk_rows ch)"
proof (cases "ch_is_sorted ch")
  case True
  then show ?thesis
    using wf chunk_wfD(1) [OF wf] by (simp add: sort_by_row_ids_if_needed_def row_ids_sort_key_id)
next
  case False
  let ?c = "ch\<lparr>ch_id := new_id\<rparr>"
  let ?swaps = "sort_key (\<lambda>i. ch_row_ids ch ! i) [0..<num_rows ch]"
  have "num_rows ?c \<noteq> 0" using False chunk_wfD(1) [OF wf] by (auto simp: num_rows_def)
  then obtain ch' where ch': "shuffle_with K shuffle_id ?c ?swaps = Some ch'"
      "rows_gathered ?c ?swaps ch'" "chunk_wf ch'"
    using shuffle_with_gathers [OF K, of ?c ?swaps] wf by auto
  have rows: "chunk_rows ch' = sort_key r_id (chunk_rows ch)"
    using rows_gathered_sort [of ?c "\<lambda>i. ch_row_ids ch ! i" ch' r_id] ch'(2) by (simp add: chunk_row_def)
  then have "sorted (ch_row_ids ch')"
    using sorted_sort_key [of r_id "chunk_rows ch"] by (simp flip: chunk_rows_ids)
  with ch' rows False chunk_wfD(1) [OF ch'(3)] show ?thesis
    by (simp add: sort_by_row_ids_if_needed_def num_rows_def)
qed


lemma sorted_by_timeline_rows:
  assumes K: "arrow_laws K" and wf: "chunk_wf ch"
  shows "\<exists>ch'. sorted_by_timeline_if_unsorted K new_id shuffle_id ch timeline = Some ch' \<and> chunk_wf ch'
    \<and> (case map_of (ch_timelines ch) timeline of
         None \<Rightarrow> ch' = ch
       | Some tc \<Rightarrow> is_timeline_sorted ch' timeline \<and>
           (if tc_is_sorted tc then ch' = ch
            else chunk_rows ch' = sort_key (row_time_key timeline) (chunk_rows ch)))"
proof (cases "map_of (ch_timelines ch) timeline")
  case None
  then show ?thesis using wf by (simp add: sorted_by_timeline_if_unsorted_def)
next
  case (Some tc)
  have tc: "tc_wf tc" "length (tc_times tc) = num_rows ch"
    using timelines_okD [OF chunk_wfD(2) [OF wf] Some] by auto
  show ?thesis
  proof (cases "tc_is_sorted tc")
    case True
    then show ?thesis using wf Some by (simp add: sorted_by_timeline_if_unsorted_def is_timeline_sorted_def)
  next
    case False
    let ?c = "ch\<lparr>ch_id := new_id\<rparr>"
    let ?key = "\<lambda>i. (tc_times tc ! i, ch_row_ids ch ! i)"
    let ?swaps = "sort_key ?key [0..<num_rows ch]"
    have "tc_times tc \<noteq> []" using False tc(1) by (auto simp: tc_wf_def)
    then have "num_rows ?c \<noteq> 0" using tc(2) by (metis clone_rows(3) length_0_conv)
    then obtain ch' where ch': "shuffle_with K shuffle_id ?c ?swaps = Some ch'"
        "rows_gathered ?c ?swaps ch'" "chunk_wf ch'"
      using shuffle_with_gathers [OF K, of ?c ?swaps] wf by auto
    have rows: "chunk_rows ch' = sort_key (row_time_key timeline) (chunk_rows ch)"
      using rows_gathered_sort [of ?c ?key ch' "row_time_key timeline"] ch'(2) Some
      by (simp add: chunk_row_def row_time_key_def time_at_def)
    obtain tc' where tc': "map_of (ch_timelines ch') timeline = Some tc'"
        "tc_times tc' = gather (tc_times tc) ?swaps"
      using ch'(2) Some by (auto simp: rows_gathered_def dest!: spec [of _ timeline])
    have "sorted (map ?key ?swaps)" by simp
    then have "sorted (map fst (map ?key ?swaps))"
      by (rule sorted_map_mono [rotated]) (auto simp: mono_def less_eq_prod_def)
    then have "sorted (tc_times tc')" by (simp add: tc'(2) gather_def comp_def)
    then have "is_timeline_sorted ch' timeline"
      using timelines_okD(1) [OF chunk_wfD(2) [OF ch'(3)] tc'(1)] tc'(1)
      by (simp add: is_timeline_sorted_def tc_wf_def)
    with ch' rows False Some tc show ?thesis
      by (simp add: sorted_by_timeline_if_unsorted_def Let_def clone_with_id_def num_rows_def)
  qed
qed

text \<open>\<open>sorted_by_timeline_if_unsorted\<close> sorts the rows by their time on the timeline and, for equal
  times, by row id; a chunk whose timeline is already sorted, or that does not have it, is returned
  as it is.\<close>

theorem sorted_by_timeline_sorts_rows:
  assumes K: "arrow_laws K" and wf: "chunk_wf ch"
  shows "\<exists>ch'. sorted_by_timeline_if_unsorted K new_id shuffle_id ch timeline = Some ch' \<and> chunk_wf ch'
    \<and> (case map_of (ch_timelines ch) timeline of
         None \<Rightarrow> ch' = ch
       | Some tc \<Rightarrow> is_timeline_sorted ch' timeline \<and>
           (if tc_is_sorted tc then ch' = ch
            else chunk_rows ch' = sort_key (row_time_key timeline) (chunk_rows ch)))"
  by (rule sorted_by_timeline_rows [OF assms])

text \<open>The two sorts as row operations. A chunk whose timeline is sorted is left alone, rows with equal
  times included.\<close>

definition sort_rows_by_time :: "TimelineName \<Rightarrow> 'c row list \<Rightarrow> 'c row list" where
  "sort_rows_by_time timeline rows =
     (if sorted (map (\<lambda>r. the (r_times r timeline)) rows) then rows
      else sort_key (row_time_key timeline) rows)"

lemma times_column:
  assumes "chunk_wf ch" "map_of (ch_timelines ch) k = Some tc"
  shows "map (\<lambda>r. the (r_times r k)) (chunk_rows ch) = tc_times tc"
  by (rule nth_equalityI)
    (use assms timelines_okD(2) [OF chunk_wfD(2) [OF assms(1)] assms(2)] in
      \<open>auto simp: chunk_row_def time_at_def\<close>)

interpretation id_sort: row_selection "\<lambda>ch. arrow_laws K \<and> chunk_wf ch"
  "sort_by_row_ids_if_needed K new_id shuffle_id" "sort_key r_id" for K new_id shuffle_id
  by unfold_locales (use sort_by_row_ids_rows in \<open>blast | simp\<close>)+

interpretation time_sort: row_selection
  "\<lambda>ch. arrow_laws K \<and> chunk_wf ch \<and> map_of (ch_timelines ch) timeline \<noteq> None"
  "\<lambda>ch. sorted_by_timeline_if_unsorted K new_id shuffle_id ch timeline" "sort_rows_by_time timeline"
  for K new_id shuffle_id timeline
proof
  fix ch :: "'a Chunk"
  assume pre: "arrow_laws K \<and> chunk_wf ch \<and> map_of (ch_timelines ch) timeline \<noteq> None"
  then obtain tc where tc: "map_of (ch_timelines ch) timeline = Some tc" by blast
  have "tc_is_sorted tc = sorted (map (\<lambda>r. the (r_times r timeline)) (chunk_rows ch))"
    using pre tc timelines_okD(1) [OF chunk_wfD(2), of ch timeline tc] times_column [of ch timeline tc]
    by (simp add: tc_wf_def)
  then show "\<exists>ch'. sorted_by_timeline_if_unsorted K new_id shuffle_id ch timeline = Some ch' \<and> chunk_wf ch'
      \<and> chunk_rows ch' = sort_rows_by_time timeline (chunk_rows ch)"
    using sorted_by_timeline_rows [of K ch new_id shuffle_id timeline] pre tc
    by (auto simp: sort_rows_by_time_def split: if_splits)
qed (simp add: sort_rows_by_time_def)

definition row_data :: "'c row \<Rightarrow> (TimelineName \<Rightarrow> i64 option) \<times> (ComponentIdentifier \<Rightarrow> 'c list option)" where
  "row_data r = (r_times r, r_cells r)"

definition row_timeline_keys :: "TimelineName list \<Rightarrow> 'c row \<Rightarrow> i64 list" where
  "row_timeline_keys names r = map (\<lambda>name. the (r_times r name)) names"

lemma sanity_check_wf:
  assumes "chunk_wf ch" "ch_heap_size_bytes ch = 0"
  shows "sanity_check B ch = Inr ()"
proof -
  have "check_timeline B (num_rows ch) x = Inr ()" if "x \<in> set (ch_timelines ch)" for x
  proof -
    obtain k tc where x: "x = (k, tc)" by fastforce
    then have tc: "tc_wf tc" "length (tc_times tc) = num_rows ch"
      using assms(1) that by (auto simp: chunk_wf_def timelines_ok_def)
    have "\<forall>t\<in>set (tc_times tc). i64_ok t"
      using tc(1) by (auto simp: tc_wf_def times_valid_def i64_ok_def less_imp_le)
    then have "tc_sanity_check B tc = Inr ()"
      using tc_sanity_check_debug [of B tc] tc(1)
      by (cases "debug_assertions B") (simp_all add: tc_sanity_check_def [of B] split: if_split)
    with x tc show ?thesis by (simp add: check_timeline_def)
  qed
  moreover have "check_component (num_rows ch) x = Inr ()" if "x \<in> set (ch_components ch)" for x
    using assms(1) that by (cases x) (auto simp: chunk_wf_def columns_ok_def check_component_ok)
  ultimately show ?thesis
    using assms by (simp add: sanity_check_def Let_def chunk_wf_def is_row_ids_sorted_uncached_def)
qed

text \<open>A column in which every entry is null passes.\<close>

lemma sanity_check_null_column:
  fixes ty :: string and ch :: "'c Chunk"
  assumes "chunk_wf ch" "ch_heap_size_bytes ch = 0" "map_of (ch_components ch) (cd_component desc) = None"
  defines "col \<equiv> sc_new (la_of_rows ty (replicate (num_rows ch) None)) desc"
  shows "sanity_check B (ch\<lparr>ch_components := ch_components ch @ [(cd_component desc, col)]\<rparr>) = Inr ()"
    "la_iter (sc_list_array col) = replicate (num_rows ch) None"
proof -
  let ?ch = "ch\<lparr>ch_components := ch_components ch @ [(cd_component desc, col)]\<rparr>"
  show "la_iter (sc_list_array col) = replicate (num_rows ch) None" by (simp add: col_def sc_new_def)
  have n: "num_rows ?ch = num_rows ch" by (simp add: num_rows_def)
  have "cd_component desc \<notin> fst ` set (ch_components ch)" using assms(3) by (simp add: map_of_eq_None_iff)
  moreover have "sc_descriptor col = desc" "la_len (sc_list_array col) = num_rows ch" "la_wf (sc_list_array col)"
    by (simp_all add: col_def sc_new_def)
  ultimately have "columns_ok (num_rows ch) (ch_components ?ch)"
    using assms(1) by (auto simp: chunk_wf_def columns_ok_def)
  then have "chunk_wf ?ch" using assms(1) by (simp add: chunk_wf_def n)
  then show "sanity_check B ?ch = Inr ()" by (rule sanity_check_wf) (simp add: assms(2))
qed

lemma sort_key_upt_agree:
  "(\<And>i. i < n \<Longrightarrow> key i = key' i) \<Longrightarrow> sort_key key [0..<n] = sort_key key' [0..<n]"
  by (rule sort_key_agree) simp

text \<open>\<open>from_auto_row_ids\<close> accepts columns of equal length, returns a well-formed chunk whose row ids
  are sorted, and holds the given rows stably reordered by their times, timeline after timeline in
  the order of the timeline names.\<close>

theorem from_auto_row_ids_reorders:
  assumes K: "arrow_laws K" and tls: "timelines_ok n tls" and comps: "columns_ok n comps"
    and ne: "comps \<noteq> []" "n \<noteq> 0"
    and ids: "tuid_wf id0" "unat (tuid_inc id0) + n + 1 < 2 ^ 64"
      "tuid_wf shuffle_id" "unat (tuid_inc shuffle_id) + n + 1 < 2 ^ 64"
  shows "\<exists>ch. from_auto_row_ids B K id0 shuffle_id path tls comps = Inr ch \<and> chunk_wf ch \<and> ch_is_sorted ch
    \<and> map row_data (chunk_rows ch) = map row_data (sort_key (row_timeline_keys (sort (map fst tls)))
        (chunk_rows \<lparr>ch_id = id0, ch_entity_path = path, ch_heap_size_bytes = 0, ch_is_sorted = True,
          ch_row_ids = auto_row_ids id0 n, ch_timelines = tls, ch_components = comps\<rparr>))"
proof -
  let ?ch0 = "\<lparr>ch_id = id0, ch_entity_path = path, ch_heap_size_bytes = 0, ch_is_sorted = True,
    ch_row_ids = auto_row_ids id0 n, ch_timelines = tls, ch_components = comps\<rparr>"
  let ?key = "row_timeline_keys (sort (map fst tls))"
  let ?swaps = "sort_key (timeline_keys tls) [0..<n]"
  note auto0 = auto_row_ids_sorted [OF ids(1,2)] and auto1 = auto_row_ids_sorted [OF ids(3,4)]
  have n0: "num_rows ?ch0 = n" by (simp add: num_rows_def auto0)
  have wf0: "chunk_wf ?ch0" using tls comps by (simp add: chunk_wf_def n0) (simp add: auto0)
  obtain la rest where la: "list_arrays comps = la # rest" "la_len la = n"
    using ne(1) comps by (cases comps) (auto simp: list_arrays_def columns_ok_def)
  have lens: "\<not> (\<exists>(_, tc) \<in> set tls. length (tc_times tc) < n)"
    using tls by (auto simp: timelines_ok_def)
  have new: "chunk_new B id0 path (Some True) (auto_row_ids id0 n) tls comps = Inr ?ch0"
    using sanity_check_wf [OF wf0] by (simp add: chunk_new_def)
  have key: "timeline_keys tls i = ?key (chunk_row ?ch0 i)" if "i < n" for i
    using tls by (auto simp: timeline_keys_def row_timeline_keys_def chunk_row_def time_at_def
        timelines_ok_def map_of_eq_None_iff option.map_sel intro!: option.map_sel [symmetric])
  have unfold: "from_auto_row_ids B K id0 shuffle_id path tls comps =
      (if ?swaps = [0..<n] then Inr ?ch0
       else case shuffle_with K shuffle_id ?ch0 ?swaps of None \<Rightarrow> Inl None
         | Some ch \<Rightarrow> Inr (ch\<lparr>ch_row_ids := auto_row_ids (ch_id ch) n, ch_is_sorted := True\<rparr>))"
    using la lens new by (simp add: from_auto_row_ids_def list_first_def Let_def)
  show ?thesis
  proof (cases "?swaps = [0..<n]")
    case True
    have "sort_key ?key (chunk_rows ?ch0) = gather (chunk_rows ?ch0) ?swaps"
      using gather_sort_key [of "chunk_rows ?ch0" "timeline_keys tls" ?key] key n0 by simp
    also have "\<dots> = chunk_rows ?ch0" using True gather_upt [of "chunk_rows ?ch0"] n0 by simp
    finally show ?thesis using True wf0 by (simp add: unfold)
  next
    case False
    have "mset ?swaps = mset [0..<num_rows ?ch0]" "num_rows ?ch0 \<noteq> 0" using n0 ne(2) by simp_all
    from shuffle_with_gathers [OF K wf0 this] obtain ch where ch:
      "shuffle_with K shuffle_id ?ch0 ?swaps = Some ch" "rows_gathered ?ch0 ?swaps ch" "chunk_wf ch"
      "ch_id ch = shuffle_id" by metis
    let ?ch' = "ch\<lparr>ch_row_ids := auto_row_ids shuffle_id n, ch_is_sorted := True\<rparr>"
    have rows: "chunk_rows ch = sort_key ?key (chunk_rows ?ch0)"
      using rows_gathered_sort [of ?ch0 "timeline_keys tls" ch ?key] ch(2) key n0 by simp
    have nch: "num_rows ch = n" using arg_cong [OF rows, of length] n0 by simp
    have nch': "num_rows ?ch' = n" by (simp add: num_rows_def auto1)
    have "chunk_wf ?ch'"
      using ch(3) by (simp add: chunk_wf_def nch nch') (simp add: auto1)
    moreover have "map row_data (chunk_rows ?ch') = map row_data (chunk_rows ch)"
      by (rule nth_equalityI)
        (auto simp: nch nch' row_data_def chunk_row_def time_at_def [abs_def] cell_at_def [abs_def])
    ultimately show ?thesis using False ch rows by (simp add: unfold)
  qed
qed

section \<open>Concrete runs\<close>

definition demo_unsorted :: "nat Chunk" where
  "demo_unsorted = demo_chunk\<lparr>ch_row_ids := [demo_id 3, demo_id 1, demo_id 2], ch_is_sorted := False\<rparr>"


lemma upt_3: "[0..<3] = [0, 1, 2 :: nat]"
  by (simp add: upt_rec)

lemma demo_rows:
  "chunk_rows demo_chunk = [chunk_row demo_chunk 0, chunk_row demo_chunk 1, chunk_row demo_chunk 2]"
  "chunk_rows demo_unsorted = [chunk_row demo_unsorted 0, chunk_row demo_unsorted 1, chunk_row demo_unsorted 2]"
  by (simp_all add: chunk_rows_def upt_3) (simp add: demo_unsorted_def num_rows_def eval_nat_numeral)


theorem sorted_by_timeline_sorts_rows_witness:
  "\<exists>ch'. sorted_by_timeline_if_unsorted list_kernels (demo_id 7) (demo_id 8) demo_chunk ''frame'' = Some ch'
    \<and> map r_id (chunk_rows ch') = [demo_id 2, demo_id 3, demo_id 1]"
proof -
  have "map r_id (sort_key (row_time_key ''frame'') (chunk_rows demo_chunk)) = [demo_id 2, demo_id 3, demo_id 1]"
    by (simp add: demo_rows chunk_row_def row_time_key_def time_at_def)
  then show ?thesis
    using sorted_by_timeline_sorts_rows [OF arrow_laws_list_kernels demo_chunk_wf, of "demo_id 7" "demo_id 8" "''frame''"]
    by (auto split: if_splits)
qed

theorem from_auto_row_ids_reorders_witness:
  "\<exists>ch. from_auto_row_ids \<lparr>debug_assertions = True, measured_heap_size = \<lambda>_. 0\<rparr> list_kernels
      (demo_id 7) (demo_id 8) ''/world'' (ch_timelines demo_chunk) (ch_components demo_chunk) = Inr ch
    \<and> chunk_wf ch"
proof -
  have t: "timelines_ok 3 (ch_timelines demo_chunk)" "columns_ok 3 (ch_components demo_chunk)"
    using chunk_wfD(2,3) [OF demo_chunk_wf] by simp_all
  have w: "tuid_wf (demo_id k)" "k < 9 \<Longrightarrow> unat (tuid_inc (demo_id k)) = k" for k
    by (simp_all add: demo_id_def from_u128_fields unat_of_nat)
  show ?thesis
    using from_auto_row_ids_reorders [OF arrow_laws_list_kernels t, of "demo_id 7" "demo_id 8"]
    by (auto simp: w)
qed

end
