(* ===== verification/Chunk_Slice.thy ===== *)
theory Chunk_Slice
  imports Chunk_Shuffle
begin

text \<open>
  Slicing, filtering and deduplicating chunks (\<open>crates/store/re_chunk/src/slice.rs\<close>).

  The vertical operations select rows: every column is sliced, filtered or gathered on its own, and
  the lemmas show that the rows of the result are the selected rows of the chunk. The horizontal
  operations drop columns and leave the rest of every row alone. \<open>None\<close> is a panic of a kernel
  wrapper; the debug-only \<open>sanity_check().unwrap()\<close> that ends most operations cannot fail on a
  well-formed result.
\<close>

section \<open>Operations\<close>

definition emptied :: "ChunkId \<Rightarrow> 'c Chunk \<Rightarrow> 'c Chunk" where
  "emptied new_id ch =
     \<lparr>ch_id = new_id, ch_entity_path = ch_entity_path ch, ch_heap_size_bytes = 0,
      ch_is_sorted = True, ch_row_ids = [],
      ch_timelines = map (\<lambda>(name, tc). (name, tc_emptied tc)) (ch_timelines ch),
      ch_components = components_from_iter (map (\<lambda>(_, col).
        sc_new (la_new_null (la_datatype (sc_list_array col)) 0) (sc_descriptor col)) (ch_components ch))\<rparr>"

text \<open>Rebuilding the component map from a fallible function on its arrays.\<close>

definition collect_columns ::
    "('c SerializedComponentColumn \<Rightarrow> 'c list_array option) \<Rightarrow> 'c ChunkComponents \<Rightarrow> 'c ChunkComponents option" where
  "collect_columns f comps =
     map_option components_from_iter
       (traverse (\<lambda>(_, col). map_option (\<lambda>la. sc_new la (sc_descriptor col)) (f col)) comps)"

definition row_sliced_impl ::
    "'c arrow_kernels \<Rightarrow> ChunkId \<Rightarrow> 'c Chunk \<Rightarrow> nat \<Rightarrow> nat \<Rightarrow> bool \<Rightarrow> 'c Chunk option" where
  "row_sliced_impl K new_id ch index len deep =
     (if index \<ge> num_rows ch then Some (emptied new_id ch)
      else
        let end_offset = min (index + len) (num_rows ch);
            len = end_offset - index
        in if len = 0 then Some (emptied new_id ch)
           else
             let is_sorted = (ch_is_sorted ch \<or> len < 2) in
             case (if deep then deep_slice_row_ids K (ch_row_ids ch) index len
                   else Some (take len (drop index (ch_row_ids ch)))) of
               None \<Rightarrow> None
             | Some row_ids \<Rightarrow>
                 (case collect_columns (\<lambda>col.
                          if deep then deep_slice_list K (sc_list_array col) index len
                          else Some (la_slice (sc_list_array col) index len)) (ch_components ch) of
                    None \<Rightarrow> None
                  | Some comps \<Rightarrow>
                      let chunk = \<lparr>ch_id = new_id, ch_entity_path = ch_entity_path ch,
                            ch_heap_size_bytes = 0, ch_is_sorted = is_sorted, ch_row_ids = row_ids,
                            ch_timelines = map (\<lambda>(name, tc). (name, tc_row_sliced tc index len))
                              (ch_timelines ch),
                            ch_components = comps\<rparr>
                      in Some (chunk\<lparr>ch_is_sorted := is_sorted \<or> is_row_ids_sorted_uncached chunk\<rparr>)))"

definition row_sliced_shallow ::
    "'c arrow_kernels \<Rightarrow> ChunkId \<Rightarrow> 'c Chunk \<Rightarrow> nat \<Rightarrow> nat \<Rightarrow> 'c Chunk option" where
  "row_sliced_shallow K new_id ch index len = row_sliced_impl K new_id ch index len False"

definition row_sliced_deep ::
    "'c arrow_kernels \<Rightarrow> ChunkId \<Rightarrow> 'c Chunk \<Rightarrow> nat \<Rightarrow> nat \<Rightarrow> 'c Chunk option" where
  "row_sliced_deep K new_id ch index len = row_sliced_impl K new_id ch index len True"

definition timeline_sliced :: "ChunkId \<Rightarrow> 'c Chunk \<Rightarrow> TimelineName \<Rightarrow> 'c Chunk" where
  "timeline_sliced new_id ch timeline = ch\<lparr>ch_id := new_id, ch_heap_size_bytes := 0,
     ch_timelines := (case map_of (ch_timelines ch) timeline of
        None \<Rightarrow> [] | Some tc \<Rightarrow> [(timeline, tc)])\<rparr>"

definition timelines_sliced :: "ChunkId \<Rightarrow> 'c Chunk \<Rightarrow> TimelineName list \<Rightarrow> 'c Chunk" where
  "timelines_sliced new_id ch timelines_to_keep = ch\<lparr>ch_id := new_id, ch_heap_size_bytes := 0,
     ch_timelines := filter (\<lambda>(timeline, _). timeline \<in> set timelines_to_keep) (ch_timelines ch)\<rparr>"

definition components_sliced :: "ChunkId \<Rightarrow> 'c Chunk \<Rightarrow> ComponentIdentifier list \<Rightarrow> 'c Chunk" where
  "components_sliced new_id ch components_to_keep = ch\<lparr>ch_id := new_id, ch_heap_size_bytes := 0,
     ch_components := components_from_iter (List.map_filter (\<lambda>c.
       map_option (\<lambda>col. sc_new (sc_list_array col) (sc_descriptor col)) (map_of (ch_components ch) c))
       components_to_keep)\<rparr>"

definition component_sliced :: "ChunkId \<Rightarrow> 'c Chunk \<Rightarrow> ComponentIdentifier \<Rightarrow> 'c Chunk" where
  "component_sliced new_id ch c = components_sliced new_id ch [c]"

definition components_dropped :: "ChunkId \<Rightarrow> 'c Chunk \<Rightarrow> ComponentIdentifier list \<Rightarrow> 'c Chunk" where
  "components_dropped new_id ch components_to_drop =
     (if \<not> (\<exists>(c, _) \<in> set (ch_components ch). c \<in> set components_to_drop) then ch
      else ch\<lparr>ch_id := new_id, ch_heap_size_bytes := 0,
        ch_components := components_from_iter
          (map (\<lambda>(_, col). sc_new (sc_list_array col) (sc_descriptor col))
            (filter (\<lambda>(c, _). c \<notin> set components_to_drop) (ch_components ch)))\<rparr>)"

definition component_dropped :: "ChunkId \<Rightarrow> 'c Chunk \<Rightarrow> ComponentIdentifier \<Rightarrow> 'c Chunk" where
  "component_dropped new_id ch c = components_dropped new_id ch [c]"

definition components_removed :: "ChunkId \<Rightarrow> 'c Chunk \<Rightarrow> 'c Chunk" where
  "components_removed new_id ch = ch\<lparr>ch_id := new_id, ch_heap_size_bytes := 0, ch_components := []\<rparr>"

text \<open>The part \<open>densified\<close> and \<open>filtered\<close> share: filter every column with a mask.\<close>

definition filter_columns ::
    "'c arrow_kernels \<Rightarrow> ChunkId \<Rightarrow> 'c Chunk \<Rightarrow> bool list \<Rightarrow>
     ('c SerializedComponentColumn \<Rightarrow> 'c list_array \<Rightarrow> 'c list_array) \<Rightarrow> bool \<Rightarrow> 'c Chunk option" where
  "filter_columns K new_id ch msk post is_sorted =
     (case filter_row_ids K (ch_row_ids ch) msk of
        None \<Rightarrow> None
      | Some row_ids \<Rightarrow>
          (case traverse (\<lambda>(name, tc). map_option (Pair name) (tc_filtered K tc msk)) (ch_timelines ch) of
             None \<Rightarrow> None
           | Some tls \<Rightarrow>
               (case collect_columns (\<lambda>col. map_option (post col) (filter_list K (sc_list_array col) msk))
                       (ch_components ch) of
                  None \<Rightarrow> None
                | Some comps \<Rightarrow>
                    let chunk = \<lparr>ch_id = new_id, ch_entity_path = ch_entity_path ch,
                          ch_heap_size_bytes = 0, ch_is_sorted = is_sorted, ch_row_ids = row_ids,
                          ch_timelines = tls, ch_components = comps\<rparr>
                    in Some (chunk\<lparr>ch_is_sorted := is_sorted \<or> is_row_ids_sorted_uncached chunk\<rparr>))))"

definition densified ::
    "'c arrow_kernels \<Rightarrow> ChunkId \<Rightarrow> 'c Chunk \<Rightarrow> ComponentIdentifier \<Rightarrow> ('c Chunk \<times> bool) option" where
  "densified K new_id ch component_pov =
     (if chunk_is_empty ch then Some (ch, False)
      else case get_array (ch_components ch) component_pov of
        None \<Rightarrow> Some (ch, False)
      | Some la \<Rightarrow>
          (case la_nulls la of
             None \<Rightarrow> Some (ch, False)
           | Some msk \<Rightarrow>
               map_option (\<lambda>chunk. (chunk, True))
                 (filter_columns K new_id ch msk
                   (\<lambda>col filtered. if cd_component (sc_descriptor col) = component_pov
                      then filtered\<lparr>la_nulls := None\<rparr> else filtered)
                   (ch_is_sorted ch \<or> length (filter id msk) < 2))))"

text \<open>The outer option is a panic, the inner one the \<open>Option\<close> the code returns.\<close>

definition filtered ::
    "'c arrow_kernels \<Rightarrow> ChunkId \<Rightarrow> 'c Chunk \<Rightarrow> bool list \<Rightarrow> 'c Chunk option option" where
  "filtered K new_id ch flt =
     (if length flt \<noteq> num_rows ch then Some None
      else if chunk_is_empty ch then Some (Some ch)
      else
        let num_filtered = length (filter id flt) in
        if num_filtered = 0 then Some (Some (emptied new_id ch))
        else map_option Some (filter_columns K new_id ch flt (\<lambda>_ la. la) (ch_is_sorted ch \<or> num_filtered < 2)))"

definition take_columns ::
    "'c arrow_kernels \<Rightarrow> ChunkId \<Rightarrow> 'c Chunk \<Rightarrow> nat list \<Rightarrow> bool \<Rightarrow> 'c Chunk option" where
  "take_columns K new_id ch indices is_sorted =
     (case take_row_ids K (ch_row_ids ch) indices of
        None \<Rightarrow> None
      | Some row_ids \<Rightarrow>
          (case traverse (\<lambda>(name, tc). map_option (Pair name) (tc_taken K tc indices)) (ch_timelines ch) of
             None \<Rightarrow> None
           | Some tls \<Rightarrow>
               (case collect_columns (\<lambda>col. take_list K (sc_list_array col) indices) (ch_components ch) of
                  None \<Rightarrow> None
                | Some comps \<Rightarrow>
                    Some \<lparr>ch_id = new_id, ch_entity_path = ch_entity_path ch,
                      ch_heap_size_bytes = 0, ch_is_sorted = is_sorted, ch_row_ids = row_ids,
                      ch_timelines = tls, ch_components = comps\<rparr>)))"

definition taken :: "'c arrow_kernels \<Rightarrow> ChunkId \<Rightarrow> 'c Chunk \<Rightarrow> nat list \<Rightarrow> 'c Chunk option" where
  "taken K new_id ch indices =
     (if chunk_is_empty ch then Some ch
      else if indices = [] then Some (emptied new_id ch)
      else
        let is_sorted = (ch_is_sorted ch \<or> length indices < 2) in
        map_option (\<lambda>chunk. chunk\<lparr>ch_is_sorted := is_sorted \<or> is_row_ids_sorted_uncached chunk\<rparr>)
          (take_columns K new_id ch indices is_sorted))"

text \<open>\<open>Itertools::dedup_with_count\<close>, and the index of the last row of every run.\<close>

fun dedup_with_count :: "'a list \<Rightarrow> (nat \<times> 'a) list" where
  "dedup_with_count [] = []"
| "dedup_with_count (x # xs) =
     (case dedup_with_count xs of
        [] \<Rightarrow> [(1, x)]
      | (n, y) # rest \<Rightarrow> if x = y then (Suc n, y) # rest else (1, x) # (n, y) # rest)"

fun run_ends :: "nat \<Rightarrow> (nat \<times> 'a) list \<Rightarrow> nat list" where
  "run_ends i [] = []"
| "run_ends i ((n, _) # rest) = (i + n - 1) # run_ends (i + n) rest"

definition deduped_latest_on_index ::
    "'c arrow_kernels \<Rightarrow> ChunkId \<Rightarrow> 'c Chunk \<Rightarrow> TimelineName \<Rightarrow> 'c Chunk option" where
  "deduped_latest_on_index K new_id ch index =
     (if chunk_is_empty ch then Some ch
      else if chunk_is_static ch then row_sliced_shallow K new_id ch (num_rows ch - 1) 1
      else case map_of (ch_timelines ch) index of
        None \<Rightarrow> Some ch
      | Some tc \<Rightarrow>
          take_columns K new_id ch (run_ends 0 (dedup_with_count (tc_times tc))) (ch_is_sorted ch))"

section \<open>Columns of the results\<close>

lemma components_rebuild_ok:
  "columns_ok n comps \<Longrightarrow> components_from_iter (map (\<lambda>(_, col). sc_new (f col) (sc_descriptor col)) comps)
    = map (\<lambda>(c, col). (c, sc_new (f col) (sc_descriptor col))) comps"
  by (rule components_rebuild) (auto simp: columns_ok_def)

lemma collect_columns_eq:
  assumes "columns_ok n comps"
    and "\<And>c col. (c, col) \<in> set comps \<Longrightarrow> f col = Some (g col)"
  shows "collect_columns f comps = Some (map (\<lambda>(c, col). (c, sc_new (g col) (sc_descriptor col))) comps)"
proof -
  have "traverse (\<lambda>(_, col). map_option (\<lambda>la. sc_new la (sc_descriptor col)) (f col)) comps
      = Some (map (\<lambda>(_, col). sc_new (g col) (sc_descriptor col)) comps)"
    by (rule traverse_cong_Some) (use assms(2) in auto)
  then show ?thesis using components_rebuild_ok [OF assms(1), of g] by (simp add: collect_columns_def)
qed

lemma sc_new_sel [simp]: "sc_list_array (sc_new la d) = la" "sc_descriptor (sc_new la d) = d"
  by (simp_all add: sc_new_def)

lemma la_new_null_0 [simp]: "la_iter (la_new_null ty 0) = []" "la_wf (la_new_null ty 0)"
  by (simp_all add: la_iter_def la_new_null_def la_len_def la_wf_def)

lemma emptied_gathers:
  assumes wf: "chunk_wf ch"
  shows "rows_gathered ch [] (emptied new_id ch)" "chunk_wf (emptied new_id ch)"
proof -
  have c: "ch_components (emptied new_id ch) = map (\<lambda>(c, col). (c,
      sc_new (la_new_null (la_datatype (sc_list_array col)) 0) (sc_descriptor col))) (ch_components ch)"
    unfolding emptied_def
    using components_rebuild_ok [OF chunk_wfD(3) [OF wf],
        of "\<lambda>col. la_new_null (la_datatype (sc_list_array col)) 0"] by simp
  have e: "ch_row_ids (emptied new_id ch) = gather (ch_row_ids ch) []"
    "ch_is_sorted (emptied new_id ch) = sorted (ch_row_ids (emptied new_id ch))"
    "ch_timelines (emptied new_id ch) = map (\<lambda>(k, tc). (k, tc_emptied tc)) (ch_timelines ch)"
    by (simp_all add: emptied_def gather_def)
  show "rows_gathered ch [] (emptied new_id ch)" "chunk_wf (emptied new_id ch)"
    by (rule gathered_chunk [OF wf e c]; simp add: gather_def)+
qed

lemma emptied_rows [simp]: "chunk_rows (emptied new_id ch) = []"
  by (simp add: chunk_rows_def num_rows_def emptied_def)

text \<open>Slicing, shallow or deep.\<close>

lemma row_slice_columns:
  fixes ch :: "'c Chunk"
  assumes K: "arrow_laws K" and wf: "chunk_wf ch" and b: "index + len \<le> num_rows ch" "len \<noteq> 0"
  obtains ch' where "row_sliced_impl K new_id ch index len deep = Some ch'"
    "rows_gathered ch [index..<index + len] ch'" "chunk_wf ch'"
proof -
  let ?is = "[index..<index + len]"
  define sl where "sl = (\<lambda>la. if deep then deep_slice_list K la index len else Some (la_slice la index len))"
  define fc where "fc = (\<lambda>col :: 'c SerializedComponentColumn. sc_new (the (sl (sc_list_array col))) (sc_descriptor col))"
  let ?ft = "\<lambda>tc. tc_row_sliced tc index len"
  have ids: "(if deep then deep_slice_row_ids K (ch_row_ids ch) index len
      else Some (take len (drop index (ch_row_ids ch)))) = Some (gather (ch_row_ids ch) ?is)"
    using b deep_slice_row_ids_eq [OF K, of index len "ch_row_ids ch"]
    by (simp add: num_rows_def slice_gather)
  have fc: "sl (sc_list_array col) = Some (sc_list_array (fc col)) \<and> la_wf (sc_list_array (fc col))
      \<and> sc_descriptor (fc col) = sc_descriptor col
      \<and> la_iter (sc_list_array (fc col)) = gather (la_iter (sc_list_array col)) ?is"
    if "(c, col) \<in> set (ch_components ch)" for c col
  proof -
    let ?la = "sc_list_array col"
    have la: "la_wf ?la" "index + len \<le> la_len ?la"
      using wf that b by (auto simp: chunk_wf_def columns_ok_def)
    have "\<exists>la'. sl ?la = Some la' \<and> la_wf la' \<and> la_iter la' = take len (drop index (la_iter ?la))"
    proof (cases deep)
      case True
      from deep_slice_list_rows [OF K la] show ?thesis
        by (rule list_with_rowsE) (simp add: sl_def True)
    qed (use la_iter_slice [OF la] la_wf_slice [OF la] in \<open>simp add: sl_def\<close>)
    then show ?thesis using la(2) by (auto simp: fc_def slice_gather)
  qed
  have ft: "tc_wf (?ft tc) \<and> tc_times (?ft tc) = gather (tc_times tc) ?is"
    if "(k, tc) \<in> set (ch_timelines ch)" for k tc
  proof -
    have "tc_wf tc" "index + len \<le> length (tc_times tc)"
      using wf that b by (auto simp: chunk_wf_def timelines_ok_def)
    then show ?thesis by (simp add: tc_wf_row_sliced tc_row_sliced_times slice_gather)
  qed
  have cols: "collect_columns (\<lambda>col. sl (sc_list_array col)) (ch_components ch)
      = Some (map (\<lambda>(c, col). (c, fc col)) (ch_components ch))"
  proof -
    have "sc_new (sc_list_array (fc col)) (sc_descriptor col) = fc col" for col by (simp add: fc_def)
    moreover have "collect_columns (\<lambda>col. sl (sc_list_array col)) (ch_components ch) = Some (map
        (\<lambda>(c, col). (c, sc_new (sc_list_array (fc col)) (sc_descriptor col))) (ch_components ch))"
      by (rule collect_columns_eq [OF chunk_wfD(3) [OF wf]]) (use fc in blast)
    ultimately show ?thesis by simp
  qed
  let ?srt = "ch_is_sorted ch \<or> len < 2"
  let ?m = "\<lparr>ch_id = new_id, ch_entity_path = ch_entity_path ch, ch_heap_size_bytes = 0,
    ch_is_sorted = ?srt, ch_row_ids = gather (ch_row_ids ch) ?is,
    ch_timelines = map (\<lambda>(k, tc). (k, ?ft tc)) (ch_timelines ch),
    ch_components = map (\<lambda>(c, col). (c, fc col)) (ch_components ch)\<rparr>"
  let ?ch' = "?m\<lparr>ch_is_sorted := ?srt \<or> is_row_ids_sorted_uncached ?m\<rparr>"
  have m: "min (index + len) (num_rows ch) - index = len" using b by simp
  have nb: "(num_rows ch \<le> index) = False" "(len = 0) = False" using b by auto
  have "row_sliced_impl K new_id ch index len deep = Some ?ch'"
    unfolding row_sliced_impl_def Let_def m ids cols [unfolded sl_def] nb by simp
  moreover have "sorted (gather (ch_row_ids ch) ?is)" if ?srt
  proof (cases "len < 2")
    case False
    with that chunk_wfD(1) [OF wf] b show ?thesis
      by (intro sorted_gather_mono) (auto simp: num_rows_def)
  qed (simp add: sorted_length_less_2)
  then have srt: "ch_is_sorted ?ch' = sorted (ch_row_ids ?ch')"
    by (auto simp: is_row_ids_sorted_uncached_def)
  have "rows_gathered ch ?is ?ch'" "chunk_wf ?ch'"
    by (rule gathered_chunk [OF wf _ srt, where ft = ?ft and fc = fc]; (rule ft | use fc in simp)?; simp)+
  ultimately show ?thesis using that by simp
qed

text \<open>Filtering. \<open>post\<close> may only change the representation of an array, not its rows.\<close>

lemma filter_columns_gathers:
  fixes ch :: "'c Chunk"
  assumes K: "arrow_laws K" and wf: "chunk_wf ch" and m: "length m = num_rows ch"
    and srt: "b \<Longrightarrow> sorted (mask_select m (ch_row_ids ch))"
    and post: "\<And>c col la. (c, col) \<in> set (ch_components ch) \<Longrightarrow> la_wf la \<Longrightarrow>
      la_iter la = mask_select m (la_iter (sc_list_array col)) \<Longrightarrow>
      la_wf (post col la) \<and> la_iter (post col la) = la_iter la"
  obtains ch' where "filter_columns K new_id ch m post b = Some ch'"
    "rows_gathered ch (mask_select m [0..<num_rows ch]) ch'" "chunk_wf ch'"
    "\<forall>c col. map_of (ch_components ch) c = Some col \<longrightarrow>
      (\<exists>la. map_of (ch_components ch') c = Some (sc_new (post col la) (sc_descriptor col)))"
proof -
  let ?is = "mask_select m [0..<num_rows ch]"
  define fl where "fl = (\<lambda>col. map_option (post col) (filter_list K (sc_list_array col) m))"
  define fc where "fc = (\<lambda>col :: 'c SerializedComponentColumn. sc_new (the (fl col)) (sc_descriptor col))"
  define ft where "ft = (\<lambda>tc. the (tc_filtered K tc m))"
  have ids: "filter_row_ids K (ch_row_ids ch) m = Some (gather (ch_row_ids ch) ?is)"
    using filter_row_ids_eq [OF K, of m "ch_row_ids ch"] m mask_select_gather [of m "ch_row_ids ch"]
    by (simp add: num_rows_def)
  have fc: "fl col = Some (sc_list_array (fc col)) \<and> la_wf (sc_list_array (fc col))
      \<and> sc_descriptor (fc col) = sc_descriptor col
      \<and> la_iter (sc_list_array (fc col)) = gather (la_iter (sc_list_array col)) ?is
      \<and> (\<exists>la. fc col = sc_new (post col la) (sc_descriptor col))"
    if "(c, col) \<in> set (ch_components ch)" for c col
  proof -
    let ?la = "sc_list_array col"
    have la: "la_wf ?la" "length m = la_len ?la"
      using wf that m by (auto simp: chunk_wf_def columns_ok_def)
    obtain la' where la': "filter_list K ?la m = Some la'" "la_iter la' = mask_select m (la_iter ?la)" "la_wf la'"
      using filter_list_rows [OF K la] by (rule list_with_rowsE)
    have "mask_select m (la_iter ?la) = gather (la_iter ?la) ?is"
      using mask_select_gather [of m "la_iter ?la"] la m by simp
    with la' post [OF that la'(3,2)] show ?thesis by (auto simp: fl_def fc_def)
  qed
  have ft: "tc_filtered K tc m = Some (ft tc) \<and> tc_wf (ft tc) \<and> tc_times (ft tc) = gather (tc_times tc) ?is"
    if "(k, tc) \<in> set (ch_timelines ch)" for k tc
  proof -
    have tc: "tc_wf tc" "length m = tc_num_rows tc"
      using wf that m by (auto simp: chunk_wf_def timelines_ok_def tc_num_rows_def)
    have "mask_select m (tc_times tc) = gather (tc_times tc) ?is"
      using mask_select_gather [of m "tc_times tc"] tc m by (simp add: tc_num_rows_def)
    then show ?thesis using tc_filtered_wf [OF K tc] by (metis ft_def option.sel)
  qed
  have eta: "sc_new (sc_list_array (fc col)) (sc_descriptor col) = fc col" for col by (simp add: fc_def)
  have cols: "collect_columns fl (ch_components ch) = Some (map (\<lambda>(c, col). (c, fc col)) (ch_components ch))"
    using collect_columns_eq [OF chunk_wfD(3) [OF wf], of fl "\<lambda>col. sc_list_array (fc col)"] fc
    unfolding eta by blast
  have tls: "traverse (\<lambda>(name, tc). map_option (Pair name) (tc_filtered K tc m)) (ch_timelines ch)
      = Some (map (\<lambda>(k, tc). (k, ft tc)) (ch_timelines ch))"
    by (rule traverse_values) (use ft in blast)
  let ?m = "\<lparr>ch_id = new_id, ch_entity_path = ch_entity_path ch, ch_heap_size_bytes = 0,
    ch_is_sorted = b, ch_row_ids = gather (ch_row_ids ch) ?is,
    ch_timelines = map (\<lambda>(k, tc). (k, ft tc)) (ch_timelines ch),
    ch_components = map (\<lambda>(c, col). (c, fc col)) (ch_components ch)\<rparr>"
  let ?ch' = "?m\<lparr>ch_is_sorted := b \<or> is_row_ids_sorted_uncached ?m\<rparr>"
  have eq: "filter_columns K new_id ch m post b = Some ?ch'"
    unfolding filter_columns_def ids tls cols [unfolded fl_def] by simp
  have "mask_select m (ch_row_ids ch) = gather (ch_row_ids ch) ?is"
    using mask_select_gather [of m "ch_row_ids ch"] m by (simp add: num_rows_def)
  with srt have srt': "ch_is_sorted ?ch' = sorted (ch_row_ids ?ch')"
    by (auto simp: is_row_ids_sorted_uncached_def)
  have "rows_gathered ch ?is ?ch'" "chunk_wf ?ch'"
    by (rule gathered_chunk [OF wf _ srt', where ft = ft and fc = fc]; (use ft in blast | use fc in blast)?; simp)+
  moreover have "\<exists>la. map_of (ch_components ?ch') c = Some (sc_new (post col la) (sc_descriptor col))"
    if "map_of (ch_components ch) c = Some col" for c col
    using fc [OF map_of_SomeD [OF that]] that by (auto simp: map_of_map_values)
  ultimately show ?thesis using that eq by blast
qed

lemma mask_select_filter: "mask_select (map P xs) xs = filter P xs"
  by (induction xs) auto

lemma mask_select_rows:
  assumes "rows_gathered ch (mask_select m [0..<num_rows ch]) ch'" "length m = num_rows ch"
  shows "chunk_rows ch' = mask_select m (chunk_rows ch)"
proof -
  have "set (mask_select m [0..<num_rows ch]) \<subseteq> {..<num_rows ch}"
    using set_mask_select [of m "[0..<num_rows ch]"] by auto
  then show ?thesis
    using rows_gathered_rows [OF assms(1)] mask_select_gather [of m "chunk_rows ch"] assms(2) by simp
qed

lemma row_sliced_impl_clip:
  "row_sliced_impl K new_id ch index len deep =
     (if index \<ge> num_rows ch \<or> len = 0 then Some (emptied new_id ch)
      else row_sliced_impl K new_id ch index (min len (num_rows ch - index)) deep)"
proof (cases "num_rows ch \<le> index \<or> len = 0")
  case False
  then have "min (index + len) (num_rows ch) - index = min len (num_rows ch - index)"
    "min (index + min len (num_rows ch - index)) (num_rows ch) - index = min len (num_rows ch - index)"
    by auto
  with False show ?thesis by (simp only: row_sliced_impl_def Let_def) simp
qed (auto simp: row_sliced_impl_def)

lemma row_sliced_gathers:
  assumes K: "arrow_laws K" and wf: "chunk_wf ch"
  obtains ch' where "row_sliced_impl K new_id ch index len deep = Some ch'" "chunk_wf ch'"
    "chunk_rows ch' = take len (drop index (chunk_rows ch))"
proof (cases "num_rows ch \<le> index \<or> len = 0")
  case True
  then show ?thesis
    using that [of "emptied new_id ch"] emptied_gathers(2) [OF wf]
    by (auto simp: row_sliced_impl_clip [of K new_id ch index len])
next
  case False
  let ?len = "min len (num_rows ch - index)"
  have b: "index + ?len \<le> num_rows ch" "?len \<noteq> 0" using False by auto
  obtain ch' where ch': "row_sliced_impl K new_id ch index ?len deep = Some ch'"
      "rows_gathered ch [index..<index + ?len] ch'" "chunk_wf ch'"
    using row_slice_columns [OF K wf b] by blast
  have "chunk_rows ch' = gather (chunk_rows ch) [index..<index + ?len]"
    by (rule rows_gathered_rows [OF ch'(2)]) (use b in auto)
  also have "\<dots> = take ?len (drop index (chunk_rows ch))" using b by (simp add: slice_gather)
  also have "\<dots> = take len (drop index (chunk_rows ch))" by (simp add: min_def)
  finally show ?thesis using that ch' False row_sliced_impl_clip [of K new_id ch index len deep] by simp
qed

section \<open>Properties\<close>

text \<open>C37: slicing a chunk vertically never panics, whatever the index and the length, shallow or deep:
  the result is well-formed and its rows are the rows of the chunk from the index on, as many as
  asked for or available.\<close>

theorem row_sliced_takes_rows:
  assumes "arrow_laws K" and "chunk_wf ch"
  shows "\<exists>ch'. row_sliced_impl K new_id ch index len deep = Some ch' \<and> chunk_wf ch'
    \<and> chunk_rows ch' = take len (drop index (chunk_rows ch))"
  using row_sliced_gathers [OF assms] by metis

theorem row_sliced_takes_rows_witness:
  "\<exists>ch'. row_sliced_impl list_kernels (demo_id 7) demo_chunk 1 9 True = Some ch'
    \<and> map r_id (chunk_rows ch') = [demo_id 2, demo_id 3]"
proof -
  have "map r_id (take 9 (drop 1 (chunk_rows demo_chunk))) = [demo_id 2, demo_id 3]"
    by (simp add: demo_rows chunk_row_def)
  then show ?thesis
    using row_sliced_takes_rows [OF arrow_laws_list_kernels demo_chunk_wf, of "demo_id 7" 1 9 True] by auto
qed

lemma filtered_rows:
  assumes K: "arrow_laws K" and wf: "chunk_wf ch"
  shows "if length m = num_rows ch
    then \<exists>ch'. filtered K new_id ch m = Some (Some ch') \<and> chunk_wf ch'
      \<and> chunk_rows ch' = mask_select m (chunk_rows ch)
    else filtered K new_id ch m = Some None"
proof (cases "length m = num_rows ch")
  case m: True
  have len: "length (mask_select m (chunk_rows ch)) = length (filter id m)"
    using m by (simp add: length_mask_select)
  show ?thesis
  proof (cases "num_rows ch = 0 \<or> length (filter id m) = 0")
    case True
    then have "mask_select m (chunk_rows ch) = []" using len m by auto
    moreover have "num_rows ch = 0 \<Longrightarrow> chunk_rows ch = []" by (simp add: chunk_rows_def)
    ultimately show ?thesis
      using True m wf emptied_gathers(2) [OF wf, of new_id]
      by (auto simp: filtered_def chunk_is_empty_def Let_def)
  next
    case False
    let ?b = "ch_is_sorted ch \<or> length (filter id m) < 2"
    have "sorted (mask_select m (ch_row_ids ch))" if ?b
      using that chunk_wfD(1) [OF wf] m
      by (auto simp: num_rows_def length_mask_select intro: sorted_mask_select sorted_length_less_2)
    then obtain ch' where "filter_columns K new_id ch m (\<lambda>_ la. la) ?b = Some ch'" "chunk_wf ch'"
        "rows_gathered ch (mask_select m [0..<num_rows ch]) ch'"
      using filter_columns_gathers [OF K wf m, of ?b "\<lambda>_ la. la"] by blast
    with False m show ?thesis
      by (simp add: filtered_def chunk_is_empty_def Let_def mask_select_rows)
  qed
qed (simp add: filtered_def)

text \<open>\<open>filtered\<close> returns \<open>None\<close> exactly when the mask has the wrong length; otherwise its rows are the
  rows the mask selects, in their order, and the result is well-formed.\<close>

theorem filtered_selects_rows:
  assumes K: "arrow_laws K" and wf: "chunk_wf ch"
  shows "if length m = num_rows ch
    then \<exists>ch'. filtered K new_id ch m = Some (Some ch') \<and> chunk_wf ch'
      \<and> chunk_rows ch' = mask_select m (chunk_rows ch)
    else filtered K new_id ch m = Some None"
  by (rule filtered_rows [OF assms])

theorem filtered_selects_rows_witness:
  "\<exists>ch'. filtered list_kernels (demo_id 7) demo_chunk [True, False, True] = Some (Some ch')
    \<and> map r_id (chunk_rows ch') = [demo_id 1, demo_id 3]"
proof -
  have "map r_id (mask_select [True, False, True] (chunk_rows demo_chunk)) = [demo_id 1, demo_id 3]"
    by (simp add: demo_rows chunk_row_def)
  then show ?thesis
    using filtered_selects_rows [OF arrow_laws_list_kernels demo_chunk_wf, of "[True, False, True]" "demo_id 7"]
    by auto
qed

lemma la_wf_drop_nulls: "la_wf la \<Longrightarrow> la_wf (la\<lparr>la_nulls := None\<rparr>)"
  by (simp add: la_wf_def)

lemma la_iter_drop_nulls:
  assumes "None \<notin> set (la_iter la)"
  shows "la_iter (la\<lparr>la_nulls := None\<rparr>) = la_iter la"
proof (rule la_iter_eqI)
  fix i assume i: "i < la_len la"
  then have "la_iter la ! i \<noteq> None" using assms by (metis length_la_iter nth_mem)
  with i show "(if la_is_valid (la\<lparr>la_nulls := None\<rparr>) i then Some (la_value (la\<lparr>la_nulls := None\<rparr>) i) else None)
      = la_iter la ! i"
    by (simp add: la_iter_nth la_is_valid_def [of "la\<lparr>la_nulls := None\<rparr>"] la_value_def split: if_splits)
qed (simp_all add: la_len_def)

lemma mask_select_valid:
  assumes "la_wf la" "la_nulls la = Some v"
  shows "v = map (\<lambda>r. r \<noteq> None) (la_iter la)"
  by (rule nth_equalityI)
    (use assms in \<open>auto simp: la_wf_def la_iter_nth la_is_valid_def split: if_splits\<close>)

lemma cells_column:
  assumes "chunk_wf ch" "map_of (ch_components ch) c = Some col"
  shows "map (\<lambda>r. r_cells r c) (chunk_rows ch) = la_iter (sc_list_array col)"
  by (rule nth_equalityI)
    (use assms columns_okD(3) [OF chunk_wfD(3) [OF assms(1)] assms(2)] in
      \<open>auto simp: chunk_row_def cell_at_def\<close>)

lemma densified_column:
  assumes K: "arrow_laws K" and wf: "chunk_wf ch" and "num_rows ch \<noteq> 0"
    and col: "map_of (ch_components ch) c = Some col" and v: "la_nulls (sc_list_array col) = Some v"
  obtains ch' col' where "densified K new_id ch c = Some (ch', True)" "chunk_wf ch'"
    "chunk_rows ch' = filter (\<lambda>r. r_cells r c \<noteq> None) (chunk_rows ch)"
    "map_of (ch_components ch') c = Some col'" "la_nulls (sc_list_array col') = None"
proof -
  let ?post = "\<lambda>col filtered. if cd_component (sc_descriptor col) = c
    then filtered\<lparr>la_nulls := None\<rparr> else filtered"
  let ?b = "ch_is_sorted ch \<or> length (filter id v) < 2"
  note col' = columns_okD [OF chunk_wfD(3) [OF wf] col]
  have lv: "length v = num_rows ch" using col' v by (simp add: la_wf_def)
  have veq0: "v = map (\<lambda>r. r \<noteq> None) (la_iter (sc_list_array col))"
    by (rule mask_select_valid [OF col'(2) v])
  have veq: "v = map (\<lambda>r. r_cells r c \<noteq> None) (chunk_rows ch)"
    unfolding veq0 cells_column [OF wf col, symmetric] by (simp only: map_map comp_def)
  have post: "la_wf (?post col0 la) \<and> la_iter (?post col0 la) = la_iter la"
    if "(c0, col0) \<in> set (ch_components ch)" "la_wf la"
      "la_iter la = mask_select v (la_iter (sc_list_array col0))" for c0 col0 la
  proof (cases "cd_component (sc_descriptor col0) = c")
    case True
    have "distinct (map fst (ch_components ch))" "c0 = c"
      using True that(1) wf by (auto simp: chunk_wf_def columns_ok_def)
    then have "col0 = col" using that(1) col by simp
    then have "la_iter la = mask_select v (la_iter (sc_list_array col))" using that(3) by simp
    also have "\<dots> = filter (\<lambda>r. r \<noteq> None) (la_iter (sc_list_array col))"
      unfolding veq0 by (rule mask_select_filter)
    finally have "None \<notin> set (la_iter la)" by simp
    with True that(2) show ?thesis by (simp add: la_wf_drop_nulls la_iter_drop_nulls)
  qed (simp add: that)
  have srt: "sorted (mask_select v (ch_row_ids ch))" if ?b
    using that chunk_wfD(1) [OF wf] lv
    by (auto simp: num_rows_def length_mask_select intro: sorted_mask_select sorted_length_less_2)
  obtain ch' where ch': "filter_columns K new_id ch v ?post ?b = Some ch'"
      "rows_gathered ch (mask_select v [0..<num_rows ch]) ch'" "chunk_wf ch'"
      "\<forall>c0 col0. map_of (ch_components ch) c0 = Some col0 \<longrightarrow>
        (\<exists>la. map_of (ch_components ch') c0 = Some (sc_new (?post col0 la) (sc_descriptor col0)))"
    by (rule filter_columns_gathers [OF K wf lv, where b = ?b and post = ?post and new_id = new_id];
        (erule srt | erule (2) post | erule (3) that))
  obtain la where la: "map_of (ch_components ch') c = Some (sc_new (la\<lparr>la_nulls := None\<rparr>) (sc_descriptor col))"
    using ch'(4) [rule_format, OF col] col'(1) by auto
  have "chunk_rows ch' = mask_select v (chunk_rows ch)" by (rule mask_select_rows [OF ch'(2) lv])
  also have "\<dots> = filter (\<lambda>r. r_cells r c \<noteq> None) (chunk_rows ch)"
    unfolding veq by (rule mask_select_filter)
  finally have rows: "chunk_rows ch' = filter (\<lambda>r. r_cells r c \<noteq> None) (chunk_rows ch)" .
  have "densified K new_id ch c = Some (ch', True)"
    using assms(3) col v ch'(1) by (simp add: densified_def chunk_is_empty_def get_array_def)
  then show ?thesis using that [OF _ ch'(3) rows la] by simp
qed

lemma densified_rows:
  assumes K: "arrow_laws K" and wf: "chunk_wf ch"
    and col: "map_of (ch_components ch) c = Some col"
  shows "\<exists>ch' changed. densified K new_id ch c = Some (ch', changed) \<and> chunk_wf ch'
    \<and> chunk_rows ch' = filter (\<lambda>r. r_cells r c \<noteq> None) (chunk_rows ch)
    \<and> (\<forall>r\<in>set (chunk_rows ch'). r_cells r c \<noteq> None) \<and> (\<not> changed \<longrightarrow> ch' = ch)"
proof (cases "num_rows ch = 0 \<or> la_nulls (sc_list_array col) = None")
  case True
  have dense: "r_cells r c \<noteq> None" if "r \<in> set (chunk_rows ch)" for r
  proof -
    have "num_rows ch \<noteq> 0" using that by (auto simp: chunk_rows_def)
    then have "None \<notin> set (la_iter (sc_list_array col))"
      using True by (auto simp: la_iter_def la_is_valid_def)
    moreover have "r_cells r c \<in> set (la_iter (sc_list_array col))"
      using that cells_column [OF wf col] by (metis list.set_map imageI)
    ultimately show ?thesis by (cases "r_cells r c") simp_all
  qed
  then have "filter (\<lambda>r. r_cells r c \<noteq> None) (chunk_rows ch) = chunk_rows ch" by simp
  moreover have "densified K new_id ch c = Some (ch, False)"
    using True col by (auto simp: densified_def chunk_is_empty_def get_array_def)
  ultimately show ?thesis using wf dense by auto
next
  case False
  then obtain v where "la_nulls (sc_list_array col) = Some v" by auto
  with False obtain ch' where "densified K new_id ch c = Some (ch', True)" "chunk_wf ch'"
    "chunk_rows ch' = filter (\<lambda>r. r_cells r c \<noteq> None) (chunk_rows ch)"
    using densified_column [OF K wf _ col, where v = v and new_id = new_id] by blast
  then show ?thesis by (intro exI [of _ ch'] exI [of _ True]) simp
qed

text \<open>Densifying a chunk on a component drops exactly the rows where the component has no value and
  leaves its column without a validity bitmap; when there is nothing to drop the chunk is returned
  unchanged.\<close>

theorem densified_drops_null_rows:
  assumes K: "arrow_laws K" and wf: "chunk_wf ch"
    and col: "map_of (ch_components ch) c = Some col"
  shows "\<exists>ch' changed. densified K new_id ch c = Some (ch', changed) \<and> chunk_wf ch'
    \<and> chunk_rows ch' = filter (\<lambda>r. r_cells r c \<noteq> None) (chunk_rows ch)
    \<and> (\<forall>r\<in>set (chunk_rows ch'). r_cells r c \<noteq> None) \<and> (\<not> changed \<longrightarrow> ch' = ch)"
  by (rule densified_rows [OF assms])

theorem densified_drops_null_rows_witness:
  "\<exists>ch' changed. densified list_kernels (demo_id 7) demo_chunk ''pos'' = Some (ch', changed)
    \<and> map r_id (chunk_rows ch') = [demo_id 1, demo_id 3]"
proof -
  have "map r_id (filter (\<lambda>r. r_cells r ''pos'' \<noteq> None) (chunk_rows demo_chunk)) = [demo_id 1, demo_id 3]"
    by (simp add: demo_rows chunk_row_def cell_at_def demo_column_def)
  then show ?thesis
    using densified_drops_null_rows [OF arrow_laws_list_kernels demo_chunk_wf, of "''pos''" demo_column "demo_id 7"]
    by (force simp del: demo_chunk_sel(3,4))
qed

section \<open>Vertical operations as row operations\<close>

lemma mset_mask_select: "mset (mask_select m xs) \<subseteq># mset xs"
proof (induction m xs rule: mask_select.induct)
  case (1 b bs x xs)
  then show ?case by (cases b) (auto intro: subset_mset.order_trans)
qed auto

interpretation slice: row_selection "\<lambda>ch. arrow_laws K \<and> chunk_wf ch"
  "\<lambda>ch. row_sliced_impl K new_id ch index len deep" "\<lambda>rows. take len (drop index rows)"
  for K new_id index len deep
proof
  fix rows :: "'a row list"
  have "mset (take len (drop index rows)) \<subseteq># mset (drop index rows)"
    by (metis append_take_drop_id mset_append mset_subset_eq_add_left)
  also have "\<dots> \<subseteq># mset rows" by (metis append_take_drop_id mset_append mset_subset_eq_add_right)
  finally show "mset (take len (drop index rows)) \<subseteq># mset rows" .
qed (metis row_sliced_gathers)

interpretation filtering: row_selection "\<lambda>ch. arrow_laws K \<and> chunk_wf ch \<and> length m = num_rows ch"
  "\<lambda>ch. Option.bind (filtered K new_id ch m) (\<lambda>x. x)" "mask_select m" for K new_id m
proof
  fix ch :: "'a Chunk" assume "arrow_laws K \<and> chunk_wf ch \<and> length m = num_rows ch"
  then show "\<exists>ch'. Option.bind (filtered K new_id ch m) (\<lambda>x. x) = Some ch' \<and> chunk_wf ch'
      \<and> chunk_rows ch' = mask_select m (chunk_rows ch)"
    using filtered_rows [of K ch m new_id] by auto
qed (rule mset_mask_select)

interpretation densify: row_selection
  "\<lambda>ch. arrow_laws K \<and> chunk_wf ch \<and> map_of (ch_components ch) c \<noteq> None"
  "\<lambda>ch. map_option fst (densified K new_id ch c)" "filter (\<lambda>r. r_cells r c \<noteq> None)" for K new_id c
proof
  fix ch :: "'a Chunk" assume "arrow_laws K \<and> chunk_wf ch \<and> map_of (ch_components ch) c \<noteq> None"
  then show "\<exists>ch'. map_option fst (densified K new_id ch c) = Some ch' \<and> chunk_wf ch'
      \<and> chunk_rows ch' = filter (\<lambda>r. r_cells r c \<noteq> None) (chunk_rows ch)"
    using densified_rows [of K ch c _ new_id] by fastforce
qed (simp add: multiset_filter_subset)

section \<open>Horizontal slicing\<close>

lemma columns_ok_map_of:
  "columns_ok n comps \<longleftrightarrow> distinct (map fst comps) \<and> (\<forall>c col. map_of comps c = Some col \<longrightarrow>
     cd_component (sc_descriptor col) = c \<and> la_wf (sc_list_array col) \<and> la_len (sc_list_array col) = n)"
  by (auto simp: columns_ok_def dest: map_of_SomeD)

lemma distinct_fold_components_insert:
  "distinct (map fst m) \<Longrightarrow> distinct (map fst (fold components_insert cols m))"
  by (induction cols arbitrary: m) (auto simp: components_insert_def distinct_al_insert)

lemma sc_new_eta [simp]: "sc_new (sc_list_array col) (sc_descriptor col) = col"
  by (simp add: sc_new_def)

lemma map_of_components_kept:
  assumes "columns_ok n comps"
  shows "map_of (fold components_insert (List.map_filter (map_of comps) keep) m) c
    = (if c \<in> set keep \<and> map_of comps c \<noteq> None then map_of comps c else map_of m c)"
proof (induction keep arbitrary: m)
  case (Cons k keep)
  show ?case
  proof (cases "map_of comps k")
    case None
    then show ?thesis using Cons.IH [of m] by (auto simp: map_filter_simps)
  next
    case (Some col)
    then have "cd_component (sc_descriptor col) = k" using columns_okD(1) [OF assms Some] by simp
    then show ?thesis using Some Cons.IH [of "components_insert col m"]
      by (auto simp: map_filter_simps components_insert_def)
  qed
qed (simp add: map_filter_simps)

lemma map_of_filter_key: "map_of (filter (\<lambda>(k, _). P k) m) k = (if P k then map_of m k else None)"
  by (induction m) auto

lemma rows_restrict_components:
  assumes "ch_row_ids ch' = ch_row_ids ch" "ch_timelines ch' = ch_timelines ch"
    and "\<And>c. map_of (ch_components ch') c = (if c \<in> S then map_of (ch_components ch) c else None)"
  shows "chunk_rows ch' = map (\<lambda>r. r\<lparr>r_cells := r_cells r |` S\<rparr>) (chunk_rows ch)"
  by (rule nth_equalityI) (auto simp: assms num_rows_def chunk_row_def time_at_def [abs_def]
      cell_at_def [abs_def] restrict_map_def)

lemma rows_restrict_timelines:
  assumes "ch_row_ids ch' = ch_row_ids ch" "ch_components ch' = ch_components ch"
    and "\<And>k. map_of (ch_timelines ch') k = (if k \<in> S then map_of (ch_timelines ch) k else None)"
  shows "chunk_rows ch' = map (\<lambda>r. r\<lparr>r_times := r_times r |` S\<rparr>) (chunk_rows ch)"
  by (rule nth_equalityI) (auto simp: assms num_rows_def chunk_row_def time_at_def [abs_def]
      cell_at_def [abs_def] restrict_map_def)

lemma components_sliced_lookup:
  assumes "chunk_wf ch"
  shows "map_of (ch_components (components_sliced new_id ch keep)) c
    = (if c \<in> set keep then map_of (ch_components ch) c else None)"
  using map_of_components_kept [OF chunk_wfD(3) [OF assms], of keep "[]" c]
  by (auto simp: components_sliced_def components_from_iter_def option.map_ident)

lemma components_dropped_lookup:
  assumes wf: "chunk_wf ch"
  shows "map_of (ch_components (components_dropped new_id ch drop0)) c
    = (if c \<in> - set drop0 then map_of (ch_components ch) c else None)"
proof (cases "\<exists>(c, _) \<in> set (ch_components ch). c \<in> set drop0")
  case True
  let ?f = "filter (\<lambda>(c, _). c \<notin> set drop0) (ch_components ch)"
  have d: "distinct (map fst ?f)"
    using wf by (simp add: chunk_wf_def columns_ok_def distinct_map_filter)
  have "components_from_iter (map (\<lambda>(_, col). sc_new (sc_list_array col) (sc_descriptor col)) ?f)
      = map (\<lambda>(c, col). (c, sc_new (sc_list_array col) (sc_descriptor col))) ?f"
    by (rule components_rebuild [OF d]) (use wf in \<open>auto simp: chunk_wf_def columns_ok_def\<close>)
  with True show ?thesis by (simp add: components_dropped_def map_of_filter_key)
next
  case False
  then have "map_of (ch_components ch) c = None" if "c \<in> set drop0"
    using that by (auto simp: map_of_eq_None_iff)
  with False show ?thesis by (auto simp: components_dropped_def)
qed

lemma components_dropped_sel:
  "ch_row_ids (components_dropped new_id ch d) = ch_row_ids ch"
  "ch_timelines (components_dropped new_id ch d) = ch_timelines ch"
  "ch_is_sorted (components_dropped new_id ch d) = ch_is_sorted ch"
  by (simp_all add: components_dropped_def)

lemma chunk_wf_fewer_components:
  assumes wf: "chunk_wf ch" and "ch_row_ids ch' = ch_row_ids ch" "ch_timelines ch' = ch_timelines ch"
    "ch_is_sorted ch' = ch_is_sorted ch" "distinct (map fst (ch_components ch'))"
    "\<And>c. map_of (ch_components ch') c = (if c \<in> S then map_of (ch_components ch) c else None)"
  shows "chunk_wf ch'"
  using wf assms(2-) by (auto simp: chunk_wf_def num_rows_def columns_ok_map_of split: if_splits)

text \<open>Slicing a chunk horizontally keeps every row and its id and drops only the columns it should:
  the times of the timelines that are not kept, the cells of the components that are not kept, or
  those of the components that are dropped. The result is well-formed.\<close>

theorem horizontal_slices_restrict_rows:
  assumes wf: "chunk_wf ch"
  shows "chunk_wf (timelines_sliced new_id ch tls) \<and> chunk_wf (components_sliced new_id ch comps)
    \<and> chunk_wf (components_dropped new_id ch comps)
    \<and> chunk_rows (timelines_sliced new_id ch tls) = map (\<lambda>r. r\<lparr>r_times := r_times r |` set tls\<rparr>) (chunk_rows ch)
    \<and> chunk_rows (components_sliced new_id ch comps) = map (\<lambda>r. r\<lparr>r_cells := r_cells r |` set comps\<rparr>) (chunk_rows ch)
    \<and> chunk_rows (components_dropped new_id ch comps) = map (\<lambda>r. r\<lparr>r_cells := r_cells r |` (- set comps)\<rparr>) (chunk_rows ch)"
proof (intro conjI)
  show "chunk_wf (timelines_sliced new_id ch tls)"
    using wf by (auto simp: chunk_wf_def timelines_sliced_def num_rows_def timelines_ok_def distinct_map_filter)
  have "distinct (map fst (components_from_iter cols))" for cols :: "'a SerializedComponentColumn list"
    by (simp add: components_from_iter_def distinct_fold_components_insert)
  then have d: "distinct (map fst (ch_components (components_sliced new_id ch comps)))"
    "distinct (map fst (ch_components (components_dropped new_id ch comps)))"
    using wf by (auto simp: components_sliced_def components_dropped_def chunk_wf_def columns_ok_def)
  show "chunk_wf (components_sliced new_id ch comps)"
    by (rule chunk_wf_fewer_components [OF wf _ _ _ d(1) components_sliced_lookup [OF wf]])
      (simp_all add: components_sliced_def)
  show "chunk_wf (components_dropped new_id ch comps)"
    by (rule chunk_wf_fewer_components [OF wf _ _ _ d(2) components_dropped_lookup [OF wf]])
      (simp_all add: components_dropped_sel)
  show "chunk_rows (timelines_sliced new_id ch tls) = map (\<lambda>r. r\<lparr>r_times := r_times r |` set tls\<rparr>) (chunk_rows ch)"
    by (rule rows_restrict_timelines) (simp_all add: timelines_sliced_def map_of_filter_key)
  show "chunk_rows (components_sliced new_id ch comps) = map (\<lambda>r. r\<lparr>r_cells := r_cells r |` set comps\<rparr>) (chunk_rows ch)"
    by (rule rows_restrict_components [OF _ _ components_sliced_lookup [OF wf]])
      (simp_all add: components_sliced_def)
  show "chunk_rows (components_dropped new_id ch comps)
      = map (\<lambda>r. r\<lparr>r_cells := r_cells r |` (- set comps)\<rparr>) (chunk_rows ch)"
    by (rule rows_restrict_components [OF _ _ components_dropped_lookup [OF wf]])
      (simp_all add: components_dropped_sel)
qed

theorem horizontal_slices_restrict_rows_witness:
  "map r_id (chunk_rows (components_dropped (demo_id 7) demo_chunk [''pos'']))
    = [demo_id 1, demo_id 2, demo_id 3]"
  using horizontal_slices_restrict_rows [OF demo_chunk_wf, of "demo_id 7" "[]" "[''pos'']"]
  by (simp add: demo_rows chunk_row_def)

section \<open>Gathering and deduplicating\<close>

lemma take_columns_gathers:
  fixes ch :: "'c Chunk"
  assumes K: "arrow_laws K" and wf: "chunk_wf ch" and ne: "is \<noteq> []" and sub: "set is \<subseteq> {..<num_rows ch}"
  obtains ch' where "take_columns K new_id ch is b = Some ch'" "rows_gathered ch is ch'"
    "ch_row_ids ch' = gather (ch_row_ids ch) is"
    "b = sorted (gather (ch_row_ids ch) is) \<and>
      (\<forall>(k, tc) \<in> set (ch_timelines ch). sorted (gather (tc_times tc) is) = tc_is_sorted tc) \<longrightarrow> chunk_wf ch'"
proof -
  define tk where "tk = (\<lambda>col :: 'c SerializedComponentColumn. take_list K (sc_list_array col) is)"
  define fc where "fc = (\<lambda>col :: 'c SerializedComponentColumn. sc_new (the (tk col)) (sc_descriptor col))"
  define ft where "ft = (\<lambda>tc :: TimeColumn. tc_new (Some (tc_is_sorted tc)) (tc_timeline tc) (gather (tc_times tc) is))"
  have ids: "take_row_ids K (ch_row_ids ch) is = Some (gather (ch_row_ids ch) is)"
    by (rule take_row_ids_eq [OF K]) (use ne sub in \<open>auto simp: num_rows_def\<close>)
  have fc: "tk col = Some (sc_list_array (fc col)) \<and> la_wf (sc_list_array (fc col))
      \<and> sc_descriptor (fc col) = sc_descriptor col
      \<and> la_iter (sc_list_array (fc col)) = gather (la_iter (sc_list_array col)) is"
    if "(c, col) \<in> set (ch_components ch)" for c col
  proof -
    have la: "la_wf (sc_list_array col)" "is \<noteq> [] \<or> la_len (sc_list_array col) \<noteq> 0"
        "set is \<subseteq> {..<la_len (sc_list_array col)}"
      using chunk_wf_column [OF wf that] ne sub by simp_all
    from take_list_rows [OF K la] show ?thesis
      by (rule list_with_rowsE) (simp add: tk_def fc_def)
  qed
  have ft: "tc_taken K tc is = Some (ft tc)" if "(k, tc) \<in> set (ch_timelines ch)" for k tc
  proof -
    have "set is \<subseteq> {..<tc_num_rows tc}" "is \<noteq> [] \<or> tc_num_rows tc \<noteq> 0"
      using chunk_wf_timeline [OF wf that] ne sub by (simp_all add: tc_num_rows_def)
    from tc_taken_times [OF K this] show ?thesis by (metis ft_def)
  qed
  have eta: "sc_new (sc_list_array (fc col)) (sc_descriptor col) = fc col" for col by (simp add: fc_def)
  have cols: "collect_columns tk (ch_components ch) = Some (map (\<lambda>(c, col). (c, fc col)) (ch_components ch))"
    using collect_columns_eq [OF chunk_wfD(3) [OF wf], of tk "\<lambda>col. sc_list_array (fc col)"] fc
    unfolding eta by blast
  have tls: "traverse (\<lambda>(name, tc). map_option (Pair name) (tc_taken K tc is)) (ch_timelines ch)
      = Some (map (\<lambda>(k, tc). (k, ft tc)) (ch_timelines ch))"
    by (rule traverse_values) (use ft in blast)
  let ?ch' = "\<lparr>ch_id = new_id, ch_entity_path = ch_entity_path ch, ch_heap_size_bytes = 0,
    ch_is_sorted = b, ch_row_ids = gather (ch_row_ids ch) is,
    ch_timelines = map (\<lambda>(k, tc). (k, ft tc)) (ch_timelines ch),
    ch_components = map (\<lambda>(c, col). (c, fc col)) (ch_components ch)\<rparr>"
  have eq: "take_columns K new_id ch is b = Some ?ch'"
    unfolding take_columns_def ids tls cols [unfolded tk_def] by simp
  have g: "rows_gathered ch is ?ch'"
    by (rule gathered_rows [where ft = ft and fc = fc]; (use fc in blast)?; simp add: ft_def)
  have "chunk_wf ?ch'" if srt: "b = sorted (gather (ch_row_ids ch) is)"
    and flags: "\<forall>(k, tc) \<in> set (ch_timelines ch). sorted (gather (tc_times tc) is) = tc_is_sorted tc"
  proof -
    have "tc_wf (ft tc)" if tc: "(k, tc) \<in> set (ch_timelines ch)" for k tc
    proof -
      have "times_valid (tc_times tc)" "set is \<subseteq> {..<length (tc_times tc)}"
        using chunk_wf_timeline [OF wf tc] sub by (simp_all add: tc_wf_def)
      then have "times_valid (gather (tc_times tc) is)"
        using set_gather_subset times_valid_subset by blast
      then show ?thesis unfolding ft_def using flags tc by (intro tc_wf_new) auto
    qed
    then show ?thesis
      by (intro gathered_chunk(2) [OF wf, where ch' = ?ch' and ft = ft and fc = fc];
          (use fc in blast)?; simp add: srt) (simp add: ft_def)
  qed
  then show ?thesis using that [OF eq g] by simp
qed

fun last_of_runs :: "('a \<Rightarrow> 'b) \<Rightarrow> 'a list \<Rightarrow> 'a list" where
  "last_of_runs f (x # y # zs) = (if f x = f y then last_of_runs f (y # zs) else x # last_of_runs f (y # zs))"
| "last_of_runs f xs = xs"

lemma dedup_nonempty: "xs \<noteq> [] \<Longrightarrow> \<exists>n rest. dedup_with_count xs = (Suc n, hd xs) # rest"
proof (induction xs)
  case (Cons x xs)
  then show ?case by (cases "xs = []") (auto split: list.splits)
qed simp

lemma run_ends_dedup_Cons:
  "run_ends k (dedup_with_count (x # y # zs))
    = (if x = y then [] else [k]) @ run_ends (Suc k) (dedup_with_count (y # zs))"
proof -
  obtain n rest where "dedup_with_count (y # zs) = (Suc n, y) # rest"
    using dedup_nonempty [of "y # zs"] by auto
  then show ?thesis by (simp del: dedup_with_count.simps add: dedup_with_count.simps(2) [of x])
qed

lemma run_ends_dedup:
  "gather (pre @ xs) (run_ends (length pre) (dedup_with_count (map f xs))) = last_of_runs f xs
   \<and> sorted_wrt (<) (run_ends (length pre) (dedup_with_count (map f xs)))
   \<and> set (run_ends (length pre) (dedup_with_count (map f xs))) \<subseteq> {length pre..<length pre + length xs}"
proof (induction f xs arbitrary: pre rule: last_of_runs.induct)
  case (1 f x y zs)
  have l: "Suc (length pre) = length (pre @ [x])" by simp
  have ih: "gather ((pre @ [x]) @ y # zs) (run_ends (length (pre @ [x])) (dedup_with_count (map f (y # zs))))
      = last_of_runs f (y # zs)
    \<and> sorted_wrt (<) (run_ends (length (pre @ [x])) (dedup_with_count (map f (y # zs))))
    \<and> set (run_ends (length (pre @ [x])) (dedup_with_count (map f (y # zs))))
        \<subseteq> {length (pre @ [x])..<length (pre @ [x]) + length (y # zs)}"
    by (cases "f x = f y") (use 1 in blast)+
  show ?case
    unfolding list.map run_ends_dedup_Cons l
    using ih by (auto simp: gather_def nth_append simp del: dedup_with_count.simps)
qed (simp_all add: gather_def)

lemma rows_update_is_sorted [simp]: "chunk_rows (ch\<lparr>ch_is_sorted := b\<rparr>) = chunk_rows ch"
  by (simp add: chunk_rows_def num_rows_def chunk_row_def time_at_def [abs_def] cell_at_def [abs_def])

text \<open>\<open>taken\<close> returns the rows at the given indices, in the given order and with repetitions, for
  any indices inside the chunk; when the chunk and all its timelines are sorted and the indices do
  not go back, the result is well-formed.\<close>

theorem taken_gathers_rows:
  assumes K: "arrow_laws K" and wf: "chunk_wf ch" and sub: "set is \<subseteq> {..<num_rows ch}"
  shows "\<exists>ch'. taken K new_id ch is = Some ch' \<and> chunk_rows ch' = gather (chunk_rows ch) is
    \<and> (sorted is \<and> ch_is_sorted ch \<and> all_timelines_sorted ch \<longrightarrow> chunk_wf ch')"
proof (cases "is = [] \<or> num_rows ch = 0")
  case True
  then have "is = []" using sub by auto
  moreover have "num_rows ch = 0 \<Longrightarrow> chunk_rows ch = []" by (simp add: chunk_rows_def)
  ultimately show ?thesis
    using wf emptied_gathers(2) [OF wf, of new_id] by (simp add: taken_def chunk_is_empty_def gather_def)
next
  case False
  then have ne: "is \<noteq> []" by simp
  let ?b = "ch_is_sorted ch \<or> length is < 2"
  obtain ch' where ch': "take_columns K new_id ch is ?b = Some ch'" "rows_gathered ch is ch'"
    "ch_row_ids ch' = gather (ch_row_ids ch) is"
    "?b = sorted (gather (ch_row_ids ch) is) \<and>
      (\<forall>(k, tc) \<in> set (ch_timelines ch). sorted (gather (tc_times tc) is) = tc_is_sorted tc) \<longrightarrow> chunk_wf ch'"
    by (rule take_columns_gathers [OF K wf ne sub, where b = ?b and new_id = new_id])
  have "chunk_wf ch'" if "sorted is" "ch_is_sorted ch" "all_timelines_sorted ch"
  proof -
    have "sorted (gather (tc_times tc) is) = tc_is_sorted tc" if "(k, tc) \<in> set (ch_timelines ch)" for k tc
      using chunk_wf_timeline [OF wf that] \<open>sorted is\<close> \<open>all_timelines_sorted ch\<close> that sub
      by (auto simp: all_timelines_sorted_def tc_wf_def intro!: sorted_gather_mono)
    moreover have "sorted (gather (ch_row_ids ch) is)"
      using that(1,2) chunk_wfD(1) [OF wf] sub by (intro sorted_gather_mono) (simp_all add: num_rows_def)
    ultimately show ?thesis using ch'(4) that(2) by blast
  qed
  moreover have "chunk_wf (ch'\<lparr>ch_is_sorted := ?b \<or> is_row_ids_sorted_uncached ch'\<rparr>)"
    if w: "chunk_wf ch'" and s: "ch_is_sorted ch" "sorted is"
  proof -
    have "sorted (ch_row_ids ch')"
      using s chunk_wfD(1) [OF wf] sub unfolding ch'(3)
      by (intro sorted_gather_mono) (simp_all add: num_rows_def)
    then show ?thesis using w s by (simp add: chunk_wf_def num_rows_def is_row_ids_sorted_uncached_def)
  qed
  ultimately show ?thesis
    using False ch'(1) rows_gathered_rows [OF ch'(2) sub]
    by (simp add: taken_def chunk_is_empty_def Let_def)
qed

theorem taken_gathers_rows_witness:
  "\<exists>ch'. taken list_kernels (demo_id 7) demo_chunk [2, 0, 2] = Some ch'
    \<and> map r_id (chunk_rows ch') = [demo_id 3, demo_id 1, demo_id 3]"
proof -
  have "map r_id (gather (chunk_rows demo_chunk) [2, 0, 2]) = [demo_id 3, demo_id 1, demo_id 3]"
    by (simp add: gather_def chunk_row_def)
  then show ?thesis
    using taken_gathers_rows [OF arrow_laws_list_kernels demo_chunk_wf, of "[2, 0, 2]" "demo_id 7"] by force
qed

text \<open>\<open>deduped_latest_on_index\<close> keeps the last row of every run of equal times on the index, in
  order; for a chunk sorted on that index and by row id, with all timelines sorted, the remaining
  times are strictly increasing and the result is well-formed.\<close>

theorem deduped_keeps_last_of_runs:
  assumes K: "arrow_laws K" and wf: "chunk_wf ch" and "num_rows ch \<noteq> 0"
    and tc: "map_of (ch_timelines ch) index = Some tc"
  shows "\<exists>ch'. deduped_latest_on_index K new_id ch index = Some ch'
    \<and> chunk_rows ch' = last_of_runs (\<lambda>r. the (r_times r index)) (chunk_rows ch)
    \<and> (ch_is_sorted ch \<and> all_timelines_sorted ch \<longrightarrow> chunk_wf ch')"
proof -
  let ?f = "\<lambda>r. the (r_times r index)"
  define ends where "ends = run_ends 0 (dedup_with_count (tc_times tc))"
  have re: "gather (chunk_rows ch) ends = last_of_runs ?f (chunk_rows ch)"
    "sorted_wrt (<) ends" "set ends \<subseteq> {..<num_rows ch}"
    using run_ends_dedup [of "[]" "chunk_rows ch" ?f] by (auto simp: ends_def times_column [OF wf tc])
  have "tc_times tc \<noteq> []" using timelines_okD(2) [OF chunk_wfD(2) [OF wf] tc] assms(3) by auto
  then have ne: "ends \<noteq> []" using dedup_nonempty [of "tc_times tc"] by (auto simp: ends_def)
  have se: "sorted ends" using re(2) by (rule strict_sorted_imp_sorted)
  obtain ch' where ch': "take_columns K new_id ch ends (ch_is_sorted ch) = Some ch'" "rows_gathered ch ends ch'"
    "ch_row_ids ch' = gather (ch_row_ids ch) ends"
    "ch_is_sorted ch = sorted (gather (ch_row_ids ch) ends) \<and>
      (\<forall>(k, tc) \<in> set (ch_timelines ch). sorted (gather (tc_times tc) ends) = tc_is_sorted tc) \<longrightarrow> chunk_wf ch'"
    by (rule take_columns_gathers [OF K wf ne re(3), where b = "ch_is_sorted ch" and new_id = new_id])
  have "chunk_wf ch'" if "ch_is_sorted ch" "all_timelines_sorted ch"
  proof -
    have "sorted (gather (tc_times tc') ends) = tc_is_sorted tc'" if "(k, tc') \<in> set (ch_timelines ch)" for k tc'
      using chunk_wf_timeline [OF wf that] se \<open>all_timelines_sorted ch\<close> that re(3)
      by (auto simp: all_timelines_sorted_def tc_wf_def intro!: sorted_gather_mono)
    moreover have "sorted (gather (ch_row_ids ch) ends)"
      using that(1) chunk_wfD(1) [OF wf] se re(3) by (intro sorted_gather_mono) (simp_all add: num_rows_def)
    ultimately show ?thesis using ch'(4) that(1) by blast
  qed
  moreover have "\<not> chunk_is_static ch" using tc by (auto simp: chunk_is_static_def)
  ultimately show ?thesis
    using ch'(1) rows_gathered_rows [OF ch'(2) re(3)] re(1) assms(3) tc
    by (simp add: deduped_latest_on_index_def chunk_is_empty_def flip: ends_def)
qed

theorem deduped_keeps_last_of_runs_witness:
  "\<exists>ch'. deduped_latest_on_index list_kernels (demo_id 7) demo_chunk ''frame'' = Some ch'
    \<and> map r_id (chunk_rows ch') = [demo_id 1, demo_id 3]"
proof -
  have "map r_id (last_of_runs (\<lambda>r. the (r_times r ''frame'')) (chunk_rows demo_chunk)) = [demo_id 1, demo_id 3]"
    by (simp add: demo_rows chunk_row_def time_at_def)
  then show ?thesis
    using deduped_keeps_last_of_runs [OF arrow_laws_list_kernels demo_chunk_wf, of "''frame''" _ "demo_id 7"]
    by (force simp del: demo_chunk_sel(3))
qed

end
