(* ===== verification/Chunk_Merge.thy ===== *)
theory Chunk_Merge
  imports Chunk_Slice
begin

text \<open>
  Concatenating chunks (\<open>crates/store/re_chunk/src/merge.rs\<close>) and splitting them (\<open>split.rs\<close>).

  Two chunks can be concatenated when they agree on entity path, timelines and the datatypes of the
  components they share; a component only one of them has is padded with null rows. On rows the
  result is the concatenation. The padding reuses the flat values of the array, so it needs arrays
  whose offsets start at zero and whose null rows own no values (\<open>la_compact\<close>); the last section
  shows what happens to an array that was sliced without copying.
\<close>

section \<open>Operations\<close>

definition overlaps_on_row_id :: "'c Chunk \<Rightarrow> 'c Chunk \<Rightarrow> bool" where
  "overlaps_on_row_id cl cr =
     (case row_id_range cl of
        None \<Rightarrow> False
      | Some (cl0, cl1) \<Rightarrow>
          (case row_id_range cr of None \<Rightarrow> False | Some (cr0, cr1) \<Rightarrow> cl0 \<le> cr1 \<and> cr0 \<le> cl1))"

definition overlaps_on_time :: "'c Chunk \<Rightarrow> 'c Chunk \<Rightarrow> bool" where
  "overlaps_on_time lhs rhs \<longleftrightarrow> (\<exists>(timeline, cl_time) \<in> set (ch_timelines lhs).
     case map_of (ch_timelines rhs) timeline of
       None \<Rightarrow> False
     | Some cr_time \<Rightarrow> range_intersects (tc_time_range cl_time) (tc_time_range cr_time))"

definition same_entity_paths :: "'c Chunk \<Rightarrow> 'c Chunk \<Rightarrow> bool" where
  "same_entity_paths lhs rhs \<longleftrightarrow> ch_entity_path lhs = ch_entity_path rhs"

definition same_timelines :: "'c Chunk \<Rightarrow> 'c Chunk \<Rightarrow> bool" where
  "same_timelines lhs rhs \<longleftrightarrow> length (ch_timelines lhs) = length (ch_timelines rhs)
     \<and> (\<forall>(name, lhs_column) \<in> set (ch_timelines lhs).
          case map_of (ch_timelines rhs) name of
            None \<Rightarrow> False
          | Some rhs_column \<Rightarrow> tc_timeline lhs_column = tc_timeline rhs_column)"

definition same_datatypes :: "'c Chunk \<Rightarrow> 'c Chunk \<Rightarrow> bool" where
  "same_datatypes lhs rhs \<longleftrightarrow> (\<forall>(_, lhs_column) \<in> set (ch_components lhs).
     case map_of (ch_components rhs) (cd_component (sc_descriptor lhs_column)) of
       None \<Rightarrow> True
     | Some rhs_column \<Rightarrow>
         la_datatype (sc_list_array lhs_column) = la_datatype (sc_list_array rhs_column))"

definition concatenable :: "'c Chunk \<Rightarrow> 'c Chunk \<Rightarrow> bool" where
  "concatenable lhs rhs \<longleftrightarrow> same_entity_paths lhs rhs \<and> same_timelines lhs rhs \<and> same_datatypes lhs rhs"

definition not_concatenable_reason :: "'c Chunk \<Rightarrow> 'c Chunk \<Rightarrow> MalformedReason" where
  "not_concatenable_reason cl cr =
     (if ch_entity_path cl \<noteq> ch_entity_path cr then DifferentEntityPaths
      else if \<not> same_timelines cl cr then DifferentTimelines
      else if \<not> same_datatypes cl cr then DifferentDatatypes
      else IncompatibleChunks)"

fun traverse_result :: "('a \<Rightarrow> 'e + 'b) \<Rightarrow> 'a list \<Rightarrow> 'e + 'b list" where
  "traverse_result f [] = Inr []"
| "traverse_result f (x # xs) =
     (case f x of Inl e \<Rightarrow> Inl e
      | Inr y \<Rightarrow> (case traverse_result f xs of Inl e \<Rightarrow> Inl e | Inr ys \<Rightarrow> Inr (y # ys)))"

definition concat_timeline ::
    "'c Chunk \<Rightarrow> TimelineName \<times> TimeColumn \<Rightarrow> ChunkError + (TimelineName \<times> TimeColumn)" where
  "concat_timeline cr = (\<lambda>(name, lhs_column).
     case map_of (ch_timelines cr) name of
       None \<Rightarrow> Inl (Malformed (TimelineMissing name))
     | Some rhs_column \<Rightarrow>
         (case tc_concatenated lhs_column rhs_column of
            None \<Rightarrow> Inl (Malformed (TimelineDiffers name))
          | Some tc \<Rightarrow> Inr (name, tc)))"

text \<open>The two passes over the components. A concatenation the kernel refuses drops the column.\<close>

definition merge_lhs ::
    "'c arrow_kernels \<Rightarrow> 'c ChunkComponents \<Rightarrow> nat \<Rightarrow> 'c SerializedComponentColumn \<Rightarrow> 'c list_array option" where
  "merge_lhs K rhs_per_component n lhs_column =
     (case map_of rhs_per_component (cd_component (sc_descriptor lhs_column)) of
        Some rhs_column \<Rightarrow> concat_lists K (sc_list_array lhs_column) (sc_list_array rhs_column)
      | None \<Rightarrow> Some (pad_list_array_back (sc_list_array lhs_column) n))"

definition merge_rhs ::
    "'c arrow_kernels \<Rightarrow> 'c ChunkComponents \<Rightarrow> nat \<Rightarrow> 'c SerializedComponentColumn \<Rightarrow> 'c list_array option" where
  "merge_rhs K lhs_per_component n rhs_column =
     (case map_of lhs_per_component (cd_component (sc_descriptor rhs_column)) of
        Some lhs_column \<Rightarrow> concat_lists K (sc_list_array lhs_column) (sc_list_array rhs_column)
      | None \<Rightarrow> Some (pad_list_array_front (sc_list_array rhs_column) n))"

definition first_pass :: "'c arrow_kernels \<Rightarrow> 'c Chunk \<Rightarrow> 'c Chunk \<Rightarrow> 'c ChunkComponents" where
  "first_pass K cl cr = components_from_iter (List.map_filter (\<lambda>(_, col).
     map_option (\<lambda>la. sc_new la (sc_descriptor col))
       (merge_lhs K (ch_components cr) (num_rows cl + num_rows cr) col)) (ch_components cl))"

definition second_pass :: "'c arrow_kernels \<Rightarrow> 'c Chunk \<Rightarrow> 'c Chunk \<Rightarrow> 'c ChunkComponents \<Rightarrow> 'c ChunkComponents" where
  "second_pass K cl cr comps = List.map_filter (\<lambda>(_, col).
     if map_of comps (cd_component (sc_descriptor col)) \<noteq> None then None
     else map_option (\<lambda>la. (cd_component (sc_descriptor col), sc_new la (sc_descriptor col)))
       (merge_rhs K (ch_components cl) (num_rows cl + num_rows cr) col)) (ch_components cr)"

definition concatenated ::
    "'c build \<Rightarrow> 'c arrow_kernels \<Rightarrow> ChunkId \<Rightarrow> 'c Chunk \<Rightarrow> 'c Chunk \<Rightarrow> ChunkError + 'c Chunk" where
  "concatenated B K new_id cl cr =
     (if \<not> concatenable cl cr then Inl (Malformed (not_concatenable_reason cl cr))
      else case row_id_range cl of
        None \<Rightarrow> Inr cr
      | Some (_, cl1) \<Rightarrow>
          (case row_id_range cr of
             None \<Rightarrow> Inr cl
           | Some (cr0, _) \<Rightarrow>
               let is_sorted = (ch_is_sorted cl \<and> ch_is_sorted cr \<and> cl1 \<le> cr0) in
               case concat_row_ids K (ch_row_ids cl) (ch_row_ids cr) of
                 None \<Rightarrow> Inl ArrowError
               | Some row_ids \<Rightarrow>
                   (case traverse_result (concat_timeline cr) (ch_timelines cl) of
                      Inl e \<Rightarrow> Inl e
                    | Inr tls \<Rightarrow>
                        let comps = first_pass K cl cr;
                            comps = fold (\<lambda>(c, col). al_insert c col) (second_pass K cl cr comps) comps;
                            chunk = \<lparr>ch_id = new_id, ch_entity_path = ch_entity_path cl,
                              ch_heap_size_bytes = 0, ch_is_sorted = is_sorted, ch_row_ids = row_ids,
                              ch_timelines = tls, ch_components = comps\<rparr>
                        in (case sanity_check B chunk of Inl e \<Rightarrow> Inl e | Inr _ \<Rightarrow> Inr chunk))))"

text \<open>\<open>concat_and_sort\<close>: the chunk with the smaller first row id goes first. \<open>None\<close> orders before
  every \<open>Some\<close>. \<open>Inl None\<close> is a panic of the sort.\<close>

fun option_less :: "'a :: linorder option \<Rightarrow> 'a option \<Rightarrow> bool" where
  "option_less _ None = False"
| "option_less None (Some _) = True"
| "option_less (Some a) (Some b) = (a < b)"

definition concat_and_sort ::
    "'c build \<Rightarrow> 'c arrow_kernels \<Rightarrow> ChunkId \<Rightarrow> ChunkId \<Rightarrow> ChunkId \<Rightarrow> 'c Chunk \<Rightarrow> 'c Chunk \<Rightarrow>
     ChunkError option + 'c Chunk" where
  "concat_and_sort B K new_id sort_id shuffle_id left right =
     (let left_rowid_min = map_option fst (row_id_range right);
          right_rowid_min = map_option fst (row_id_range left)
      in case (if option_less right_rowid_min left_rowid_min
               then concatenated B K new_id left right else concatenated B K new_id right left) of
           Inl e \<Rightarrow> Inl (Some e)
         | Inr compacted \<Rightarrow>
             (case sort_by_row_ids_if_needed K sort_id shuffle_id compacted of
                None \<Rightarrow> Inl None | Some sorted_chunk \<Rightarrow> Inr sorted_chunk))"

record ChunkSplitConfig =
  chunk_max_bytes :: nat
  chunk_max_rows :: nat
  chunk_max_rows_if_unsorted :: nat

text \<open>The loop of \<open>split_chunk_if_needed\<close>; every slice gets a fresh chunk id.\<close>

function split_loop ::
    "'c arrow_kernels \<Rightarrow> (nat \<Rightarrow> ChunkId) \<Rightarrow> 'c Chunk \<Rightarrow> nat \<Rightarrow> nat \<Rightarrow> 'c Chunk list option" where
  "split_loop K new_ids ch target_rows start_idx =
     (if start_idx < num_rows ch \<and> target_rows \<noteq> 0 then
        let remaining_rows = num_rows ch - start_idx;
            chunk_size = min remaining_rows target_rows
        in case row_sliced_deep K (new_ids start_idx) ch start_idx chunk_size of
             None \<Rightarrow> None
           | Some split_chunk \<Rightarrow>
               map_option ((#) split_chunk) (split_loop K new_ids ch target_rows (start_idx + chunk_size))
      else Some [])"
  by pat_completeness auto
termination by (relation "measure (\<lambda>(_, _, ch, _, start_idx). num_rows ch - start_idx)") auto

declare split_loop.simps [simp del]

definition split_target_rows :: "nat \<Rightarrow> nat \<Rightarrow> bool \<Rightarrow> ChunkSplitConfig \<Rightarrow> nat option" where
  "split_target_rows size_bytes n all_sorted cfg =
     (let needs_split_bytes = (chunk_max_bytes cfg > 0 \<and> size_bytes > chunk_max_bytes cfg);
          needs_split_rows = (chunk_max_rows cfg > 0 \<and> n > chunk_max_rows cfg);
          needs_split_unsorted = (chunk_max_rows_if_unsorted cfg > 0
            \<and> n > chunk_max_rows_if_unsorted cfg \<and> \<not> all_sorted)
      in if \<not> needs_split_bytes \<and> \<not> needs_split_rows \<and> \<not> needs_split_unsorted then None
         else
           let target_rows =
             (if needs_split_unsorted then chunk_max_rows_if_unsorted cfg
              else if needs_split_rows then chunk_max_rows cfg
              else let bytes_per_row = size_bytes div max n 1 in chunk_max_bytes cfg div max bytes_per_row 1)
           in Some (max target_rows 1))"

text \<open>\<open>size_bytes\<close> is the total size the chunk measures.\<close>

definition split_chunk_if_needed ::
    "'c arrow_kernels \<Rightarrow> (nat \<Rightarrow> ChunkId) \<Rightarrow> nat \<Rightarrow> 'c Chunk \<Rightarrow> ChunkSplitConfig \<Rightarrow> 'c Chunk list option" where
  "split_chunk_if_needed K new_ids size_bytes ch cfg =
     (if num_rows ch \<le> 1 then Some [ch]
      else case split_target_rows size_bytes (num_rows ch) (all_timelines_sorted ch) cfg of
        None \<Rightarrow> Some [ch]
      | Some target_rows \<Rightarrow> split_loop K new_ids ch target_rows 0)"

section \<open>Concatenation\<close>

lemma row_id_range_eq:
  assumes "chunk_wf ch" "num_rows ch \<noteq> 0"
  shows "row_id_range ch = Some (Min (set (ch_row_ids ch)), Max (set (ch_row_ids ch)))"
  using assms chunk_wfD(1) [OF assms(1)]
  by (auto simp: row_id_range_def chunk_is_empty_def num_rows_def sorted_Min_hd sorted_Max_last)

lemma row_id_range_None: "row_id_range ch = None \<longleftrightarrow> num_rows ch = 0"
  by (simp add: row_id_range_def chunk_is_empty_def)

lemma traverse_result_Inr:
  assumes "\<And>x. x \<in> set xs \<Longrightarrow> f x = Inr (g x)"
  shows "traverse_result f xs = Inr (map g xs)"
  using assms by (induction xs) auto

lemma map_of_fold_al_insert:
  "map_of (fold (\<lambda>(c, col). al_insert c col) xs m) = map_of m ++ map_of (rev xs)"
proof (induction xs arbitrary: m)
  case (Cons x xs)
  then show ?case by (cases x) (auto simp: fun_eq_iff map_add_def split: option.splits)
qed simp

lemma distinct_fold_al_insert:
  "distinct (map fst m) \<Longrightarrow> distinct (map fst (fold (\<lambda>(c, col). al_insert c col) xs m))"
  by (induction xs arbitrary: m) (auto simp: distinct_al_insert)


text \<open>The cells of a column, a missing column being null everywhere: concatenating chunks appends
  them.\<close>

definition column_cells :: "'c Chunk \<Rightarrow> ComponentIdentifier \<Rightarrow> 'c list option list" where
  "column_cells ch c =
     (case map_of (ch_components ch) c of
        None \<Rightarrow> replicate (num_rows ch) None | Some col \<Rightarrow> la_iter (sc_list_array col))"

lemma cell_at_column_cells: "i < num_rows ch \<Longrightarrow> cell_at ch i c = column_cells ch c ! i"
  by (simp add: cell_at_def column_cells_def split: option.splits)

lemma length_column_cells: "chunk_wf ch \<Longrightarrow> length (column_cells ch c) = num_rows ch"
  by (auto simp: column_cells_def dest!: columns_okD(3) [OF chunk_wfD(3)] split: option.splits)

definition times_appended :: "'c Chunk \<Rightarrow> 'c Chunk \<Rightarrow> 'c Chunk \<Rightarrow> TimelineName \<Rightarrow> bool" where
  "times_appended cl cr ch k \<longleftrightarrow>
     (case (map_of (ch_timelines cl) k, map_of (ch_timelines cr) k, map_of (ch_timelines ch) k) of
        (None, None, None) \<Rightarrow> True
      | (Some a, Some b, Some t) \<Rightarrow> tc_times t = tc_times a @ tc_times b
      | _ \<Rightarrow> False)"

lemma rows_appended:
  assumes wf: "chunk_wf cl" "chunk_wf cr"
    and ids: "ch_row_ids ch = ch_row_ids cl @ ch_row_ids cr"
    and t: "\<And>k. times_appended cl cr ch k"
    and c: "\<And>c. column_cells ch c = column_cells cl c @ column_cells cr c"
  shows "chunk_rows ch = chunk_rows cl @ chunk_rows cr"
proof (rule nth_equalityI)
  show len: "length (chunk_rows ch) = length (chunk_rows cl @ chunk_rows cr)"
    by (simp add: num_rows_def ids)
  fix i assume "i < length (chunk_rows ch)"
  then have i: "i < num_rows cl + num_rows cr" "i < num_rows ch" using len by simp_all
  let ?s = "if i < num_rows cl then cl else cr" and ?j = "if i < num_rows cl then i else i - num_rows cl"
  have j: "?j < num_rows ?s" using i by auto
  have "time_at ch i k = time_at ?s ?j k" for k
    using t [of k] timelines_okD(2) [OF chunk_wfD(2) [OF wf(1)]]
    by (auto simp: times_appended_def time_at_def nth_append split: option.splits)
  moreover have "cell_at ch i k = cell_at ?s ?j k" for k
  proof -
    have "cell_at ch i k = (column_cells cl k @ column_cells cr k) ! i"
      using c [of k] cell_at_column_cells [OF i(2)] by simp
    also have "\<dots> = column_cells ?s k ! ?j" by (simp add: nth_append length_column_cells [OF wf(1)])
    finally show ?thesis using cell_at_column_cells [OF j] by simp
  qed
  ultimately have "chunk_row ch i = chunk_row ?s ?j"
    unfolding chunk_row_def ids by (simp add: nth_append num_rows_def fun_eq_iff)
  then show "chunk_rows ch ! i = (chunk_rows cl @ chunk_rows cr) ! i"
    using i j by (simp add: nth_append split: if_splits)
qed

text \<open>Timelines: the maps have the same keys, so pairing by name loses nothing.\<close>

lemma same_timelines_lookup:
  assumes "same_timelines cl cr" "(k, tc) \<in> set (ch_timelines cl)"
  shows "\<exists>b. map_of (ch_timelines cr) k = Some b \<and> tc_timeline tc = tc_timeline b"
proof -
  from assms have "case map_of (ch_timelines cr) k of None \<Rightarrow> False
    | Some rhs_column \<Rightarrow> tc_timeline tc = tc_timeline rhs_column"
    unfolding same_timelines_def by fast
  then show ?thesis by (simp split: option.splits)
qed

lemma same_timelines_keys:
  assumes "chunk_wf cl" "chunk_wf cr" "same_timelines cl cr"
  shows "dom (map_of (ch_timelines cl)) = dom (map_of (ch_timelines cr))"
proof -
  have d: "distinct (map fst (ch_timelines cl))" "distinct (map fst (ch_timelines cr))"
    using assms(1,2) by (simp_all add: chunk_wf_def timelines_ok_def)
  have "fst ` set (ch_timelines cl) \<subseteq> fst ` set (ch_timelines cr)"
  proof
    fix k assume "k \<in> fst ` set (ch_timelines cl)"
    then obtain tc where "(k, tc) \<in> set (ch_timelines cl)" by auto
    from same_timelines_lookup [OF assms(3) this] have "map_of (ch_timelines cr) k \<noteq> None" by auto
    then show "k \<in> fst ` set (ch_timelines cr)" by (simp add: map_of_eq_None_iff)
  qed
  moreover have "card (fst ` set (ch_timelines cl)) = card (fst ` set (ch_timelines cr))"
    using d assms(3) distinct_card [of "map fst (ch_timelines cl)"] distinct_card [of "map fst (ch_timelines cr)"]
    by (simp add: same_timelines_def)
  ultimately show ?thesis by (simp add: dom_map_of_conv_image_fst card_subset_eq)
qed

lemma concat_timelines:
  assumes wf: "chunk_wf cl" "chunk_wf cr" and same: "same_timelines cl cr"
    and ne: "num_rows cl \<noteq> 0" "num_rows cr \<noteq> 0"
  obtains tls where "traverse_result (concat_timeline cr) (ch_timelines cl) = Inr tls"
    "timelines_ok (num_rows cl + num_rows cr) tls"
    "\<forall>ch. ch_timelines ch = tls \<longrightarrow> (\<forall>k. times_appended cl cr ch k)"
proof -
  define ft where "ft = (\<lambda>(k, tc) \<Rightarrow> (k :: TimelineName, the (tc_concatenated tc (the (map_of (ch_timelines cr) k)))))"
  have one: "concat_timeline cr (k, tc) = Inr (ft (k, tc)) \<and> tc_wf (snd (ft (k, tc)))
      \<and> (\<exists>b. map_of (ch_timelines cr) k = Some b \<and> tc_times (snd (ft (k, tc))) = tc_times tc @ tc_times b)"
    if "(k, tc) \<in> set (ch_timelines cl)" for k tc
  proof -
    from same_timelines_lookup [OF same that] obtain b where
      b: "map_of (ch_timelines cr) k = Some b" "tc_timeline tc = tc_timeline b" by blast
    note tcw = chunk_wf_timeline [OF wf(1) that] and bw = timelines_okD [OF chunk_wfD(2) [OF wf(2)] b(1)]
    have "tc_times tc \<noteq> []" "tc_times b \<noteq> []" using tcw(2) bw(2) ne by auto
    from tc_wf_concatenated [OF tcw(1) bw(1) b(2) this] obtain t where
      "tc_concatenated tc b = Some t" "tc_wf t" "tc_times t = tc_times tc @ tc_times b" by blast
    then show ?thesis by (simp add: b(1) ft_def concat_timeline_def)
  qed
  show ?thesis
  proof (rule that [of "map ft (ch_timelines cl)"])
    show "traverse_result (concat_timeline cr) (ch_timelines cl) = Inr (map ft (ch_timelines cl))"
      by (rule traverse_result_Inr) (use one in auto)
    have k: "map fst (map ft (ch_timelines cl)) = map fst (ch_timelines cl)"
      by (auto simp: ft_def)
    show "timelines_ok (num_rows cl + num_rows cr) (map ft (ch_timelines cl))"
      unfolding timelines_ok_def k
    proof (intro conjI ballI)
      show "distinct (map fst (ch_timelines cl))" using wf(1) by (simp add: chunk_wf_def timelines_ok_def)
      fix x assume "x \<in> set (map ft (ch_timelines cl))"
      then obtain n tc where x: "x = ft (n, tc)" "(n, tc) \<in> set (ch_timelines cl)" by auto
      from one [OF x(2)] obtain b where "map_of (ch_timelines cr) n = Some b" "tc_wf (snd x)"
        "tc_times (snd x) = tc_times tc @ tc_times b" by (auto simp: x(1))
      then show "case x of (name, tc) \<Rightarrow> tc_wf tc \<and> length (tc_times tc) = num_rows cl + num_rows cr"
        using chunk_wf_timeline(2) [OF wf(1) x(2)] timelines_okD(2) [OF chunk_wfD(2) [OF wf(2)]]
        by (cases x) auto
    qed
    have f: "ft = (\<lambda>(k, tc). (k, the (tc_concatenated tc (the (map_of (ch_timelines cr) k)))))"
      by (simp add: ft_def)
    have "times_appended cl cr c k" if c: "ch_timelines c = map ft (ch_timelines cl)" for c k
    proof (cases "map_of (ch_timelines cl) k")
      case None
      moreover have "map_of (ch_timelines cr) k = None"
        using same_timelines_keys [OF wf same] None by (metis domIff)
      ultimately show ?thesis unfolding times_appended_def c unfolding f by (simp add: map_of_map_values)
    next
      case (Some a)
      with one [OF map_of_SomeD [OF Some]] show ?thesis
        unfolding times_appended_def c f by (auto simp: map_of_map_values)
    qed
    then show "\<forall>ch. ch_timelines ch = map ft (ch_timelines cl) \<longrightarrow> (\<forall>k. times_appended cl cr ch k)"
      by blast
  qed
qed

text \<open>Components: where only one chunk has a column, its array must be compact for the padding to be
  right.\<close>

definition pads_compactly :: "'c Chunk \<Rightarrow> 'c Chunk \<Rightarrow> bool" where
  "pads_compactly ch other \<longleftrightarrow> (\<forall>(c, col) \<in> set (ch_components ch).
     map_of (ch_components other) c = None \<longrightarrow> la_compact (sc_list_array col))"

lemma same_datatypes_lookup:
  assumes "chunk_wf cl" "same_datatypes cl cr" "(c, col) \<in> set (ch_components cl)"
    "map_of (ch_components cr) c = Some rcol"
  shows "la_datatype (sc_list_array col) = la_datatype (sc_list_array rcol)"
proof -
  have "case map_of (ch_components cr) (cd_component (sc_descriptor col)) of None \<Rightarrow> True
    | Some rhs_column \<Rightarrow> la_datatype (sc_list_array col) = la_datatype (sc_list_array rhs_column)"
    using assms(2,3) unfolding same_datatypes_def by fast
  then show ?thesis using assms(4) chunk_wf_column(1) [OF assms(1,3)] by simp
qed

lemma merge_lhs_rows:
  assumes K: "arrow_laws K" and wf: "chunk_wf cl" "chunk_wf cr"
    and dt: "same_datatypes cl cr" and pad: "pads_compactly cl cr"
    and col: "(c, col) \<in> set (ch_components cl)"
  shows "list_with_rows (la_datatype (sc_list_array col)) (column_cells cl c @ column_cells cr c)
    (merge_lhs K (ch_components cr) (num_rows cl + num_rows cr) col)"
proof -
  note cw = chunk_wf_column [OF wf(1) col]
  have cl: "column_cells cl c = la_iter (sc_list_array col)"
    using col wf(1) by (simp add: column_cells_def chunk_wf_def columns_ok_def)
  show ?thesis
  proof (cases "map_of (ch_components cr) c")
    case None
    with pad col have "la_compact (sc_list_array col)" unfolding pads_compactly_def by fast
    from pad_list_array_back_rows [OF this] show ?thesis
      using None cw by (simp add: merge_lhs_def cl column_cells_def [of cr] list_with_rows_def)
  next
    case (Some rcol)
    note rw = columns_okD [OF chunk_wfD(3) [OF wf(2)] Some]
    from concat_lists_rows [OF K cw(2) rw(2) same_datatypes_lookup [OF wf(1) dt col Some]] show ?thesis
      using Some cw(1) by (simp add: merge_lhs_def cl column_cells_def [of cr])
  qed
qed

lemma merge_rhs_rows:
  assumes "chunk_wf cr" "pads_compactly cr cl" "(c, col) \<in> set (ch_components cr)"
    "map_of (ch_components cl) c = None"
  shows "list_with_rows (la_datatype (sc_list_array col)) (column_cells cl c @ column_cells cr c)
    (merge_rhs K (ch_components cl) (num_rows cl + num_rows cr) col)"
proof -
  note cw = chunk_wf_column [OF assms(1,3)]
  have "column_cells cr c = la_iter (sc_list_array col)"
    using assms(1,3) by (simp add: column_cells_def chunk_wf_def columns_ok_def)
  moreover have "la_compact (sc_list_array col)"
    using assms(2-4) unfolding pads_compactly_def by fast
  ultimately show ?thesis
    using pad_list_array_front_rows [of "sc_list_array col"] cw assms(4)
    by (simp add: merge_rhs_def column_cells_def [of cl] list_with_rows_def)
qed

lemma map_filter_total:
  assumes "\<And>x. x \<in> set xs \<Longrightarrow> f x = Some (g x)"
  shows "List.map_filter f xs = map g xs"
  using assms by (induction xs) (auto simp: List.map_filter_def)

lemma first_pass_eq:
  fixes cl cr :: "'c Chunk"
  assumes wf: "chunk_wf cl"
    and la: "\<And>c col. (c, col) \<in> set (ch_components cl) \<Longrightarrow>
      list_with_rows (la_datatype (sc_list_array col)) (column_cells cl c @ column_cells cr c)
        (merge_lhs K (ch_components cr) (num_rows cl + num_rows cr) col)"
  shows "first_pass K cl cr = map (\<lambda>(c, col). (c, sc_new (the
      (merge_lhs K (ch_components cr) (num_rows cl + num_rows cr) col)) (sc_descriptor col))) (ch_components cl)"
proof -
  let ?m = "merge_lhs K (ch_components cr) (num_rows cl + num_rows cr)"
  have "List.map_filter (\<lambda>(_, col). map_option (\<lambda>la. sc_new la (sc_descriptor col)) (?m col)) (ch_components cl)
      = map (\<lambda>(_, col). sc_new (the (?m col)) (sc_descriptor col)) (ch_components cl)"
    by (rule map_filter_total) (auto dest!: la simp: list_with_rows_def split: option.splits)
  then show ?thesis
    unfolding first_pass_def using components_rebuild_ok [OF chunk_wfD(3) [OF wf], of "\<lambda>col. the (?m col)"]
    by simp
qed

text \<open>The merged map: every column of either chunk, with the cells appended.\<close>

definition merged_components :: "'c arrow_kernels \<Rightarrow> 'c Chunk \<Rightarrow> 'c Chunk \<Rightarrow> 'c ChunkComponents" where
  "merged_components K cl cr =
     (let comps = first_pass K cl cr in
      fold (\<lambda>(c, col). al_insert c col) (second_pass K cl cr comps) comps)"

lemma second_pass_eq:
  fixes cl cr :: "'c Chunk"
  assumes wf: "chunk_wf cr" and pad: "pads_compactly cr cl"
    and comps: "dom (map_of comps) = dom (map_of (ch_components cl))"
  shows "second_pass K cl cr comps = map (\<lambda>(c, col). (c, sc_new (the
      (merge_rhs K (ch_components cl) (num_rows cl + num_rows cr) col)) (sc_descriptor col)))
      (filter (\<lambda>(c, _). map_of (ch_components cl) c = None) (ch_components cr))"
proof -
  let ?m = "merge_rhs K (ch_components cl) (num_rows cl + num_rows cr)"
  let ?f = "\<lambda>(_ :: ComponentIdentifier, col). if map_of comps (cd_component (sc_descriptor col)) \<noteq> None then None
     else map_option (\<lambda>la. (cd_component (sc_descriptor col), sc_new la (sc_descriptor col))) (?m col)"
  have n: "map_of comps c = None \<longleftrightarrow> map_of (ch_components cl) c = None" for c
    using comps by (metis domIff)
  have "List.map_filter ?f xs = map (\<lambda>(c, col). (c, sc_new (the (?m col)) (sc_descriptor col)))
      (filter (\<lambda>(c, _). map_of (ch_components cl) c = None) xs)"
    if "set xs \<subseteq> set (ch_components cr)" for xs
    using that
  proof (induction xs)
    case (Cons x xs)
    obtain c col where x: "x = (c, col)" by fastforce
    with Cons.prems have mem: "(c, col) \<in> set (ch_components cr)" by simp
    note id = chunk_wf_column(1) [OF wf mem]
    show ?case
    proof (cases "map_of (ch_components cl) c")
      case None
      from merge_rhs_rows [OF wf pad mem None, of K] obtain la where "?m col = Some la"
        by (rule list_with_rowsE)
      then show ?thesis using Cons x id None n by (simp add: List.map_filter_def)
    next
      case (Some a)
      then show ?thesis using Cons x id n [of c] by (auto simp: List.map_filter_def)
    qed
  qed (simp add: List.map_filter_def)
  then show ?thesis unfolding second_pass_def by blast
qed

lemma list_with_rows_the:
  "list_with_rows ty rows r \<Longrightarrow> r = Some (the r) \<and> la_iter (the r) = rows \<and> la_wf (the r)"
  by (auto simp: list_with_rows_def split: option.splits)

lemma column_cells_None:
  "map_of (ch_components ch) c = None \<Longrightarrow> column_cells ch c = replicate (num_rows ch) None"
  by (simp add: column_cells_def)

lemma map_fst_map_values [simp]: "map fst (map (\<lambda>(k, v). (k, f v)) m) = map fst m"
  by (induction m) auto

lemma map_of_rev: "distinct (map fst m) \<Longrightarrow> map_of (rev m) = map_of m"
  using map_of_inject_set [of "rev m" m] by (simp flip: rev_map)

abbreviation merged_lhs where
  "merged_lhs K cl cr col \<equiv> sc_new (the (merge_lhs K (ch_components cr) (num_rows cl + num_rows cr) col)) (sc_descriptor col)"

abbreviation merged_rhs where
  "merged_rhs K cl cr col \<equiv> sc_new (the (merge_rhs K (ch_components cl) (num_rows cl + num_rows cr) col)) (sc_descriptor col)"

lemma merged_components_lookup:
  fixes cl cr :: "'c Chunk"
  assumes K: "arrow_laws K" and wf: "chunk_wf cl" "chunk_wf cr" and dt: "same_datatypes cl cr"
    and pad: "pads_compactly cl cr" "pads_compactly cr cl"
  shows "distinct (map fst (merged_components K cl cr))"
    and "map_of (merged_components K cl cr) c =
      (case map_of (ch_components cl) c of
         Some col \<Rightarrow> Some (merged_lhs K cl cr col)
       | None \<Rightarrow> map_option (merged_rhs K cl cr) (map_of (ch_components cr) c))"
proof -
  let ?L = "map (\<lambda>(c, col). (c, merged_lhs K cl cr col)) (ch_components cl)"
  let ?new = "filter (\<lambda>(c, _). map_of (ch_components cl) c = None) (ch_components cr)"
  let ?R = "map (\<lambda>(c, col). (c, merged_rhs K cl cr col)) ?new"
  have L: "first_pass K cl cr = ?L" by (rule first_pass_eq [OF wf(1) merge_lhs_rows [OF K wf dt pad(1)]])
  have R: "second_pass K cl cr ?L = ?R"
    by (rule second_pass_eq [OF wf(2) pad(2)]) (auto simp: map_of_map_values dom_def)
  have d: "distinct (map fst (ch_components cl))" "distinct (map fst (ch_components cr))"
    using wf by (simp_all add: chunk_wf_def columns_ok_def)
  have dR: "distinct (map fst ?R)" unfolding map_fst_map_values by (rule distinct_map_filter [OF d(2)])
  have M: "merged_components K cl cr = fold (\<lambda>(c, col). al_insert c col) ?R ?L"
    by (simp only: merged_components_def L R Let_def)
  show "distinct (map fst (merged_components K cl cr))"
    unfolding M by (rule distinct_fold_al_insert) (unfold map_fst_map_values, rule d(1))
  have "map_of ?R c = (if map_of (ch_components cl) c = None
      then map_option (merged_rhs K cl cr) (map_of (ch_components cr) c) else None)"
    unfolding map_of_map_values map_of_filter_key by simp
  then show "map_of (merged_components K cl cr) c =
      (case map_of (ch_components cl) c of
         Some col \<Rightarrow> Some (merged_lhs K cl cr col)
       | None \<Rightarrow> map_option (merged_rhs K cl cr) (map_of (ch_components cr) c))"
    unfolding M map_of_fold_al_insert map_of_rev [OF dR]
    by (auto simp: map_add_def map_of_map_values split: option.splits)
qed

lemma merged_components_cells:
  assumes K: "arrow_laws K" and wf: "chunk_wf cl" "chunk_wf cr" and dt: "same_datatypes cl cr"
    and pad: "pads_compactly cl cr" "pads_compactly cr cl"
    and col: "map_of (merged_components K cl cr) c = Some col"
  shows "cd_component (sc_descriptor col) = c \<and> la_wf (sc_list_array col)
      \<and> la_iter (sc_list_array col) = column_cells cl c @ column_cells cr c"
proof (cases "map_of (ch_components cl) c")
  case (Some a)
  note m = map_of_SomeD [OF Some]
  from list_with_rows_the [OF merge_lhs_rows [OF K wf dt pad(1) m]] chunk_wf_column(1) [OF wf(1) m]
  show ?thesis
    using col Some unfolding merged_components_lookup(2) [OF K wf dt pad] by auto
next
  case None
  with col obtain a where a: "map_of (ch_components cr) c = Some a" "col = merged_rhs K cl cr a"
    unfolding merged_components_lookup(2) [OF K wf dt pad] by auto
  note m = map_of_SomeD [OF a(1)]
  from list_with_rows_the [OF merge_rhs_rows [OF wf(2) pad(2) m None]] chunk_wf_column(1) [OF wf(2) m]
  show ?thesis using a(2) by auto
qed

lemma merged_components_ok:
  fixes cl cr ch :: "'c Chunk"
  assumes K: "arrow_laws K" and wf: "chunk_wf cl" "chunk_wf cr" and dt: "same_datatypes cl cr"
    and pad: "pads_compactly cl cr" "pads_compactly cr cl"
  shows "columns_ok (num_rows cl + num_rows cr) (merged_components K cl cr)"
    and "ch_components ch = merged_components K cl cr \<Longrightarrow> num_rows ch = num_rows cl + num_rows cr \<Longrightarrow>
      column_cells ch c = column_cells cl c @ column_cells cr c"
proof -
  note look = merged_components_lookup [OF K wf dt pad] and cells = merged_components_cells [OF K wf dt pad]
  have len: "length (column_cells cl c @ column_cells cr c) = num_rows cl + num_rows cr" for c
    by (simp add: length_column_cells wf)
  show "columns_ok (num_rows cl + num_rows cr) (merged_components K cl cr)"
    unfolding columns_ok_def
  proof (intro conjI ballI look(1))
    fix x assume x: "x \<in> set (merged_components K cl cr)"
    obtain c col where c: "x = (c, col)" by fastforce
    from cells [OF map_of_is_SomeI [OF look(1) x [unfolded c]]] len [of c] show
      "case x of (c, col) \<Rightarrow> cd_component (sc_descriptor col) = c \<and> la_wf (sc_list_array col)
        \<and> la_len (sc_list_array col) = num_rows cl + num_rows cr"
      using length_la_iter [of "sc_list_array col"] by (simp add: c)
  qed
  show "column_cells ch c = column_cells cl c @ column_cells cr c"
    if ch: "ch_components ch = merged_components K cl cr" "num_rows ch = num_rows cl + num_rows cr"
  proof (cases "map_of (merged_components K cl cr) c")
    case (Some col)
    with cells [OF Some] show ?thesis by (simp add: column_cells_def [of ch] ch(1))
  next
    case None
    then have "map_of (ch_components cl) c = None" "map_of (ch_components cr) c = None"
      unfolding look(2) by (auto split: option.splits)
    with None show ?thesis by (simp add: column_cells_def ch replicate_add)
  qed
qed

lemma concatenated_rows:
  assumes K: "arrow_laws K" and wf: "chunk_wf cl" "chunk_wf cr" and cc: "concatenable cl cr"
    and pad: "pads_compactly cl cr" "pads_compactly cr cl"
  shows "\<exists>ch. concatenated B K new_id cl cr = Inr ch \<and> chunk_wf ch
    \<and> ch_entity_path ch = ch_entity_path cl \<and> chunk_rows ch = chunk_rows cl @ chunk_rows cr"
proof (cases "num_rows cl = 0 \<or> num_rows cr = 0")
  case True
  have "chunk_rows c = []" if "num_rows c = 0" for c :: "'a Chunk" using that by (simp add: chunk_rows_def)
  then show ?thesis using True cc wf row_id_range_eq [OF wf(1)] row_id_range_None [of cl] row_id_range_None [of cr]
    by (auto simp: concatenated_def concatenable_def same_entity_paths_def split: option.splits)
next
  case False
  then have ne: "num_rows cl \<noteq> 0" "num_rows cr \<noteq> 0" by simp_all
  have same: "same_timelines cl cr" "same_datatypes cl cr" using cc by (simp_all add: concatenable_def)
  obtain tls where tls: "traverse_result (concat_timeline cr) (ch_timelines cl) = Inr tls"
    "timelines_ok (num_rows cl + num_rows cr) tls"
    "\<forall>ch. ch_timelines ch = tls \<longrightarrow> (\<forall>k. times_appended cl cr ch k)"
    by (rule concat_timelines [OF wf same(1) ne])
  define ch where "ch = \<lparr>ch_id = new_id, ch_entity_path = ch_entity_path cl, ch_heap_size_bytes = 0,
    ch_is_sorted = (ch_is_sorted cl \<and> ch_is_sorted cr \<and> Max (set (ch_row_ids cl)) \<le> Min (set (ch_row_ids cr))),
    ch_row_ids = ch_row_ids cl @ ch_row_ids cr, ch_timelines = tls, ch_components = merged_components K cl cr\<rparr>"
  have n: "num_rows ch = num_rows cl + num_rows cr" by (simp add: ch_def num_rows_def)
  note comps = merged_components_ok [OF K wf same(2) pad]
  have "ch_row_ids cl \<noteq> []" "ch_row_ids cr \<noteq> []" using ne by (auto simp: num_rows_def)
  then have "ch_is_sorted ch = sorted (ch_row_ids ch)"
    using chunk_wfD(1) [OF wf(1)] chunk_wfD(1) [OF wf(2)] by (simp add: ch_def sorted_append_iff)
  then have "chunk_wf ch"
    using tls(2) comps(1) n by (simp add: chunk_wf_def) (simp add: ch_def)
  moreover have "concatenated B K new_id cl cr = Inr ch"
    using cc row_id_range_eq [OF wf(1) ne(1)] row_id_range_eq [OF wf(2) ne(2)] tls(1)
      concat_row_ids_eq [OF K] sanity_check_wf [OF \<open>chunk_wf ch\<close>]
    by (simp add: concatenated_def Let_def merged_components_def ch_def)
  moreover have "chunk_rows ch = chunk_rows cl @ chunk_rows cr"
    by (rule rows_appended [OF wf]) (use tls(3) comps(2) n in \<open>simp_all add: ch_def\<close>)
  ultimately show ?thesis by (simp add: ch_def)
qed

text \<open>C31: concatenating two chunks that agree on entity path, timelines and datatypes succeeds, keeps the
  invariant and yields the rows of the first followed by the rows of the second, a component that
  one of them lacks being null there, provided every array that has to be padded is compact
  (\<open>pads_compactly\<close>: it starts at the first of its values and its null rows own none; other arrays are padded
  wrongly). Chunks that do not agree are refused with the reason.\<close>

theorem concatenated_appends_rows:
  assumes "arrow_laws K" and "chunk_wf cl" and "chunk_wf cr"
  shows "if concatenable cl cr
    then pads_compactly cl cr \<and> pads_compactly cr cl \<longrightarrow> (\<exists>ch. concatenated B K new_id cl cr = Inr ch \<and> chunk_wf ch
      \<and> ch_entity_path ch = ch_entity_path cl \<and> chunk_rows ch = chunk_rows cl @ chunk_rows cr)
    else concatenated B K new_id cl cr = Inl (Malformed (not_concatenable_reason cl cr))
      \<and> not_concatenable_reason cl cr \<in> {DifferentEntityPaths, DifferentTimelines, DifferentDatatypes}"
proof (cases "concatenable cl cr")
  case True
  then show ?thesis using concatenated_rows [OF assms(1-3) True] by auto
next
  case False
  then have "ch_entity_path cl \<noteq> ch_entity_path cr \<or> \<not> same_timelines cl cr \<or> \<not> same_datatypes cl cr"
    by (simp add: concatenable_def same_entity_paths_def)
  then have "not_concatenable_reason cl cr \<in> {DifferentEntityPaths, DifferentTimelines, DifferentDatatypes}"
    by (auto simp: not_concatenable_reason_def)
  then show ?thesis using False by (simp add: concatenated_def)
qed

text \<open>A second concrete chunk on the same timeline, with another component.\<close>

definition demo_other :: "nat Chunk" where
  "demo_other = \<lparr>ch_id = demo_id 10, ch_entity_path = ''/world'', ch_heap_size_bytes = 0,
     ch_is_sorted = True, ch_row_ids = [demo_id 4, demo_id 5],
     ch_timelines = [(''frame'', tc_new None \<lparr>tl_name = ''frame'', tl_typ = Sequence\<rparr> [6, 7])],
     ch_components = [(''tag'', sc_new (la_of_rows ''u64'' [Some [1], Some [2]])
       \<lparr>cd_archetype = None, cd_component = ''tag'', cd_component_type = None\<rparr>)]\<rparr>"

lemma demo_other_wf: "chunk_wf demo_other"
proof -
  have "tc_wf (tc_new None \<lparr>tl_name = ''frame'', tl_typ = Sequence\<rparr> [6, 7])"
    by (rule tc_wf_new) (simp_all add: times_valid_def i64_MIN_def i64_MAX_def)
  then show ?thesis
    by (simp add: chunk_wf_def demo_other_def timelines_ok_def columns_ok_def num_rows_def)
qed

lemma demo_mergeable:
  "concatenable demo_chunk demo_other" "pads_compactly demo_chunk demo_other"
  "pads_compactly demo_other demo_chunk"
  by (simp_all add: concatenable_def same_entity_paths_def same_timelines_def same_datatypes_def
      pads_compactly_def demo_other_def demo_column_def la_compact_of_rows)
    (simp_all add: demo_chunk_def)

theorem concatenated_appends_rows_witness:
  "\<exists>ch. concatenated \<lparr>debug_assertions = True, measured_heap_size = \<lambda>_. 0\<rparr> list_kernels (demo_id 11)
      demo_chunk demo_other = Inr ch
    \<and> map r_id (chunk_rows ch) = [demo_id 1, demo_id 2, demo_id 3, demo_id 4, demo_id 5]"
proof -
  have "map r_id (chunk_rows demo_chunk @ chunk_rows demo_other)
      = [demo_id 1, demo_id 2, demo_id 3, demo_id 4, demo_id 5]"
    by (simp add: chunk_rows_ids) (simp add: demo_other_def)
  then show ?thesis
    using concatenated_appends_rows [OF arrow_laws_list_kernels demo_chunk_wf demo_other_wf,
        of "\<lparr>debug_assertions = True, measured_heap_size = \<lambda>_. 0\<rparr>" "demo_id 11"] demo_mergeable
    by force
qed

text \<open>Padding takes the cell of a row from the place that the lengths of the cells before it give.\<close>

lemma padded_cells:
  assumes wf: "la_wf la" and n: "la_len la < n" and i: "i < la_len la" "la_is_valid la i"
  defines "piece \<equiv> take (length (la_value la i)) (drop (sum_list (take i (cell_lengths la))) (la_values la))"
  shows "la_iter (pad_list_array_back la n) ! i = Some piece"
    and "la_iter (pad_list_array_front la n) ! (n - la_len la + i) = Some piece"
proof -
  let ?m = "n - la_len la" and ?b = "pad_list_array_back la n" and ?f = "pad_list_array_front la n"
  have m: "?m \<noteq> 0" using n by simp
  note v = length_la_validity [OF wf]
  have len: "cell_lengths la ! i = length (la_value la i)" using i by (simp add: cell_lengths_def la_iter_nth)
  have b: "la_offsets ?b = from_lengths (cell_lengths la @ replicate ?m 0)"
      "la_nulls ?b = Some (la_validity la @ replicate ?m False)" "la_values ?b = la_values la"
    and f: "la_offsets ?f = from_lengths (replicate ?m 0 @ cell_lengths la)"
      "la_nulls ?f = Some (replicate ?m False @ la_validity la)" "la_values ?f = la_values la"
    using m by (auto simp: pad_list_array_back_def pad_list_array_front_def la_validity_def Let_def split: option.splits)
  have "la_len ?b = la_len la + ?m" "la_is_valid ?b i" "la_value ?b i = piece"
    using i v len by (simp_all add: la_len_def [of ?b] la_is_valid_def [of ?b] la_value_def [of ?b] b from_lengths_def
        offsets_from_nth sum_list_take_Suc nth_append la_validity_nth piece_def)
  then show "la_iter ?b ! i = Some piece" using i by (simp add: la_iter_nth)
  have "la_len ?f = la_len la + ?m" "la_is_valid ?f (?m + i)" "la_value ?f (?m + i) = piece"
    using i v len by (simp_all add: la_len_def [of ?f] la_is_valid_def [of ?f] la_value_def [of ?f] f from_lengths_def
        offsets_from_nth sum_list_take_Suc nth_append la_validity_nth piece_def sum_list_replicate)
  then show "la_iter ?f ! (?m + i) = Some piece" using i by (simp add: la_iter_nth)
qed

text \<open>C34: padding rebuilds the offsets of an array from the lengths of its cells but keeps the flat values: the
  cell of row \<open>i\<close> becomes the piece of the values that begins where the cells before it would end if they
  were stored from the start on. So a cell is kept exactly when that piece equals it: in an array that was
  sliced without copying, or whose null rows own values, other values are read.\<close>

theorem padding_sliced_array_wrong:
  assumes "la_wf la" and "la_len la < n" and "i < la_len la" and "la_is_valid la i"
  defines "piece \<equiv> take (length (la_value la i)) (drop (sum_list (take i (cell_lengths la))) (la_values la))"
  shows "la_iter la ! i = Some (la_value la i)
    \<and> la_iter (pad_list_array_back la n) ! i = Some piece
    \<and> la_iter (pad_list_array_front la n) ! (n - la_len la + i) = Some piece
    \<and> (la_iter (pad_list_array_back la n) ! i = la_iter la ! i \<longleftrightarrow> piece = la_value la i)"
  using padded_cells [OF assms(1-4)] assms(3,4) by (auto simp: piece_def la_iter_nth)

theorem padding_sliced_array_wrong_witness:
  "let sliced = la_slice (la_of_rows ''u64'' [Some [7], Some [8 :: nat]]) 1 1 in
   la_wf sliced \<and> la_iter sliced ! 0 = Some [8] \<and> la_iter (pad_list_array_back sliced 2) ! 0 = Some [7]
   \<and> la_iter (pad_list_array_front sliced 2) ! 1 = Some [7]"
proof -
  define sliced where "sliced = la_slice (la_of_rows ''u64'' [Some [7], Some [8 :: nat]]) 1 1"
  have s: "la_wf sliced" "la_len sliced = 1" "la_is_valid sliced 0" "la_value sliced 0 = [8]" "la_values sliced = [7, 8]"
    by (simp_all add: sliced_def la_slice_def la_of_rows_def from_lengths_def la_wf_def la_len_def la_is_valid_def la_value_def
        numeral_2_eq_2)
  show ?thesis unfolding sliced_def [symmetric] Let_def using padding_sliced_array_wrong [OF s(1) _ _ s(3), of 2] s by simp
qed

section \<open>Compaction\<close>

lemma sort_key_append_ordered:
  assumes "sorted (map f xs)" "sorted (map f ys)" "\<And>x y. x \<in> set xs \<Longrightarrow> y \<in> set ys \<Longrightarrow> f x \<le> f y"
  shows "sort_key f (xs @ ys) = xs @ ys"
  by (rule sort_key_id_if_sorted) (use assms in \<open>auto simp: sorted_append\<close>)

lemma mergeable_sym:
  assumes "chunk_wf a" "chunk_wf b" "concatenable a b"
  shows "concatenable b a"
proof -
  have k: "dom (map_of (ch_timelines a)) = dom (map_of (ch_timelines b))"
    by (rule same_timelines_keys [OF assms(1,2)]) (use assms(3) in \<open>simp add: concatenable_def\<close>)
  have d: "distinct (map fst (ch_timelines b))" "distinct (map fst (ch_components b))"
    using assms(2) by (simp_all add: chunk_wf_def timelines_ok_def columns_ok_def)
  have "case map_of (ch_timelines a) n of None \<Rightarrow> False | Some t \<Rightarrow> tc_timeline tc = tc_timeline t"
    if "(n, tc) \<in> set (ch_timelines b)" for n tc
  proof -
    have b: "map_of (ch_timelines b) n = Some tc" using that d(1) by simp
    with k obtain t where t: "map_of (ch_timelines a) n = Some t" by (metis domD domI)
    with same_timelines_lookup [of a b n t] assms(3) b show ?thesis
      by (auto simp: concatenable_def dest: map_of_SomeD)
  qed
  then have "same_timelines b a"
    using assms(3) by (auto simp: concatenable_def same_timelines_def)
  moreover have "same_datatypes b a"
    unfolding same_datatypes_def
  proof (clarsimp split: option.splits)
    fix c col acol assume m: "(c, col) \<in> set (ch_components b)"
      and a: "map_of (ch_components a) (cd_component (sc_descriptor col)) = Some acol"
    have c: "cd_component (sc_descriptor col) = c" by (rule chunk_wf_column(1) [OF assms(2) m])
    show "la_datatype (sc_list_array col) = la_datatype (sc_list_array acol)"
      using same_datatypes_lookup [OF assms(1) _ map_of_SomeD [OF a], of b col] assms(3) m d(2) c
      by (simp add: concatenable_def)
  qed
  ultimately show ?thesis using assms(3) by (simp add: concatenable_def same_entity_paths_def)
qed

definition goes_first :: "'c Chunk \<Rightarrow> 'c Chunk \<Rightarrow> bool" where
  "goes_first left right = option_less (map_option fst (row_id_range left)) (map_option fst (row_id_range right))"

lemma concat_and_sort_eq:
  "concat_and_sort B K new_id sort_id shuffle_id left right =
     (case (if goes_first left right then concatenated B K new_id left right
            else concatenated B K new_id right left) of
        Inl e \<Rightarrow> Inl (Some e)
      | Inr compacted \<Rightarrow>
          (case sort_by_row_ids_if_needed K sort_id shuffle_id compacted of
             None \<Rightarrow> Inl None | Some sorted_chunk \<Rightarrow> Inr sorted_chunk))"
  by (simp add: concat_and_sort_def goes_first_def)

lemma sort_rows_sorted: "chunk_wf ch \<Longrightarrow> ch_is_sorted ch \<Longrightarrow> sort_key r_id (chunk_rows ch) = chunk_rows ch"
  using chunk_wfD(1) [of ch] by (intro sort_key_id_if_sorted) (simp add: chunk_rows_ids)

lemma sort_concat_ordered:
  assumes wf: "chunk_wf left" "chunk_wf right" and s: "ch_is_sorted left" "ch_is_sorted right"
    and lt: "\<forall>a\<in>set (ch_row_ids left). \<forall>b\<in>set (ch_row_ids right). a < b"
  shows "sort_key r_id (if goes_first left right then chunk_rows left @ chunk_rows right
    else chunk_rows right @ chunk_rows left) = chunk_rows left @ chunk_rows right"
proof (cases "num_rows left = 0 \<or> num_rows right = 0")
  case True
  then have "chunk_rows left = [] \<or> chunk_rows right = []" by (auto simp: chunk_rows_def)
  then show ?thesis using sort_rows_sorted wf s by auto
next
  case False
  then have "ch_row_ids left \<noteq> []" "ch_row_ids right \<noteq> []" by (auto simp: num_rows_def)
  then have f: "goes_first left right"
    using lt False row_id_range_eq [OF wf(1)] row_id_range_eq [OF wf(2)] by (simp add: goes_first_def)
  have "r_id x \<le> r_id y" if "x \<in> set (chunk_rows left)" "y \<in> set (chunk_rows right)" for x y
  proof -
    have "r_id x \<in> set (ch_row_ids left)" "r_id y \<in> set (ch_row_ids right)"
      using that by (simp_all flip: chunk_rows_ids)
    then show ?thesis using lt by (simp add: order_less_imp_le)
  qed
  with f show ?thesis
    using s chunk_wfD(1) [OF wf(1)] chunk_wfD(1) [OF wf(2)]
    by (simp add: sort_key_append_ordered chunk_rows_ids)
qed

lemma concatenated_in_order:
  assumes K: "arrow_laws K" and wf: "chunk_wf left" "chunk_wf right" and cc: "concatenable left right"
    and pad: "pads_compactly left right" "pads_compactly right left"
  obtains c where "(if b then concatenated B K new_id left right else concatenated B K new_id right left) = Inr c"
    "chunk_wf c" "chunk_rows c = (if b then chunk_rows left @ chunk_rows right else chunk_rows right @ chunk_rows left)"
proof (cases b)
  case True
  with that concatenated_rows [OF K wf cc pad, of B new_id] show ?thesis by force
next
  case False
  with that concatenated_rows [OF K wf(2,1) mergeable_sym [OF wf cc] pad(2,1), of B new_id] show ?thesis by force
qed

text \<open>\<open>concat_and_sort\<close> of two mergeable chunks succeeds: the result is well-formed, sorted by row id
  and holds exactly the rows of both; when the row ids of one chunk all precede those of the other,
  it is the plain concatenation in that order, whichever way round the arguments are given.\<close>

theorem concat_and_sort_merges:
  assumes K: "arrow_laws K" and wf: "chunk_wf left" "chunk_wf right" and cc: "concatenable left right"
    and pad: "pads_compactly left right" "pads_compactly right left"
  shows "\<exists>ch. concat_and_sort B K new_id sort_id shuffle_id left right = Inr ch \<and> chunk_wf ch
    \<and> ch_is_sorted ch \<and> mset (chunk_rows ch) = mset (chunk_rows left) + mset (chunk_rows right)
    \<and> (ch_is_sorted left \<and> ch_is_sorted right
        \<and> (\<forall>a\<in>set (ch_row_ids left). \<forall>b\<in>set (ch_row_ids right). a < b)
       \<longrightarrow> chunk_rows ch = chunk_rows left @ chunk_rows right)"
proof -
  obtain c where c: "(if goes_first left right then concatenated B K new_id left right
      else concatenated B K new_id right left) = Inr c" "chunk_wf c"
    "chunk_rows c = (if goes_first left right then chunk_rows left @ chunk_rows right
      else chunk_rows right @ chunk_rows left)"
    by (rule concatenated_in_order [OF K wf cc pad])
  obtain ch where ch: "sort_by_row_ids_if_needed K sort_id shuffle_id c = Some ch" "chunk_wf ch"
    "chunk_rows ch = sort_key r_id (chunk_rows c)"
    using id_sort.resultE [of K c sort_id shuffle_id] K c(2) by blast
  have "sorted (ch_row_ids ch)" unfolding chunk_rows_ids [symmetric] ch(3) by (rule sorted_sort_key)
  then have "ch_is_sorted ch" using chunk_wfD(1) [OF ch(2)] by simp
  moreover have "concat_and_sort B K new_id sort_id shuffle_id left right = Inr ch"
    unfolding concat_and_sort_eq c(1) by (simp add: ch(1))
  moreover have "mset (chunk_rows ch) = mset (chunk_rows left) + mset (chunk_rows right)"
    by (simp add: ch(3) c(3) add.commute)
  moreover have "ch_is_sorted left \<and> ch_is_sorted right
        \<and> (\<forall>a\<in>set (ch_row_ids left). \<forall>b\<in>set (ch_row_ids right). a < b)
       \<longrightarrow> chunk_rows ch = chunk_rows left @ chunk_rows right"
    using sort_concat_ordered [OF wf] by (simp add: ch(3) c(3))
  ultimately show ?thesis using ch(2) by blast
qed

theorem concat_and_sort_merges_witness:
  "\<exists>ch. concat_and_sort \<lparr>debug_assertions = True, measured_heap_size = \<lambda>_. 0\<rparr> list_kernels (demo_id 11)
      (demo_id 12) (demo_id 13) demo_chunk demo_other = Inr ch
    \<and> map r_id (chunk_rows ch) = [demo_id 1, demo_id 2, demo_id 3, demo_id 4, demo_id 5]"
proof -
  have "ch_is_sorted demo_other" "ch_row_ids demo_other = [demo_id 4, demo_id 5]"
    by (simp_all add: demo_other_def)
  then show ?thesis
    using concat_and_sort_merges [OF arrow_laws_list_kernels demo_chunk_wf demo_other_wf demo_mergeable,
        of "\<lparr>debug_assertions = True, measured_heap_size = \<lambda>_. 0\<rparr>" "demo_id 11" "demo_id 12" "demo_id 13"]
    by (auto simp: chunk_rows_ids [of demo_chunk] chunk_rows_ids [of demo_other])
qed

section \<open>Splitting\<close>

lemma split_loop_pieces:
  assumes K: "arrow_laws K" and wf: "chunk_wf ch" and t: "target_rows \<noteq> 0"
  shows "start \<le> num_rows ch \<Longrightarrow> \<exists>ps. split_loop K new_ids ch target_rows start = Some ps
    \<and> concat (map chunk_rows ps) = drop start (chunk_rows ch)
    \<and> (\<forall>p\<in>set ps. chunk_wf p \<and> num_rows p \<noteq> 0 \<and> num_rows p \<le> target_rows)"
proof (induction "num_rows ch - start" arbitrary: start rule: less_induct)
  case less
  show ?case
  proof (cases "start < num_rows ch")
    case False
    then show ?thesis using less.prems by (simp add: split_loop.simps)
  next
    case True
    let ?size = "min (num_rows ch - start) target_rows"
    obtain p where p: "row_sliced_deep K (new_ids start) ch start ?size = Some p" "chunk_wf p"
      "chunk_rows p = take ?size (drop start (chunk_rows ch))"
      using slice.resultE [of K ch "new_ids start" start ?size True] K wf
      by (auto simp: row_sliced_deep_def)
    have np: "num_rows p = ?size" using length_chunk_rows [of p] p(3) by simp
    have "num_rows ch - (start + ?size) < num_rows ch - start" "start + ?size \<le> num_rows ch"
      using True t by auto
    from less.hyps [OF this] obtain ps where ps:
      "split_loop K new_ids ch target_rows (start + ?size) = Some ps"
      "concat (map chunk_rows ps) = drop (start + ?size) (chunk_rows ch)"
      "\<forall>p\<in>set ps. chunk_wf p \<and> num_rows p \<noteq> 0 \<and> num_rows p \<le> target_rows" by blast
    have "split_loop K new_ids ch target_rows start = Some (p # ps)"
      using True t p(1) ps(1) by (simp add: split_loop.simps [of K new_ids ch target_rows start] Let_def)
    moreover have "concat (map chunk_rows (p # ps)) = drop start (chunk_rows ch)"
      by (simp add: p(3) ps(2)) (metis add.commute append_take_drop_id drop_drop)
    ultimately show ?thesis using p(2) np ps(3) True t by (intro exI [of _ "p # ps"]) simp
  qed
qed

text \<open>C32: splitting a chunk ends, never panics and loses nothing: the rows of the pieces, in order, are
  the rows of the chunk, every piece is well-formed, and no piece has more rows than the limit that
  applies to the chunk (the limit for unsorted chunks when a timeline is unsorted and that limit is
  on, the general limit when every timeline is sorted). Nothing is split when no limit is exceeded.\<close>

theorem split_chunk_preserves_rows:
  assumes K: "arrow_laws K" and wf: "chunk_wf ch"
  shows "\<exists>ps. split_chunk_if_needed K new_ids size_bytes ch cfg = Some ps
    \<and> concat (map chunk_rows ps) = chunk_rows ch \<and> (\<forall>p\<in>set ps. chunk_wf p)
    \<and> (chunk_max_rows_if_unsorted cfg \<noteq> 0 \<and> \<not> all_timelines_sorted ch \<longrightarrow>
         (\<forall>p\<in>set ps. num_rows p \<le> chunk_max_rows_if_unsorted cfg))
    \<and> (chunk_max_rows cfg \<noteq> 0 \<and> all_timelines_sorted ch \<longrightarrow>
         (\<forall>p\<in>set ps. num_rows p \<le> chunk_max_rows cfg))
    \<and> (split_target_rows size_bytes (num_rows ch) (all_timelines_sorted ch) cfg = None \<longrightarrow> ps = [ch])"
proof (cases "num_rows ch \<le> 1 \<or> split_target_rows size_bytes (num_rows ch) (all_timelines_sorted ch) cfg = None")
  case True
  then have "split_chunk_if_needed K new_ids size_bytes ch cfg = Some [ch]"
    by (auto simp: split_chunk_if_needed_def)
  moreover have "num_rows ch \<le> chunk_max_rows_if_unsorted cfg"
    if "chunk_max_rows_if_unsorted cfg \<noteq> 0" "\<not> all_timelines_sorted ch"
    using True that by (auto simp: split_target_rows_def Let_def split: if_splits)
  moreover have "num_rows ch \<le> chunk_max_rows cfg" if "chunk_max_rows cfg \<noteq> 0" "all_timelines_sorted ch"
    using True that by (auto simp: split_target_rows_def Let_def split: if_splits)
  ultimately show ?thesis using wf by (intro exI [of _ "[ch]"]) simp
next
  case False
  then obtain target where target: "split_target_rows size_bytes (num_rows ch) (all_timelines_sorted ch) cfg = Some target"
    and n: "num_rows ch > 1" by auto
  have t0: "target \<noteq> 0" using target by (auto simp: split_target_rows_def Let_def split: if_splits)
  obtain ps where ps: "split_loop K new_ids ch target 0 = Some ps" "concat (map chunk_rows ps) = chunk_rows ch"
    "\<forall>p\<in>set ps. chunk_wf p \<and> num_rows p \<noteq> 0 \<and> num_rows p \<le> target"
    using split_loop_pieces [OF K wf t0, of 0 new_ids] by auto
  have bound: "num_rows p \<le> target" "num_rows p \<le> num_rows ch" if "p \<in> set ps" for p
  proof -
    show "num_rows p \<le> target" using ps(3) that by blast
    have "length (chunk_rows p) \<le> sum_list (map (\<lambda>q. length (chunk_rows q)) ps)"
      using that by (intro member_le_sum_list) auto
    then show "num_rows p \<le> num_rows ch"
      using arg_cong [OF ps(2), of length] by (simp add: length_concat comp_def)
  qed
  have u: "num_rows p \<le> chunk_max_rows_if_unsorted cfg"
    if "chunk_max_rows_if_unsorted cfg \<noteq> 0" "\<not> all_timelines_sorted ch" "p \<in> set ps" for p
    using target that bound [OF that(3)] by (auto simp: split_target_rows_def Let_def split: if_splits)
  have s: "num_rows p \<le> chunk_max_rows cfg"
    if "chunk_max_rows cfg \<noteq> 0" "all_timelines_sorted ch" "p \<in> set ps" for p
    using target that bound [OF that(3)] by (auto simp: split_target_rows_def Let_def split: if_splits)
  have "split_chunk_if_needed K new_ids size_bytes ch cfg = Some ps"
    using target n ps(1) by (simp add: split_chunk_if_needed_def)
  then show ?thesis using ps u s target by (intro exI [of _ ps]) simp
qed

theorem split_chunk_preserves_rows_witness:
  "\<exists>ps. split_chunk_if_needed list_kernels demo_id 0 demo_chunk
      \<lparr>chunk_max_bytes = 0, chunk_max_rows = 0, chunk_max_rows_if_unsorted = 2\<rparr> = Some ps
    \<and> map r_id (concat (map chunk_rows ps)) = [demo_id 1, demo_id 2, demo_id 3]
    \<and> (\<forall>p\<in>set ps. num_rows p \<le> 2)"
proof -
  have "\<not> all_timelines_sorted demo_chunk" by (simp add: all_timelines_sorted_def tc_new_def)
  then show ?thesis
    using split_chunk_preserves_rows [OF arrow_laws_list_kernels demo_chunk_wf, of demo_id 0
        "\<lparr>chunk_max_bytes = 0, chunk_max_rows = 0, chunk_max_rows_if_unsorted = 2\<rparr>"]
    by (auto simp: chunk_rows_ids)
qed

end
