(* ===== verification/Chunk_Query.thy ===== *)
theory Chunk_Query
  imports Chunk_Slice
begin

text \<open>
  Queries on one chunk: \<open>latest_at\<close> (\<open>crates/store/re_chunk/src/latest_at.rs\<close>) and \<open>range\<close>
  (\<open>range.rs\<close>).

  A latest-at query looks for the newest row with a value, along four code paths: static or temporal
  data, sorted or not. A range query densifies, sorts and slices; it is a pipeline of row operations.
  \<open>new_ids\<close> supplies the chunk ids that the successive steps generate. In results, the outer \<open>None\<close>
  is a panic.
\<close>

section \<open>Latest-at\<close>

record LatestAtQuery =
  laq_timeline :: "TimelineName option"
  laq_at :: TimeInt

definition latest_at_query_new :: "TimelineName \<Rightarrow> TimeInt option \<Rightarrow> LatestAtQuery" where
  "latest_at_query_new timeline at0 = \<lparr>laq_timeline = Some timeline, laq_at = saturated_temporal at0\<rparr>"

definition latest_at_query_latest :: "TimelineName \<Rightarrow> LatestAtQuery" where
  "latest_at_query_latest timeline = \<lparr>laq_timeline = Some timeline, laq_at = TimeInt_MAX\<rparr>"

definition latest_at_query_static :: LatestAtQuery where
  "latest_at_query_static = \<lparr>laq_timeline = None, laq_at = TimeInt_STATIC\<rparr>"

record 'c UnitChunk =
  uc_original_chunk_id :: ChunkId
  uc_chunk :: "'c Chunk"

definition into_unit_with_original_chunk_id :: "'c Chunk \<Rightarrow> ChunkId \<Rightarrow> 'c UnitChunk option" where
  "into_unit_with_original_chunk_id ch original_id =
     (if num_rows ch = 1 then Some \<lparr>uc_original_chunk_id = original_id, uc_chunk = ch\<rparr> else None)"

definition row_sliced_unit_shallow ::
    "'c arrow_kernels \<Rightarrow> ChunkId \<Rightarrow> 'c Chunk \<Rightarrow> nat \<Rightarrow> 'c UnitChunk option" where
  "row_sliced_unit_shallow K new_id ch index =
     Option.bind (row_sliced_shallow K new_id ch index 1)
       (\<lambda>c. into_unit_with_original_chunk_id c (ch_id ch))"

text \<open>The four searches. \<open>last_valid\<close> is the loop over the indices below \<open>n\<close> in reverse.\<close>

definition last_valid :: "'c list_array \<Rightarrow> nat \<Rightarrow> nat option" where
  "last_valid la n = List.find (la_is_valid la) (rev [0..<n])"

definition closest_static :: "'c list_array \<Rightarrow> nat \<times> RowId \<Rightarrow> RowId \<times> nat option \<Rightarrow> RowId \<times> nat option" where
  "closest_static la = (\<lambda>(i, row_id) (closest_row_id, index).
     if \<not> la_is_valid la i then (closest_row_id, index)
     else if row_id > closest_row_id then (row_id, Some i)
     else (closest_row_id, index))"

definition closest_temporal ::
    "'c list_array \<Rightarrow> i64 list \<Rightarrow> TimeInt \<Rightarrow> nat \<times> RowId \<Rightarrow>
     TimeInt \<times> RowId \<times> nat option \<Rightarrow> TimeInt \<times> RowId \<times> nat option" where
  "closest_temporal la ts at0 = (\<lambda>(i, row_id) (closest_data_time, closest_row_id, index).
     if \<not> la_is_valid la i then (closest_data_time, closest_row_id, index)
     else
       let data_time = new_temporal (ts ! i);
           is_closer_time = (data_time > closest_data_time \<and> data_time \<le> at0);
           is_same_time_but_closer_row_id = (data_time = closest_data_time \<and> row_id > closest_row_id)
       in if is_closer_time \<or> is_same_time_but_closer_row_id then (data_time, row_id, Some i)
          else (closest_data_time, closest_row_id, index))"

definition latest_at_index :: "'c Chunk \<Rightarrow> LatestAtQuery \<Rightarrow> ComponentIdentifier \<Rightarrow> nat option" where
  "latest_at_index ch query component =
     (if chunk_is_empty ch then None
      else case get_array (ch_components ch) component of
        None \<Rightarrow> None
      | Some la \<Rightarrow>
          if chunk_is_static ch then
            if ch_is_sorted ch then last_valid la (num_rows ch)
            else snd (fold (closest_static la) (List.enumerate 0 (ch_row_ids ch)) (Tuid_ZERO, None))
          else
            (case Option.bind (laq_timeline query) (map_of (ch_timelines ch)) of
               None \<Rightarrow> None
             | Some tc \<Rightarrow>
                 if tc_is_sorted tc then
                   let i = partition_point (\<lambda>time. time \<le> as_i64 (laq_at query)) (tc_times tc) - 1
                   in last_valid la (Suc i)
                 else snd (snd (fold (closest_temporal la (tc_times tc) (laq_at query))
                        (List.enumerate 0 (ch_row_ids ch)) (TimeInt_MIN, Tuid_ZERO, None)))))"

definition latest_at ::
    "'c arrow_kernels \<Rightarrow> ChunkId \<Rightarrow> 'c Chunk \<Rightarrow> LatestAtQuery \<Rightarrow> ComponentIdentifier \<Rightarrow>
     'c UnitChunk option option" where
  "latest_at K new_id ch query component =
     (case latest_at_index ch query component of
        None \<Rightarrow> Some None
      | Some i \<Rightarrow> map_option Some (row_sliced_unit_shallow K new_id ch i))"

section \<open>The searches\<close>

lemma find_rev_upt:
  "List.find P (rev [0..<n]) = Some i \<longleftrightarrow> i < n \<and> P i \<and> (\<forall>j. i < j \<and> j < n \<longrightarrow> \<not> P j)"
  "List.find P (rev [0..<n]) = None \<longleftrightarrow> (\<forall>j < n. \<not> P j)"
  by (induction n) (auto simp: less_Suc_eq)

text \<open>The index of a greatest valid position, among the positions below \<open>n\<close> that \<open>within\<close> admits, in the
  order of \<open>key\<close>.\<close>

definition greatest_index :: "(nat \<Rightarrow> bool) \<Rightarrow> (nat \<Rightarrow> 'k :: linorder) \<Rightarrow> nat \<Rightarrow> nat option \<Rightarrow> bool" where
  "greatest_index P key n r =
     (case r of
        None \<Rightarrow> \<forall>j < n. \<not> P j
      | Some i \<Rightarrow> i < n \<and> P i \<and> (\<forall>j < n. P j \<longrightarrow> key j \<le> key i))"

lemma greatest_index_cong:
  assumes "\<And>j. j < n \<Longrightarrow> P j = Q j" "\<And>i j. i < n \<Longrightarrow> j < n \<Longrightarrow> Q j \<Longrightarrow> Q i \<Longrightarrow> k j \<le> k i \<Longrightarrow> l j \<le> l i"
  shows "greatest_index P k n r \<Longrightarrow> greatest_index Q l n r"
  using assms by (auto simp: greatest_index_def split: option.splits)

lemma last_valid_greatest:
  assumes "\<And>i j. i \<le> j \<Longrightarrow> j < n \<Longrightarrow> key i \<le> key j"
  shows "greatest_index (la_is_valid la) key n (last_valid la n)"
proof (cases "last_valid la n")
  case None
  then have "\<forall>j < n. \<not> la_is_valid la j" by (simp add: last_valid_def find_rev_upt)
  with None show ?thesis by (simp add: greatest_index_def)
next
  case (Some i)
  then have "i < n" "la_is_valid la i" "\<forall>j. i < j \<and> j < n \<longrightarrow> \<not> la_is_valid la j"
    by (simp_all add: last_valid_def find_rev_upt)
  then show ?thesis using Some assms by (auto simp: greatest_index_def) (meson linorder_not_less)
qed

lemma enumerate_take_Suc:
  "n < length xs \<Longrightarrow> List.enumerate 0 (take (Suc n) xs) = List.enumerate 0 (take n xs) @ [(n, xs ! n)]"
  by (simp add: take_Suc_conv_app_nth enumerate_append_eq)

lemma closest_static_greatest:
  assumes pos: "\<forall>r\<in>set ids. Tuid_ZERO < r" and n: "n \<le> length ids"
  shows "\<exists>c r. fold (closest_static la) (List.enumerate 0 (take n ids)) (Tuid_ZERO, None) = (c, r)
    \<and> greatest_index (la_is_valid la) ((!) ids) n r \<and> c = (case r of None \<Rightarrow> Tuid_ZERO | Some i \<Rightarrow> ids ! i)"
  using n
proof (induction n)
  case (Suc n)
  then obtain c r where ih: "fold (closest_static la) (List.enumerate 0 (take n ids)) (Tuid_ZERO, None) = (c, r)"
    "greatest_index (la_is_valid la) ((!) ids) n r" "c = (case r of None \<Rightarrow> Tuid_ZERO | Some i \<Rightarrow> ids ! i)"
    by auto
  have "Tuid_ZERO < ids ! n" using pos Suc.prems by simp
  then show ?case
    using ih Suc.prems
    by (auto simp: enumerate_take_Suc closest_static_def greatest_index_def less_Suc_eq
        split: option.splits)
qed (simp add: greatest_index_def)


text \<open>The unsorted scan. Row ids are never zero; the time of a query on a timeline is temporal.\<close>

lemma closest_temporal_greatest:
  fixes ids :: "RowId list" and la :: "'c list_array" and ts :: "i64 list"
  assumes pos: "\<forall>r\<in>set ids. Tuid_ZERO < r" and n: "n \<le> length ids"
    and at0: "TimeInt_MIN \<le> at0"
  defines "tm \<equiv> \<lambda>j. new_temporal (ts ! j)"
  defines "ok \<equiv> \<lambda>j. la_is_valid la j \<and> tm j \<le> at0"
  shows "\<exists>t c r. fold (closest_temporal la ts at0) (List.enumerate 0 (take n ids)) (TimeInt_MIN, Tuid_ZERO, None) = (t, c, r)
    \<and> greatest_index ok (\<lambda>j. (tm j, ids ! j)) n r
    \<and> (t, c) = (case r of None \<Rightarrow> (TimeInt_MIN, Tuid_ZERO) | Some i \<Rightarrow> (tm i, ids ! i))"
  using n
proof (induction n)
  case (Suc n)
  then obtain t c r where ih:
    "fold (closest_temporal la ts at0) (List.enumerate 0 (take n ids)) (TimeInt_MIN, Tuid_ZERO, None) = (t, c, r)"
    "greatest_index ok (\<lambda>j. (tm j, ids ! j)) n r"
    "(t, c) = (case r of None \<Rightarrow> (TimeInt_MIN, Tuid_ZERO) | Some i \<Rightarrow> (tm i, ids ! i))" by auto
  have z: "Tuid_ZERO < ids ! n" using pos Suc.prems by simp
  have m: "TimeInt_MIN \<le> tm n" unfolding tm_def by (simp flip: temporal_iff_MIN_le)
  have step: "fold (closest_temporal la ts at0) (List.enumerate 0 (take (Suc n) ids)) (TimeInt_MIN, Tuid_ZERO, None)
      = closest_temporal la ts at0 (n, ids ! n) (t, c, r)"
    using Suc.prems ih(1) by (simp add: enumerate_take_Suc)
  let ?take = "la_is_valid la n \<and> (t < tm n \<and> tm n \<le> at0 \<or> tm n = t \<and> c < ids ! n)"
  have eq: "closest_temporal la ts at0 (n, ids ! n) (t, c, r) = (if ?take then (tm n, ids ! n, Some n) else (t, c, r))"
    by (auto simp: closest_temporal_def tm_def)
  show ?case
  proof (cases r)
    case None
    with ih(3) have "t = TimeInt_MIN" "c = Tuid_ZERO" by simp_all
    then have "?take \<longleftrightarrow> ok n" using z m at0 by (auto simp: ok_def)
    then show ?thesis using ih None unfolding step eq by (auto simp: greatest_index_def less_Suc_eq)
  next
    case (Some i)
    with ih(2,3) have i: "t = tm i" "c = ids ! i" "i < n" "ok i"
      "\<forall>j<n. ok j \<longrightarrow> (tm j, ids ! j) \<le> (tm i, ids ! i)" by (simp_all add: greatest_index_def)
    have "?take \<longleftrightarrow> ok n \<and> (tm i, ids ! i) < (tm n, ids ! n)"
      using i by (auto simp: ok_def less_prod_def)
    moreover have "ok n \<and> \<not> (tm i, ids ! i) < (tm n, ids ! n) \<longrightarrow> (tm n, ids ! n) \<le> (tm i, ids ! i)"
      using linorder_not_less by blast
    moreover have "(tm i, ids ! i) < (tm n, ids ! n) \<Longrightarrow>
        \<forall>j<n. ok j \<longrightarrow> (tm j, ids ! j) \<le> (tm n, ids ! n)" using i(5) by (meson less_imp_le order_trans)
    ultimately show ?thesis
      using i Some unfolding step eq by (simp add: greatest_index_def less_Suc_eq del: less_eq_prod_simp less_prod_simp)
  qed
qed (simp add: greatest_index_def)

text \<open>The index the query finds, on static and on temporal chunks.\<close>

lemma latest_at_index_static:
  assumes wf: "chunk_wf ch" and "num_rows ch \<noteq> 0" "chunk_is_static ch"
    and la: "get_array (ch_components ch) c = Some la"
    and pos: "\<forall>r\<in>set (ch_row_ids ch). Tuid_ZERO < r"
  shows "greatest_index (la_is_valid la) ((!) (ch_row_ids ch)) (num_rows ch) (latest_at_index ch query c)"
proof (cases "ch_is_sorted ch")
  case True
  then have "greatest_index (la_is_valid la) ((!) (ch_row_ids ch)) (num_rows ch) (last_valid la (num_rows ch))"
    using chunk_wfD(1) [OF wf] by (intro last_valid_greatest) (simp add: sorted_nth_mono num_rows_def)
  then show ?thesis using True assms by (simp add: latest_at_index_def chunk_is_empty_def)
next
  case False
  then show ?thesis
    using assms closest_static_greatest [OF pos, of "num_rows ch" la]
    by (auto simp: latest_at_index_def chunk_is_empty_def num_rows_def)
qed

lemma sorted_prefix_greatest:
  assumes ts: "sorted ts" "length ts = n" and ids: "sorted ids" "length ids = n"
    and t: "t \<in> set ts" "t \<le> bound"
  shows "greatest_index (\<lambda>i. la_is_valid la i \<and> ts ! i \<le> bound) (\<lambda>i. (ts ! i, ids ! i)) n
    (last_valid la (Suc (partition_point (\<lambda>x. x \<le> bound) ts - 1)))"
proof -
  let ?p = "partition_point (\<lambda>x. x \<le> bound) ts"
  have iff: "i < ?p \<longleftrightarrow> ts ! i \<le> bound" if "i < n" for i
    using that ts by (intro partition_point_le_iff) auto
  obtain k where k: "k < n" "ts ! k = t" using t(1) ts(2) by (auto simp: in_set_conv_nth)
  have p0: "?p \<noteq> 0" using iff [OF k(1)] k(2) t(2) by auto
  have pn: "?p \<le> n" using partition_point_le [of "\<lambda>x. x \<le> bound" ts] ts(2) by simp
  have "greatest_index (la_is_valid la) (\<lambda>i. (ts ! i, ids ! i)) ?p (last_valid la ?p)"
    by (rule last_valid_greatest) (use pn ts ids in \<open>auto simp: sorted_nth_mono\<close>)
  then have "greatest_index (\<lambda>i. la_is_valid la i \<and> ts ! i \<le> bound) (\<lambda>i. (ts ! i, ids ! i)) n (last_valid la ?p)"
    using iff pn partition_point_before [of _ "\<lambda>x. x \<le> bound" ts]
    unfolding greatest_index_def by (auto split: option.splits)
  then show ?thesis using p0 by simp
qed

lemma latest_at_index_temporal:
  assumes wf: "chunk_wf ch" and "num_rows ch \<noteq> 0" and la: "get_array (ch_components ch) c = Some la"
    and tc: "map_of (ch_timelines ch) timeline = Some tc" and q: "laq_timeline query = Some timeline"
    and at0: "laq_at query \<noteq> TimeInt_STATIC" and pos: "\<forall>r\<in>set (ch_row_ids ch). Tuid_ZERO < r"
    and srt: "tc_is_sorted tc \<longrightarrow> ch_is_sorted ch \<and> (\<exists>t\<in>set (tc_times tc). t \<le> as_i64 (laq_at query))"
  shows "greatest_index (\<lambda>i. la_is_valid la i \<and> tc_times tc ! i \<le> as_i64 (laq_at query))
    (\<lambda>i. (tc_times tc ! i, ch_row_ids ch ! i)) (num_rows ch) (latest_at_index ch query c)"
proof -
  note tcw = timelines_okD [OF chunk_wfD(2) [OF wf] tc]
  have ns: "\<not> chunk_is_static ch" using tc by (auto simp: chunk_is_static_def)
  note defs = latest_at_index_def chunk_is_empty_def
  show ?thesis
  proof (cases "tc_is_sorted tc")
    case True
    with srt obtain t where t: "t \<in> set (tc_times tc)" "t \<le> as_i64 (laq_at query)" and "ch_is_sorted ch"
      by blast
    then have s: "sorted (tc_times tc)" "sorted (ch_row_ids ch)"
      using True tcw(1) chunk_wfD(1) [OF wf] by (simp_all add: tc_wf_def)
    have "latest_at_index ch query c
        = last_valid la (Suc (partition_point (\<lambda>x. x \<le> as_i64 (laq_at query)) (tc_times tc) - 1))"
      using True assms(2) la tc q ns by (simp add: defs)
    with sorted_prefix_greatest [OF s(1) tcw(2) s(2) _ t, of la] show ?thesis by (simp add: num_rows_def)
  next
    case False
    have v: "as_i64 (new_temporal (tc_times tc ! j)) = tc_times tc ! j" if "j < num_rows ch" for j
    proof -
      have "tc_times tc ! j \<in> set (tc_times tc)" using that tcw(2) by simp
      then show ?thesis using tcw(1) unfolding tc_wf_def times_valid_def
        by (intro as_i64_new_temporal_valid) blast+
    qed
    obtain t c' r where r: "fold (closest_temporal la (tc_times tc) (laq_at query)) (List.enumerate 0
        (take (num_rows ch) (ch_row_ids ch))) (TimeInt_MIN, Tuid_ZERO, None) = (t, c', r)"
      "greatest_index (\<lambda>j. la_is_valid la j \<and> new_temporal (tc_times tc ! j) \<le> laq_at query)
        (\<lambda>j. (new_temporal (tc_times tc ! j), ch_row_ids ch ! j)) (num_rows ch) r"
      using closest_temporal_greatest [OF pos, of "num_rows ch" "laq_at query" la "tc_times tc"]
        at0 [unfolded temporal_iff_MIN_le] unfolding num_rows_def by blast
    have "latest_at_index ch query c = r"
      using r(1) False assms(2) la tc q ns by (simp add: defs num_rows_def)
    moreover have "greatest_index (\<lambda>j. la_is_valid la j \<and> tc_times tc ! j \<le> as_i64 (laq_at query))
        (\<lambda>j. (tc_times tc ! j, ch_row_ids ch ! j)) (num_rows ch) r"
      using r(2) by (rule greatest_index_cong [rotated 2]) (simp_all add: v less_eq_TimeInt_iff less_TimeInt_iff)
    ultimately show ?thesis by simp
  qed
qed

section \<open>Latest-at on rows\<close>

text \<open>The newest row that satisfies a predicate, in the order of a key.\<close>

definition newest :: "('c row \<Rightarrow> bool) \<Rightarrow> ('c row \<Rightarrow> 'k :: linorder) \<Rightarrow> 'c row list \<Rightarrow> 'c row option \<Rightarrow> bool" where
  "newest P key rows r =
     (case r of
        None \<Rightarrow> \<forall>x\<in>set rows. \<not> P x
      | Some x \<Rightarrow> x \<in> set rows \<and> P x \<and> (\<forall>y\<in>set rows. P y \<longrightarrow> key y \<le> key x))"

lemma newest_index:
  assumes "greatest_index P k (num_rows ch) r"
    and "\<And>i. i < num_rows ch \<Longrightarrow> P i = Q (chunk_row ch i)" "\<And>i. i < num_rows ch \<Longrightarrow> k i = key (chunk_row ch i)"
  shows "newest Q key (chunk_rows ch) (map_option (chunk_row ch) r)"
  using assms by (auto simp: newest_def greatest_index_def chunk_rows_def split: option.splits)

lemma row_sliced_unit:
  assumes K: "arrow_laws K" and wf: "chunk_wf ch" and i: "i < num_rows ch"
  obtains u where "row_sliced_unit_shallow K new_id ch i = Some u" "chunk_wf (uc_chunk u)"
    "chunk_rows (uc_chunk u) = [chunk_row ch i]" "uc_original_chunk_id u = ch_id ch"
proof -
  obtain c where c: "row_sliced_impl K new_id ch i 1 False = Some c" "chunk_wf c"
    "chunk_rows c = take 1 (drop i (chunk_rows ch))"
    using slice.resultE [of K ch new_id i 1 False] K wf by blast
  have r: "chunk_rows c = [chunk_row ch i]" using i by (simp add: c(3) take_Suc_conv_app_nth)
  then have "num_rows c = 1" by (metis length_chunk_rows length_Cons list.size(3) One_nat_def)
  with c r that [of "\<lparr>uc_original_chunk_id = ch_id ch, uc_chunk = c\<rparr>"] show ?thesis
    by (simp add: row_sliced_unit_shallow_def row_sliced_shallow_def into_unit_with_original_chunk_id_def)
qed

lemma latest_at_index_bound:
  "greatest_index P k n r \<Longrightarrow> r = Some i \<Longrightarrow> i < n"
  by (simp add: greatest_index_def)

definition unit_result :: "'c Chunk \<Rightarrow> 'c UnitChunk option \<Rightarrow> 'c row option \<Rightarrow> bool" where
  "unit_result ch res r =
     (case res of
        None \<Rightarrow> r = None
      | Some u \<Rightarrow> chunk_wf (uc_chunk u) \<and> uc_original_chunk_id u = ch_id ch
          \<and> (\<exists>x. r = Some x \<and> chunk_rows (uc_chunk u) = [x]))"

lemma latest_at_unit:
  assumes K: "arrow_laws K" and wf: "chunk_wf ch"
    and g: "greatest_index P k (num_rows ch) (latest_at_index ch query c)"
  shows "\<exists>res. latest_at K new_id ch query c = Some res
    \<and> unit_result ch res (map_option (chunk_row ch) (latest_at_index ch query c))"
proof (cases "latest_at_index ch query c")
  case None
  then show ?thesis by (simp add: latest_at_def unit_result_def)
next
  case (Some i)
  have "i < num_rows ch" by (rule latest_at_index_bound [OF g Some])
  from row_sliced_unit [OF K wf this, of new_id] obtain u where
    "row_sliced_unit_shallow K new_id ch i = Some u" "chunk_wf (uc_chunk u)"
    "chunk_rows (uc_chunk u) = [chunk_row ch i]" "uc_original_chunk_id u = ch_id ch" by blast
  then show ?thesis using Some by (simp add: latest_at_def unit_result_def)
qed

lemma valid_row:
  assumes "chunk_wf ch" "get_array (ch_components ch) c = Some la" "i < num_rows ch"
  shows "la_is_valid la i \<longleftrightarrow> r_cells (chunk_row ch i) c \<noteq> None"
proof -
  obtain col where col: "map_of (ch_components ch) c = Some col" "la = sc_list_array col"
    using assms(2) by (auto simp: get_array_def)
  then have "la_len la = num_rows ch" using columns_okD(3) [OF chunk_wfD(3) [OF assms(1)]] by simp
  then show ?thesis using col assms(3) by (simp add: chunk_row_def cell_at_def la_iter_nth)
qed

text \<open>The unsorted scan finds the newest row whatever the times are; the binary search on a sorted timeline
  needs the chunk to be sorted by row id and not to start after the queried time.\<close>

lemma latest_at_temporal_newest_row:
  assumes K: "arrow_laws K" and wf: "chunk_wf ch" and ne: "num_rows ch \<noteq> 0"
    and la: "get_array (ch_components ch) c \<noteq> None"
    and tc: "map_of (ch_timelines ch) timeline = Some tc" and q: "laq_timeline query = Some timeline"
    and at0: "laq_at query \<noteq> TimeInt_STATIC" and pos: "\<forall>r\<in>set (ch_row_ids ch). Tuid_ZERO < r"
    and srt: "tc_is_sorted tc \<longrightarrow> ch_is_sorted ch \<and> (\<exists>t\<in>set (tc_times tc). t \<le> as_i64 (laq_at query))"
  shows "\<exists>res r. latest_at K new_id ch query c = Some res \<and> unit_result ch res r
    \<and> newest (\<lambda>r. r_cells r c \<noteq> None \<and> the (r_times r timeline) \<le> as_i64 (laq_at query))
        (row_time_key timeline) (chunk_rows ch) r"
proof -
  obtain la where la: "get_array (ch_components ch) c = Some la" using la by blast
  note g = latest_at_index_temporal [OF wf ne la tc q at0 pos srt]
  have time: "the (r_times (chunk_row ch i) timeline) = tc_times tc ! i" for i
    using tc by (simp add: chunk_row_def time_at_def)
  have "newest (\<lambda>r. r_cells r c \<noteq> None \<and> the (r_times r timeline) \<le> as_i64 (laq_at query))
      (row_time_key timeline) (chunk_rows ch) (map_option (chunk_row ch) (latest_at_index ch query c))"
    by (rule newest_index [OF g])
      (simp_all add: time valid_row [OF wf la] row_time_key_def, simp add: chunk_row_def)
  then show ?thesis using latest_at_unit [OF K wf g, of new_id] by blast
qed

text \<open>A sorted timeline that starts after the queried time leaves only the first row to look at.\<close>

lemma latest_at_index_future:
  assumes wf: "chunk_wf ch" and ne: "num_rows ch \<noteq> 0" and la: "get_array (ch_components ch) c = Some la"
    and tc: "map_of (ch_timelines ch) timeline = Some tc" "tc_is_sorted tc" and q: "laq_timeline query = Some timeline"
    and fut: "\<forall>t\<in>set (tc_times tc). as_i64 (laq_at query) < t"
  shows "latest_at_index ch query c = (if la_is_valid la 0 then Some 0 else None)"
proof -
  have "partition_point (\<lambda>x. x \<le> as_i64 (laq_at query)) (tc_times tc) = 0"
    using fut by (cases "tc_times tc") (auto simp: partition_point_def)
  moreover have "\<not> chunk_is_static ch" using tc by (auto simp: chunk_is_static_def)
  ultimately show ?thesis
    using ne la tc q by (simp add: latest_at_index_def chunk_is_empty_def last_valid_def)
qed

text \<open>C8: a latest-at query on a temporal chunk never panics and finds the newest row: among the rows
  that have a value for the component and are not later than the queried time, the one with the
  greatest time and, for equal times, the greatest row id; it returns \<open>None\<close> exactly when there is no
  such row. There is one exception: a timeline that is flagged as sorted and starts after the queried time
  gives the first row when it has a value, although that row is later, and \<open>None\<close> otherwise. The
  binary search on a sorted timeline assumes that the chunk is also sorted by row id; the row ids are not
  zero, and the query is at a temporal time.\<close>

theorem latest_at_temporal_newest:
  assumes K: "arrow_laws K" and wf: "chunk_wf ch" and ne: "num_rows ch \<noteq> 0"
    and la: "get_array (ch_components ch) c \<noteq> None"
    and tc: "map_of (ch_timelines ch) timeline = Some tc" and q: "laq_timeline query = Some timeline"
    and at0: "laq_at query \<noteq> TimeInt_STATIC" and pos: "\<forall>r\<in>set (ch_row_ids ch). Tuid_ZERO < r"
    and srt: "tc_is_sorted tc \<longrightarrow> ch_is_sorted ch"
  shows "\<exists>res r. latest_at K new_id ch query c = Some res \<and> unit_result ch res r
    \<and> (if tc_is_sorted tc \<and> (\<forall>t\<in>set (tc_times tc). as_i64 (laq_at query) < t)
       then r = (if r_cells (chunk_row ch 0) c \<noteq> None then Some (chunk_row ch 0) else None)
       else newest (\<lambda>r. r_cells r c \<noteq> None \<and> the (r_times r timeline) \<le> as_i64 (laq_at query))
         (row_time_key timeline) (chunk_rows ch) r)"
proof (cases "tc_is_sorted tc \<and> (\<forall>t\<in>set (tc_times tc). as_i64 (laq_at query) < t)")
  case True
  obtain la where la: "get_array (ch_components ch) c = Some la" using la by blast
  have i: "latest_at_index ch query c = (if la_is_valid la 0 then Some 0 else None)"
    using latest_at_index_future [OF wf ne la tc _ q] True by blast
  have v: "la_is_valid la 0 \<longleftrightarrow> r_cells (chunk_row ch 0) c \<noteq> None" using valid_row [OF wf la] ne by simp
  obtain u where "row_sliced_unit_shallow K new_id ch 0 = Some u" "chunk_wf (uc_chunk u)"
    "chunk_rows (uc_chunk u) = [chunk_row ch 0]" "uc_original_chunk_id u = ch_id ch"
    using row_sliced_unit [OF K wf, of 0 new_id] ne by blast
  then have "latest_at K new_id ch query c = Some (if la_is_valid la 0 then Some u else None)
      \<and> unit_result ch (if la_is_valid la 0 then Some u else None) (if la_is_valid la 0 then Some (chunk_row ch 0) else None)"
    by (simp add: latest_at_def unit_result_def i)
  then show ?thesis unfolding if_P [OF True] v by blast
next
  case False
  then have "tc_is_sorted tc \<longrightarrow> ch_is_sorted ch \<and> (\<exists>t\<in>set (tc_times tc). t \<le> as_i64 (laq_at query))"
    using srt by (auto simp: linorder_not_less)
  then show ?thesis unfolding if_not_P [OF False] by (rule latest_at_temporal_newest_row [OF assms(1-8)])
qed

lemma demo_id_pos [simp]: "0 < n \<Longrightarrow> n < 2 ^ 128 \<Longrightarrow> Tuid_ZERO < demo_id n"
proof -
  assume n: "0 < n" "n < 2 ^ 128"
  have z: "u64_from_be_bytes (replicate 8 0) = 0"
    by (simp add: u64_from_be_bytes_def be_value_def eval_nat_numeral)
  have "as_u128 Tuid_ZERO = 0" by (simp add: as_u128_def nanos_since_epoch_def tuid_inc_def Tuid_ZERO_def z)
  moreover have "tuid_wf Tuid_ZERO" by (simp add: tuid_wf_def Tuid_ZERO_def)
  ultimately show ?thesis
    using n by (simp add: demo_id_def tuid_less_iff word_less_nat_alt unat_of_nat)
qed

theorem latest_at_temporal_newest_witness:
  "\<exists>res r. latest_at list_kernels (demo_id 7) demo_chunk
      \<lparr>laq_timeline = Some ''frame'', laq_at = new_temporal 4\<rparr> ''pos'' = Some res
    \<and> unit_result demo_chunk res r
    \<and> newest (\<lambda>r. r_cells r ''pos'' \<noteq> None \<and> the (r_times r ''frame'') \<le> 4)
        (row_time_key ''frame'') (chunk_rows demo_chunk) r"
proof -
  have "as_i64 (new_temporal 4) = 4" by (simp add: as_i64_new_temporal_valid i64_MIN_def i64_MAX_def)
  moreover have "\<not> tc_is_sorted (tc_new None \<lparr>tl_name = ''frame'', tl_typ = Sequence\<rparr> [5, 3, 3])"
    by (simp add: tc_new_def)
  ultimately show ?thesis
    using latest_at_temporal_newest [OF arrow_laws_list_kernels demo_chunk_wf, where c = "''pos''"
        and timeline = "''frame''" and query = "\<lparr>laq_timeline = Some ''frame'', laq_at = new_temporal 4\<rparr>"
        and new_id = "demo_id 7"] by (simp add: get_array_def)
qed

lemma latest_at_static_rows:
  assumes K: "arrow_laws K" and wf: "chunk_wf ch" and ne: "num_rows ch \<noteq> 0" and st: "chunk_is_static ch"
    and la: "get_array (ch_components ch) c \<noteq> None" and pos: "\<forall>r\<in>set (ch_row_ids ch). Tuid_ZERO < r"
  shows "\<exists>res r. latest_at K new_id ch query c = Some res \<and> unit_result ch res r
    \<and> newest (\<lambda>r. r_cells r c \<noteq> None) r_id (chunk_rows ch) r"
proof -
  obtain la where la: "get_array (ch_components ch) c = Some la" using la by blast
  note g = latest_at_index_static [OF wf ne st la pos, of query]
  have "newest (\<lambda>r. r_cells r c \<noteq> None) r_id (chunk_rows ch) (map_option (chunk_row ch) (latest_at_index ch query c))"
    by (rule newest_index [OF g]) (simp_all add: valid_row [OF wf la], simp add: chunk_row_def)
  then show ?thesis using latest_at_unit [OF K wf g, of new_id] by blast
qed

text \<open>On a static chunk a latest-at query returns the row with the greatest row id among those that
  have a value, whether or not the rows are sorted, and \<open>None\<close> exactly when no row has one.\<close>

theorem latest_at_static_newest:
  assumes K: "arrow_laws K" and wf: "chunk_wf ch" and ne: "num_rows ch \<noteq> 0" and st: "chunk_is_static ch"
    and la: "get_array (ch_components ch) c \<noteq> None" and pos: "\<forall>r\<in>set (ch_row_ids ch). Tuid_ZERO < r"
  shows "\<exists>res r. latest_at K new_id ch query c = Some res \<and> unit_result ch res r
    \<and> newest (\<lambda>r. r_cells r c \<noteq> None) r_id (chunk_rows ch) r"
  by (rule latest_at_static_rows [OF assms])

lemma into_static_wf: "chunk_wf ch \<Longrightarrow> chunk_wf (into_static ch)"
  by (simp add: chunk_wf_def into_static_def timelines_ok_def num_rows_def)

theorem latest_at_static_newest_witness:
  "\<exists>res r. latest_at list_kernels (demo_id 7) (into_static demo_chunk) latest_at_query_static ''pos'' = Some res
    \<and> unit_result (into_static demo_chunk) res r
    \<and> newest (\<lambda>r. r_cells r ''pos'' \<noteq> None) r_id (chunk_rows (into_static demo_chunk)) r"
proof (rule latest_at_static_newest [OF arrow_laws_list_kernels into_static_wf [OF demo_chunk_wf]])
  show "num_rows (into_static demo_chunk) \<noteq> 0" "chunk_is_static (into_static demo_chunk)"
    "get_array (ch_components (into_static demo_chunk)) ''pos'' \<noteq> None"
    "\<forall>r\<in>set (ch_row_ids (into_static demo_chunk)). Tuid_ZERO < r"
    by (simp_all add: into_static_def num_rows_def chunk_is_static_def get_array_def)
qed

text \<open>C33: when every time of a sorted timeline is after the queried time, the search still falls back on
  the first row (the subtraction saturates at zero) and returns it if it has a value.\<close>

theorem latest_at_returns_future_row:
  assumes "arrow_laws K" and wf: "chunk_wf ch" and ne: "num_rows ch \<noteq> 0"
    and la: "get_array (ch_components ch) c = Some la" "la_is_valid la 0"
    and tc: "map_of (ch_timelines ch) timeline = Some tc" "tc_is_sorted tc"
    and q: "laq_timeline query = Some timeline" and fut: "\<forall>t\<in>set (tc_times tc). as_i64 (laq_at query) < t"
  shows "\<exists>u. latest_at K new_id ch query c = Some (Some u) \<and> chunk_rows (uc_chunk u) = [chunk_row ch 0]
    \<and> as_i64 (laq_at query) < the (r_times (chunk_row ch 0) timeline)"
proof -
  have tl0: "length (tc_times tc) = num_rows ch" by (rule timelines_okD(2) [OF chunk_wfD(2) [OF wf] tc(1)])
  have "latest_at_index ch query c = Some 0"
    using latest_at_index_future [OF wf ne la(1) tc q fut] la(2) by simp
  moreover obtain u where "row_sliced_unit_shallow K new_id ch 0 = Some u" "chunk_rows (uc_chunk u) = [chunk_row ch 0]"
    using row_sliced_unit [OF assms(1) wf, of 0 new_id] ne by blast
  moreover have "as_i64 (laq_at query) < tc_times tc ! 0" using fut tl0 ne by (metis gr0I nth_mem)
  ultimately show ?thesis using tc by (simp add: latest_at_def chunk_row_def time_at_def)
qed

definition demo_sorted :: "nat Chunk" where
  "demo_sorted = demo_chunk\<lparr>ch_timelines :=
     [(''frame'', tc_new None \<lparr>tl_name = ''frame'', tl_typ = Sequence\<rparr> [5, 6, 7])]\<rparr>"

lemma demo_sorted_wf: "chunk_wf demo_sorted"
proof -
  have "tc_wf (tc_new None \<lparr>tl_name = ''frame'', tl_typ = Sequence\<rparr> [5, 6, 7])"
    by (rule tc_wf_new) (simp_all add: times_valid_def i64_MIN_def i64_MAX_def)
  then show ?thesis
    using chunk_wfD(1,3) [OF demo_chunk_wf]
    by (simp add: chunk_wf_def demo_sorted_def timelines_ok_def num_rows_def)
qed

theorem latest_at_returns_future_row_witness:
  "\<exists>u. latest_at list_kernels (demo_id 7) demo_sorted
      \<lparr>laq_timeline = Some ''frame'', laq_at = new_temporal 4\<rparr> ''pos'' = Some (Some u)
    \<and> chunk_rows (uc_chunk u) = [chunk_row demo_sorted 0]
    \<and> as_i64 (new_temporal 4) < the (r_times (chunk_row demo_sorted 0) ''frame'')"
proof -
  have "as_i64 (new_temporal 4) = 4" by (simp add: as_i64_new_temporal_valid i64_MIN_def i64_MAX_def)
  then show ?thesis
    using latest_at_returns_future_row [OF arrow_laws_list_kernels demo_sorted_wf, where c = "''pos''"
        and timeline = "''frame''" and query = "\<lparr>laq_timeline = Some ''frame'', laq_at = new_temporal 4\<rparr>"
        and new_id = "demo_id 7"]
    by (simp add: demo_sorted_def num_rows_def get_array_def demo_column_def la_is_valid_def la_of_rows_def)
qed

section \<open>Range\<close>

record RangeQueryOptions =
  keep_extra_timelines :: bool
  keep_extra_components :: bool
  include_extended_bounds :: bool

record RangeQuery =
  rq_timeline :: TimelineName
  rq_range :: AbsoluteTimeRange
  rq_options :: RangeQueryOptions

definition RangeQueryOptions_DEFAULT :: RangeQueryOptions where
  "RangeQueryOptions_DEFAULT = \<lparr>keep_extra_timelines = False, keep_extra_components = False,
     include_extended_bounds = False\<rparr>"

definition range_query_new :: "TimelineName \<Rightarrow> AbsoluteTimeRange \<Rightarrow> RangeQuery" where
  "range_query_new timeline r = \<lparr>rq_timeline = timeline, rq_range = r, rq_options = RangeQueryOptions_DEFAULT\<rparr>"

definition range_query_with_extras :: "TimelineName \<Rightarrow> AbsoluteTimeRange \<Rightarrow> RangeQuery" where
  "range_query_with_extras timeline r = \<lparr>rq_timeline = timeline, rq_range = r,
     rq_options = \<lparr>keep_extra_timelines = True, keep_extra_components = True, include_extended_bounds = False\<rparr>\<rparr>"

definition range_query_everything :: "TimelineName \<Rightarrow> RangeQuery" where
  "range_query_everything timeline = \<lparr>rq_timeline = timeline, rq_range = AbsoluteTimeRange_EVERYTHING,
     rq_options = RangeQueryOptions_DEFAULT\<rparr>"

definition range_sorted ::
    "'c arrow_kernels \<Rightarrow> (nat \<Rightarrow> ChunkId) \<Rightarrow> RangeQuery \<Rightarrow> nat \<Rightarrow> 'c Chunk \<Rightarrow> 'c Chunk option" where
  "range_sorted K new_ids query self_num_rows chunk =
     (case map_of (ch_timelines chunk) (rq_timeline query) of
        None \<Rightarrow> Some (emptied (new_ids 6) chunk)
      | Some tc \<Rightarrow>
          let start_index = partition_point (\<lambda>time. time < as_i64 (range_min (rq_range query))) (tc_times tc);
              end_index = partition_point (\<lambda>time. time \<le> as_i64 (range_max (rq_range query))) (tc_times tc);
              extended = include_extended_bounds (rq_options query);
              start_index' = (if extended then start_index - 1 else start_index);
              end_index' = (if extended then min self_num_rows (end_index + 1) else end_index)
          in row_sliced_shallow K (new_ids 7) chunk start_index' (end_index' - start_index'))"

definition range_sliced ::
    "(nat \<Rightarrow> ChunkId) \<Rightarrow> 'c Chunk \<Rightarrow> RangeQuery \<Rightarrow> ComponentIdentifier \<Rightarrow> 'c Chunk" where
  "range_sliced new_ids ch query component =
     (let chunk = (if keep_extra_timelines (rq_options query) then ch
                   else timeline_sliced (new_ids 0) ch (rq_timeline query))
      in if keep_extra_components (rq_options query) then chunk
         else component_sliced (new_ids 1) chunk component)"

definition chunk_range ::
    "'c arrow_kernels \<Rightarrow> (nat \<Rightarrow> ChunkId) \<Rightarrow> 'c Chunk \<Rightarrow> RangeQuery \<Rightarrow> ComponentIdentifier \<Rightarrow> 'c Chunk option" where
  "chunk_range K new_ids ch query component =
     (if chunk_is_empty ch then Some ch
      else
        let chunk = range_sliced new_ids ch query component in
        if chunk_is_static chunk then
          (case latest_at K (new_ids 2) chunk latest_at_query_static component of
             None \<Rightarrow> None
           | Some (Some unit_chunk) \<Rightarrow> Some (uc_chunk unit_chunk)
           | Some None \<Rightarrow> Some (emptied (new_ids 2) chunk))
        else
          (case map_of (ch_timelines chunk) (rq_timeline query) of
             None \<Rightarrow> Some (emptied (new_ids 2) chunk)
           | Some tc \<Rightarrow>
               (case densified K (new_ids 3) chunk component of
                  None \<Rightarrow> None
                | Some (chunk, _) \<Rightarrow>
                    (case (if tc_is_sorted tc then Some chunk
                           else sorted_by_timeline_if_unsorted K (new_ids 4) (new_ids 5) chunk (rq_timeline query)) of
                       None \<Rightarrow> None
                     | Some chunk \<Rightarrow> range_sorted K new_ids query (num_rows ch) chunk))))"






text \<open>The pre-slicing: it drops columns the caller does not want.\<close>

definition query_row :: "RangeQuery \<Rightarrow> ComponentIdentifier \<Rightarrow> 'c row \<Rightarrow> 'c row" where
  "query_row query component r =
     r\<lparr>r_times := (if keep_extra_timelines (rq_options query) then r_times r else r_times r |` {rq_timeline query}),
       r_cells := (if keep_extra_components (rq_options query) then r_cells r else r_cells r |` {component})\<rparr>"

lemma timeline_sliced_rows:
  assumes "chunk_wf ch"
  shows "chunk_wf (timeline_sliced new_id ch k)"
    "chunk_rows (timeline_sliced new_id ch k) = map (\<lambda>r. r\<lparr>r_times := r_times r |` {k}\<rparr>) (chunk_rows ch)"
proof -
  show "chunk_wf (timeline_sliced new_id ch k)"
    using assms timelines_okD [OF chunk_wfD(2) [OF assms]]
    by (auto simp: chunk_wf_def timeline_sliced_def num_rows_def timelines_ok_def split: option.splits)
  show "chunk_rows (timeline_sliced new_id ch k) = map (\<lambda>r. r\<lparr>r_times := r_times r |` {k}\<rparr>) (chunk_rows ch)"
    by (rule rows_restrict_timelines) (auto simp: timeline_sliced_def split: option.splits)
qed

lemma component_sliced_rows:
  assumes wf: "chunk_wf ch"
  shows "chunk_wf (component_sliced new_id ch c)"
    "chunk_rows (component_sliced new_id ch c) = map (\<lambda>r. r\<lparr>r_cells := r_cells r |` {c}\<rparr>) (chunk_rows ch)"
proof -
  have look: "map_of (ch_components (component_sliced new_id ch c)) k
      = (if k \<in> {c} then map_of (ch_components ch) k else None)" for k
    using components_sliced_lookup [OF wf, of new_id "[c]" k] by (simp add: component_sliced_def)
  have d: "distinct (map fst (ch_components (component_sliced new_id ch c)))"
    by (simp add: component_sliced_def components_sliced_def components_from_iter_def
        distinct_fold_components_insert)
  show "chunk_wf (component_sliced new_id ch c)"
    by (rule chunk_wf_fewer_components [OF wf _ _ _ d look])
      (simp_all add: component_sliced_def components_sliced_def)
  show "chunk_rows (component_sliced new_id ch c) = map (\<lambda>r. r\<lparr>r_cells := r_cells r |` {c}\<rparr>) (chunk_rows ch)"
    by (rule rows_restrict_components [OF _ _ look])
      (simp_all add: component_sliced_def components_sliced_def)
qed

lemma range_sliced_rows:
  assumes "chunk_wf ch"
  shows "chunk_wf (range_sliced new_ids ch query c)"
    "chunk_rows (range_sliced new_ids ch query c) = map (query_row query c) (chunk_rows ch)"
  using assms by (simp_all add: range_sliced_def query_row_def [abs_def] timeline_sliced_rows
      component_sliced_rows comp_def Let_def)

lemma range_sliced_lookup:
  assumes "chunk_wf ch"
  shows "map_of (ch_timelines (range_sliced new_ids ch query c)) (rq_timeline query)
      = map_of (ch_timelines ch) (rq_timeline query)"
    "map_of (ch_components (range_sliced new_ids ch query c)) c = map_of (ch_components ch) c"
    "num_rows (range_sliced new_ids ch query c) = num_rows ch"
proof -
  let ?t = "if keep_extra_timelines (rq_options query) then ch else timeline_sliced (new_ids 0) ch (rq_timeline query)"
  have wt: "chunk_wf ?t" using assms timeline_sliced_rows(1) [OF assms] by simp
  have t: "map_of (ch_timelines ?t) (rq_timeline query) = map_of (ch_timelines ch) (rq_timeline query)"
    "ch_components ?t = ch_components ch" "ch_row_ids ?t = ch_row_ids ch"
    by (auto simp: timeline_sliced_def split: option.splits)
  have sl: "ch_timelines (component_sliced (new_ids 1) ?t c) = ch_timelines ?t"
    "ch_row_ids (component_sliced (new_ids 1) ?t c) = ch_row_ids ?t"
    by (simp_all add: component_sliced_def components_sliced_def)
  show "map_of (ch_timelines (range_sliced new_ids ch query c)) (rq_timeline query)
      = map_of (ch_timelines ch) (rq_timeline query)"
    using t sl by (simp add: range_sliced_def Let_def)
  show "num_rows (range_sliced new_ids ch query c) = num_rows ch"
    using t sl by (simp add: range_sliced_def Let_def num_rows_def)
  show "map_of (ch_components (range_sliced new_ids ch query c)) c = map_of (ch_components ch) c"
    using t(2) components_sliced_lookup [OF wt, of "new_ids 1" "[c]" c]
    by (simp add: range_sliced_def Let_def component_sliced_def)
qed











text \<open>A range query on a static chunk returns the row a static latest-at query finds. A temporal chunk
  that lacks the queried timeline takes the same path when the extra timelines are dropped first:
  with no timeline left it looks static, and instead of nothing the query returns its newest row.\<close>

theorem range_query_static:
  assumes K: "arrow_laws K" and wf: "chunk_wf ch" and ne: "num_rows ch \<noteq> 0"
    and c: "map_of (ch_components ch) c \<noteq> None" and pos: "\<forall>r\<in>set (ch_row_ids ch). Tuid_ZERO < r"
    and st: "ch_timelines ch = [] \<or>
      \<not> keep_extra_timelines (rq_options query) \<and> map_of (ch_timelines ch) (rq_timeline query) = None"
  shows "\<exists>ch' r. chunk_range K new_ids ch query c = Some ch' \<and> chunk_wf ch'
    \<and> newest (\<lambda>r. r_cells r c \<noteq> None) r_id (map (query_row query c) (chunk_rows ch)) r
    \<and> chunk_rows ch' = (case r of None \<Rightarrow> [] | Some x \<Rightarrow> [x])"
proof -
  let ?s = "range_sliced new_ids ch query c"
  note sl = range_sliced_rows [OF wf, of new_ids query c] and look = range_sliced_lookup [OF wf, of new_ids query c]
  have static: "chunk_is_static ?s"
    using st by (auto simp: range_sliced_def chunk_is_static_def timeline_sliced_def component_sliced_def
        components_sliced_def Let_def)
  have "ch_row_ids ?s = ch_row_ids ch"
    by (simp add: range_sliced_def timeline_sliced_def component_sliced_def components_sliced_def Let_def)
  then have pos': "\<forall>r\<in>set (ch_row_ids ?s). Tuid_ZERO < r" using pos by simp
  have la: "get_array (ch_components ?s) c \<noteq> None" using c look(2) by (simp add: get_array_def)
  obtain res r where res: "latest_at K (new_ids 2) ?s latest_at_query_static c = Some res" "unit_result ?s res r"
    "newest (\<lambda>r. r_cells r c \<noteq> None) r_id (chunk_rows ?s) r"
    using latest_at_static_rows [OF K sl(1) _ static la pos'] ne look(3) by metis
  show ?thesis
  proof (cases res)
    case None
    then show ?thesis
      using res ne static emptied_gathers(2) [OF sl(1), of "new_ids 2"] sl(2)
      by (intro exI [of _ "emptied (new_ids 2) ?s"] exI [of _ r])
        (simp add: chunk_range_def chunk_is_empty_def Let_def unit_result_def)
  next
    case (Some u)
    then show ?thesis
      using res ne static sl(2)
      by (intro exI [of _ "uc_chunk u"] exI [of _ r])
        (auto simp: chunk_range_def chunk_is_empty_def Let_def unit_result_def)
  qed
qed

theorem range_query_static_witness:
  "\<exists>ch' r. chunk_range list_kernels demo_id demo_chunk
      (range_query_new ''log_time'' AbsoluteTimeRange_EVERYTHING) ''pos'' = Some ch' \<and> chunk_wf ch'
    \<and> newest (\<lambda>r. r_cells r ''pos'' \<noteq> None) r_id
        (map (query_row (range_query_new ''log_time'' AbsoluteTimeRange_EVERYTHING) ''pos'') (chunk_rows demo_chunk)) r
    \<and> chunk_rows ch' = (case r of None \<Rightarrow> [] | Some x \<Rightarrow> [x])"
  by (rule range_query_static [OF arrow_laws_list_kernels demo_chunk_wf])
    (simp_all add: range_query_new_def RangeQueryOptions_DEFAULT_def)

end
