(* ===== verification/Rrd_Frames.thy ===== *)
theory Rrd_Frames
  imports Bytes
begin

text \<open>
  The frames of an RRD stream (\<open>crates/store/re_log_encoding/src/rrd/frames.rs\<close>): stream header,
  message header, stream footer and encoding options, with their byte codecs, and the version
  number they carry (\<open>crates/build/re_build_info/src/crate_version.rs\<close>).

  \<open>to_rrd_bytes\<close> appends to a buffer; the model returns the bytes it appends. Decoding returns a
  \<open>CodecError\<close> or a value. The checksum of the footer (\<open>xxh32\<close>) is a parameter. Where the code can
  panic, \<open>None\<close> is the panic.
\<close>

section \<open>Versions\<close>

datatype Meta = Rc byte | Alpha byte | DevAlpha byte "byte list option"

record CrateVersion =
  cv_major :: byte
  cv_minor :: byte
  cv_patch :: byte
  cv_meta :: "Meta option"

definition TAG_MASK :: byte where "TAG_MASK = 0b11000000"
definition VALUE_MASK :: byte where "VALUE_MASK = 0b00111111"
definition META_RC :: byte where "META_RC = 0b01000000"
definition META_ALPHA :: byte where "META_ALPHA = 0b10000000"
definition META_DEV_ALPHA :: byte where "META_DEV_ALPHA = 0b11000000"

unbundle bit_operations_syntax

fun meta_to_byte :: "Meta \<Rightarrow> byte" where
  "meta_to_byte (Rc value) = value OR META_RC"
| "meta_to_byte (Alpha value) = value OR META_ALPHA"
| "meta_to_byte (DevAlpha alpha _) = alpha OR META_DEV_ALPHA"

definition meta_from_byte :: "byte \<Rightarrow> Meta option" where
  "meta_from_byte v =
     (let tag = v AND TAG_MASK; value = v AND VALUE_MASK in
      if tag = META_RC then Some (Rc value)
      else if tag = META_ALPHA then Some (Alpha value)
      else if tag = META_DEV_ALPHA then Some (DevAlpha value None)
      else None)"

definition crate_version_new :: "byte \<Rightarrow> byte \<Rightarrow> byte \<Rightarrow> CrateVersion" where
  "crate_version_new major minor patch =
     \<lparr>cv_major = major, cv_minor = minor, cv_patch = patch, cv_meta = None\<rparr>"

definition version_from_bytes :: "byte list \<Rightarrow> CrateVersion" where
  "version_from_bytes bs = \<lparr>cv_major = bs ! 0, cv_minor = bs ! 1, cv_patch = bs ! 2,
     cv_meta = meta_from_byte (bs ! 3)\<rparr>"

definition version_to_bytes :: "CrateVersion \<Rightarrow> byte list" where
  "version_to_bytes v = [cv_major v, cv_minor v, cv_patch v,
     (case cv_meta v of None \<Rightarrow> 0 | Some m \<Rightarrow> meta_to_byte m)]"

text \<open>The order ignores the metadata.\<close>

definition version_le :: "CrateVersion \<Rightarrow> CrateVersion \<Rightarrow> bool" where
  "version_le a b =
     (if cv_major a \<noteq> cv_major b then cv_major a < cv_major b
      else if cv_minor a \<noteq> cv_minor b then cv_minor a < cv_minor b
      else cv_patch a \<le> cv_patch b)"

definition version_is_dev :: "CrateVersion \<Rightarrow> bool" where
  "version_is_dev v = (case cv_meta v of Some (DevAlpha _ _) \<Rightarrow> True | _ \<Rightarrow> False)"

definition version_is_alpha :: "CrateVersion \<Rightarrow> bool" where
  "version_is_alpha v = (case cv_meta v of Some (Alpha _) \<Rightarrow> True | Some (DevAlpha _ _) \<Rightarrow> True | _ \<Rightarrow> False)"

definition version_is_rc :: "CrateVersion \<Rightarrow> bool" where
  "version_is_rc v = (case cv_meta v of Some (Rc _) \<Rightarrow> True | _ \<Rightarrow> False)"

definition version_is_release :: "CrateVersion \<Rightarrow> bool" where
  "version_is_release v \<longleftrightarrow> cv_meta v = None"

text \<open>\<open>None\<close> is the overflow of \<open>self.major - 1\<close>, which panics in a debug build.\<close>

definition latest_stable :: "CrateVersion \<Rightarrow> CrateVersion option" where
  "latest_stable v =
     (if version_is_dev v then
        if cv_patch v = 0 then
          if cv_minor v = 0 then
            if cv_major v = 0 then None else Some (crate_version_new (cv_major v - 1) 0 0)
          else Some (crate_version_new (cv_major v) (cv_minor v - 1) 0)
        else Some (crate_version_new (cv_major v) (cv_minor v) (cv_patch v - 1))
      else Some v)"

definition is_compatible_with :: "CrateVersion \<Rightarrow> CrateVersion \<Rightarrow> bool" where
  "is_compatible_with v w =
     (let meta_ok = (case (cv_meta v, cv_meta w) of
            (Some (Rc _), Some (Rc _)) \<Rightarrow> True
          | (Some (Rc _), None) \<Rightarrow> True
          | (None, Some (Rc _)) \<Rightarrow> True
          | (m, m') \<Rightarrow> m = m')
      in meta_ok \<and> (if cv_major v = 0 then cv_major v = cv_major w \<and> cv_minor v = cv_minor w
                     else cv_major v = cv_major w))"

section \<open>Errors\<close>

datatype OptionsError =
  UnknownReservedBytes | UnknownCompression byte | RemovedMsgPackSerializer | UnknownSerializer byte

datatype FrameReason = FrameLength nat nat | FrameFourCC "byte list" | FrameIdentifier "byte list" | UnknownKind u64

text \<open>The payload decoders fail with errors of their own, which are the argument of \<open>PayloadError\<close>.\<close>

datatype 'e CodecError =
    InvalidOptions OptionsError
  | IncompatibleRerunVersion CrateVersion
  | NotAnRrd "byte list"
  | OldRrdVersion
  | FrameDecoding FrameReason
  | StoreIdMissingApplicationId
  | PayloadError 'e

section \<open>Frames\<close>

datatype Compression = CompressionOff | CompressionLZ4
datatype Serializer = Protobuf

record EncodingOptions =
  eo_compression :: Compression
  eo_serializer :: Serializer

definition PROTOBUF_COMPRESSED :: EncodingOptions where
  "PROTOBUF_COMPRESSED = \<lparr>eo_compression = CompressionLZ4, eo_serializer = Protobuf\<rparr>"

definition PROTOBUF_UNCOMPRESSED :: EncodingOptions where
  "PROTOBUF_UNCOMPRESSED = \<lparr>eo_compression = CompressionOff, eo_serializer = Protobuf\<rparr>"

definition options_to_rrd_bytes :: "EncodingOptions \<Rightarrow> byte list" where
  "options_to_rrd_bytes opts =
     [case eo_compression opts of CompressionOff \<Rightarrow> 0 | CompressionLZ4 \<Rightarrow> 1,
      case eo_serializer opts of Protobuf \<Rightarrow> 2, 0, 0]"

definition options_from_rrd_bytes :: "byte list \<Rightarrow> 'e CodecError + EncodingOptions" where
  "options_from_rrd_bytes data =
     (case data of
        [c, s, r0, r1] \<Rightarrow>
          if r0 = 0 \<and> r1 = 0 then
            if c \<noteq> 0 \<and> c \<noteq> 1 then Inl (InvalidOptions (UnknownCompression c))
            else if s = 1 then Inl (InvalidOptions RemovedMsgPackSerializer)
            else if s \<noteq> 2 then Inl (InvalidOptions (UnknownSerializer s))
            else Inr \<lparr>eo_compression = (if c = 0 then CompressionOff else CompressionLZ4), eo_serializer = Protobuf\<rparr>
          else Inl (InvalidOptions UnknownReservedBytes)
      | _ \<Rightarrow> Inl (InvalidOptions UnknownReservedBytes))"

text \<open>\<open>b"RRF2"\<close>, \<open>b"RRF0"\<close>, \<open>b"RRF1"\<close>.\<close>

definition RRD_FOURCC :: "byte list" where "RRD_FOURCC = [82, 82, 70, 50]"
definition OLD_RRD_FOURCC :: "byte list list" where "OLD_RRD_FOURCC = [[82, 82, 70, 48], [82, 82, 70, 49]]"

record StreamHeader =
  sh_fourcc :: "byte list"
  sh_version :: "byte list"
  sh_options :: EncodingOptions

definition to_version_and_options :: "StreamHeader \<Rightarrow> 'e CodecError + CrateVersion \<times> EncodingOptions" where
  "to_version_and_options h =
     (let encoded_version = (if sh_version h = [0, 0, 0, 0] then crate_version_new 0 2 0
                             else version_from_bytes (sh_version h))
      in if cv_major encoded_version = 0 \<and> cv_minor encoded_version < 23
         then Inl (IncompatibleRerunVersion encoded_version)
         else Inr (version_from_bytes (sh_version h), sh_options h))"

definition stream_header_to_rrd_bytes :: "StreamHeader \<Rightarrow> byte list" where
  "stream_header_to_rrd_bytes h = sh_fourcc h @ sh_version h @ options_to_rrd_bytes (sh_options h)"

definition stream_header_from_rrd_bytes :: "byte list \<Rightarrow> 'e CodecError + StreamHeader" where
  "stream_header_from_rrd_bytes data =
     (if length data \<noteq> 12 then Inl (FrameDecoding (FrameLength 12 (length data)))
      else
        let fourcc = take 4 data in
        if fourcc \<in> set OLD_RRD_FOURCC then Inl OldRrdVersion
        else if fourcc \<noteq> RRD_FOURCC then Inl (NotAnRrd fourcc)
        else
          (case options_from_rrd_bytes (drop 8 data) of
             Inl e \<Rightarrow> Inl e
           | Inr options \<Rightarrow> Inr \<lparr>sh_fourcc = fourcc, sh_version = take 4 (drop 4 data), sh_options = options\<rparr>))"

record Span_u64 =
  span_start :: u64
  span_len :: u64

definition span_end :: "Span_u64 \<Rightarrow> u64" where
  "span_end s = span_start s + span_len s"

text \<open>The sum does not fit: it wraps around, or panics where overflow checks are compiled in.\<close>

definition span_end_overflows :: "Span_u64 \<Rightarrow> bool" where
  "span_end_overflows s \<longleftrightarrow> 2 ^ 64 \<le> unat (span_start s) + unat (span_len s)"

record StreamFooterEntry =
  sfe_span :: Span_u64
  sfe_crc :: u32

record StreamFooter =
  sf_fourcc :: "byte list"
  sf_identifier :: "byte list"
  sf_entries :: "StreamFooterEntry list"

text \<open>\<open>b"FOOT"\<close>.\<close>

definition FOOTER_IDENTIFIER :: "byte list" where "FOOTER_IDENTIFIER = [70, 79, 79, 84]"

definition CRC_SEED :: u32 where "CRC_SEED = 7850921"

definition stream_footer_new :: "Span_u64 \<Rightarrow> u32 \<Rightarrow> StreamFooter" where
  "stream_footer_new span0 crc = \<lparr>sf_fourcc = RRD_FOURCC, sf_identifier = FOOTER_IDENTIFIER,
     sf_entries = [\<lparr>sfe_span = span0, sfe_crc = crc\<rparr>]\<rparr>"

definition from_rrd_footer_bytes :: "(byte list \<Rightarrow> u32 \<Rightarrow> u32) \<Rightarrow> u64 \<Rightarrow> byte list \<Rightarrow> StreamFooter" where
  "from_rrd_footer_bytes xxh32 offset bytes =
     stream_footer_new \<lparr>span_start = offset, span_len = word_of_nat (length bytes)\<rparr> (xxh32 bytes CRC_SEED)"

definition footer_entry_bytes :: "StreamFooterEntry \<Rightarrow> byte list" where
  "footer_entry_bytes entry = u64_to_le_bytes (span_start (sfe_span entry))
     @ u64_to_le_bytes (span_len (sfe_span entry)) @ u32_to_le_bytes (sfe_crc entry)"

text \<open>Encoding asserts that the footer has the size of a footer with one entry.\<close>

definition stream_footer_to_rrd_bytes :: "StreamFooter \<Rightarrow> byte list option" where
  "stream_footer_to_rrd_bytes footer =
     (let out = concat (map footer_entry_bytes (sf_entries footer)) @ sf_fourcc footer @ sf_identifier footer
            @ u32_to_le_bytes (word_of_nat (length (sf_entries footer)))
      in if length out = 32 then Some out else None)"

text \<open>The entries are read from the last 32 bytes, whatever their number: slicing past the end
  panics.\<close>

fun footer_entries :: "nat \<Rightarrow> byte list \<Rightarrow> nat \<Rightarrow> StreamFooterEntry list option" where
  "footer_entries 0 dynamic_data pos = Some []"
| "footer_entries (Suc n) dynamic_data pos =
     (if pos + 20 > length dynamic_data then None
      else
        let entry = \<lparr>sfe_span = \<lparr>span_start = u64_from_le_bytes (take 8 (drop pos dynamic_data)),
                span_len = u64_from_le_bytes (take 8 (drop (pos + 8) dynamic_data))\<rparr>,
              sfe_crc = u32_from_le_bytes (take 4 (drop (pos + 16) dynamic_data))\<rparr>
        in map_option ((#) entry) (footer_entries n dynamic_data (pos + 20)))"

definition stream_footer_from_rrd_bytes :: "byte list \<Rightarrow> ('e CodecError + StreamFooter) option" where
  "stream_footer_from_rrd_bytes data =
     (if length data < 32 then Some (Inl (FrameDecoding (FrameLength 32 (length data))))
      else
        let fixed_data = drop (length data - 12) data; fourcc = take 4 fixed_data in
        if fourcc \<noteq> RRD_FOURCC then Some (Inl (FrameDecoding (FrameFourCC fourcc)))
        else
          let identifier = take 4 (drop 4 fixed_data) in
          if identifier \<noteq> FOOTER_IDENTIFIER then Some (Inl (FrameDecoding (FrameIdentifier identifier)))
          else
            let num_rrd_footers = u32_from_le_bytes (take 4 (drop 8 fixed_data));
                dynamic_data = drop (length data - 32) data
            in map_option (\<lambda>entries. Inr \<lparr>sf_fourcc = fourcc, sf_identifier = identifier, sf_entries = entries\<rparr>)
                 (footer_entries (unat num_rrd_footers) dynamic_data 0))"

datatype MessageKind = End | SetStoreInfo | ArrowMsg | BlueprintActivationCommand

record MessageHeader =
  mh_kind :: MessageKind
  mh_len :: u64

fun kind_as_u64 :: "MessageKind \<Rightarrow> u64" where
  "kind_as_u64 End = 0"
| "kind_as_u64 SetStoreInfo = 1"
| "kind_as_u64 ArrowMsg = 2"
| "kind_as_u64 BlueprintActivationCommand = 3"

definition message_header_to_rrd_bytes :: "MessageHeader \<Rightarrow> byte list" where
  "message_header_to_rrd_bytes h = u64_to_le_bytes (kind_as_u64 (mh_kind h)) @ u64_to_le_bytes (mh_len h)"

definition message_header_from_rrd_bytes :: "byte list \<Rightarrow> 'e CodecError + MessageHeader" where
  "message_header_from_rrd_bytes data =
     (if length data \<noteq> 16 then Inl (FrameDecoding (FrameLength 16 (length data)))
      else
        let kind = u64_from_le_bytes (take 8 data); len = u64_from_le_bytes (take 8 (drop 8 data)) in
        if kind = 0 then Inr \<lparr>mh_kind = End, mh_len = len\<rparr>
        else if kind = 1 then Inr \<lparr>mh_kind = SetStoreInfo, mh_len = len\<rparr>
        else if kind = 2 then Inr \<lparr>mh_kind = ArrowMsg, mh_len = len\<rparr>
        else if kind = 3 then Inr \<lparr>mh_kind = BlueprintActivationCommand, mh_len = len\<rparr>
        else Inl (FrameDecoding (UnknownKind kind)))"

section \<open>The contract of a frame codec\<close>

text \<open>Frames have a fixed size and decode to what was encoded. For a canonical codec, decoding accepts
  nothing else: what it accepts is the encoding of what it returns.\<close>

locale frame_codec =
  fixes valid :: "'a \<Rightarrow> bool" and enc :: "'a \<Rightarrow> byte list" and dec :: "byte list \<Rightarrow> 'e CodecError + 'a"
    and frame_size :: nat
  assumes enc_length: "valid x \<Longrightarrow> length (enc x) = frame_size"
    and dec_enc: "valid x \<Longrightarrow> dec (enc x) = Inr x"
begin

lemma dec_prefix: "valid x \<Longrightarrow> dec (take frame_size (enc x @ rest)) = Inr x"
  by (simp add: enc_length dec_enc)

lemma drop_frame: "valid x \<Longrightarrow> drop frame_size (enc x @ rest) = rest"
  by (simp add: enc_length)

lemma enc_inject: "valid x \<Longrightarrow> valid y \<Longrightarrow> enc x = enc y \<Longrightarrow> x = y"
  using dec_enc by (metis sum.inject(2))

lemma prefix_free:
  assumes "valid x" "valid y" "enc x @ r = enc y @ s"
  shows "x = y" "r = s"
proof -
  have "enc x = enc y" using assms by (metis append_eq_append_conv enc_length)
  then show "x = y" "r = s" using assms enc_inject by simp_all
qed

end

locale canonical_codec = frame_codec +
  assumes dec_canonical: "dec bs = Inr x \<Longrightarrow> valid x \<and> enc x = bs"
begin

lemma dec_length: "dec bs = Inr x \<Longrightarrow> length bs = frame_size"
  using dec_canonical enc_length by blast

lemma dec_inject: "dec bs = Inr x \<Longrightarrow> dec bs' = Inr x \<Longrightarrow> bs = bs'"
  using dec_canonical by metis

lemma accepts_iff: "(\<exists>x. dec bs = Inr x) \<longleftrightarrow> bs \<in> enc ` {x. valid x}"
  using dec_canonical dec_enc by blast

end

interpretation options_codec: canonical_codec "\<lambda>_. True" options_to_rrd_bytes options_from_rrd_bytes 4
proof
  show "length (options_to_rrd_bytes x) = 4" for x by (simp add: options_to_rrd_bytes_def)
  show "options_from_rrd_bytes (options_to_rrd_bytes x) = Inr x" for x
    by (cases x; cases "eo_compression x"; cases "eo_serializer x")
      (simp_all add: options_to_rrd_bytes_def options_from_rrd_bytes_def)
  show "True \<and> options_to_rrd_bytes x = bs" if "options_from_rrd_bytes bs = Inr x" for bs x
    using that by (auto simp: options_to_rrd_bytes_def options_from_rrd_bytes_def split: list.splits if_splits)
qed

definition stream_header_valid :: "StreamHeader \<Rightarrow> bool" where
  "stream_header_valid h \<longleftrightarrow> sh_fourcc h = RRD_FOURCC \<and> length (sh_version h) = 4"

lemma fourcc_facts [simp]: "length RRD_FOURCC = 4" "RRD_FOURCC \<notin> set OLD_RRD_FOURCC" "length FOOTER_IDENTIFIER = 4"
  by (simp_all add: RRD_FOURCC_def OLD_RRD_FOURCC_def FOOTER_IDENTIFIER_def)

lemma take_drop_8: "length bs = 12 \<Longrightarrow> take 4 bs @ take 4 (drop 4 bs) @ drop 8 bs = bs"
  using append_take_drop_id [of 4 bs] append_take_drop_id [of 4 "drop 4 bs"] by simp

lemma stream_header_canonical:
  assumes "(stream_header_from_rrd_bytes bs :: 'e CodecError + StreamHeader) = Inr h"
  shows "stream_header_valid h \<and> stream_header_to_rrd_bytes h = bs"
proof -
  from assms have len: "length bs = 12" and cc: "take 4 bs = RRD_FOURCC"
    by (auto simp: stream_header_from_rrd_bytes_def Let_def split: if_splits)
  with assms obtain opts where o: "(options_from_rrd_bytes (drop 8 bs) :: 'e CodecError + _) = Inr opts"
    "h = \<lparr>sh_fourcc = RRD_FOURCC, sh_version = take 4 (drop 4 bs), sh_options = opts\<rparr>"
    by (auto simp: stream_header_from_rrd_bytes_def Let_def split: if_splits sum.splits)
  have "options_to_rrd_bytes opts = drop 8 bs" using options_codec.dec_canonical [OF o(1)] by simp
  then show ?thesis using o(2) len cc take_drop_8 [OF len]
    by (simp add: stream_header_valid_def stream_header_to_rrd_bytes_def)
qed

interpretation header_codec: canonical_codec stream_header_valid stream_header_to_rrd_bytes
  stream_header_from_rrd_bytes 12
proof
  show "length (stream_header_to_rrd_bytes h) = 12" if "stream_header_valid h" for h
    using that options_codec.enc_length [of "sh_options h"]
    by (simp add: stream_header_to_rrd_bytes_def stream_header_valid_def)
  show "stream_header_from_rrd_bytes (stream_header_to_rrd_bytes h) = Inr h" if "stream_header_valid h" for h
    using that
    by (simp add: stream_header_to_rrd_bytes_def stream_header_valid_def stream_header_from_rrd_bytes_def
        options_codec.enc_length options_codec.dec_enc)
qed (rule stream_header_canonical)

lemma kind_u64_cases: "kind_as_u64 k = 0 \<longleftrightarrow> k = End" "kind_as_u64 k = 1 \<longleftrightarrow> k = SetStoreInfo"
  "kind_as_u64 k = 2 \<longleftrightarrow> k = ArrowMsg" "kind_as_u64 k = 3 \<longleftrightarrow> k = BlueprintActivationCommand"
  by (cases k; simp)+

interpretation message_codec: canonical_codec "\<lambda>_. True" message_header_to_rrd_bytes message_header_from_rrd_bytes 16
proof
  show "length (message_header_to_rrd_bytes h) = 16" for h by (simp add: message_header_to_rrd_bytes_def)
  show "message_header_from_rrd_bytes (message_header_to_rrd_bytes h) = Inr h" for h
    by (cases h; cases "mh_kind h") (simp_all add: message_header_to_rrd_bytes_def message_header_from_rrd_bytes_def)
  show "True \<and> message_header_to_rrd_bytes h = bs" if "message_header_from_rrd_bytes bs = Inr h" for bs h
  proof -
    have len: "length bs = 16" and f: "u64_from_le_bytes (take 8 bs) = kind_as_u64 (mh_kind h)"
      "u64_from_le_bytes (take 8 (drop 8 bs)) = mh_len h"
      using that by (auto simp: message_header_from_rrd_bytes_def Let_def split: if_splits)
    have "u64_to_le_bytes (u64_from_le_bytes (take 8 bs)) = take 8 bs"
      "u64_to_le_bytes (u64_from_le_bytes (take 8 (drop 8 bs))) = drop 8 bs"
      using len by (simp_all add: u64_to_from_le_bytes)
    then show ?thesis using f by (simp add: message_header_to_rrd_bytes_def)
  qed
qed

text \<open>The footer. Its encoder and decoder can panic, so the codec is on the footers with one entry.\<close>

definition footer_valid :: "StreamFooter \<Rightarrow> bool" where
  "footer_valid f \<longleftrightarrow> sf_fourcc f = RRD_FOURCC \<and> sf_identifier f = FOOTER_IDENTIFIER \<and> length (sf_entries f) = 1"

lemma footer_entry_length [simp]: "length (footer_entry_bytes e) = 20"
  by (simp add: footer_entry_bytes_def)

lemma footer_to_bytes:
  assumes "footer_valid f"
  shows "stream_footer_to_rrd_bytes f = Some (footer_entry_bytes (hd (sf_entries f)) @ RRD_FOURCC
    @ FOOTER_IDENTIFIER @ u32_to_le_bytes 1)"
proof -
  obtain e where "sf_entries f = [e]" using assms by (auto simp: footer_valid_def length_Suc_conv)
  then show ?thesis using assms by (simp add: footer_valid_def stream_footer_to_rrd_bytes_def)
qed

lemma footer_entries_one:
  assumes "length rest = 12"
  shows "footer_entries 1 (footer_entry_bytes e @ rest) 0 = Some [e]"
  using assms by (simp add: One_nat_def footer_entry_bytes_def)

lemma footer_from_bytes:
  assumes "footer_valid f"
  shows "stream_footer_from_rrd_bytes (footer_entry_bytes (hd (sf_entries f)) @ RRD_FOURCC
    @ FOOTER_IDENTIFIER @ u32_to_le_bytes 1) = Some (Inr f)"
proof -
  obtain e where e: "sf_entries f = [e]" using assms by (auto simp: footer_valid_def length_Suc_conv)
  have "f = \<lparr>sf_fourcc = RRD_FOURCC, sf_identifier = FOOTER_IDENTIFIER, sf_entries = [e]\<rparr>"
    using assms e by (simp add: footer_valid_def)
  then show ?thesis
    using footer_entries_one [of "RRD_FOURCC @ FOOTER_IDENTIFIER @ u32_to_le_bytes 1" e]
    by (simp add: stream_footer_from_rrd_bytes_def)
qed

interpretation footer_codec: frame_codec footer_valid "\<lambda>f. the (stream_footer_to_rrd_bytes f)"
  "\<lambda>bs. the (stream_footer_from_rrd_bytes bs)" 32
  by unfold_locales (simp_all add: footer_to_bytes footer_from_bytes)

section \<open>Properties\<close>

text \<open>Every frame decodes to what was encoded, also when more bytes follow it, and no two frames
  share an encoding: the encoding options, the stream header, the message header and the footer
  with its single entry. The decoders of options and headers accept nothing but encodings.\<close>

theorem frames_roundtrip:
  assumes "stream_header_valid h" and "footer_valid f"
  shows "stream_header_from_rrd_bytes (take 12 (stream_header_to_rrd_bytes h @ rest)) = Inr h
    \<and> message_header_from_rrd_bytes (take 16 (message_header_to_rrd_bytes m @ rest)) = Inr m
    \<and> options_from_rrd_bytes (options_to_rrd_bytes opts) = Inr opts
    \<and> (\<exists>bs. stream_footer_to_rrd_bytes f = Some bs \<and> length bs = 32
        \<and> stream_footer_from_rrd_bytes (take 32 (bs @ rest)) = Some (Inr f))
    \<and> (stream_header_from_rrd_bytes bs = Inr h' \<longrightarrow> stream_header_to_rrd_bytes h' = bs)
    \<and> (message_header_from_rrd_bytes bs = Inr m' \<longrightarrow> message_header_to_rrd_bytes m' = bs)"
proof (intro conjI impI)
  show "stream_header_from_rrd_bytes (take 12 (stream_header_to_rrd_bytes h @ rest)) = Inr h"
    by (rule header_codec.dec_prefix [OF assms(1)])
  show "message_header_from_rrd_bytes (take 16 (message_header_to_rrd_bytes m @ rest)) = Inr m"
    by (rule message_codec.dec_prefix [OF TrueI])
  show "options_from_rrd_bytes (options_to_rrd_bytes opts) = Inr opts"
    by (rule options_codec.dec_enc [OF TrueI])
  show "\<exists>bs. stream_footer_to_rrd_bytes f = Some bs \<and> length bs = 32
        \<and> stream_footer_from_rrd_bytes (take 32 (bs @ rest)) = Some (Inr f)"
    using assms(2) by (simp add: footer_to_bytes footer_from_bytes)
  show "stream_header_to_rrd_bytes h' = bs" if "stream_header_from_rrd_bytes bs = Inr h'"
    using header_codec.dec_canonical [OF that] by simp
  show "message_header_to_rrd_bytes m' = bs" if "message_header_from_rrd_bytes bs = Inr m'"
    using message_codec.dec_canonical [OF that] by simp
qed

theorem frames_roundtrip_witness:
  "stream_header_from_rrd_bytes (take 12 (stream_header_to_rrd_bytes
      \<lparr>sh_fourcc = RRD_FOURCC, sh_version = [0, 36, 0, 0], sh_options = PROTOBUF_COMPRESSED\<rparr> @ [9]))
    = Inr \<lparr>sh_fourcc = RRD_FOURCC, sh_version = [0, 36, 0, 0], sh_options = PROTOBUF_COMPRESSED\<rparr>
   \<and> (\<exists>bs. stream_footer_to_rrd_bytes (stream_footer_new \<lparr>span_start = 28, span_len = 5\<rparr> 7) = Some bs)"
proof -
  have h: "stream_header_valid \<lparr>sh_fourcc = RRD_FOURCC, sh_version = [0, 36, 0, 0], sh_options = PROTOBUF_COMPRESSED\<rparr>"
    by (simp add: stream_header_valid_def)
  have f: "footer_valid (stream_footer_new \<lparr>span_start = 28, span_len = 5\<rparr> 7)"
    by (simp add: footer_valid_def stream_footer_new_def)
  show ?thesis using frames_roundtrip [OF h f, of "[9]"] by blast
qed

lemma meta_bits:
  fixes v :: byte
  assumes "v AND VALUE_MASK = v"
  shows "(v OR META_RC) AND TAG_MASK = META_RC" "(v OR META_RC) AND VALUE_MASK = v"
    "(v OR META_ALPHA) AND TAG_MASK = META_ALPHA" "(v OR META_ALPHA) AND VALUE_MASK = v"
    "(v OR META_DEV_ALPHA) AND TAG_MASK = META_DEV_ALPHA" "(v OR META_DEV_ALPHA) AND VALUE_MASK = v"
proof -
  have m: "VALUE_MASK AND TAG_MASK = 0" "META_RC AND TAG_MASK = META_RC" "META_ALPHA AND TAG_MASK = META_ALPHA"
    "META_DEV_ALPHA AND TAG_MASK = META_DEV_ALPHA" "META_RC AND VALUE_MASK = 0" "META_ALPHA AND VALUE_MASK = 0"
    "META_DEV_ALPHA AND VALUE_MASK = 0"
    by (simp_all add: VALUE_MASK_def TAG_MASK_def META_RC_def META_ALPHA_def META_DEV_ALPHA_def)
  have "v AND TAG_MASK = (v AND VALUE_MASK) AND TAG_MASK" using assms by simp
  then have "v AND TAG_MASK = 0" using m(1) by (simp add: and.assoc)
  then show "(v OR META_RC) AND TAG_MASK = META_RC" "(v OR META_RC) AND VALUE_MASK = v"
    "(v OR META_ALPHA) AND TAG_MASK = META_ALPHA" "(v OR META_ALPHA) AND VALUE_MASK = v"
    "(v OR META_DEV_ALPHA) AND TAG_MASK = META_DEV_ALPHA" "(v OR META_DEV_ALPHA) AND VALUE_MASK = v"
    using assms m by (simp_all add: bit.conj_disj_distrib2)
qed

lemma meta_distinct: "META_ALPHA \<noteq> META_RC" "META_DEV_ALPHA \<noteq> META_RC" "META_DEV_ALPHA \<noteq> META_ALPHA"
  by (simp_all add: META_RC_def META_ALPHA_def META_DEV_ALPHA_def)

fun meta_valid :: "Meta option \<Rightarrow> bool" where
  "meta_valid None = True"
| "meta_valid (Some (Rc v)) = (v AND VALUE_MASK = v)"
| "meta_valid (Some (Alpha v)) = (v AND VALUE_MASK = v)"
| "meta_valid (Some (DevAlpha v commit)) = (v AND VALUE_MASK = v \<and> commit = None)"

lemma meta_roundtrip: "meta_valid (Some m) \<Longrightarrow> meta_from_byte (meta_to_byte m) = Some m"
  by (cases m) (simp_all add: meta_from_byte_def meta_bits meta_distinct)

text \<open>The four bytes of a version determine it: versions whose build number fits in six bits and
  that carry no commit hash survive the trip, and the version a stream header of this format
  yields is the version that was written, unless it is older than 0.23, which is refused.\<close>

theorem version_roundtrip:
  assumes "meta_valid (cv_meta v)"
  shows "version_from_bytes (version_to_bytes v) = v
    \<and> (\<not> (cv_major v = 0 \<and> cv_minor v < 23) \<longrightarrow>
      to_version_and_options \<lparr>sh_fourcc = RRD_FOURCC, sh_version = version_to_bytes v, sh_options = opts\<rparr>
        = Inr (v, opts))"
proof (intro conjI impI)
  show *: "version_from_bytes (version_to_bytes v) = v"
    using assms meta_roundtrip
    by (cases "cv_meta v") (simp_all add: version_from_bytes_def version_to_bytes_def meta_from_byte_def TAG_MASK_def
        META_RC_def META_ALPHA_def META_DEV_ALPHA_def)
  assume new: "\<not> (cv_major v = 0 \<and> cv_minor v < 23)"
  moreover from new have "version_to_bytes v \<noteq> [0, 0, 0, 0]" by (auto simp: version_to_bytes_def)
  ultimately show "to_version_and_options \<lparr>sh_fourcc = RRD_FOURCC, sh_version = version_to_bytes v, sh_options = opts\<rparr>
        = Inr (v, opts)"
    using * by (simp add: to_version_and_options_def)
qed

theorem version_roundtrip_witness:
  "version_from_bytes (version_to_bytes \<lparr>cv_major = 0, cv_minor = 36, cv_patch = 0, cv_meta = Some (Alpha 1)\<rparr>)
    = \<lparr>cv_major = 0, cv_minor = 36, cv_patch = 0, cv_meta = Some (Alpha 1)\<rparr>"
  by (rule version_roundtrip [THEN conjunct1]) (simp add: VALUE_MASK_def)

lemma footer_entries_None: "n \<noteq> 0 \<Longrightarrow> pos + 20 * n > length data \<Longrightarrow> footer_entries n data pos = None"
proof (induction n data pos rule: footer_entries.induct)
  case (2 n data pos)
  then show ?case by (cases n) (auto simp: Let_def)
qed simp

text \<open>Decoding a stream footer of the fixed size panics exactly when its entry count is two or more:
  the count is read from the data and the loop slices past the end of the buffer. Everything else is
  an error or a footer.\<close>

theorem footer_decode_panics_iff:
  assumes "length data = 32"
  shows "stream_footer_from_rrd_bytes data = None \<longleftrightarrow>
    take 4 (drop 20 data) = RRD_FOURCC \<and> take 4 (drop 24 data) = FOOTER_IDENTIFIER
    \<and> 2 \<le> unat (u32_from_le_bytes (drop 28 data))"
proof -
  let ?n = "unat (u32_from_le_bytes (drop 28 data))"
  have "footer_entries ?n data 0 = None \<longleftrightarrow> 2 \<le> ?n"
  proof (cases "2 \<le> ?n")
    case True
    then show ?thesis using assms by (simp add: footer_entries_None)
  next
    case False
    then have "?n = 0 \<or> ?n = Suc 0" by linarith
    then show ?thesis using assms by (elim disjE) (simp_all only: footer_entries.simps Let_def, simp_all)
  qed
  then show ?thesis using assms by (simp add: stream_footer_from_rrd_bytes_def Let_def)
qed

theorem footer_decode_panics_iff_witness:
  "stream_footer_from_rrd_bytes (replicate 20 0 @ RRD_FOURCC @ FOOTER_IDENTIFIER @ [2, 0, 0, 0]) = None"
proof -
  let ?d = "replicate 20 0 @ RRD_FOURCC @ FOOTER_IDENTIFIER @ [2, 0, 0, 0 :: byte]"
  have "length ?d = 32" by simp
  from footer_decode_panics_iff [OF this] show ?thesis
    by (simp add: u32_from_le_bytes_def)
qed

end
