(* ===== verification/Rrd_Buffer.thy ===== *)
theory Rrd_Buffer
  imports Rrd_Frames
begin

text \<open>
  The queue of byte chunks that feeds the decoder
  (\<open>crates/store/re_log_encoding/src/rrd/decoder/state_machine.rs\<close>, \<open>ByteChunkBuffer\<close>).

  Chunks arrive in any size; \<open>try_read\<close> collects exactly \<open>n\<close> bytes in a scratch buffer that survives an
  incomplete read, and \<open>try_peek\<close> looks ahead without consuming. The contract \<open>byte_source\<close> says that
  all this is one flat sequence of pending bytes; the decoder is proved against the contract.
  \<open>None\<close> is a panic: the assertion on the scratch buffer, a slice out of range, or a scratch buffer of more
  than \<open>isize::MAX\<close> bytes, which \<open>Vec::resize\<close> refuses. Running out of memory is not modelled.
\<close>

section \<open>The buffer\<close>

record Cursor =
  cur_data :: "byte list"
  cur_pos :: nat

record ByteChunkBuffer =
  bb_queue :: "Cursor list"
  bb_buffer :: "byte list"
  bb_fill :: nat
  bb_num_read :: nat

definition cur_rest :: "Cursor \<Rightarrow> byte list" where
  "cur_rest c = drop (cur_pos c) (cur_data c)"

definition is_byte_chunk_empty :: "Cursor \<Rightarrow> bool" where
  "is_byte_chunk_empty c \<longleftrightarrow> cur_pos c \<ge> length (cur_data c)"

definition bb_new :: ByteChunkBuffer where
  "bb_new = \<lparr>bb_queue = [], bb_buffer = [], bb_fill = 0, bb_num_read = 0\<rparr>"

definition bb_push :: "byte list \<Rightarrow> ByteChunkBuffer \<Rightarrow> ByteChunkBuffer" where
  "bb_push byte_chunk b =
     (if byte_chunk = [] then b
      else b\<lparr>bb_queue := bb_queue b @ [\<lparr>cur_data = byte_chunk, cur_pos = 0\<rparr>]\<rparr>)"

text \<open>A vector holds at most \<open>isize::MAX\<close> bytes, on a 64-bit target.\<close>

definition isize_MAX :: nat where
  "isize_MAX = 2 ^ 63 - 1"

definition oversized :: "nat \<Rightarrow> bool" where
  "oversized n \<longleftrightarrow> isize_MAX < n"

lemma oversized_code [code]: "oversized n \<longleftrightarrow> 9223372036854775807 < int n"
  unfolding oversized_def isize_MAX_def by simp

lemma not_oversized [simp]: "\<not> oversized 12" "\<not> oversized 16" "\<not> oversized 32"
  by (simp_all add: oversized_def isize_MAX_def)

text \<open>\<open>Vec::resize(n, 0)\<close>, when \<open>n\<close> is not too large.\<close>

definition resize0 :: "nat \<Rightarrow> byte list \<Rightarrow> byte list" where
  "resize0 n xs = take n xs @ replicate (n - length xs) 0"

text \<open>The loop of \<open>try_read\<close>. The buffer has the length the caller asked for; \<open>Cursor::read\<close> copies what
  fits and moves the position.\<close>

function fill_loop :: "Cursor list \<Rightarrow> byte list \<Rightarrow> nat \<Rightarrow> (Cursor list \<times> byte list \<times> nat) option" where
  "fill_loop queue buffer fill =
     (if fill = length buffer then Some (queue, buffer, fill)
      else case queue of
        [] \<Rightarrow> Some ([], buffer, fill)
      | c # cs \<Rightarrow>
          if fill > length buffer then None
          else
            let got = min (length buffer - fill) (length (cur_rest c));
                buffer' = take fill buffer @ take got (cur_rest c) @ drop (fill + got) buffer;
                c' = c\<lparr>cur_pos := cur_pos c + got\<rparr>
            in fill_loop (if is_byte_chunk_empty c' then cs else c' # cs) buffer' (fill + got))"
  by pat_completeness auto
termination
  by (relation "measure (\<lambda>(queue, buffer, fill). 2 * length queue + (if fill = length buffer then 0 else 1))")
    (auto simp: is_byte_chunk_empty_def cur_rest_def split: if_splits)

declare fill_loop.simps [simp del]

definition bb_try_read :: "nat \<Rightarrow> ByteChunkBuffer \<Rightarrow> (byte list option \<times> ByteChunkBuffer) option" where
  "bb_try_read n b =
     (if length (bb_buffer b) \<noteq> n \<and> (bb_fill b \<noteq> 0 \<or> oversized n) then None
      else
        let buffer = (if length (bb_buffer b) \<noteq> n then resize0 n (bb_buffer b) else bb_buffer b)
        in case fill_loop (bb_queue b) buffer (bb_fill b) of
             None \<Rightarrow> None
           | Some (queue, buffer, fill) \<Rightarrow>
               if fill = n
               then Some (Some buffer, b\<lparr>bb_queue := queue, bb_buffer := [], bb_fill := 0,
                      bb_num_read := bb_num_read b + n\<rparr>)
               else Some (None, b\<lparr>bb_queue := queue, bb_buffer := buffer, bb_fill := fill\<rparr>))"

fun peek_loop :: "nat \<Rightarrow> byte list \<Rightarrow> Cursor list \<Rightarrow> byte list" where
  "peek_loop target_len out [] = out"
| "peek_loop target_len out (c # cs) =
     (if length out = target_len then out
      else peek_loop target_len (out @ take (target_len - length out) (cur_rest c)) cs)"

definition bb_try_peek :: "ByteChunkBuffer \<Rightarrow> nat \<Rightarrow> byte list" where
  "bb_try_peek b target_len =
     peek_loop target_len (if target_len = length (bb_buffer b) then take (bb_fill b) (bb_buffer b) else [])
       (bb_queue b)"

section \<open>The contract\<close>

record 'b byte_ops =
  bo_try_read :: "nat \<Rightarrow> 'b \<Rightarrow> (byte list option \<times> 'b) option"
  bo_try_peek :: "'b \<Rightarrow> nat \<Rightarrow> byte list"
  bo_num_read :: "'b \<Rightarrow> nat"

text \<open>\<open>ready n b\<close>: the source may be asked for \<open>n\<close> bytes. After an incomplete read only the same amount
  may be asked for again. A read of more than \<open>isize::MAX\<close> bytes panics.\<close>

locale byte_source =
  fixes ops :: "'b byte_ops" and pending :: "'b \<Rightarrow> byte list" and ready :: "nat \<Rightarrow> 'b \<Rightarrow> bool"
  assumes read_law: "ready n b \<Longrightarrow> \<not> oversized n \<Longrightarrow>
      \<exists>b'. bo_try_read ops n b = Some (if n \<le> length (pending b) then Some (take n (pending b)) else None, b')
        \<and> pending b' = (if n \<le> length (pending b) then drop n (pending b) else pending b)
        \<and> bo_num_read ops b' = bo_num_read ops b + (if n \<le> length (pending b) then n else 0)
        \<and> (\<forall>m. n \<le> length (pending b) \<or> m = n \<longrightarrow> ready m b')"
    and oversized_law: "ready n b \<Longrightarrow> oversized n \<Longrightarrow> bo_try_read ops n b = None"
    and peek_law: "ready n b \<Longrightarrow> bo_try_peek ops b n = take n (pending b)"
begin

lemma read_enough:
  assumes "ready n b" "\<not> oversized n" "n \<le> length (pending b)"
  obtains b' where "bo_try_read ops n b = Some (Some (take n (pending b)), b')" "pending b' = drop n (pending b)"
    "bo_num_read ops b' = bo_num_read ops b + n" "\<forall>m. ready m b'"
  using read_law [OF assms(1,2)] assms(3) by auto

lemma read_short:
  assumes "ready n b" "\<not> oversized n" "length (pending b) < n"
  obtains b' where "bo_try_read ops n b = Some (None, b')" "pending b' = pending b"
    "bo_num_read ops b' = bo_num_read ops b" "ready n b'"
  using read_law [OF assms(1,2)] assms(3) by auto

end

section \<open>The buffer satisfies the contract\<close>

definition chunk_ops :: "ByteChunkBuffer byte_ops" where
  "chunk_ops = \<lparr>bo_try_read = bb_try_read, bo_try_peek = bb_try_peek, bo_num_read = bb_num_read\<rparr>"

definition bb_pending :: "ByteChunkBuffer \<Rightarrow> byte list" where
  "bb_pending b = take (bb_fill b) (bb_buffer b) @ concat (map cur_rest (bb_queue b))"

definition bb_ready :: "nat \<Rightarrow> ByteChunkBuffer \<Rightarrow> bool" where
  "bb_ready n b \<longleftrightarrow> bb_fill b \<le> length (bb_buffer b) \<and> (bb_fill b = 0 \<or> length (bb_buffer b) = n)
     \<and> \<not> oversized (length (bb_buffer b))"

lemma cur_rest_advance: "cur_rest (c\<lparr>cur_pos := cur_pos c + got\<rparr>) = drop got (cur_rest c)"
  by (simp add: cur_rest_def add.commute)

lemma empty_rest: "is_byte_chunk_empty c \<longleftrightarrow> cur_rest c = []"
  by (auto simp: is_byte_chunk_empty_def cur_rest_def)

lemma fill_loop_spec:
  "fill \<le> length buffer \<Longrightarrow> \<exists>queue' buffer' fill'. fill_loop queue buffer fill = Some (queue', buffer', fill')
    \<and> length buffer' = length buffer
    \<and> take fill' buffer' @ concat (map cur_rest queue') = take fill buffer @ concat (map cur_rest queue)
    \<and> fill' = min (length buffer) (fill + length (concat (map cur_rest queue)))
    \<and> (fill' < length buffer \<longrightarrow> queue' = [])"
proof (induction queue buffer fill rule: fill_loop.induct)
  case (1 queue buffer fill)
  show ?case
  proof (cases "fill = length buffer \<or> queue = []")
    case True
    with 1(2) show ?thesis by (auto simp: fill_loop.simps)
  next
    case False
    then obtain c cs where q: "queue = c # cs" and lt: "fill < length buffer" using 1(2) by (cases queue) auto
    define got where "got = min (length buffer - fill) (length (cur_rest c))"
    define buffer' where "buffer' = take fill buffer @ take got (cur_rest c) @ drop (fill + got) buffer"
    define c' where "c' = c\<lparr>cur_pos := cur_pos c + got\<rparr>"
    define queue' where "queue' = (if is_byte_chunk_empty c' then cs else c' # cs)"
    have step: "fill_loop queue buffer fill = fill_loop queue' buffer' (fill + got)"
      using lt unfolding q
      by (subst fill_loop.simps) (simp add: Let_def got_def buffer'_def c'_def queue'_def)
    have len: "length buffer' = length buffer" using lt by (simp add: buffer'_def got_def)
    have rests: "concat (map cur_rest queue') = drop got (cur_rest c) @ concat (map cur_rest cs)"
      using cur_rest_advance [of c got] by (auto simp: queue'_def c'_def empty_rest)
    have pre: "take (fill + got) buffer' = take fill buffer @ take got (cur_rest c)"
      using lt by (simp add: buffer'_def got_def)
    have "fill + got \<le> length buffer'" using len lt by (simp add: got_def)
    from 1(1) [OF _ q _ refl [of got, unfolded got_def] refl refl] this lt q
    have "\<exists>q' b' f'. fill_loop queue' buffer' (fill + got) = Some (q', b', f') \<and> length b' = length buffer'
      \<and> take f' b' @ concat (map cur_rest q') = take (fill + got) buffer' @ concat (map cur_rest queue')
      \<and> f' = min (length buffer') (fill + got + length (concat (map cur_rest queue'))) \<and> (f' < length buffer' \<longrightarrow> q' = [])"
      unfolding got_def [symmetric] buffer'_def [symmetric] c'_def [symmetric] queue'_def [symmetric] by auto
    moreover have "got + length (concat (map cur_rest queue')) = length (concat (map cur_rest queue))"
      unfolding rests using q by (simp add: got_def)
    ultimately show ?thesis
      unfolding step len pre rests using q by (auto simp: add.assoc)
  qed
qed

lemma not_oversized_0 [simp]: "\<not> oversized 0"
  by (simp add: oversized_def)

lemma length_resize0 [simp]: "length (resize0 n xs) = n"
  by (simp add: resize0_def)

lemma bb_try_read_spec:
  assumes "bb_ready n b" and max: "\<not> oversized n"
  shows "\<exists>b'. bb_try_read n b = Some (if n \<le> length (bb_pending b) then Some (take n (bb_pending b)) else None, b')
    \<and> bb_pending b' = (if n \<le> length (bb_pending b) then drop n (bb_pending b) else bb_pending b)
    \<and> bb_num_read b' = bb_num_read b + (if n \<le> length (bb_pending b) then n else 0)
    \<and> (\<forall>m. n \<le> length (bb_pending b) \<or> m = n \<longrightarrow> bb_ready m b')"
proof -
  define buffer where "buffer = (if length (bb_buffer b) \<noteq> n then resize0 n (bb_buffer b) else bb_buffer b)"
  have len: "length buffer = n" by (simp add: buffer_def)
  have f: "bb_fill b \<le> length buffer" "take (bb_fill b) buffer = take (bb_fill b) (bb_buffer b)"
    using assms by (auto simp: bb_ready_def buffer_def)
  have lp: "length (bb_pending b) = bb_fill b + length (concat (map cur_rest (bb_queue b)))"
    using assms by (simp add: bb_pending_def bb_ready_def)
  obtain queue' buffer' fill' where r: "fill_loop (bb_queue b) buffer (bb_fill b) = Some (queue', buffer', fill')"
    "length buffer' = n" "take fill' buffer' @ concat (map cur_rest queue') = bb_pending b"
    "fill' = min n (length (bb_pending b))" "fill' < n \<longrightarrow> queue' = []"
    using fill_loop_spec [OF f(1), of "bb_queue b"] 
    unfolding len f(2) bb_pending_def [symmetric] lp [symmetric] by blast
  have read: "bb_try_read n b = (if fill' = n
      then Some (Some buffer', b\<lparr>bb_queue := queue', bb_buffer := [], bb_fill := 0, bb_num_read := bb_num_read b + n\<rparr>)
      else Some (None, b\<lparr>bb_queue := queue', bb_buffer := buffer', bb_fill := fill'\<rparr>))"
    using assms r(1) by (auto simp: bb_try_read_def Let_def buffer_def bb_ready_def)
  show ?thesis
  proof (cases "n \<le> length (bb_pending b)")
    case True
    then have "fill' = n" using r(4) by simp
    moreover have "bb_pending b = buffer' @ concat (map cur_rest queue')" using r(2,3) \<open>fill' = n\<close> by simp
    ultimately show ?thesis using True r(2) max unfolding read
      by (simp add: bb_pending_def [of "b\<lparr>bb_queue := _, bb_buffer := _, bb_fill := _, bb_num_read := _\<rparr>"] bb_ready_def)
  next
    case False
    then have "fill' < n" using r(4) by simp
    then show ?thesis using False r max unfolding read
      by (simp add: bb_pending_def [of "b\<lparr>bb_queue := _, bb_buffer := _, bb_fill := _\<rparr>"] bb_ready_def)
  qed
qed

lemma peek_loop_spec:
  "length out \<le> n \<Longrightarrow> peek_loop n out queue = take n (out @ concat (map cur_rest queue))"
proof (induction n out queue rule: peek_loop.induct)
  case (2 n out c cs)
  show ?case
  proof (cases "length out = n")
    case False
    have le: "length (out @ take (n - length out) (cur_rest c)) \<le> n" using 2(2) by simp
    have "take n ((out @ take (n - length out) (cur_rest c)) @ concat (map cur_rest cs))
        = take n (out @ concat (map cur_rest (c # cs)))"
      using 2(2) by (cases "length (cur_rest c) \<le> n - length out") simp_all
    with 2(1) [OF False le] False show ?thesis by simp
  qed simp
qed simp

lemma bb_try_peek_spec: "bb_ready n b \<Longrightarrow> bb_try_peek b n = take n (bb_pending b)"
  by (auto simp: bb_try_peek_def bb_ready_def bb_pending_def peek_loop_spec)

lemma bb_try_read_oversized: "bb_ready n b \<Longrightarrow> oversized n \<Longrightarrow> bb_try_read n b = None"
  by (auto simp: bb_try_read_def bb_ready_def)

interpretation chunk_source: byte_source chunk_ops bb_pending bb_ready
  using bb_try_read_spec bb_try_peek_spec bb_try_read_oversized by unfold_locales (simp_all add: chunk_ops_def)

lemma bb_push_pending: "bb_pending (bb_push bs b) = bb_pending b @ bs"
  by (simp add: bb_push_def bb_pending_def cur_rest_def)

lemma bb_push_sel [simp]: "bb_num_read (bb_push bs b) = bb_num_read b" "bb_ready n (bb_push bs b) = bb_ready n b"
  by (simp_all add: bb_push_def bb_ready_def)

end
