(* ===== verification/Rrd_Decoder.thy ===== *)
theory Rrd_Decoder
  imports Rrd_Buffer
begin

text \<open>
  The push-based RRD decoder (\<open>crates/store/re_log_encoding/src/rrd/decoder/state_machine.rs\<close>).

  \<open>decoder_step\<close> is one pass through \<open>try_read_impl\<close>: it returns a result, panics, or asks to go again
  (where the code ends with \<open>return self.try_read()\<close>); \<open>decoder_try_read\<close> is the loop of \<open>try_read\<close>,
  which also drops messages without an application id. The byte source is an argument: with
  \<open>chunk_ops\<close> this is the decoder of the code, with \<open>flat_ops\<close> it reads from one flat list and serves as
  the specification. The decoders of the payloads (protobuf and Arrow) are the fields of \<open>payload_env\<close>.
  Log output is left out, and with it the outcome of the footer check, which is only logged; that the check
  itself overflows, and panics where overflow checks are compiled in, is kept.
\<close>

section \<open>The machine\<close>

datatype DecoderState =
    WaitingForStreamHeader
  | WaitingForMessageHeader
  | WaitingForMessagePayload MessageHeader
  | WaitingForStreamFooter
  | Aborted

record ('b, 'k, 'm) Decoder =
  dc_version :: "CrateVersion option"
  dc_options :: EncodingOptions
  dc_bytes :: 'b
  dc_state :: DecoderState
  dc_app_id_cache :: 'k
  dc_manifests :: "'m list"

text \<open>\<open>T::decode\<close>, which may update the application-id cache, \<open>RrdFooter::from_rrd_bytes\<close>, and whether the build
  checks arithmetic overflow, as debug builds do.\<close>

record ('k, 'm, 'e, 't) payload_env =
  pe_decode :: "byte list \<Rightarrow> Span_u64 \<Rightarrow> MessageKind \<Rightarrow> 'k \<Rightarrow> CrateVersion option \<Rightarrow> 'k \<times> ('e CodecError + 't option)"
  pe_footer :: "byte list \<Rightarrow> 'e CodecError + 'm list"
  pe_overflow_checks :: bool

datatype ('e, 't) outcome = Panic | Return "'e CodecError + 't option" | Again

definition step_stream_header ::
    "'b byte_ops \<Rightarrow> ('b, 'k, 'm) Decoder \<Rightarrow> ('e, 't) outcome \<times> ('b, 'k, 'm) Decoder" where
  "step_stream_header ops d =
     (let is_first_header = (bo_num_read ops (dc_bytes d) = 0) in
      case bo_try_read ops 12 (dc_bytes d) of
        None \<Rightarrow> (Panic, d)
      | Some (None, b) \<Rightarrow> (Return (Inr None), d\<lparr>dc_bytes := b\<rparr>)
      | Some (Some header_data, b) \<Rightarrow>
          let d = d\<lparr>dc_bytes := b\<rparr>;
              version_and_options = (case stream_header_from_rrd_bytes header_data of
                Inl e \<Rightarrow> Inl e | Inr h \<Rightarrow> to_version_and_options h)
          in case version_and_options of
               Inl err \<Rightarrow> if is_first_header then (Return (Inl err), d)
                          else (Return (Inr None), d\<lparr>dc_state := Aborted\<rparr>)
             | Inr (version, options) \<Rightarrow>
                 (Again, d\<lparr>dc_version := Some version, dc_options := options,
                    dc_state := (case eo_serializer options of Protobuf \<Rightarrow> WaitingForMessageHeader)\<rparr>))"

definition step_message_header ::
    "'b byte_ops \<Rightarrow> ('b, 'k, 'm) Decoder \<Rightarrow> ('e, 't) outcome \<times> ('b, 'k, 'm) Decoder" where
  "step_message_header ops d =
     (let peeked = bo_try_peek ops (dc_bytes d) 16 in
      if length peeked = 16 then
        (case message_header_from_rrd_bytes peeked of
           Inr header \<Rightarrow>
             (case bo_try_read ops 16 (dc_bytes d) of
                None \<Rightarrow> (Panic, d)
              | Some (None, b) \<Rightarrow> (Panic, d\<lparr>dc_bytes := b\<rparr>)
              | Some (Some _, b) \<Rightarrow> (Again, d\<lparr>dc_bytes := b, dc_state := WaitingForMessagePayload header\<rparr>))
         | Inl (FrameDecoding _) \<Rightarrow> (Again, d\<lparr>dc_state := WaitingForStreamHeader\<rparr>)
         | Inl err \<Rightarrow> (Return (Inl err), d))
      else (Return (Inr None), d))"

text \<open>When the footer payload does not decode, the error is returned with the state as it was.\<close>

definition step_payload ::
    "'b byte_ops \<Rightarrow> ('k, 'm, 'e, 't) payload_env \<Rightarrow> MessageHeader \<Rightarrow> ('b, 'k, 'm) Decoder \<Rightarrow>
     ('e, 't) outcome \<times> ('b, 'k, 'm) Decoder" where
  "step_payload ops env header d =
     (let start_offset = bo_num_read ops (dc_bytes d) in
      case bo_try_read ops (unat (mh_len header)) (dc_bytes d) of
        None \<Rightarrow> (Panic, d)
      | Some (None, b) \<Rightarrow> (Return (Inr None), d\<lparr>dc_bytes := b\<rparr>)
      | Some (Some bytes, b) \<Rightarrow>
          let d = d\<lparr>dc_bytes := b\<rparr>;
              byte_span = \<lparr>span_start = word_of_nat start_offset, span_len = word_of_nat (length bytes)\<rparr>;
              (cache, r) = pe_decode env bytes byte_span (mh_kind header) (dc_app_id_cache d) (dc_version d);
              d = d\<lparr>dc_app_id_cache := cache\<rparr>
          in case r of
               Inl err \<Rightarrow> (Return (Inl err), d\<lparr>dc_state := WaitingForMessageHeader\<rparr>)
             | Inr (Some message) \<Rightarrow> (Return (Inr (Some message)), d\<lparr>dc_state := WaitingForMessageHeader\<rparr>)
             | Inr None \<Rightarrow>
                 if bytes \<noteq> [] then
                   (case pe_footer env bytes of
                      Inl err \<Rightarrow> (Return (Inl err), d)
                    | Inr manifests \<Rightarrow>
                        (Again, d\<lparr>dc_manifests := dc_manifests d @ manifests, dc_state := WaitingForStreamFooter\<rparr>))
                 else (Again, d\<lparr>dc_state := WaitingForStreamFooter\<rparr>))"

text \<open>The loop over the entries of a footer computes the end of each span.\<close>

definition footer_overflows :: "StreamFooter \<Rightarrow> bool" where
  "footer_overflows footer \<longleftrightarrow> list_ex (\<lambda>entry. span_end_overflows (sfe_span entry)) (sf_entries footer)"

definition step_stream_footer ::
    "'b byte_ops \<Rightarrow> ('k, 'm, 'e, 't) payload_env \<Rightarrow> ('b, 'k, 'm) Decoder \<Rightarrow> ('e, 't) outcome \<times> ('b, 'k, 'm) Decoder" where
  "step_stream_footer ops env d =
     (case bo_try_read ops 32 (dc_bytes d) of
        None \<Rightarrow> (Panic, d)
      | Some (None, b) \<Rightarrow> (Return (Inr None), d\<lparr>dc_bytes := b\<rparr>)
      | Some (Some bytes, b) \<Rightarrow>
          let d = d\<lparr>dc_bytes := b\<rparr> in
          (case (stream_footer_from_rrd_bytes bytes :: ('e CodecError + StreamFooter) option) of
             None \<Rightarrow> (Panic, d)
           | Some (Inr footer) \<Rightarrow>
               if pe_overflow_checks env \<and> footer_overflows footer then (Panic, d)
               else (Again, d\<lparr>dc_state := WaitingForStreamHeader\<rparr>)
           | Some (Inl err) \<Rightarrow> (Return (Inr None), d\<lparr>dc_state := Aborted\<rparr>)))"

definition decoder_step ::
    "'b byte_ops \<Rightarrow> ('k, 'm, 'e, 't) payload_env \<Rightarrow> ('b, 'k, 'm) Decoder \<Rightarrow>
     ('e, 't) outcome \<times> ('b, 'k, 'm) Decoder" where
  "decoder_step ops env d =
     (case dc_state d of
        WaitingForStreamHeader \<Rightarrow> step_stream_header ops d
      | WaitingForMessageHeader \<Rightarrow> step_message_header ops d
      | WaitingForMessagePayload header \<Rightarrow> step_payload ops env header d
      | WaitingForStreamFooter \<Rightarrow> step_stream_footer ops env d
      | Aborted \<Rightarrow> (Return (Inr None), d))"

text \<open>The loop: go on after \<open>Again\<close> and after a message that has to be dropped. No result stands for
  non-termination.\<close>

fun continues :: "('e, 't) outcome \<Rightarrow> bool" where
  "continues Again = True"
| "continues (Return (Inl StoreIdMissingApplicationId)) = True"
| "continues _ = False"

partial_function (option) decoder_try_read ::
    "'b byte_ops \<Rightarrow> ('k, 'm, 'e, 't) payload_env \<Rightarrow> ('b, 'k, 'm) Decoder \<Rightarrow>
     (('e, 't) outcome \<times> ('b, 'k, 'm) Decoder) option" where
  "decoder_try_read ops env d =
     (if continues (fst (decoder_step ops env d)) then decoder_try_read ops env (snd (decoder_step ops env d))
      else Some (decoder_step ops env d))"

declare decoder_try_read.simps [code]

definition decoder_new :: "'k \<Rightarrow> (ByteChunkBuffer, 'k, 'm) Decoder" where
  "decoder_new cache = \<lparr>dc_version = None, dc_options = PROTOBUF_UNCOMPRESSED, dc_bytes = bb_new,
     dc_state = WaitingForStreamHeader, dc_app_id_cache = cache, dc_manifests = []\<rparr>"

definition push_byte_chunk ::
    "byte list \<Rightarrow> (ByteChunkBuffer, 'k, 'm) Decoder \<Rightarrow> (ByteChunkBuffer, 'k, 'm) Decoder" where
  "push_byte_chunk bs d = d\<lparr>dc_bytes := bb_push bs (dc_bytes d)\<rparr>"

section \<open>The flat decoder\<close>

type_synonym flat_source = "byte list \<times> nat"

definition flat_ops :: "flat_source byte_ops" where
  "flat_ops = \<lparr>bo_try_read = (\<lambda>n (p, k). if oversized n then None else Some (if n \<le> length p then (Some (take n p), (drop n p, k + n)) else (None, (p, k)))),
     bo_try_peek = (\<lambda>(p, k) n. take n p), bo_num_read = snd\<rparr>"

interpretation flat_source: byte_source flat_ops fst "\<lambda>_ _. True"
  by unfold_locales (auto simp: flat_ops_def split: prod.splits)

text \<open>The decoder of the code seen as a flat decoder.\<close>

definition flatten :: "('b \<Rightarrow> byte list) \<Rightarrow> 'b byte_ops \<Rightarrow> ('b, 'k, 'm) Decoder \<Rightarrow> (flat_source, 'k, 'm) Decoder" where
  "flatten pending ops d = \<lparr>dc_version = dc_version d, dc_options = dc_options d,
     dc_bytes = (pending (dc_bytes d), bo_num_read ops (dc_bytes d)), dc_state = dc_state d,
     dc_app_id_cache = dc_app_id_cache d, dc_manifests = dc_manifests d\<rparr>"

text \<open>What each state may ask the source for next.\<close>

definition aligned :: "(nat \<Rightarrow> 'b \<Rightarrow> bool) \<Rightarrow> ('b, 'k, 'm) Decoder \<Rightarrow> bool" where
  "aligned ready d =
     (case dc_state d of
        WaitingForStreamHeader \<Rightarrow> ready 12 (dc_bytes d)
      | WaitingForMessageHeader \<Rightarrow> \<forall>n. ready n (dc_bytes d)
      | WaitingForMessagePayload header \<Rightarrow> ready (unat (mh_len header)) (dc_bytes d)
      | WaitingForStreamFooter \<Rightarrow> ready 32 (dc_bytes d)
      | Aborted \<Rightarrow> True)"

lemma message_header_error:
  "message_header_from_rrd_bytes bs = Inl e \<Longrightarrow> \<exists>r. e = FrameDecoding r"
  by (auto simp: message_header_from_rrd_bytes_def Let_def split: if_splits)

lemma flat_read [simp]:
  "bo_try_read flat_ops n (p, k) = (if oversized n then None else Some (if n \<le> length p then (Some (take n p), (drop n p, k + n)) else (None, (p, k))))"
  "bo_try_peek flat_ops (p, k) n = take n p" "bo_num_read flat_ops (p, k) = k"
  by (simp_all add: flat_ops_def)

lemma flatten_sel [simp]:
  "dc_state (flatten pending ops d) = dc_state d" "dc_version (flatten pending ops d) = dc_version d"
  "dc_options (flatten pending ops d) = dc_options d" "dc_app_id_cache (flatten pending ops d) = dc_app_id_cache d"
  "dc_manifests (flatten pending ops d) = dc_manifests d"
  "dc_bytes (flatten pending ops d) = (pending (dc_bytes d), bo_num_read ops (dc_bytes d))"
  by (simp_all add: flatten_def)

context byte_source
begin

text \<open>One step on any source that keeps the contract is one step on flat bytes, and leaves the machine
  aligned.\<close>

lemma step_simulates:
  assumes "aligned ready d"
  shows "\<exists>r d'. decoder_step ops env d = (r, d')
    \<and> decoder_step flat_ops env (flatten pending ops d) = (r, flatten pending ops d') \<and> aligned ready d'"
proof (cases "dc_state d")
  case WaitingForStreamHeader
  have ready: "ready 12 (dc_bytes d)" using assms WaitingForStreamHeader by (simp add: aligned_def)
  show ?thesis
  proof (cases "12 \<le> length (pending (dc_bytes d))")
    case True
    obtain b' where "bo_try_read ops 12 (dc_bytes d) = Some (Some (take 12 (pending (dc_bytes d))), b')"
      "pending b' = drop 12 (pending (dc_bytes d))" "bo_num_read ops b' = bo_num_read ops (dc_bytes d) + 12" "\<forall>m. ready m b'"
      by (rule read_enough [OF ready _ True]) simp_all
    then show ?thesis using WaitingForStreamHeader True
      by (auto simp: decoder_step_def step_stream_header_def Let_def flatten_def aligned_def
          split: sum.splits Serializer.splits)
  next
    case False
    then obtain b' where "bo_try_read ops 12 (dc_bytes d) = Some (None, b')" "pending b' = pending (dc_bytes d)"
      "bo_num_read ops b' = bo_num_read ops (dc_bytes d)" "ready 12 b'"
      using read_short [OF ready] by auto
    then show ?thesis using WaitingForStreamHeader False
      by (auto simp: decoder_step_def step_stream_header_def Let_def flatten_def aligned_def)
  qed
next
  case WaitingForMessageHeader
  have ready: "\<And>n. ready n (dc_bytes d)" using assms WaitingForMessageHeader by (simp add: aligned_def)
  show ?thesis
  proof (cases "16 \<le> length (pending (dc_bytes d))")
    case True
    obtain b' where "bo_try_read ops 16 (dc_bytes d) = Some (Some (take 16 (pending (dc_bytes d))), b')"
      "pending b' = drop 16 (pending (dc_bytes d))" "bo_num_read ops b' = bo_num_read ops (dc_bytes d) + 16" "\<forall>m. ready m b'"
      by (rule read_enough [OF ready _ True]) simp_all
    then show ?thesis using WaitingForMessageHeader True ready
      by (auto simp: decoder_step_def step_message_header_def Let_def flatten_def aligned_def peek_law [OF ready]
          split: sum.splits CodecError.splits)
  next
    case False
    then show ?thesis using WaitingForMessageHeader ready
      by (auto simp: decoder_step_def step_message_header_def Let_def flatten_def aligned_def peek_law [OF ready])
  qed
next
  case (WaitingForMessagePayload header)
  let ?n = "unat (mh_len header)"
  have ready: "ready ?n (dc_bytes d)" using assms WaitingForMessagePayload by (simp add: aligned_def)
  show ?thesis
  proof (cases "oversized ?n")
    case True
    then show ?thesis using WaitingForMessagePayload assms oversized_law [OF ready True]
      by (simp add: decoder_step_def step_payload_def Let_def flatten_def)
  next
    case False
    note small = False
    show ?thesis
    proof (cases "?n \<le> length (pending (dc_bytes d))")
      case True
      obtain b' where "bo_try_read ops ?n (dc_bytes d) = Some (Some (take ?n (pending (dc_bytes d))), b')"
        "pending b' = drop ?n (pending (dc_bytes d))" "bo_num_read ops b' = bo_num_read ops (dc_bytes d) + ?n" "\<forall>m. ready m b'"
        by (rule read_enough [OF ready small True])
      then show ?thesis using WaitingForMessagePayload True small
        by (auto simp: decoder_step_def step_payload_def Let_def flatten_def aligned_def
            split: sum.splits option.splits prod.splits)
    next
      case False
      then obtain b' where "bo_try_read ops ?n (dc_bytes d) = Some (None, b')" "pending b' = pending (dc_bytes d)"
        "bo_num_read ops b' = bo_num_read ops (dc_bytes d)" "ready ?n b'"
        using read_short [OF ready small] by auto
      then show ?thesis using WaitingForMessagePayload False small
        by (auto simp: decoder_step_def step_payload_def Let_def flatten_def aligned_def)
    qed
  qed
next
  case WaitingForStreamFooter
  have ready: "ready 32 (dc_bytes d)" using assms WaitingForStreamFooter by (simp add: aligned_def)
  show ?thesis
  proof (cases "32 \<le> length (pending (dc_bytes d))")
    case True
    obtain b' where "bo_try_read ops 32 (dc_bytes d) = Some (Some (take 32 (pending (dc_bytes d))), b')"
      "pending b' = drop 32 (pending (dc_bytes d))" "bo_num_read ops b' = bo_num_read ops (dc_bytes d) + 32" "\<forall>m. ready m b'"
      by (rule read_enough [OF ready _ True]) simp_all
    then show ?thesis using WaitingForStreamFooter True
      by (auto simp: decoder_step_def step_stream_footer_def Let_def flatten_def aligned_def
          split: sum.splits option.splits)
  next
    case False
    then obtain b' where "bo_try_read ops 32 (dc_bytes d) = Some (None, b')" "pending b' = pending (dc_bytes d)"
      "bo_num_read ops b' = bo_num_read ops (dc_bytes d)" "ready 32 b'"
      using read_short [OF ready] by auto
    then show ?thesis using WaitingForStreamFooter False
      by (auto simp: decoder_step_def step_stream_footer_def Let_def flatten_def aligned_def)
  qed
next
  case Aborted
  then show ?thesis by (auto simp: decoder_step_def aligned_def)
qed

end

end
