(* ===== verification/Rrd_Stream.thy ===== *)
theory Rrd_Stream
  imports Rrd_Decoder
begin

text \<open>
  The decoder over time: it returns on every input, it can be fed in any chunking and read at any
  moment without changing what it yields, and its bookkeeping matches the bytes it was given
  (\<open>crates/store/re_log_encoding/src/rrd/decoder/state_machine.rs\<close>).

  \<open>emits\<close> is the step relation of the flat decoder with the results it yields; \<open>runs\<close> is the set of
  histories of the real one, an arbitrary interleaving of \<open>push_byte_chunk\<close> and \<open>try_read\<close>.
\<close>

section \<open>Every read returns\<close>

text \<open>Each pass either consumes bytes or moves to a state with a smaller rank.\<close>

definition rank :: "DecoderState \<Rightarrow> nat" where
  "rank s = (case s of WaitingForMessagePayload _ \<Rightarrow> 2 | WaitingForMessageHeader \<Rightarrow> 1 | _ \<Rightarrow> 0)"

definition weight :: "(flat_source, 'k, 'm) Decoder \<Rightarrow> nat" where
  "weight d = 3 * length (fst (dc_bytes d)) + rank (dc_state d)"

text \<open>The result ``not enough data yet'', \<open>Ok(None)\<close>.\<close>

fun idle :: "('e, 't) outcome \<Rightarrow> bool" where
  "idle (Return (Inr None)) = True"
| "idle _ = False"

lemma idle_iff: "idle r \<longleftrightarrow> r = Return (Inr None)"
  by (cases r rule: idle.cases) simp_all

lemmas step_defs = decoder_step_def step_stream_header_def step_message_header_def step_payload_def
  step_stream_footer_def

lemma step_weight:
  assumes "decoder_step flat_ops env d = (r, d')" "r \<noteq> Panic" "\<not> idle r"
  shows "weight d' < weight d"
proof -
  obtain p k where b: "dc_bytes d = (p, k)" by fastforce
  show ?thesis
  proof (cases "dc_state d")
    case WaitingForStreamHeader
    then show ?thesis using assms b
      by (auto simp: step_defs Let_def idle_iff weight_def rank_def split: if_splits sum.splits Serializer.splits)
  next
    case WaitingForMessageHeader
    then show ?thesis using assms b
      by (auto simp: step_defs Let_def idle_iff weight_def rank_def dest: message_header_error
          split: if_splits sum.splits CodecError.splits)
  next
    case (WaitingForMessagePayload h)
    then show ?thesis using assms b
      by (auto simp: step_defs Let_def idle_iff weight_def rank_def neq_Nil_conv
          split: if_splits sum.splits option.splits prod.splits)
  next
    case WaitingForStreamFooter
    then show ?thesis using assms b
      by (auto simp: step_defs Let_def idle_iff weight_def rank_def split: if_splits sum.splits option.splits)
  next
    case Aborted
    then show ?thesis using assms by (simp add: step_defs idle_iff)
  qed
qed

lemma continues_not [simp]: "continues r \<Longrightarrow> r \<noteq> Panic" "continues r \<Longrightarrow> \<not> idle r"
  by (cases r rule: continues.cases; simp)+

context byte_source
begin

text \<open>The loop on a source that keeps the contract: it returns, with the result of the flat decoder.\<close>

lemma try_read_simulates:
  assumes "aligned ready d"
  shows "\<exists>r d'. decoder_try_read ops env d = Some (r, d')
    \<and> decoder_try_read flat_ops env (flatten pending ops d) = Some (r, flatten pending ops d')
    \<and> \<not> continues r \<and> aligned ready d'"
  using assms
proof (induction "weight (flatten pending ops d)" arbitrary: d rule: less_induct)
  case less
  obtain r d' where s: "decoder_step ops env d = (r, d')"
    "decoder_step flat_ops env (flatten pending ops d) = (r, flatten pending ops d')" "aligned ready d'"
    using step_simulates [OF less(2)] by blast
  show ?case
  proof (cases "continues r")
    case True
    then have "weight (flatten pending ops d') < weight (flatten pending ops d)"
      using step_weight [OF s(2)] by simp
    with less(1) s(3) True show ?thesis
      by (simp add: decoder_try_read.simps [of _ _ d] decoder_try_read.simps [of _ _ "flatten pending ops d"] s)
  next
    case False
    then show ?thesis using s
      by (simp add: decoder_try_read.simps [of _ _ d] decoder_try_read.simps [of _ _ "flatten pending ops d"])
  qed
qed

end

lemma flatten_flat: "flatten fst flat_ops d = d"
  by (cases d) (auto simp: flatten_def flat_ops_def)

lemma flat_aligned: "aligned (\<lambda>_ _. True) d"
  by (simp add: aligned_def split: DecoderState.splits)

lemma flat_try_read_returns: "\<exists>r d'. decoder_try_read flat_ops env d = Some (r, d') \<and> \<not> continues r"
  using flat_source.try_read_simulates [OF flat_aligned, of env d] by blast

section \<open>More bytes do not change what was decided\<close>

definition more_bytes :: "byte list \<Rightarrow> (flat_source, 'k, 'm) Decoder \<Rightarrow> (flat_source, 'k, 'm) Decoder" where
  "more_bytes q d = d\<lparr>dc_bytes := (fst (dc_bytes d) @ q, snd (dc_bytes d))\<rparr>"

lemma extend_sel [simp]:
  "dc_state (more_bytes q d) = dc_state d" "dc_version (more_bytes q d) = dc_version d"
  "dc_options (more_bytes q d) = dc_options d" "dc_app_id_cache (more_bytes q d) = dc_app_id_cache d"
  "dc_manifests (more_bytes q d) = dc_manifests d"
  "dc_bytes (more_bytes q d) = (fst (dc_bytes d) @ q, snd (dc_bytes d))"
  by (simp_all add: more_bytes_def)

lemma extend_upd [simp]:
  "(more_bytes q d)\<lparr>dc_state := s\<rparr> = more_bytes q (d\<lparr>dc_state := s\<rparr>)"
  "(more_bytes q d)\<lparr>dc_bytes := (p @ q, k)\<rparr> = more_bytes q (d\<lparr>dc_bytes := (p, k)\<rparr>)"
  "(more_bytes q d)\<lparr>dc_version := v\<rparr> = more_bytes q (d\<lparr>dc_version := v\<rparr>)"
  "(more_bytes q d)\<lparr>dc_options := opts\<rparr> = more_bytes q (d\<lparr>dc_options := opts\<rparr>)"
  "(more_bytes q d)\<lparr>dc_app_id_cache := c\<rparr> = more_bytes q (d\<lparr>dc_app_id_cache := c\<rparr>)"
  "(more_bytes q d)\<lparr>dc_manifests := ms\<rparr> = more_bytes q (d\<lparr>dc_manifests := ms\<rparr>)"
  by (cases d; simp add: more_bytes_def)+

lemma step_payload_extend:
  assumes "step_payload flat_ops env h d = (r, d')" "\<not> (idle r \<and> d' = d)"
  shows "step_payload flat_ops env h (more_bytes q d) = (r, more_bytes q d')"
proof -
  obtain p k where b: "dc_bytes d = (p, k)" by fastforce
  then have same: "d\<lparr>dc_bytes := (p, k)\<rparr> = d" by (cases d) simp
  let ?n = "unat (mh_len h)"
  consider "oversized ?n" | "\<not> oversized ?n" "?n \<le> length p" | "\<not> oversized ?n" "\<not> ?n \<le> length p" by blast
  then show ?thesis
  proof cases
    case 1
    then show ?thesis using assms b by (simp add: step_payload_def Let_def)
  next
    case 2
    then show ?thesis using assms(1) b
      by (auto simp: step_payload_def Let_def trans_le_add1 split: sum.splits option.splits prod.splits if_splits)
  next
    case 3
    then show ?thesis using assms b same by (auto simp: step_payload_def Let_def idle_iff)
  qed
qed

lemma step_footer_extend:
  assumes "step_stream_footer flat_ops env d = (r, d')" "\<not> (idle r \<and> d' = d)"
  shows "step_stream_footer flat_ops env (more_bytes q d) = (r, more_bytes q d')"
proof -
  obtain p k where b: "dc_bytes d = (p, k)" by fastforce
  then have same: "d\<lparr>dc_bytes := (p, k)\<rparr> = d" by (cases d) simp
  show ?thesis
  proof (cases "32 \<le> length p")
    case True
    then show ?thesis using assms(1) b
      by (auto simp: step_stream_footer_def Let_def trans_le_add1 split: sum.splits option.splits if_splits)
  next
    case False
    then show ?thesis using assms b same by (auto simp: step_stream_footer_def Let_def idle_iff)
  qed
qed

lemma step_extend:
  assumes "decoder_step flat_ops env d = (r, d')" "\<not> (idle r \<and> d' = d)"
  shows "decoder_step flat_ops env (more_bytes q d) = (r, more_bytes q d')"
proof -
  obtain p k where b: "dc_bytes d = (p, k)" by fastforce
  then have [simp]: "d\<lparr>dc_bytes := (p, k)\<rparr> = d" by (cases d) simp
  show ?thesis
  proof (cases "dc_state d")
    case WaitingForStreamHeader
    then show ?thesis using assms b
      by (auto simp: step_defs Let_def idle_iff split: if_splits sum.splits Serializer.splits)
  next
    case WaitingForMessageHeader
    then show ?thesis using assms b
      by (auto simp: step_defs Let_def idle_iff dest: message_header_error
          split: if_splits sum.splits CodecError.splits)
  next
    case (WaitingForMessagePayload h)
    then show ?thesis using assms step_payload_extend [of env h d r d' q] by (simp add: decoder_step_def)
  next
    case WaitingForStreamFooter
    then show ?thesis using assms step_footer_extend [of env d r d' q] by (simp add: decoder_step_def)
  next
    case Aborted
    then show ?thesis using assms by (auto simp: step_defs idle_iff)
  qed
qed

section \<open>What a byte sequence decodes to\<close>

text \<open>The results a caller of \<open>try_read\<close> sees: no \<open>Again\<close>, no dropped message, no ``not enough data''.\<close>

definition visible :: "('e, 't) outcome \<Rightarrow> ('e, 't) outcome list" where
  "visible r = (if continues r \<or> idle r then [] else [r])"

text \<open>The reference: everything that one flat sequence yields, in order, until bytes run out or the code
  panics.\<close>

function decode_all :: "('k, 'm, 'e, 't) payload_env \<Rightarrow> (flat_source, 'k, 'm) Decoder \<Rightarrow> ('e, 't) outcome list" where
  "decode_all env d =
     (let (r, d') = decoder_step flat_ops env d in
      if r = Panic then [Panic] else if idle r then [] else visible r @ decode_all env d')"
  by pat_completeness auto
termination
  by (relation "measure (\<lambda>(env, d). weight d)") (auto intro: step_weight [OF sym])

declare decode_all.simps [simp del]

inductive emits :: "('k, 'm, 'e, 't) payload_env \<Rightarrow> (flat_source, 'k, 'm) Decoder \<Rightarrow> ('e, 't) outcome list \<Rightarrow>
    (flat_source, 'k, 'm) Decoder \<Rightarrow> bool" for env where
  emits_none: "emits env d [] d"
| emits_step: "decoder_step flat_ops env d = (r, d') \<Longrightarrow> r \<noteq> Panic \<Longrightarrow> emits env d' os d'' \<Longrightarrow>
    emits env d (visible r @ os) d''"

inductive_cases emits_cases: "emits env d os d'"

lemma emits_one: "decoder_step flat_ops env d = (r, d') \<Longrightarrow> r \<noteq> Panic \<Longrightarrow> emits env d (visible r) d'"
  using emits_step [OF _ _ emits_none] by fastforce

lemma emits_trans: "emits env d os d' \<Longrightarrow> emits env d' os' d'' \<Longrightarrow> emits env d (os @ os') d''"
  by (induction rule: emits.induct) (auto intro: emits_step)

lemma visible_idle [simp]: "idle r \<Longrightarrow> visible r = []" "continues r \<Longrightarrow> visible r = []"
  by (simp_all add: visible_def)

text \<open>A step that yields nothing and changes nothing may be left out, so every run survives more bytes.\<close>

lemma emits_extend: "emits env d os d' \<Longrightarrow> emits env (more_bytes q d) os (more_bytes q d')"
proof (induction rule: emits.induct)
  case (emits_step d r d' os d'')
  show ?case
  proof (cases "idle r \<and> d' = d")
    case True
    then show ?thesis using emits_step by simp
  next
    case False
    then show ?thesis using emits_step step_extend [OF emits_step(1) False] by (auto intro: emits.emits_step)
  qed
qed (rule emits_none)

lemma idle_stays:
  assumes "decoder_step flat_ops env d = (r, d')" "idle r"
  shows "decode_all env d' = []"
proof -
  obtain p k where b: "dc_bytes d = (p, k)" by fastforce
  then have [simp]: "d\<lparr>dc_bytes := (p, k)\<rparr> = d" by (cases d) simp
  have "d' = d \<or> dc_state d' = Aborted"
    using assms b
    by (cases "dc_state d")
      (auto simp: step_defs Let_def idle_iff dest: message_header_error
        split: if_splits sum.splits CodecError.splits option.splits prod.splits Serializer.splits)
  then show ?thesis
  proof
    assume "d' = d"
    then show ?thesis using assms by (simp add: decode_all.simps [of env d] idle_iff)
  next
    assume "dc_state d' = Aborted"
    then show ?thesis by (simp add: decode_all.simps [of env d'] decoder_step_def idle_iff)
  qed
qed

lemma emits_decode_all: "emits env d os d' \<Longrightarrow> decode_all env d = os @ decode_all env d'"
proof (induction rule: emits.induct)
  case (emits_step d r d' os d'')
  show ?case
  proof (cases "idle r")
    case True
    then show ?thesis using emits_step idle_stays [OF emits_step(1) True]
      by (simp add: decode_all.simps [of env d] idle_iff)
  next
    case False
    then show ?thesis using emits_step by (simp add: decode_all.simps [of env d])
  qed
qed simp

text \<open>Induction along the passes of one read.\<close>

lemma try_read_induct [consumes 1, case_names last again]:
  assumes "decoder_try_read flat_ops env d = Some (r, d')"
    and last: "\<And>d. decoder_step flat_ops env d = (r, d') \<Longrightarrow> \<not> continues r \<Longrightarrow> P d"
    and again: "\<And>d s e. decoder_step flat_ops env d = (s, e) \<Longrightarrow> continues s \<Longrightarrow> P e \<Longrightarrow> P d"
  shows "P d"
  using assms(1)
proof (induction "weight d" arbitrary: d rule: less_induct)
  case less
  obtain s e where s: "decoder_step flat_ops env d = (s, e)" by fastforce
  show ?case
  proof (cases "continues s")
    case True
    then have "P e" using less s step_weight [OF s] by (simp add: decoder_try_read.simps [of _ _ d])
    then show ?thesis using again s True by blast
  next
    case False
    then show ?thesis using less(2) s last by (simp add: decoder_try_read.simps [of _ _ d])
  qed
qed

lemma try_read_emits:
  "decoder_try_read flat_ops env d = Some (r, d') \<Longrightarrow> r \<noteq> Panic \<Longrightarrow> emits env d (visible r) d'"
proof (induction rule: try_read_induct)
  case (again d s e)
  then show ?case using emits_step [of env d s e] by fastforce
qed (rule emits_one)

lemma try_read_idle:
  "decoder_try_read flat_ops env d = Some (r, d') \<Longrightarrow> idle r \<Longrightarrow> decode_all env d' = []"
  by (induction rule: try_read_induct) (auto intro: idle_stays)

lemma try_read_panic:
  "decoder_try_read flat_ops env d = Some (r, d') \<Longrightarrow> r = Panic \<Longrightarrow> decode_all env d = [Panic]"
  by (induction rule: try_read_induct) (simp_all add: decode_all.simps [of env])

section \<open>Histories\<close>

datatype event = Push "byte list" | Read

definition pushed :: "event list \<Rightarrow> byte list" where
  "pushed es = concat (map (\<lambda>e. case e of Push bs \<Rightarrow> bs | Read \<Rightarrow> []) es)"

text \<open>\<open>runs env c es outs d\<close>: a fresh decoder with cache \<open>c\<close> has seen the calls \<open>es\<close>, its reads returned \<open>outs\<close>
  and none of them panicked.\<close>

inductive runs :: "('k, 'm, 'e, 't) payload_env \<Rightarrow> 'k \<Rightarrow> event list \<Rightarrow> ('e, 't) outcome list \<Rightarrow>
    (ByteChunkBuffer, 'k, 'm) Decoder \<Rightarrow> bool" for env c where
  runs_new: "runs env c [] [] (decoder_new c)"
| runs_push: "runs env c es outs d \<Longrightarrow> runs env c (es @ [Push bs]) outs (push_byte_chunk bs d)"
| runs_read: "runs env c es outs d \<Longrightarrow> decoder_try_read chunk_ops env d = Some (r, d') \<Longrightarrow> r \<noteq> Panic \<Longrightarrow>
    runs env c (es @ [Read]) (outs @ [r]) d'"

inductive_cases runs_snoc_read: "runs env c (es @ [Read]) outs d"

abbreviation flat :: "(ByteChunkBuffer, 'k, 'm) Decoder \<Rightarrow> (flat_source, 'k, 'm) Decoder" where
  "flat \<equiv> flatten bb_pending chunk_ops"

text \<open>A fresh decoder in front of the whole byte sequence.\<close>

definition flat_start :: "'k \<Rightarrow> byte list \<Rightarrow> (flat_source, 'k, 'm) Decoder" where
  "flat_start c bs = more_bytes bs (flat (decoder_new c))"

lemma pushed_simps [simp]: "pushed [] = []" "pushed (es @ [Push bs]) = pushed es @ bs" "pushed (es @ [Read]) = pushed es"
  by (simp_all add: pushed_def)

lemma new_aligned: "aligned bb_ready (decoder_new c)"
  by (simp add: decoder_new_def aligned_def bb_ready_def bb_new_def)

lemma push_aligned: "aligned bb_ready d \<Longrightarrow> aligned bb_ready (push_byte_chunk bs d)"
  by (simp add: aligned_def push_byte_chunk_def split: DecoderState.splits)

lemma push_flat: "flat (push_byte_chunk bs d) = more_bytes bs (flat d)"
  by (simp add: flatten_def push_byte_chunk_def more_bytes_def bb_push_pending) (simp add: chunk_ops_def)

lemma extend_extend: "more_bytes q (more_bytes p d) = more_bytes (p @ q) d"
  by (simp add: more_bytes_def)

lemma extend_nil: "more_bytes [] d = d"
  by (cases d) (simp add: more_bytes_def)

lemma runs_aligned: "runs env c es outs d \<Longrightarrow> aligned bb_ready d"
proof (induction rule: runs.induct)
  case (runs_read es outs d r d')
  then show ?case using chunk_source.try_read_simulates [of d env] by auto
qed (simp_all add: new_aligned push_aligned)

lemma runs_emits: "runs env c es outs d \<Longrightarrow> emits env (flat_start c (pushed es)) (concat (map visible outs)) (flat d)"
proof (induction rule: runs.induct)
  case runs_new
  show ?case using emits_none by (simp add: flat_start_def extend_nil)
next
  case (runs_push es outs d bs)
  then show ?case using emits_extend by (fastforce simp: flat_start_def push_flat extend_extend)
next
  case (runs_read es outs d r d')
  then have "decoder_try_read flat_ops env (flat d) = Some (r, flat d')"
    using chunk_source.try_read_simulates [OF runs_aligned [OF runs_read(1)], of env] by auto
  then show ?case using emits_trans [OF runs_read(4) try_read_emits] runs_read(3) by simp
qed

lemma runs_reads:
  assumes "runs env c es outs d"
  obtains r d' where "decoder_try_read chunk_ops env d = Some (r, d')"
    "decoder_try_read flat_ops env (flat d) = Some (r, flat d')" "\<not> continues r"
  using chunk_source.try_read_simulates [OF runs_aligned [OF assms], of env] by blast

lemma runs_decode_all:
  "runs env c es outs d \<Longrightarrow> decode_all env (flat_start c (pushed es)) = concat (map visible outs) @ decode_all env (flat d)"
  by (rule emits_decode_all [OF runs_emits])

section \<open>Bookkeeping\<close>

lemma step_consumes:
  assumes "decoder_step flat_ops env d = (r, d')"
  shows "\<exists>n\<le>length (fst (dc_bytes d)). dc_bytes d' = (drop n (fst (dc_bytes d)), snd (dc_bytes d) + n)"
proof -
  obtain p k where b: "dc_bytes d = (p, k)" by fastforce
  have "dc_bytes d' = dc_bytes d \<or> (\<exists>n\<le>length p. dc_bytes d' = (drop n p, k + n))"
    using assms b
    by (cases "dc_state d")
      (auto simp: step_defs Let_def dest: message_header_error
        split: if_splits sum.splits CodecError.splits option.splits prod.splits Serializer.splits)
  then show ?thesis using b by (auto intro: exI [of _ 0])
qed

lemma emits_consumes:
  "emits env d os d' \<Longrightarrow> \<exists>n\<le>length (fst (dc_bytes d)). dc_bytes d' = (drop n (fst (dc_bytes d)), snd (dc_bytes d) + n)"
proof (induction rule: emits.induct)
  case (emits_none d)
  show ?case by (rule exI [of _ 0]) simp
next
  case (emits_step d r d' os d'')
  obtain n where n: "n \<le> length (fst (dc_bytes d))" "dc_bytes d' = (drop n (fst (dc_bytes d)), snd (dc_bytes d) + n)"
    using step_consumes [OF emits_step(1)] by blast
  moreover obtain m where "m \<le> length (fst (dc_bytes d'))"
    "dc_bytes d'' = (drop m (fst (dc_bytes d')), snd (dc_bytes d') + m)"
    using emits_step(4) by blast
  ultimately show ?case by (intro exI [of _ "n + m"]) (auto simp: add.commute)
qed

lemma flat_start_bytes [simp]: "dc_bytes (flat_start c bs) = (bs, 0)"
  by (simp add: flat_start_def more_bytes_def flatten_def decoder_new_def bb_new_def bb_pending_def chunk_ops_def)

lemma runs_bytes:
  assumes "runs env c es outs d"
  shows "bb_num_read (dc_bytes d) \<le> length (pushed es)" "bb_pending (dc_bytes d) = drop (bb_num_read (dc_bytes d)) (pushed es)"
  using emits_consumes [OF runs_emits [OF assms]] by (auto simp: chunk_ops_def)

text \<open>The panics of a pass: a stream footer with two or more entries, or with a span that overflows where
  overflow checks are compiled in; and a message header that announces more than \<open>isize::MAX\<close> bytes.\<close>

definition panicking_footer :: "bool \<Rightarrow> byte list \<Rightarrow> bool" where
  "panicking_footer overflow_checks bs =
     (case (stream_footer_from_rrd_bytes bs :: (unit CodecError + StreamFooter) option) of
        None \<Rightarrow> True
      | Some (Inr footer) \<Rightarrow> overflow_checks \<and> footer_overflows footer
      | Some (Inl _) \<Rightarrow> False)"

definition oversized_header :: "byte list \<Rightarrow> bool" where
  "oversized_header bs =
     (case (message_header_from_rrd_bytes bs :: unit CodecError + MessageHeader) of
        Inr header \<Rightarrow> oversized (unat (mh_len header))
      | Inl _ \<Rightarrow> False)"

lemma panicking_footer_iff:
  "panicking_footer chk bs \<longleftrightarrow> (stream_footer_from_rrd_bytes bs :: ('e CodecError + StreamFooter) option) = None
    \<or> (\<exists>footer. (stream_footer_from_rrd_bytes bs :: ('e CodecError + StreamFooter) option) = Some (Inr footer)
         \<and> chk \<and> footer_overflows footer)"
  by (auto simp: panicking_footer_def stream_footer_from_rrd_bytes_def Let_def split: option.splits)

lemma oversized_headerI:
  "(message_header_from_rrd_bytes bs :: 'e CodecError + MessageHeader) = Inr h \<Longrightarrow> oversized (unat (mh_len h)) \<Longrightarrow> oversized_header bs"
  by (auto simp: oversized_header_def message_header_from_rrd_bytes_def Let_def split: if_splits)

lemma step_panic:
  fixes env :: "('k, 'm, 'e, 't) payload_env"
  assumes "decoder_step flat_ops env d = (Panic, d')"
  shows "(32 \<le> length (fst (dc_bytes d)) \<and> panicking_footer (pe_overflow_checks env) (take 32 (fst (dc_bytes d))))
    \<or> (\<exists>h. dc_state d = WaitingForMessagePayload h \<and> oversized (unat (mh_len h)))"
proof -
  obtain p k where b: "dc_bytes d = (p, k)" by fastforce
  show ?thesis
  proof (cases "dc_state d")
    case WaitingForStreamHeader
    then show ?thesis using assms b
      by (auto simp: step_defs Let_def split: if_splits sum.splits Serializer.splits)
  next
    case WaitingForMessageHeader
    then show ?thesis using assms b
      by (auto simp: step_defs Let_def dest: message_header_error
          split: if_splits sum.splits CodecError.splits)
  next
    case (WaitingForMessagePayload h)
    then show ?thesis using assms b
      by (auto simp: step_defs Let_def split: if_splits sum.splits option.splits prod.splits)
  next
    case WaitingForStreamFooter
    then show ?thesis using assms b
      by (auto simp: step_defs Let_def panicking_footer_iff [where 'e = 'e]
          split: if_splits sum.splits option.splits)
  qed (use assms in \<open>simp add: step_defs\<close>)
qed

text \<open>Where the decoder stands in the bytes \<open>bs\<close>, and where the header came from whose payload it waits for.\<close>

definition located :: "byte list \<Rightarrow> (flat_source, 'k, 'm) Decoder \<Rightarrow> bool" where
  "located bs d \<longleftrightarrow> snd (dc_bytes d) \<le> length bs \<and> fst (dc_bytes d) = drop (snd (dc_bytes d)) bs
     \<and> (\<forall>h. dc_state d = WaitingForMessagePayload h \<longrightarrow>
          (\<exists>n. n + 16 \<le> length bs \<and> (message_header_from_rrd_bytes (take 16 (drop n bs)) :: unit CodecError + MessageHeader) = Inr h))"

lemma step_payload_state:
  fixes env :: "('k, 'm, 'e, 't) payload_env"
  assumes "decoder_step flat_ops env d = (r, d')" "dc_state d' = WaitingForMessagePayload h"
  shows "dc_state d = WaitingForMessagePayload h
    \<or> (16 \<le> length (fst (dc_bytes d)) \<and> (message_header_from_rrd_bytes (take 16 (fst (dc_bytes d))) :: unit CodecError + MessageHeader) = Inr h)"
proof -
  obtain p k where b: "dc_bytes d = (p, k)" by fastforce
  have poly: "(message_header_from_rrd_bytes q :: 'e CodecError + MessageHeader) = Inr g \<Longrightarrow>
      (message_header_from_rrd_bytes q :: unit CodecError + MessageHeader) = Inr g" for q g
    by (auto simp: message_header_from_rrd_bytes_def Let_def split: if_splits)
  show ?thesis
  proof (cases "dc_state d")
    case WaitingForMessageHeader
    then show ?thesis using assms b
      by (auto simp: step_defs Let_def dest: message_header_error poly split: if_splits sum.splits CodecError.splits)
  qed (use assms b in \<open>auto simp: step_defs Let_def split: if_splits sum.splits option.splits prod.splits Serializer.splits\<close>)
qed

lemma step_located:
  assumes "located bs d" "decoder_step flat_ops env d = (r, d')"
  shows "located bs d'"
proof -
  obtain m where m: "m \<le> length (fst (dc_bytes d))" "dc_bytes d' = (drop m (fst (dc_bytes d)), snd (dc_bytes d) + m)"
    using step_consumes [OF assms(2)] by blast
  have "\<exists>n. n + 16 \<le> length bs \<and> (message_header_from_rrd_bytes (take 16 (drop n bs)) :: unit CodecError + MessageHeader) = Inr h"
    if "dc_state d' = WaitingForMessagePayload h" for h
  proof (cases "dc_state d = WaitingForMessagePayload h")
    case True
    then show ?thesis using assms(1) by (simp add: located_def)
  next
    case False
    then show ?thesis
      using step_payload_state [OF assms(2) that] assms(1) by (intro exI [of _ "snd (dc_bytes d)"]) (auto simp: located_def)
  qed
  then show ?thesis using assms(1) m by (auto simp: located_def add.commute)
qed

lemma emits_located: "emits env d os d' \<Longrightarrow> located bs d \<Longrightarrow> located bs d'"
  by (induction rule: emits.induct) (auto dest: step_located)

lemma try_read_panic_at:
  assumes "decoder_try_read flat_ops env d = Some (r, d')" "r = Panic" "located bs d"
  shows "(\<exists>n. n + 32 \<le> length bs \<and> panicking_footer (pe_overflow_checks env) (take 32 (drop n bs)))
    \<or> (\<exists>n. n + 16 \<le> length bs \<and> oversized_header (take 16 (drop n bs)))"
  using assms
proof (induction rule: try_read_induct)
  case (last d)
  then consider "32 \<le> length (fst (dc_bytes d))" "panicking_footer (pe_overflow_checks env) (take 32 (fst (dc_bytes d)))"
    | h where "dc_state d = WaitingForMessagePayload h" "oversized (unat (mh_len h))"
    using step_panic [of env d d'] by blast
  then show ?case
  proof cases
    case 1
    then show ?thesis using last(4) by (intro disjI1 exI [of _ "snd (dc_bytes d)"]) (auto simp: located_def)
  next
    case 2
    then show ?thesis using last(4) oversized_headerI [where 'e = unit] unfolding located_def by blast
  qed
next
  case (again d s e)
  then show ?case using step_located [OF again(5,1)] by simp
qed

text \<open>The edges of the state machine. \<open>WaitingForStreamFooter\<close> to \<open>Aborted\<close> is taken by the code but is
  missing in the diagram of its documentation.\<close>

definition documented_edge :: "DecoderState \<Rightarrow> DecoderState \<Rightarrow> bool" where
  "documented_edge s t =
     (case s of
        WaitingForStreamHeader \<Rightarrow> t = WaitingForMessageHeader \<or> t = Aborted
      | WaitingForMessageHeader \<Rightarrow> (case t of WaitingForMessagePayload _ \<Rightarrow> True | _ \<Rightarrow> t = WaitingForStreamHeader)
      | WaitingForMessagePayload _ \<Rightarrow> t = WaitingForMessageHeader \<or> t = WaitingForStreamFooter
      | WaitingForStreamFooter \<Rightarrow> t = WaitingForStreamHeader
      | Aborted \<Rightarrow> False)"

lemma step_edges:
  assumes "decoder_step ops env d = (r, d')"
  shows "dc_state d' = dc_state d \<or> documented_edge (dc_state d) (dc_state d')
    \<or> (dc_state d = WaitingForStreamFooter \<and> dc_state d' = Aborted \<and> idle r)"
  using assms
  by (cases "dc_state d")
    (auto simp: step_defs Let_def documented_edge_def idle_iff
      split: if_splits sum.splits CodecError.splits option.splits prod.splits Serializer.splits)

section \<open>Properties\<close>

text \<open>A small environment and stream for the examples: a header, one message with payload \<open>[7]\<close>, pushed in
  two pieces.\<close>

definition sample_env :: "(unit, nat, nat, byte list) payload_env" where
  "sample_env = \<lparr>pe_decode = (\<lambda>bs _ kind c _. (c, if kind = End then Inr None else Inr (Some bs))),
     pe_footer = (\<lambda>bs. if bs = [9] then Inl (PayloadError 1) else Inr [length bs]),
     pe_overflow_checks = True\<rparr>"

definition sample_stream :: "byte list" where
  "sample_stream = RRD_FOURCC @ [0, 36, 0, 0] @ [0, 2, 0, 0] @ [2, 0, 0, 0, 0, 0, 0, 0] @ [1, 0, 0, 0, 0, 0, 0, 0] @ [7]"

definition sample_read :: "(ByteChunkBuffer, unit, nat) Decoder \<Rightarrow> (ByteChunkBuffer, unit, nat) Decoder" where
  "sample_read d = snd (the (decoder_try_read chunk_ops sample_env d))"

definition sample_decoder :: "(ByteChunkBuffer, unit, nat) Decoder" where
  "sample_decoder =
     sample_read (push_byte_chunk (drop 20 sample_stream)
       (sample_read (push_byte_chunk (take 20 sample_stream) (decoder_new ()))))"

lemma sample_runs:
  "runs sample_env () [Push (take 20 sample_stream), Read, Push (drop 20 sample_stream), Read]
     [Return (Inr None), Return (Inr (Some [7]))] sample_decoder"
proof -
  let ?d1 = "push_byte_chunk (take 20 sample_stream) (decoder_new () :: (_, _, nat) Decoder)"
  let ?d3 = "push_byte_chunk (drop 20 sample_stream) (sample_read ?d1)"
  have "fst (the (decoder_try_read chunk_ops sample_env ?d1)) = Return (Inr None)"
    "decoder_try_read chunk_ops sample_env ?d1 \<noteq> None" by code_simp+
  then have r1: "decoder_try_read chunk_ops sample_env ?d1 = Some (Return (Inr None), sample_read ?d1)"
    by (auto simp: sample_read_def)
  have "fst (the (decoder_try_read chunk_ops sample_env ?d3)) = Return (Inr (Some [7]))"
    "decoder_try_read chunk_ops sample_env ?d3 \<noteq> None" by code_simp+
  then have r3: "decoder_try_read chunk_ops sample_env ?d3 = Some (Return (Inr (Some [7])), sample_decoder)"
    by (auto simp: sample_read_def sample_decoder_def)
  have "runs sample_env () [Push (take 20 sample_stream)] [] ?d1"
    using runs_push [OF runs_new, of sample_env "()"] by simp
  from runs_read [OF this r1] have "runs sample_env () [Push (take 20 sample_stream), Read] [Return (Inr None)] (sample_read ?d1)"
    by simp
  from runs_read [OF runs_push [OF this, of "drop 20 sample_stream"] r3] show ?thesis by simp
qed

text \<open>C9: however the bytes of a stream are cut into chunks and whenever reads happen in between, the
  results the decoder has returned are, in order, the first results of decoding all those bytes as one
  sequence; and when a read answers that it needs more data, they are all of them. Whenever a read
  panics, decoding the whole sequence panics after the same results.\<close>

theorem streaming_any_chunking:
  assumes "runs env c es outs d"
  shows "(\<exists>rest. decode_all env (flat_start c (pushed es)) = concat (map visible outs) @ rest)
    \<and> (\<forall>d'. decoder_try_read chunk_ops env d = Some (Return (Inr None), d') \<longrightarrow>
         concat (map visible outs) = decode_all env (flat_start c (pushed es)))
    \<and> (\<forall>d'. decoder_try_read chunk_ops env d = Some (Panic, d') \<longrightarrow>
         decode_all env (flat_start c (pushed es)) = concat (map visible outs) @ [Panic])"
proof (intro conjI allI impI)
  note all = runs_decode_all [OF assms]
  show "\<exists>rest. decode_all env (flat_start c (pushed es)) = concat (map visible outs) @ rest"
    using all by blast
  obtain r e where r: "decoder_try_read chunk_ops env d = Some (r, e)"
    "decoder_try_read flat_ops env (flat d) = Some (r, flat e)" by (rule runs_reads [OF assms])
  show "concat (map visible outs) = decode_all env (flat_start c (pushed es))"
    if "decoder_try_read chunk_ops env d = Some (Return (Inr None), d')" for d'
  proof -
    have i: "idle r" "r \<noteq> Panic" using that r by (simp_all add: idle_iff)
    have "decode_all env (flat d) = []"
      using emits_decode_all [OF try_read_emits [OF r(2) i(2)]] try_read_idle [OF r(2) i(1)] i by simp
    then show ?thesis using all by simp
  qed
  show "decode_all env (flat_start c (pushed es)) = concat (map visible outs) @ [Panic]"
    if "decoder_try_read chunk_ops env d = Some (Panic, d')" for d'
    using all try_read_panic [OF r(2)] that r(1) by simp
qed

theorem streaming_any_chunking_witness:
  "\<exists>rest. decode_all sample_env (flat_start () sample_stream) = [Return (Inr (Some [7]))] @ rest"
  using streaming_any_chunking [OF sample_runs, THEN conjunct1]
  by (simp add: pushed_def visible_def)

text \<open>C35: in every reachable state a read returns, never by a failed assertion of the buffer or a failed
  peek. It panics only on malformed bytes among those that were pushed: a stream footer with two or more
  entries, a stream footer with a span that overflows where overflow checks are compiled in, or a message
  header that announces more than \<open>isize::MAX\<close> bytes. The count of consumed bytes is exact: what is still
  pending is the rest of what was pushed. Memory is taken to be sufficient, and so is the stack, since the
  calls of \<open>try_read\<close> from within itself are a loop here.\<close>

theorem read_returns:
  assumes "runs env c es outs d"
  shows "(\<exists>r d'. decoder_try_read chunk_ops env d = Some (r, d') \<and> r \<noteq> Again
      \<and> (r = Panic \<longrightarrow>
           (\<exists>n. n + 32 \<le> length (pushed es) \<and> panicking_footer (pe_overflow_checks env) (take 32 (drop n (pushed es))))
         \<or> (\<exists>n. n + 16 \<le> length (pushed es) \<and> oversized_header (take 16 (drop n (pushed es))))))
    \<and> bb_num_read (dc_bytes d) \<le> length (pushed es)
    \<and> bb_pending (dc_bytes d) = drop (bb_num_read (dc_bytes d)) (pushed es)"
proof (intro conjI)
  show "bb_num_read (dc_bytes d) \<le> length (pushed es)"
    "bb_pending (dc_bytes d) = drop (bb_num_read (dc_bytes d)) (pushed es)" by (rule runs_bytes [OF assms])+
  obtain r e where r: "decoder_try_read chunk_ops env d = Some (r, e)"
    "decoder_try_read flat_ops env (flat d) = Some (r, flat e)" "\<not> continues r" by (rule runs_reads [OF assms])
  have "dc_state (flat_start c (pushed es)) = WaitingForStreamHeader" by (simp add: flat_start_def decoder_new_def)
  then have "located (pushed es) (flat_start c (pushed es))" unfolding located_def by (metis DecoderState.distinct(3) drop_0 flat_start_bytes fst_conv le0 snd_conv)
  then have "located (pushed es) (flat d)" by (rule emits_located [OF runs_emits [OF assms]])
  then have "r = Panic \<longrightarrow>
      (\<exists>n. n + 32 \<le> length (pushed es) \<and> panicking_footer (pe_overflow_checks env) (take 32 (drop n (pushed es))))
    \<or> (\<exists>n. n + 16 \<le> length (pushed es) \<and> oversized_header (take 16 (drop n (pushed es))))"
    using try_read_panic_at [OF r(2)] by blast
  moreover have "r \<noteq> Again" using r(3) by auto
  ultimately show "\<exists>r d'. decoder_try_read chunk_ops env d = Some (r, d') \<and> r \<noteq> Again
      \<and> (r = Panic \<longrightarrow>
           (\<exists>n. n + 32 \<le> length (pushed es) \<and> panicking_footer (pe_overflow_checks env) (take 32 (drop n (pushed es))))
         \<or> (\<exists>n. n + 16 \<le> length (pushed es) \<and> oversized_header (take 16 (drop n (pushed es)))))"
    using r(1) by blast
qed

theorem read_returns_witness:
  "bb_num_read (dc_bytes sample_decoder) \<le> 29 \<and> (\<exists>r d'. decoder_try_read chunk_ops sample_env sample_decoder = Some (r, d'))"
  using read_returns [OF sample_runs] by (auto simp: pushed_def sample_stream_def RRD_FOURCC_def)

text \<open>One pass changes the state only along an edge of the documented diagram, or from waiting for a
  stream footer to aborted, which the diagram does not show. An aborted decoder stays as it is, and
  returns no more messages.\<close>

theorem state_machine_edges:
  assumes "decoder_step ops env d = (r, d')"
  shows "(dc_state d' = dc_state d \<or> documented_edge (dc_state d) (dc_state d')
      \<or> (dc_state d = WaitingForStreamFooter \<and> dc_state d' = Aborted \<and> r = Return (Inr None)))
    \<and> (dc_state d = Aborted \<longrightarrow> decoder_try_read ops env d = Some (Return (Inr None), d))"
  using step_edges [OF assms] by (auto simp: idle_iff decoder_try_read.simps decoder_step_def)

theorem state_machine_edges_witness:
  "documented_edge WaitingForStreamHeader
     (dc_state (snd (decoder_step chunk_ops sample_env (push_byte_chunk sample_stream (decoder_new ())))))"
proof -
  have e: "dc_state (snd (decoder_step chunk_ops sample_env (push_byte_chunk sample_stream (decoder_new ()))))
    = WaitingForMessageHeader" by code_simp
  have s: "dc_state (push_byte_chunk sample_stream (decoder_new ()) :: (ByteChunkBuffer, unit, nat) Decoder)
    = WaitingForStreamHeader" by code_simp
  show ?thesis
    using state_machine_edges [OF prod.collapse [symmetric], of chunk_ops sample_env
        "push_byte_chunk sample_stream (decoder_new ())"] e s
    by auto
qed

text \<open>C36: when the payload of an end message is not a valid footer, the error is returned but the decoder
  goes on expecting a payload of that size: the bytes that follow, the stream footer, are taken for
  it. The payload is to have a size that a vector can hold.\<close>

theorem footer_error_keeps_waiting:
  assumes "runs env c es outs d" and "dc_state d = WaitingForMessagePayload header"
    and "unat (mh_len header) \<le> length (bb_pending (dc_bytes d))"
    and "bytes = take (unat (mh_len header)) (bb_pending (dc_bytes d))" and "bytes \<noteq> []"
    and "pe_decode env bytes \<lparr>span_start = word_of_nat (bb_num_read (dc_bytes d)), span_len = word_of_nat (length bytes)\<rparr>
          (mh_kind header) (dc_app_id_cache d) (dc_version d) = (cache, Inr None)"
    and "pe_footer env bytes = Inl e" and "e \<noteq> StoreIdMissingApplicationId"
    and "unat (mh_len header) \<le> isize_MAX"
  shows "\<exists>d'. decoder_try_read chunk_ops env d = Some (Return (Inl e), d')
    \<and> dc_state d' = WaitingForMessagePayload header
    \<and> bb_pending (dc_bytes d') = drop (unat (mh_len header)) (bb_pending (dc_bytes d))"
proof -
  have ready: "bb_ready (unat (mh_len header)) (dc_bytes d)"
    using assms(2) runs_aligned [OF assms(1)] by (simp add: aligned_def)
  obtain b where b: "bo_try_read chunk_ops (unat (mh_len header)) (dc_bytes d) = Some (Some bytes, b)"
    "bb_pending b = drop (unat (mh_len header)) (bb_pending (dc_bytes d))"
    using chunk_source.read_enough [OF ready _ assms(3)] assms(4,9) unfolding oversized_def not_less by blast
  have n: "bo_num_read chunk_ops (dc_bytes d) = bb_num_read (dc_bytes d)" by (simp add: chunk_ops_def)
  have "decoder_step chunk_ops env d = (Return (Inl e), d\<lparr>dc_bytes := b, dc_app_id_cache := cache\<rparr>)"
    using b assms(2,5-7) by (simp add: decoder_step_def step_payload_def Let_def n)
  moreover have "\<not> continues (fst (decoder_step chunk_ops env d))"
    using calculation assms(8) by (cases e) simp_all
  ultimately show ?thesis using b(2) assms(2) by (simp add: decoder_try_read.simps [of _ _ d])
qed

text \<open>A header that announces too much panics as soon as its payload is asked for, whatever bytes are pending.\<close>

lemma oversized_header_panics:
  assumes "runs env c es outs d" "dc_state d = WaitingForMessagePayload header" "isize_MAX < unat (mh_len header)"
  shows "decoder_try_read chunk_ops env d = Some (Panic, d)"
proof -
  have "bo_try_read chunk_ops (unat (mh_len header)) (dc_bytes d) = None"
    using chunk_source.oversized_law assms(2,3) runs_aligned [OF assms(1)] by (simp add: aligned_def oversized_def)
  then have "decoder_step chunk_ops env d = (Panic, d)" using assms(2) by (simp add: decoder_step_def step_payload_def)
  then show ?thesis by (simp add: decoder_try_read.simps [of _ _ d])
qed

definition broken_decoder :: "(ByteChunkBuffer, unit, nat) Decoder" where
  "broken_decoder = push_byte_chunk [9] (sample_read (push_byte_chunk
     (take 12 sample_stream @ [0, 0, 0, 0, 0, 0, 0, 0, 1, 0, 0, 0, 0, 0, 0, 0]) (decoder_new ())))"

lemma broken_runs:
  "runs sample_env () [Push (take 12 sample_stream @ [0, 0, 0, 0, 0, 0, 0, 0, 1, 0, 0, 0, 0, 0, 0, 0]), Read, Push [9]]
     [Return (Inr None)] broken_decoder"
proof -
  let ?bs = "take 12 sample_stream @ [0, 0, 0, 0, 0, 0, 0, 0, 1, 0, 0, 0, 0, 0, 0, 0]"
  let ?d1 = "push_byte_chunk ?bs (decoder_new () :: (_, _, nat) Decoder)"
  have "fst (the (decoder_try_read chunk_ops sample_env ?d1)) = Return (Inr None)"
    "decoder_try_read chunk_ops sample_env ?d1 \<noteq> None" by code_simp+
  then have r1: "decoder_try_read chunk_ops sample_env ?d1 = Some (Return (Inr None), sample_read ?d1)"
    by (auto simp: sample_read_def)
  have "runs sample_env () [Push ?bs] [] ?d1" using runs_push [OF runs_new, of sample_env "()"] by simp
  from runs_push [OF runs_read [OF this r1], of "[9]"] show ?thesis by (simp add: broken_decoder_def)
qed

theorem footer_error_keeps_waiting_witness:
  "\<exists>d'. decoder_try_read chunk_ops sample_env broken_decoder = Some (Return (Inl (PayloadError 1)), d')
    \<and> dc_state d' = WaitingForMessagePayload \<lparr>mh_kind = End, mh_len = 1\<rparr>"
proof -
  have s: "dc_state broken_decoder = WaitingForMessagePayload \<lparr>mh_kind = End, mh_len = 1\<rparr>" by code_simp
  have p: "bb_pending (dc_bytes broken_decoder) = [9]" by code_simp
  have l: "unat (mh_len \<lparr>mh_kind = End, mh_len = 1\<rparr>) \<le> length (bb_pending (dc_bytes broken_decoder))"
    "[9] = take (unat (mh_len \<lparr>mh_kind = End, mh_len = 1\<rparr>)) (bb_pending (dc_bytes broken_decoder))"
    unfolding p by simp_all
  have f: "pe_decode sample_env [9] span End c v = (c, Inr None)" "pe_footer sample_env [9] = Inl (PayloadError 1)"
    for span c v by (simp_all add: sample_env_def)
  obtain d' where "decoder_try_read chunk_ops sample_env broken_decoder = Some (Return (Inl (PayloadError 1)), d')"
    "dc_state d' = WaitingForMessagePayload \<lparr>mh_kind = End, mh_len = 1\<rparr>"
    using footer_error_keeps_waiting [OF broken_runs s l(1) l(2) _ _ f(2)] f(1) by (force simp: isize_MAX_def)
  then show ?thesis by blast
qed

end
