(* ===== verification/Rrd_Iterator.thy ===== *)
theory Rrd_Iterator
  imports Rrd_Stream
begin

text \<open>
  The pull interface on top of the decoder (\<open>crates/store/re_log_encoding/src/rrd/decoder/iterator.rs\<close>; the
  asynchronous version in \<open>stream.rs\<close> is the same loop).

  The buffered reader is the list of what its \<open>fill_buf\<close> calls return, followed by end of file for ever.
  \<open>None\<close> as the outer result is a panic (or a read that does not return, which \<open>Rrd_Stream\<close> excludes).
\<close>

datatype fill = Buf "byte list" | Interrupted | Failed nat

datatype 'e DecodeError = Codec "'e CodecError" | ReadError nat

record ('k, 'm, 't) DecoderIterator =
  it_decoder :: "(ByteChunkBuffer, 'k, 'm) Decoder"
  it_reader :: "fill list"
  it_first_msg :: "'t option"

definition decode_lazy :: "'k \<Rightarrow> fill list \<Rightarrow> ('k, 'm, 't) DecoderIterator" where
  "decode_lazy c reader = \<lparr>it_decoder = decoder_new c, it_reader = reader, it_first_msg = None\<rparr>"

text \<open>What one call of \<open>try_read\<close> hands to the caller; \<open>None\<close> inside is \<open>Ok(None)\<close>.\<close>

definition item_of :: "('e, 't) outcome \<Rightarrow> ('e DecodeError + 't) option option" where
  "item_of r = (case r of
      Return (Inr (Some m)) \<Rightarrow> Some (Some (Inr m))
    | Return (Inl e) \<Rightarrow> Some (Some (Inl (Codec e)))
    | Return (Inr None) \<Rightarrow> Some None
    | _ \<Rightarrow> None)"

definition next_at_eof :: "('k, 'm, 'e, 't) payload_env \<Rightarrow> (ByteChunkBuffer, 'k, 'm) Decoder \<Rightarrow>
    (('e DecodeError + 't) option \<times> (ByteChunkBuffer, 'k, 'm) Decoder) option" where
  "next_at_eof env d =
     (case decoder_try_read chunk_ops env d of
        None \<Rightarrow> None
      | Some (r, d') \<Rightarrow> (case item_of r of None \<Rightarrow> None | Some item \<Rightarrow> Some (item, d')))"

fun next_loop :: "('k, 'm, 'e, 't) payload_env \<Rightarrow> (ByteChunkBuffer, 'k, 'm) Decoder \<Rightarrow> fill list \<Rightarrow>
    (('e DecodeError + 't) option \<times> (ByteChunkBuffer, 'k, 'm) Decoder \<times> fill list) option" where
  "next_loop env d reader =
     (case decoder_try_read chunk_ops env d of
        None \<Rightarrow> None
      | Some (r, d') \<Rightarrow>
          (case item_of r of
             None \<Rightarrow> None
           | Some (Some item) \<Rightarrow> Some (Some item, d', reader)
           | Some None \<Rightarrow>
               (case reader of
                  [] \<Rightarrow> map_option (\<lambda>(item, d''). (item, d'', [])) (next_at_eof env d')
                | Buf [] # fills \<Rightarrow> map_option (\<lambda>(item, d''). (item, d'', fills)) (next_at_eof env d')
                | Buf (b # bs) # fills \<Rightarrow> next_loop env (push_byte_chunk (b # bs) d') fills
                | Interrupted # fills \<Rightarrow> next_loop env d' fills
                | Failed err # fills \<Rightarrow> Some (Some (Inl (ReadError err)), d', fills))))"

declare next_loop.simps [simp del]

definition iterator_next :: "('k, 'm, 'e, 't) payload_env \<Rightarrow> ('k, 'm, 't) DecoderIterator \<Rightarrow>
    (('e DecodeError + 't) option \<times> ('k, 'm, 't) DecoderIterator) option" where
  "iterator_next env it =
     (case it_first_msg it of
        Some msg \<Rightarrow> Some (Some (Inr msg), it\<lparr>it_first_msg := None\<rparr>)
      | None \<Rightarrow>
          (case next_loop env (it_decoder it) (it_reader it) of
             None \<Rightarrow> None
           | Some (item, d, reader) \<Rightarrow> Some (item, it\<lparr>it_decoder := d, it_reader := reader\<rparr>)))"

text \<open>\<open>it.next().transpose()?\<close>: an error of the first message fails the constructor.\<close>

definition decode_eager :: "('k, 'm, 'e, 't) payload_env \<Rightarrow> 'k \<Rightarrow> fill list \<Rightarrow>
    ('e DecodeError + ('k, 'm, 't) DecoderIterator) option" where
  "decode_eager env c reader =
     (case iterator_next env (decode_lazy c reader) of
        None \<Rightarrow> None
      | Some (Some (Inl err), _) \<Rightarrow> Some (Inl err)
      | Some (Some (Inr msg), it) \<Rightarrow> Some (Inr (it\<lparr>it_first_msg := Some msg\<rparr>))
      | Some (None, it) \<Rightarrow> Some (Inr (it\<lparr>it_first_msg := None\<rparr>)))"

definition num_bytes_processed :: "('k, 'm, 't) DecoderIterator \<Rightarrow> nat" where
  "num_bytes_processed it = bb_num_read (dc_bytes (it_decoder it))"

section \<open>Readers that do not fail\<close>

fun fill_ok :: "fill \<Rightarrow> bool" where
  "fill_ok (Buf bs) = (bs \<noteq> [])"
| "fill_ok Interrupted = True"
| "fill_ok (Failed _) = False"

definition reader_bytes :: "fill list \<Rightarrow> byte list" where
  "reader_bytes fills = concat (map (\<lambda>f. case f of Buf bs \<Rightarrow> bs | _ \<Rightarrow> []) fills)"

lemma reader_bytes_simps [simp]: "reader_bytes [] = []" "reader_bytes (Buf bs # fs) = bs @ reader_bytes fs"
  "reader_bytes (Interrupted # fs) = reader_bytes fs"
  by (simp_all add: reader_bytes_def)

text \<open>The flat decoder in front of everything still to come.\<close>

definition ahead :: "(ByteChunkBuffer, 'k, 'm) Decoder \<Rightarrow> fill list \<Rightarrow> (flat_source, 'k, 'm) Decoder" where
  "ahead d fills = more_bytes (reader_bytes fills) (flat d)"

definition outcome_of :: "'e DecodeError + 't \<Rightarrow> ('e, 't) outcome" where
  "outcome_of item = (case item of Inr m \<Rightarrow> Return (Inr (Some m)) | Inl (Codec e) \<Rightarrow> Return (Inl e) | _ \<Rightarrow> Panic)"

lemma item_of_Some:
  assumes "item_of r = Some (Some item)" "\<not> continues r"
  shows "visible r = [outcome_of item]" "r \<noteq> Panic" "\<not> idle r"
  using assms
  by (auto simp: item_of_def outcome_of_def visible_def split: outcome.splits sum.splits option.splits)

lemma item_of_idle: "item_of r = Some None \<longleftrightarrow> idle r"
  by (auto simp: item_of_def idle_iff split: outcome.splits sum.splits option.splits)

lemma item_of_None: "item_of r = None \<Longrightarrow> \<not> continues r \<Longrightarrow> r = Panic"
  by (auto simp: item_of_def split: outcome.splits sum.splits option.splits)

lemma try_read_extend:
  "decoder_try_read flat_ops env d = Some (r, d') \<Longrightarrow> \<not> idle r \<Longrightarrow>
    decoder_try_read flat_ops env (more_bytes q d) = Some (r, more_bytes q d')"
proof (induction rule: try_read_induct)
  case (last d)
  then show ?case using step_extend [OF last(1), of q] by (simp add: decoder_try_read.simps [of _ _ "more_bytes q d"])
next
  case (again d s e)
  then show ?case using step_extend [OF again(1), of q] by (simp add: decoder_try_read.simps [of _ _ "more_bytes q d"])
qed

text \<open>One read, seen from everything still to come.\<close>

lemma read_ahead:
  assumes "aligned bb_ready d"
  obtains r d' where "decoder_try_read chunk_ops env d = Some (r, d')" "aligned bb_ready d'"
    "decode_all env (ahead d fills) =
       (if r = Panic then [Panic] else visible r @ decode_all env (ahead d' fills))"
    "item_of r \<noteq> None \<or> r = Panic" "idle r \<Longrightarrow> decode_all env (flat d') = []" "\<not> continues r"
proof -
  obtain r d' where r: "decoder_try_read chunk_ops env d = Some (r, d')" "\<not> continues r" "aligned bb_ready d'"
    "decoder_try_read flat_ops env (flat d) = Some (r, flat d')"
    using chunk_source.try_read_simulates [OF assms, of env] by blast
  have all: "decode_all env (ahead d fills) =
       (if r = Panic then [Panic] else visible r @ decode_all env (ahead d' fills))"
  proof (cases "r = Panic")
    case True
    then show ?thesis using try_read_panic [OF try_read_extend [OF r(4)]] by (simp add: ahead_def)
  next
    case False
    then show ?thesis
      using emits_decode_all [OF emits_extend [OF try_read_emits [OF r(4)]]] by (simp add: ahead_def)
  qed
  show thesis
    by (rule that [OF r(1,3) all]) (use item_of_None r(2) try_read_idle [OF r(4)] in blast)+
qed

definition delivers :: "('k, 'm, 'e, 't) payload_env \<Rightarrow> (ByteChunkBuffer, 'k, 'm) Decoder \<Rightarrow> fill list \<Rightarrow>
    ('e DecodeError + 't) option \<Rightarrow> (ByteChunkBuffer, 'k, 'm) Decoder \<Rightarrow> fill list \<Rightarrow> bool" where
  "delivers env d fills item d' fills' \<longleftrightarrow> aligned bb_ready d' \<and> list_all fill_ok fills'
    \<and> decode_all env (ahead d fills) =
        (case item of None \<Rightarrow> [] | Some i \<Rightarrow> outcome_of i # decode_all env (ahead d' fills'))"

lemma eof_delivers:
  assumes "aligned bb_ready d" "decode_all env (flat d) = []"
  shows "\<exists>d'. next_at_eof env d = Some (None, d') \<and> aligned bb_ready d'"
proof -
  obtain r d' where r: "decoder_try_read chunk_ops env d = Some (r, d')" "aligned bb_ready d'"
    "decode_all env (ahead d []) = (if r = Panic then [Panic] else visible r @ decode_all env (ahead d' []))"
    "item_of r \<noteq> None \<or> r = Panic" "\<not> continues r"
    by (rule read_ahead [OF assms(1)]) blast
  have "visible r = []" "r \<noteq> Panic" using assms(2) r(3) by (simp_all add: ahead_def extend_nil split: if_splits)
  then have "item_of r = Some None" using r(4,5) by (auto simp: visible_def item_of_idle split: if_splits)
  then show ?thesis using r(1,2) by (simp add: next_at_eof_def)
qed

lemma next_loop_delivers:
  assumes "aligned bb_ready d" "list_all fill_ok fills" "Panic \<notin> set (decode_all env (ahead d fills))"
  shows "\<exists>item d' fills'. next_loop env d fills = Some (item, d', fills') \<and> delivers env d fills item d' fills'"
  using assms
proof (induction fills arbitrary: d)
  case Nil
  obtain r d' where r: "decoder_try_read chunk_ops env d = Some (r, d')" "aligned bb_ready d'"
    "decode_all env (ahead d []) = (if r = Panic then [Panic] else visible r @ decode_all env (ahead d' []))"
    "item_of r \<noteq> None \<or> r = Panic" "idle r \<Longrightarrow> decode_all env (flat d') = []" "\<not> continues r"
    by (rule read_ahead [OF Nil(1)]) blast
  then have "r \<noteq> Panic" using Nil(3) by auto
  then obtain item where item: "item_of r = Some item" using r(4) by auto
  show ?case
  proof (cases item)
    case None
    then have i: "idle r" using item by (simp add: item_of_idle)
    obtain d'' where "next_at_eof env d' = Some (None, d'')" "aligned bb_ready d''"
      using eof_delivers [OF r(2) r(5) [OF i]] by blast
    then show ?thesis using r i item None \<open>r \<noteq> Panic\<close>
      by (simp add: next_loop.simps [of _ _ "[]"] delivers_def ahead_def extend_nil)
  next
    case (Some i)
    then show ?thesis using r(1-3) item \<open>r \<noteq> Panic\<close> item_of_Some [of r i] r(6)
      by (simp add: next_loop.simps [of _ _ "[]"] delivers_def)
  qed
next
  case (Cons f fills)
  obtain r d' where r: "decoder_try_read chunk_ops env d = Some (r, d')" "aligned bb_ready d'"
    "decode_all env (ahead d (f # fills)) = (if r = Panic then [Panic] else visible r @ decode_all env (ahead d' (f # fills)))"
    "item_of r \<noteq> None \<or> r = Panic" "\<not> continues r"
    by (rule read_ahead [OF Cons(2)]) blast
  then have p: "r \<noteq> Panic" using Cons(4) by auto
  then obtain item where item: "item_of r = Some item" using r(4) by auto
  show ?case
  proof (cases item)
    case (Some i)
    then show ?thesis using r(1-3) item p item_of_Some [of r i] r(5) Cons(3)
      by (simp add: next_loop.simps [of _ _ "f # fills"] delivers_def)
  next
    case None
    then have i: "idle r" using item by (simp add: item_of_idle)
    then have all: "decode_all env (ahead d (f # fills)) = decode_all env (ahead d' (f # fills))" using r(3) p by simp
    show ?thesis
    proof (cases f)
      case (Buf bs)
      then obtain b bs' where bs: "bs = b # bs'" using Cons(3) by (cases bs) auto
      have a: "ahead (push_byte_chunk bs d') fills = ahead d' (f # fills)"
        using Buf by (simp add: ahead_def push_flat extend_extend)
      obtain item e fills' where "next_loop env (push_byte_chunk bs d') fills = Some (item, e, fills')"
        "delivers env (push_byte_chunk bs d') fills item e fills'"
        using Cons(1) [OF push_aligned [OF r(2), of bs]] Cons(3,4) a all by auto
      then show ?thesis using r(1) item None Buf bs a all
        by (simp add: next_loop.simps [of _ _ "Buf (b # bs') # fills"] delivers_def)
    next
      case Interrupted
      have a: "ahead d' fills = ahead d' (f # fills)" using Interrupted by (simp add: ahead_def)
      obtain item e fills' where "next_loop env d' fills = Some (item, e, fills')" "delivers env d' fills item e fills'"
        using Cons(1) [OF r(2)] Cons(3,4) a all by auto
      then show ?thesis using r(1) item None Interrupted a all
        by (simp add: next_loop.simps [of _ _ "Interrupted # fills"] delivers_def)
    next
      case (Failed err)
      then show ?thesis using Cons(3) by simp
    qed
  qed
qed

section \<open>Properties\<close>

inductive iterates :: "('k, 'm, 'e, 't) payload_env \<Rightarrow> ('k, 'm, 't) DecoderIterator \<Rightarrow> ('e DecodeError + 't) list \<Rightarrow>
    ('k, 'm, 't) DecoderIterator \<Rightarrow> bool" for env where
  iterates_none: "iterates env it [] it"
| iterates_next: "iterator_next env it = Some (Some item, it') \<Longrightarrow> iterates env it' items it'' \<Longrightarrow>
    iterates env it (item # items) it''"

lemma iterates_all:
  assumes "aligned bb_ready (it_decoder it)" "list_all fill_ok (it_reader it)" "it_first_msg it = None"
    "decode_all env (ahead (it_decoder it) (it_reader it)) = os" "Panic \<notin> set os"
  shows "\<exists>items it' it''. iterates env it items it' \<and> iterator_next env it' = Some (None, it'') \<and> map outcome_of items = os"
  using assms
proof (induction os arbitrary: it)
  case Nil
  then obtain item d' fills' where "next_loop env (it_decoder it) (it_reader it) = Some (item, d', fills')"
    "delivers env (it_decoder it) (it_reader it) item d' fills'"
    using next_loop_delivers [of "it_decoder it" "it_reader it" env] by auto
  then have "\<exists>it''. iterator_next env it = Some (None, it'')"
    using Nil by (simp add: iterator_next_def delivers_def split: option.splits)
  then show ?case using iterates_none by fastforce
next
  case (Cons o1 os)
  then obtain item d' fills' where n: "next_loop env (it_decoder it) (it_reader it) = Some (item, d', fills')"
    "delivers env (it_decoder it) (it_reader it) item d' fills'"
    using next_loop_delivers [of "it_decoder it" "it_reader it" env] by auto
  then obtain i where i: "item = Some i" "outcome_of i = o1" "decode_all env (ahead d' fills') = os"
    using Cons(5) by (auto simp: delivers_def split: option.splits)
  let ?it = "it\<lparr>it_decoder := d', it_reader := fills'\<rparr>"
  have next_it: "iterator_next env it = Some (Some i, ?it)" using n(1) i(1) Cons(4) by (simp add: iterator_next_def)
  have "\<exists>items it' it''. iterates env ?it items it' \<and> iterator_next env it' = Some (None, it'') \<and> map outcome_of items = os"
    using Cons(1) [of ?it] Cons(4,6) n(2) i(3) by (simp add: delivers_def)
  then show ?case using iterates_next [OF next_it] i(2) by (metis list.simps(9))
qed

text \<open>C11: on a reader that does not fail, however it cuts the bytes into buffers and wherever it is
  interrupted, the iterator delivers every message and every error that decoding the bytes in one
  piece gives, in that order, and then reports the end, provided decoding does not panic.\<close>

theorem iterator_delivers_all:
  assumes "list_all fill_ok reader" and "Panic \<notin> set (decode_all env (flat_start c (reader_bytes reader)))"
  shows "\<exists>items it it'. iterates env (decode_lazy c reader) items it \<and> iterator_next env it = Some (None, it')
    \<and> map outcome_of items = decode_all env (flat_start c (reader_bytes reader))"
  by (rule iterates_all) (use assms in \<open>simp_all add: decode_lazy_def ahead_def flat_start_def new_aligned\<close>)

theorem iterator_delivers_all_witness:
  "\<exists>items it it'. iterates sample_env (decode_lazy () [Buf (take 20 sample_stream), Interrupted, Buf (drop 20 sample_stream)])
      items it \<and> iterator_next sample_env it = Some (None, it') \<and> map outcome_of items = [Return (Inr (Some [7]))]"
proof -
  let ?r = "[Buf (take 20 sample_stream), Interrupted, Buf (drop 20 sample_stream)]"
  have ok: "list_all fill_ok ?r" by code_simp
  have all: "decode_all sample_env (flat_start () (reader_bytes ?r)) = [Return (Inr (Some [7]))]" by code_simp
  show ?thesis using iterator_delivers_all [OF ok, of sample_env "()"] unfolding all by simp
qed

end
