(* ===== verification/Rrd_Encoder.thy ===== *)
theory Rrd_Encoder
  imports Rrd_Iterator "HOL-Library.AList"
begin

text \<open>
  The RRD encoder (\<open>crates/store/re_log_encoding/src/rrd/encoder.rs\<close>) and the transport-level messages it
  writes (\<open>log_msg.rs\<close>, \<open>decoder/mod.rs\<close>).

  Parameters: the protobuf codec (\<open>prost\<close>, one \<open>prost\<close> record per message type), the conversion of
  application messages to transport messages, the manifest builder, the checksum and the writer. An
  operation returns its result together with the encoder it leaves behind, also when it fails.
\<close>

section \<open>Transport messages\<close>

datatype 'p Msg = MsgSetStoreInfo 'p | MsgArrowMsg 'p | MsgBlueprintActivationCommand 'p

record ('p, 'e) prost =
  pr_encode :: "'p \<Rightarrow> 'e + byte list"
  pr_encoded_len :: "'p \<Rightarrow> nat"
  pr_decode :: "byte list \<Rightarrow> 'e + 'p"

record ('p, 'm, 'e) protos =
  po_set_store_info :: "('p, 'e) prost"
  po_arrow_msg :: "('p, 'e) prost"
  po_blueprint :: "('p, 'e) prost"
  po_rrd_footer :: "('m list, 'e) prost"

definition prost_to_rrd_bytes :: "('p, 'e) prost \<Rightarrow> 'p \<Rightarrow> 'e CodecError + byte list" where
  "prost_to_rrd_bytes pr x = (case pr_encode pr x of Inl e \<Rightarrow> Inl (PayloadError e) | Inr bytes \<Rightarrow> Inr bytes)"

definition prost_from_rrd_bytes :: "('p, 'e) prost \<Rightarrow> byte list \<Rightarrow> 'e CodecError + 'p" where
  "prost_from_rrd_bytes pr data = (case pr_decode pr data of Inl e \<Rightarrow> Inl (PayloadError e) | Inr x \<Rightarrow> Inr x)"

text \<open>The message header and the payload; nothing is appended when encoding fails half-way, since the caller
  drops the scratch buffer.\<close>

definition framed :: "MessageKind \<Rightarrow> ('p, 'e) prost \<Rightarrow> 'p \<Rightarrow> 'e CodecError + byte list" where
  "framed kind pr x =
     (let header = \<lparr>mh_kind = kind, mh_len = word_of_nat (pr_encoded_len pr x)\<rparr> in
      case prost_to_rrd_bytes pr x of
        Inl e \<Rightarrow> Inl e
      | Inr bytes \<Rightarrow> Inr (message_header_to_rrd_bytes header @ bytes))"

fun msg_to_rrd_bytes :: "('p, 'm, 'e) protos \<Rightarrow> 'p Msg \<Rightarrow> 'e CodecError + byte list" where
  "msg_to_rrd_bytes ps (MsgSetStoreInfo x) = framed SetStoreInfo (po_set_store_info ps) x"
| "msg_to_rrd_bytes ps (MsgArrowMsg x) = framed ArrowMsg (po_arrow_msg ps) x"
| "msg_to_rrd_bytes ps (MsgBlueprintActivationCommand x) = framed BlueprintActivationCommand (po_blueprint ps) x"

fun msg_payload_decode :: "('p, 'm, 'e) protos \<Rightarrow> MessageKind \<Rightarrow> byte list \<Rightarrow> 'e CodecError + 'p Msg option" where
  "msg_payload_decode ps SetStoreInfo data =
     map_sum id (\<lambda>x. Some (MsgSetStoreInfo x)) (prost_from_rrd_bytes (po_set_store_info ps) data)"
| "msg_payload_decode ps ArrowMsg data =
     map_sum id (\<lambda>x. Some (MsgArrowMsg x)) (prost_from_rrd_bytes (po_arrow_msg ps) data)"
| "msg_payload_decode ps BlueprintActivationCommand data =
     map_sum id (\<lambda>x. Some (MsgBlueprintActivationCommand x)) (prost_from_rrd_bytes (po_blueprint ps) data)"
| "msg_payload_decode ps End data = Inr None"

text \<open>\<open>Option<Msg>::from_rrd_bytes\<close>: header and payload in one slice; \<open>None\<close> is a slice that is too short.\<close>

definition msg_from_rrd_bytes :: "('p, 'm, 'e) protos \<Rightarrow> byte list \<Rightarrow> ('e CodecError + 'p Msg option) option" where
  "msg_from_rrd_bytes ps data =
     (if length data < 16 then None
      else Some (case message_header_from_rrd_bytes (take 16 data) of
        Inl e \<Rightarrow> Inl e
      | Inr header \<Rightarrow> msg_payload_decode ps (mh_kind header) (drop 16 data)))"

text \<open>\<open>Msg::decode\<close>, the entry point of the transport-level decoder, and the decoding of footers.\<close>

definition msg_decode :: "('p, 'm, 'e) protos \<Rightarrow> byte list \<Rightarrow> Span_u64 \<Rightarrow> MessageKind \<Rightarrow> 'k \<Rightarrow> CrateVersion option \<Rightarrow>
    'k \<times> ('e CodecError + 'p Msg option)" where
  "msg_decode ps data _ kind injector _ = (injector, msg_payload_decode ps kind data)"

definition transport_env :: "bool \<Rightarrow> ('p, 'm, 'e) protos \<Rightarrow> ('k, 'm, 'e, 'p Msg) payload_env" where
  "transport_env overflow_checks ps = \<lparr>pe_decode = msg_decode ps, pe_footer = prost_from_rrd_bytes (po_rrd_footer ps),
     pe_overflow_checks = overflow_checks\<rparr>"

text \<open>\<open>LogMsg::decode\<close>: the application-level entry point runs the transport-level one first.\<close>

definition log_msg_decode :: "('p, 'm, 'e) protos \<Rightarrow> ('p Msg \<Rightarrow> 'k \<Rightarrow> CrateVersion option \<Rightarrow> 'k \<times> ('e CodecError + 'l)) \<Rightarrow>
    byte list \<Rightarrow> Span_u64 \<Rightarrow> MessageKind \<Rightarrow> 'k \<Rightarrow> CrateVersion option \<Rightarrow> 'k \<times> ('e CodecError + 'l option)" where
  "log_msg_decode ps to_application data byte_span kind injector patched_version =
     (let (injector, r) = msg_decode ps data byte_span kind injector patched_version in
      case r of
        Inl e \<Rightarrow> (injector, Inl e)
      | Inr None \<Rightarrow> (injector, Inr None)
      | Inr (Some log_msg) \<Rightarrow>
          let (injector, r) = to_application log_msg injector patched_version in (injector, map_sum id Some r))"

section \<open>The encoder\<close>

datatype 'e EncodeError = AlreadyFinished | AlreadyUnwrapped | Write nat | EncCodec "'e CodecError" | EncOther 'e

datatype ('i, 'l) LogMsg = LogSetStoreInfo 'l | LogArrowMsg 'i 'l | LogBlueprintActivationCommand 'l

text \<open>What the encoder calls: \<open>ToTransport\<close>, \<open>byte_size_uncompressed\<close>, \<open>ChunkBatch::try_from\<close>, the manifest
  builder, and \<open>xxh32\<close>.\<close>

record ('i, 'l, 'p, 'c, 'b, 'r, 'm, 'e) encode_env =
  ee_to_transport :: "('i, 'l) LogMsg \<Rightarrow> Compression \<Rightarrow> 'e CodecError + 'p Msg"
  ee_byte_size :: "'p Msg \<Rightarrow> u64"
  ee_chunk_batch :: "'l \<Rightarrow> 'e + 'c"
  ee_builder_default :: 'b
  ee_builder_append :: "'b \<Rightarrow> 'c \<Rightarrow> Span_u64 \<Rightarrow> u64 \<Rightarrow> ('e EncodeError + unit) \<times> 'b"
  ee_builder_build :: "'b \<Rightarrow> 'i \<Rightarrow> 'e EncodeError + 'r"
  ee_manifest_to_transport :: "'r \<Rightarrow> 'e CodecError + 'm"
  ee_xxh32 :: "byte list \<Rightarrow> u32 \<Rightarrow> u32"

text \<open>The scratch buffer is cleared by every call that uses it and is not part of the state. The hash map of
  manifests is a list in the order in which its keys were inserted.\<close>

type_synonym ('i, 'b) FooterState = "('i \<times> 'b) list"

record ('w, 'i, 'b) Encoder =
  en_serializer :: Serializer
  en_compression :: Compression
  en_write :: "'w option"
  en_num_written :: u64
  en_footer_state :: "('i, 'b) FooterState option"
  en_is_finished :: bool

text \<open>\<open>write_all\<close>: the writer afterwards and the I/O error, if any.\<close>

type_synonym 'w write_all = "'w \<Rightarrow> byte list \<Rightarrow> 'w \<times> nat option"

fun footer_state_append :: "('i, 'l, 'p, 'c, 'b, 'r, 'm, 'e) encode_env \<Rightarrow> ('i, 'l) LogMsg \<Rightarrow> Span_u64 \<Rightarrow> u64 \<Rightarrow>
    ('i, 'b) FooterState \<Rightarrow> ('e EncodeError + unit) \<times> ('i, 'b) FooterState" where
  "footer_state_append ee (LogArrowMsg store_id msg) byte_span byte_size st =
     (case ee_chunk_batch ee msg of
        Inl e \<Rightarrow> (Inl (EncOther e), st)
      | Inr chunk_batch \<Rightarrow>
          let manifest = (case map_of st store_id of Some b \<Rightarrow> b | None \<Rightarrow> ee_builder_default ee) in
          let (r, manifest) = ee_builder_append ee manifest chunk_batch byte_span byte_size
          in (r, AList.update store_id manifest st))"
| "footer_state_append ee (LogSetStoreInfo _) byte_span byte_size st = (Inr (), st)"
| "footer_state_append ee (LogBlueprintActivationCommand _) byte_span byte_size st = (Inr (), st)"

text \<open>\<open>try_collect\<close>: all results, or the first error.\<close>

fun try_collect :: "('e + 'a) list \<Rightarrow> 'e + 'a list" where
  "try_collect [] = Inr []"
| "try_collect (Inl e # rs) = Inl e"
| "try_collect (Inr x # rs) = map_sum id ((#) x) (try_collect rs)"

definition footer_state_finish :: "('i, 'l, 'p, 'c, 'b, 'r, 'm, 'e) encode_env \<Rightarrow> ('i, 'b) FooterState \<Rightarrow>
    'e EncodeError + ('i \<times> 'r) list" where
  "footer_state_finish ee st =
     try_collect (map (\<lambda>(store_id, b). map_sum id (Pair store_id) (ee_builder_build ee b store_id)) st)"

definition encoder_new_eager :: "'w write_all \<Rightarrow> CrateVersion \<Rightarrow> EncodingOptions \<Rightarrow> 'w \<Rightarrow>
    'e EncodeError + ('w, 'i, 'b) Encoder" where
  "encoder_new_eager write_all version options w =
     (let out = stream_header_to_rrd_bytes
            \<lparr>sh_fourcc = RRD_FOURCC, sh_version = version_to_bytes version, sh_options = options\<rparr>
      in case write_all w out of
           (_, Some err) \<Rightarrow> Inl (Write err)
         | (w', None) \<Rightarrow> Inr \<lparr>en_serializer = eo_serializer options, en_compression = eo_compression options,
               en_write = Some w', en_num_written = word_of_nat (length out),
               en_footer_state = Some [], en_is_finished = False\<rparr>)"

definition write_encodable :: "'w write_all \<Rightarrow> ('p, 'm, 'e) protos \<Rightarrow> 'p Msg \<Rightarrow> ('w, 'i, 'b) Encoder \<Rightarrow>
    ('e EncodeError + u64 \<times> Span_u64) \<times> ('w, 'i, 'b) Encoder" where
  "write_encodable write_all ps encodable e =
     (if en_is_finished e then (Inl AlreadyFinished, e)
      else case en_write e of
        None \<Rightarrow> (Inl AlreadyUnwrapped, e)
      | Some w \<Rightarrow>
          let byte_offset_excluding_header = en_num_written e + 16 in
          (case msg_to_rrd_bytes ps encodable of
             Inl err \<Rightarrow> (Inl (EncCodec err), e)
           | Inr scratch \<Rightarrow>
               (case write_all w scratch of
                  (w', Some err) \<Rightarrow> (Inl (Write err), e\<lparr>en_write := Some w'\<rparr>)
                | (w', None) \<Rightarrow>
                    let n = word_of_nat (length scratch) in
                    (Inr (n, \<lparr>span_start = byte_offset_excluding_header, span_len = n - 16\<rparr>),
                     e\<lparr>en_write := Some w', en_num_written := en_num_written e + n\<rparr>))))"

definition encoder_append :: "'w write_all \<Rightarrow> ('p, 'm, 'e) protos \<Rightarrow> ('i, 'l, 'p, 'c, 'b, 'r, 'm, 'e) encode_env \<Rightarrow>
    ('i, 'l) LogMsg \<Rightarrow> ('w, 'i, 'b) Encoder \<Rightarrow> ('e EncodeError + u64) \<times> ('w, 'i, 'b) Encoder" where
  "encoder_append write_all ps ee message e =
     (case ee_to_transport ee message (en_compression e) of
        Inl err \<Rightarrow> (Inl (EncCodec err), e)
      | Inr transport \<Rightarrow>
          (case write_encodable write_all ps transport e of
             (Inl err, e) \<Rightarrow> (Inl err, e)
           | (Inr (n, byte_span), e) \<Rightarrow>
               (case en_footer_state e of
                  None \<Rightarrow> (Inr n, e)
                | Some st \<Rightarrow>
                    let (r, st) = footer_state_append ee message byte_span (ee_byte_size ee transport) st;
                        e = e\<lparr>en_footer_state := Some st\<rparr>
                    in (case r of Inl err \<Rightarrow> (Inl err, e) | Inr _ \<Rightarrow> (Inr n, e)))))"

text \<open>\<open>extend\<close>: stops at the first message that is an error or fails to append.\<close>

fun encoder_extend :: "'w write_all \<Rightarrow> ('p, 'm, 'e) protos \<Rightarrow> ('i, 'l, 'p, 'c, 'b, 'r, 'm, 'e) encode_env \<Rightarrow>
    ('e + ('i, 'l) LogMsg) list \<Rightarrow> u64 \<Rightarrow> ('w, 'i, 'b) Encoder \<Rightarrow> ('e EncodeError + u64) \<times> ('w, 'i, 'b) Encoder" where
  "encoder_extend write_all ps ee [] size_bytes e = (Inr size_bytes, e)"
| "encoder_extend write_all ps ee (Inl err # messages) size_bytes e = (Inl (EncOther err), e)"
| "encoder_extend write_all ps ee (Inr message # messages) size_bytes e =
     (case encoder_append write_all ps ee message e of
        (Inl err, e) \<Rightarrow> (Inl err, e)
      | (Inr n, e) \<Rightarrow> encoder_extend write_all ps ee messages (size_bytes + n) e)"

definition do_not_emit_footer :: "('w, 'i, 'b) Encoder \<Rightarrow> ('w, 'i, 'b) Encoder" where
  "do_not_emit_footer e = e\<lparr>en_footer_state := None\<rparr>"

definition append_transport_without_footer :: "'w write_all \<Rightarrow> ('p, 'm, 'e) protos \<Rightarrow>
    ('i, 'l, 'p, 'c, 'b, 'r, 'm, 'e) encode_env \<Rightarrow> 'p Msg \<Rightarrow> ('w, 'i, 'b) Encoder \<Rightarrow>
    ('e EncodeError + Span_u64 \<times> u64) \<times> ('w, 'i, 'b) Encoder" where
  "append_transport_without_footer write_all ps ee message e =
     (case write_encodable write_all ps message (do_not_emit_footer e) of
        (Inl err, e) \<Rightarrow> (Inl err, e)
      | (Inr (_, byte_span), e) \<Rightarrow> (Inr (byte_span, ee_byte_size ee message), e))"

text \<open>\<open>w.write_all(..)\<close> followed by \<open>*num_written += ..\<close>.\<close>

definition write_out :: "'w write_all \<Rightarrow> byte list \<Rightarrow> 'w \<Rightarrow> u64 \<Rightarrow> ('e EncodeError + unit) \<times> 'w \<times> u64" where
  "write_out write_all out w num_written =
     (case write_all w out of
        (w', Some err) \<Rightarrow> (Inl (Write err), w', num_written)
      | (w', None) \<Rightarrow> (Inr (), w', num_written + word_of_nat (length out)))"

text \<open>The footer is encoded after the header of the end message has been written; encoding the stream
  footer cannot fail, its assertion is the \<open>None\<close> of \<open>stream_footer_to_rrd_bytes\<close>.\<close>

definition finish_impl :: "'w write_all \<Rightarrow> ('p, 'm, 'e) protos \<Rightarrow> ('i, 'l, 'p, 'c, 'b, 'r, 'm, 'e) encode_env \<Rightarrow>
    ('i \<times> 'r) list \<Rightarrow> 'w \<Rightarrow> u64 \<Rightarrow> (('e EncodeError + unit) \<times> 'w \<times> u64) option" where
  "finish_impl write_all ps ee rrd_footer w num_written =
     (case try_collect (map (\<lambda>(_, manifest). ee_manifest_to_transport ee manifest) rrd_footer) of
        Inl err \<Rightarrow> Some (Inl (EncCodec err), w, num_written)
      | Inr manifests \<Rightarrow>
          let out_header = message_header_to_rrd_bytes
                \<lparr>mh_kind = End, mh_len = word_of_nat (pr_encoded_len (po_rrd_footer ps) manifests)\<rparr>
          in case write_out write_all out_header w num_written of
               (Inl err, w, n) \<Rightarrow> Some (Inl err, w, n)
             | (Inr _, w, n) \<Rightarrow>
                 (case prost_to_rrd_bytes (po_rrd_footer ps) manifests of
                    Inl err \<Rightarrow> Some (Inl (EncCodec err), w, n)
                  | Inr out_rrd_footer \<Rightarrow>
                      let footer = from_rrd_footer_bytes (ee_xxh32 ee) n out_rrd_footer in
                      (case write_out write_all out_rrd_footer w n of
                         (Inl err, w, n) \<Rightarrow> Some (Inl err, w, n)
                       | (Inr _, w, n) \<Rightarrow>
                           (case stream_footer_to_rrd_bytes footer of
                              None \<Rightarrow> None
                            | Some out_stream_footer \<Rightarrow> Some (write_out write_all out_stream_footer w n)))))"

definition encoder_finish :: "'w write_all \<Rightarrow> ('p, 'm, 'e) protos \<Rightarrow> ('i, 'l, 'p, 'c, 'b, 'r, 'm, 'e) encode_env \<Rightarrow>
    ('w, 'i, 'b) Encoder \<Rightarrow> (('e EncodeError + unit) \<times> ('w, 'i, 'b) Encoder) option" where
  "encoder_finish write_all ps ee e =
     (if en_is_finished e then Some (Inr (), e)
      else case en_write e of
        None \<Rightarrow> Some (Inl AlreadyUnwrapped, e)
      | Some w \<Rightarrow>
          let e = e\<lparr>en_is_finished := True\<rparr> in
          (case en_footer_state e of
             None \<Rightarrow> Some (Inr (), e)
           | Some footer_state \<Rightarrow>
               let e = e\<lparr>en_footer_state := None\<rparr> in
               (case footer_state_finish ee footer_state of
                  Inl err \<Rightarrow> Some (Inl err, e)
                | Inr rrd_footer \<Rightarrow>
                    map_option (\<lambda>(r, w, n). (r, e\<lparr>en_write := Some w, en_num_written := n\<rparr>))
                      (finish_impl write_all ps ee rrd_footer w (en_num_written e)))))"

text \<open>The debug assertion that no builtin footer is pending is left out: it is not checked in release
  builds.\<close>

text \<open>A custom footer next to a builtin one panics in a debug build.\<close>

definition finish_with_custom_footer :: "bool \<Rightarrow> 'w write_all \<Rightarrow> ('p, 'm, 'e) protos \<Rightarrow> ('i, 'l, 'p, 'c, 'b, 'r, 'm, 'e) encode_env \<Rightarrow>
    ('i \<times> 'r) list \<Rightarrow> ('w, 'i, 'b) Encoder \<Rightarrow> (('e EncodeError + unit) \<times> ('w, 'i, 'b) Encoder) option" where
  "finish_with_custom_footer debug_build write_all ps ee rrd_footer e =
     (if en_is_finished e then Some (Inr (), e)
      else case en_write e of
        None \<Rightarrow> Some (Inl AlreadyUnwrapped, e)
      | Some w \<Rightarrow>
          if debug_build \<and> en_footer_state e \<noteq> None then None
          else map_option (\<lambda>(r, w, n). (r, e\<lparr>en_is_finished := True, en_write := Some w, en_num_written := n\<rparr>))
            (finish_impl write_all ps ee rrd_footer w (en_num_written e)))"

definition into_inner :: "('w, 'i, 'b) Encoder \<Rightarrow> ('e EncodeError + 'w) \<times> ('w, 'i, 'b) Encoder" where
  "into_inner e = (case en_write e of None \<Rightarrow> Inl AlreadyUnwrapped | Some w \<Rightarrow> Inr w, e\<lparr>en_write := None\<rparr>)"

text \<open>\<open>Drop\<close>: finish unless unwrapped; errors are only logged.\<close>

definition encoder_drop :: "'w write_all \<Rightarrow> ('p, 'm, 'e) protos \<Rightarrow> ('i, 'l, 'p, 'c, 'b, 'r, 'm, 'e) encode_env \<Rightarrow>
    ('w, 'i, 'b) Encoder \<Rightarrow> ('w, 'i, 'b) Encoder option" where
  "encoder_drop write_all ps ee e =
     (case en_write e of None \<Rightarrow> Some e | Some _ \<Rightarrow> map_option snd (encoder_finish write_all ps ee e))"

text \<open>\<open>Encoder::encode\<close> on a vector: header, messages, end of stream, then the vector.\<close>

definition vec_write_all :: "byte list write_all" where
  "vec_write_all w bs = (w @ bs, None)"

definition encode :: "('p, 'm, 'e) protos \<Rightarrow> ('i, 'l, 'p, 'c, 'b, 'r, 'm, 'e) encode_env \<Rightarrow> CrateVersion \<Rightarrow>
    ('e + ('i, 'l) LogMsg) list \<Rightarrow> ('e EncodeError + byte list) option" where
  "encode ps ee local_version messages =
     (case encoder_new_eager vec_write_all local_version PROTOBUF_COMPRESSED [] of
        Inl err \<Rightarrow> Some (Inl err)
      | Inr e \<Rightarrow>
          (case encoder_extend vec_write_all ps ee messages 0 e of
             (Inl err, e) \<Rightarrow> Some (Inl err)
           | (Inr _, e) \<Rightarrow>
               (case encoder_finish vec_write_all ps ee e of
                  None \<Rightarrow> None
                | Some (Inl err, e) \<Rightarrow> Some (Inl err)
                | Some (Inr _, e) \<Rightarrow> Some (fst (into_inner e)))))"

section \<open>What a writer promises\<close>

definition end_of_stream :: "('p, 'm, 'e) protos \<Rightarrow> ('i, 'l, 'p, 'c, 'b, 'r, 'm, 'e) encode_env \<Rightarrow> nat \<Rightarrow> 'm list \<Rightarrow>
    byte list \<Rightarrow> byte list \<Rightarrow> bool" where
  "end_of_stream ps ee offset manifests payload tail \<longleftrightarrow>
     prost_to_rrd_bytes (po_rrd_footer ps) manifests = Inr payload
     \<and> (\<exists>foot. stream_footer_to_rrd_bytes
            (from_rrd_footer_bytes (ee_xxh32 ee) (word_of_nat (offset + 16)) payload) = Some foot
          \<and> tail = message_header_to_rrd_bytes
               \<lparr>mh_kind = End, mh_len = word_of_nat (pr_encoded_len (po_rrd_footer ps) manifests)\<rparr> @ payload @ foot)"

text \<open>A successful write appends. Everything the encoder has written is then one sequence of bytes, and its
  byte count is the length of that sequence.\<close>

locale writer =
  fixes write_all :: "'w write_all" and contents :: "'w \<Rightarrow> byte list"
  assumes write_ok: "write_all w bs = (w', None) \<Longrightarrow> contents w' = contents w @ bs"
begin

definition written :: "byte list \<Rightarrow> byte list \<Rightarrow> ('w, 'i, 'b) Encoder \<Rightarrow> bool" where
  "written base body e \<longleftrightarrow> (\<exists>w. en_write e = Some w \<and> contents w = base @ body)
     \<and> en_num_written e = word_of_nat (length body)"

lemma new_written:
  assumes "(encoder_new_eager write_all v options w :: 'e EncodeError + ('w, 'i, 'b) Encoder) = Inr e"
  shows "written (contents w) (stream_header_to_rrd_bytes
      \<lparr>sh_fourcc = RRD_FOURCC, sh_version = version_to_bytes v, sh_options = options\<rparr>) e
    \<and> en_compression e = eo_compression options \<and> en_footer_state e = Some [] \<and> \<not> en_is_finished e"
  using assms write_ok
  by (auto simp: encoder_new_eager_def written_def Let_def split: prod.splits option.splits)

lemma write_encodable_written:
  assumes "written base body e" "write_encodable write_all ps m e = (Inr (n, span0), e')"
  shows "\<exists>bs. msg_to_rrd_bytes ps m = Inr bs \<and> written base (body @ bs) e' \<and> n = word_of_nat (length bs)
    \<and> span0 = \<lparr>span_start = word_of_nat (length body + 16), span_len = word_of_nat (length bs) - 16\<rparr>
    \<and> en_footer_state e' = en_footer_state e \<and> en_compression e' = en_compression e
    \<and> en_is_finished e' = en_is_finished e"
  using assms write_ok
  by (auto simp: write_encodable_def written_def Let_def split: if_splits option.splits sum.splits prod.splits)

lemma append_written:
  assumes "written base body e" "encoder_append write_all ps ee m e = (Inr n, e')"
  shows "\<exists>t bs. ee_to_transport ee m (en_compression e) = Inr t \<and> msg_to_rrd_bytes ps t = Inr bs
    \<and> written base (body @ bs) e' \<and> en_compression e' = en_compression e
    \<and> en_is_finished e' = en_is_finished e \<and> (en_footer_state e' = None \<longleftrightarrow> en_footer_state e = None)"
proof -
  obtain t where t: "ee_to_transport ee m (en_compression e) = Inr t"
    using assms(2) by (auto simp: encoder_append_def split: sum.splits)
  obtain k span0 e1 where w: "write_encodable write_all ps t e = (Inr (k, span0), e1)"
    using assms(2) t by (auto simp: encoder_append_def split: sum.splits prod.splits)
  obtain bs where bs: "msg_to_rrd_bytes ps t = Inr bs" "written base (body @ bs) e1"
    "en_footer_state e1 = en_footer_state e" "en_compression e1 = en_compression e"
    "en_is_finished e1 = en_is_finished e"
    using write_encodable_written [OF assms(1) w] by blast
  have "written base (body @ bs) (e1\<lparr>en_footer_state := st\<rparr>)" for st using bs(2) by (simp add: written_def)
  with assms(2) t w bs show ?thesis
    by (auto simp: encoder_append_def Let_def split: option.splits sum.splits prod.splits)
qed

lemma extend_written:
  assumes "encoder_extend write_all ps ee msgs size0 e = (Inr n, e')" "written base body e"
  shows "\<exists>ts bss. list_all2 (\<lambda>m t. \<exists>l. m = Inr l \<and> ee_to_transport ee l (en_compression e) = Inr t) msgs ts
    \<and> list_all2 (\<lambda>t bs. msg_to_rrd_bytes ps t = Inr bs) ts bss \<and> written base (body @ concat bss) e'
    \<and> en_is_finished e' = en_is_finished e \<and> (en_footer_state e' = None \<longleftrightarrow> en_footer_state e = None)"
  using assms
proof (induction msgs arbitrary: size0 e body)
  case Nil
  then show ?case by (intro exI [of _ "[]"]) simp
next
  case (Cons m msgs)
  then obtain l where m: "m = Inr l" by (cases m) auto
  obtain k e1 where a: "encoder_append write_all ps ee l e = (Inr k, e1)"
    "encoder_extend write_all ps ee msgs (size0 + k) e1 = (Inr n, e')"
    using Cons(2) m by (auto split: prod.splits sum.splits)
  obtain t bs where t: "ee_to_transport ee l (en_compression e) = Inr t" "msg_to_rrd_bytes ps t = Inr bs"
    "written base (body @ bs) e1" "en_compression e1 = en_compression e" "en_is_finished e1 = en_is_finished e"
    "en_footer_state e1 = None \<longleftrightarrow> en_footer_state e = None"
    using append_written [OF Cons(3) a(1)] by (elim exE conjE) (rule that)
  obtain ts bss where "list_all2 (\<lambda>m t. \<exists>l. m = Inr l \<and> ee_to_transport ee l (en_compression e) = Inr t) msgs ts"
    "list_all2 (\<lambda>t bs. msg_to_rrd_bytes ps t = Inr bs) ts bss" "written base ((body @ bs) @ concat bss) e'"
    "en_is_finished e' = en_is_finished e" "en_footer_state e' = None \<longleftrightarrow> en_footer_state e = None"
    using Cons(1) [OF a(2) t(3)] unfolding t(4,5,6) by (elim exE conjE) (rule that)
  then show ?case using m t by (intro exI [of _ "t # ts"] exI [of _ "bs # bss"]) simp
qed

text \<open>The end of the stream: the header of the end message, the footer payload, and the stream footer that
  points at it.\<close>

lemma finish_impl_written:
  assumes "finish_impl write_all ps ee rrd_footer w (word_of_nat (length body)) = Some (Inr (), w', n)"
    "contents w = base @ body"
  shows "\<exists>manifests payload tail. end_of_stream ps ee (length body) manifests payload tail
    \<and> contents w' = base @ body @ tail \<and> n = word_of_nat (length body + length tail)"
proof -
  obtain manifests where m: "try_collect (map (\<lambda>(_, x). ee_manifest_to_transport ee x) rrd_footer) = Inr manifests"
    using assms(1) by (auto simp: finish_impl_def split: sum.splits)
  define hdr where "hdr = message_header_to_rrd_bytes
    \<lparr>mh_kind = End, mh_len = word_of_nat (pr_encoded_len (po_rrd_footer ps) manifests)\<rparr>"
  obtain w1 where w1: "write_all w hdr = (w1, None)"
    using assms(1) m by (auto simp: finish_impl_def Let_def write_out_def hdr_def split: prod.splits option.splits)
  obtain payload where p: "prost_to_rrd_bytes (po_rrd_footer ps) manifests = Inr payload"
    using assms(1) m w1 by (auto simp: finish_impl_def Let_def write_out_def hdr_def split: sum.splits)
  obtain w2 where w2: "write_all w1 payload = (w2, None)"
    using assms(1) m w1 p
    by (auto simp: finish_impl_def Let_def write_out_def hdr_def split: prod.splits option.splits)
  define footer where "footer = from_rrd_footer_bytes (ee_xxh32 ee) (word_of_nat (length body + 16)) payload"
  have hdr16: "length hdr = 16" by (simp add: hdr_def message_codec.enc_length)
  obtain foot where f: "stream_footer_to_rrd_bytes footer = Some foot"
    using assms(1) m w1 w2 p hdr16
    by (auto simp: finish_impl_def Let_def write_out_def hdr_def footer_def split: prod.splits option.splits)
  have w3: "write_all w2 foot = (w', None)" "n = word_of_nat (length body + length (hdr @ payload @ foot))"
    using assms(1) m w1 w2 p f hdr16
    by (auto simp: finish_impl_def Let_def write_out_def hdr_def footer_def add.assoc split: prod.splits option.splits)
  have "contents w' = base @ body @ hdr @ payload @ foot"
    using write_ok [OF w1] write_ok [OF w2] write_ok [OF w3(1)] assms(2) by simp
  then show ?thesis using p f w3(2)
    by (intro exI [of _ manifests] exI [of _ payload] exI [of _ "hdr @ payload @ foot"])
      (simp add: end_of_stream_def hdr_def footer_def)
qed

end

interpretation vec: writer vec_write_all id
  by unfold_locales (simp add: vec_write_all_def)

end
