(* ===== verification/Rrd_Roundtrip.thy ===== *)
theory Rrd_Roundtrip
  imports Rrd_Encoder
begin

text \<open>
  Encoder and decoder together: what the encoder of \<open>crates/store/re_log_encoding/src/rrd/encoder.rs\<close> writes,
  the state machine of \<open>decoder/state_machine.rs\<close> reads back, also from several streams put one after
  the other.

  What is assumed of the protobuf library is \<open>prost_ok\<close>: decoding inverts encoding, and the announced
  length is the length, at most \<open>isize::MAX\<close> as of every vector of bytes.
\<close>

section \<open>The protobuf codec\<close>

definition prost_ok :: "('p, 'e) prost \<Rightarrow> bool" where
  "prost_ok pr \<longleftrightarrow> (\<forall>x bs. pr_encode pr x = Inr bs \<longrightarrow>
     pr_decode pr bs = Inr x \<and> length bs = pr_encoded_len pr x \<and> length bs \<le> isize_MAX)"

definition protos_ok :: "('p, 'm, 'e) protos \<Rightarrow> bool" where
  "protos_ok ps \<longleftrightarrow> prost_ok (po_set_store_info ps) \<and> prost_ok (po_arrow_msg ps) \<and> prost_ok (po_blueprint ps)
     \<and> prost_ok (po_rrd_footer ps)"

lemma prost_bytes:
  assumes "prost_ok pr" "prost_to_rrd_bytes pr x = Inr bs"
  shows "prost_from_rrd_bytes pr bs = Inr x" "length bs = pr_encoded_len pr x" "length bs \<le> isize_MAX"
proof -
  have "pr_encode pr x = Inr bs" using assms(2) by (simp add: prost_to_rrd_bytes_def split: sum.splits)
  then have "pr_decode pr bs = Inr x \<and> length bs = pr_encoded_len pr x \<and> length bs \<le> isize_MAX"
    using assms(1) unfolding prost_ok_def by blast
  then show "prost_from_rrd_bytes pr bs = Inr x" "length bs = pr_encoded_len pr x" "length bs \<le> isize_MAX"
    by (simp_all add: prost_from_rrd_bytes_def)
qed

lemma unat_isize: "n \<le> isize_MAX \<Longrightarrow> unat (word_of_nat n :: u64) = n" "n \<le> isize_MAX \<Longrightarrow> \<not> oversized n"
  by (simp_all add: unat_of_nat take_bit_nat_eq_self isize_MAX_def oversized_def)

lemma unat_length: "n < 2 ^ 64 \<Longrightarrow> unat (word_of_nat n :: u64) = n"
  by (simp add: unat_of_nat take_bit_nat_eq_self)

lemma framed_bytes:
  assumes "prost_ok pr" "framed kind pr x = Inr bs"
  shows "\<exists>payload. bs = message_header_to_rrd_bytes \<lparr>mh_kind = kind, mh_len = word_of_nat (length payload)\<rparr> @ payload
    \<and> prost_from_rrd_bytes pr payload = Inr x \<and> length payload \<le> isize_MAX"
proof -
  obtain payload where "prost_to_rrd_bytes pr x = Inr payload"
    "bs = message_header_to_rrd_bytes \<lparr>mh_kind = kind, mh_len = word_of_nat (pr_encoded_len pr x)\<rparr> @ payload"
    using assms(2) by (auto simp: framed_def Let_def split: sum.splits)
  with prost_bytes [OF assms(1) this(1)] show ?thesis by metis
qed

text \<open>One message: its header, and a payload that decodes to it.\<close>

lemma msg_bytes:
  assumes "protos_ok ps" "msg_to_rrd_bytes ps m = Inr bs"
  shows "\<exists>kind payload. bs = message_header_to_rrd_bytes \<lparr>mh_kind = kind, mh_len = word_of_nat (length payload)\<rparr> @ payload
    \<and> msg_payload_decode ps kind payload = Inr (Some m) \<and> length payload \<le> isize_MAX"
proof (cases m)
  case (MsgSetStoreInfo x)
  with framed_bytes [of "po_set_store_info ps" SetStoreInfo x bs] assms show ?thesis
    by (fastforce simp: protos_ok_def)
next
  case (MsgArrowMsg x)
  with framed_bytes [of "po_arrow_msg ps" ArrowMsg x bs] assms show ?thesis by (fastforce simp: protos_ok_def)
next
  case (MsgBlueprintActivationCommand x)
  with framed_bytes [of "po_blueprint ps" BlueprintActivationCommand x bs] assms show ?thesis
    by (fastforce simp: protos_ok_def)
qed

section \<open>The decoder on encoded pieces\<close>

definition waits :: "DecoderState \<Rightarrow> byte list \<Rightarrow> (flat_source, 'k, 'm) Decoder \<Rightarrow> bool" where
  "waits s p d \<longleftrightarrow> dc_state d = s \<and> fst (dc_bytes d) = p"

definition readable :: "CrateVersion \<Rightarrow> bool" where
  "readable v \<longleftrightarrow> \<not> (cv_major v = 0 \<and> cv_minor v < 23)"

abbreviation header_of :: "CrateVersion \<Rightarrow> EncodingOptions \<Rightarrow> StreamHeader" where
  "header_of v options \<equiv> \<lparr>sh_fourcc = RRD_FOURCC, sh_version = version_to_bytes v, sh_options = options\<rparr>"

lemma header_of_valid: "stream_header_valid (header_of v options)"
  by (simp add: stream_header_valid_def version_to_bytes_def)

lemma header_of_version:
  "readable v \<Longrightarrow> to_version_and_options (header_of v options) = Inr (version_from_bytes (version_to_bytes v), options)"
  by (auto simp: readable_def to_version_and_options_def version_to_bytes_def version_from_bytes_def Let_def)

lemmas header_of_codec = header_codec.dec_enc [OF header_of_valid] header_codec.enc_length [OF header_of_valid]

lemma emits_stream_header:
  assumes "waits WaitingForStreamHeader (stream_header_to_rrd_bytes (header_of v options) @ rest) d" "readable v"
  shows "\<exists>d'. emits env d [] d' \<and> waits WaitingForMessageHeader rest d'"
proof -
  obtain k where b: "dc_bytes d = (stream_header_to_rrd_bytes (header_of v options) @ rest, k)"
    "dc_state d = WaitingForStreamHeader"
    using assms(1) by (cases "dc_bytes d") (simp add: waits_def)
  let ?d = "d\<lparr>dc_bytes := (rest, k + 12), dc_version := Some (version_from_bytes (version_to_bytes v)), dc_options := options,
    dc_state := WaitingForMessageHeader\<rparr>"
  have "decoder_step flat_ops env d = (Again, ?d)"
    using b
    by (simp add: decoder_step_def step_stream_header_def Let_def header_of_codec header_of_version [OF assms(2)]
        split: Serializer.splits)
  then have "emits env d [] ?d" using emits_one [of env d Again ?d] by (simp add: visible_def)
  moreover have "waits WaitingForMessageHeader rest ?d" by (simp add: waits_def)
  ultimately show ?thesis by blast
qed

lemma emits_message_header:
  assumes "waits WaitingForMessageHeader (message_header_to_rrd_bytes h @ rest) d"
  shows "\<exists>d'. emits env d [] d' \<and> waits (WaitingForMessagePayload h) rest d'"
proof -
  obtain k where b: "dc_bytes d = (message_header_to_rrd_bytes h @ rest, k)" "dc_state d = WaitingForMessageHeader"
    using assms by (cases "dc_bytes d") (simp add: waits_def)
  let ?d = "d\<lparr>dc_bytes := (rest, k + 16), dc_state := WaitingForMessagePayload h\<rparr>"
  have "decoder_step flat_ops env d = (Again, ?d)"
    using b
    by (simp add: decoder_step_def step_message_header_def Let_def message_codec.dec_enc [OF TrueI]
        message_codec.enc_length [OF TrueI])
  then have "emits env d [] ?d" using emits_one [of env d Again ?d] by (simp add: visible_def)
  moreover have "waits (WaitingForMessagePayload h) rest ?d" by (simp add: waits_def)
  ultimately show ?thesis by blast
qed

lemma emits_message:
  assumes "protos_ok ps" "msg_to_rrd_bytes ps m = Inr bs" "waits WaitingForMessageHeader (bs @ rest) d"
  shows "\<exists>d'. emits (transport_env chk ps) d [Return (Inr (Some m))] d' \<and> waits WaitingForMessageHeader rest d'"
proof -
  obtain kind payload where m: "bs = message_header_to_rrd_bytes \<lparr>mh_kind = kind, mh_len = word_of_nat (length payload)\<rparr> @ payload"
    "msg_payload_decode ps kind payload = Inr (Some m)" "length payload \<le> isize_MAX"
    using msg_bytes [OF assms(1,2)] by blast
  obtain d1 where d1: "emits (transport_env chk ps) d [] d1"
    "waits (WaitingForMessagePayload \<lparr>mh_kind = kind, mh_len = word_of_nat (length payload)\<rparr>) (payload @ rest) d1"
    using emits_message_header [of _ "payload @ rest" d] assms(3) m(1) by fastforce
  then obtain k where b: "dc_bytes d1 = (payload @ rest, k)"
    "dc_state d1 = WaitingForMessagePayload \<lparr>mh_kind = kind, mh_len = word_of_nat (length payload)\<rparr>"
    by (cases "dc_bytes d1") (simp add: waits_def)
  let ?d = "d1\<lparr>dc_bytes := (rest, k + length payload), dc_state := WaitingForMessageHeader\<rparr>"
  have "decoder_step flat_ops (transport_env chk ps) d1 = (Return (Inr (Some m)), ?d)"
    using b m(2,3)
    by (simp add: decoder_step_def step_payload_def Let_def unat_isize transport_env_def msg_decode_def)
  then have "emits (transport_env chk ps) d1 [Return (Inr (Some m))] ?d"
    using emits_one [of "transport_env chk ps" d1 "Return (Inr (Some m))" ?d] by (simp add: visible_def)
  from emits_trans [OF d1(1) this] show ?thesis by (auto simp: waits_def)
qed

lemma emits_messages:
  assumes "protos_ok ps" "list_all2 (\<lambda>t bs. msg_to_rrd_bytes ps t = Inr bs) ts bss"
    "waits WaitingForMessageHeader (concat bss @ rest) d"
  shows "\<exists>d'. emits (transport_env chk ps) d (map (\<lambda>t. Return (Inr (Some t))) ts) d' \<and> waits WaitingForMessageHeader rest d'"
  using assms(2,3)
proof (induction ts bss arbitrary: d rule: list_all2_induct)
  case Nil
  then show ?case using emits_none by fastforce
next
  case (Cons t ts bs bss)
  then obtain d1 where "emits (transport_env chk ps) d [Return (Inr (Some t))] d1"
    "waits WaitingForMessageHeader (concat bss @ rest) d1"
    using emits_message [OF assms(1), of t bs "concat bss @ rest" d] by auto
  then show ?case using Cons(3) [of d1] emits_trans [of "transport_env chk ps" d "[_]" d1] by fastforce
qed

section \<open>The end of a stream\<close>

lemma footer_of_valid: "footer_valid (from_rrd_footer_bytes xxh n payload)"
  by (simp add: footer_valid_def from_rrd_footer_bytes_def stream_footer_new_def)

lemma end_of_stream_bytes:
  assumes "protos_ok ps" "end_of_stream ps ee offset manifests payload tail"
  shows "\<exists>foot. tail = message_header_to_rrd_bytes \<lparr>mh_kind = End, mh_len = word_of_nat (length payload)\<rparr> @ payload @ foot
    \<and> length foot = 32
    \<and> stream_footer_from_rrd_bytes foot = Some (Inr (from_rrd_footer_bytes (ee_xxh32 ee) (word_of_nat (offset + 16)) payload))"
proof -
  let ?f = "from_rrd_footer_bytes (ee_xxh32 ee) (word_of_nat (offset + 16)) payload"
  obtain foot where foot: "stream_footer_to_rrd_bytes ?f = Some foot"
    "tail = message_header_to_rrd_bytes
        \<lparr>mh_kind = End, mh_len = word_of_nat (pr_encoded_len (po_rrd_footer ps) manifests)\<rparr> @ payload @ foot"
    "prost_to_rrd_bytes (po_rrd_footer ps) manifests = Inr payload"
    using assms(2) by (auto simp: end_of_stream_def)
  have "length payload = pr_encoded_len (po_rrd_footer ps) manifests"
    by (rule prost_bytes(2) [OF _ foot(3)]) (use assms(1) in \<open>simp add: protos_ok_def\<close>)
  moreover have "length foot = 32" "stream_footer_from_rrd_bytes foot = Some (Inr ?f)"
    using foot(1) by (auto simp: footer_to_bytes [OF footer_of_valid] footer_from_bytes [OF footer_of_valid])
  ultimately show ?thesis using foot(2) by auto
qed

lemma emits_end_of_stream:
  fixes ps :: "('p, 'm, 'e) protos"
  assumes "protos_ok ps" "end_of_stream ps ee offset manifests payload tail"
    "waits WaitingForMessageHeader (tail @ rest) d" "chk \<longrightarrow> offset + 16 + length payload < 2 ^ 64"
  shows "\<exists>d'. emits (transport_env chk ps) d [] d' \<and> waits WaitingForStreamHeader rest d'"
proof -
  obtain foot where foot: "tail = message_header_to_rrd_bytes \<lparr>mh_kind = End, mh_len = word_of_nat (length payload)\<rparr> @ payload @ foot"
    "length foot = 32" using end_of_stream_bytes [OF assms(1,2)] by blast
  have dec: "(stream_footer_from_rrd_bytes foot :: ('e CodecError + StreamFooter) option)
      = Some (Inr (from_rrd_footer_bytes (ee_xxh32 ee) (word_of_nat (offset + 16)) payload))"
    using end_of_stream_bytes [OF assms(1,2)] foot by auto
  have p: "prost_from_rrd_bytes (po_rrd_footer ps) payload = Inr manifests" "length payload \<le> isize_MAX"
    using prost_bytes [of "po_rrd_footer ps" manifests payload] assms(1,2) by (auto simp: protos_ok_def end_of_stream_def)
  obtain d1 where d1: "emits (transport_env chk ps) d [] d1"
    "waits (WaitingForMessagePayload \<lparr>mh_kind = End, mh_len = word_of_nat (length payload)\<rparr>) (payload @ foot @ rest) d1"
    using emits_message_header [of _ "payload @ foot @ rest" d] assms(3) foot(1) by fastforce
  then obtain k where b: "dc_bytes d1 = (payload @ foot @ rest, k)"
    "dc_state d1 = WaitingForMessagePayload \<lparr>mh_kind = End, mh_len = word_of_nat (length payload)\<rparr>"
    by (cases "dc_bytes d1") (simp add: waits_def)
  define ms where "ms = (if payload = [] then dc_manifests d1 else dc_manifests d1 @ manifests)"
  let ?d2 = "d1\<lparr>dc_bytes := (foot @ rest, k + length payload), dc_manifests := ms, dc_state := WaitingForStreamFooter\<rparr>"
  have "decoder_step flat_ops (transport_env chk ps) d1 = (Again, ?d2)"
    using b p
    by (cases d1) (auto simp: decoder_step_def step_payload_def Let_def unat_isize transport_env_def msg_decode_def ms_def)
  from emits_one [OF this] have e2: "emits (transport_env chk ps) d1 [] ?d2" by (simp add: visible_def)
  let ?d3 = "?d2\<lparr>dc_bytes := (rest, k + length payload + 32), dc_state := WaitingForStreamHeader\<rparr>"
  have "\<not> (chk \<and> footer_overflows (from_rrd_footer_bytes (ee_xxh32 ee) (word_of_nat (offset + 16)) payload))"
    using assms(4)
    by (auto simp: footer_overflows_def span_end_overflows_def from_rrd_footer_bytes_def stream_footer_new_def unat_length
        simp del: of_nat_add)
  then have "decoder_step flat_ops (transport_env chk ps) ?d2 = (Again, ?d3)"
    using foot(2) dec by (auto simp: decoder_step_def step_stream_footer_def Let_def transport_env_def)
  from emits_one [OF this] have e3: "emits (transport_env chk ps) ?d2 [] ?d3" by (simp add: visible_def)
  have "emits (transport_env chk ps) d [] ?d3" using emits_trans [OF emits_trans [OF d1(1) e2] e3] by simp
  then show ?thesis by (auto simp: waits_def)
qed

section \<open>Streams one after the other\<close>

text \<open>A stream of messages, with or without the end-of-stream marker.\<close>

definition is_stream :: "bool \<Rightarrow> ('p, 'm, 'e) protos \<Rightarrow> ('i, 'l, 'p, 'c, 'b, 'r, 'm, 'e) encode_env \<Rightarrow> 'p Msg list \<Rightarrow> byte list \<Rightarrow> bool" where
  "is_stream chk ps ee ts bytes \<longleftrightarrow> (\<exists>v options bss tail. readable v
     \<and> list_all2 (\<lambda>t bs. msg_to_rrd_bytes ps t = Inr bs) ts bss
     \<and> (tail = [] \<or> (\<exists>offset manifests payload. end_of_stream ps ee offset manifests payload tail
          \<and> (chk \<longrightarrow> offset + 16 + length payload < 2 ^ 64)))
     \<and> bytes = stream_header_to_rrd_bytes (header_of v options) @ concat bss @ tail)"

abbreviation messages :: "'p Msg list \<Rightarrow> ('e, 'p Msg) outcome list" where
  "messages ts \<equiv> map (\<lambda>t. Return (Inr (Some t))) ts"

lemma length_version_to_bytes [simp]: "length (version_to_bytes v) = 4"
  by (simp add: version_to_bytes_def)

lemma header_of_bytes: "stream_header_to_rrd_bytes (header_of v options) = RRD_FOURCC @ version_to_bytes v @ options_to_rrd_bytes options"
  by (simp add: stream_header_to_rrd_bytes_def)

lemma kind_not_fourcc: "take 4 (u64_to_le_bytes (kind_as_u64 k)) \<noteq> RRD_FOURCC"
  by (cases k; simp only: kind_as_u64.simps; code_simp)

text \<open>No message header starts with the magic bytes of a stream header.\<close>

lemma fourcc_not_message:
  assumes "take 4 bs = RRD_FOURCC"
  shows "\<exists>r. (message_header_from_rrd_bytes bs :: 'e CodecError + MessageHeader) = Inl (FrameDecoding r)"
proof (cases "message_header_from_rrd_bytes bs :: 'e CodecError + MessageHeader")
  case (Inl e)
  then show ?thesis using message_header_error [OF Inl] by auto
next
  case (Inr h)
  then have "bs = message_header_to_rrd_bytes h" using message_codec.dec_canonical [OF Inr] by simp
  moreover have "take 4 (message_header_to_rrd_bytes h) \<noteq> RRD_FOURCC"
    using kind_not_fourcc by (simp add: message_header_to_rrd_bytes_def)
  ultimately show ?thesis using assms by simp
qed

lemma stream_starts:
  assumes "is_stream chk ps ee ts bytes"
  shows "take 4 bytes = RRD_FOURCC" "12 \<le> length bytes" "length bytes < 16 \<Longrightarrow> ts = []"
proof -
  obtain v options bss tail where b: "bytes = stream_header_to_rrd_bytes (header_of v options) @ concat bss @ tail"
    "list_all2 (\<lambda>t bs. msg_to_rrd_bytes ps t = Inr bs) ts bss"
    using assms by (auto simp: is_stream_def)
  show "take 4 bytes = RRD_FOURCC" "12 \<le> length bytes"
    using b(1) by (simp_all add: header_of_bytes options_codec.enc_length)
  show "ts = []" if "length bytes < 16"
  proof (rule ccontr)
    assume "ts \<noteq> []"
    then obtain t bs bss' where t: "bss = bs # bss'" "msg_to_rrd_bytes ps t = Inr bs"
      using b(2) by (cases ts; cases bss) auto
    have "16 \<le> length bs"
      using t(2) by (cases t) (auto simp: framed_def Let_def message_codec.enc_length split: sum.splits)
    then show False using that b(1) t(1) by simp
  qed
qed

lemma concat_streams_short:
  assumes "list_all2 (is_stream chk ps ee) tss streams" "length (concat streams) < 16"
  shows "concat tss = []"
proof (cases tss)
  case (Cons ts tss')
  then obtain b bs where b: "streams = b # bs" "is_stream chk ps ee ts b" "list_all2 (is_stream chk ps ee) tss' bs"
    using assms(1) by (auto simp: list_all2_Cons1)
  have "tss' = []"
  proof (rule ccontr)
    assume "tss' \<noteq> []"
    then obtain ts2 b2 bs2 where "bs = b2 # bs2" "is_stream chk ps ee ts2 b2" using b(3) by (cases tss'; cases bs) auto
    then show False using stream_starts(2) [OF b(2)] stream_starts(2) [of chk ps ee ts2 b2] assms(2) b(1) by simp
  qed
  then show ?thesis using stream_starts(3) [OF b(2)] assms(2) b(1) Cons by simp
qed simp

lemma concat_streams_starts:
  "list_all2 (is_stream chk ps ee) tss streams \<Longrightarrow> streams \<noteq> [] \<Longrightarrow> take 4 (concat streams) = RRD_FOURCC"
  using stream_starts by (cases tss; cases streams) fastforce+

text \<open>A footerless stream leaves the decoder looking for a message header. If another stream follows, it
  finds out from the magic bytes.\<close>

lemma switch_stream:
  fixes env :: "('k, 'm, 'e, 't) payload_env"
  assumes "waits WaitingForMessageHeader p d" "take 4 p = RRD_FOURCC" "16 \<le> length p"
  shows "\<exists>d'. emits env d [] d' \<and> waits WaitingForStreamHeader p d'"
proof -
  obtain k where b: "dc_bytes d = (p, k)" "dc_state d = WaitingForMessageHeader"
    using assms(1) by (cases "dc_bytes d") (simp add: waits_def)
  have "take 4 (take 16 p) = RRD_FOURCC" using assms(2) by (simp add: min_def)
  then obtain r where "(message_header_from_rrd_bytes (take 16 p) :: 'e CodecError + MessageHeader) = Inl (FrameDecoding r)"
    using fourcc_not_message by blast
  then have "decoder_step flat_ops env d = (Again, d\<lparr>dc_state := WaitingForStreamHeader\<rparr>)"
    using b assms(3) by (auto simp: decoder_step_def step_message_header_def Let_def)
  from emits_one [OF this] b show ?thesis by (auto simp: visible_def waits_def)
qed

lemma wait_short: "waits WaitingForMessageHeader p d \<Longrightarrow> length p < 16 \<Longrightarrow> decode_all env d = []"
  by (cases "dc_bytes d") (auto simp: decode_all.simps [of env d] decoder_step_def step_message_header_def Let_def waits_def)

lemma streams_decode:
  assumes "protos_ok ps" "list_all2 (is_stream chk ps ee) tss streams" "waits WaitingForStreamHeader (concat streams) d"
  shows "decode_all (transport_env chk ps) d = messages (concat tss)"
  using assms(2,3)
proof (induction tss streams arbitrary: d rule: list_all2_induct)
  case Nil
  then have "fst (dc_bytes d) = []" "dc_state d = WaitingForStreamHeader" by (simp_all add: waits_def)
  then show ?case
    by (cases "dc_bytes d") (simp add: decode_all.simps [of _ d] decoder_step_def step_stream_header_def Let_def)
next
  case (Cons ts tss b bs)
  obtain v options bss tail where s: "readable v" "list_all2 (\<lambda>t bs. msg_to_rrd_bytes ps t = Inr bs) ts bss"
    "tail = [] \<or> (\<exists>offset manifests payload. end_of_stream ps ee offset manifests payload tail
       \<and> (chk \<longrightarrow> offset + 16 + length payload < 2 ^ 64))"
    "b = stream_header_to_rrd_bytes (header_of v options) @ concat bss @ tail"
    using Cons(1) unfolding is_stream_def by blast
  obtain d1 where d1: "emits (transport_env chk ps) d [] d1" "waits WaitingForMessageHeader (concat bss @ tail @ concat bs) d1"
    using emits_stream_header [of v options "concat bss @ tail @ concat bs" d "transport_env chk ps"] Cons(4) s(1,4) by auto
  obtain d2 where d2: "emits (transport_env chk ps) d1 (messages ts) d2" "waits WaitingForMessageHeader (tail @ concat bs) d2"
    using emits_messages [OF assms(1) s(2) d1(2)] by blast
  have "decode_all (transport_env chk ps) d2 = messages (concat tss)"
  proof (cases "tail = []")
    case False
    then obtain d3 where "emits (transport_env chk ps) d2 [] d3" "waits WaitingForStreamHeader (concat bs) d3"
      using s(3) emits_end_of_stream [OF assms(1)] d2(2) by blast
    then show ?thesis using Cons(3) [of d3] emits_decode_all by fastforce
  next
    case True
    show ?thesis
    proof (cases "length (concat bs) < 16")
      case short: True
      have "concat tss = []" by (rule concat_streams_short [OF Cons(2) short])
      then show ?thesis unfolding \<open>concat tss = []\<close> using wait_short [OF d2(2)] short \<open>tail = []\<close> by (simp add: wait_short [OF d2(2)])
    next
      case False
      then obtain d3 where "emits (transport_env chk ps) d2 [] d3" "waits WaitingForStreamHeader (concat bs) d3"
        using switch_stream [OF d2(2)] concat_streams_starts [OF Cons(2)] \<open>tail = []\<close> by (cases bs) auto
      then show ?thesis using Cons(3) [of d3] emits_decode_all by fastforce
    qed
  qed
  then show ?case using emits_decode_all [OF emits_trans [OF d1(1) d2(1)]] by simp
qed

text \<open>What \<open>Encoder::encode\<close> returns is such a stream.\<close>

lemma finish_is_stream:
  assumes "vec.written [] body e" "en_footer_state e \<noteq> None" "\<not> en_is_finished e"
    "encoder_finish vec_write_all ps ee e = Some (Inr (), e')"
  shows "\<exists>manifests payload tail. end_of_stream ps ee (length body) manifests payload tail \<and> en_write e' = Some (body @ tail)"
proof -
  obtain st where st: "en_footer_state e = Some st" using assms(2) by blast
  have w: "en_write e = Some body" "en_num_written e = word_of_nat (length body)"
    using assms(1) by (auto simp: vec.written_def)
  obtain footer where f: "footer_state_finish ee st = Inr footer"
    using assms(3,4) st w by (auto simp: encoder_finish_def Let_def split: sum.splits)
  then obtain w' n where i: "finish_impl vec_write_all ps ee footer body (word_of_nat (length body)) = Some (Inr (), w', n)"
    "en_write e' = Some w'"
    using assms(3,4) st w by (auto simp: encoder_finish_def Let_def)
  show ?thesis using vec.finish_impl_written [OF i(1), of "[]"] i(2) by auto
qed

lemma encode_stream:
  fixes ee :: "('i, 'l, 'p, 'c, 'b, 'r, 'm, 'e) encode_env"
  assumes "encode ps ee v msgs = Some (Inr bytes)"
  shows "\<exists>ts bss manifests payload tail.
      list_all2 (\<lambda>m t. \<exists>l. m = Inr l \<and> ee_to_transport ee l CompressionLZ4 = Inr t) msgs ts
    \<and> list_all2 (\<lambda>t bs. msg_to_rrd_bytes ps t = Inr bs) ts bss
    \<and> end_of_stream ps ee (length (stream_header_to_rrd_bytes (header_of v PROTOBUF_COMPRESSED) @ concat bss)) manifests payload tail
    \<and> bytes = stream_header_to_rrd_bytes (header_of v PROTOBUF_COMPRESSED) @ concat bss @ tail"
proof -
  let ?h = "stream_header_to_rrd_bytes (header_of v PROTOBUF_COMPRESSED)"
  define e0 :: "(byte list, 'i, 'b) Encoder" where
    "e0 = \<lparr>en_serializer = Protobuf, en_compression = CompressionLZ4, en_write = Some ?h,
       en_num_written = word_of_nat (length ?h), en_footer_state = Some [], en_is_finished = False\<rparr>"
  have new: "encoder_new_eager vec_write_all v PROTOBUF_COMPRESSED [] = Inr e0"
    by (simp add: encoder_new_eager_def vec_write_all_def e0_def PROTOBUF_COMPRESSED_def Let_def)
  have w0: "vec.written [] ?h e0" "en_compression e0 = CompressionLZ4" "en_footer_state e0 \<noteq> None" "\<not> en_is_finished e0"
    by (simp_all add: vec.written_def e0_def)
  obtain n e1 where e1: "encoder_extend vec_write_all ps ee msgs 0 e0 = (Inr n, e1)"
    using assms by (auto simp: encode_def new split: prod.splits sum.splits)
  obtain ts bss where ts: "list_all2 (\<lambda>m t. \<exists>l. m = Inr l \<and> ee_to_transport ee l CompressionLZ4 = Inr t) msgs ts"
    "list_all2 (\<lambda>t bs. msg_to_rrd_bytes ps t = Inr bs) ts bss" "vec.written [] (?h @ concat bss) e1"
    "\<not> en_is_finished e1" "en_footer_state e1 \<noteq> None"
    using vec.extend_written [OF e1 w0(1)] w0(2-4) by (elim exE conjE) simp
  obtain e2 where e2: "encoder_finish vec_write_all ps ee e1 = Some (Inr (), e2)" "en_write e2 = Some bytes"
    using assms by (auto simp: encode_def new e1 into_inner_def split: option.splits prod.splits sum.splits)
  obtain manifests payload tail where "end_of_stream ps ee (length (?h @ concat bss)) manifests payload tail"
    "en_write e2 = Some ((?h @ concat bss) @ tail)"
    using finish_is_stream [OF ts(3,5,4) e2(1)] by blast
  with ts(1,2) e2(2) show ?thesis
    by (intro exI [of _ ts] exI [of _ bss] exI [of _ manifests] exI [of _ payload] exI [of _ tail]) simp
qed

section \<open>Properties\<close>

text \<open>C10: messages that are encoded, in one stream or in several streams written one after the other, are
  decoded again: the transport-level decoder yields exactly the encoded messages, in order and without an
  error, given that protobuf decoding inverts encoding. Where overflow checks are compiled in, a stream is to
  be shorter than 2 to the 64 bytes.\<close>

theorem encode_decode_roundtrip:
  assumes "protos_ok ps" and "readable v"
    and "list_all2 (\<lambda>msgs bytes. encode ps ee v msgs = Some (Inr bytes)) msgss streams"
    and "overflow_checks \<longrightarrow> (\<forall>bytes \<in> set streams. length bytes < 2 ^ 64)"
  shows "\<exists>tss. list_all2 (list_all2 (\<lambda>m t. \<exists>l. m = Inr l \<and> ee_to_transport ee l CompressionLZ4 = Inr t)) msgss tss
    \<and> decode_all (transport_env overflow_checks ps) (flat_start c (concat streams)) = messages (concat tss)"
proof -
  let ?P = "\<lambda>msgs ts. list_all2 (\<lambda>m t. \<exists>l. m = Inr l \<and> ee_to_transport ee l CompressionLZ4 = Inr t) msgs ts"
  let ?chk = overflow_checks
  have one: "\<exists>ts. ?P msgs ts \<and> is_stream ?chk ps ee ts bytes"
    if e: "encode ps ee v msgs = Some (Inr bytes)" and small: "?chk \<longrightarrow> length bytes < 2 ^ 64" for msgs bytes
  proof -
    let ?h = "stream_header_to_rrd_bytes (header_of v PROTOBUF_COMPRESSED)"
    obtain ts bss manifests payload tail where s: "?P msgs ts" "list_all2 (\<lambda>t bs. msg_to_rrd_bytes ps t = Inr bs) ts bss"
      "end_of_stream ps ee (length (?h @ concat bss)) manifests payload tail" "bytes = ?h @ concat bss @ tail"
      using encode_stream [OF e] by blast
    have "length tail = 48 + length payload"
      using end_of_stream_bytes [OF assms(1) s(3)] by (auto simp: message_codec.enc_length)
    then have "?chk \<longrightarrow> length (?h @ concat bss) + 16 + length payload < 2 ^ 64" using small s(4) by auto
    then show ?thesis using s assms(2) unfolding is_stream_def by blast
  qed
  have "\<exists>tss. list_all2 ?P msgss tss \<and> list_all2 (is_stream ?chk ps ee) tss streams"
    using assms(3,4)
  proof (induction msgss streams rule: list_all2_induct)
    case (Cons msgs msgss bytes streams)
    have "?chk \<longrightarrow> (\<forall>bytes \<in> set streams. length bytes < 2 ^ 64)" "?chk \<longrightarrow> length bytes < 2 ^ 64" using Cons(4) by auto
    then obtain tss ts where "list_all2 ?P msgss tss" "list_all2 (is_stream ?chk ps ee) tss streams"
      "?P msgs ts" "is_stream ?chk ps ee ts bytes" using Cons(3) one [OF Cons(1)] by blast
    then show ?case by (intro exI [of _ "ts # tss"]) simp
  qed simp
  then obtain tss where t: "list_all2 ?P msgss tss" "list_all2 (is_stream ?chk ps ee) tss streams" by blast
  have "waits WaitingForStreamHeader (concat streams) (flat_start c (concat streams))"
    by (simp add: waits_def) (simp add: flat_start_def decoder_new_def)
  then show ?thesis using streams_decode [OF assms(1) t(2)] t(1) by blast
qed

text \<open>The encoded bytes end in a stream footer with one entry, whose span, measured from the start of the
  stream, contains exactly the encoded footer payload, whose checksum is the entry's.\<close>

theorem encoded_footer_points_at_payload:
  assumes "protos_ok ps" and "encode ps ee v msgs = Some (Inr bytes)" and "length bytes < 2 ^ 64"
  shows "\<exists>entry manifests. let span0 = sfe_span entry;
        payload = take (unat (span_len span0)) (drop (unat (span_start span0)) bytes)
      in (stream_footer_from_rrd_bytes (drop (length bytes - 32) bytes) :: ('x CodecError + StreamFooter) option)
          = Some (Inr \<lparr>sf_fourcc = RRD_FOURCC, sf_identifier = FOOTER_IDENTIFIER, sf_entries = [entry]\<rparr>)
        \<and> prost_from_rrd_bytes (po_rrd_footer ps) payload = Inr manifests
        \<and> sfe_crc entry = ee_xxh32 ee payload CRC_SEED"
proof -
  obtain front manifests payload tail where b: "bytes = front @ tail"
    "end_of_stream ps ee (length front) manifests payload tail"
    using encode_stream [OF assms(2)] by (metis append.assoc)
  let ?h = "message_header_to_rrd_bytes \<lparr>mh_kind = End, mh_len = word_of_nat (length payload)\<rparr>"
  define entry where "entry = \<lparr>sfe_span = \<lparr>span_start = word_of_nat (length front + 16), span_len = word_of_nat (length payload)\<rparr>,
    sfe_crc = ee_xxh32 ee payload CRC_SEED\<rparr>"
  obtain foot where f: "tail = ?h @ payload @ foot" "length foot = 32"
    "(stream_footer_from_rrd_bytes foot :: ('x CodecError + StreamFooter) option)
      = Some (Inr (from_rrd_footer_bytes (ee_xxh32 ee) (word_of_nat (length front + 16)) payload))"
    using end_of_stream_bytes [OF assms(1) b(2)] by blast
  have h: "length ?h = 16" by (simp add: message_codec.enc_length)
  have p: "prost_from_rrd_bytes (po_rrd_footer ps) payload = Inr manifests"
    using prost_bytes [of "po_rrd_footer ps" manifests payload] assms(1) b(2) by (simp add: protos_ok_def end_of_stream_def)
  have n: "unat (word_of_nat (length front + 16) :: u64) = length front + 16"
    "unat (word_of_nat (length payload) :: u64) = length payload"
    using assms(3) b(1) f(1,2) h by (simp_all add: unat_length del: of_nat_add)
  have "take (length payload) (drop (length front + 16) bytes) = payload"
    using b(1) f(1) h by simp
  moreover have "drop (length bytes - 32) bytes = foot" using b(1) f(1,2) by simp
  moreover have "from_rrd_footer_bytes (ee_xxh32 ee) (word_of_nat (length front + 16)) payload
    = \<lparr>sf_fourcc = RRD_FOURCC, sf_identifier = FOOTER_IDENTIFIER, sf_entries = [entry]\<rparr>"
    by (simp add: from_rrd_footer_bytes_def stream_footer_new_def entry_def)
  ultimately show ?thesis using p f(3) n
    by (intro exI [of _ entry] exI [of _ manifests]) (simp add: Let_def entry_def del: of_nat_add)
qed

text \<open>The life of an encoder: finishing never panics, marks the encoder finished whatever happens, and
  does nothing the second time; a finished or unwrapped encoder refuses messages and stays as it is; a
  message that cannot be encoded is not written, not even in part.\<close>

theorem encoder_lifecycle:
  assumes "encoder_finish write_all ps ee e = Some (r, e')" and "en_write e \<noteq> None"
    and "msg_to_rrd_bytes ps bad = Inl err"
  shows "en_is_finished e' \<and> encoder_finish write_all ps ee e' = Some (Inr (), e')
    \<and> write_encodable write_all ps m e' = (Inl AlreadyFinished, e')
    \<and> fst (write_encodable write_all ps m ((snd (into_inner e))\<lparr>en_is_finished := False\<rparr>)) = Inl AlreadyUnwrapped
    \<and> snd (write_encodable write_all ps bad e) = e
    \<and> encoder_finish write_all ps ee e'' \<noteq> None"
proof (intro conjI)
  have "finish_impl write_all ps ee footer w n \<noteq> None" for footer w n
    by (auto simp: finish_impl_def Let_def footer_to_bytes [OF footer_of_valid] simp del: not_None_eq
        split: sum.splits prod.splits)
  then show "encoder_finish write_all ps ee e'' \<noteq> None"
    by (auto simp: encoder_finish_def Let_def split: option.splits sum.splits)
  show f: "en_is_finished e'"
    using assms(1,2) by (auto simp: encoder_finish_def Let_def split: if_splits option.splits sum.splits)
  show "encoder_finish write_all ps ee e' = Some (Inr (), e')" using f by (simp add: encoder_finish_def)
  show "write_encodable write_all ps m e' = (Inl AlreadyFinished, e')" using f by (simp add: write_encodable_def)
  show "fst (write_encodable write_all ps m ((snd (into_inner e))\<lparr>en_is_finished := False\<rparr>)) = Inl AlreadyUnwrapped"
    by (simp add: write_encodable_def into_inner_def)
  show "snd (write_encodable write_all ps bad e) = e"
    using assms(3) by (simp add: write_encodable_def Let_def split: option.splits)
qed

text \<open>A codec for the examples: payloads are their own encoding, the empty one is refused.\<close>

definition sample_prost :: "(byte list, nat) prost" where
  "sample_prost = \<lparr>pr_encode = (\<lambda>x. if length x < 100 then Inr x else Inl 1), pr_encoded_len = length, pr_decode = Inr\<rparr>"

definition picky_prost :: "(byte list, nat) prost" where
  "picky_prost = \<lparr>pr_encode = (\<lambda>x. if x = [] \<or> 100 \<le> length x then Inl 1 else Inr x), pr_encoded_len = length, pr_decode = Inr\<rparr>"

definition sample_protos :: "(byte list, byte, nat) protos" where
  "sample_protos = \<lparr>po_set_store_info = sample_prost, po_arrow_msg = picky_prost, po_blueprint = sample_prost,
     po_rrd_footer = sample_prost\<rparr>"

fun sample_transport :: "(nat, byte list) LogMsg \<Rightarrow> Compression \<Rightarrow> nat CodecError + byte list Msg" where
  "sample_transport (LogSetStoreInfo l) c = Inr (MsgSetStoreInfo l)"
| "sample_transport (LogArrowMsg i l) c = Inr (MsgArrowMsg (1 # l))"
| "sample_transport (LogBlueprintActivationCommand l) c = Inr (MsgBlueprintActivationCommand l)"

definition sample_encode_env :: "(nat, byte list, byte list, byte list, nat, byte, byte, nat) encode_env" where
  "sample_encode_env = \<lparr>ee_to_transport = sample_transport, ee_byte_size = (\<lambda>_. 0), ee_chunk_batch = Inr,
     ee_builder_default = 0, ee_builder_append = (\<lambda>b _ _ _. (Inr (), Suc b)), ee_builder_build = (\<lambda>b _. Inr (word_of_nat b)),
     ee_manifest_to_transport = Inr, ee_xxh32 = (\<lambda>bs _. word_of_nat (length bs))\<rparr>"

lemma sample_protos_ok: "protos_ok sample_protos"
  by (auto simp: protos_ok_def prost_ok_def sample_protos_def sample_prost_def picky_prost_def isize_MAX_def split: if_splits)

definition sample_messages :: "(nat + (nat, byte list) LogMsg) list" where
  "sample_messages = [Inr (LogSetStoreInfo [5]), Inr (LogArrowMsg 3 [7, 8])]"

definition sample_bytes :: "byte list" where
  "sample_bytes = projr (the (encode sample_protos sample_encode_env (crate_version_new 0 36 0) sample_messages))"

lemma sample_encoded:
  "encode sample_protos sample_encode_env (crate_version_new 0 36 0) sample_messages = Some (Inr sample_bytes)"
  by code_simp

theorem encode_decode_roundtrip_witness:
  "\<exists>tss. list_all2 (list_all2 (\<lambda>m t. \<exists>l. m = Inr l \<and> ee_to_transport sample_encode_env l CompressionLZ4 = Inr t))
      [sample_messages, sample_messages] tss
    \<and> decode_all (transport_env True sample_protos) (flat_start () (concat [sample_bytes, sample_bytes])) = messages (concat tss)"
proof (rule encode_decode_roundtrip [OF sample_protos_ok, where v = "crate_version_new 0 36 0"])
  have "length sample_bytes < 200" by code_simp
  then show "True \<longrightarrow> (\<forall>bytes \<in> set [sample_bytes, sample_bytes]. length bytes < 2 ^ 64)" by simp
qed (simp_all add: readable_def crate_version_new_def sample_encoded [unfolded crate_version_new_def])

theorem encoded_footer_points_at_payload_witness:
  "\<exists>entry. (stream_footer_from_rrd_bytes (drop (length sample_bytes - 32) sample_bytes) :: (nat CodecError + StreamFooter) option)
    = Some (Inr \<lparr>sf_fourcc = RRD_FOURCC, sf_identifier = FOOTER_IDENTIFIER, sf_entries = [entry]\<rparr>)"
proof -
  have "length sample_bytes < 200" by code_simp
  then have "length sample_bytes < 2 ^ 64" by simp
  from encoded_footer_points_at_payload [OF sample_protos_ok sample_encoded this] show ?thesis
    by (auto simp: Let_def)
qed

theorem encoder_lifecycle_witness:
  "\<exists>e'. encoder_finish vec_write_all sample_protos sample_encode_env
       \<lparr>en_serializer = Protobuf, en_compression = CompressionOff, en_write = Some [], en_num_written = 0,
        en_footer_state = Some [], en_is_finished = False\<rparr> = Some (Inr (), e') \<and> en_is_finished e'"
proof -
  define e :: "(byte list, nat, nat) Encoder" where
    "e = \<lparr>en_serializer = Protobuf, en_compression = CompressionOff, en_write = Some [], en_num_written = 0,
        en_footer_state = Some [], en_is_finished = False\<rparr>"
  define r where "r = the (encoder_finish vec_write_all sample_protos sample_encode_env e)"
  have ok: "fst r = Inr ()" unfolding r_def e_def by code_simp
  have "encoder_finish vec_write_all sample_protos sample_encode_env e \<noteq> None" unfolding e_def by code_simp
  then have fin: "encoder_finish vec_write_all sample_protos sample_encode_env e = Some (Inr (), snd r)"
    using ok by (cases r) (auto simp: r_def)
  have bad: "msg_to_rrd_bytes sample_protos (MsgArrowMsg []) = Inl (PayloadError 1)" by code_simp
  have w: "en_write e \<noteq> None" by (simp add: e_def)
  have "en_is_finished (snd r)" by (rule encoder_lifecycle [OF fin w bad, THEN conjunct1])
  with fin show ?thesis unfolding e_def by blast
qed

end
