(* ===== verification/Ordered_Map.thy ===== *)
theory Ordered_Map
  imports Prelude
begin

text \<open>
  The ordered containers of the standard library: a \<open>BTreeMap\<close> is an association list whose keys
  increase, a \<open>BTreeSet\<close> an increasing list, so that iteration is list traversal. The hash maps of
  the stores are the association lists of the prelude, extended here with \<open>entry\<close> and \<open>get_mut\<close>.
\<close>

section \<open>Ordered maps\<close>

definition bt_wf :: "('k :: linorder \<times> 'v) list \<Rightarrow> bool" where
  "bt_wf m \<longleftrightarrow> sorted_wrt (<) (map fst m)"

text \<open>\<open>entry(k).or_default()\<close> followed by an update of the slot.\<close>

fun bt_entry :: "'k :: linorder \<Rightarrow> 'v \<Rightarrow> ('v \<Rightarrow> 'v) \<Rightarrow> ('k \<times> 'v) list \<Rightarrow> ('k \<times> 'v) list" where
  "bt_entry k d f [] = [(k, f d)]"
| "bt_entry k d f ((k', v) # m) =
     (if k < k' then (k, f d) # (k', v) # m
      else if k = k' then (k, f v) # m
      else (k', v) # bt_entry k d f m)"

definition bt_remove :: "'k \<Rightarrow> ('k \<times> 'v) list \<Rightarrow> ('k \<times> 'v) list" where
  "bt_remove k m = filter (\<lambda>(k', _). k' \<noteq> k) m"

text \<open>\<open>range(..=b)\<close> and \<open>range(a..=b)\<close>.\<close>

definition bt_range_to :: "'k :: linorder \<Rightarrow> ('k \<times> 'v) list \<Rightarrow> ('k \<times> 'v) list" where
  "bt_range_to b m = filter (\<lambda>(k, _). k \<le> b) m"

definition bt_range :: "'k :: linorder \<Rightarrow> 'k \<Rightarrow> ('k \<times> 'v) list \<Rightarrow> ('k \<times> 'v) list" where
  "bt_range a b m = filter (\<lambda>(k, _). a \<le> k \<and> k \<le> b) m"

definition next_back :: "'a list \<Rightarrow> 'a option" where
  "next_back xs = (if xs = [] then None else Some (last xs))"

section \<open>Ordered sets\<close>

definition bs_wf :: "'a :: linorder list \<Rightarrow> bool" where
  "bs_wf xs \<longleftrightarrow> sorted_wrt (<) xs"

definition bs_insert :: "'a :: linorder \<Rightarrow> 'a list \<Rightarrow> 'a list" where
  "bs_insert x xs = insort_insert x xs"

definition bs_remove :: "'a \<Rightarrow> 'a list \<Rightarrow> 'a list" where
  "bs_remove x xs = removeAll x xs"

section \<open>Hash map slots\<close>

definition al_get :: "'v \<Rightarrow> 'k \<Rightarrow> ('k \<times> 'v) list \<Rightarrow> 'v" where
  "al_get d k m = (case map_of m k of Some v \<Rightarrow> v | None \<Rightarrow> d)"

definition al_entry :: "'k \<Rightarrow> 'v \<Rightarrow> ('v \<Rightarrow> 'v) \<Rightarrow> ('k \<times> 'v) list \<Rightarrow> ('k \<times> 'v) list" where
  "al_entry k d f m = al_insert k (f (al_get d k m)) m"

text \<open>\<open>get_mut(k)\<close>, an update that also reports a flag: a missing key changes nothing.\<close>

definition al_modify ::
    "'k \<Rightarrow> ('v \<Rightarrow> bool \<times> 'v) \<Rightarrow> bool \<times> ('k \<times> 'v) list \<Rightarrow> bool \<times> ('k \<times> 'v) list" where
  "al_modify k f = (\<lambda>(flag, m). case map_of m k of
     None \<Rightarrow> (flag, m)
   | Some v \<Rightarrow> let (b, v') = f v in (flag \<or> b, al_insert k v' m))"

definition al_remove :: "'k \<Rightarrow> ('k \<times> 'v) list \<Rightarrow> ('k \<times> 'v) list" where
  "al_remove k m = filter (\<lambda>(k', _). k' \<noteq> k) m"

section \<open>Facts\<close>

lemma bt_wf_Cons [simp]: "bt_wf ((k, v) # m) \<longleftrightarrow> (\<forall>k'\<in>fst ` set m. k < k') \<and> bt_wf m"
  by (auto simp: bt_wf_def)

lemma bt_wf_Nil [simp]: "bt_wf []"
  by (simp add: bt_wf_def)

lemma keys_bt_entry: "fst ` set (bt_entry k d f m) = insert k (fst ` set m)"
  by (induction k d f m rule: bt_entry.induct) auto

lemma bt_wf_entry: "bt_wf m \<Longrightarrow> bt_wf (bt_entry k d f m)"
proof (induction k d f m rule: bt_entry.induct)
  case (2 k d f k' v m)
  then show ?case by (auto simp: keys_bt_entry)
qed auto

lemma map_of_bt_entry:
  "bt_wf m \<Longrightarrow> map_of (bt_entry k d f m) = (map_of m)(k \<mapsto> f (case map_of m k of Some v \<Rightarrow> v | None \<Rightarrow> d))"
proof (induction k d f m rule: bt_entry.induct)
  case (2 k d f k' v m)
  show ?case
  proof (cases "k < k'")
    case True
    with 2(2) have "k \<notin> fst ` set ((k', v) # m)" by force
    then have "map_of ((k', v) # m) k = None" by (simp only: map_of_eq_None_iff) simp
    with True show ?thesis by (auto simp: fun_eq_iff)
  next
    case False
    with 2 show ?thesis by (cases "k = k'") (auto simp: fun_eq_iff)
  qed
qed simp

lemma map_of_filter_ne: "map_of (filter (\<lambda>(k', _). k' \<noteq> k) m) = (map_of m)(k := None)"
  by (induction m) (auto simp: fun_eq_iff)

lemma map_of_bt_remove [simp]: "map_of (bt_remove k m) = (map_of m)(k := None)"
  by (simp add: bt_remove_def map_of_filter_ne)

lemma bt_wf_filter: "bt_wf m \<Longrightarrow> bt_wf (filter P m)"
  by (induction m) (auto split: prod.splits)

lemma bt_wf_remove: "bt_wf m \<Longrightarrow> bt_wf (bt_remove k m)"
  by (simp add: bt_remove_def bt_wf_filter)

lemma bt_wf_distinct: "bt_wf m \<Longrightarrow> distinct (map fst m)"
  by (simp add: bt_wf_def strict_sorted_iff)

lemma bt_mem_iff: "bt_wf m \<Longrightarrow> (k, v) \<in> set m \<longleftrightarrow> map_of m k = Some v"
  by (simp add: bt_wf_distinct)

lemma bt_last_greatest:
  assumes "bt_wf m" "(k, v) \<in> set m" shows "k \<le> fst (last m)"
  using assms by (induction m) (auto simp: image_iff intro: less_imp_le split: if_splits)

lemma next_back_None [simp]: "next_back xs = None \<longleftrightarrow> xs = []"
  by (simp add: next_back_def)

lemma next_back_range_to:
  assumes "bt_wf m" "next_back (bt_range_to b m) = Some (k, v)"
  shows "(k, v) \<in> set m" "k \<le> b" "\<And>k' v'. (k', v') \<in> set m \<Longrightarrow> k' \<le> b \<Longrightarrow> k' \<le> k"
proof -
  let ?m = "bt_range_to b m"
  have ne: "?m \<noteq> []" and l: "last ?m = (k, v)" using assms(2) by (auto simp: next_back_def split: if_splits)
  then have "(k, v) \<in> set ?m" by (metis last_in_set)
  then show "(k, v) \<in> set m" "k \<le> b" by (auto simp: bt_range_to_def)
  fix k' v' assume "(k', v') \<in> set m" "k' \<le> b"
  then have "(k', v') \<in> set ?m" by (simp add: bt_range_to_def)
  moreover have "bt_wf ?m" using assms(1) by (simp add: bt_range_to_def bt_wf_filter)
  ultimately show "k' \<le> k" using bt_last_greatest [of ?m k' v'] l by simp
qed

lemma next_back_range_to_None:
  "next_back (bt_range_to b m) = None \<longleftrightarrow> (\<forall>k v. (k, v) \<in> set m \<longrightarrow> \<not> k \<le> b)"
  by (auto simp: bt_range_to_def filter_empty_conv)

lemma takeWhile_rev_sorted:
  assumes "bt_wf m" "\<And>k k'. k \<le> k' \<Longrightarrow> P k \<Longrightarrow> P k'"
  shows "takeWhile (\<lambda>(k, _). P k) (rev m) = rev (filter (\<lambda>(k, _). P k) m)"
  using assms
proof (induction m)
  case (Cons x m)
  obtain k v where x: "x = (k, v)" by (cases x)
  show ?case
  proof (cases "P k")
    case True
    have all: "\<forall>y\<in>set m. P (fst y)"
      using Cons.prems x True by (auto intro: less_imp_le)
    then have "takeWhile (\<lambda>(k, _). P k) (rev m @ [x]) = rev m @ [x]"
      using True x by (subst takeWhile_eq_all_conv) auto
    moreover have "filter (\<lambda>(k, _). P k) m = m" using all by (subst filter_id_conv) auto
    ultimately show ?thesis using x True by simp
  next
    case False
    have "takeWhile (\<lambda>(k, _). P k) (rev m @ [x]) = takeWhile (\<lambda>(k, _). P k) (rev m)"
      using False x by (auto simp: takeWhile_append intro!: takeWhile_eq_all_conv [THEN iffD2, symmetric])
    with False x Cons show ?thesis by simp
  qed
qed simp

lemma bs_insert_set [simp]: "set (bs_insert x xs) = insert x (set xs)"
  by (simp add: bs_insert_def set_insort_insert)

lemma bs_remove_set [simp]: "set (bs_remove x xs) = set xs - {x}"
  by (simp add: bs_remove_def)

lemma bs_wf_insert: "bs_wf xs \<Longrightarrow> bs_wf (bs_insert x xs)"
  unfolding bs_wf_def bs_insert_def strict_sorted_iff
  by (simp add: sorted_insort_insert distinct_insort_insert)

lemma bs_wf_remove: "bs_wf xs \<Longrightarrow> bs_wf (bs_remove x xs)"
  unfolding bs_wf_def bs_remove_def removeAll_filter_not_eq by (rule sorted_wrt_filter)

lemma bs_wf_Nil [simp]: "bs_wf []"
  by (simp add: bs_wf_def)

lemma al_get_simps [simp]: "al_get d k [] = d"
  by (simp add: al_get_def)

lemma al_get_entry: "al_get d k' (al_entry k d f m) = (if k' = k then f (al_get d k m) else al_get d k' m)"
  by (simp add: al_entry_def al_get_def)

lemma al_get_modify:
  assumes "snd (f d) = d"
  shows "al_get d k' (snd (al_modify k f (flag, m))) =
    (if k' = k then snd (f (al_get d k m)) else al_get d k' m)"
  using assms by (auto simp: al_modify_def al_get_def split: option.splits prod.splits)

lemma map_of_al_remove [simp]: "map_of (al_remove k m) = (map_of m)(k := None)"
  by (simp add: al_remove_def map_of_filter_ne)

end
