(* ===== verification/Store_Lineage.thy ===== *)
theory Store_Lineage
  imports Ordered_Map Chunk
begin

text \<open>
  Where the chunks of a store come from (\<open>re_chunk_store\<close>: \<open>lineage.rs\<close> and the bookkeeping of
  \<open>writes.rs\<close>). Splitting and compaction link a chunk to the chunks it was made from; every link and
  every physical chunk holds one reference, and \<open>drop_lineage_reference\<close> frees, with an explicit
  worklist, what nobody references any more. The build modelled is the native release one: no
  external roots, no debug assertions.
\<close>

section \<open>Model\<close>

datatype ChunkDirectLineage =
    SplitFrom ChunkId "ChunkId list"
  | CompactedFrom "ChunkId list"
  | RootFromManifest bool
  | Volatile

datatype 'c ChunkDirectLineageReport =
    ReportSplitFrom "'c Chunk" "'c Chunk list"
  | ReportCompactedFrom "(ChunkId \<times> 'c Chunk) list"
  | ReportRootFromManifest bool
  | ReportVolatile

text \<open>\<open>From<&ChunkDirectLineageReport>\<close>.\<close>

fun lineage_of_report :: "'c ChunkDirectLineageReport \<Rightarrow> ChunkDirectLineage" where
  "lineage_of_report (ReportSplitFrom ch siblings) = SplitFrom (ch_id ch) (map ch_id siblings)"
| "lineage_of_report (ReportCompactedFrom chunks) = CompactedFrom (map fst chunks)"
| "lineage_of_report (ReportRootFromManifest st) = RootFromManifest st"
| "lineage_of_report ReportVolatile = Volatile"

fun iter_referenced_chunks :: "ChunkDirectLineage \<Rightarrow> ChunkId list" where
  "iter_referenced_chunks (SplitFrom cid _) = [cid]"
| "iter_referenced_chunks (CompactedFrom cids) = cids"
| "iter_referenced_chunks (RootFromManifest _) = []"
| "iter_referenced_chunks Volatile = []"

record TrackedDirectChunkLineage =
  direct :: ChunkDirectLineage
  ref_count :: nat
  descends_from_manifest :: bool

type_synonym Lineages = "(ChunkId \<times> TrackedDirectChunkLineage) list"

record LineageDroppingCtx =
  chunks_lineage :: Lineages
  leaky_compactions :: "(ChunkId \<times> ChunkId) list"
  split_on_ingest :: "ChunkId set"
  dangling_splits :: "(ChunkId \<times> ChunkId list) list"

definition direct_lineage :: "Lineages \<Rightarrow> ChunkId \<Rightarrow> ChunkDirectLineage option" where
  "direct_lineage ls cid = map_option direct (map_of ls cid)"

definition is_root_chunk :: "Lineages \<Rightarrow> ChunkId \<Rightarrow> bool" where
  "is_root_chunk ls cid =
     (case direct_lineage ls cid of
        None \<Rightarrow> True
      | Some (RootFromManifest _) \<Rightarrow> True
      | Some Volatile \<Rightarrow> True
      | Some (SplitFrom _ _) \<Rightarrow> False
      | Some (CompactedFrom _) \<Rightarrow> False)"

definition chunk_descends_from_manifest :: "Lineages \<Rightarrow> ChunkId \<Rightarrow> bool" where
  "chunk_descends_from_manifest ls cid =
     (case map_of ls cid of None \<Rightarrow> False | Some l \<Rightarrow> descends_from_manifest l)"

definition descends_from_a_split :: "Lineages \<Rightarrow> ChunkId \<Rightarrow> bool" where
  "descends_from_a_split ls cid =
     (case direct_lineage ls cid of Some (SplitFrom _ _) \<Rightarrow> True | _ \<Rightarrow> False)"

text \<open>The walk up a chain of splits; it does not return when the chain is a cycle.\<close>

partial_function (option) descends_from_a_compaction :: "Lineages \<Rightarrow> ChunkId \<Rightarrow> bool option" where
  "descends_from_a_compaction ls cid =
     (case direct_lineage ls cid of
        Some (SplitFrom parent _) \<Rightarrow> descends_from_a_compaction ls parent
      | Some (CompactedFrom _) \<Rightarrow> Some True
      | _ \<Rightarrow> Some False)"

text \<open>\<open>collect_root_ids\<close>: the roots of a chunk, depth first. \<open>None\<close> when the walk does not return.\<close>

partial_function (option) collect_root_ids :: "Lineages \<Rightarrow> ChunkId list \<Rightarrow> ChunkId list \<Rightarrow> ChunkId list option" where
  "collect_root_ids ls todo roots =
     (case todo of
        [] \<Rightarrow> Some roots
      | cid # todo \<Rightarrow>
          (case direct_lineage ls cid of
             Some (SplitFrom parent _) \<Rightarrow> collect_root_ids ls (parent # todo) roots
           | Some (CompactedFrom cids) \<Rightarrow> collect_root_ids ls (cids @ todo) roots
           | Some (RootFromManifest _) \<Rightarrow> collect_root_ids ls todo (roots @ [cid])
           | Some Volatile \<Rightarrow> collect_root_ids ls todo (roots @ [cid])
           | None \<Rightarrow> collect_root_ids ls todo roots))"

definition find_root_chunks :: "Lineages \<Rightarrow> ChunkId \<Rightarrow> ChunkId list option" where
  "find_root_chunks ls cid = collect_root_ids ls [cid] []"

text \<open>\<open>insert_lineage_if_missing\<close>: a new entry starts without references and takes one on each chunk
  it was made from, where that chunk is known; an entry that exists is kept.\<close>

definition add_reference :: "ChunkId \<Rightarrow> Lineages \<Rightarrow> Lineages" where
  "add_reference cid ls =
     (case map_of ls cid of None \<Rightarrow> ls | Some l \<Rightarrow> al_insert cid (l\<lparr>ref_count := ref_count l + 1\<rparr>) ls)"

fun lineage_from_manifest :: "Lineages \<Rightarrow> ChunkDirectLineage \<Rightarrow> bool" where
  "lineage_from_manifest ls (SplitFrom cid _) = chunk_descends_from_manifest ls cid"
| "lineage_from_manifest ls (CompactedFrom cids) = (\<exists>c\<in>set cids. chunk_descends_from_manifest ls c)"
| "lineage_from_manifest ls (RootFromManifest _) = True"
| "lineage_from_manifest ls Volatile = False"

definition insert_lineage_if_missing :: "ChunkId \<Rightarrow> ChunkDirectLineage \<Rightarrow> Lineages \<Rightarrow> Lineages" where
  "insert_lineage_if_missing cid lineage ls =
     (case map_of ls cid of
        Some _ \<Rightarrow> ls
      | None \<Rightarrow> fold add_reference (iter_referenced_chunks lineage)
          (al_insert cid \<lparr>direct = lineage, ref_count = 0,
             descends_from_manifest = lineage_from_manifest ls lineage\<rparr> ls))"

text \<open>\<open>drop_lineage_reference\<close>. The stack is a list whose head is popped next.\<close>

datatype lineage_op = DropRef ChunkId | Remove ChunkId

fun is_drop :: "lineage_op \<Rightarrow> bool" where
  "is_drop (DropRef _) = True"
| "is_drop (Remove _) = False"

definition sibling_referenced :: "Lineages \<Rightarrow> ChunkId list \<Rightarrow> bool" where
  "sibling_referenced ls siblings \<longleftrightarrow>
     (\<exists>cid\<in>set siblings. case map_of ls cid of None \<Rightarrow> False | Some l \<Rightarrow> 0 < ref_count l)"

text \<open>The removals that follow the loss of the last reference of \<open>cid\<close>, last one pushed first.\<close>

definition removals :: "Lineages \<Rightarrow> ChunkId \<Rightarrow> TrackedDirectChunkLineage \<Rightarrow> lineage_op list" where
  "removals ls cid l =
     (if descends_from_manifest l \<or> 0 < ref_count l then []
      else case direct l of
        SplitFrom _ siblings \<Rightarrow>
          if sibling_referenced ls siblings then [] else Remove cid # rev (map Remove siblings)
      | _ \<Rightarrow> [Remove cid])"

definition forget_chunk :: "ChunkId \<Rightarrow> 'z LineageDroppingCtx_scheme \<Rightarrow> 'z LineageDroppingCtx_scheme" where
  "forget_chunk cid ctx = ctx
     \<lparr>chunks_lineage := al_remove cid (chunks_lineage ctx),
      leaky_compactions := al_remove cid (leaky_compactions ctx),
      split_on_ingest := split_on_ingest ctx - {cid},
      dangling_splits := al_remove cid (dangling_splits ctx)\<rparr>"

lemma length_al_remove: "map_of m k = Some v \<Longrightarrow> length (al_remove k m) < length m"
proof -
  assume "map_of m k = Some v"
  then have "(k, v) \<in> set m" by (rule map_of_SomeD)
  then show ?thesis unfolding al_remove_def by (intro length_filter_less) auto
qed

lemma length_al_insert: "map_of m k \<noteq> None \<Longrightarrow> length (al_insert k v m) = length m"
  by (induction k v m rule: al_insert.induct) (auto split: if_splits)

function drop_loop :: "lineage_op list \<Rightarrow> 'z LineageDroppingCtx_scheme \<Rightarrow> 'z LineageDroppingCtx_scheme" where
  "drop_loop [] ctx = ctx"
| "drop_loop (DropRef cid # ops) ctx =
     (case map_of (chunks_lineage ctx) cid of
        None \<Rightarrow> drop_loop ops ctx
      | Some l \<Rightarrow>
          let l = l\<lparr>ref_count := ref_count l - 1\<rparr>;
              ctx = ctx\<lparr>chunks_lineage := al_insert cid l (chunks_lineage ctx)\<rparr>
          in drop_loop (removals (chunks_lineage ctx) cid l @ ops) ctx)"
| "drop_loop (Remove cid # ops) ctx =
     (case map_of (chunks_lineage ctx) cid of
        None \<Rightarrow> drop_loop ops ctx
      | Some l \<Rightarrow> drop_loop (rev (map DropRef (iter_referenced_chunks (direct l))) @ ops) (forget_chunk cid ctx))"
  by pat_completeness auto
termination
proof (relation "measures [\<lambda>(_, ctx). length (chunks_lineage ctx),
    \<lambda>(ops, _). length (filter is_drop ops), \<lambda>(ops, _). length ops]", goal_cases)
  case (3 cid ops ctx l l' ctx')
  have "filter is_drop (removals (chunks_lineage ctx') cid l') = []"
    by (auto simp: removals_def filter_empty_conv split: ChunkDirectLineage.splits if_splits)
  moreover have "length (chunks_lineage ctx') = length (chunks_lineage ctx)"
    using 3 by (simp add: length_al_insert)
  ultimately show ?case by simp
next
  case (5 cid ops ctx l)
  then show ?case using length_al_remove by (fastforce simp: forget_chunk_def)
qed auto

definition drop_lineage_reference :: "ChunkId \<Rightarrow> 'z LineageDroppingCtx_scheme \<Rightarrow> 'z LineageDroppingCtx_scheme" where
  "drop_lineage_reference cid ctx = drop_loop [DropRef cid] ctx"

section \<open>References\<close>

text \<open>How often the entries refer to a chunk, and the reference count an entry must have when \<open>extra\<close>
  counts the references from elsewhere.\<close>

definition referenced_by :: "Lineages \<Rightarrow> ChunkId \<Rightarrow> nat" where
  "referenced_by ls cid = sum_list (map (\<lambda>(_, l). count_list (iter_referenced_chunks (direct l)) cid) ls)"

definition counted :: "Lineages \<Rightarrow> (ChunkId \<Rightarrow> nat) \<Rightarrow> bool" where
  "counted ls extra \<longleftrightarrow> (\<forall>cid l. map_of ls cid = Some l \<longrightarrow> ref_count l = extra cid + referenced_by ls cid)"

definition closed_refs :: "Lineages \<Rightarrow> bool" where
  "closed_refs ls \<longleftrightarrow>
     (\<forall>cid l. map_of ls cid = Some l \<longrightarrow> (\<forall>c\<in>set (iter_referenced_chunks (direct l)). map_of ls c \<noteq> None))"

definition phys_refs :: "ChunkId set \<Rightarrow> ChunkId \<Rightarrow> nat" where
  "phys_refs P cid = (if cid \<in> P then 1 else 0)"

fun pending_drops :: "lineage_op list \<Rightarrow> ChunkId \<Rightarrow> nat" where
  "pending_drops [] cid = 0"
| "pending_drops (DropRef c # ops) cid = (if c = cid then 1 else 0) + pending_drops ops cid"
| "pending_drops (Remove c # ops) cid = pending_drops ops cid"

definition lineage_inv :: "Lineages \<Rightarrow> ChunkId set \<Rightarrow> bool" where
  "lineage_inv ls P \<longleftrightarrow> distinct (map fst ls) \<and> counted ls (phys_refs P) \<and> closed_refs ls
     \<and> P \<subseteq> fst ` set ls"

lemma pending_drops_append: "pending_drops (xs @ ys) cid = pending_drops xs cid + pending_drops ys cid"
  by (induction xs cid rule: pending_drops.induct) auto

lemma pending_drops_DropRefs: "pending_drops (map DropRef cids) cid = count_list cids cid"
  by (induction cids) auto

lemma pending_drops_rev: "pending_drops (rev ops) cid = pending_drops ops cid"
  by (induction ops cid rule: pending_drops.induct) (auto simp: pending_drops_append)

lemma pending_drops_removals: "pending_drops (removals ls cid l) c = 0"
proof -
  have "pending_drops (map Remove xs) c = 0" for xs by (induction xs) auto
  then show ?thesis by (auto simp: removals_def pending_drops_rev split: ChunkDirectLineage.splits)
qed

lemma referenced_by_Cons [simp]:
  "referenced_by ((k, l) # ls) cid = count_list (iter_referenced_chunks (direct l)) cid + referenced_by ls cid"
  by (simp add: referenced_by_def)

lemma referenced_by_Nil [simp]: "referenced_by [] cid = 0"
  by (simp add: referenced_by_def)

lemma referenced_by_update:
  "map_of ls k = Some l \<Longrightarrow> direct l' = direct l \<Longrightarrow> referenced_by (al_insert k l' ls) cid = referenced_by ls cid"
  by (induction ls) (auto split: if_splits)

lemma referenced_by_new:
  "map_of ls k = None \<Longrightarrow> referenced_by (al_insert k l ls) cid =
    count_list (iter_referenced_chunks (direct l)) cid + referenced_by ls cid"
  by (induction ls) (auto split: if_splits)

lemma al_remove_absent: "k \<notin> fst ` set m \<Longrightarrow> al_remove k m = m"
  unfolding al_remove_def by (induction m) auto

lemma referenced_by_remove:
  assumes "distinct (map fst ls)" "map_of ls k = Some l"
  shows "referenced_by ls cid = count_list (iter_referenced_chunks (direct l)) cid + referenced_by (al_remove k ls) cid"
  using assms
proof (induction ls)
  case (Cons x ls)
  obtain k' l' where x: "x = (k', l')" by (cases x)
  show ?case
  proof (cases "k' = k")
    case True
    then have "al_remove k (x # ls) = ls" using Cons.prems x al_remove_absent [of k ls] by (auto simp: al_remove_def)
    with True x Cons.prems show ?thesis by simp
  next
    case False
    then have "al_remove k (x # ls) = x # al_remove k ls" using x by (simp add: al_remove_def)
    with False x Cons show ?thesis by simp
  qed
qed simp

lemma referenced_by_zero:
  "map_of ls k = Some l \<Longrightarrow> referenced_by ls cid = 0 \<Longrightarrow> cid \<notin> set (iter_referenced_chunks (direct l))"
  by (induction ls) (auto split: if_splits simp: count_list_0_iff)

lemma referenced_by_absent:
  assumes "distinct (map fst ls)" "closed_refs ls" "map_of ls cid = None"
  shows "referenced_by ls cid = 0"
proof -
  have "count_list (iter_referenced_chunks (direct l)) cid = 0" if "(k, l) \<in> set ls" for k l
  proof -
    have "map_of ls k = Some l" using that assms(1) by simp
    with assms(2,3) have "cid \<notin> set (iter_referenced_chunks (direct l))" unfolding closed_refs_def by blast
    then show ?thesis by (simp add: count_list_0_iff)
  qed
  then show ?thesis by (fastforce simp: referenced_by_def sum_list_eq_0_iff)
qed

lemma distinct_al_remove: "distinct (map fst m) \<Longrightarrow> distinct (map fst (al_remove k m))"
  unfolding al_remove_def by (induction m) auto

section \<open>Dropping references\<close>

text \<open>The invariant of the loop: the references still to be dropped are counted, and what is about to be
  removed has none.\<close>

definition loop_inv :: "ChunkId set \<Rightarrow> lineage_op list \<Rightarrow> Lineages \<Rightarrow> bool" where
  "loop_inv P ops ls \<longleftrightarrow> distinct (map fst ls)
     \<and> counted ls (\<lambda>cid. phys_refs P cid + pending_drops ops cid) \<and> closed_refs ls
     \<and> (\<forall>cid l. Remove cid \<in> set ops \<longrightarrow> map_of ls cid = Some l \<longrightarrow> ref_count l = 0)"

lemma removals_unreferenced:
  assumes "map_of ls cid = Some l" "Remove c \<in> set (removals ls cid l)" "map_of ls c = Some l'"
  shows "ref_count l' = 0"
  using assms
  by (auto simp: removals_def sibling_referenced_def split: if_splits ChunkDirectLineage.splits)

lemma loop_inv_drop:
  assumes inv: "loop_inv P (DropRef cid # ops) ls" and l: "map_of ls cid = Some l"
  defines "l' \<equiv> l\<lparr>ref_count := ref_count l - 1\<rparr>"
  defines "ls' \<equiv> al_insert cid l' ls"
  shows "loop_inv P (removals ls' cid l' @ ops) ls'"
proof -
  have d: "direct l' = direct l" by (simp add: l'_def)
  have m: "map_of ls' = (map_of ls)(cid \<mapsto> l')" by (simp add: ls'_def)
  have ref: "referenced_by ls' c = referenced_by ls c" for c
    unfolding ls'_def using referenced_by_update [OF l d] .
  have c: "ref_count k = phys_refs P c + pending_drops (DropRef cid # ops) c + referenced_by ls c"
    if "map_of ls c = Some k" for c k
    using inv that by (simp add: loop_inv_def counted_def)
  have "counted ls' (\<lambda>c. phys_refs P c + pending_drops ops c)"
    using c [OF l] c by (auto simp: counted_def m ref l'_def split: if_splits)
  moreover have "closed_refs ls'"
    using inv l by (auto simp: loop_inv_def closed_refs_def m d split: if_splits)
  moreover have "ref_count k = 0" if "Remove c \<in> set ops" "map_of ls' c = Some k" for c k
    using inv that l by (auto simp: loop_inv_def m l'_def split: if_splits)
  moreover have "ref_count k = 0" if "Remove c \<in> set (removals ls' cid l')" "map_of ls' c = Some k" for c k
    using removals_unreferenced [of ls' cid l' c k] that by (simp add: m)
  moreover have "distinct (map fst ls')" using inv by (simp add: loop_inv_def ls'_def distinct_al_insert)
  ultimately show ?thesis
    by (auto simp: loop_inv_def counted_def pending_drops_append pending_drops_removals)
qed

lemma loop_inv_remove:
  assumes inv: "loop_inv P (Remove cid # ops) ls" and l: "map_of ls cid = Some l"
  shows "loop_inv P (rev (map DropRef (iter_referenced_chunks (direct l))) @ ops) (al_remove cid ls)"
proof -
  have dist: "distinct (map fst ls)" using inv by (simp add: loop_inv_def)
  have "ref_count l = 0" using inv l by (auto simp: loop_inv_def)
  with inv l have z: "referenced_by ls cid = 0" by (auto simp: loop_inv_def counted_def)
  note ref = referenced_by_remove [OF dist l]
  have "counted (al_remove cid ls) (\<lambda>c. phys_refs P c
      + pending_drops (rev (map DropRef (iter_referenced_chunks (direct l))) @ ops) c)"
    using inv ref by (auto simp: loop_inv_def counted_def pending_drops_append pending_drops_rev
        pending_drops_DropRefs split: if_splits)
  moreover have "closed_refs (al_remove cid ls)"
    using inv referenced_by_zero [OF _ z] by (fastforce simp: loop_inv_def closed_refs_def split: if_splits)
  moreover have "distinct (map fst (al_remove cid ls))" using dist by (rule distinct_al_remove)
  ultimately show ?thesis using inv by (auto simp: loop_inv_def split: if_splits)
qed

lemma loop_inv_skip:
  assumes "map_of ls c = None"
  shows "loop_inv P (DropRef c # ops) ls \<Longrightarrow> loop_inv P ops ls"
    "loop_inv P (Remove c # ops) ls \<Longrightarrow> loop_inv P ops ls"
proof -
  assume inv: "loop_inv P (DropRef c # ops) ls"
  have "counted ls (\<lambda>cid. phys_refs P cid + pending_drops ops cid)" unfolding counted_def
  proof (intro allI impI)
    fix cid l assume l: "map_of ls cid = Some l"
    then have "cid \<noteq> c" using assms by auto
    moreover have "ref_count l = phys_refs P cid + pending_drops (DropRef c # ops) cid + referenced_by ls cid"
      using inv l unfolding loop_inv_def counted_def by blast
    ultimately show "ref_count l = phys_refs P cid + pending_drops ops cid + referenced_by ls cid" by simp
  qed
  with inv show "loop_inv P ops ls" unfolding loop_inv_def by (meson list.set_intros(2))
next
  assume "loop_inv P (Remove c # ops) ls"
  then show "loop_inv P ops ls" unfolding loop_inv_def counted_def pending_drops.simps by (meson list.set_intros(2))
qed

lemma drop_loop_inv:
  "loop_inv P ops (chunks_lineage ctx) \<Longrightarrow> loop_inv P [] (chunks_lineage (drop_loop ops ctx))"
proof (induction ops ctx rule: drop_loop.induct)
  case (2 cid ops ctx)
  show ?case
  proof (cases "map_of (chunks_lineage ctx) cid")
    case None
    then show ?thesis using 2(1) [OF None] loop_inv_skip(1) [OF None 2(3)] by simp
  next
    case (Some l)
    with 2(2) [OF Some refl refl] loop_inv_drop [OF 2(3) Some] show ?thesis by (simp add: Let_def)
  qed
next
  case (3 cid ops ctx)
  show ?case
  proof (cases "map_of (chunks_lineage ctx) cid")
    case None
    then show ?thesis using 3(1) [OF None] loop_inv_skip(2) [OF None 3(3)] by simp
  next
    case (Some l)
    with 3(2) [OF Some] loop_inv_remove [OF 3(3) Some] show ?thesis by (simp add: forget_chunk_def)
  qed
qed simp

text \<open>A physical chunk keeps its entry.\<close>

lemma drop_loop_keeps:
  "loop_inv P ops (chunks_lineage ctx) \<Longrightarrow> cid \<in> P \<Longrightarrow>
    direct_lineage (chunks_lineage (drop_loop ops ctx)) cid = direct_lineage (chunks_lineage ctx) cid"
proof (induction ops ctx rule: drop_loop.induct)
  case (2 c ops ctx)
  show ?case
  proof (cases "map_of (chunks_lineage ctx) c")
    case None
    then show ?thesis using 2(1) [OF None loop_inv_skip(1) [OF None 2(3)] 2(4)] by simp
  next
    case (Some l)
    with 2(2) [OF Some refl refl _ 2(4)] loop_inv_drop [OF 2(3) Some] show ?thesis
      by (simp add: Let_def direct_lineage_def)
  qed
next
  case (3 c ops ctx)
  show ?case
  proof (cases "map_of (chunks_lineage ctx) c")
    case None
    then show ?thesis using 3(1) [OF None loop_inv_skip(2) [OF None 3(3)] 3(4)] by simp
  next
    case (Some l)
    have "ref_count l = 0" using 3(3) Some unfolding loop_inv_def by (meson list.set_intros(1))
    moreover have "phys_refs P c \<le> ref_count l"
      using 3(3) Some unfolding loop_inv_def counted_def by (metis le_add1 le_trans)
    ultimately have "c \<noteq> cid" using 3(4) by (auto simp: phys_refs_def)
    with Some 3(2) [OF Some _ 3(4)] loop_inv_remove [OF 3(3) Some] show ?thesis
      by (simp add: forget_chunk_def direct_lineage_def)
  qed
qed simp

text \<open>Nothing unreferenced is left behind: an entry without references is kept only for a manifest, or
  because one of the siblings it was split with is still referenced.\<close>

definition split_families :: "Lineages \<Rightarrow> bool" where
  "split_families ls \<longleftrightarrow> (\<forall>cid l p sibs. map_of ls cid = Some l \<longrightarrow> direct l = SplitFrom p sibs \<longrightarrow>
     (\<forall>s\<in>set sibs. \<forall>l'. map_of ls s = Some l' \<longrightarrow>
        (\<exists>p' sibs'. direct l' = SplitFrom p' sibs' \<and> insert s (set sibs') = insert cid (set sibs)
           \<and> descends_from_manifest l' = descends_from_manifest l)))"

definition held_by_sibling :: "Lineages \<Rightarrow> TrackedDirectChunkLineage \<Rightarrow> bool" where
  "held_by_sibling ls l \<longleftrightarrow> (\<exists>p sibs. direct l = SplitFrom p sibs \<and> sibling_referenced ls sibs)"

text \<open>\<open>swept G ops ls\<close>: this holds for all entries outside \<open>G\<close>, once the removals in \<open>ops\<close> are done.\<close>

definition swept :: "ChunkId set \<Rightarrow> lineage_op list \<Rightarrow> Lineages \<Rightarrow> bool" where
  "swept G ops ls \<longleftrightarrow> (\<forall>cid l. map_of ls cid = Some l \<longrightarrow> cid \<notin> G \<longrightarrow> ref_count l = 0 \<longrightarrow> \<not> descends_from_manifest l \<longrightarrow>
     Remove cid \<in> set ops \<or> held_by_sibling ls l)"

lemma sibling_referencedI: "s \<in> set sibs \<Longrightarrow> map_of ls s = Some l \<Longrightarrow> 0 < ref_count l \<Longrightarrow> sibling_referenced ls sibs"
  unfolding sibling_referenced_def by (rule bexI [of _ s]) simp_all

lemma sibling_referencedE:
  assumes "sibling_referenced ls sibs"
  obtains s l where "s \<in> set sibs" "map_of ls s = Some l" "0 < ref_count l"
  using assms unfolding sibling_referenced_def by (auto split: option.splits)

lemma split_families_update:
  assumes "split_families ls" "map_of ls cid = Some l" "direct l' = direct l"
    "descends_from_manifest l' = descends_from_manifest l"
  shows "split_families (al_insert cid l' ls)"
  unfolding split_families_def map_of_al_insert
proof (intro allI impI ballI)
  fix c k p sibs s k'
  assume *: "((map_of ls)(cid \<mapsto> l')) c = Some k" "direct k = SplitFrom p sibs" "s \<in> set sibs"
    "((map_of ls)(cid \<mapsto> l')) s = Some k'"
  obtain m where m: "map_of ls c = Some m" "direct m = direct k" "descends_from_manifest m = descends_from_manifest k"
    using *(1) assms by (auto split: if_splits)
  obtain m' where m': "map_of ls s = Some m'" "direct m' = direct k'" "descends_from_manifest m' = descends_from_manifest k'"
    using *(4) assms by (auto split: if_splits)
  from assms(1) m(1) have "\<exists>p' sibs'. direct m' = SplitFrom p' sibs' \<and> insert s (set sibs') = insert c (set sibs)
      \<and> descends_from_manifest m' = descends_from_manifest m"
    unfolding split_families_def using m(2) *(2,3) m'(1) by metis
  with m m' show "\<exists>p' sibs'. direct k' = SplitFrom p' sibs' \<and> insert s (set sibs') = insert c (set sibs)
      \<and> descends_from_manifest k' = descends_from_manifest k" by simp
qed

lemma split_families_remove: "split_families ls \<Longrightarrow> split_families (al_remove cid ls)"
  unfolding split_families_def map_of_al_remove by (metis fun_upd_apply option.distinct(1))

lemma swept_drop:
  assumes sw: "swept G (DropRef cid # ops) ls" and fam: "split_families ls" and l: "map_of ls cid = Some l"
  defines "l' \<equiv> l\<lparr>ref_count := ref_count l - 1\<rparr>"
  defines "ls' \<equiv> al_insert cid l' ls"
  shows "swept G (removals ls' cid l' @ ops) ls'"
  unfolding swept_def
proof (intro allI impI)
  fix c k assume k: "map_of ls' c = Some k" "ref_count k = 0" "\<not> descends_from_manifest k" and G: "c \<notin> G"
  have m: "map_of ls' = (map_of ls)(cid \<mapsto> l')" by (simp add: ls'_def)
  show "Remove c \<in> set (removals ls' cid l' @ ops) \<or> held_by_sibling ls' k"
  proof (cases "c = cid")
    case True
    then have "k = l'" using k(1) m by simp
    with True k show ?thesis
      by (auto simp: removals_def held_by_sibling_def split: ChunkDirectLineage.splits)
  next
    case False
    then have k0: "map_of ls c = Some k" using k(1) m by simp
    from sw k0 k(2,3) G consider "Remove c \<in> set ops" | "held_by_sibling ls k"
      unfolding swept_def by (metis list.set_intros(2) lineage_op.distinct(1) set_ConsD)
    then show ?thesis
    proof cases
      case 2
      then obtain p sibs s ks where sib: "direct k = SplitFrom p sibs" "s \<in> set sibs" "map_of ls s = Some ks" "0 < ref_count ks"
        unfolding held_by_sibling_def by (metis sibling_referencedE)
      show ?thesis
      proof (cases "s = cid \<and> ref_count l' = 0")
        case False
        then have "\<exists>ks'. map_of ls' s = Some ks' \<and> 0 < ref_count ks'" using sib m by auto
        with sib(1,2) show ?thesis unfolding held_by_sibling_def by (metis sibling_referencedI)
      next
        case True
        then have "\<exists>p' sibs'. direct l = SplitFrom p' sibs' \<and> insert cid (set sibs') = insert c (set sibs)
            \<and> descends_from_manifest l = descends_from_manifest k"
          using fam k0 sib(1,2) l unfolding split_families_def by metis
        then obtain p' sibs' where f: "direct l' = SplitFrom p' sibs'" "insert cid (set sibs') = insert c (set sibs)"
          "\<not> descends_from_manifest l'" using k(3) by (auto simp: l'_def)
        show ?thesis
        proof (cases "sibling_referenced ls' sibs'")
          case ref: True
          then obtain s2 k2 where s2: "s2 \<in> set sibs'" "map_of ls' s2 = Some k2" "0 < ref_count k2"
            by (rule sibling_referencedE)
          then have "s2 \<noteq> c" "s2 \<noteq> cid" using k True m by auto
          with f(2) s2 have "s2 \<in> set sibs" by auto
          with s2 sib(1) show ?thesis unfolding held_by_sibling_def by (metis sibling_referencedI)
        next
          case nref: False
          have "c \<in> set sibs'" using f(2) False by blast
          with f nref True show ?thesis by (simp add: removals_def)
        qed
      qed
    qed simp
  qed
qed

lemma swept_remove:
  assumes sw: "swept G (Remove cid # ops) ls" and z: "\<And>l. map_of ls cid = Some l \<Longrightarrow> ref_count l = 0"
  shows "swept G (rev (map DropRef refs) @ ops) (al_remove cid ls)"
  unfolding swept_def map_of_al_remove
proof (intro allI impI)
  fix c k assume k: "((map_of ls)(cid := None)) c = Some k" "ref_count k = 0" "\<not> descends_from_manifest k" and G: "c \<notin> G"
  then have c: "c \<noteq> cid" "map_of ls c = Some k" by (auto split: if_splits)
  with sw k G consider "Remove c \<in> set ops" | "held_by_sibling ls k"
    unfolding swept_def by (metis lineage_op.inject(2) set_ConsD)
  then show "Remove c \<in> set (rev (map DropRef refs) @ ops) \<or> held_by_sibling (al_remove cid ls) k"
  proof cases
    case 2
    then obtain p sibs s ks where sib: "direct k = SplitFrom p sibs" "s \<in> set sibs" "map_of ls s = Some ks" "0 < ref_count ks"
      unfolding held_by_sibling_def by (metis sibling_referencedE)
    then have "map_of (al_remove cid ls) s = Some ks" using z by auto
    with sib show ?thesis unfolding held_by_sibling_def by (metis sibling_referencedI)
  qed simp
qed

lemma drop_loop_swept:
  "loop_inv P ops (chunks_lineage ctx) \<Longrightarrow> split_families (chunks_lineage ctx) \<Longrightarrow> swept G ops (chunks_lineage ctx) \<Longrightarrow>
    swept G [] (chunks_lineage (drop_loop ops ctx)) \<and> split_families (chunks_lineage (drop_loop ops ctx))"
proof (induction ops ctx rule: drop_loop.induct)
  case (2 cid ops ctx)
  show ?case
  proof (cases "map_of (chunks_lineage ctx) cid")
    case None
    have "swept G ops (chunks_lineage ctx)" using 2(5) unfolding swept_def by auto
    then show ?thesis using 2(1) [OF None loop_inv_skip(1) [OF None 2(3)] 2(4)] None by simp
  next
    case (Some l)
    show ?thesis
      using 2(2) [OF Some refl refl] Some loop_inv_drop [OF 2(3) Some] swept_drop [OF 2(5,4) Some]
        split_families_update [OF 2(4) Some, of "l\<lparr>ref_count := ref_count l - 1\<rparr>"]
      by (simp add: Let_def)
  qed
next
  case (3 cid ops ctx)
  have z: "ref_count l = 0" if "map_of (chunks_lineage ctx) cid = Some l" for l
    using 3(3) that unfolding loop_inv_def by (meson list.set_intros(1))
  show ?case
  proof (cases "map_of (chunks_lineage ctx) cid")
    case None
    have "swept G ops (chunks_lineage ctx)"
      using 3(5) None unfolding swept_def by (metis lineage_op.inject(2) option.distinct(1) set_ConsD)
    then show ?thesis using 3(1) [OF None loop_inv_skip(2) [OF None 3(3)] 3(4)] None by simp
  next
    case (Some l)
    show ?thesis
      using 3(2) [OF Some] Some loop_inv_remove [OF 3(3) Some] swept_remove [OF 3(5) z]
        split_families_remove [OF 3(4)] by (simp add: forget_chunk_def)
  qed
qed simp

text \<open>What is removed is not needed: it does not descend from a manifest and no sibling of it is referenced.
  References and entries only become fewer, so this stays true.\<close>

definition fewer :: "Lineages \<Rightarrow> Lineages \<Rightarrow> bool" where
  "fewer ls ls' \<longleftrightarrow> (\<forall>c l'. map_of ls' c = Some l' \<longrightarrow> (\<exists>l. map_of ls c = Some l \<and> direct l' = direct l
     \<and> descends_from_manifest l' = descends_from_manifest l \<and> ref_count l' \<le> ref_count l))"

definition dispensable :: "Lineages \<Rightarrow> TrackedDirectChunkLineage \<Rightarrow> bool" where
  "dispensable ls l \<longleftrightarrow> \<not> descends_from_manifest l \<and> \<not> held_by_sibling ls l"

definition removable :: "lineage_op list \<Rightarrow> Lineages \<Rightarrow> bool" where
  "removable ops ls \<longleftrightarrow> (\<forall>c l. Remove c \<in> set ops \<longrightarrow> map_of ls c = Some l \<longrightarrow> dispensable ls l)"

definition lost_ok :: "Lineages \<Rightarrow> Lineages \<Rightarrow> bool" where
  "lost_ok ls0 ls \<longleftrightarrow> (\<forall>c l. map_of ls0 c = Some l \<longrightarrow> map_of ls c = None \<longrightarrow> dispensable ls l)"

lemma fewerE:
  assumes "fewer ls ls'" "map_of ls' c = Some l'"
  obtains l where "map_of ls c = Some l" "direct l' = direct l" "descends_from_manifest l' = descends_from_manifest l"
    "ref_count l' \<le> ref_count l"
  using assms unfolding fewer_def by blast

lemma fewer_trans: "fewer ls0 ls1 \<Longrightarrow> fewer ls1 ls2 \<Longrightarrow> fewer ls0 ls2"
  unfolding fewer_def [of ls0 ls2]
proof (intro allI impI)
  fix c l'' assume fw: "fewer ls0 ls1" "fewer ls1 ls2" and c: "map_of ls2 c = Some l''"
  obtain l' where l': "map_of ls1 c = Some l'" "direct l'' = direct l'"
    "descends_from_manifest l'' = descends_from_manifest l'" "ref_count l'' \<le> ref_count l'" by (rule fewerE [OF fw(2) c])
  obtain l where "map_of ls0 c = Some l" "direct l' = direct l"
    "descends_from_manifest l' = descends_from_manifest l" "ref_count l' \<le> ref_count l" by (rule fewerE [OF fw(1) l'(1)])
  then show "\<exists>l. map_of ls0 c = Some l \<and> direct l'' = direct l
      \<and> descends_from_manifest l'' = descends_from_manifest l \<and> ref_count l'' \<le> ref_count l"
    using l' by (intro exI [of _ l]) simp
qed

lemma fewer_drop: "map_of ls cid = Some l \<Longrightarrow> fewer ls (al_insert cid (l\<lparr>ref_count := ref_count l - 1\<rparr>) ls)"
  by (simp add: fewer_def)

lemma fewer_remove: "fewer ls (al_remove cid ls)"
  by (simp add: fewer_def map_of_al_remove)

lemma dispensable_fewer:
  assumes "fewer ls ls'" "dispensable ls l"
  shows "dispensable ls' l"
proof -
  have "sibling_referenced ls sibs" if "sibling_referenced ls' sibs" for sibs
    using that by (rule sibling_referencedE) (metis assms(1) fewerE order_less_le_trans sibling_referencedI)
  then show ?thesis using assms(2) unfolding dispensable_def held_by_sibling_def by blast
qed

lemma dispensable_cong:
  "direct l' = direct l \<Longrightarrow> descends_from_manifest l' = descends_from_manifest l \<Longrightarrow> dispensable ls l' = dispensable ls l"
  by (simp add: dispensable_def held_by_sibling_def)

lemma removable_fewer:
  assumes "fewer ls ls'" "removable ops ls"
  shows "removable ops ls'"
  unfolding removable_def
proof (intro allI impI)
  fix c l' assume c: "Remove c \<in> set ops" "map_of ls' c = Some l'"
  obtain l where l: "map_of ls c = Some l" "direct l' = direct l" "descends_from_manifest l' = descends_from_manifest l"
    using fewerE [OF assms(1) c(2)] by metis
  then have "dispensable ls l" using assms(2) c(1) unfolding removable_def by blast
  then show "dispensable ls' l'" using dispensable_fewer [OF assms(1)] dispensable_cong [OF l(2,3)] by blast
qed

lemma removals_removable:
  assumes fam: "split_families ls" and l: "map_of ls cid = Some l"
  shows "removable (removals ls cid l) ls"
proof (cases "descends_from_manifest l \<or> 0 < ref_count l")
  case False
  show ?thesis
  proof (cases "direct l")
    case (SplitFrom p sibs)
    show ?thesis
    proof (cases "sibling_referenced ls sibs")
      case nref: False
      have "dispensable ls k" if c: "c \<in> insert cid (set sibs)" "map_of ls c = Some k" for c k
      proof -
        obtain p' sibs' where f: "direct k = SplitFrom p' sibs'" "insert c (set sibs') = insert cid (set sibs)"
          "descends_from_manifest k = descends_from_manifest l"
        proof (cases "c \<in> set sibs")
          case True
          then show ?thesis using fam l SplitFrom c(2) that unfolding split_families_def by metis
        next
          case False
          then show ?thesis using c l SplitFrom that [of p sibs] by simp
        qed
        have "\<not> sibling_referenced ls sibs'"
        proof
          assume "sibling_referenced ls sibs'"
          then obtain s m where s: "s \<in> set sibs'" "map_of ls s = Some m" "0 < ref_count m" by (rule sibling_referencedE)
          have "s \<noteq> cid" using s(2,3) l False by auto
          then have "s \<in> set sibs" using f(2) s(1) by blast
          then show False using sibling_referencedI [OF _ s(2,3)] nref by blast
        qed
        then show ?thesis using f False by (simp add: dispensable_def held_by_sibling_def)
      qed
      moreover have "removals ls cid l = Remove cid # rev (map Remove sibs)" using False SplitFrom nref by (simp add: removals_def)
      ultimately show ?thesis unfolding removable_def by auto
    qed (use False SplitFrom in \<open>simp add: removable_def removals_def\<close>)
  qed (use False l in \<open>auto simp: removable_def removals_def dispensable_def held_by_sibling_def\<close>)
qed (simp add: removable_def removals_def)

lemma lost_remove:
  assumes "lost_ok ls0 ls" "fewer ls0 ls" "map_of ls cid = Some l" "dispensable ls l"
  shows "lost_ok ls0 (al_remove cid ls)"
  unfolding lost_ok_def
proof (intro allI impI)
  fix c k assume c: "map_of ls0 c = Some k" "map_of (al_remove cid ls) c = None"
  have "dispensable ls k"
  proof (cases "c = cid")
    case True
    obtain k' where k': "map_of ls0 cid = Some k'" "direct l = direct k'" "descends_from_manifest l = descends_from_manifest k'"
      by (rule fewerE [OF assms(2,3)])
    then have "k' = k" using c(1) True by simp
    then show ?thesis using dispensable_cong [OF k'(2,3)] assms(4) by simp
  next
    case False
    then have "map_of ls c = None" using c(2) by (simp add: map_of_al_remove)
    then show ?thesis using c(1) assms(1) unfolding lost_ok_def by blast
  qed
  then show "dispensable (al_remove cid ls) k" by (rule dispensable_fewer [OF fewer_remove])
qed

lemma lost_fewer:
  assumes "lost_ok ls0 ls" "fewer ls ls'" "dom (map_of ls) \<subseteq> dom (map_of ls')"
  shows "lost_ok ls0 ls'"
  unfolding lost_ok_def
proof (intro allI impI)
  fix c l assume c: "map_of ls0 c = Some l" "map_of ls' c = None"
  have "map_of ls c = None" using assms(3) c(2) by (metis domIff subsetD)
  then have "dispensable ls l" using assms(1) c(1) by (simp add: lost_ok_def)
  then show "dispensable ls' l" by (rule dispensable_fewer [OF assms(2)])
qed

lemma drop_loop_lost:
  "split_families (chunks_lineage ctx) \<Longrightarrow> removable ops (chunks_lineage ctx) \<Longrightarrow>
    fewer ls0 (chunks_lineage ctx) \<Longrightarrow> lost_ok ls0 (chunks_lineage ctx) \<Longrightarrow>
    fewer ls0 (chunks_lineage (drop_loop ops ctx)) \<and> lost_ok ls0 (chunks_lineage (drop_loop ops ctx))"
proof (induction ops ctx rule: drop_loop.induct)
  case (2 cid ops ctx)
  have ops: "removable ops (chunks_lineage ctx)" using 2(4) unfolding removable_def by auto
  show ?case
  proof (cases "map_of (chunks_lineage ctx) cid")
    case None
    then show ?thesis using 2(1) [OF None 2(3) ops 2(5,6)] by simp
  next
    case (Some l)
    let ?l = "l\<lparr>ref_count := ref_count l - 1\<rparr>"
    let ?ls = "al_insert cid ?l (chunks_lineage ctx)"
    have fw: "fewer (chunks_lineage ctx) ?ls" by (rule fewer_drop [OF Some])
    have fam: "split_families ?ls" using split_families_update [OF 2(3) Some, of ?l] by simp
    have "removable (removals ?ls cid ?l @ ops) ?ls"
      using removals_removable [OF fam, of cid ?l] removable_fewer [OF fw ops] by (auto simp: removable_def)
    moreover have "lost_ok ls0 ?ls" by (rule lost_fewer [OF 2(6) fw]) auto
    ultimately show ?thesis using 2(2) [OF Some refl refl] Some fam fewer_trans [OF 2(5) fw] by (simp add: Let_def)
  qed
next
  case (3 cid ops ctx)
  have ops: "removable ops (chunks_lineage ctx)" using 3(4) unfolding removable_def by auto
  show ?case
  proof (cases "map_of (chunks_lineage ctx) cid")
    case None
    then show ?thesis using 3(1) [OF None 3(3) ops 3(5,6)] by simp
  next
    case (Some l)
    have "dispensable (chunks_lineage ctx) l" using 3(4) Some unfolding removable_def by (meson list.set_intros(1))
    then have "lost_ok ls0 (al_remove cid (chunks_lineage ctx))" by (rule lost_remove [OF 3(6,5) Some])
    moreover have "removable (rev (map DropRef (iter_referenced_chunks (direct l))) @ ops) (al_remove cid (chunks_lineage ctx))"
      using removable_fewer [OF fewer_remove ops] by (auto simp: removable_def)
    ultimately show ?thesis
      using 3(2) [OF Some] Some split_families_remove [OF 3(3)] fewer_trans [OF 3(5) fewer_remove] by (simp add: forget_chunk_def)
  qed
qed simp

section \<open>Adding entries\<close>

lemma add_references:
  "map_of (fold add_reference refs ls) c = map_option (\<lambda>l. l\<lparr>ref_count := ref_count l + count_list refs c\<rparr>) (map_of ls c)
    \<and> referenced_by (fold add_reference refs ls) c = referenced_by ls c
    \<and> map fst (fold add_reference refs ls) = map fst ls"
proof (induction refs arbitrary: ls)
  case (Cons r refs)
  have keys: "map fst (al_insert r l ls) = map fst ls" if "map_of ls r \<noteq> None" for l
    using that by (induction ls) (auto split: if_splits)
  show ?case
    using Cons [of "add_reference r ls"] keys
    by (cases "map_of ls r"; cases "map_of ls c")
      (auto simp: add_reference_def referenced_by_update)
qed (simp add: map_option.identity option.map_ident)

lemma insert_lineage_inv:
  assumes inv: "lineage_inv ls P" and refs: "\<forall>r\<in>set (iter_referenced_chunks lineage). map_of ls r \<noteq> None"
  shows "lineage_inv (insert_lineage_if_missing cid lineage ls) P"
proof (cases "map_of ls cid")
  case None
  let ?e = "\<lparr>direct = lineage, ref_count = 0, descends_from_manifest = lineage_from_manifest ls lineage\<rparr>"
  let ?refs = "iter_referenced_chunks lineage"
  let ?ls = "fold add_reference ?refs (al_insert cid ?e ls)"
  have dist: "distinct (map fst ls)" and cl: "closed_refs ls" and cnt: "counted ls (phys_refs P)"
    and P: "P \<subseteq> fst ` set ls" using inv by (auto simp: lineage_inv_def)
  have ref: "referenced_by ?ls c = count_list ?refs c + referenced_by ls c" for c
    using referenced_by_new [OF None, of ?e] by (simp add: add_references)
  have m: "map_of ?ls c = (if c = cid then Some (?e\<lparr>ref_count := count_list ?refs c\<rparr>)
      else map_option (\<lambda>l. l\<lparr>ref_count := ref_count l + count_list ?refs c\<rparr>) (map_of ls c))" for c
    by (simp add: add_references)
  have z: "referenced_by ls cid = 0" using referenced_by_absent [OF dist cl None] .
  have "cid \<notin> P" using None P by (auto simp: map_of_eq_None_iff)
  then have "counted ?ls (phys_refs P)"
    using cnt unfolding counted_def m ref by (auto simp: z phys_refs_def split: if_splits)
  moreover have "closed_refs ?ls"
    using cl refs unfolding closed_refs_def m by (fastforce split: if_splits)
  moreover have "distinct (map fst ?ls)" using dist by (simp add: add_references distinct_al_insert)
  moreover have "P \<subseteq> fst ` set ?ls"
    using P keys_al_insert [of cid ?e ls] add_references [of ?refs "al_insert cid ?e ls"]
    by (metis (no_types, lifting) list.set_map subset_insertI2)
  ultimately show ?thesis using None by (simp add: insert_lineage_if_missing_def lineage_inv_def)
next
  case (Some l)
  with inv show ?thesis by (simp add: insert_lineage_if_missing_def)
qed

text \<open>A new entry keeps the families of splits when it fits those that name it and those it names; so does a
  chunk that was not split and that no split names, and so do the pieces of one split, one after the
  other.\<close>

definition same_family :: "ChunkId \<Rightarrow> TrackedDirectChunkLineage \<Rightarrow> ChunkId \<Rightarrow> TrackedDirectChunkLineage \<Rightarrow> bool" where
  "same_family c k s l \<longleftrightarrow> (\<exists>p sibs p' sibs'. direct k = SplitFrom p sibs \<and> direct l = SplitFrom p' sibs'
     \<and> insert s (set sibs') = insert c (set sibs) \<and> descends_from_manifest l = descends_from_manifest k)"

definition names :: "TrackedDirectChunkLineage \<Rightarrow> ChunkId \<Rightarrow> bool" where
  "names k s \<longleftrightarrow> (\<exists>p sibs. direct k = SplitFrom p sibs \<and> s \<in> set sibs)"

lemma split_families_iff:
  "split_families ls \<longleftrightarrow> (\<forall>c k s l. map_of ls c = Some k \<longrightarrow> names k s \<longrightarrow> map_of ls s = Some l \<longrightarrow> same_family c k s l)"
proof (intro iffI allI impI)
  fix c k s l assume f: "split_families ls" and *: "map_of ls c = Some k" "names k s" "map_of ls s = Some l"
  obtain p sibs where d: "direct k = SplitFrom p sibs" "s \<in> set sibs" using *(2) unfolding names_def by blast
  obtain p' sibs' where "direct l = SplitFrom p' sibs'" "insert s (set sibs') = insert c (set sibs)"
    "descends_from_manifest l = descends_from_manifest k"
    using f [unfolded split_families_def, rule_format, OF *(1) d *(3)] by blast
  then show "same_family c k s l" unfolding same_family_def using d(1) by blast
next
  assume f: "\<forall>c k s l. map_of ls c = Some k \<longrightarrow> names k s \<longrightarrow> map_of ls s = Some l \<longrightarrow> same_family c k s l"
  show "split_families ls"
    unfolding split_families_def
  proof (intro allI impI ballI)
    fix c k p sibs s l assume *: "map_of ls c = Some k" "direct k = SplitFrom p sibs" "s \<in> set sibs" "map_of ls s = Some l"
    then have "same_family c k s l" using f unfolding names_def by blast
    then show "\<exists>p' sibs'. direct l = SplitFrom p' sibs' \<and> insert s (set sibs') = insert c (set sibs)
        \<and> descends_from_manifest l = descends_from_manifest k" unfolding same_family_def using *(2) by auto
  qed
qed

lemma names_cong:
  assumes "direct l' = direct l" "descends_from_manifest l' = descends_from_manifest l"
  shows "names l' s = names l s" "same_family c l' s k = same_family c l s k" "same_family s k c l' = same_family s k c l"
  using assms by (simp_all add: names_def same_family_def)

lemma split_families_insert:
  fixes lineage :: ChunkDirectLineage
  assumes fam: "split_families ls" and new: "map_of ls cid = None"
  defines "e \<equiv> \<lparr>direct = lineage, ref_count = 0, descends_from_manifest = lineage_from_manifest ls lineage\<rparr>"
  assumes named: "\<And>c k. map_of ls c = Some k \<Longrightarrow> names k cid \<Longrightarrow> same_family c k cid e"
    and names_others: "\<And>s l. names e s \<Longrightarrow> map_of ls s = Some l \<Longrightarrow> same_family cid e s l"
    and self: "names e cid \<Longrightarrow> same_family cid e cid e"
  shows "split_families (insert_lineage_if_missing cid lineage ls)"
proof -
  let ?ls = "fold add_reference (iter_referenced_chunks lineage) (al_insert cid e ls)"
  have same: "\<exists>m. ((map_of ls)(cid \<mapsto> e)) c = Some m \<and> direct k = direct m \<and> descends_from_manifest k = descends_from_manifest m"
    if k: "map_of ?ls c = Some k" for c k
  proof -
    have "map_option (\<lambda>l. l\<lparr>ref_count := ref_count l + count_list (iter_referenced_chunks lineage) c\<rparr>) (((map_of ls)(cid \<mapsto> e)) c) = Some k"
      using k add_references [of "iter_referenced_chunks lineage" "al_insert cid e ls" c] by simp
    then obtain m where "((map_of ls)(cid \<mapsto> e)) c = Some m" "k = m\<lparr>ref_count := ref_count m + count_list (iter_referenced_chunks lineage) c\<rparr>"
      unfolding map_option_eq_Some by blast
    then show ?thesis by simp
  qed
  have base: "same_family c k s l"
    if "((map_of ls)(cid \<mapsto> e)) c = Some k" "names k s" "((map_of ls)(cid \<mapsto> e)) s = Some l" for c k s l
    using that fam [unfolded split_families_iff] named names_others self by (cases "c = cid"; cases "s = cid") auto
  have "split_families ?ls"
    unfolding split_families_iff
  proof (intro allI impI)
    fix c k s l assume *: "map_of ?ls c = Some k" "names k s" "map_of ?ls s = Some l"
    obtain k0 where k0: "((map_of ls)(cid \<mapsto> e)) c = Some k0" "direct k = direct k0" "descends_from_manifest k = descends_from_manifest k0"
      using same [OF *(1)] by blast
    obtain l0 where l0: "((map_of ls)(cid \<mapsto> e)) s = Some l0" "direct l = direct l0" "descends_from_manifest l = descends_from_manifest l0"
      using same [OF *(3)] by blast
    have "same_family c k0 s l0" using base [OF k0(1) _ l0(1)] *(2) names_cong(1) [OF k0(2,3)] by simp
    then show "same_family c k s l" using names_cong [OF k0(2,3)] names_cong [OF l0(2,3)] by simp
  qed
  then show ?thesis using new by (simp add: insert_lineage_if_missing_def e_def)
qed

lemma split_families_root:
  assumes "split_families ls" "\<And>p sibs. lineage \<noteq> SplitFrom p sibs" "\<And>c k. map_of ls c = Some k \<Longrightarrow> \<not> names k cid"
  shows "split_families (insert_lineage_if_missing cid lineage ls)"
proof (cases "map_of ls cid")
  case None
  then show ?thesis using assms by (intro split_families_insert) (auto simp: names_def)
qed (use assms(1) in \<open>simp add: insert_lineage_if_missing_def\<close>)

text \<open>A physical chunk takes one reference on its own entry.\<close>

lemma add_physical_reference:
  assumes "lineage_inv ls P" "map_of ls cid \<noteq> None" "cid \<notin> P"
  shows "lineage_inv (add_reference cid ls) (insert cid P)"
proof -
  have a: "map_of (add_reference cid ls) c = map_option (\<lambda>l. l\<lparr>ref_count := ref_count l + count_list [cid] c\<rparr>) (map_of ls c)"
    "referenced_by (add_reference cid ls) c = referenced_by ls c"
    "map fst (add_reference cid ls) = map fst ls" for c
    using add_references [of "[cid]" ls c] by simp_all
  have "counted (add_reference cid ls) (phys_refs (insert cid P))"
    using assms(1,3) unfolding lineage_inv_def counted_def a by (auto simp: phys_refs_def)
  moreover have "closed_refs (add_reference cid ls)"
    using assms(1) unfolding lineage_inv_def closed_refs_def a by fastforce
  moreover have "insert cid P \<subseteq> fst ` set (add_reference cid ls)"
    using assms(1,2) a(3) by (metis image_set insert_subset lineage_inv_def map_of_eq_None_iff)
  ultimately show ?thesis using assms(1) by (simp add: lineage_inv_def a)
qed

section \<open>Walks up the lineage\<close>

text \<open>A lineage without cycles: some rank decreases from every chunk to the chunks it was made from.\<close>

definition ranked :: "(ChunkId \<Rightarrow> nat) \<Rightarrow> Lineages \<Rightarrow> bool" where
  "ranked rank ls \<longleftrightarrow> (\<forall>cid l. map_of ls cid = Some l \<longrightarrow>
     (\<forall>r\<in>set (iter_referenced_chunks (direct l)). rank r < rank cid))"

lemma ranked_direct:
  "ranked rank ls \<Longrightarrow> direct_lineage ls cid = Some d \<Longrightarrow> r \<in> set (iter_referenced_chunks d) \<Longrightarrow> rank r < rank cid"
  by (auto simp: ranked_def direct_lineage_def)

lemma descends_from_a_compaction_returns:
  assumes "ranked rank ls" shows "\<exists>b. descends_from_a_compaction ls cid = Some b"
proof (induction "rank cid" arbitrary: cid rule: less_induct)
  case less
  show ?case
  proof (cases "direct_lineage ls cid")
    case None
    then show ?thesis by (intro exI [of _ False]) (simp add: descends_from_a_compaction.simps)
  next
    case (Some d)
    show ?thesis
    proof (cases d)
      case (SplitFrom p sibs)
      then have "rank p < rank cid" using ranked_direct [OF assms Some] by simp
      then obtain b where "descends_from_a_compaction ls p = Some b" using less by blast
      with Some SplitFrom show ?thesis by (subst descends_from_a_compaction.simps) simp
    qed (use Some in \<open>auto simp: descends_from_a_compaction.simps [of ls cid]\<close>)
  qed
qed

definition roots_of :: "Lineages \<Rightarrow> (ChunkId \<times> ChunkId) set" where
  "roots_of ls = {(c, r). \<exists>d. direct_lineage ls c = Some d \<and> r \<in> set (iter_referenced_chunks d)}"

lemma collect_root_ids_Cons:
  "collect_root_ids ls (cid # todo) roots =
    (case direct_lineage ls cid of
       None \<Rightarrow> collect_root_ids ls todo roots
     | Some d \<Rightarrow> if is_root_chunk ls cid then collect_root_ids ls todo (roots @ [cid])
         else collect_root_ids ls (iter_referenced_chunks d @ todo) roots)"
  by (subst collect_root_ids.simps)
    (simp add: is_root_chunk_def split: option.split ChunkDirectLineage.split)

definition known_roots :: "Lineages \<Rightarrow> ChunkId \<Rightarrow> ChunkId set" where
  "known_roots ls cid = {r. (cid, r) \<in> (roots_of ls)\<^sup>* \<and> map_of ls r \<noteq> None \<and> is_root_chunk ls r}"

lemma known_roots_unfold:
  "known_roots ls cid = (if map_of ls cid \<noteq> None \<and> is_root_chunk ls cid then {cid} else {})
    \<union> (\<Union>c\<in>{c. (cid, c) \<in> roots_of ls}. known_roots ls c)" (is "?A = ?B")
proof (intro equalityI subsetI)
  fix x assume x: "x \<in> ?A"
  then have "(cid, x) \<in> (roots_of ls)\<^sup>*" by (simp add: known_roots_def)
  then show "x \<in> ?B" by (cases rule: converse_rtranclE) (use x in \<open>auto simp: known_roots_def\<close>)
next
  fix x assume "x \<in> ?B"
  then show "x \<in> ?A"
    unfolding known_roots_def by (auto intro: converse_rtrancl_into_rtrancl split: if_splits)
qed

text \<open>Walking one chunk appends its roots: the chunks reachable over the links that are roots
  themselves.\<close>

lemma collect_root_ids_walk:
  assumes "ranked rank ls"
  shows "\<exists>rs. (\<forall>todo roots. collect_root_ids ls (cid # todo) roots = collect_root_ids ls todo (roots @ rs))
    \<and> set rs = known_roots ls cid"
proof (induction "rank cid" arbitrary: cid rule: less_induct)
  case less
  have many: "\<exists>rs. (\<forall>todo roots. collect_root_ids ls (cs @ todo) roots = collect_root_ids ls todo (roots @ rs))
      \<and> set rs = (\<Union>c\<in>set cs. known_roots ls c)" if "\<forall>c\<in>set cs. rank c < rank cid" for cs
    using that
  proof (induction cs)
    case (Cons c cs)
    then obtain rs1 where 1: "\<forall>todo roots. collect_root_ids ls (cs @ todo) roots = collect_root_ids ls todo (roots @ rs1)"
      "set rs1 = (\<Union>c\<in>set cs. known_roots ls c)" by auto
    obtain rs2 where 2: "\<forall>todo roots. collect_root_ids ls (c # todo) roots = collect_root_ids ls todo (roots @ rs2)"
      "set rs2 = known_roots ls c" using less [of c] Cons.prems by auto
    show ?case by (rule exI [of _ "rs2 @ rs1"]) (simp add: 1 2)
  qed simp
  show ?case
  proof (cases "direct_lineage ls cid")
    case None
    then have "known_roots ls cid = {}"
      by (subst known_roots_unfold) (auto simp: roots_of_def direct_lineage_def)
    with None show ?thesis by (intro exI [of _ "[]"]) (simp add: collect_root_ids_Cons)
  next
    case (Some d)
    have succ: "{c. (cid, c) \<in> roots_of ls} = set (iter_referenced_chunks d)" using Some by (auto simp: roots_of_def)
    have known: "map_of ls cid \<noteq> None" using Some by (auto simp: direct_lineage_def)
    show ?thesis
    proof (cases "is_root_chunk ls cid")
      case True
      then have "iter_referenced_chunks d = []" using Some by (cases d) (auto simp: is_root_chunk_def)
      then have "known_roots ls cid = {cid}" using True known by (subst known_roots_unfold) (simp add: succ)
      with Some True show ?thesis by (intro exI [of _ "[cid]"]) (simp add: collect_root_ids_Cons)
    next
      case False
      have "\<forall>c\<in>set (iter_referenced_chunks d). rank c < rank cid" using ranked_direct [OF assms Some] by simp
      then obtain rs where rs: "\<And>todo roots. collect_root_ids ls (iter_referenced_chunks d @ todo) roots = collect_root_ids ls todo (roots @ rs)"
        "set rs = (\<Union>c\<in>set (iter_referenced_chunks d). known_roots ls c)"
        using many by meson
      have "known_roots ls cid = set rs" using False by (subst known_roots_unfold) (simp add: succ rs(2))
      with False Some show ?thesis by (intro exI [of _ rs]) (simp add: collect_root_ids_Cons rs(1))
    qed
  qed
qed

section \<open>Properties\<close>

lemma physical_loop_inv:
  assumes "lineage_inv ls P" "cid \<in> P"
  shows "loop_inv (P - {cid}) [DropRef cid] ls"
proof -
  have "phys_refs P c = phys_refs (P - {cid}) c + pending_drops [DropRef cid] c" for c
    using assms(2) by (auto simp: phys_refs_def)
  then show ?thesis using assms(1) unfolding lineage_inv_def loop_inv_def counted_def by simp
qed

lemma drop_reference_inv:
  assumes inv: "lineage_inv (chunks_lineage ctx) P" and cid: "cid \<in> P"
  shows "lineage_inv (chunks_lineage (drop_lineage_reference cid ctx)) (P - {cid})" (is "lineage_inv ?ls' _")
    "\<And>c. c \<in> P - {cid} \<Longrightarrow> direct_lineage (chunks_lineage (drop_lineage_reference cid ctx)) c
       = direct_lineage (chunks_lineage ctx) c"
proof -
  note L = physical_loop_inv [OF assms]
  show keep: "\<And>c. c \<in> P - {cid} \<Longrightarrow> direct_lineage ?ls' c = direct_lineage (chunks_lineage ctx) c"
    unfolding drop_lineage_reference_def by (rule drop_loop_keeps [OF L])
  have "P - {cid} \<subseteq> fst ` set ?ls'"
  proof
    fix c assume c: "c \<in> P - {cid}"
    then have "map_of (chunks_lineage ctx) c \<noteq> None"
      using inv unfolding lineage_inv_def map_of_eq_None_iff by auto
    then have "map_of ?ls' c \<noteq> None" using keep [OF c] by (auto simp: direct_lineage_def)
    then show "c \<in> fst ` set ?ls'" by (simp add: map_of_eq_None_iff)
  qed
  moreover have "loop_inv (P - {cid}) [] ?ls'"
    unfolding drop_lineage_reference_def by (rule drop_loop_inv [OF L])
  ultimately show "lineage_inv ?ls' (P - {cid})" by (simp add: loop_inv_def lineage_inv_def)
qed

text \<open>Entries only disappear, and a volatile chunk that nothing was made from disappears itself.\<close>

lemma drop_loop_preserves:
  assumes "Inv ctx"
    and "\<And>ctx cid l. Inv ctx \<Longrightarrow> map_of (chunks_lineage ctx) cid = Some l \<Longrightarrow>
      Inv (ctx\<lparr>chunks_lineage := al_insert cid (l\<lparr>ref_count := ref_count l - 1\<rparr>) (chunks_lineage ctx)\<rparr>)"
    and "\<And>ctx cid. Inv ctx \<Longrightarrow> Inv (forget_chunk cid ctx)"
  shows "Inv (drop_loop ops ctx)"
  using assms(1)
proof (induction ops ctx rule: drop_loop.induct)
  case (2 cid ops ctx)
  show ?case
  proof (cases "map_of (chunks_lineage ctx) cid")
    case (Some l)
    with 2(2) [OF Some refl refl] assms(2) [OF 2(3) Some] show ?thesis by (simp add: Let_def)
  qed (use 2 in simp)
next
  case (3 cid ops ctx)
  show ?case
  proof (cases "map_of (chunks_lineage ctx) cid")
    case (Some l)
    with 3(2) [OF Some] assms(3) [OF 3(3)] show ?thesis by simp
  qed (use 3 in simp)
qed simp

lemma drop_loop_shrinks:
  "map_of (chunks_lineage ctx) c = None \<Longrightarrow> map_of (chunks_lineage (drop_loop ops ctx)) c = None"
  by (rule drop_loop_preserves) (auto simp: forget_chunk_def)

lemma drop_loop_lineage_cong:
  "chunks_lineage ctx = chunks_lineage ctx' \<Longrightarrow> chunks_lineage (drop_loop ops ctx) = chunks_lineage (drop_loop ops ctx')"
proof (induction ops ctx arbitrary: ctx' rule: drop_loop.induct)
  case (2 cid ops ctx)
  show ?case
  proof (cases "map_of (chunks_lineage ctx) cid")
    case (Some l)
    with 2(2) [OF Some refl refl, of "ctx'\<lparr>chunks_lineage := al_insert cid (l\<lparr>ref_count := ref_count l - 1\<rparr>) (chunks_lineage ctx')\<rparr>"] 2(3)
    show ?thesis by (simp add: Let_def)
  qed (use 2 in simp)
next
  case (3 cid ops ctx)
  show ?case
  proof (cases "map_of (chunks_lineage ctx) cid")
    case (Some l)
    with 3(2) [OF Some, of "forget_chunk cid ctx'"] 3(3) show ?thesis by (simp add: forget_chunk_def)
  qed (use 3 in simp)
qed simp

lemma drop_reference_volatile:
  assumes "map_of (chunks_lineage ctx) cid = Some l" "direct l = Volatile" "\<not> descends_from_manifest l" "ref_count l \<le> 1"
  shows "map_of (chunks_lineage (drop_lineage_reference cid ctx)) cid = None"
  using assms by (simp add: drop_lineage_reference_def removals_def Let_def forget_chunk_def drop_loop_shrinks)

text \<open>Who needs the entry \<open>l\<close> of a chunk: the chunk itself in memory, an entry made from it, a manifest it
  descends from, or a chunk it was split with that is still referenced.\<close>

definition needed :: "Lineages \<Rightarrow> ChunkId set \<Rightarrow> ChunkId \<Rightarrow> TrackedDirectChunkLineage \<Rightarrow> bool" where
  "needed ls P cid l \<longleftrightarrow> cid \<in> P \<or> 0 < referenced_by ls cid \<or> descends_from_manifest l \<or> held_by_sibling ls l"

lemma needed_cong:
  "direct l' = direct l \<Longrightarrow> descends_from_manifest l' = descends_from_manifest l \<Longrightarrow> needed ls P cid l' = needed ls P cid l"
  by (simp add: needed_def held_by_sibling_def)

lemma swept_initially:
  assumes "lineage_inv ls P"
  shows "swept {c. \<exists>l. map_of ls c = Some l \<and> \<not> needed ls P c l} [] ls"
  unfolding swept_def
proof (intro allI impI)
  fix c l assume l: "map_of ls c = Some l" "c \<notin> {c. \<exists>l. map_of ls c = Some l \<and> \<not> needed ls P c l}"
    "ref_count l = 0" "\<not> descends_from_manifest l"
  have "c \<notin> P" "referenced_by ls c = 0"
    using assms l(1,3) unfolding lineage_inv_def counted_def phys_refs_def by (auto split: if_splits)
  moreover have "needed ls P c l" using l(1,2) by blast
  ultimately show "Remove c \<in> set [] \<or> held_by_sibling ls l" using l(4) by (simp add: needed_def)
qed

text \<open>C13: dropping the physical reference of a chunk frees exactly what nobody needs any more. The loop ends;
  the reference counts stay exact for the remaining physical chunks, and no link is left dangling. Every
  entry that is needed afterwards is kept: by a chunk in memory, by an entry made from it, by a manifest
  it descends from, or by a referenced chunk it was split with. Every entry that was needed before and is
  not any more is removed. What is kept is unchanged but for its reference count. The entries of one
  split are to name each other and to agree on whether they descend from a manifest (\<open>split_families\<close>).\<close>

theorem drop_lineage_reference_exact:
  assumes inv: "lineage_inv (chunks_lineage ctx) P" and cid: "cid \<in> P" and fam: "split_families (chunks_lineage ctx)"
  defines "ls \<equiv> chunks_lineage ctx" and "ls' \<equiv> chunks_lineage (drop_lineage_reference cid ctx)"
  shows "lineage_inv ls' (P - {cid}) \<and> split_families ls'
    \<and> (\<forall>c l. map_of ls c = Some l \<longrightarrow> needed ls' (P - {cid}) c l \<longrightarrow> map_of ls' c \<noteq> None)
    \<and> (\<forall>c l. map_of ls c = Some l \<longrightarrow> needed ls P c l \<longrightarrow> map_of ls' c \<noteq> None \<longrightarrow> needed ls' (P - {cid}) c l)
    \<and> (\<forall>c l'. map_of ls' c = Some l' \<longrightarrow> (\<exists>l. map_of ls c = Some l \<and> l' = l\<lparr>ref_count := ref_count l'\<rparr>))"
proof -
  let ?G = "{c. \<exists>l. map_of ls c = Some l \<and> \<not> needed ls P c l}"
  note inv' = drop_reference_inv(1) [OF inv cid, folded ls'_def]
  have "swept ?G [DropRef cid] ls" using swept_initially [OF inv] unfolding swept_def ls_def by simp
  then have sw: "swept ?G [] ls'" "split_families ls'"
    using drop_loop_swept [OF physical_loop_inv [OF inv cid] fam] unfolding ls_def ls'_def drop_lineage_reference_def by blast+
  have lost: "fewer ls ls'" "lost_ok ls ls'"
    using drop_loop_lost [OF fam, of "[DropRef cid]" ls] unfolding ls'_def drop_lineage_reference_def ls_def
    by (auto simp: removable_def fewer_def lost_ok_def)
  have keep: "map_of ls' c \<noteq> None" if l: "map_of ls c = Some l" and n: "needed ls' (P - {cid}) c l" for c l
  proof
    assume none: "map_of ls' c = None"
    have "dispensable ls' l" using lost(2) l none unfolding lost_ok_def by blast
    moreover have "c \<notin> P - {cid}" using inv' none unfolding lineage_inv_def by (auto simp: map_of_eq_None_iff)
    moreover have "referenced_by ls' c = 0" using referenced_by_absent [OF _ _ none] inv' by (simp add: lineage_inv_def)
    ultimately show False using n by (simp add: needed_def dispensable_def)
  qed
  have free: "needed ls' (P - {cid}) c l" if l: "map_of ls c = Some l" "needed ls P c l" and kept: "map_of ls' c \<noteq> None" for c l
  proof -
    obtain l' where l': "map_of ls' c = Some l'" using kept by blast
    have same: "direct l' = direct l" "descends_from_manifest l' = descends_from_manifest l"
      using fewerE [OF lost(1) l'] l(1) by auto
    have "ref_count l' = phys_refs (P - {cid}) c + referenced_by ls' c" using inv' l' by (simp add: lineage_inv_def counted_def)
    moreover have "c \<notin> ?G" using l by simp
    ultimately have "needed ls' (P - {cid}) c l'"
      using sw(1) l' unfolding swept_def needed_def phys_refs_def by (cases "ref_count l' = 0") (auto split: if_splits)
    then show ?thesis using needed_cong [OF same] by blast
  qed
  have fields: "\<exists>l. map_of ls c = Some l \<and> l' = l\<lparr>ref_count := ref_count l'\<rparr>" if l': "map_of ls' c = Some l'" for c l'
  proof -
    obtain l where "map_of ls c = Some l" "direct l' = direct l" "descends_from_manifest l' = descends_from_manifest l"
      by (rule fewerE [OF lost(1) l'])
    then show ?thesis by (intro exI [of _ l]) (simp add: TrackedDirectChunkLineage.equality)
  qed
  show ?thesis by (intro conjI allI impI inv' sw(2)) (erule (1) keep | erule (2) free | erule fields)+
qed

text \<open>A compacted chunk and the two volatile chunks it was made from.\<close>

definition demo_lineages :: Lineages where
  "demo_lineages =
     [(demo_id 1, \<lparr>direct = Volatile, ref_count = 1, descends_from_manifest = False\<rparr>),
      (demo_id 2, \<lparr>direct = Volatile, ref_count = 1, descends_from_manifest = False\<rparr>),
      (demo_id 3, \<lparr>direct = CompactedFrom [demo_id 1, demo_id 2], ref_count = 1, descends_from_manifest = False\<rparr>)]"

definition demo_ctx :: LineageDroppingCtx where
  "demo_ctx = \<lparr>chunks_lineage = demo_lineages,
     leaky_compactions = [(demo_id 1, demo_id 3), (demo_id 2, demo_id 3)],
     split_on_ingest = {}, dangling_splits = []\<rparr>"

lemma demo_lineages_ok: "lineage_inv demo_lineages {demo_id 3}" "split_families demo_lineages"
  by (auto simp: lineage_inv_def demo_lineages_def counted_def closed_refs_def phys_refs_def
      split_families_def split: if_splits)

theorem drop_lineage_reference_exact_witness:
  "drop_lineage_reference (demo_id 3) demo_ctx =
      \<lparr>chunks_lineage = [], leaky_compactions = [], split_on_ingest = {}, dangling_splits = []\<rparr>
    \<and> lineage_inv (chunks_lineage (drop_lineage_reference (demo_id 3) demo_ctx)) {}"
proof
  show "drop_lineage_reference (demo_id 3) demo_ctx =
      \<lparr>chunks_lineage = [], leaky_compactions = [], split_on_ingest = {}, dangling_splits = []\<rparr>"
    by (simp add: drop_lineage_reference_def demo_ctx_def demo_lineages_def removals_def forget_chunk_def
        al_remove_def Let_def)
  show "lineage_inv (chunks_lineage (drop_lineage_reference (demo_id 3) demo_ctx)) {}"
    using drop_lineage_reference_exact [of demo_ctx "{demo_id 3}" "demo_id 3"] demo_lineages_ok
    by (simp add: demo_ctx_def)
qed

text \<open>C17: on a lineage without cycles \<open>find_root_chunks\<close> returns, and it returns exactly the known root
  chunks from which the chunk was made, directly or over any number of splits and compactions.\<close>

theorem find_root_chunks_exact:
  assumes "ranked rank ls"
  shows "\<exists>rs. find_root_chunks ls cid = Some rs \<and> set rs = known_roots ls cid"
  using collect_root_ids_walk [OF assms, of cid]
  by (auto simp: find_root_chunks_def collect_root_ids.simps [of ls "[]"])

theorem find_root_chunks_exact_witness:
  "\<exists>rs. find_root_chunks demo_lineages (demo_id 3) = Some rs \<and> set rs = known_roots demo_lineages (demo_id 3)"
proof (rule find_root_chunks_exact)
  show "ranked (\<lambda>c. if c = demo_id 3 then 1 else 0) demo_lineages"
    by (simp add: ranked_def demo_lineages_def)
qed

end
