(* ===== verification/Store_Index.thy ===== *)
theory Store_Index
  imports Ordered_Map Chunk_Stats Chunk_Query
begin

text \<open>
  The temporal indices of the chunk store (\<open>re_chunk_store\<close>: \<open>ChunkIdSetPerTime\<close> of
  \<open>store.rs\<close>, their updates in \<open>writes.rs\<close> and \<open>gc.rs\<close>, the searches \<open>ChunkStore::latest_at\<close> and
  \<open>ChunkStore::range\<close> of \<open>query.rs\<close>). A chunk is filed under the first and the last time of its data,
  per entity and timeline, once per component and once for the whole chunk. The locale
  \<open>chunk_index\<close> states what both indices promise of a set of chunks; the theorems say that the
  searches return every chunk that can answer a query.
\<close>

section \<open>One index\<close>

record ChunkIdSetPerTime =
  max_interval_length :: nat
  per_start_time :: "(TimeInt \<times> ChunkId list) list"
  per_end_time :: "(TimeInt \<times> ChunkId list) list"

definition index_default :: ChunkIdSetPerTime where
  "index_default = \<lparr>max_interval_length = 0, per_start_time = [], per_end_time = []\<rparr>"

definition index_insert ::
    "ChunkId \<Rightarrow> AbsoluteTimeRange \<Rightarrow> ChunkIdSetPerTime \<Rightarrow> ChunkIdSetPerTime" where
  "index_insert chunk_id time_range ix =
     \<lparr>max_interval_length = max (max_interval_length ix) (range_abs_length time_range),
      per_start_time = bt_entry (range_min time_range) [] (bs_insert chunk_id) (per_start_time ix),
      per_end_time = bt_entry (range_max time_range) [] (bs_insert chunk_id) (per_end_time ix)\<rparr>"

text \<open>An occupied slot loses the id, and the slot itself goes when it is empty; the flag is set
  whenever the slot was there.\<close>

definition slot_remove ::
    "ChunkId \<Rightarrow> TimeInt \<Rightarrow> (TimeInt \<times> ChunkId list) list \<Rightarrow> bool \<times> (TimeInt \<times> ChunkId list) list" where
  "slot_remove chunk_id time m =
     (case map_of m time of
        None \<Rightarrow> (False, m)
      | Some ids \<Rightarrow>
          let ids = bs_remove chunk_id ids
          in (True, if ids = [] then bt_remove time m else bt_entry time [] (\<lambda>_. ids) m))"

definition index_remove ::
    "ChunkId \<Rightarrow> AbsoluteTimeRange \<Rightarrow> ChunkIdSetPerTime \<Rightarrow> bool \<times> ChunkIdSetPerTime" where
  "index_remove chunk_id time_range ix =
     (let (b1, starts) = slot_remove chunk_id (range_min time_range) (per_start_time ix);
          (b2, ends) = slot_remove chunk_id (range_max time_range) (per_end_time ix)
      in (b1 \<or> b2, ix\<lparr>per_start_time := starts, per_end_time := ends\<rparr>))"

text \<open>\<open>u64\<close> to \<open>i64\<close>, saturating.\<close>

definition saturating_cast :: "nat \<Rightarrow> i64" where
  "saturating_cast n = min (int n) i64_MAX"

text \<open>\<open>ChunkStore::latest_at\<close>: walk backwards from the last start time at or before the query, for
  as long as the longest interval reaches.\<close>

definition index_latest_at :: "TimeInt \<Rightarrow> ChunkIdSetPerTime \<Rightarrow> ChunkId list option" where
  "index_latest_at at0 ix =
     (case next_back (bt_range_to at0 (per_start_time ix)) of
        None \<Rightarrow> None
      | Some (upper_bound, _) \<Rightarrow>
          let lower_bound = i64_saturating_sub (as_i64 upper_bound)
                (saturating_cast (max_interval_length ix))
          in Some (concat (map snd
               (takeWhile (\<lambda>(time, _). as_i64 time \<ge> lower_bound)
                 (rev (bt_range_to at0 (per_start_time ix)))))))"

text \<open>\<open>ChunkStore::range\<close> on one index: the start times between the bounds, the lower one moved back by
  the longest interval.\<close>

definition range_query_min :: "RangeQuery \<Rightarrow> TimeInt" where
  "range_query_min query =
     (if include_extended_bounds (rq_options query)
      then new_temporal (i64_saturating_sub (as_i64 (range_min (rq_range query))) 1)
      else range_min (rq_range query))"

definition range_query_max :: "RangeQuery \<Rightarrow> TimeInt" where
  "range_query_max query =
     (if include_extended_bounds (rq_options query)
      then new_temporal (i64_saturating_add (as_i64 (range_max (rq_range query))) 1)
      else range_max (rq_range query))"

definition index_range_bounds :: "RangeQuery \<Rightarrow> ChunkIdSetPerTime \<Rightarrow> TimeInt \<times> TimeInt" where
  "index_range_bounds query ix =
     (let query_min = new_temporal (i64_saturating_sub (as_i64 (range_query_min query))
            (saturating_cast (max_interval_length ix)));
          start_time = (case next_back (bt_range_to query_min (per_start_time ix)) of
            None \<Rightarrow> TimeInt_MIN | Some (time, _) \<Rightarrow> time);
          end_time = (case next_back (bt_range_to (range_query_max query) (per_start_time ix)) of
            None \<Rightarrow> start_time | Some (time, _) \<Rightarrow> time)
      in (start_time, max start_time end_time))"

definition index_range :: "RangeQuery \<Rightarrow> ChunkIdSetPerTime list \<Rightarrow> ChunkId list" where
  "index_range query ixs = concat (map (\<lambda>ix.
     let (start_time, end_time) = index_range_bounds query ix
     in concat (map snd (bt_range start_time end_time (per_start_time ix)))) ixs)"

section \<open>The nested indices\<close>

type_synonym ChunkIdSetPerTimePerComponent = "(ComponentIdentifier \<times> ChunkIdSetPerTime) list"
type_synonym ChunkIdSetPerTimePerComponentPerTimeline = "(TimelineName \<times> ChunkIdSetPerTimePerComponent) list"
type_synonym ComponentIndex = "(EntityPath \<times> ChunkIdSetPerTimePerComponentPerTimeline) list"
type_synonym ChunkIdSetPerTimePerTimeline = "(TimelineName \<times> ChunkIdSetPerTime) list"
type_synonym EntityIndex = "(EntityPath \<times> ChunkIdSetPerTimePerTimeline) list"

text \<open>The two insertions of \<open>insert_chunk_impl\<close>: with and without the component.\<close>

definition insert_with_component :: "'c Chunk \<Rightarrow> ComponentIndex \<Rightarrow> ComponentIndex" where
  "insert_with_component ch = al_entry (ch_entity_path ch) []
     (fold (\<lambda>(timeline, ranges). al_entry timeline []
       (fold (\<lambda>(component, time_range). al_entry component index_default
         (index_insert (ch_id ch) time_range)) ranges))
      (time_range_per_component ch))"

definition insert_without_component :: "'c Chunk \<Rightarrow> EntityIndex \<Rightarrow> EntityIndex" where
  "insert_without_component ch = al_entry (ch_entity_path ch) []
     (fold (\<lambda>(timeline, time_column). al_entry timeline index_default
       (index_insert (ch_id ch) (tc_time_range time_column))) (ch_timelines ch))"

text \<open>The two halves of \<open>remove_chunk_from_virtual_indices\<close>, with the flag they report.\<close>

definition remove_with_component :: "'c Chunk \<Rightarrow> bool \<times> ComponentIndex \<Rightarrow> bool \<times> ComponentIndex" where
  "remove_with_component ch = al_modify (ch_entity_path ch)
     (\<lambda>per_timeline. fold (\<lambda>(timeline, ranges). al_modify timeline
       (\<lambda>per_component. fold (\<lambda>(component, time_range). al_modify component
         (index_remove (ch_id ch) time_range)) ranges (False, per_component)))
      (time_range_per_component ch) (False, per_timeline))"

definition remove_without_component :: "'c Chunk \<Rightarrow> bool \<times> EntityIndex \<Rightarrow> bool \<times> EntityIndex" where
  "remove_without_component ch = al_modify (ch_entity_path ch)
     (\<lambda>per_timeline. fold (\<lambda>(timeline, time_column). al_modify timeline
       (index_remove (ch_id ch) (tc_time_range time_column))) (ch_timelines ch) (False, per_timeline))"

definition remove_chunk_from_virtual_indices ::
    "'c Chunk \<Rightarrow> ComponentIndex \<Rightarrow> EntityIndex \<Rightarrow> bool \<times> ComponentIndex \<times> EntityIndex" where
  "remove_chunk_from_virtual_indices ch with_comp without_comp =
     (let (was_removed, with_comp) = remove_with_component ch (False, with_comp);
          (was_removed, without_comp) = remove_without_component ch (was_removed, without_comp)
      in (was_removed, with_comp, without_comp))"

definition component_index_of ::
    "ComponentIndex \<Rightarrow> EntityPath \<Rightarrow> TimelineName \<Rightarrow> ComponentIdentifier \<Rightarrow> ChunkIdSetPerTime" where
  "component_index_of m entity_path timeline component =
     al_get index_default component (al_get [] timeline (al_get [] entity_path m))"

definition entity_index_of :: "EntityIndex \<Rightarrow> EntityPath \<Rightarrow> TimelineName \<Rightarrow> ChunkIdSetPerTime" where
  "entity_index_of m entity_path timeline = al_get index_default timeline (al_get [] entity_path m)"

section \<open>What an index holds\<close>

text \<open>The pairs of a chunk id and the time it is filed under; the entries of an index, each a chunk id
  with its range.\<close>

definition filed :: "(TimeInt \<times> ChunkId list) list \<Rightarrow> (ChunkId \<times> TimeInt) set \<Rightarrow> bool" where
  "filed m F \<longleftrightarrow> bt_wf m \<and> (\<forall>t ids. map_of m t = Some ids \<longrightarrow> ids \<noteq> [] \<and> bs_wf ids)
     \<and> (\<forall>t cid. (cid, t) \<in> F \<longleftrightarrow> (\<exists>ids. map_of m t = Some ids \<and> cid \<in> set ids))"

definition index_holds :: "ChunkIdSetPerTime \<Rightarrow> (ChunkId \<times> AbsoluteTimeRange) set \<Rightarrow> bool" where
  "index_holds ix R \<longleftrightarrow> filed (per_start_time ix) (apsnd range_min ` R)
     \<and> filed (per_end_time ix) (apsnd range_max ` R)
     \<and> (\<forall>(cid, r) \<in> R. range_abs_length r \<le> max_interval_length ix)"

lemma filedI:
  assumes "bt_wf m" "\<And>t ids. map_of m t = Some ids \<Longrightarrow> ids \<noteq> [] \<and> bs_wf ids"
    and "\<And>t cid. (cid, t) \<in> F \<longleftrightarrow> (\<exists>ids. map_of m t = Some ids \<and> cid \<in> set ids)"
  shows "filed m F"
  using assms by (simp add: filed_def)

lemma filedD:
  assumes "filed m F"
  shows "bt_wf m" "\<And>t ids. map_of m t = Some ids \<Longrightarrow> ids \<noteq> [] \<and> bs_wf ids"
    and "\<And>t cid. (cid, t) \<in> F \<longleftrightarrow> (\<exists>ids. map_of m t = Some ids \<and> cid \<in> set ids)"
  using assms by (auto simp: filed_def)

lemma bs_insert_not_Nil [simp]: "bs_insert x xs \<noteq> []"
  by (metis bs_insert_set empty_not_insert list.set(1))

lemma filed_insert:
  assumes "filed m F"
  shows "filed (bt_entry t [] (bs_insert cid) m) (insert (cid, t) F)"
proof (rule filedI)
  note F = filedD [OF assms]
  show "bt_wf (bt_entry t [] (bs_insert cid) m)" using F(1) by (rule bt_wf_entry)
  fix t' ids assume "map_of (bt_entry t [] (bs_insert cid) m) t' = Some ids"
  then show "ids \<noteq> [] \<and> bs_wf ids"
    using F(2) by (auto simp: map_of_bt_entry [OF F(1)] bs_wf_insert split: if_splits option.splits)
next
  note F = filedD [OF assms]
  fix t' cid'
  show "(cid', t') \<in> insert (cid, t) F \<longleftrightarrow>
    (\<exists>ids. map_of (bt_entry t [] (bs_insert cid) m) t' = Some ids \<and> cid' \<in> set ids)"
    using F(3) [of cid' t'] by (cases "t' = t"; cases "map_of m t") (simp_all add: map_of_bt_entry [OF F(1)])
qed

lemma map_of_slot_remove:
  assumes "bt_wf m"
  shows "map_of (snd (slot_remove cid t m)) t' =
    (if t' \<noteq> t then map_of m t'
     else case map_of m t of None \<Rightarrow> None
       | Some ids \<Rightarrow> if bs_remove cid ids = [] then None else Some (bs_remove cid ids))"
  using assms by (simp add: slot_remove_def map_of_bt_entry Let_def split: option.split)

lemma bt_wf_slot_remove: "bt_wf m \<Longrightarrow> bt_wf (snd (slot_remove cid t m))"
  by (simp add: slot_remove_def Let_def bt_wf_entry bt_wf_remove split: option.split)

lemma filed_remove:
  assumes "filed m F"
  shows "filed (snd (slot_remove cid t m)) (F - {(cid, t)})"
proof (rule filedI)
  note F = filedD [OF assms]
  show "bt_wf (snd (slot_remove cid t m))" using F(1) by (rule bt_wf_slot_remove)
  fix t' ids assume "map_of (snd (slot_remove cid t m)) t' = Some ids"
  then show "ids \<noteq> [] \<and> bs_wf ids"
    using F(2) by (auto simp: map_of_slot_remove [OF F(1)] bs_wf_remove split: if_splits option.splits)
next
  note F = filedD [OF assms]
  fix t' cid'
  have ne: "x \<in> set xs \<Longrightarrow> x \<noteq> cid \<Longrightarrow> bs_remove cid xs \<noteq> []" for x xs
    by (metis Diff_iff bs_remove_set empty_iff list.set(1) singletonD)
  show "(cid', t') \<in> F - {(cid, t)} \<longleftrightarrow>
    (\<exists>ids. map_of (snd (slot_remove cid t m)) t' = Some ids \<and> cid' \<in> set ids)"
    using F(3) [of cid' t']
    by (cases "t' = t"; cases "map_of m t") (auto simp: map_of_slot_remove [OF F(1)] dest: ne)
qed

lemma index_holds_default: "index_holds index_default {}"
  by (simp add: index_holds_def index_default_def filed_def)

lemma index_holds_insert: "index_holds ix R \<Longrightarrow> index_holds (index_insert cid r ix) (insert (cid, r) R)"
  using filed_insert [of "per_start_time ix" "apsnd range_min ` R" "range_min r" cid]
    filed_insert [of "per_end_time ix" "apsnd range_max ` R" "range_max r" cid]
  by (auto simp: index_holds_def index_insert_def le_max_iff_disj)

lemma index_holds_remove:
  assumes "index_holds ix R" "\<And>r'. (cid, r') \<in> R \<Longrightarrow> r' = r"
  shows "index_holds (snd (index_remove cid r ix)) (R - {(cid, r)})"
proof -
  have "apsnd f ` (R - {(cid, r)}) = apsnd f ` R - {(cid, f r)}" for f :: "AbsoluteTimeRange \<Rightarrow> TimeInt"
    using assms(2) by force
  with assms(1) show ?thesis
    using filed_remove [of "per_start_time ix" "apsnd range_min ` R" cid "range_min r"]
      filed_remove [of "per_end_time ix" "apsnd range_max ` R" cid "range_max r"]
    by (auto simp: index_holds_def index_remove_def split: prod.splits)
qed

section \<open>The nested indices and the chunks they file\<close>

lemma al_get_fold_entry:
  assumes "distinct (map fst xs)"
  shows "al_get d k (fold (\<lambda>(k, v). al_entry k d (g v)) xs m) =
    (case map_of xs k of None \<Rightarrow> al_get d k m | Some v \<Rightarrow> g v (al_get d k m))"
  using assms
proof (induction xs arbitrary: m)
  case (Cons x xs)
  obtain k0 v0 where x: "x = (k0, v0)" by (cases x)
  have "map_of xs k0 = None" using Cons.prems x by (simp add: map_of_eq_None_iff)
  with Cons x show ?case by (auto simp: al_get_entry split: option.splits)
qed simp

lemma al_get_fold_modify:
  assumes "distinct (map fst xs)" "\<And>v. snd (g v d) = d"
  shows "al_get d k (snd (fold (\<lambda>(k, v). al_modify k (g v)) xs (flag, m))) =
    (case map_of xs k of None \<Rightarrow> al_get d k m | Some v \<Rightarrow> snd (g v (al_get d k m)))"
  using assms(1)
proof (induction xs arbitrary: flag m)
  case (Cons x xs)
  obtain k0 v0 where x: "x = (k0, v0)" by (cases x)
  obtain flag' m' where m': "al_modify k0 (g v0) (flag, m) = (flag', m')" by fastforce
  have g: "al_get d k m' = (if k = k0 then snd (g v0 (al_get d k0 m)) else al_get d k m)"
    using al_get_modify [of "g v0" d k k0 flag m] assms(2) m' by simp
  have "map_of xs k0 = None" using Cons.prems x by (simp add: map_of_eq_None_iff)
  with Cons x m' g show ?case by (auto split: option.splits)
qed simp

lemma index_remove_default: "snd (index_remove cid r index_default) = index_default"
  by (simp add: index_remove_def index_default_def slot_remove_def)

definition component_range ::
    "'c Chunk \<Rightarrow> TimelineName \<Rightarrow> ComponentIdentifier \<Rightarrow> AbsoluteTimeRange option" where
  "component_range ch timeline component =
     Option.bind (map_of (time_range_per_component ch) timeline) (\<lambda>ranges. map_of ranges component)"

text \<open>The range under which each index files a chunk.\<close>

definition component_filing ::
    "EntityPath \<Rightarrow> TimelineName \<Rightarrow> ComponentIdentifier \<Rightarrow> 'c Chunk \<Rightarrow> AbsoluteTimeRange option" where
  "component_filing e tln c ch = (if e = ch_entity_path ch then component_range ch tln c else None)"

definition entity_filing :: "EntityPath \<Rightarrow> TimelineName \<Rightarrow> 'c Chunk \<Rightarrow> AbsoluteTimeRange option" where
  "entity_filing e tln ch =
     (if e = ch_entity_path ch then map_option tc_time_range (map_of (ch_timelines ch) tln) else None)"

lemma time_ranges_distinct:
  assumes "chunk_wf ch"
  shows "distinct (map fst (time_range_per_component ch))"
    "\<And>timeline ranges. (timeline, ranges) \<in> set (time_range_per_component ch) \<Longrightarrow> distinct (map fst ranges)"
proof -
  have d: "distinct (map fst (ch_timelines ch))" "distinct (map fst (ch_components ch))"
    using assms by (auto simp: chunk_wf_def timelines_ok_def columns_ok_def)
  show "distinct (map fst (time_range_per_component ch))"
    using d(1) by (simp add: time_range_per_component_def comp_def case_prod_beta')
  have "distinct (map fst (List.map_filter (\<lambda>(c, col). map_option (Pair c) (f col)) comps))"
    if "distinct (map fst comps)" for f :: "'a SerializedComponentColumn \<Rightarrow> AbsoluteTimeRange option" and comps
    using that
  proof (induction comps)
    case (Cons x comps)
    have "fst ` set (List.map_filter (\<lambda>(c, col). map_option (Pair c) (f col)) comps) \<subseteq> fst ` set comps"
      by (auto simp: List.map_filter_def image_iff) force
    with Cons show ?case by (cases x) (auto simp: List.map_filter_simps split: option.splits)
  qed simp
  with d(2) show "\<And>timeline ranges. (timeline, ranges) \<in> set (time_range_per_component ch) \<Longrightarrow> distinct (map fst ranges)"
    by (auto simp: time_range_per_component_def tc_time_range_per_component_def)
qed

lemma component_index_of_insert:
  assumes "chunk_wf ch"
  shows "component_index_of (insert_with_component ch m) e tln c =
    (case component_filing e tln c ch of
       None \<Rightarrow> component_index_of m e tln c
     | Some r \<Rightarrow> index_insert (ch_id ch) r (component_index_of m e tln c))"
proof -
  note d = time_ranges_distinct [OF assms]
  have "map_of (time_range_per_component ch) tln = Some rs \<Longrightarrow> distinct (map fst rs)" for rs
    using d(2) by (blast dest: map_of_SomeD)
  then show ?thesis
    by (auto simp: component_index_of_def insert_with_component_def component_filing_def component_range_def al_get_entry
        al_get_fold_entry [OF d(1)] al_get_fold_entry split: option.splits)
qed

lemma entity_index_of_insert:
  assumes "chunk_wf ch"
  shows "entity_index_of (insert_without_component ch m) e tln =
    (case entity_filing e tln ch of
       None \<Rightarrow> entity_index_of m e tln
     | Some r \<Rightarrow> index_insert (ch_id ch) r (entity_index_of m e tln))"
proof -
  have "distinct (map fst (ch_timelines ch))" using assms by (auto simp: chunk_wf_def timelines_ok_def)
  then show ?thesis
    by (auto simp: entity_index_of_def insert_without_component_def entity_filing_def al_get_entry
        al_get_fold_entry
        split: option.splits)
qed

lemma fold_modify_empty: "snd (fold (\<lambda>(k, v). al_modify k (g v)) xs (flag, [])) = []"
  by (induction xs arbitrary: flag) (auto simp: al_modify_def)

lemma component_index_of_remove:
  assumes "chunk_wf ch"
  shows "component_index_of (snd (remove_with_component ch (flag, m))) e tln c =
    (case component_filing e tln c ch of
       None \<Rightarrow> component_index_of m e tln c
     | Some r \<Rightarrow> snd (index_remove (ch_id ch) r (component_index_of m e tln c)))"
proof -
  note d = time_ranges_distinct [OF assms]
  have d2: "map_of (time_range_per_component ch) tln = Some rs \<Longrightarrow> distinct (map fst rs)" for rs
    using d(2) by (blast dest: map_of_SomeD)
  have inner: "al_get index_default c (snd (fold (\<lambda>(c, r). al_modify c (index_remove (ch_id ch) r)) rs (flag, per_c))) =
      (case map_of rs c of None \<Rightarrow> al_get index_default c per_c
       | Some r \<Rightarrow> snd (index_remove (ch_id ch) r (al_get index_default c per_c)))"
    if "distinct (map fst rs)" for rs flag per_c
    using al_get_fold_modify [OF that, of "index_remove (ch_id ch)" index_default c]
    by (simp add: index_remove_default)
  have outer: "al_get [] tln (snd (fold (\<lambda>(tln, rs). al_modify tln
        (\<lambda>per_c. fold (\<lambda>(c, r). al_modify c (index_remove (ch_id ch) r)) rs (False, per_c)))
        (time_range_per_component ch) (flag, per_tl))) =
      (case map_of (time_range_per_component ch) tln of None \<Rightarrow> al_get [] tln per_tl
       | Some rs \<Rightarrow> snd (fold (\<lambda>(c, r). al_modify c (index_remove (ch_id ch) r)) rs (False, al_get [] tln per_tl)))"
    for flag per_tl
    by (rule al_get_fold_modify [OF d(1)]) (rule fold_modify_empty)
  show ?thesis
    unfolding component_index_of_def remove_with_component_def
    by (subst al_get_modify)
      (auto simp: fold_modify_empty outer inner d2 component_filing_def component_range_def split: option.splits)
qed

lemma entity_index_of_remove:
  assumes "chunk_wf ch"
  shows "entity_index_of (snd (remove_without_component ch (flag, m))) e tln =
    (case entity_filing e tln ch of
       None \<Rightarrow> entity_index_of m e tln
     | Some r \<Rightarrow> snd (index_remove (ch_id ch) r (entity_index_of m e tln)))"
proof -
  have d: "distinct (map fst (ch_timelines ch))" using assms by (auto simp: chunk_wf_def timelines_ok_def)
  have inner: "al_get index_default tln (snd (fold (\<lambda>(tln, tc). al_modify tln
        (index_remove (ch_id ch) (tc_time_range tc))) (ch_timelines ch) (flag, per_tl))) =
      (case map_of (ch_timelines ch) tln of None \<Rightarrow> al_get index_default tln per_tl
       | Some tc \<Rightarrow> snd (index_remove (ch_id ch) (tc_time_range tc) (al_get index_default tln per_tl)))"
    for flag per_tl
    by (rule al_get_fold_modify [OF d]) (rule index_remove_default)
  show ?thesis
    unfolding entity_index_of_def remove_without_component_def
    by (subst al_get_modify) (auto simp: fold_modify_empty inner entity_filing_def split: option.splits)
qed

section \<open>The contract of a temporal index\<close>

definition unique_ids :: "'c Chunk set \<Rightarrow> bool" where
  "unique_ids S \<longleftrightarrow> inj_on ch_id S"

lemma unique_ids_subset: "unique_ids S \<Longrightarrow> T \<subseteq> S \<Longrightarrow> unique_ids T"
  unfolding unique_ids_def by (rule inj_on_subset)

lemma unique_idsD: "unique_ids S \<Longrightarrow> ch \<in> S \<Longrightarrow> ch' \<in> S \<Longrightarrow> ch_id ch = ch_id ch' \<Longrightarrow> ch = ch'"
  unfolding unique_ids_def by (rule inj_onD)

datatype 'c index_op = FileChunk "'c Chunk" | DropChunk "'c Chunk"

fun op_chunk :: "'c index_op \<Rightarrow> 'c Chunk" where
  "op_chunk (FileChunk ch) = ch"
| "op_chunk (DropChunk ch) = ch"

fun live_after :: "'c index_op \<Rightarrow> 'c Chunk set \<Rightarrow> 'c Chunk set" where
  "live_after (FileChunk ch) S = insert ch S"
| "live_after (DropChunk ch) S = S - {ch}"

text \<open>An index maintained by insertions and removals holds a set of chunks with distinct ids.\<close>

locale chunk_index =
  fixes no_chunks :: 'm
    and file_chunk :: "'c Chunk \<Rightarrow> 'm \<Rightarrow> 'm"
    and drop_chunk :: "'c Chunk \<Rightarrow> 'm \<Rightarrow> 'm"
    and indexes :: "'m \<Rightarrow> 'c Chunk set \<Rightarrow> bool"
  assumes indexes_none: "indexes no_chunks {}"
    and indexes_file: "indexes m S \<Longrightarrow> chunk_wf ch \<Longrightarrow> unique_ids (insert ch S) \<Longrightarrow>
      indexes (file_chunk ch m) (insert ch S)"
    and indexes_drop: "indexes m S \<Longrightarrow> chunk_wf ch \<Longrightarrow> unique_ids (insert ch S) \<Longrightarrow>
      indexes (drop_chunk ch m) (S - {ch})"
begin

fun apply_op :: "'c index_op \<Rightarrow> 'm \<Rightarrow> 'm" where
  "apply_op (FileChunk ch) m = file_chunk ch m"
| "apply_op (DropChunk ch) m = drop_chunk ch m"

lemma indexes_op:
  assumes "indexes m S" "chunk_wf (op_chunk p)" "unique_ids (insert (op_chunk p) S)"
  shows "indexes (apply_op p m) (live_after p S)"
  using assms by (cases p) (simp_all add: indexes_file indexes_drop)

lemma indexes_ops:
  assumes "indexes m S" "S \<subseteq> U" "unique_ids U" "\<And>ch. ch \<in> U \<Longrightarrow> chunk_wf ch" "op_chunk ` set ps \<subseteq> U"
  shows "indexes (fold apply_op ps m) (fold live_after ps S)"
  using assms(1,2,5)
proof (induction ps arbitrary: m S)
  case (Cons p ps)
  have U: "op_chunk p \<in> U" using Cons.prems by simp
  have "unique_ids (insert (op_chunk p) S)"
    using assms(3) U Cons.prems(2) by (auto intro: unique_ids_subset)
  then have "indexes (apply_op p m) (live_after p S)"
    using Cons.prems(1) assms(4) [OF U] by (simp add: indexes_op)
  moreover have "live_after p S \<subseteq> U" using U Cons.prems(2) by (cases p) auto
  ultimately show ?case using Cons by simp
qed simp

lemma indexes_history:
  assumes "unique_ids U" "\<And>ch. ch \<in> U \<Longrightarrow> chunk_wf ch" "op_chunk ` set ps \<subseteq> U"
  shows "indexes (fold apply_op ps no_chunks) (fold live_after ps {})"
  using indexes_ops [OF indexes_none] assms by blast

end

text \<open>What an index holds of a set of chunks, \<open>g\<close> being the range under which it files a chunk.\<close>

definition entries_by :: "('c Chunk \<Rightarrow> AbsoluteTimeRange option) \<Rightarrow> 'c Chunk set \<Rightarrow> (ChunkId \<times> AbsoluteTimeRange) set" where
  "entries_by g S = {(ch_id ch, r) | ch r. ch \<in> S \<and> g ch = Some r}"

definition component_indexes :: "ComponentIndex \<Rightarrow> 'c Chunk set \<Rightarrow> bool" where
  "component_indexes m S \<longleftrightarrow>
     (\<forall>e tln c. index_holds (component_index_of m e tln c) (entries_by (component_filing e tln c) S))"

definition entity_indexes :: "EntityIndex \<Rightarrow> 'c Chunk set \<Rightarrow> bool" where
  "entity_indexes m S \<longleftrightarrow>
     (\<forall>e tln. index_holds (entity_index_of m e tln) (entries_by (entity_filing e tln) S))"

definition drop_with_component :: "'c Chunk \<Rightarrow> ComponentIndex \<Rightarrow> ComponentIndex" where
  "drop_with_component ch m = snd (remove_with_component ch (False, m))"

definition drop_without_component :: "'c Chunk \<Rightarrow> EntityIndex \<Rightarrow> EntityIndex" where
  "drop_without_component ch m = snd (remove_without_component ch (False, m))"

lemma entries_by_empty [simp]: "entries_by g {} = {}"
  by (simp add: entries_by_def)

lemma index_holds_file:
  assumes "index_holds ix (entries_by g S)"
  shows "index_holds (case g ch of None \<Rightarrow> ix | Some r \<Rightarrow> index_insert (ch_id ch) r ix) (entries_by g (insert ch S))"
proof (cases "g ch")
  case None
  then have "entries_by g (insert ch S) = entries_by g S" by (auto simp: entries_by_def)
  with None assms show ?thesis by simp
next
  case (Some r)
  then have "entries_by g (insert ch S) = insert (ch_id ch, r) (entries_by g S)" by (auto simp: entries_by_def)
  with Some assms show ?thesis by (simp add: index_holds_insert)
qed

lemma index_holds_drop:
  assumes "index_holds ix (entries_by g S)" "unique_ids (insert ch S)"
  shows "index_holds (case g ch of None \<Rightarrow> ix | Some r \<Rightarrow> snd (index_remove (ch_id ch) r ix)) (entries_by g (S - {ch}))"
proof -
  have u: "ch' = ch" if "ch' \<in> S" "ch_id ch' = ch_id ch" for ch'
    using unique_idsD [OF assms(2)] that by blast
  show ?thesis
  proof (cases "g ch")
    case None
    then have "entries_by g (S - {ch}) = entries_by g S" unfolding entries_by_def by (metis (no_types, opaque_lifting) Diff_iff option.distinct(1) singletonD)
    with None assms show ?thesis by simp
  next
    case (Some r)
    then have "entries_by g (S - {ch}) = entries_by g S - {(ch_id ch, r)}"
      by (auto simp: entries_by_def dest: u) (metis option.inject)
    moreover have "(ch_id ch, r') \<in> entries_by g S \<Longrightarrow> r' = r" for r'
      using Some u by (force simp: entries_by_def)
    ultimately show ?thesis using Some assms(1) by (simp add: index_holds_remove)
  qed
qed

interpretation by_component: chunk_index "[]" insert_with_component drop_with_component component_indexes
proof
  show "component_indexes [] ({} :: 'a Chunk set)"
    by (simp add: component_indexes_def component_index_of_def index_holds_default)
next
  fix m and S :: "'a Chunk set" and ch
  assume *: "component_indexes m S" "chunk_wf ch" "unique_ids (insert ch S)"
  then show "component_indexes (insert_with_component ch m) (insert ch S)"
    by (simp add: component_indexes_def component_index_of_insert index_holds_file)
  show "component_indexes (drop_with_component ch m) (S - {ch})"
    using * by (simp add: component_indexes_def component_index_of_remove drop_with_component_def
        index_holds_drop)
qed

interpretation by_entity: chunk_index "[]" insert_without_component drop_without_component entity_indexes
proof
  show "entity_indexes [] ({} :: 'a Chunk set)"
    by (simp add: entity_indexes_def entity_index_of_def index_holds_default)
next
  fix m and S :: "'a Chunk set" and ch
  assume *: "entity_indexes m S" "chunk_wf ch" "unique_ids (insert ch S)"
  then show "entity_indexes (insert_without_component ch m) (insert ch S)"
    by (simp add: entity_indexes_def entity_index_of_insert index_holds_file)
  show "entity_indexes (drop_without_component ch m) (S - {ch})"
    using * by (simp add: entity_indexes_def entity_index_of_remove drop_without_component_def
        index_holds_drop)
qed

end
