(* ===== verification/Store_Search.thy ===== *)
theory Store_Search
  imports Store_Index
begin

text \<open>
  What the searches \<open>latest_at\<close> and \<open>range\<close> of the temporal indices return, first in terms of the
  entries of one index, then in terms of the rows of the chunks: the newest row not after a time, and
  every row of a time range, are in the chunks returned.
\<close>

section \<open>The searches on one index\<close>

lemma filed_concat:
  assumes "filed m F"
  shows "cid \<in> set (concat (map snd (filter (\<lambda>(t, _). P t) m))) \<longleftrightarrow> (\<exists>t. (cid, t) \<in> F \<and> P t)"
  using filedD(3) [OF assms] bt_mem_iff [OF filedD(1) [OF assms]] by (force simp: split_beta)

lemma filed_key: "filed m F \<Longrightarrow> (t, ids) \<in> set m \<Longrightarrow> \<exists>cid. (cid, t) \<in> F"
  using bt_mem_iff [of m t ids] filedD [of m F] by (metis list.set_intros(1) neq_Nil_conv)

lemma filed_mem: "filed m F \<Longrightarrow> (cid, t) \<in> F \<Longrightarrow> \<exists>ids. (t, ids) \<in> set m \<and> cid \<in> set ids"
  using bt_mem_iff [of m t] filedD [of m F] by metis

lemma i64_saturating_sub_le: "a - b \<le> x \<Longrightarrow> i64_ok x \<Longrightarrow> i64_saturating_sub a b \<le> x"
  by (auto simp: i64_saturating_sub_def i64_clamp_def i64_ok_def)

lemma index_latest_at_cases:
  assumes "filed (per_start_time ix) F"
  obtains (none) "index_latest_at at0 ix = None" "\<And>cid t. (cid, t) \<in> F \<Longrightarrow> \<not> t \<le> at0"
  | (some) upper ids where "index_latest_at at0 ix = Some ids" "\<exists>cid. (cid, upper) \<in> F" "upper \<le> at0"
      "\<And>cid t. (cid, t) \<in> F \<Longrightarrow> t \<le> at0 \<Longrightarrow> t \<le> upper"
      "\<And>cid. cid \<in> set ids \<longleftrightarrow> (\<exists>t. (cid, t) \<in> F \<and> t \<le> at0
        \<and> i64_saturating_sub (as_i64 upper) (saturating_cast (max_interval_length ix)) \<le> as_i64 t)"
proof (cases "next_back (bt_range_to at0 (per_start_time ix))")
  case None
  then have "\<And>cid t. (cid, t) \<in> F \<Longrightarrow> \<not> t \<le> at0"
    using filed_mem [OF assms] by (metis next_back_range_to_None)
  moreover have "index_latest_at at0 ix = None" using None by (simp add: index_latest_at_def del: next_back_None)
  ultimately show ?thesis by (rule that(1) [rotated])
next
  case (Some x)
  obtain upper v where x: "x = (upper, v)" by (cases x)
  note wf = filedD(1) [OF assms]
  note nb = next_back_range_to [OF wf Some [unfolded x]]
  let ?low = "i64_saturating_sub (as_i64 upper) (saturating_cast (max_interval_length ix))"
  let ?ids = "concat (map snd (takeWhile (\<lambda>(time, _). as_i64 time \<ge> ?low) (rev (bt_range_to at0 (per_start_time ix)))))"
  have "takeWhile (\<lambda>(time, _). as_i64 time \<ge> ?low) (rev (bt_range_to at0 (per_start_time ix)))
      = rev (filter (\<lambda>(time, _). ?low \<le> as_i64 time \<and> time \<le> at0) (per_start_time ix))"
    using takeWhile_rev_sorted [of "bt_range_to at0 (per_start_time ix)" "\<lambda>time. ?low \<le> as_i64 time"] wf
    by (simp add: bt_range_to_def bt_wf_filter less_eq_TimeInt_iff case_prod_beta' conj_commute)
  then have "cid \<in> set ?ids \<longleftrightarrow> (\<exists>t. (cid, t) \<in> F \<and> t \<le> at0 \<and> ?low \<le> as_i64 t)" for cid
    using filed_concat [OF assms, of cid "\<lambda>t. ?low \<le> as_i64 t \<and> t \<le> at0"]
    by (auto simp: rev_map [symmetric] rev_concat)
  moreover have "index_latest_at at0 ix = Some ?ids" using Some x by (simp add: index_latest_at_def)
  ultimately show ?thesis
    using that(2) [of ?ids upper] nb filed_key [OF assms nb(1)] filed_mem [OF assms] by metis
qed

lemma index_latest_at_sound:
  assumes "index_holds ix R" "index_latest_at at0 ix = Some ids" "cid \<in> set ids"
  obtains r where "(cid, r) \<in> R" "range_min r \<le> at0"
proof -
  have F: "filed (per_start_time ix) (apsnd range_min ` R)" using assms(1) by (simp add: index_holds_def)
  show ?thesis
    using assms(2,3) by (cases rule: index_latest_at_cases [OF F, of at0]) (auto intro: that)
qed

lemma index_latest_at_complete:
  assumes ix: "index_holds ix R" and r: "(cid, r) \<in> R" "range_min r \<le> at0" "range_min r \<le> range_max r"
    and len: "int (range_abs_length r) \<le> i64_MAX"
    and newest: "\<And>cid' r'. (cid', r') \<in> R \<Longrightarrow> range_min r' \<le> at0 \<Longrightarrow> range_min r' \<le> range_max r"
  shows "\<exists>ids. index_latest_at at0 ix = Some ids \<and> cid \<in> set ids"
proof -
  have F: "filed (per_start_time ix) (apsnd range_min ` R)"
    and max: "range_abs_length r \<le> max_interval_length ix"
    using ix r(1) by (auto simp: index_holds_def)
  have rF: "(cid, range_min r) \<in> apsnd range_min ` R" using r(1) by force
  show ?thesis
  proof (cases rule: index_latest_at_cases [OF F, of at0])
    case 1
    with rF r(2) show ?thesis by blast
  next
    case (2 upper ids)
    note some = this
    then obtain r' cid' where "(cid', r') \<in> R" "upper = range_min r'" by auto
    with newest some(3) have "as_i64 upper \<le> as_i64 (range_max r)" by (simp add: less_eq_TimeInt_iff)
    moreover have "as_i64 (range_max r) = as_i64 (range_min r) + int (range_abs_length r)"
      using r(3) by (simp add: range_abs_length_def less_eq_TimeInt_iff)
    moreover have "int (range_abs_length r) \<le> saturating_cast (max_interval_length ix)"
      using max len by (simp add: saturating_cast_def)
    ultimately have "i64_saturating_sub (as_i64 upper) (saturating_cast (max_interval_length ix)) \<le> as_i64 (range_min r)"
      by (intro i64_saturating_sub_le) auto
    with some rF r(2) show ?thesis by blast
  qed
qed

lemma index_range_bounds_start:
  assumes "filed (per_start_time ix) F" "t \<noteq> TimeInt_STATIC"
    and "i64_saturating_sub (as_i64 (range_query_min q)) (saturating_cast (max_interval_length ix)) \<le> as_i64 t"
  shows "fst (index_range_bounds q ix) \<le> t"
proof -
  let ?low = "i64_saturating_sub (as_i64 (range_query_min q)) (saturating_cast (max_interval_length ix))"
  have fst_eq: "fst (index_range_bounds q ix) =
      (case next_back (bt_range_to (new_temporal ?low) (per_start_time ix)) of None \<Rightarrow> TimeInt_MIN | Some (t, _) \<Rightarrow> t)"
    by (simp add: index_range_bounds_def Let_def)
  have "i64_ok ?low" by (simp add: i64_saturating_sub_def i64_clamp_def i64_ok_def i64_MIN_def i64_MAX_def)
  then have low: "new_temporal ?low \<le> t"
    using assms(3) as_i64_temporal [OF assms(2)] by (simp add: less_eq_TimeInt_iff as_i64_new_temporal)
  show ?thesis
  proof (cases "next_back (bt_range_to (new_temporal ?low) (per_start_time ix))")
    case None
    with fst_eq assms(2) show ?thesis by (simp add: temporal_iff_MIN_le del: next_back_None)
  next
    case (Some x)
    obtain t' v where x: "x = (t', v)" by (cases x)
    have "t' \<le> t" using next_back_range_to(2) [OF filedD(1) [OF assms(1)] Some [unfolded x]] low by simp
    with Some x fst_eq show ?thesis by simp
  qed
qed

lemma index_range_bounds_end:
  assumes "filed (per_start_time ix) F" "(cid, t) \<in> F" "t \<le> range_query_max q"
  shows "t \<le> snd (index_range_bounds q ix)"
proof -
  obtain ids where t: "(t, ids) \<in> set (per_start_time ix)" using filed_mem [OF assms(1,2)] by blast
  show ?thesis
  proof (cases "next_back (bt_range_to (range_query_max q) (per_start_time ix))")
    case None
    with t assms(3) show ?thesis unfolding next_back_range_to_None by simp
  next
    case (Some x)
    obtain t' v where x: "x = (t', v)" by (cases x)
    have "t \<le> t'" using next_back_range_to(3) [OF filedD(1) [OF assms(1)] Some [unfolded x] t assms(3)] .
    also have "t' \<le> snd (index_range_bounds q ix)"
      unfolding index_range_bounds_def Let_def Some x by simp
    finally show ?thesis .
  qed
qed

lemma index_range_mem:
  "cid \<in> set (index_range q ixs) \<longleftrightarrow> (\<exists>ix\<in>set ixs. cid \<in> set (concat (map snd
     (filter (\<lambda>(t, _). fst (index_range_bounds q ix) \<le> t \<and> t \<le> snd (index_range_bounds q ix)) (per_start_time ix)))))"
  by (simp add: index_range_def bt_range_def case_prod_beta' Let_def)

lemma index_range_complete:
  assumes ix: "index_holds ix R" "ix \<in> set ixs"
    and r: "(cid, r) \<in> R" "range_min r \<le> range_max r" "range_min r \<noteq> TimeInt_STATIC"
    and len: "int (range_abs_length r) \<le> i64_MAX"
    and meets: "range_min r \<le> range_query_max q" "range_query_min q \<le> range_max r"
  shows "cid \<in> set (index_range q ixs)"
proof -
  have F: "filed (per_start_time ix) (apsnd range_min ` R)"
    and max: "range_abs_length r \<le> max_interval_length ix"
    using ix(1) r(1) by (auto simp: index_holds_def)
  have rF: "(cid, range_min r) \<in> apsnd range_min ` R" using r(1) by force
  have "as_i64 (range_max r) = as_i64 (range_min r) + int (range_abs_length r)"
    using r(2) by (simp add: range_abs_length_def less_eq_TimeInt_iff)
  moreover have "int (range_abs_length r) \<le> saturating_cast (max_interval_length ix)"
    using max len by (simp add: saturating_cast_def)
  ultimately have "i64_saturating_sub (as_i64 (range_query_min q)) (saturating_cast (max_interval_length ix))
      \<le> as_i64 (range_min r)"
    using meets(2) by (intro i64_saturating_sub_le) (auto simp: less_eq_TimeInt_iff)
  then have "fst (index_range_bounds q ix) \<le> range_min r" using index_range_bounds_start [OF F r(3)] by blast
  moreover have "range_min r \<le> snd (index_range_bounds q ix)"
    using index_range_bounds_end [OF F rF meets(1)] .
  ultimately have "\<exists>t. (cid, t) \<in> apsnd range_min ` R
      \<and> fst (index_range_bounds q ix) \<le> t \<and> t \<le> snd (index_range_bounds q ix)"
    using rF by auto
  then show ?thesis unfolding index_range_mem by (intro bexI [OF _ ix(2)] filed_concat [OF F, THEN iffD2])
qed

lemma index_range_sound:
  assumes "\<And>ix. ix \<in> set ixs \<Longrightarrow> index_holds ix (E ix)" "cid \<in> set (index_range q ixs)"
  obtains ix r where "ix \<in> set ixs" "(cid, r) \<in> E ix"
proof -
  obtain ix where ix: "ix \<in> set ixs" "cid \<in> set (concat (map snd (filter (\<lambda>(t, _).
      fst (index_range_bounds q ix) \<le> t \<and> t \<le> snd (index_range_bounds q ix)) (per_start_time ix))))"
    using assms(2) by (auto simp only: index_range_mem)
  have F: "filed (per_start_time ix) (apsnd range_min ` E ix)"
    using assms(1) [OF ix(1)] by (simp add: index_holds_def)
  obtain t where "(cid, t) \<in> apsnd range_min ` E ix" using ix(2) [unfolded filed_concat [OF F]] by auto
  with ix(1) that show ?thesis by auto
qed

section \<open>Ranges and rows\<close>

text \<open>The times at which a chunk has a value for a component.\<close>

definition data_times :: "'c Chunk \<Rightarrow> TimelineName \<Rightarrow> ComponentIdentifier \<Rightarrow> i64 set" where
  "data_times ch tln c = {t. \<exists>row\<in>set (chunk_rows ch). r_times row tln = Some t \<and> r_cells row c \<noteq> None}"

lemma mask_select_set:
  "length m = length xs \<Longrightarrow> set (mask_select m xs) = {xs ! i | i. i < length xs \<and> m ! i}"
proof (induction m xs rule: mask_select.induct)
  case (1 b bs x xs)
  have "{(x # xs) ! i | i. i < length (x # xs) \<and> (b # bs) ! i} =
      (if b then {x} else {}) \<union> {xs ! i | i. i < length xs \<and> bs ! i}"
    by (force simp: less_Suc_eq_0_disj nth_Cons')
  with 1 show ?case by simp
qed auto

lemma data_times_eq:
  assumes wf: "chunk_wf ch" and tc: "map_of (ch_timelines ch) tln = Some tc"
    and col: "map_of (ch_components ch) c = Some col"
  shows "data_times ch tln c = set (mask_select (la_validity (sc_list_array col)) (tc_times tc))"
proof -
  let ?la = "sc_list_array col"
  have l: "la_wf ?la" "la_len ?la = num_rows ch" "length (tc_times tc) = num_rows ch"
    using columns_okD [OF chunk_wfD(3) [OF wf] col] timelines_okD [OF chunk_wfD(2) [OF wf] tc] by auto
  have "length (la_validity ?la) = num_rows ch" using l by (simp add: la_validity_def la_wf_def split: option.splits)
  moreover have "la_validity ?la ! i = la_is_valid ?la i" if "i < num_rows ch" for i
    using that l by (simp add: la_validity_def la_is_valid_def la_wf_def split: option.splits)
  moreover have "la_is_valid ?la i \<longleftrightarrow> r_cells (chunk_row ch i) c \<noteq> None" if "i < num_rows ch" for i
    using valid_row [OF wf _ that, of c ?la] col by (simp add: get_array_def)
  ultimately have "set (mask_select (la_validity ?la) (tc_times tc)) =
      {tc_times tc ! i | i. i < num_rows ch \<and> r_cells (chunk_row ch i) c \<noteq> None}"
    using l by (auto simp: mask_select_set)
  also have "\<dots> = data_times ch tln c"
    using tc by (force simp: data_times_def chunk_rows_def chunk_row_def time_at_def)
  finally show ?thesis by simp
qed

lemma component_range_eq:
  assumes "chunk_wf ch"
  shows "component_range ch tln c =
    Option.bind (map_of (ch_timelines ch) tln) (\<lambda>tc.
      Option.bind (map_of (ch_components ch) c) (\<lambda>col. component_time_range tc (sc_list_array col)))"
proof -
  have d: "distinct (map fst (ch_components ch))"
    using assms by (simp add: chunk_wf_def columns_ok_def)
  show ?thesis
    using map_of_map_filter [OF d]
    by (cases "map_of (ch_timelines ch) tln")
      (simp_all add: component_range_def time_range_per_component_def tc_time_range_per_component_def
        map_of_map_values)
qed

lemma data_times_column:
  assumes "chunk_wf ch" "data_times ch tln c \<noteq> {}"
  obtains tc col where "map_of (ch_timelines ch) tln = Some tc" "map_of (ch_components ch) c = Some col"
  using assms
  by (cases "map_of (ch_timelines ch) tln"; cases "map_of (ch_components ch) c")
    (auto simp: data_times_def chunk_rows_def chunk_row_def time_at_def cell_at_def)

lemma component_range_tight:
  assumes wf: "chunk_wf ch" and ne: "data_times ch tln c \<noteq> {}"
  obtains r where "component_range ch tln c = Some r"
    "as_i64 (range_min r) = Min (data_times ch tln c)" "as_i64 (range_max r) = Max (data_times ch tln c)"
proof -
  obtain tc col where tc: "map_of (ch_timelines ch) tln = Some tc"
    and col: "map_of (ch_components ch) c = Some col"
    using data_times_column [OF assms] by blast
  note eq = data_times_eq [OF wf tc col]
  have l: "la_wf (sc_list_array col)" "la_len (sc_list_array col) = length (tc_times tc)" "tc_wf tc"
    using columns_okD [OF chunk_wfD(3) [OF wf] col] timelines_okD [OF chunk_wfD(2) [OF wf] tc] by auto
  have "mask_select (la_validity (sc_list_array col)) (tc_times tc) \<noteq> []" using ne eq by auto
  then obtain r where "component_time_range tc (sc_list_array col) = Some r"
    "range_tight r (mask_select (la_validity (sc_list_array col)) (tc_times tc))"
    using component_time_range_tight [OF l(3,1,2)] by blast
  with ne that [of r] tc col show ?thesis by (simp add: component_range_eq [OF wf] range_tight_def eq)
qed

lemma finite_data_times [simp]: "finite (data_times ch tln c)"
proof -
  have "data_times ch tln c \<subseteq> (\<lambda>row. the (r_times row tln)) ` set (chunk_rows ch)"
    by (force simp: data_times_def)
  then show ?thesis by (rule finite_subset) simp
qed

lemma data_times_valid:
  assumes "chunk_wf ch" "t \<in> data_times ch tln c" shows "i64_MIN < t" "t \<le> i64_MAX"
proof -
  obtain tc col where tc: "map_of (ch_timelines ch) tln = Some tc"
    and col: "map_of (ch_components ch) c = Some col"
    using data_times_column [OF assms(1), of tln c] assms(2) by blast
  have "t \<in> set (tc_times tc)"
    using data_times_eq [OF assms(1) tc col] assms(2) set_mask_select by fast
  moreover have "times_valid (tc_times tc)"
    using timelines_okD [OF chunk_wfD(2) [OF assms(1)] tc] by (simp add: tc_wf_def)
  ultimately show "i64_MIN < t" "t \<le> i64_MAX" by (auto simp: times_valid_def)
qed

text \<open>A column that is null everywhere is filed too, under a range whose bounds are the wrong way
  round.\<close>

lemma component_range_all_null:
  assumes wf: "chunk_wf ch" and n: "num_rows ch \<noteq> 0" and e: "data_times ch tln c = {}"
    and r: "component_range ch tln c = Some r"
  shows "r = \<lparr>range_min = TimeInt_MAX, range_max = TimeInt_MIN\<rparr>"
proof -
  obtain tc col where tc: "map_of (ch_timelines ch) tln = Some tc"
    and col: "map_of (ch_components ch) c = Some col"
    and ctr: "component_time_range tc (sc_list_array col) = Some r"
    using r by (auto simp: component_range_eq [OF wf] split: Option.bind_splits)
  have l: "length (tc_times tc) = num_rows ch" "la_len (sc_list_array col) = num_rows ch" "la_wf (sc_list_array col)"
    using timelines_okD [OF chunk_wfD(2) [OF wf] tc] columns_okD [OF chunk_wfD(3) [OF wf] col] by auto
  have m: "mask_select (la_validity (sc_list_array col)) (tc_times tc) = []"
    using data_times_eq [OF wf tc col] e by simp
  have tne: "tc_times tc \<noteq> []" using l n by auto
  obtain v where v: "la_nulls (sc_list_array col) = Some v"
    using m tne l mask_select_True [of "tc_times tc"]
    by (cases "la_nulls (sc_list_array col)") (auto simp: la_validity_def)
  have "length (filter Not v) \<noteq> 0"
    using la_validity_dense [OF v, of "tc_times tc"] m tne v l by (auto simp: la_wf_def la_validity_def)
  with ctr v m have "r = range_new (Some TimeInt_MAX) (Some TimeInt_MIN)"
    by (auto simp: component_time_range_def la_validity_def Let_def map_or_def list_first_def list_last_def
        iter_min_def iter_max_def split: if_splits)
  then show ?thesis by (simp add: range_new_def max_def less_eq_TimeInt_iff i64_MIN_def i64_MAX_def)
qed

text \<open>A query at a time: the rows with a value for the component, not later than the time.\<close>

definition row_until :: "TimelineName \<Rightarrow> ComponentIdentifier \<Rightarrow> TimeInt \<Rightarrow> 'c row \<Rightarrow> bool" where
  "row_until tln c at0 row \<longleftrightarrow> r_cells row c \<noteq> None \<and> r_times row tln \<noteq> None \<and> the (r_times row tln) \<le> as_i64 at0"

lemma row_until_data:
  "row \<in> set (chunk_rows ch) \<Longrightarrow> row_until tln c at0 row \<Longrightarrow>
    the (r_times row tln) \<in> data_times ch tln c \<and> the (r_times row tln) \<le> as_i64 at0"
  by (auto simp: row_until_def data_times_def)

text \<open>What the searches rely on: chunks with rows, and intervals that fit a signed 64-bit length. The
  columns that are null everywhere only disturb queries at the greatest time.\<close>

definition indexable :: "EntityPath \<Rightarrow> TimelineName \<Rightarrow> ComponentIdentifier \<Rightarrow> 'c Chunk \<Rightarrow> bool" where
  "indexable e tln c ch \<longleftrightarrow> chunk_wf ch \<and> num_rows ch \<noteq> 0
     \<and> (data_times ch tln c \<noteq> {} \<longrightarrow> Max (data_times ch tln c) - Min (data_times ch tln c) \<le> i64_MAX)"

definition null_column :: "EntityPath \<Rightarrow> TimelineName \<Rightarrow> ComponentIdentifier \<Rightarrow> 'c Chunk \<Rightarrow> bool" where
  "null_column e tln c ch \<longleftrightarrow> component_filing e tln c ch \<noteq> None \<and> data_times ch tln c = {}"

lemma component_filing_data:
  assumes "indexable e tln c ch" "data_times ch tln c \<noteq> {}" "ch_entity_path ch = e"
  obtains r where "component_filing e tln c ch = Some r"
    "as_i64 (range_min r) = Min (data_times ch tln c)" "as_i64 (range_max r) = Max (data_times ch tln c)"
    "int (range_abs_length r) \<le> i64_MAX" "range_min r \<le> range_max r" "range_min r \<noteq> TimeInt_STATIC"
proof -
  obtain r where r: "component_range ch tln c = Some r"
    "as_i64 (range_min r) = Min (data_times ch tln c)" "as_i64 (range_max r) = Max (data_times ch tln c)"
    using component_range_tight [of ch tln c] assms by (auto simp: indexable_def)
  have le: "Min (data_times ch tln c) \<le> Max (data_times ch tln c)"
    using assms(2) by (meson Max_ge Min_in finite_data_times)
  have "i64_MIN < Min (data_times ch tln c)"
    using data_times_valid(1) [of ch] Min_in [OF finite_data_times assms(2)] assms(1) by (auto simp: indexable_def)
  then have "range_min r \<noteq> TimeInt_STATIC" using r(2) by (metis as_i64_consts(1) less_irrefl)
  with that [of r] r le assms show ?thesis
    by (auto simp: component_filing_def range_abs_length_def less_eq_TimeInt_iff indexable_def)
qed

lemma filing_start:
  assumes "indexable e tln c ch" "component_filing e tln c ch = Some r" "range_min r \<le> at0"
    and "at0 = TimeInt_MAX \<Longrightarrow> \<not> null_column e tln c ch"
  shows "as_i64 (range_min r) \<in> data_times ch tln c" "ch_entity_path ch = e"
proof -
  show e: "ch_entity_path ch = e" using assms(2) by (simp add: component_filing_def split: if_splits)
  have "data_times ch tln c \<noteq> {}"
  proof
    assume d: "data_times ch tln c = {}"
    then have "null_column e tln c ch" using assms(2) by (simp add: null_column_def)
    moreover have "range_min r = TimeInt_MAX"
      using component_range_all_null [of ch tln c r] assms(1,2) d e
      by (auto simp: indexable_def component_filing_def)
    then have "at0 = TimeInt_MAX"
      using assms(3) as_i64_ok [of at0] by (simp add: less_eq_TimeInt_iff i64_ok_def flip: as_i64_inject)
    ultimately show False using assms(4) by blast
  qed
  then show "as_i64 (range_min r) \<in> data_times ch tln c"
    using component_filing_data [OF assms(1) _ e] assms(2) by (metis Min_in finite_data_times option.inject)
qed

definition latest_at_ids ::
    "ComponentIndex \<Rightarrow> EntityPath \<Rightarrow> TimelineName \<Rightarrow> ComponentIdentifier \<Rightarrow> TimeInt \<Rightarrow> ChunkId list" where
  "latest_at_ids m e tln c at0 =
     (case index_latest_at at0 (component_index_of m e tln c) of None \<Rightarrow> [] | Some ids \<Rightarrow> ids)"

text \<open>Every chunk that holds a greatest time not after the query is returned.\<close>

lemma latest_at_ids_greatest:
  assumes m: "component_indexes m S" and ok: "\<And>ch. ch \<in> S \<Longrightarrow> indexable e tln c ch"
    and nn: "\<And>ch. ch \<in> S \<Longrightarrow> at0 = TimeInt_MAX \<Longrightarrow> \<not> null_column e tln c ch"
    and ch: "ch \<in> S" "ch_entity_path ch = e" "t \<in> data_times ch tln c" "t \<le> as_i64 at0"
    and greatest: "\<And>ch' t'. ch' \<in> S \<Longrightarrow> ch_entity_path ch' = e \<Longrightarrow> t' \<in> data_times ch' tln c \<Longrightarrow>
      t' \<le> as_i64 at0 \<Longrightarrow> t' \<le> t"
  shows "ch_id ch \<in> set (latest_at_ids m e tln c at0)"
proof -
  obtain r where r: "component_filing e tln c ch = Some r" "as_i64 (range_min r) = Min (data_times ch tln c)"
    "as_i64 (range_max r) = Max (data_times ch tln c)" "int (range_abs_length r) \<le> i64_MAX" "range_min r \<le> range_max r"
    using component_filing_data [OF ok [OF ch(1)] _ ch(2)] ch(3) by blast
  have "as_i64 (range_min r) \<le> t" using r(2) ch(3) by simp
  then have start: "range_min r \<le> at0" using ch(4) by (simp add: less_eq_TimeInt_iff)
  have "range_min r' \<le> range_max r" if r': "(cid', r') \<in> entries_by (component_filing e tln c) S" "range_min r' \<le> at0" for cid' r'
  proof -
    obtain ch' where ch': "ch' \<in> S" "component_filing e tln c ch' = Some r'"
      using r'(1) by (auto simp: entries_by_def)
    note s = filing_start [OF ok [OF ch'(1)] ch'(2) r'(2) nn [OF ch'(1)]]
    have "as_i64 (range_min r') \<le> t"
      using greatest [OF ch'(1) s(2,1)] r'(2) by (simp add: less_eq_TimeInt_iff)
    also have "t \<le> as_i64 (range_max r)" using r(3) ch(3) by simp
    finally show ?thesis by (simp add: less_eq_TimeInt_iff)
  qed
  moreover have "(ch_id ch, r) \<in> entries_by (component_filing e tln c) S"
    using ch(1) r(1) by (auto simp: entries_by_def)
  moreover have "index_holds (component_index_of m e tln c) (entries_by (component_filing e tln c) S)"
    using m by (simp add: component_indexes_def)
  ultimately obtain ids where "index_latest_at at0 (component_index_of m e tln c) = Some ids" "ch_id ch \<in> set ids"
    using index_latest_at_complete [OF _ _ start r(5,4)] by blast
  then show ?thesis by (simp add: latest_at_ids_def)
qed

lemma latest_at_ids_sound:
  assumes m: "component_indexes m S" and ok: "\<And>ch. ch \<in> S \<Longrightarrow> indexable e tln c ch"
    and nn: "\<And>ch. ch \<in> S \<Longrightarrow> at0 = TimeInt_MAX \<Longrightarrow> \<not> null_column e tln c ch"
    and i: "cid \<in> set (latest_at_ids m e tln c at0)"
  obtains ch t where "ch \<in> S" "ch_id ch = cid" "ch_entity_path ch = e" "t \<in> data_times ch tln c" "t \<le> as_i64 at0"
proof -
  obtain ids where ids: "index_latest_at at0 (component_index_of m e tln c) = Some ids" "cid \<in> set ids"
    using i by (cases "index_latest_at at0 (component_index_of m e tln c)") (auto simp: latest_at_ids_def)
  have "index_holds (component_index_of m e tln c) (entries_by (component_filing e tln c) S)"
    using m by (simp add: component_indexes_def)
  then obtain r where r: "(cid, r) \<in> entries_by (component_filing e tln c) S" "range_min r \<le> at0"
    using index_latest_at_sound [OF _ ids] by blast
  then obtain ch where ch: "ch \<in> S" "ch_id ch = cid" "component_filing e tln c ch = Some r"
    by (auto simp: entries_by_def)
  show ?thesis
    using that [OF ch(1,2)] filing_start [OF ok [OF ch(1)] ch(3) r(2) nn [OF ch(1)]] r(2)
    by (auto simp: less_eq_TimeInt_iff)
qed

text \<open>So the newest row of the returned chunks is the newest row of all of them.\<close>

lemma latest_at_ids_newest:
  assumes m: "component_indexes m (set chs)" and ok: "\<And>ch. ch \<in> set chs \<Longrightarrow> indexable e tln c ch"
    and nn: "\<And>ch. ch \<in> set chs \<Longrightarrow> at0 = TimeInt_MAX \<Longrightarrow> \<not> null_column e tln c ch"
    and new: "newest (row_until tln c at0) (row_time_key tln) (concat (map chunk_rows
      (filter (\<lambda>ch. ch_entity_path ch = e \<and> ch_id ch \<in> set (latest_at_ids m e tln c at0)) chs))) x"
  shows "newest (row_until tln c at0) (row_time_key tln)
    (concat (map chunk_rows (filter (\<lambda>ch. ch_entity_path ch = e) chs))) x"
proof -
  let ?all = "concat (map chunk_rows (filter (\<lambda>ch. ch_entity_path ch = e) chs))"
  let ?sel = "concat (map chunk_rows
      (filter (\<lambda>ch. ch_entity_path ch = e \<and> ch_id ch \<in> set (latest_at_ids m e tln c at0)) chs))"
  let ?T = "{t. \<exists>ch\<in>set chs. ch_entity_path ch = e \<and> t \<in> data_times ch tln c \<and> t \<le> as_i64 at0}"
  have fin: "finite ?T"
    by (rule finite_subset [of _ "\<Union>ch\<in>set chs. data_times ch tln c"]) auto
  have dominated: "\<exists>z\<in>set ?sel. row_until tln c at0 z \<and> row_time_key tln y \<le> row_time_key tln z"
    if y: "y \<in> set ?all" "row_until tln c at0 y" for y
  proof -
    obtain ch where ch: "ch \<in> set chs" "ch_entity_path ch = e" "y \<in> set (chunk_rows ch)" using y(1) by auto
    have yT: "the (r_times y tln) \<in> ?T" using row_until_data [OF ch(3) y(2)] ch by blast
    define t where "t = Max ?T"
    have t: "t \<in> ?T" "the (r_times y tln) \<le> t"
      unfolding t_def using Max_in [OF fin] Max_ge [OF fin yT] yT by blast+
    have gr: "t' \<le> t" if "ch' \<in> set chs" "ch_entity_path ch' = e" "t' \<in> data_times ch' tln c" "t' \<le> as_i64 at0" for ch' t'
      unfolding t_def using fin that by (intro Max_ge) auto
    have ret: "ch_id ch' \<in> set (latest_at_ids m e tln c at0)"
      if "ch' \<in> set chs" "ch_entity_path ch' = e" "t \<in> data_times ch' tln c" for ch'
      by (rule latest_at_ids_greatest [OF m ok nn that, of at0]) (use t(1) gr in auto)
    show ?thesis
    proof (cases "the (r_times y tln) = t")
      case True
      then have "y \<in> set ?sel" using ret [OF ch(1,2)] row_until_data [OF ch(3) y(2)] ch by auto
      with y(2) show ?thesis by blast
    next
      case False
      obtain ch' where ch': "ch' \<in> set chs" "ch_entity_path ch' = e" "t \<in> data_times ch' tln c" "t \<le> as_i64 at0"
        using t(1) by blast
      then obtain z where z: "z \<in> set (chunk_rows ch')" "r_times z tln = Some t" "r_cells z c \<noteq> None"
        by (auto simp: data_times_def)
      then have "z \<in> set ?sel" using ret [OF ch'(1-3)] ch' by auto
      moreover have "row_until tln c at0 z" using z ch'(4) by (simp add: row_until_def)
      moreover have "row_time_key tln y \<le> row_time_key tln z"
        using False t(2) z(2) by (simp add: row_time_key_def)
      ultimately show ?thesis by blast
    qed
  qed
  have sub: "set ?sel \<subseteq> set ?all" by auto
  show ?thesis
  proof (cases x)
    case None
    with new dominated show ?thesis by (fastforce simp: newest_def)
  next
    case (Some a)
    then have a: "a \<in> set ?sel" "row_until tln c at0 a"
      "\<And>z. z \<in> set ?sel \<Longrightarrow> row_until tln c at0 z \<Longrightarrow> row_time_key tln z \<le> row_time_key tln a"
      using new by (auto simp: newest_def)
    have "row_time_key tln y \<le> row_time_key tln a" if "y \<in> set ?all" "row_until tln c at0 y" for y
      using dominated [OF that] a(3) by (meson order_trans)
    with a(1,2) sub Some show ?thesis unfolding newest_def by auto
  qed
qed

section \<open>The indices over time\<close>

text \<open>C12: the temporal indices are exact. After any sequence of insertions and removals of well-formed
  chunks with distinct ids, in any order and with repetitions, both indices hold exactly the chunks
  that were inserted and not removed since, each under the range of its column or of its time column,
  at its start and at its end time, and no empty slot is left behind.\<close>

theorem temporal_indices_exact:
  assumes "unique_ids U" "\<forall>ch\<in>U. chunk_wf ch" "op_chunk ` set ps \<subseteq> U"
  shows "component_indexes (fold by_component.apply_op ps []) (fold live_after ps {})
    \<and> entity_indexes (fold by_entity.apply_op ps []) (fold live_after ps {})"
  using by_component.indexes_history [OF assms(1) _ assms(3)] by_entity.indexes_history [OF assms(1) _ assms(3)] assms(2)
  by blast

theorem temporal_indices_exact_witness:
  "component_indexes (fold by_component.apply_op [FileChunk demo_chunk, DropChunk demo_chunk, FileChunk demo_chunk] []) {demo_chunk}
    \<and> entity_indexes (fold by_entity.apply_op [FileChunk demo_chunk, DropChunk demo_chunk, FileChunk demo_chunk] []) {demo_chunk}"
  using temporal_indices_exact [of "{demo_chunk}" "[FileChunk demo_chunk, DropChunk demo_chunk, FileChunk demo_chunk]"]
  by (simp add: unique_ids_def)

text \<open>C21: a column that is null everywhere hides the past from a query at the greatest time. Such a column
  is filed too, from the greatest to the least time, so it is the last start the search finds and the
  walk back, at most \<open>i64::MAX\<close> long, ends at time zero: no chunk whose data starts before zero is
  returned, whatever else is filed.\<close>

theorem null_column_hides_past:
  assumes m: "component_indexes m S" and u: "unique_ids S"
    and nul: "ch0 \<in> S" "null_column e tln c ch0" "indexable e tln c ch0"
    and ch: "ch \<in> S" "ch_entity_path ch = e" "indexable e tln c ch" "data_times ch tln c \<noteq> {}" "Min (data_times ch tln c) < 0"
  shows "ch_id ch \<notin> set (latest_at_ids m e tln c TimeInt_MAX)"
proof -
  let ?ix = "component_index_of m e tln c" and ?R = "entries_by (component_filing e tln c) S"
  have ix: "index_holds ?ix ?R" using m by (simp add: component_indexes_def)
  then have F: "filed (per_start_time ?ix) (apsnd range_min ` ?R)" by (simp add: index_holds_def)
  obtain r0 where r0: "component_filing e tln c ch0 = Some r0" "data_times ch0 tln c = {}"
    using nul(2) by (auto simp: null_column_def)
  have r0_eq: "r0 = \<lparr>range_min = TimeInt_MAX, range_max = TimeInt_MIN\<rparr>"
    using component_range_all_null [of ch0 tln c r0] nul(3) r0 by (auto simp: indexable_def component_filing_def split: if_splits)
  have R0: "(ch_id ch0, r0) \<in> ?R" using nul(1) r0(1) by (auto simp: entries_by_def)
  obtain r where r: "component_filing e tln c ch = Some r" "as_i64 (range_min r) = Min (data_times ch tln c)"
    using component_filing_data [OF ch(3,4,2)] by blast
  have len: "saturating_cast (max_interval_length ?ix) = i64_MAX"
  proof -
    have "range_abs_length r0 \<le> max_interval_length ?ix" using ix R0 by (auto simp: index_holds_def)
    moreover have "i64_MAX \<le> int (range_abs_length r0)" by (simp add: r0_eq range_abs_length_def i64_MIN_def i64_MAX_def)
    ultimately show ?thesis by (simp add: saturating_cast_def)
  qed
  show ?thesis
  proof (cases rule: index_latest_at_cases [OF F, of TimeInt_MAX])
    case 1
    then show ?thesis by (simp add: latest_at_ids_def)
  next
    case (2 upper ids)
    note some = this
    have "(ch_id ch0, TimeInt_MAX) \<in> apsnd range_min ` ?R" using R0 r0_eq by force
    then have "TimeInt_MAX \<le> upper" using some(4) by blast
    then have "as_i64 upper = i64_MAX" using some(3) by (simp add: order_antisym)
    then have low: "i64_saturating_sub (as_i64 upper) (saturating_cast (max_interval_length ?ix)) = 0"
      by (simp add: len i64_saturating_sub_def i64_clamp_def i64_MIN_def i64_MAX_def)
    have "ch_id ch \<notin> set ids"
    proof
      assume "ch_id ch \<in> set ids"
      then obtain t where t: "(ch_id ch, t) \<in> apsnd range_min ` ?R" "0 \<le> as_i64 t" using some(5) low by auto
      then obtain ch' r' where "ch' \<in> S" "ch_id ch' = ch_id ch" "component_filing e tln c ch' = Some r'" "t = range_min r'"
        by (auto simp: entries_by_def)
      moreover from this have "ch' = ch" using unique_idsD [OF u] ch(1) by blast
      ultimately show False using r t(2) ch(5) by simp
    qed
    with some(1) show ?thesis by (simp add: latest_at_ids_def)
  qed
qed

definition demo_past :: "nat Chunk" where
  "demo_past = demo_chunk\<lparr>ch_timelines := [(''frame'', tc_new None \<lparr>tl_name = ''frame'', tl_typ = Sequence\<rparr> [-5, -3, -3])]\<rparr>"

definition demo_null :: "nat Chunk" where
  "demo_null = demo_chunk\<lparr>ch_id := demo_id 11, ch_components := [(''pos'', sc_new (la_of_rows ''u64'' [None, None, None])
     \<lparr>cd_archetype = None, cd_component = ''pos'', cd_component_type = None\<rparr>)]\<rparr>"

lemma demo_filed_wf: "chunk_wf demo_past" "chunk_wf demo_null"
proof -
  have "tc_wf (tc_new None \<lparr>tl_name = ''frame'', tl_typ = Sequence\<rparr> [-5, -3, -3])"
    "tc_wf (tc_new None \<lparr>tl_name = ''frame'', tl_typ = Sequence\<rparr> [5, 3, 3])"
    by (rule tc_wf_new; simp add: times_valid_def i64_MIN_def i64_MAX_def)+
  then show "chunk_wf demo_past" "chunk_wf demo_null"
    by (simp_all add: chunk_wf_def demo_past_def demo_null_def demo_chunk_def timelines_ok_def columns_ok_def num_rows_def
        demo_column_def sc_new_def)
qed

lemma demo_filed_times: "data_times demo_past ''frame'' ''pos'' = {-5, -3}" "data_times demo_null ''frame'' ''pos'' = {}"
proof -
  have "map_of (ch_timelines demo_past) ''frame'' = Some (tc_new None \<lparr>tl_name = ''frame'', tl_typ = Sequence\<rparr> [-5, -3, -3])"
    "map_of (ch_components demo_past) ''pos'' = Some demo_column" by (simp_all add: demo_past_def)
  from data_times_eq [OF demo_filed_wf(1) this] show "data_times demo_past ''frame'' ''pos'' = {-5, -3}"
    by (simp add: tc_new_def demo_column_def sc_new_def la_of_rows_def la_validity_def)
  have "map_of (ch_timelines demo_null) ''frame'' = Some (tc_new None \<lparr>tl_name = ''frame'', tl_typ = Sequence\<rparr> [5, 3, 3])"
    "map_of (ch_components demo_null) ''pos'' = Some (sc_new (la_of_rows ''u64'' [None, None, None])
     \<lparr>cd_archetype = None, cd_component = ''pos'', cd_component_type = None\<rparr>)" by (simp_all add: demo_null_def)
  from data_times_eq [OF demo_filed_wf(2) this] show "data_times demo_null ''frame'' ''pos'' = {}"
    by (simp add: tc_new_def sc_new_def la_of_rows_def la_validity_def)
qed

lemma demo_filed_indexable:
  "indexable ''/world'' ''frame'' ''pos'' demo_past" "indexable ''/world'' ''frame'' ''pos'' demo_null"
proof -
  have "num_rows demo_past = 3" "num_rows demo_null = 3" by (simp_all add: demo_past_def demo_null_def num_rows_def)
  then show "indexable ''/world'' ''frame'' ''pos'' demo_past" "indexable ''/world'' ''frame'' ''pos'' demo_null"
    using demo_filed_wf by (simp_all add: indexable_def demo_filed_times i64_MAX_def)
qed

theorem null_column_hides_past_witness:
  "ch_id demo_past \<notin> set (latest_at_ids (insert_with_component demo_null (insert_with_component demo_past []))
     ''/world'' ''frame'' ''pos'' TimeInt_MAX)"
proof -
  have ids: "ch_id demo_past = demo_id 9" "ch_id demo_null = demo_id 11" by (simp_all add: demo_past_def demo_null_def demo_chunk_def)
  have u: "unique_ids {demo_past}" "unique_ids {demo_null, demo_past}" by (auto simp: unique_ids_def ids)
  have m: "component_indexes (insert_with_component demo_null (insert_with_component demo_past [])) {demo_null, demo_past}"
    using by_component.indexes_file [OF by_component.indexes_file [OF by_component.indexes_none demo_filed_wf(1) u(1)] demo_filed_wf(2) u(2)] .
  have paths: "ch_entity_path demo_past = ''/world''" "ch_entity_path demo_null = ''/world''"
    by (simp_all add: demo_past_def demo_null_def demo_chunk_def)
  have "component_range demo_null ''frame'' ''pos'' \<noteq> None"
    unfolding component_range_eq [OF demo_filed_wf(2)]
    by (simp add: demo_null_def component_time_range_def sc_new_def la_of_rows_def Let_def)
  then have "null_column ''/world'' ''frame'' ''pos'' demo_null"
    by (simp add: null_column_def demo_filed_times component_filing_def paths)
  from null_column_hides_past [OF m u(2) _ this demo_filed_indexable(2) _ _ demo_filed_indexable(1)]
  show ?thesis by (simp add: demo_filed_times paths)
qed

end
