(* ===== verification/Chunk_Store.thy ===== *)
theory Chunk_Store
  imports Store_Lineage Store_Search Chunk_Merge
begin

text \<open>
  The chunk store (\<open>re_chunk_store\<close>): its state, its statistics and its queries (\<open>store.rs\<close>,
  \<open>stats.rs\<close>, \<open>query.rs\<close>). A store keeps the chunks in memory by id, files the temporal ones in the
  two indices, and remembers one static chunk per component; a query selects chunk ids from the
  indices and reports those that are not in memory. The schema, the subscribers and the event
  wrappers are not part of this state.
\<close>

section \<open>State\<close>

record ChunkStoreConfig = ChunkSplitConfig +
  enable_changelog :: bool

record ChunkStoreChunkStats =
  st_num_chunks :: u64
  st_total_size_bytes :: u64
  st_num_rows :: u64
  st_num_events :: u64

record QueriedChunkIdTracker =
  used_physical :: "ChunkId set"
  transient_used_physical :: "ChunkId set"
  missing_virtual :: "ChunkId set"
  transient_missing_virtual :: "ChunkId set"
  indicated_virtual :: "ChunkId set"

type_synonym ChunkIdPerComponent = "(ComponentIdentifier \<times> ChunkId) list"

text \<open>The four lineage fields are those \<open>LineageDroppingCtx\<close> borrows.\<close>

record 'c ChunkStore = LineageDroppingCtx +
  store_config :: ChunkStoreConfig
  physical_chunks_per_chunk_id :: "(ChunkId \<times> 'c Chunk) list"
  physical_chunk_ids_per_min_row_id :: "(RowId \<times> ChunkId) list"
  temporal_chunk_ids_per_entity_per_component :: ComponentIndex
  temporal_chunk_ids_per_entity :: EntityIndex
  temporal_physical_chunks_stats :: ChunkStoreChunkStats
  static_chunk_ids_per_entity :: "(EntityPath \<times> ChunkIdPerComponent) list"
  static_chunks_stats :: ChunkStoreChunkStats
  queried_chunk_id_tracker :: QueriedChunkIdTracker
  insert_id :: u64
  gc_id :: u64

definition no_stats :: ChunkStoreChunkStats where
  "no_stats = \<lparr>st_num_chunks = 0, st_total_size_bytes = 0, st_num_rows = 0, st_num_events = 0\<rparr>"

definition store_new :: "ChunkStoreConfig \<Rightarrow> 'c ChunkStore" where
  "store_new config = \<lparr>chunks_lineage = [], leaky_compactions = [], split_on_ingest = {}, dangling_splits = [],
     store_config = config, physical_chunks_per_chunk_id = [], physical_chunk_ids_per_min_row_id = [],
     temporal_chunk_ids_per_entity_per_component = [], temporal_chunk_ids_per_entity = [],
     temporal_physical_chunks_stats = no_stats, static_chunk_ids_per_entity = [],
     static_chunks_stats = no_stats,
     queried_chunk_id_tracker = \<lparr>used_physical = {}, transient_used_physical = {}, missing_virtual = {},
       transient_missing_virtual = {}, indicated_virtual = {}\<rparr>,
     insert_id = 0, gc_id = 0\<rparr>"

section \<open>Statistics\<close>

text \<open>\<open>Add\<close> and \<open>Sub\<close>, on \<open>u64\<close> fields; \<open>size\<close> is the total size in bytes a chunk measures.\<close>

definition stats_add :: "ChunkStoreChunkStats \<Rightarrow> ChunkStoreChunkStats \<Rightarrow> ChunkStoreChunkStats" where
  "stats_add a b =
     \<lparr>st_num_chunks = st_num_chunks a + st_num_chunks b,
      st_total_size_bytes = st_total_size_bytes a + st_total_size_bytes b,
      st_num_rows = st_num_rows a + st_num_rows b, st_num_events = st_num_events a + st_num_events b\<rparr>"

definition stats_sub :: "ChunkStoreChunkStats \<Rightarrow> ChunkStoreChunkStats \<Rightarrow> ChunkStoreChunkStats" where
  "stats_sub a b =
     \<lparr>st_num_chunks = st_num_chunks a - st_num_chunks b,
      st_total_size_bytes = st_total_size_bytes a - st_total_size_bytes b,
      st_num_rows = st_num_rows a - st_num_rows b, st_num_events = st_num_events a - st_num_events b\<rparr>"

definition stats_from_chunk :: "('c Chunk \<Rightarrow> nat) \<Rightarrow> 'c Chunk \<Rightarrow> ChunkStoreChunkStats" where
  "stats_from_chunk size_bytes ch =
     \<lparr>st_num_chunks = 1, st_total_size_bytes = of_nat (size_bytes ch),
      st_num_rows = of_nat (num_rows ch), st_num_events = of_nat (num_events_cumulative ch)\<rparr>"

definition stats_sum :: "ChunkStoreChunkStats list \<Rightarrow> ChunkStoreChunkStats" where
  "stats_sum xs = foldl stats_add no_stats xs"

definition stats_total :: "'c ChunkStore \<Rightarrow> ChunkStoreChunkStats" where
  "stats_total s = stats_add (static_chunks_stats s) (temporal_physical_chunks_stats s)"

text \<open>The physical chunks with data of an entity on a timeline, and their statistics.\<close>

definition entity_chunks_on_timeline :: "'c ChunkStore \<Rightarrow> EntityPath \<Rightarrow> TimelineName \<Rightarrow> 'c Chunk list" where
  "entity_chunks_on_timeline s entity_path timeline =
     (case Option.bind (map_of (temporal_chunk_ids_per_entity s) entity_path) (\<lambda>m. map_of m timeline) of
        None \<Rightarrow> []
      | Some ix \<Rightarrow> List.map_filter (map_of (physical_chunks_per_chunk_id s)) (concat (map snd (per_start_time ix))))"

definition entity_stats_on_timeline ::
    "('c Chunk \<Rightarrow> nat) \<Rightarrow> 'c ChunkStore \<Rightarrow> EntityPath \<Rightarrow> TimelineName \<Rightarrow> ChunkStoreChunkStats" where
  "entity_stats_on_timeline size_bytes s entity_path timeline =
     stats_sum (map (stats_from_chunk size_bytes) (entity_chunks_on_timeline s entity_path timeline))"

definition num_physical_temporal_events_for_component_on_timeline ::
    "'c ChunkStore \<Rightarrow> TimelineName \<Rightarrow> EntityPath \<Rightarrow> ComponentIdentifier \<Rightarrow> nat" where
  "num_physical_temporal_events_for_component_on_timeline s timeline entity_path component =
     (case Option.bind (Option.bind (map_of (temporal_chunk_ids_per_entity_per_component s) entity_path)
            (\<lambda>m. map_of m timeline)) (\<lambda>m. map_of m component) of
        None \<Rightarrow> 0
      | Some ix \<Rightarrow> sum_list (List.map_filter (\<lambda>ch. num_events_for_component ch component)
          (List.map_filter (map_of (physical_chunks_per_chunk_id s)) (concat (map snd (per_start_time ix))))))"

section \<open>Query results\<close>

datatype ChunkTrackingMode = Ignore | Report | ReportTransient | PanicOnMissing

record 'c QueryResults =
  qr_chunks :: "'c Chunk list"
  qr_missing_virtual :: "ChunkId list"

definition is_partial :: "'c QueryResults \<Rightarrow> bool" where
  "is_partial r \<longleftrightarrow> qr_missing_virtual r \<noteq> []"

text \<open>\<open>QueryResults::from_chunk_ids\<close>, with the updated tracker; \<open>None\<close> is the panic.\<close>

definition track :: "ChunkTrackingMode \<Rightarrow> 'c QueryResults \<Rightarrow> QueriedChunkIdTracker \<Rightarrow> QueriedChunkIdTracker" where
  "track mode r tracker =
     (case mode of
        Report \<Rightarrow> tracker\<lparr>missing_virtual := missing_virtual tracker \<union> set (qr_missing_virtual r),
          used_physical := used_physical tracker \<union> ch_id ` set (qr_chunks r)\<rparr>
      | ReportTransient \<Rightarrow> tracker\<lparr>
          transient_missing_virtual := transient_missing_virtual tracker \<union> set (qr_missing_virtual r),
          transient_used_physical := transient_used_physical tracker \<union> ch_id ` set (qr_chunks r)\<rparr>
      | _ \<Rightarrow> tracker)"

definition from_chunk_ids ::
    "'c ChunkStore \<Rightarrow> ChunkTrackingMode \<Rightarrow> ChunkId list \<Rightarrow> ('c QueryResults \<times> 'c ChunkStore) option" where
  "from_chunk_ids s mode chunk_ids =
     (let missing = filter (\<lambda>cid. map_of (physical_chunks_per_chunk_id s) cid = None) chunk_ids;
          r = \<lparr>qr_chunks = List.map_filter (map_of (physical_chunks_per_chunk_id s)) chunk_ids,
               qr_missing_virtual = (if mode = Ignore then [] else missing)\<rparr>
      in if mode = PanicOnMissing \<and> missing \<noteq> [] then None
         else Some (r, s\<lparr>queried_chunk_id_tracker := track mode r (queried_chunk_id_tracker s)\<rparr>))"

definition unique :: "'a list \<Rightarrow> 'a list" where
  "unique xs = rev (remdups (rev xs))"

section \<open>Queries\<close>

definition static_chunk_id :: "'c ChunkStore \<Rightarrow> EntityPath \<Rightarrow> ComponentIdentifier \<Rightarrow> ChunkId option" where
  "static_chunk_id s entity_path component =
     Option.bind (map_of (static_chunk_ids_per_entity s) entity_path) (\<lambda>m. map_of m component)"

definition temporal_index ::
    "'c ChunkStore \<Rightarrow> EntityPath \<Rightarrow> TimelineName option \<Rightarrow> ComponentIdentifier \<Rightarrow> ChunkIdSetPerTime option" where
  "temporal_index s entity_path timeline component =
     Option.bind (Option.bind (map_of (temporal_chunk_ids_per_entity_per_component s) entity_path)
       (\<lambda>m. Option.bind timeline (map_of m))) (\<lambda>m. map_of m component)"

definition latest_at_relevant_chunks ::
    "'c ChunkStore \<Rightarrow> ChunkTrackingMode \<Rightarrow> LatestAtQuery \<Rightarrow> EntityPath \<Rightarrow> ComponentIdentifier \<Rightarrow>
     ('c QueryResults \<times> 'c ChunkStore) option" where
  "latest_at_relevant_chunks s mode query entity_path component =
     (case static_chunk_id s entity_path component of
        Some static_id \<Rightarrow> from_chunk_ids s mode [static_id]
      | None \<Rightarrow>
          let chunk_ids = (case Option.bind (temporal_index s entity_path (laq_timeline query) component)
                (index_latest_at (laq_at query)) of None \<Rightarrow> [] | Some ids \<Rightarrow> ids)
          in from_chunk_ids s mode chunk_ids)"

definition latest_at_relevant_chunks_for_all_components ::
    "'c ChunkStore \<Rightarrow> ChunkTrackingMode \<Rightarrow> LatestAtQuery \<Rightarrow> EntityPath \<Rightarrow> bool \<Rightarrow>
     ('c QueryResults \<times> 'c ChunkStore) option" where
  "latest_at_relevant_chunks_for_all_components s mode query entity_path include_static =
     (let chunk_ids =
        (if include_static then
           let statics = al_get [] entity_path (static_chunk_ids_per_entity s);
               temporal = (case Option.bind (map_of (temporal_chunk_ids_per_entity_per_component s) entity_path)
                   (\<lambda>m. Option.bind (laq_timeline query) (map_of m)) of
                 None \<Rightarrow> []
               | Some per_component \<Rightarrow> concat (List.map_filter (index_latest_at (laq_at query))
                   (map snd (filter (\<lambda>(c, _). map_of statics c = None) per_component))))
           in unique (map snd statics @ temporal)
         else case Option.bind (Option.bind (map_of (temporal_chunk_ids_per_entity s) entity_path)
             (\<lambda>m. Option.bind (laq_timeline query) (map_of m))) (index_latest_at (laq_at query)) of
           None \<Rightarrow> [] | Some ids \<Rightarrow> ids)
      in from_chunk_ids s mode chunk_ids)"

text \<open>The filter that follows a range search: the chunks whose own range meets the queried range.\<close>

definition meets_component_range :: "RangeQuery \<Rightarrow> ComponentIdentifier \<Rightarrow> 'c Chunk \<Rightarrow> bool" where
  "meets_component_range query component ch =
     (case map_of (ch_timelines ch) (rq_timeline query) of
        None \<Rightarrow> False
      | Some tc \<Rightarrow> (case map_of (tc_time_range_per_component tc (ch_components ch)) component of
          None \<Rightarrow> False
        | Some time_range \<Rightarrow> range_intersects time_range (rq_range query)))"

definition meets_chunk_range :: "RangeQuery \<Rightarrow> bool \<Rightarrow> 'c Chunk \<Rightarrow> bool" where
  "meets_chunk_range query include_static ch \<longleftrightarrow> (chunk_is_static ch \<and> include_static)
     \<or> (case map_of (ch_timelines ch) (rq_timeline query) of
          None \<Rightarrow> False | Some tc \<Rightarrow> range_intersects (tc_time_range tc) (rq_range query))"

definition retain_chunks ::
    "('c Chunk \<Rightarrow> bool) \<Rightarrow> ('c QueryResults \<times> 'c ChunkStore) option \<Rightarrow> ('c QueryResults \<times> 'c ChunkStore) option" where
  "retain_chunks P = map_option (apfst (\<lambda>r. r\<lparr>qr_chunks := filter P (qr_chunks r)\<rparr>))"

definition range_relevant_chunks ::
    "'c ChunkStore \<Rightarrow> ChunkTrackingMode \<Rightarrow> RangeQuery \<Rightarrow> EntityPath \<Rightarrow> ComponentIdentifier \<Rightarrow>
     ('c QueryResults \<times> 'c ChunkStore) option" where
  "range_relevant_chunks s mode query entity_path component =
     (case static_chunk_id s entity_path component of
        Some static_id \<Rightarrow> from_chunk_ids s mode [static_id]
      | None \<Rightarrow>
          let ixs = (case temporal_index s entity_path (Some (rq_timeline query)) component of
                None \<Rightarrow> [] | Some ix \<Rightarrow> [ix])
          in retain_chunks (meets_component_range query component)
               (from_chunk_ids s mode (index_range query ixs)))"

definition range_relevant_chunks_for_all_components ::
    "'c ChunkStore \<Rightarrow> ChunkTrackingMode \<Rightarrow> RangeQuery \<Rightarrow> EntityPath \<Rightarrow> bool \<Rightarrow>
     ('c QueryResults \<times> 'c ChunkStore) option" where
  "range_relevant_chunks_for_all_components s mode query entity_path include_static =
     (let chunk_ids =
        (if include_static then
           let statics = al_get [] entity_path (static_chunk_ids_per_entity s);
               per_component = (case Option.bind (map_of (temporal_chunk_ids_per_entity_per_component s) entity_path)
                   (\<lambda>m. map_of m (rq_timeline query)) of
                 None \<Rightarrow> []
               | Some per_component \<Rightarrow> map snd (filter (\<lambda>(c, _). map_of statics c = None) per_component))
           in unique (map snd statics @ index_range query per_component)
         else index_range query (case Option.bind (map_of (temporal_chunk_ids_per_entity s) entity_path)
             (\<lambda>m. map_of m (rq_timeline query)) of None \<Rightarrow> [] | Some ix \<Rightarrow> [ix]))
      in retain_chunks (meets_chunk_range query include_static) (from_chunk_ids s mode chunk_ids))"

text \<open>\<open>UnitChunkShared::index\<close>, and the body of \<open>LatestAtCache::latest_at\<close> (\<open>re_query\<close>) on a cache miss: the
  newest of the rows the relevant chunks give. \<open>None\<close> is a panic; the inner option is the row found.\<close>

definition unit_index :: "'c UnitChunk \<Rightarrow> TimelineName option \<Rightarrow> (TimeInt \<times> RowId) option" where
  "unit_index u timeline =
     (if chunk_is_static (uc_chunk u)
      then map_option (Pair TimeInt_STATIC) (list_first (ch_row_ids (uc_chunk u)))
      else Option.bind (Option.bind timeline (map_of (ch_timelines (uc_chunk u)))) (\<lambda>tc.
        Option.bind (list_first (tc_times_iter tc)) (\<lambda>time.
          map_option (Pair time) (list_first (ch_row_ids (uc_chunk u))))))"

text \<open>\<open>max_by_key\<close> keeps the last of the greatest elements.\<close>

fun max_by_key :: "('a \<Rightarrow> 'k :: linorder) \<Rightarrow> 'a list \<Rightarrow> 'a option" where
  "max_by_key f [] = None"
| "max_by_key f (x # xs) =
     (case max_by_key f xs of None \<Rightarrow> Some x | Some y \<Rightarrow> if f x \<le> f y then Some y else Some x)"

definition index_units ::
    "TimelineName option \<Rightarrow> 'c UnitChunk option list \<Rightarrow> ((TimeInt \<times> RowId) \<times> 'c UnitChunk) list" where
  "index_units timeline units = List.map_filter (\<lambda>u. Option.bind u (\<lambda>u.
     map_option (\<lambda>i. (i, u)) (unit_index u timeline))) units"

definition latest_at_uncached ::
    "'c arrow_kernels \<Rightarrow> ('c Chunk \<Rightarrow> ChunkId) \<Rightarrow> 'c ChunkStore \<Rightarrow> ChunkTrackingMode \<Rightarrow> LatestAtQuery \<Rightarrow>
     EntityPath \<Rightarrow> ComponentIdentifier \<Rightarrow> (('c UnitChunk option \<times> ChunkId list) \<times> 'c ChunkStore) option" where
  "latest_at_uncached K new_id s mode query entity_path component =
     (case latest_at_relevant_chunks s mode query entity_path component of
        None \<Rightarrow> None
      | Some (results, s) \<Rightarrow>
          if is_partial results then Some ((None, qr_missing_virtual results), s)
          else
            (case traverse (\<lambda>ch. latest_at K (new_id ch) ch query component) (qr_chunks results) of
               None \<Rightarrow> None
             | Some units \<Rightarrow>
                 Some ((map_option snd (max_by_key fst (index_units (laq_timeline query) units)), []), s)))"

section \<open>What a query returns\<close>

text \<open>The indices hold the chunks of \<open>S\<close>, and those in memory are found under their ids.\<close>

definition store_files :: "'c ChunkStore \<Rightarrow> 'c Chunk set \<Rightarrow> bool" where
  "store_files s S \<longleftrightarrow> component_indexes (temporal_chunk_ids_per_entity_per_component s) S
     \<and> entity_indexes (temporal_chunk_ids_per_entity s) S \<and> unique_ids S
     \<and> (\<forall>ch\<in>S. \<forall>ch'. map_of (physical_chunks_per_chunk_id s) (ch_id ch) = Some ch' \<longrightarrow> ch' = ch)"

lemma from_chunk_ids_complete:
  assumes "from_chunk_ids s mode ids = Some (r, s')" "mode \<noteq> Ignore" "\<not> is_partial r"
  shows "map Some (qr_chunks r) = map (map_of (physical_chunks_per_chunk_id s)) ids"
proof -
  have *: "\<forall>cid\<in>set ids. map_of (physical_chunks_per_chunk_id s) cid \<noteq> None"
    "qr_chunks r = List.map_filter (map_of (physical_chunks_per_chunk_id s)) ids"
    using assms by (auto simp: from_chunk_ids_def is_partial_def Let_def filter_empty_conv split: if_splits)
  from *(1) have "map Some (List.map_filter (map_of (physical_chunks_per_chunk_id s)) ids) = map (map_of (physical_chunks_per_chunk_id s)) ids"
    by (induction ids) (auto simp: List.map_filter_simps)
  with *(2) show ?thesis by simp
qed

lemma from_chunk_ids_found:
  assumes "from_chunk_ids s mode ids = Some (r, s')" "mode \<noteq> Ignore" "\<not> is_partial r"
    and files: "store_files s S" and ids: "\<And>cid. cid \<in> set ids \<Longrightarrow> \<exists>ch\<in>S. ch_id ch = cid \<and> Q ch"
  shows "set (qr_chunks r) = {ch \<in> S. ch_id ch \<in> set ids}" "\<And>ch. ch \<in> set (qr_chunks r) \<Longrightarrow> Q ch"
proof -
  let ?m = "map_of (physical_chunks_per_chunk_id s)"
  have eq: "Some ` set (qr_chunks r) = ?m ` set ids"
    using from_chunk_ids_complete [OF assms(1-3)] by (metis list.set_map)
  have u: "?m (ch_id ch) = Some ch' \<Longrightarrow> ch \<in> S \<Longrightarrow> ch' = ch" for ch ch' using files by (auto simp: store_files_def)
  have uid: "ch \<in> S \<Longrightarrow> ch' \<in> S \<Longrightarrow> ch_id ch = ch_id ch' \<Longrightarrow> ch = ch'" for ch ch'
    using files unique_idsD by (auto simp: store_files_def)
  have one: "ch \<in> set (qr_chunks r) \<Longrightarrow> ch \<in> S \<and> ch_id ch \<in> set ids \<and> Q ch" for ch
  proof -
    assume "ch \<in> set (qr_chunks r)"
    then obtain cid where cid: "cid \<in> set ids" "?m cid = Some ch" using eq by (metis (no_types, opaque_lifting) image_iff)
    then obtain ch' where "ch' \<in> S" "ch_id ch' = cid" "Q ch'" using ids by blast
    with cid u show ?thesis by auto
  qed
  have two: "ch \<in> set (qr_chunks r)" if "ch \<in> S" "ch_id ch \<in> set ids" for ch
  proof -
    have "?m (ch_id ch) \<in> Some ` set (qr_chunks r)" using eq that(2) by simp
    then obtain ch' where "?m (ch_id ch) = Some ch'" "ch' \<in> set (qr_chunks r)" by auto
    with u that(1) show ?thesis by auto
  qed
  show "set (qr_chunks r) = {ch \<in> S. ch_id ch \<in> set ids}" using one two by blast
  show "\<And>ch. ch \<in> set (qr_chunks r) \<Longrightarrow> Q ch" using one by blast
qed

lemma temporal_index_get:
  "(case temporal_index s e (Some tln) c of None \<Rightarrow> index_default | Some ix \<Rightarrow> ix)
    = component_index_of (temporal_chunk_ids_per_entity_per_component s) e tln c"
  by (simp add: temporal_index_def component_index_of_def al_get_def split: option.splits)

lemma index_latest_at_default: "index_latest_at at0 index_default = None"
  by (simp add: index_latest_at_def index_default_def bt_range_to_def next_back_def)

lemma latest_at_relevant_eq:
  assumes "static_chunk_id s e c = None" "laq_timeline q = Some tln"
  shows "latest_at_relevant_chunks s mode q e c = from_chunk_ids s mode
    (latest_at_ids (temporal_chunk_ids_per_entity_per_component s) e tln c (laq_at q))"
proof -
  have "Option.bind (temporal_index s e (laq_timeline q) c) (index_latest_at (laq_at q))
      = index_latest_at (laq_at q) (component_index_of (temporal_chunk_ids_per_entity_per_component s) e tln c)"
    unfolding assms(2) temporal_index_get [symmetric]
    by (simp add: index_latest_at_default split: option.splits)
  with assms(1) show ?thesis by (simp add: latest_at_relevant_chunks_def latest_at_ids_def)
qed

lemma set_map_filter: "set (List.map_filter f xs) = {y. \<exists>x\<in>set xs. f x = Some y}"
  by (induction xs) (auto simp: List.map_filter_simps split: option.splits)

lemma max_by_key_greatest:
  "case max_by_key f xs of None \<Rightarrow> xs = [] | Some x \<Rightarrow> x \<in> set xs \<and> (\<forall>y\<in>set xs. f y \<le> f x)"
  by (induction xs) (auto split: option.splits)

lemma newest_cong: "set rows = set rows' \<Longrightarrow> newest P key rows r = newest P key rows' r"
  by (simp add: newest_def split: option.split)

lemma newest_pred_cong:
  "(\<And>x. x \<in> set rows \<Longrightarrow> P x = Q x) \<Longrightarrow> newest P key rows r = newest Q key rows r"
  by (auto simp: newest_def split: option.splits)

lemma traverse_Some_nth:
  assumes "\<And>x. x \<in> set xs \<Longrightarrow> \<exists>y. f x = Some y \<and> R x y"
  obtains ys where "traverse f xs = Some ys" "list_all2 R xs ys"
proof -
  have "\<exists>ys. traverse f xs = Some ys \<and> list_all2 R xs ys"
    using assms
  proof (induction xs)
    case (Cons x xs)
    then obtain y ys where "f x = Some y" "R x y" "traverse f xs = Some ys" "list_all2 R xs ys"
      by (metis list.set_intros)
    then show ?case by simp
  qed simp
  then show ?thesis using that by blast
qed

section \<open>Latest-at through the store\<close>

lemma unit_index_row:
  assumes "chunk_wf (uc_chunk u)" "chunk_rows (uc_chunk u) = [row]" "r_times row tln = Some t"
  shows "unit_index u (Some tln) = Some (new_temporal t, r_id row)"
proof -
  let ?ch = "uc_chunk u"
  have n: "num_rows ?ch = 1" using assms(2) by (metis length_chunk_rows length_Cons list.size(3) One_nat_def)
  then have row: "row = chunk_row ?ch 0" using assms(2) by (simp add: chunk_rows_def)
  then obtain tc where tc: "map_of (ch_timelines ?ch) tln = Some tc" "tc_times tc ! 0 = t"
    using assms(3) by (auto simp: chunk_row_def time_at_def)
  have l: "length (tc_times tc) = 1" using timelines_okD(2) [OF chunk_wfD(2) [OF assms(1)] tc(1)] n by simp
  have "\<not> chunk_is_static ?ch" using tc(1) by (auto simp: chunk_is_static_def)
  moreover have "list_first (tc_times_iter tc) = Some (new_temporal t)"
    using l tc(2) by (cases "tc_times tc") (auto simp: tc_times_iter_def list_first_def)
  moreover have "list_first (ch_row_ids ?ch) = Some (r_id row)"
    using n row by (cases "ch_row_ids ?ch") (auto simp: num_rows_def list_first_def chunk_row_def)
  ultimately show ?thesis using tc(1) by (simp add: unit_index_def)
qed

text \<open>What a chunk contributes: its newest row, and the unit chunk of that row.\<close>

definition chunk_answer :: "TimelineName \<Rightarrow> ComponentIdentifier \<Rightarrow> TimeInt \<Rightarrow> 'c Chunk \<Rightarrow> 'c UnitChunk option \<Rightarrow> bool" where
  "chunk_answer tln c at0 ch res \<longleftrightarrow>
     (\<exists>r. unit_result ch res r \<and> newest (row_until tln c at0) (row_time_key tln) (chunk_rows ch) r)"

lemma chunk_answers:
  assumes K: "arrow_laws K" and wf: "chunk_wf ch" and n: "num_rows ch \<noteq> 0" and srt: "ch_is_sorted ch"
    and pos: "\<forall>r\<in>set (ch_row_ids ch). Tuid_ZERO < r"
    and q: "laq_timeline q = Some tln" "laq_at q \<noteq> TimeInt_STATIC"
    and t: "t \<in> data_times ch tln c" "t \<le> as_i64 (laq_at q)"
  shows "\<exists>res. latest_at K new_id ch q c = Some res \<and> chunk_answer tln c (laq_at q) ch res"
proof -
  obtain tc col where tc: "map_of (ch_timelines ch) tln = Some tc" "map_of (ch_components ch) c = Some col"
    using data_times_column [OF wf, of tln c] t(1) by blast
  then have la: "get_array (ch_components ch) c \<noteq> None" by (simp add: get_array_def)
  have "t \<in> set (tc_times tc)" using data_times_eq [OF wf tc] t(1) set_mask_select by fast
  then have "tc_is_sorted tc \<longrightarrow> ch_is_sorted ch \<and> (\<exists>t\<in>set (tc_times tc). t \<le> as_i64 (laq_at q))"
    using srt t(2) by blast
  from latest_at_temporal_newest_row [OF K wf n la tc(1) q(1,2) pos this, of new_id] obtain res r where
    r: "latest_at K new_id ch q c = Some res" "unit_result ch res r"
      "newest (\<lambda>r. r_cells r c \<noteq> None \<and> the (r_times r tln) \<le> as_i64 (laq_at q)) (row_time_key tln) (chunk_rows ch) r"
    by blast
  have "newest (row_until tln c (laq_at q)) (row_time_key tln) (chunk_rows ch) r"
    using r(3)
  proof (rule newest_pred_cong [THEN iffD1, rotated])
    fix x assume "x \<in> set (chunk_rows ch)"
    then have "r_times x tln \<noteq> None" using tc(1) by (auto simp: chunk_rows_def chunk_row_def time_at_def)
    then show "(r_cells x c \<noteq> None \<and> the (r_times x tln) \<le> as_i64 (laq_at q)) = row_until tln c (laq_at q) x"
      by (simp add: row_until_def)
  qed
  with r(1,2) show ?thesis by (auto simp: chunk_answer_def)
qed

text \<open>The greatest index among the answers belongs to the newest row of all the chunks.\<close>

lemma greatest_answer:
  assumes ans: "list_all2 (chunk_answer tln c at0) chs units"
    and valid: "\<And>ch t. ch \<in> set chs \<Longrightarrow> t \<in> data_times ch tln c \<Longrightarrow> i64_MIN < t \<and> t \<le> i64_MAX"
  defines "indexed \<equiv> index_units (Some tln) units"
  shows "\<exists>r. newest (row_until tln c at0) (row_time_key tln) (concat (map chunk_rows chs)) r
    \<and> (case r of None \<Rightarrow> max_by_key fst indexed = None
       | Some row \<Rightarrow> \<exists>i u. max_by_key fst indexed = Some (i, u) \<and> chunk_rows (uc_chunk u) = [row])"
proof -
  let ?new = "newest (row_until tln c at0) (row_time_key tln)"
  have unit: "\<exists>row t. chunk_rows (uc_chunk u) = [row] \<and> r_times row tln = Some t \<and> i64_MIN < t \<and> t \<le> i64_MAX
      \<and> unit_index u (Some tln) = Some (new_temporal t, r_id row)
      \<and> row_until tln c at0 row \<and> row \<in> set (chunk_rows ch) \<and> ?new (chunk_rows ch) (Some row)"
    if a: "chunk_answer tln c at0 ch (Some u)" and chs: "ch \<in> set chs" for ch u
  proof -
    obtain row where row: "chunk_wf (uc_chunk u)" "chunk_rows (uc_chunk u) = [row]" "?new (chunk_rows ch) (Some row)"
      using a by (auto simp: chunk_answer_def unit_result_def)
    then have ru: "row_until tln c at0 row" "row \<in> set (chunk_rows ch)" by (auto simp: newest_def)
    then obtain t where t: "r_times row tln = Some t" by (auto simp: row_until_def)
    then have "t \<in> data_times ch tln c" using row_until_data [OF ru(2,1)] by simp
    with valid [OF chs] unit_index_row [OF row(1,2) t] row ru t show ?thesis by blast
  qed
  have cover: "\<exists>row u. (the (unit_index u (Some tln)), u) \<in> set indexed \<and> chunk_rows (uc_chunk u) = [row]
      \<and> row_time_key tln y \<le> row_time_key tln row"
    if y: "y \<in> set (concat (map chunk_rows chs))" "row_until tln c at0 y" for y
  proof -
    obtain ch where ch: "ch \<in> set chs" "y \<in> set (chunk_rows ch)" using y(1) by auto
    then obtain i where i: "i < length chs" "ch = chs ! i" by (metis in_set_conv_nth)
    have a: "chunk_answer tln c at0 ch (units ! i)" "i < length units"
      using ans i by (auto simp: list_all2_conv_all_nth)
    then obtain u where u: "units ! i = Some u"
      using ch(2) y(2) by (cases "units ! i") (auto simp: chunk_answer_def unit_result_def newest_def)
    obtain row where row: "chunk_rows (uc_chunk u) = [row]" "unit_index u (Some tln) \<noteq> None" "?new (chunk_rows ch) (Some row)"
      using unit [of ch u] a(1) u ch(1) by auto
    have "Some u \<in> set units" using u a(2) by (metis nth_mem)
    then have "(the (unit_index u (Some tln)), u) \<in> set indexed"
      using row(2) by (auto simp: indexed_def index_units_def set_map_filter intro!: bexI [of _ "Some u"])
    moreover have "row_time_key tln y \<le> row_time_key tln row" using row(3) ch(2) y(2) by (auto simp: newest_def)
    ultimately show ?thesis using row(1) by blast
  qed
  have member: "\<exists>row t. chunk_rows (uc_chunk u) = [row] \<and> r_times row tln = Some t \<and> i64_MIN < t \<and> t \<le> i64_MAX
      \<and> i = (new_temporal t, r_id row) \<and> row_until tln c at0 row \<and> row \<in> set (concat (map chunk_rows chs))"
    if "(i, u) \<in> set indexed" for i u
  proof -
    have iu: "Some u \<in> set units" "unit_index u (Some tln) = Some i"
      using that by (auto simp: indexed_def index_units_def set_map_filter Option.bind_eq_Some_conv)
    then obtain k where k: "k < length units" "units ! k = Some u" by (metis in_set_conv_nth)
    then have "chunk_answer tln c at0 (chs ! k) (Some u)" "chs ! k \<in> set chs"
      using ans by (auto simp: list_all2_conv_all_nth)
    with unit iu(2) show ?thesis by (fastforce)
  qed
  show ?thesis
  proof (cases "max_by_key fst indexed")
    case None
    then have "indexed = []" using max_by_key_greatest [where f = fst and xs = indexed] by simp
    then have "?new (concat (map chunk_rows chs)) None" using cover by (fastforce simp: newest_def)
    with None show ?thesis by (intro exI [of _ None]) simp
  next
    case (Some x)
    obtain i u where x: "x = (i, u)" by (cases x)
    have g: "(i, u) \<in> set indexed" "\<And>j v. (j, v) \<in> set indexed \<Longrightarrow> j \<le> i"
      using max_by_key_greatest [where f = fst and xs = indexed] Some x by auto
    obtain row t where row: "chunk_rows (uc_chunk u) = [row]" "r_times row tln = Some t" "i64_MIN < t" "t \<le> i64_MAX"
      "i = (new_temporal t, r_id row)" "row_until tln c at0 row" "row \<in> set (concat (map chunk_rows chs))"
      using member [OF g(1)] by blast
    have "row_time_key tln y \<le> row_time_key tln row"
      if y: "y \<in> set (concat (map chunk_rows chs))" "row_until tln c at0 y" for y
    proof -
      obtain row' v where v: "(the (unit_index v (Some tln)), v) \<in> set indexed" "chunk_rows (uc_chunk v) = [row']"
        "row_time_key tln y \<le> row_time_key tln row'" using cover [OF y] by blast
      obtain row2 t2 where r2: "chunk_rows (uc_chunk v) = [row2]" "r_times row2 tln = Some t2" "i64_MIN < t2" "t2 \<le> i64_MAX"
        "the (unit_index v (Some tln)) = (new_temporal t2, r_id row2)" using member [OF v(1)] by blast
      have "(new_temporal t2, r_id row2) \<le> (new_temporal t, r_id row)" using g(2) [OF v(1)] r2(5) row(5) by simp
      then have "row_time_key tln row2 \<le> row_time_key tln row"
        using row(2-4) r2(2-4)
        by (auto simp: row_time_key_def less_eq_TimeInt_iff less_TimeInt_iff as_i64_new_temporal_valid)
      with v(2,3) r2(1) show ?thesis by simp
    qed
    with row have "?new (concat (map chunk_rows chs)) (Some row)" by (simp add: newest_def)
    with Some x row(1) show ?thesis by (intro exI [of _ "Some row"]) simp
  qed
qed

text \<open>C1: a latest-at query through the store finds the newest row of the entity. When no static chunk
  overrides the component and every chunk the indices select is in memory, the body of
  \<open>LatestAtCache::latest_at\<close> does not panic and returns the unit chunk of the newest row among all rows
  of all filed chunks of the entity that have a value for the component and are not later than the
  query, by time and then by row id, and nothing exactly when there is no such row. The chunks filed
  are sorted by row id, span at most \<open>i64::MAX\<close> per column, and, for a query at the greatest time, have
  no column that is null everywhere.\<close>

theorem store_latest_at_newest:
  assumes K: "arrow_laws K" and files: "store_files s (set chs)"
    and ok: "\<forall>ch\<in>set chs. indexable e tln c ch \<and> ch_is_sorted ch \<and> (\<forall>r\<in>set (ch_row_ids ch). Tuid_ZERO < r)"
    and nn: "\<forall>ch\<in>set chs. laq_at q = TimeInt_MAX \<longrightarrow> \<not> null_column e tln c ch"
    and st: "static_chunk_id s e c = None" and q: "laq_timeline q = Some tln" "laq_at q \<noteq> TimeInt_STATIC"
    and res: "latest_at_relevant_chunks s mode q e c = Some (res, s')" "mode \<noteq> Ignore" "\<not> is_partial res"
  shows "\<exists>u row. latest_at_uncached K new_id s mode q e c = Some ((u, []), s')
    \<and> newest (row_until tln c (laq_at q)) (row_time_key tln)
        (concat (map chunk_rows (filter (\<lambda>ch. ch_entity_path ch = e) chs))) row
    \<and> (case row of None \<Rightarrow> u = None | Some x \<Rightarrow> \<exists>uc. u = Some uc \<and> chunk_rows (uc_chunk uc) = [x])"
proof -
  let ?m = "temporal_chunk_ids_per_entity_per_component s"
  let ?ids = "latest_at_ids ?m e tln c (laq_at q)"
  have m: "component_indexes ?m (set chs)" using files by (simp add: store_files_def)
  have ix: "\<And>ch. ch \<in> set chs \<Longrightarrow> indexable e tln c ch"
    "\<And>ch. ch \<in> set chs \<Longrightarrow> laq_at q = TimeInt_MAX \<Longrightarrow> \<not> null_column e tln c ch" using ok nn by auto
  have r: "from_chunk_ids s mode ?ids = Some (res, s')" using res(1) latest_at_relevant_eq [OF st q(1)] by simp
  let ?Q = "\<lambda>ch. ch_entity_path ch = e \<and> (\<exists>t\<in>data_times ch tln c. t \<le> as_i64 (laq_at q))"
  have snd: "\<exists>ch\<in>set chs. ch_id ch = cid \<and> ?Q ch" if "cid \<in> set ?ids" for cid
    using latest_at_ids_sound [OF m ix that] by blast
  note found = from_chunk_ids_found [OF r res(2,3) files snd]
  have ans: "\<exists>res'. latest_at K (new_id ch) ch q c = Some res' \<and> chunk_answer tln c (laq_at q) ch res'"
    if "ch \<in> set (qr_chunks res)" for ch
  proof -
    have ch: "ch \<in> set chs" "?Q ch" using that found by auto
    then show ?thesis using chunk_answers [OF K _ _ _ _ q] ok by (auto simp: indexable_def)
  qed
  obtain units where units: "traverse (\<lambda>ch. latest_at K (new_id ch) ch q c) (qr_chunks res) = Some units"
    "list_all2 (chunk_answer tln c (laq_at q)) (qr_chunks res) units"
    by (rule traverse_Some_nth [OF ans])
  have valid: "i64_MIN < t \<and> t \<le> i64_MAX" if "ch \<in> set (qr_chunks res)" "t \<in> data_times ch tln c" for ch t
    using found(1) that ok data_times_valid [of ch t tln c] by (auto simp: indexable_def)
  obtain row where row: "newest (row_until tln c (laq_at q)) (row_time_key tln) (concat (map chunk_rows (qr_chunks res))) row"
    "case row of None \<Rightarrow> max_by_key fst (index_units (Some tln) units) = None
     | Some x \<Rightarrow> \<exists>i u. max_by_key fst (index_units (Some tln) units) = Some (i, u)
         \<and> chunk_rows (uc_chunk u) = [x]"
    using greatest_answer [OF units(2)] valid by blast
  have "set (concat (map chunk_rows (qr_chunks res))) = set (concat (map chunk_rows
      (filter (\<lambda>ch. ch_entity_path ch = e \<and> ch_id ch \<in> set ?ids) chs)))"
    using found by auto
  from row(1) [unfolded newest_cong [OF this]]
  have new: "newest (row_until tln c (laq_at q)) (row_time_key tln)
      (concat (map chunk_rows (filter (\<lambda>ch. ch_entity_path ch = e) chs))) row"
    by (intro latest_at_ids_newest [OF m]) (use ix in blast)+
  have "latest_at_uncached K new_id s mode q e c = Some ((map_option snd (max_by_key fst
      (index_units (Some tln) units)), []), s')"
    using res(1,3) units(1) q(1) by (simp add: latest_at_uncached_def)
  with new row(2) show ?thesis by (cases row) auto
qed

section \<open>Ranges through the store\<close>

definition row_within :: "TimelineName \<Rightarrow> ComponentIdentifier \<Rightarrow> AbsoluteTimeRange \<Rightarrow> 'c row \<Rightarrow> bool" where
  "row_within tln c r row \<longleftrightarrow> r_cells row c \<noteq> None
     \<and> (\<exists>t. r_times row tln = Some t \<and> as_i64 (range_min r) \<le> t \<and> t \<le> as_i64 (range_max r))"

lemma meets_component_range_eq:
  "meets_component_range q c ch =
    (case component_range ch (rq_timeline q) c of None \<Rightarrow> False | Some r \<Rightarrow> range_intersects r (rq_range q))"
  by (simp add: meets_component_range_def component_range_def time_range_per_component_def map_of_map_values
      split: option.split)

lemma index_range_default: "index_range q [index_default] = []"
  by (simp add: index_range_def index_default_def bt_range_def split: prod.splits)

lemma range_relevant_eq:
  assumes "static_chunk_id s e c = None"
  shows "range_relevant_chunks s mode q e c = retain_chunks (meets_component_range q c) (from_chunk_ids s mode
    (index_range q [component_index_of (temporal_chunk_ids_per_entity_per_component s) e (rq_timeline q) c]))"
proof -
  have "index_range q (case temporal_index s e (Some (rq_timeline q)) c of None \<Rightarrow> [] | Some ix \<Rightarrow> [ix]) =
      index_range q [component_index_of (temporal_chunk_ids_per_entity_per_component s) e (rq_timeline q) c]"
    unfolding temporal_index_get [symmetric] using index_range_default [of q]
    by (simp add: index_range_def split: option.split)
  with assms show ?thesis by (simp add: range_relevant_chunks_def)
qed

text \<open>Whatever the options of the query, a chunk that is returned meets the queried range itself: one that
  holds only the tick before or after it is filtered out, although \<open>include_extended_bounds\<close> asks for
  that tick.\<close>

lemma range_results_meet_range:
  assumes "static_chunk_id s e c = None" "range_relevant_chunks s mode q e c = Some (res, s')" "ch \<in> set (qr_chunks res)"
  shows "\<exists>r. component_range ch (rq_timeline q) c = Some r \<and> range_intersects r (rq_range q)"
  using assms
  by (auto simp: range_relevant_eq retain_chunks_def meets_component_range_eq split: option.splits)

text \<open>C2: a range query through the store misses nothing. When no static chunk overrides the component
  and every chunk the index selects is in memory, the rows that the returned chunks have in the
  queried range are exactly the rows of all filed chunks of the entity in that range, with a value for
  the component; and every chunk returned is a filed chunk of the entity whose data meets the range.\<close>

theorem store_range_rows:
  assumes files: "store_files s S" and ok: "\<forall>ch\<in>S. indexable e (rq_timeline q) c ch"
    and st: "static_chunk_id s e c = None" and ext: "\<not> include_extended_bounds (rq_options q)"
    and res: "range_relevant_chunks s mode q e c = Some (res, s')" "mode \<noteq> Ignore" "\<not> is_partial res"
  shows "{row. \<exists>ch\<in>set (qr_chunks res). row \<in> set (chunk_rows ch) \<and> row_within (rq_timeline q) c (rq_range q) row}
      = {row. \<exists>ch\<in>S. ch_entity_path ch = e \<and> row \<in> set (chunk_rows ch) \<and> row_within (rq_timeline q) c (rq_range q) row}
    \<and> (\<forall>ch\<in>set (qr_chunks res). ch \<in> S \<and> ch_entity_path ch = e \<and> meets_component_range q c ch)"
proof -
  let ?tln = "rq_timeline q"
  let ?ix = "component_index_of (temporal_chunk_ids_per_entity_per_component s) e ?tln c"
  let ?R = "entries_by (component_filing e ?tln c) S"
  have ix: "index_holds ?ix ?R" using files by (simp add: store_files_def component_indexes_def)
  obtain res0 where r0: "from_chunk_ids s mode (index_range q [?ix]) = Some (res0, s')"
    "qr_chunks res = filter (meets_component_range q c) (qr_chunks res0)" "\<not> is_partial res0"
    using res by (auto simp: range_relevant_eq [OF st] retain_chunks_def is_partial_def)
  have "\<exists>ch\<in>S. ch_id ch = cid \<and> ch_entity_path ch = e" if cid: "cid \<in> set (index_range q [?ix])" for cid
  proof -
    obtain r where "(cid, r) \<in> ?R"
      using index_range_sound [of "[?ix]" "\<lambda>_. ?R" cid q] ix cid by auto
    then show ?thesis by (auto simp: entries_by_def component_filing_def split: if_splits)
  qed
  note found = from_chunk_ids_found [OF r0(1) res(2) r0(3) files this]
  have complete: "ch \<in> set (qr_chunks res)"
    if ch: "ch \<in> S" "ch_entity_path ch = e" and row: "row \<in> set (chunk_rows ch)" "row_within ?tln c (rq_range q) row" for ch row
  proof -
    obtain t where t: "t \<in> data_times ch ?tln c" "as_i64 (range_min (rq_range q)) \<le> t" "t \<le> as_i64 (range_max (rq_range q))"
      using row by (auto simp: row_within_def data_times_def)
    then obtain r where r: "component_filing e ?tln c ch = Some r" "as_i64 (range_min r) = Min (data_times ch ?tln c)"
      "as_i64 (range_max r) = Max (data_times ch ?tln c)" "int (range_abs_length r) \<le> i64_MAX"
      "range_min r \<le> range_max r" "range_min r \<noteq> TimeInt_STATIC"
      using component_filing_data [of e ?tln c ch] ok ch by blast
    have b: "as_i64 (range_min r) \<le> t" "t \<le> as_i64 (range_max r)" using t(1) r(2,3) by simp_all
    have "(ch_id ch, r) \<in> ?R" using ch(1) r(1) by (auto simp: entries_by_def)
    then have "ch_id ch \<in> set (index_range q [?ix])"
      by (intro index_range_complete [OF ix _ _ r(5,6,4)])
        (use b t(2,3) ext in \<open>auto simp: range_query_min_def range_query_max_def less_eq_TimeInt_iff\<close>)
    moreover have "meets_component_range q c ch"
      using r(1) b t ch(2) by (auto simp: meets_component_range_eq component_filing_def range_intersects_def
          less_eq_TimeInt_iff)
    ultimately show ?thesis using found(1) ch(1) r0(2) by simp
  qed
  have sound: "ch \<in> S \<and> ch_entity_path ch = e \<and> meets_component_range q c ch" if "ch \<in> set (qr_chunks res)" for ch
    using that found r0(2) by auto
  show ?thesis using complete sound by blast
qed

section \<open>A concrete store\<close>

text \<open>The chunk of the earlier runs, in memory and filed. Every chunk weighs 64 bytes.\<close>

definition demo_size :: "nat Chunk \<Rightarrow> nat" where
  "demo_size ch = 64"

definition demo_config :: ChunkStoreConfig where
  "demo_config = \<lparr>chunk_max_bytes = 1000, chunk_max_rows = 100, chunk_max_rows_if_unsorted = 10, enable_changelog = True\<rparr>"

definition demo_store :: "nat ChunkStore" where
  "demo_store = (store_new demo_config)\<lparr>
     chunks_lineage := [(ch_id demo_chunk, \<lparr>direct = Volatile, ref_count = 1, descends_from_manifest = False\<rparr>)],
     physical_chunks_per_chunk_id := [(ch_id demo_chunk, demo_chunk)],
     physical_chunk_ids_per_min_row_id := [(demo_id 1, ch_id demo_chunk)],
     temporal_chunk_ids_per_entity_per_component := insert_with_component demo_chunk [],
     temporal_chunk_ids_per_entity := insert_without_component demo_chunk [],
     temporal_physical_chunks_stats := stats_from_chunk demo_size demo_chunk\<rparr>"

lemma demo_store_sel [simp]:
  "physical_chunks_per_chunk_id demo_store = [(ch_id demo_chunk, demo_chunk)]"
  "physical_chunk_ids_per_min_row_id demo_store = [(demo_id 1, ch_id demo_chunk)]"
  "chunks_lineage demo_store = [(ch_id demo_chunk, \<lparr>direct = Volatile, ref_count = 1, descends_from_manifest = False\<rparr>)]"
  "temporal_physical_chunks_stats demo_store = stats_from_chunk demo_size demo_chunk"
  "static_chunks_stats demo_store = no_stats" "static_chunk_id demo_store e c = None"
  by (simp_all add: demo_store_def store_new_def static_chunk_id_def)

lemma demo_store_files: "store_files demo_store {demo_chunk}"
proof -
  have "unique_ids {demo_chunk}" by (simp add: unique_ids_def)
  then show ?thesis
    using by_component.indexes_file [OF by_component.indexes_none demo_chunk_wf]
      by_entity.indexes_file [OF by_entity.indexes_none demo_chunk_wf]
    by (simp add: store_files_def demo_store_def)
qed

lemma data_times_subset:
  assumes "chunk_wf ch" "map_of (ch_timelines ch) tln = Some tc"
  shows "data_times ch tln c \<subseteq> set (tc_times tc)"
proof
  fix t assume t: "t \<in> data_times ch tln c"
  then obtain col where "map_of (ch_components ch) c = Some col" using data_times_column [OF assms(1), of tln c] by blast
  with t show "t \<in> set (tc_times tc)" using data_times_eq [OF assms] set_mask_select by fast
qed

lemma demo_indexable: "indexable e ''frame'' c demo_chunk"
proof -
  let ?T = "data_times demo_chunk ''frame'' c"
  have sub: "?T \<subseteq> {3, 5}"
    using data_times_subset [OF demo_chunk_wf, of "''frame''" _ c] by (simp add: tc_new_def insert_commute)
  have "Max ?T - Min ?T \<le> i64_MAX" if "?T \<noteq> {}"
  proof -
    have "finite ?T" using sub by (rule finite_subset) simp
    then have "Max ?T \<in> {3, 5}" "Min ?T \<in> {3, 5}" using Max_in Min_in that sub by blast+
    then show ?thesis by (auto simp: i64_MAX_def)
  qed
  then show ?thesis by (simp add: indexable_def)
qed

text \<open>A query that only finds chunks in memory is not partial.\<close>

lemma from_chunk_ids_physical:
  assumes "\<forall>cid\<in>set ids. map_of (physical_chunks_per_chunk_id s) cid \<noteq> None" "mode \<noteq> PanicOnMissing"
  shows "\<exists>r s'. from_chunk_ids s mode ids = Some (r, s') \<and> \<not> is_partial r"
  using assms by (simp add: from_chunk_ids_def Let_def is_partial_def filter_empty_conv)

lemma demo_latest_at_found:
  assumes "at0 \<noteq> TimeInt_MAX"
  shows "\<exists>r s'. latest_at_relevant_chunks demo_store Report \<lparr>laq_timeline = Some ''frame'', laq_at = at0\<rparr>
    ''/world'' ''pos'' = Some (r, s') \<and> \<not> is_partial r"
proof -
  let ?m = "temporal_chunk_ids_per_entity_per_component demo_store"
  have m: "component_indexes ?m {demo_chunk}" using demo_store_files by (simp add: store_files_def)
  have "cid = ch_id demo_chunk" if cid: "cid \<in> set (latest_at_ids ?m ''/world'' ''frame'' ''pos'' at0)" for cid
  proof (rule latest_at_ids_sound [OF m _ _ cid])
    show "ch \<in> {demo_chunk} \<Longrightarrow> indexable ''/world'' ''frame'' ''pos'' ch" for ch using demo_indexable by simp
    show "at0 = TimeInt_MAX \<Longrightarrow> \<not> null_column ''/world'' ''frame'' ''pos'' ch" for ch using assms by simp
  qed simp
  then have "\<forall>cid\<in>set (latest_at_ids ?m ''/world'' ''frame'' ''pos'' at0). map_of (physical_chunks_per_chunk_id demo_store) cid \<noteq> None"
    by simp
  from from_chunk_ids_physical [OF this, of Report] show ?thesis
    by (simp add: latest_at_relevant_eq [where tln = "''frame''"])
qed

theorem store_latest_at_newest_witness:
  "\<exists>u s' row. latest_at_uncached list_kernels (\<lambda>_. demo_id 7) demo_store Report
      \<lparr>laq_timeline = Some ''frame'', laq_at = new_temporal 4\<rparr> ''/world'' ''pos'' = Some ((u, []), s')
    \<and> newest (row_until ''frame'' ''pos'' (new_temporal 4)) (row_time_key ''frame'') (chunk_rows demo_chunk) row
    \<and> (case row of None \<Rightarrow> u = None | Some x \<Rightarrow> \<exists>uc. u = Some uc \<and> chunk_rows (uc_chunk uc) = [x])"
proof -
  let ?q = "\<lparr>laq_timeline = Some ''frame'', laq_at = new_temporal 4\<rparr>"
  have at0: "new_temporal 4 \<noteq> TimeInt_STATIC" "new_temporal 4 \<noteq> TimeInt_MAX"
    using as_i64_new_temporal_valid [of 4] by (auto simp: i64_MIN_def i64_MAX_def)
  obtain r s' where r: "latest_at_relevant_chunks demo_store Report ?q ''/world'' ''pos'' = Some (r, s')" "\<not> is_partial r"
    using demo_latest_at_found [OF at0(2)] by blast
  have files: "store_files demo_store (set [demo_chunk])" using demo_store_files by simp
  have e: "concat (map chunk_rows (filter (\<lambda>ch. ch_entity_path ch = ''/world'') [demo_chunk])) = chunk_rows demo_chunk"
    by (simp add: demo_chunk_def)
  have "\<exists>u row. latest_at_uncached list_kernels (\<lambda>_. demo_id 7) demo_store Report ?q ''/world'' ''pos'' = Some ((u, []), s')
    \<and> newest (row_until ''frame'' ''pos'' (laq_at ?q)) (row_time_key ''frame'')
        (concat (map chunk_rows (filter (\<lambda>ch. ch_entity_path ch = ''/world'') [demo_chunk]))) row
    \<and> (case row of None \<Rightarrow> u = None | Some x \<Rightarrow> \<exists>uc. u = Some uc \<and> chunk_rows (uc_chunk uc) = [x])"
    by (rule store_latest_at_newest [OF arrow_laws_list_kernels files _ _ _ _ _ r(1) _ r(2)])
      (simp_all add: at0 demo_indexable)
  then show ?thesis unfolding e LatestAtQuery.simps by blast
qed

theorem store_range_rows_witness:
  "\<exists>res s'. range_relevant_chunks demo_store Report
      \<lparr>rq_timeline = ''frame'', rq_range = \<lparr>range_min = new_temporal 4, range_max = new_temporal 6\<rparr>,
        rq_options = RangeQueryOptions_DEFAULT\<rparr> ''/world'' ''pos'' = Some (res, s')
    \<and> {row. \<exists>ch\<in>set (qr_chunks res). row \<in> set (chunk_rows ch) \<and> row_within ''frame'' ''pos''
          \<lparr>range_min = new_temporal 4, range_max = new_temporal 6\<rparr> row}
      = {row. row \<in> set (chunk_rows demo_chunk) \<and> row_within ''frame'' ''pos''
          \<lparr>range_min = new_temporal 4, range_max = new_temporal 6\<rparr> row}"
proof -
  let ?q = "\<lparr>rq_timeline = ''frame'', rq_range = \<lparr>range_min = new_temporal 4, range_max = new_temporal 6\<rparr>,
        rq_options = RangeQueryOptions_DEFAULT\<rparr>"
  let ?ix = "component_index_of (temporal_chunk_ids_per_entity_per_component demo_store) ''/world'' (rq_timeline ?q) ''pos''"
  let ?R = "entries_by (component_filing ''/world'' (rq_timeline ?q) ''pos'') {demo_chunk}"
  have ix: "index_holds ?ix ?R" using demo_store_files by (simp only: store_files_def component_indexes_def)
  have "cid = ch_id demo_chunk" if cid: "cid \<in> set (index_range ?q [?ix])" for cid
    using index_range_sound [of "[?ix]" "\<lambda>_. ?R" cid ?q] ix cid by (auto simp: entries_by_def)
  then have "\<forall>cid\<in>set (index_range ?q [?ix]). map_of (physical_chunks_per_chunk_id demo_store) cid \<noteq> None" by simp
  from from_chunk_ids_physical [OF this, of Report] obtain res s' where
    r: "range_relevant_chunks demo_store Report ?q ''/world'' ''pos'' = Some (res, s')" "\<not> is_partial res"
    by (auto simp: range_relevant_eq retain_chunks_def is_partial_def)
  have ok: "\<forall>ch\<in>{demo_chunk}. indexable ''/world'' (rq_timeline ?q) ''pos'' ch" using demo_indexable by simp
  have "ch_entity_path demo_chunk = ''/world''" by (simp add: demo_chunk_def)
  with store_range_rows [OF demo_store_files ok _ _ r(1) _ r(2)] r(1) show ?thesis
    by (simp add: RangeQueryOptions_DEFAULT_def)
qed

end
