(* ===== verification/Store_Gc.thy ===== *)
theory Store_Gc
  imports Chunk_Store
begin

text \<open>
  Removal of chunks and garbage collection (\<open>re_chunk_store\<close>: \<open>gc.rs\<close> and
  \<open>find_temporal_chunks_furthest_from\<close> of \<open>query.rs\<close>). A shallow removal takes a chunk out of memory and
  leaves it in the indices as long as its lineage survives; a deep removal also takes it out of the
  indices. Collection marks chunks, the furthest from a time first and then by row id, and sweeps
  them. Clocks are parameters: \<open>exhausted n\<close> says that the budget is used up after \<open>n\<close> chunks.
\<close>

section \<open>Removal\<close>

datatype ChunkDeletionReason =
    GarbageCollection | VirtualToPhysicalReplacement | DanglingSplitCleanup | Compaction | Overwrite | ExplicitDrop

record 'c ChunkStoreDiffDeletion =
  del_chunk :: "'c Chunk"
  del_reason :: ChunkDeletionReason

definition drop_min_row_id :: "'c Chunk \<Rightarrow> 'c ChunkStore \<Rightarrow> 'c ChunkStore" where
  "drop_min_row_id ch s =
     (case row_id_range ch of
        None \<Rightarrow> s
      | Some (row_id_min, _) \<Rightarrow> s\<lparr>physical_chunk_ids_per_min_row_id :=
          bs_remove (row_id_min, ch_id ch) (physical_chunk_ids_per_min_row_id s)\<rparr>)"

definition drop_from_indices :: "'c Chunk \<Rightarrow> 'c ChunkStore \<Rightarrow> bool \<times> 'c ChunkStore" where
  "drop_from_indices ch s =
     (let (was_removed, with_comp, without_comp) = remove_chunk_from_virtual_indices ch
            (temporal_chunk_ids_per_entity_per_component s) (temporal_chunk_ids_per_entity s)
      in (was_removed, s\<lparr>temporal_chunk_ids_per_entity_per_component := with_comp,
            temporal_chunk_ids_per_entity := without_comp\<rparr>))"

text \<open>One round of the loop of \<open>remove_chunks_shallow\<close>.\<close>

definition remove_shallow :: "('c Chunk \<Rightarrow> nat) \<Rightarrow> 'c Chunk \<Rightarrow> 'c ChunkStore \<Rightarrow> 'c Chunk option \<times> 'c ChunkStore" where
  "remove_shallow size_bytes ch s =
     (let s = drop_min_row_id ch s in
      case map_of (physical_chunks_per_chunk_id s) (ch_id ch) of
        None \<Rightarrow> (None, s)
      | Some chunk \<Rightarrow>
          let s = s\<lparr>physical_chunks_per_chunk_id := bt_remove (ch_id ch) (physical_chunks_per_chunk_id s)\<rparr>;
              s = drop_lineage_reference (ch_id chunk) s;
              s = (if map_of (chunks_lineage s) (ch_id chunk) = None then snd (drop_from_indices chunk s) else s)
          in (Some chunk, s\<lparr>temporal_physical_chunks_stats :=
               stats_sub (temporal_physical_chunks_stats s) (stats_from_chunk size_bytes chunk)\<rparr>))"

fun shallow_loop ::
    "('c Chunk \<Rightarrow> nat) \<Rightarrow> (nat \<Rightarrow> bool) \<Rightarrow> ChunkDeletionReason \<Rightarrow> nat \<Rightarrow> 'c Chunk list \<Rightarrow> 'c ChunkStore \<Rightarrow>
     'c ChunkStoreDiffDeletion list \<times> 'c ChunkStore" where
  "shallow_loop size_bytes exhausted reason n [] s = ([], s)"
| "shallow_loop size_bytes exhausted reason n (ch # chs) s =
     (case remove_shallow size_bytes ch s of
        (None, s) \<Rightarrow> shallow_loop size_bytes exhausted reason n chs s
      | (Some chunk, s) \<Rightarrow>
          if exhausted (Suc n) then ([\<lparr>del_chunk = chunk, del_reason = reason\<rparr>], s)
          else apfst ((#) \<lparr>del_chunk = chunk, del_reason = reason\<rparr>)
                 (shallow_loop size_bytes exhausted reason (Suc n) chs s))"

definition remove_chunks_shallow ::
    "('c Chunk \<Rightarrow> nat) \<Rightarrow> (nat \<Rightarrow> bool) \<Rightarrow> ChunkDeletionReason \<Rightarrow> 'c Chunk list \<Rightarrow> 'c ChunkStore \<Rightarrow>
     'c ChunkStoreDiffDeletion list \<times> 'c ChunkStore" where
  "remove_chunks_shallow size_bytes exhausted reason chs s = shallow_loop size_bytes exhausted reason 0 chs s"

fun deep_loop ::
    "ChunkDeletionReason \<Rightarrow> 'c Chunk list \<Rightarrow> 'c ChunkStore \<Rightarrow> 'c ChunkStoreDiffDeletion list \<times> 'c ChunkStore" where
  "deep_loop reason [] s = ([], s)"
| "deep_loop reason (ch # chs) s =
     (case drop_from_indices ch s of
        (True, s) \<Rightarrow> apfst ((#) \<lparr>del_chunk = ch, del_reason = reason\<rparr>) (deep_loop reason chs s)
      | (False, s) \<Rightarrow> deep_loop reason chs s)"

text \<open>The deep pass ignores the time budget.\<close>

definition remove_chunks_deep ::
    "('c Chunk \<Rightarrow> nat) \<Rightarrow> ChunkDeletionReason \<Rightarrow> 'c Chunk list \<Rightarrow> 'c ChunkStore \<Rightarrow>
     'c ChunkStoreDiffDeletion list \<times> 'c ChunkStore" where
  "remove_chunks_deep size_bytes reason chs s =
     (let (shallow, s) = remove_chunks_shallow size_bytes (\<lambda>_. False) reason chs s;
          (deep, s) = deep_loop reason chs s;
          deep_ids = map (ch_id \<circ> del_chunk) deep
      in (deep @ filter (\<lambda>d. ch_id (del_chunk d) \<notin> set deep_ids) shallow, s))"

section \<open>Marking\<close>

datatype GarbageCollectionTarget =
    DropAtLeastBytes nat
  | DropAtLeastFraction "nat \<Rightarrow> nat"
  | Everything

text \<open>A fraction stands for the rounded product with it.\<close>

fun target_bytes_from_size :: "GarbageCollectionTarget \<Rightarrow> nat \<Rightarrow> nat" where
  "target_bytes_from_size (DropAtLeastBytes n) total_size = n"
| "target_bytes_from_size (DropAtLeastFraction f) total_size = f total_size"
| "target_bytes_from_size Everything total_size = 2 ^ 64 - 1"

record GarbageCollectionOptions =
  gc_target :: GarbageCollectionTarget
  protect_latest :: nat
  protected_time_ranges :: "(TimelineName \<times> AbsoluteTimeRange) list"
  protected_chunks :: "ChunkId set"
  furthest_from :: "(TimelineName \<times> TimeInt) option"
  perform_deep_deletions :: bool

definition gc_everything :: GarbageCollectionOptions where
  "gc_everything = \<lparr>gc_target = Everything, protect_latest = 0, protected_time_ranges = [], protected_chunks = {},
     furthest_from = None, perform_deep_deletions = False\<rparr>"

definition is_chunk_protected :: "GarbageCollectionOptions \<Rightarrow> 'c Chunk \<Rightarrow> bool" where
  "is_chunk_protected options ch \<longleftrightarrow> ch_id ch \<in> protected_chunks options
     \<or> (\<exists>(timeline, r) \<in> set (protected_time_ranges options).
          case map_of (ch_timelines ch) timeline of None \<Rightarrow> False | Some tc \<Rightarrow> range_intersects (tc_time_range tc) r)"

definition find_all_protected_physical_chunk_ids :: "'c ChunkStore \<Rightarrow> nat \<Rightarrow> ChunkId set" where
  "find_all_protected_physical_chunk_ids s target_count =
     (if target_count = 0 then {}
      else \<Union>((\<lambda>ix. set (take target_count (filter (\<lambda>cid. map_of (physical_chunks_per_chunk_id s) cid \<noteq> None)
          (concat (rev (map snd (per_start_time ix))) @ concat (rev (map snd (per_end_time ix)))))))
        ` set (concat (map (\<lambda>(_, per_timeline). concat (map (\<lambda>(_, per_component). map snd per_component) per_timeline))
            (temporal_chunk_ids_per_entity_per_component s)))))"

text \<open>The distance of a chunk from a time: on a sorted timeline from the two neighbours of the cut.\<close>

definition abs_diff :: "i64 \<Rightarrow> i64 \<Rightarrow> nat" where
  "abs_diff a b = nat \<bar>a - b\<bar>"

definition list_get :: "'a list \<Rightarrow> nat \<Rightarrow> 'a option" where
  "list_get xs i = (if i < length xs then Some (xs ! i) else None)"

definition min_distance_sorted :: "i64 list \<Rightarrow> TimeInt \<Rightarrow> nat option" where
  "min_distance_sorted ts time =
     (let pivot = partition_point (\<lambda>t. t < as_i64 time) ts;
          min_value1 = map_option (\<lambda>t. abs_diff t (as_i64 time)) (list_get ts (pivot - 1));
          min_value2 = map_option (\<lambda>t. abs_diff t (as_i64 time)) (list_get ts pivot)
      in iter_min (List.map_filter id [min_value1, min_value2]))"

definition min_distance :: "TimeColumn \<Rightarrow> TimeInt \<Rightarrow> nat option" where
  "min_distance tc time = iter_min (map (\<lambda>t. abs_diff (as_i64 t) (as_i64 time)) (tc_times_iter tc))"

definition furthest_by :: "(TimeColumn \<Rightarrow> nat option) \<Rightarrow> 'c ChunkStore \<Rightarrow> TimelineName \<Rightarrow> 'c Chunk list" where
  "furthest_by dist s timeline =
     map fst (sort_key (\<lambda>(_, d). - int d) (List.map_filter (\<lambda>(_, ch).
       Option.bind (map_of (ch_timelines ch) timeline) (\<lambda>tc. map_option (Pair ch) (dist tc)))
       (physical_chunks_per_chunk_id s)))"

definition find_temporal_chunks_furthest_from :: "'c ChunkStore \<Rightarrow> TimelineName \<Rightarrow> TimeInt \<Rightarrow> 'c Chunk list" where
  "find_temporal_chunks_furthest_from s timeline time =
     furthest_by (\<lambda>tc. if tc_is_sorted tc then min_distance_sorted (tc_times tc) time else min_distance tc time) s timeline"

definition find_temporal_chunks_furthest_from_slow :: "'c ChunkStore \<Rightarrow> TimelineName \<Rightarrow> TimeInt \<Rightarrow> 'c Chunk list" where
  "find_temporal_chunks_furthest_from_slow s timeline time = furthest_by (\<lambda>tc. min_distance tc time) s timeline"

text \<open>The two marking loops share their shape: push, count the bytes, stop. The flag says that a limit
  was reached.\<close>

fun mark_loop ::
    "('c Chunk \<Rightarrow> nat) \<Rightarrow> (nat \<Rightarrow> bool) \<Rightarrow> nat \<Rightarrow> nat \<Rightarrow> nat \<Rightarrow> 'c Chunk list \<Rightarrow> bool \<times> nat \<times> 'c Chunk list" where
  "mark_loop size_bytes exhausted target n dropped [] = (False, dropped, [])"
| "mark_loop size_bytes exhausted target n dropped (ch # chs) =
     (let dropped = dropped + size_bytes ch in
      if exhausted (Suc n) \<or> target \<le> dropped then (True, dropped, [ch])
      else apsnd (apsnd ((#) ch)) (mark_loop size_bytes exhausted target (Suc n) dropped chs))"

definition chunks_in_priority_order :: "'c ChunkStore \<Rightarrow> GarbageCollectionOptions \<Rightarrow> 'c Chunk list" where
  "chunks_in_priority_order s options =
     filter (\<lambda>ch. \<not> is_chunk_protected options ch)
      (filter (\<lambda>ch. \<not> chunk_is_static ch)
       (List.map_filter (map_of (physical_chunks_per_chunk_id s))
        (filter (\<lambda>cid. cid \<notin> find_all_protected_physical_chunk_ids s (protect_latest options))
         (map snd (physical_chunk_ids_per_min_row_id s)))))"

definition gc_find_candidates ::
    "('c Chunk \<Rightarrow> nat) \<Rightarrow> (nat \<Rightarrow> bool) \<Rightarrow> 'c ChunkStore \<Rightarrow> GarbageCollectionOptions \<Rightarrow> nat \<Rightarrow> 'c Chunk list" where
  "gc_find_candidates size_bytes exhausted s options target =
     (if target = 0 then []
      else
        let (reached, dropped, marked) = (case furthest_from options of
              None \<Rightarrow> (False, 0, [])
            | Some (timeline, time) \<Rightarrow> mark_loop size_bytes (\<lambda>_. False) target 0 0
                (filter (\<lambda>ch. \<not> is_chunk_protected options ch) (find_temporal_chunks_furthest_from s timeline time)))
        in if reached then marked
           else if dropped < target then
             marked @ snd (snd (mark_loop size_bytes exhausted target 0 dropped (chunks_in_priority_order s options)))
           else marked)"

section \<open>Collection\<close>

definition gc_drop_at_least_num_bytes ::
    "('c Chunk \<Rightarrow> nat) \<Rightarrow> (nat \<Rightarrow> bool) \<Rightarrow> (nat \<Rightarrow> bool) \<Rightarrow> GarbageCollectionOptions \<Rightarrow> nat \<Rightarrow> 'c ChunkStore \<Rightarrow>
     'c ChunkStoreDiffDeletion list \<times> 'c ChunkStore" where
  "gc_drop_at_least_num_bytes size_bytes mark_exhausted sweep_exhausted options target s =
     (let chs = gc_find_candidates size_bytes mark_exhausted s options target;
          (deep, shallow) = (if perform_deep_deletions options then (chs, [])
            else (filter (\<lambda>ch. \<not> is_root_chunk (chunks_lineage s) (ch_id ch)) chs,
                  filter (\<lambda>ch. is_root_chunk (chunks_lineage s) (ch_id ch)) chs));
          (dels1, s) = remove_chunks_shallow size_bytes sweep_exhausted GarbageCollection shallow s;
          (dels2, s) = remove_chunks_deep size_bytes GarbageCollection deep s
      in (dels1 @ dels2, s))"

definition gc ::
    "('c Chunk \<Rightarrow> nat) \<Rightarrow> (nat \<Rightarrow> bool) \<Rightarrow> (nat \<Rightarrow> bool) \<Rightarrow> GarbageCollectionOptions \<Rightarrow> 'c ChunkStore \<Rightarrow>
     ('c ChunkStoreDiffDeletion list \<times> ChunkStoreChunkStats) \<times> 'c ChunkStore" where
  "gc size_bytes mark_exhausted sweep_exhausted options s =
     (let s = s\<lparr>gc_id := gc_id s + 1\<rparr>;
          stats_before = stats_total s;
          target = target_bytes_from_size (gc_target options) (unat (st_total_size_bytes stats_before));
          (diffs, s) = gc_drop_at_least_num_bytes size_bytes mark_exhausted sweep_exhausted options target s
      in ((diffs, stats_sub stats_before (stats_total s)), s))"

section \<open>The invariant of a store\<close>

abbreviation physical :: "'c ChunkStore \<Rightarrow> ChunkId \<Rightarrow> 'c Chunk option" where
  "physical s \<equiv> map_of (physical_chunks_per_chunk_id s)"

definition physical_ok :: "'c ChunkStore \<Rightarrow> bool" where
  "physical_ok s \<longleftrightarrow> bt_wf (physical_chunks_per_chunk_id s)
     \<and> (\<forall>cid ch. physical s cid = Some ch \<longrightarrow> ch_id ch = cid \<and> chunk_wf ch \<and> num_rows ch \<noteq> 0)"

definition min_row_ids_exact :: "'c ChunkStore \<Rightarrow> bool" where
  "min_row_ids_exact s \<longleftrightarrow> bs_wf (physical_chunk_ids_per_min_row_id s)
     \<and> set (physical_chunk_ids_per_min_row_id s)
         = {(fst (the (row_id_range ch)), cid) | cid ch. physical s cid = Some ch}"

definition chunk_stats :: "('c Chunk \<Rightarrow> nat) \<Rightarrow> ('c Chunk \<Rightarrow> bool) \<Rightarrow> 'c ChunkStore \<Rightarrow> ChunkStoreChunkStats" where
  "chunk_stats size_bytes P s =
     stats_sum (map (stats_from_chunk size_bytes) (filter P (map snd (physical_chunks_per_chunk_id s))))"

definition stats_exact :: "('c Chunk \<Rightarrow> nat) \<Rightarrow> 'c ChunkStore \<Rightarrow> bool" where
  "stats_exact size_bytes s \<longleftrightarrow>
     temporal_physical_chunks_stats s = chunk_stats size_bytes (\<lambda>ch. \<not> chunk_is_static ch) s
     \<and> static_chunks_stats s = chunk_stats size_bytes chunk_is_static s"

text \<open>\<open>V\<close> are the temporal chunks the indices hold, in memory or not.\<close>

definition store_inv :: "('c Chunk \<Rightarrow> nat) \<Rightarrow> 'c ChunkStore \<Rightarrow> 'c Chunk set \<Rightarrow> bool" where
  "store_inv size_bytes s V \<longleftrightarrow> store_files s V \<and> physical_ok s \<and> min_row_ids_exact s \<and> stats_exact size_bytes s
     \<and> lineage_inv (chunks_lineage s) (dom (physical s))
     \<and> (\<forall>ch\<in>V. chunk_wf ch \<and> \<not> chunk_is_static ch)
     \<and> (\<forall>cid ch. physical s cid = Some ch \<longrightarrow> \<not> chunk_is_static ch \<longrightarrow> ch \<in> V)"

section \<open>Statistics\<close>

lemma stats_fields_sum:
  "st_num_chunks (stats_sum xs) = sum_list (map st_num_chunks xs)"
  "st_total_size_bytes (stats_sum xs) = sum_list (map st_total_size_bytes xs)"
  "st_num_rows (stats_sum xs) = sum_list (map st_num_rows xs)"
  "st_num_events (stats_sum xs) = sum_list (map st_num_events xs)"
proof -
  have "f (foldl stats_add a xs) = f a + sum_list (map f xs)"
    if "\<And>a b. f (stats_add a b) = f a + f b" for f :: "ChunkStoreChunkStats \<Rightarrow> u64" and a
    by (induction xs arbitrary: a) (simp_all add: that ac_simps)
  note * = this [of _ no_stats]
  show "st_num_chunks (stats_sum xs) = sum_list (map st_num_chunks xs)"
    "st_total_size_bytes (stats_sum xs) = sum_list (map st_total_size_bytes xs)"
    "st_num_rows (stats_sum xs) = sum_list (map st_num_rows xs)"
    "st_num_events (stats_sum xs) = sum_list (map st_num_events xs)"
    unfolding stats_sum_def by (subst *; simp add: stats_add_def no_stats_def)+
qed

lemma sum_list_bt_remove:
  fixes g :: "'v \<Rightarrow> u64"
  assumes "bt_wf m" "map_of m k = Some v"
  shows "sum_list (map g (filter P (map snd (bt_remove k m)))) =
    sum_list (map g (filter P (map snd m))) - (if P v then g v else 0)"
  using assms
proof (induction m)
  case (Cons x m)
  obtain k' v' where x: "x = (k', v')" by (cases x)
  show ?case
  proof (cases "k' = k")
    case True
    have "bt_remove k m = m" using Cons.prems(1) x True
      unfolding bt_remove_def by (intro filter_True) auto
    with True x Cons.prems(2) show ?thesis by (simp add: bt_remove_def)
  next
    case False
    with Cons x show ?thesis by (auto simp: bt_remove_def)
  qed
qed simp

lemma stats_from_chunk_sel [simp]:
  "st_num_chunks (stats_from_chunk sz ch) = 1" "st_total_size_bytes (stats_from_chunk sz ch) = of_nat (sz ch)"
  "st_num_rows (stats_from_chunk sz ch) = of_nat (num_rows ch)"
  "st_num_events (stats_from_chunk sz ch) = of_nat (num_events_cumulative ch)"
  by (simp_all add: stats_from_chunk_def)

lemma stats_sub_sel [simp]:
  "st_num_chunks (stats_sub a b) = st_num_chunks a - st_num_chunks b"
  "st_total_size_bytes (stats_sub a b) = st_total_size_bytes a - st_total_size_bytes b"
  "st_num_rows (stats_sub a b) = st_num_rows a - st_num_rows b"
  "st_num_events (stats_sub a b) = st_num_events a - st_num_events b"
  by (simp_all add: stats_sub_def)

lemma chunk_stats_remove:
  assumes "bt_wf (physical_chunks_per_chunk_id s)" "physical s cid = Some ch"
    "physical_chunks_per_chunk_id s' = bt_remove cid (physical_chunks_per_chunk_id s)"
  shows "chunk_stats sz P s' = (if P ch then stats_sub (chunk_stats sz P s) (stats_from_chunk sz ch) else chunk_stats sz P s)"
proof (rule ChunkStoreChunkStats.equality)
qed (use assms sum_list_bt_remove [OF assms(1,2), where P = P] in
  \<open>simp_all add: chunk_stats_def stats_fields_sum comp_def\<close>)

section \<open>Shallow removal\<close>

lemma drop_lineage_reference_fields [simp]:
  fixes s :: "'c ChunkStore"
  shows "store_config (drop_lineage_reference cid s) = store_config s"
    "physical_chunks_per_chunk_id (drop_lineage_reference cid s) = physical_chunks_per_chunk_id s"
    "physical_chunk_ids_per_min_row_id (drop_lineage_reference cid s) = physical_chunk_ids_per_min_row_id s"
    "temporal_chunk_ids_per_entity_per_component (drop_lineage_reference cid s) = temporal_chunk_ids_per_entity_per_component s"
    "temporal_chunk_ids_per_entity (drop_lineage_reference cid s) = temporal_chunk_ids_per_entity s"
    "temporal_physical_chunks_stats (drop_lineage_reference cid s) = temporal_physical_chunks_stats s"
    "static_chunk_ids_per_entity (drop_lineage_reference cid s) = static_chunk_ids_per_entity s"
    "static_chunks_stats (drop_lineage_reference cid s) = static_chunks_stats s"
    "queried_chunk_id_tracker (drop_lineage_reference cid s) = queried_chunk_id_tracker s"
    "insert_id (drop_lineage_reference cid s) = insert_id s" "gc_id (drop_lineage_reference cid s) = gc_id s"
  unfolding drop_lineage_reference_def
  by (rule drop_loop_preserves [where Inv = "\<lambda>t. f t = f s" for f]; simp add: forget_chunk_def)+

lemma snd_al_modify: "snd (al_modify k f (flag, m)) = snd (al_modify k f (False, m))"
  by (simp add: al_modify_def split: option.split prod.split)

lemma drop_from_indices_eq:
  "snd (drop_from_indices ch s) =
    s\<lparr>temporal_chunk_ids_per_entity_per_component :=
        drop_with_component ch (temporal_chunk_ids_per_entity_per_component s),
      temporal_chunk_ids_per_entity := drop_without_component ch (temporal_chunk_ids_per_entity s)\<rparr>"
proof -
  have "snd (remove_without_component ch (flag, m)) = drop_without_component ch m" for flag m
    unfolding remove_without_component_def drop_without_component_def by (rule snd_al_modify)
  then show ?thesis
    by (simp add: drop_from_indices_def remove_chunk_from_virtual_indices_def drop_with_component_def
        Let_def case_prod_beta')
qed

lemma store_files_drop:
  assumes "store_files s V" "chunk_wf ch" "unique_ids (insert ch V)"
  shows "store_files (snd (drop_from_indices ch s)) (V - {ch})"
  using assms by_component.indexes_drop [of "temporal_chunk_ids_per_entity_per_component s" V ch]
    by_entity.indexes_drop [of "temporal_chunk_ids_per_entity s" V ch] unique_ids_subset [of V "V - {ch}"]
  by (simp add: store_files_def drop_from_indices_eq)

lemma store_files_cong:
  assumes "store_files s V"
    "temporal_chunk_ids_per_entity_per_component s' = temporal_chunk_ids_per_entity_per_component s"
    "temporal_chunk_ids_per_entity s' = temporal_chunk_ids_per_entity s"
    "\<And>cid ch. physical s' cid = Some ch \<Longrightarrow> physical s cid = Some ch"
  shows "store_files s' V"
  using assms by (auto simp: store_files_def)

lemma min_row_id_pair:
  assumes "physical_ok s" "physical s cid = Some ch"
  obtains mn mx where "row_id_range ch = Some (mn, mx)"
proof -
  have "num_rows ch \<noteq> 0" using assms by (auto simp: physical_ok_def)
  then show ?thesis using that row_id_range_None [of ch] by (cases "row_id_range ch") auto
qed

lemma graph_remove:
  assumes "m k = Some v"
  shows "{(f x, c) | c x. (m(k := None)) c = Some x} = {(f x, c) | c x. m c = Some x} - {(f v, k)}" (is "?A = ?B")
proof (intro equalityI subsetI)
  fix p assume "p \<in> ?A"
  then obtain c x where "p = (f x, c)" "(m(k := None)) c = Some x" by blast
  then have "p = (f x, c)" "m c = Some x" "c \<noteq> k" by (auto split: if_splits)
  then show "p \<in> ?B" by blast
next
  fix p assume p: "p \<in> ?B"
  then obtain c x where "p = (f x, c)" "m c = Some x" by blast
  with p assms show "p \<in> ?A" by (cases "c = k") auto
qed

text \<open>What one round of a shallow removal does to a chunk in memory.\<close>

lemma remove_shallow_inv:
  assumes inv: "store_inv sz s V" and ch: "physical s (ch_id ch) = Some ch" "\<not> chunk_is_static ch"
  defines "s' \<equiv> snd (remove_shallow sz ch s)"
  shows "fst (remove_shallow sz ch s) = Some ch"
    and "physical_chunks_per_chunk_id s' = bt_remove (ch_id ch) (physical_chunks_per_chunk_id s)"
    and "chunks_lineage s' = chunks_lineage (drop_lineage_reference (ch_id ch) s)"
    and "store_inv sz s' (if map_of (chunks_lineage s') (ch_id ch) = None then V - {ch} else V)"
proof -
  have po: "physical_ok s" using inv by (simp add: store_inv_def)
  obtain mn mx where rr: "row_id_range ch = Some (mn, mx)" using min_row_id_pair [OF po ch(1)] .
  let ?p = "s\<lparr>physical_chunk_ids_per_min_row_id := bs_remove (mn, ch_id ch) (physical_chunk_ids_per_min_row_id s),
      physical_chunks_per_chunk_id := bt_remove (ch_id ch) (physical_chunks_per_chunk_id s)\<rparr>"
  let ?d = "drop_lineage_reference (ch_id ch) ?p"
  let ?gone = "map_of (chunks_lineage ?d) (ch_id ch) = None"
  let ?i = "if ?gone then snd (drop_from_indices ch ?d) else ?d"
  have eq: "remove_shallow sz ch s = (Some ch, ?i\<lparr>temporal_physical_chunks_stats :=
      stats_sub (temporal_physical_chunks_stats ?i) (stats_from_chunk sz ch)\<rparr>)"
    using rr ch(1) by (simp add: remove_shallow_def drop_min_row_id_def Let_def)
  then show "fst (remove_shallow sz ch s) = Some ch" by simp
  have i_sel: "physical_chunks_per_chunk_id ?i = bt_remove (ch_id ch) (physical_chunks_per_chunk_id s)"
    "chunks_lineage ?i = chunks_lineage ?d"
    "physical_chunk_ids_per_min_row_id ?i = bs_remove (mn, ch_id ch) (physical_chunk_ids_per_min_row_id s)"
    "temporal_physical_chunks_stats ?i = temporal_physical_chunks_stats s"
    "static_chunks_stats ?i = static_chunks_stats s"
    by (simp_all add: drop_from_indices_eq)
  show phys': "physical_chunks_per_chunk_id s' = bt_remove (ch_id ch) (physical_chunks_per_chunk_id s)"
    by (simp add: s'_def eq i_sel)
  have ld: "chunks_lineage ?d = chunks_lineage (drop_lineage_reference (ch_id ch) s)"
    unfolding drop_lineage_reference_def by (rule drop_loop_lineage_cong) simp
  have lin: "chunks_lineage s' = chunks_lineage ?d" by (simp add: s'_def eq drop_from_indices_eq)
  then show "chunks_lineage s' = chunks_lineage (drop_lineage_reference (ch_id ch) s)"
    by (simp only: ld)
  show "store_inv sz s' (if map_of (chunks_lineage s') (ch_id ch) = None then V - {ch} else V)"
  proof -
    let ?V = "if ?gone then V - {ch} else V"
    have chV: "ch \<in> V" and wfV: "\<And>x. x \<in> V \<Longrightarrow> chunk_wf x \<and> \<not> chunk_is_static x"
      and uV: "unique_ids V" and files: "store_files s V"
      using inv ch by (auto simp: store_inv_def store_files_def)
    have fd: "store_files ?d V" by (rule store_files_cong [OF files]) (auto split: if_splits)
    have "store_files ?i ?V"
      using fd store_files_drop [OF fd, of ch] chV wfV uV by (auto simp: insert_absorb)
    then have "store_files s' ?V" unfolding s'_def eq by (auto simp: store_files_def)
    moreover have "physical_ok s'"
      using po by (auto simp: physical_ok_def phys' bt_wf_remove split: if_splits)
    moreover have "min_row_ids_exact s'"
    proof -
      have "physical_chunk_ids_per_min_row_id s' = bs_remove (mn, ch_id ch) (physical_chunk_ids_per_min_row_id s)"
        by (simp add: s'_def eq i_sel)
      with inv show ?thesis
        using rr graph_remove [of "physical s" "ch_id ch" ch "\<lambda>x. fst (the (row_id_range x))"] ch(1)
        by (simp add: store_inv_def min_row_ids_exact_def phys' bs_wf_remove)
    qed
    moreover have "stats_exact sz s'"
    proof -
      have "bt_wf (physical_chunks_per_chunk_id s)" using po by (simp add: physical_ok_def)
      note cs = chunk_stats_remove [OF this ch(1) phys']
      have "temporal_physical_chunks_stats s' = stats_sub (temporal_physical_chunks_stats s) (stats_from_chunk sz ch)"
        "static_chunks_stats s' = static_chunks_stats s" by (simp_all add: s'_def eq i_sel)
      with inv ch(2) show ?thesis by (simp add: store_inv_def stats_exact_def cs)
    qed
    moreover have "lineage_inv (chunks_lineage s') (dom (physical s'))"
    proof -
      have "lineage_inv (chunks_lineage s) (dom (physical s))" using inv by (simp add: store_inv_def)
      moreover have "dom (physical s') = dom (physical s) - {ch_id ch}" by (auto simp: phys' split: if_splits)
      moreover have "chunks_lineage s' = chunks_lineage (drop_lineage_reference (ch_id ch) s)"
        using lin by (simp only: ld)
      ultimately show ?thesis using drop_reference_inv(1) [of s "dom (physical s)" "ch_id ch"] ch(1) by auto
    qed
    moreover have "\<forall>cid x. physical s' cid = Some x \<longrightarrow> \<not> chunk_is_static x \<longrightarrow> x \<in> ?V"
      using inv po by (auto simp: store_inv_def phys' physical_ok_def split: if_splits)
    moreover have "map_of (chunks_lineage s') (ch_id ch) = map_of (chunks_lineage ?d) (ch_id ch)"
      by (simp only: lin)
    ultimately show ?thesis using wfV unfolding store_inv_def by (simp split: if_splits)
  qed
qed

text \<open>A chunk that is not in memory changes nothing.\<close>

lemma remove_shallow_absent:
  assumes inv: "store_inv sz s V" and "physical s (ch_id ch) = None"
  shows "remove_shallow sz ch s = (None, s)"
proof -
  have "(mn, ch_id ch) \<notin> set (physical_chunk_ids_per_min_row_id s)" for mn
    using assms by (auto simp: store_inv_def min_row_ids_exact_def)
  then have "drop_min_row_id ch s = s"
    by (simp add: drop_min_row_id_def bs_remove_def split: option.split)
  with assms(2) show ?thesis by (simp add: remove_shallow_def)
qed

definition swept_from :: "'c ChunkStore \<Rightarrow> 'c ChunkStore \<Rightarrow> ChunkId set \<Rightarrow> bool" where
  "swept_from s s' R \<longleftrightarrow> physical s' = physical s |` (- R)"

lemma swept_from_trans: "swept_from s s1 R \<Longrightarrow> swept_from s1 s2 R' \<Longrightarrow> swept_from s s2 (R \<union> R')"
  by (auto simp: swept_from_def restrict_map_def fun_eq_iff)

text \<open>The chunks a removal is given are filed, or no longer in memory. Those it takes out of memory have
  ids in \<open>R\<close>; only an exhausted budget leaves some behind.\<close>

definition candidates :: "'c ChunkStore \<Rightarrow> 'c Chunk set \<Rightarrow> 'c Chunk list \<Rightarrow> bool" where
  "candidates s V chs \<longleftrightarrow> (\<forall>ch\<in>set chs. ch \<in> V \<or> physical s (ch_id ch) = None)"

definition sweep_result ::
    "('c Chunk \<Rightarrow> nat) \<Rightarrow> (nat \<Rightarrow> bool) \<Rightarrow> 'c ChunkStore \<Rightarrow> 'c Chunk set \<Rightarrow> 'c Chunk list \<Rightarrow>
     'c ChunkStore \<Rightarrow> 'c Chunk set \<Rightarrow> ChunkId set \<Rightarrow> bool" where
  "sweep_result sz exhausted s V chs s' V' R \<longleftrightarrow> store_inv sz s' V' \<and> V' \<subseteq> V \<and> V - set chs \<subseteq> V'
     \<and> swept_from s s' R \<and> R \<subseteq> ch_id ` set chs \<and> ((\<forall>k. \<not> exhausted k) \<longrightarrow> R = ch_id ` set chs)"

definition reported :: "ChunkDeletionReason \<Rightarrow> 'c ChunkStore \<Rightarrow> ChunkId set \<Rightarrow> 'c ChunkStoreDiffDeletion list \<Rightarrow> bool" where
  "reported reason s R dels \<longleftrightarrow> (\<forall>ch. ch \<in> del_chunk ` set dels \<longleftrightarrow> ch_id ch \<in> R \<and> physical s (ch_id ch) = Some ch)
     \<and> (\<forall>d\<in>set dels. del_reason d = reason)"

lemma sweep_resultD:
  assumes "sweep_result sz exhausted s V chs s' V' R"
  shows "store_inv sz s' V'" "V' \<subseteq> V" "V - set chs \<subseteq> V'" "swept_from s s' R" "R \<subseteq> ch_id ` set chs"
    "(\<forall>k. \<not> exhausted k) \<Longrightarrow> R = ch_id ` set chs"
  using assms unfolding sweep_result_def by (simp_all only: simp_thms)

lemma swept_absent:
  assumes "sweep_result sz exhausted s V chs s' V' R" "physical s (ch_id ch) = None"
  shows "sweep_result sz exhausted s V (ch # chs) s' V' (insert (ch_id ch) R)"
proof -
  note d = sweep_resultD [OF assms(1)]
  have "swept_from s s' (insert (ch_id ch) R)"
    using d(4) assms(2) unfolding swept_from_def fun_eq_iff restrict_map_def by simp
  moreover have "V - set (ch # chs) \<subseteq> V'" using d(3) by fastforce
  moreover have "insert (ch_id ch) R \<subseteq> ch_id ` set (ch # chs)" using d(5) by fastforce
  moreover have "(\<forall>k. \<not> exhausted k) \<longrightarrow> insert (ch_id ch) R = ch_id ` set (ch # chs)" using d(6) by simp
  ultimately show ?thesis using d(1,2) unfolding sweep_result_def by blast
qed

lemma swept_last:
  assumes "store_inv sz s1 V1" "V1 \<subseteq> V" "V - {ch} \<subseteq> V1" "swept_from s s1 {ch_id ch}" "exhausted k"
  shows "sweep_result sz exhausted s V (ch # chs) s1 V1 {ch_id ch}"
proof -
  have "V - set (ch # chs) \<subseteq> V1" using assms(3) by fastforce
  then show ?thesis using assms unfolding sweep_result_def by simp blast
qed

lemma swept_step:
  assumes "V1 \<subseteq> V" "V - {ch} \<subseteq> V1" "swept_from s s1 {ch_id ch}" "sweep_result sz exhausted s1 V1 chs s' V' R"
  shows "sweep_result sz exhausted s V (ch # chs) s' V' (insert (ch_id ch) R)"
proof -
  note d = sweep_resultD [OF assms(4)]
  have "swept_from s s' (insert (ch_id ch) R)" using swept_from_trans [OF assms(3) d(4)] by simp
  moreover have "V' \<subseteq> V" using d(2) assms(1) by (rule order_trans)
  moreover have "V - set (ch # chs) \<subseteq> V'" using d(3) assms(2) by fastforce
  moreover have "insert (ch_id ch) R \<subseteq> ch_id ` set (ch # chs)" using d(5) by fastforce
  moreover have "(\<forall>k. \<not> exhausted k) \<longrightarrow> insert (ch_id ch) R = ch_id ` set (ch # chs)" using d(6) by simp
  ultimately show ?thesis using d(1) unfolding sweep_result_def by blast
qed

lemma swept_physical:
  assumes "swept_from s s' R"
  shows "physical s' cid = (if cid \<in> R then None else physical s cid)"
  using assms by (simp add: swept_from_def restrict_map_def)

lemma candidates_step:
  assumes "candidates s V (ch # chs)" "V - {ch} \<subseteq> V1" "swept_from s s1 {ch_id ch}"
  shows "candidates s1 V1 chs"
  unfolding candidates_def
proof
  fix y assume "y \<in> set chs"
  then have "y \<in> V \<or> physical s (ch_id y) = None" using assms(1) by (simp add: candidates_def)
  with assms(2) show "y \<in> V1 \<or> physical s1 (ch_id y) = None"
    unfolding swept_physical [OF assms(3)] by (cases "y = ch") auto
qed

lemma reported_step:
  assumes "physical s (ch_id ch) = Some ch" "swept_from s s1 {ch_id ch}" "reported reason s1 R dels"
  shows "reported reason s (insert (ch_id ch) R) (\<lparr>del_chunk = ch, del_reason = reason\<rparr> # dels)"
proof -
  have "y \<in> del_chunk ` set (\<lparr>del_chunk = ch, del_reason = reason\<rparr> # dels)
      \<longleftrightarrow> y = ch \<or> ch_id y \<in> R \<and> physical s1 (ch_id y) = Some y" for y
    using assms(3) by (simp add: reported_def)
  moreover have "y = ch \<or> ch_id y \<in> R \<and> physical s1 (ch_id y) = Some y
      \<longleftrightarrow> ch_id y \<in> insert (ch_id ch) R \<and> physical s (ch_id y) = Some y" for y
    unfolding swept_physical [OF assms(2)] using assms(1) by (cases "ch_id y = ch_id ch") auto
  ultimately show ?thesis using assms(3) by (simp add: reported_def)
qed

lemma reported_absent:
  "reported reason s R dels \<Longrightarrow> physical s (ch_id ch) = None \<Longrightarrow> reported reason s (insert (ch_id ch) R) dels"
  unfolding reported_def by (metis insert_iff option.distinct(1))

lemma remove_shallow_present:
  assumes "store_inv sz s V" "physical s (ch_id ch) = Some x" "ch \<in> V"
  obtains s1 V1 where "remove_shallow sz ch s = (Some ch, s1)" "physical s (ch_id ch) = Some ch"
    "store_inv sz s1 V1" "V1 \<subseteq> V" "V - {ch} \<subseteq> V1" "swept_from s s1 {ch_id ch}"
proof -
  have x: "physical s (ch_id ch) = Some ch" using assms by (auto simp: store_inv_def store_files_def)
  have "\<not> chunk_is_static ch" using assms(1,3) by (simp add: store_inv_def)
  note one = remove_shallow_inv [OF assms(1) x this]
  show ?thesis
  proof (rule that [OF _ x one(4)])
    show "remove_shallow sz ch s = (Some ch, snd (remove_shallow sz ch s))" using one(1) by (simp add: prod_eq_iff)
    show "swept_from s (snd (remove_shallow sz ch s)) {ch_id ch}"
      unfolding swept_from_def one(2) by (simp add: restrict_map_def fun_eq_iff)
  qed simp_all
qed

lemma shallow_loop_inv:
  assumes "store_inv sz s V" "candidates s V chs" "shallow_loop sz exhausted reason n chs s = (dels, s')"
  shows "\<exists>V' R. sweep_result sz exhausted s V chs s' V' R \<and> reported reason s R dels"
  using assms
proof (induction chs arbitrary: n s V dels s')
  case Nil
  then have "sweep_result sz exhausted s V [] s' V {}" "reported reason s {} dels"
    by (simp_all add: sweep_result_def reported_def swept_from_def restrict_map_def)
  then show ?case by blast
next
  case (Cons ch chs)
  show ?case
  proof (cases "physical s (ch_id ch)")
    case None
    note r = remove_shallow_absent [OF Cons.prems(1) None]
    have "shallow_loop sz exhausted reason n chs s = (dels, s')" using Cons.prems(3) by (simp add: r)
    moreover have "candidates s V chs" using Cons.prems(2) by (simp add: candidates_def)
    ultimately obtain V' R where "sweep_result sz exhausted s V chs s' V' R" "reported reason s R dels"
      using Cons.IH [OF Cons.prems(1)] by blast
    then show ?thesis using swept_absent reported_absent None by blast
  next
    case (Some x)
    then have "ch \<in> V" using Cons.prems(2) by (simp add: candidates_def)
    from Cons.prems(1) Some this obtain s1 V1 where
      one: "remove_shallow sz ch s = (Some ch, s1)" "physical s (ch_id ch) = Some ch"
        "store_inv sz s1 V1" "V1 \<subseteq> V" "V - {ch} \<subseteq> V1" "swept_from s s1 {ch_id ch}"
      by (rule remove_shallow_present)
    note rep = reported_step [OF one(2,6)]
    show ?thesis
    proof (cases "exhausted (Suc n)")
      case True
      then have d: "dels = [\<lparr>del_chunk = ch, del_reason = reason\<rparr>]" "s' = s1" using Cons.prems(3) by (simp_all add: one(1))
      have "reported reason s {ch_id ch} dels" unfolding d using rep [of reason "{}" "[]"] by (simp add: reported_def)
      then show ?thesis using swept_last [OF one(3-6), of exhausted "Suc n"] True unfolding d(2) by blast
    next
      case False
      obtain dels1 where d: "shallow_loop sz exhausted reason (Suc n) chs s1 = (dels1, s')"
        "dels = \<lparr>del_chunk = ch, del_reason = reason\<rparr> # dels1" using Cons.prems(3) False
        by (cases "shallow_loop sz exhausted reason (Suc n) chs s1") (simp add: one(1))
      from Cons.IH [OF one(3) candidates_step [OF Cons.prems(2) one(5,6)] d(1)] obtain V' R where
        "sweep_result sz exhausted s1 V1 chs s' V' R" "reported reason s1 R dels1" by blast
      then show ?thesis unfolding d(2) using swept_step [OF one(4-6)] rep by blast
    qed
  qed
qed

section \<open>Deep removal\<close>

lemma drop_from_indices_store_inv:
  assumes inv: "store_inv sz s V'" and sub: "V' \<subseteq> V" "ch \<in> V" "unique_ids V" "chunk_wf ch"
    and gone: "physical s (ch_id ch) = None"
  defines "s' \<equiv> snd (drop_from_indices ch s)"
  shows "store_inv sz s' (V' - {ch})" "physical_chunks_per_chunk_id s' = physical_chunks_per_chunk_id s"
proof -
  have "unique_ids (insert ch V')" using sub by (intro unique_ids_subset [OF sub(3)]) simp
  then have "store_files s' (V' - {ch})"
    using inv sub(4) unfolding s'_def by (intro store_files_drop) (simp_all add: store_inv_def)
  moreover have "physical_chunks_per_chunk_id s' = physical_chunks_per_chunk_id s"
    "physical_chunk_ids_per_min_row_id s' = physical_chunk_ids_per_min_row_id s"
    "temporal_physical_chunks_stats s' = temporal_physical_chunks_stats s"
    "static_chunks_stats s' = static_chunks_stats s" "chunks_lineage s' = chunks_lineage s"
    by (simp_all add: s'_def drop_from_indices_eq)
  note eqs = this
  ultimately show "store_inv sz s' (V' - {ch})"
    using inv gone by (auto simp: store_inv_def physical_ok_def min_row_ids_exact_def stats_exact_def
        chunk_stats_def eqs)
  show "physical_chunks_per_chunk_id s' = physical_chunks_per_chunk_id s" by (rule eqs(1))
qed

lemma deep_loop_inv:
  assumes "store_inv sz s V'" "V' \<subseteq> V" "set chs \<subseteq> V" "unique_ids V" "\<forall>ch\<in>V. chunk_wf ch"
    "\<forall>ch\<in>set chs. physical s (ch_id ch) = None" "deep_loop reason chs s = (dels, s')"
  shows "store_inv sz s' (V' - set chs) \<and> physical_chunks_per_chunk_id s' = physical_chunks_per_chunk_id s
    \<and> del_chunk ` set dels \<subseteq> set chs \<and> (\<forall>d\<in>set dels. del_reason d = reason)"
  using assms
proof (induction chs arbitrary: s V' dels s')
  case (Cons ch chs)
  let ?s = "snd (drop_from_indices ch s)"
  have ch: "ch \<in> V" "chunk_wf ch" "physical s (ch_id ch) = None" using Cons.prems(3,5,6) by auto
  note one = drop_from_indices_store_inv [OF Cons.prems(1,2) ch(1) Cons.prems(4) ch(2,3)]
  obtain dels1 where d: "deep_loop reason chs ?s = (dels1, s')"
    "dels = dels1 \<or> dels = \<lparr>del_chunk = ch, del_reason = reason\<rparr> # dels1"
    using Cons.prems(7) by (cases "drop_from_indices ch s"; cases "deep_loop reason chs ?s") (auto split: bool.splits)
  have "V' - {ch} \<subseteq> V" "set chs \<subseteq> V" "\<forall>ch\<in>set chs. physical ?s (ch_id ch) = None"
    using Cons.prems(2,3,6) by (auto simp: one(2))
  from Cons.IH [OF one(1) this(1,2) Cons.prems(4,5) this(3) d(1)] d(2)
  show ?case by (auto simp: one(2) Diff_insert2 [symmetric] image_subset_iff)
qed simp

lemma remove_chunks_deep_inv:
  assumes inv: "store_inv sz s V" and chs: "set chs \<subseteq> V" and r: "remove_chunks_deep sz reason chs s = (dels, s')"
  shows "store_inv sz s' (V - set chs)" "swept_from s s' (ch_id ` set chs)" "del_chunk ` set dels \<subseteq> set chs"
    "\<And>ch. ch \<in> set chs \<Longrightarrow> physical s (ch_id ch) = Some ch \<Longrightarrow> ch \<in> del_chunk ` set dels"
    "\<forall>d\<in>set dels. del_reason d = reason"
proof -
  obtain sh s1 dp where l: "shallow_loop sz (\<lambda>_. False) reason 0 chs s = (sh, s1)" "deep_loop reason chs s1 = (dp, s')"
    "dels = dp @ filter (\<lambda>d. ch_id (del_chunk d) \<notin> set (map (ch_id \<circ> del_chunk) dp)) sh"
    using r unfolding remove_chunks_deep_def remove_chunks_shallow_def
    by (auto simp: Let_def split: prod.splits)
  have "candidates s V chs" using chs by (auto simp: candidates_def)
  from shallow_loop_inv [OF inv this l(1)] obtain V1 R where
    sw: "sweep_result sz (\<lambda>_. False) s V chs s1 V1 R" and rep: "reported reason s R sh" by blast
  note d = sweep_resultD [OF sw]
  have R: "R = ch_id ` set chs" using d(6) by simp
  have uV: "unique_ids V" "\<forall>ch\<in>V. chunk_wf ch" using inv by (simp_all add: store_inv_def store_files_def)
  have "\<forall>ch\<in>set chs. physical s1 (ch_id ch) = None" by (simp add: swept_physical [OF d(4)] R)
  note dl = deep_loop_inv [OF d(1,2) chs uV this l(2)]
  have "V1 - set chs = V - set chs" using d(2,3) by blast
  then show "store_inv sz s' (V - set chs)" using dl by simp
  show "swept_from s s' (ch_id ` set chs)" using dl d(4) unfolding swept_from_def R by simp
  have shc: "ch \<in> del_chunk ` set sh \<longleftrightarrow> ch_id ch \<in> R \<and> physical s (ch_id ch) = Some ch" for ch
    using rep by (simp add: reported_def)
  have same: "x = y" if "x \<in> set chs" "ch_id y \<in> R" "physical s (ch_id y) = Some y" "ch_id x = ch_id y" for x y
  proof -
    have "physical s (ch_id x) = Some y" using that(3,4) by simp
    then show ?thesis using inv chs that(1) by (auto simp: store_inv_def store_files_def)
  qed
  have "del_chunk ` set sh \<subseteq> set chs"
  proof
    fix y assume "y \<in> del_chunk ` set sh"
    then have y: "ch_id y \<in> R" "physical s (ch_id y) = Some y" using shc by simp_all
    then obtain x where "x \<in> set chs" "ch_id x = ch_id y" unfolding R by auto
    with same y show "y \<in> set chs" by blast
  qed
  then show "del_chunk ` set dels \<subseteq> set chs" using dl unfolding l(3) by auto
  show "\<forall>d\<in>set dels. del_reason d = reason" using dl rep unfolding l(3) reported_def by auto
  fix ch assume ch: "ch \<in> set chs" "physical s (ch_id ch) = Some ch"
  then have "ch \<in> del_chunk ` set sh" unfolding shc R by simp
  then obtain d where d: "d \<in> set sh" "del_chunk d = ch" by blast
  show "ch \<in> del_chunk ` set dels"
  proof (cases "ch_id ch \<in> set (map (ch_id \<circ> del_chunk) dp)")
    case True
    then obtain x where x: "x \<in> set dp" "ch_id (del_chunk x) = ch_id ch" by auto
    then have "del_chunk x = ch" using same [of "del_chunk x" ch] ch dl unfolding R by auto
    with x show ?thesis unfolding l(3) by auto
  next
    case False
    with d show ?thesis unfolding l(3) by auto
  qed
qed

section \<open>What is marked\<close>

lemma mark_loop_marks:
  assumes "mark_loop sz exhausted target n dropped chs = (reached, dropped', marked)"
  shows "\<exists>rest. chs = marked @ rest \<and> dropped' = dropped + sum_list (map sz marked)
    \<and> (\<not> reached \<longrightarrow> rest = []) \<and> (reached \<and> (\<forall>k. \<not> exhausted k) \<longrightarrow> target \<le> dropped')"
  using assms
proof (induction chs arbitrary: n dropped reached dropped' marked)
  case (Cons ch chs)
  show ?case
  proof (cases "exhausted (Suc n) \<or> target \<le> dropped + sz ch")
    case True
    with Cons.prems show ?thesis by (auto simp: Let_def)
  next
    case False
    then obtain m where m: "mark_loop sz exhausted target (Suc n) (dropped + sz ch) chs = (reached, dropped', m)"
      "marked = ch # m"
      using Cons.prems by (cases "mark_loop sz exhausted target (Suc n) (dropped + sz ch) chs") (auto simp: Let_def)
    from Cons.IH [OF m(1)] show ?thesis by (auto simp: m(2) add.assoc)
  qed
qed simp

lemma set_mark_loop: "set (snd (snd (mark_loop sz exhausted target n dropped chs))) \<subseteq> set chs"
proof -
  obtain reached dropped' marked where "mark_loop sz exhausted target n dropped chs = (reached, dropped', marked)"
    by (cases "mark_loop sz exhausted target n dropped chs") auto
  from mark_loop_marks [OF this] this show ?thesis by auto
qed

lemma furthest_physical:
  assumes "store_inv sz s V" "ch \<in> set (furthest_by dist s timeline)"
  shows "physical s (ch_id ch) = Some ch" "\<not> chunk_is_static ch"
proof -
  have wf: "bt_wf (physical_chunks_per_chunk_id s)" and ids: "\<And>cid x. physical s cid = Some x \<Longrightarrow> ch_id x = cid"
    using assms(1) by (auto simp: store_inv_def physical_ok_def)
  from assms(2) obtain cid tc where p: "(cid, ch) \<in> set (physical_chunks_per_chunk_id s)"
    "map_of (ch_timelines ch) timeline = Some tc"
    unfolding furthest_by_def by (auto simp: set_map_filter split: bind_splits)
  then have "physical s cid = Some ch" using bt_wf_distinct [OF wf] by simp
  with ids show "physical s (ch_id ch) = Some ch" by auto
  show "\<not> chunk_is_static ch" using p(2) by (auto simp: chunk_is_static_def)
qed

lemma priority_physical:
  assumes "store_inv sz s V" "ch \<in> set (chunks_in_priority_order s options)"
  shows "physical s (ch_id ch) = Some ch" "\<not> chunk_is_static ch" "\<not> is_chunk_protected options ch"
    "ch_id ch \<notin> find_all_protected_physical_chunk_ids s (protect_latest options)"
proof -
  obtain cid where cid: "physical s cid = Some ch" "cid \<notin> find_all_protected_physical_chunk_ids s (protect_latest options)"
    using assms(2) by (auto simp: chunks_in_priority_order_def set_map_filter)
  have "ch_id ch = cid" using assms(1) cid(1) by (auto simp: store_inv_def physical_ok_def)
  with cid show "physical s (ch_id ch) = Some ch"
    "ch_id ch \<notin> find_all_protected_physical_chunk_ids s (protect_latest options)" by simp_all
  show "\<not> chunk_is_static ch" "\<not> is_chunk_protected options ch"
    using assms(2) by (simp_all add: chunks_in_priority_order_def)
qed

lemma gc_candidate:
  assumes inv: "store_inv sz s V" and ch: "ch \<in> set (gc_find_candidates sz exhausted s options target)"
  shows "ch \<in> V" "physical s (ch_id ch) = Some ch" "\<not> chunk_is_static ch" "\<not> is_chunk_protected options ch"
    "furthest_from options = None \<Longrightarrow> ch_id ch \<notin> find_all_protected_physical_chunk_ids s (protect_latest options)"
proof -
  let ?far = "\<exists>timeline time. furthest_from options = Some (timeline, time)
      \<and> ch \<in> set (find_temporal_chunks_furthest_from s timeline time) \<and> \<not> is_chunk_protected options ch"
  have "?far \<or> ch \<in> set (chunks_in_priority_order s options)"
  proof (cases "furthest_from options")
    case None
    with ch set_mark_loop show ?thesis
      by (fastforce simp: gc_find_candidates_def Let_def split: if_splits)
  next
    case (Some tt)
    obtain timeline time where tt: "tt = (timeline, time)" by (cases tt)
    let ?chs = "filter (\<lambda>ch. \<not> is_chunk_protected options ch) (find_temporal_chunks_furthest_from s timeline time)"
    obtain reached dropped marked where m: "mark_loop sz (\<lambda>_. False) target 0 0 ?chs = (reached, dropped, marked)"
      by (cases "mark_loop sz (\<lambda>_. False) target 0 0 ?chs") auto
    then have "set marked \<subseteq> set ?chs" using set_mark_loop [of sz "\<lambda>_. False" target 0 0 ?chs] by simp
    moreover have "ch \<in> set marked \<or> ch \<in> set (chunks_in_priority_order s options)"
      using ch Some set_mark_loop [of sz exhausted target 0 dropped "chunks_in_priority_order s options"]
      by (auto simp: gc_find_candidates_def Let_def tt m split: if_splits)
    ultimately show ?thesis using Some tt by auto
  qed
  then show p: "physical s (ch_id ch) = Some ch" and st: "\<not> chunk_is_static ch"
    and "\<not> is_chunk_protected options ch"
    using furthest_physical [OF inv] priority_physical [OF inv] unfolding find_temporal_chunks_furthest_from_def by blast+
  show "furthest_from options = None \<Longrightarrow> ch_id ch \<notin> find_all_protected_physical_chunk_ids s (protect_latest options)"
    using \<open>?far \<or> _\<close> priority_physical(4) [OF inv] by auto
  show "ch \<in> V" using inv p st by (auto simp: store_inv_def)
qed

section \<open>What is swept\<close>

definition gone :: "'c ChunkStore \<Rightarrow> 'c ChunkStore \<Rightarrow> 'c Chunk set" where
  "gone s s' = {ch. physical s (ch_id ch) = Some ch \<and> physical s' (ch_id ch) = None}"

lemma gone_swept: "swept_from s s' R \<Longrightarrow> ch \<in> gone s s' \<longleftrightarrow> ch_id ch \<in> R \<and> physical s (ch_id ch) = Some ch"
  by (auto simp: gone_def swept_physical)

lemma gone_trans:
  assumes "swept_from s s1 R1" "swept_from s1 s2 R2"
  shows "gone s s2 = gone s s1 \<union> gone s1 s2"
  using swept_physical [OF assms(1)] swept_physical [OF assms(2)] by (auto simp: gone_def)

lemma sweep_parts:
  assumes chs: "\<forall>ch\<in>set chs. ch \<in> V \<and> physical s (ch_id ch) = Some ch"
    and split: "set deep \<union> set shallow = set chs" "set deep \<inter> set shallow = {}"
    and sw: "sweep_result sz exhausted s V shallow s1 V1 R1" and ch: "ch \<in> set deep"
  shows "ch \<in> V1" "physical s1 (ch_id ch) = Some ch"
proof -
  note d1 = sweep_resultD [OF sw]
  have mem: "ch \<in> set chs" "ch \<notin> set shallow" using ch split by blast+
  then show "ch \<in> V1" using chs d1(3) by blast
  have "ch_id ch \<notin> R1"
  proof
    assume "ch_id ch \<in> R1"
    then obtain x where x: "x \<in> set shallow" "ch_id x = ch_id ch" using d1(5) by (metis imageE subsetD)
    then have "physical s (ch_id ch) = Some x" using chs split(1) by (metis UnCI)
    then have "x = ch" using chs mem(1) by simp
    with x(1) mem(2) show False by simp
  qed
  then show "physical s1 (ch_id ch) = Some ch" using chs mem(1) by (simp add: swept_physical [OF d1(4)])
qed

lemma sweep_result_deep:
  assumes sw: "sweep_result sz exhausted s V shallow s1 V1 R1" and split: "set deep \<union> set shallow = set chs"
    and d2: "store_inv sz s' (V1 - set deep)" "swept_from s1 s' (ch_id ` set deep)"
  shows "sweep_result sz exhausted s V chs s' (V1 - set deep) (R1 \<union> ch_id ` set deep)"
proof -
  note d1 = sweep_resultD [OF sw]
  have "V - set chs \<subseteq> V1 - set deep" using d1(3) split by blast
  moreover have "V1 - set deep \<subseteq> V" using d1(2) by blast
  moreover have "R1 \<union> ch_id ` set deep \<subseteq> ch_id ` set chs" using d1(5) unfolding split [symmetric] image_Un by blast
  moreover have "(\<forall>k. \<not> exhausted k) \<longrightarrow> R1 \<union> ch_id ` set deep = ch_id ` set chs"
    using d1(6) unfolding split [symmetric] image_Un by blast
  moreover have "swept_from s s' (R1 \<union> ch_id ` set deep)" by (rule swept_from_trans [OF d1(4) d2(2)])
  ultimately show ?thesis using d2(1) unfolding sweep_result_def by simp
qed

lemma gone_deep:
  assumes "swept_from s1 s' (ch_id ` set deep)" "\<forall>ch\<in>set deep. physical s1 (ch_id ch) = Some ch"
  shows "gone s1 s' = set deep"
proof (intro equalityI subsetI)
  fix ch assume "ch \<in> gone s1 s'"
  then obtain x where "x \<in> set deep" "ch_id ch = ch_id x" "physical s1 (ch_id ch) = Some ch"
    unfolding gone_swept [OF assms(1)] by blast
  then show "ch \<in> set deep" using assms(2) by (metis option.inject)
next
  fix ch assume "ch \<in> set deep"
  then show "ch \<in> gone s1 s'" unfolding gone_swept [OF assms(1)] using assms(2) by simp
qed

lemma reported_gone:
  assumes "reported reason s R dels" "swept_from s s' R"
  shows "del_chunk ` set dels = gone s s'"
proof (rule set_eqI)
  show "ch \<in> del_chunk ` set dels \<longleftrightarrow> ch \<in> gone s s'" for ch
    unfolding gone_swept [OF assms(2)] using assms(1) by (simp add: reported_def)
qed

lemma sweep_candidates:
  assumes inv: "store_inv sz s V" and chs: "\<forall>ch\<in>set chs. ch \<in> V \<and> physical s (ch_id ch) = Some ch"
    and split: "set deep \<union> set shallow = set chs" "set deep \<inter> set shallow = {}"
    and sh: "remove_chunks_shallow sz exhausted reason shallow s = (dels1, s1)"
    and dp: "remove_chunks_deep sz reason deep s1 = (dels2, s')"
  shows "\<exists>V' R. sweep_result sz exhausted s V chs s' V' R \<and> del_chunk ` set (dels1 @ dels2) = gone s s'
    \<and> (\<forall>d\<in>set (dels1 @ dels2). del_reason d = reason)"
proof -
  have "candidates s V shallow" using chs split(1) unfolding candidates_def by blast
  from shallow_loop_inv [OF inv this sh [unfolded remove_chunks_shallow_def]] obtain V1 R1 where
    sw: "sweep_result sz exhausted s V shallow s1 V1 R1" and rep: "reported reason s R1 dels1" by blast
  note d1 = sweep_resultD [OF sw] and parts = sweep_parts [OF chs split sw]
  have "set deep \<subseteq> V1" using parts(1) by blast
  note d2 = remove_chunks_deep_inv [OF d1(1) this dp]
  have deep1: "\<forall>ch\<in>set deep. physical s1 (ch_id ch) = Some ch" using parts(2) by blast
  then have "del_chunk ` set dels2 = gone s1 s'" using d2(3,4) unfolding gone_deep [OF d2(2) deep1] by blast
  then have "del_chunk ` set (dels1 @ dels2) = gone s s'"
    unfolding set_append image_Un gone_trans [OF d1(4) d2(2)] reported_gone [OF rep d1(4)] by simp
  moreover have "\<forall>d\<in>set (dels1 @ dels2). del_reason d = reason"
    using rep d2(5) unfolding reported_def set_append by blast
  ultimately show ?thesis using sweep_result_deep [OF sw split(1) d2(1,2)] by blast
qed

definition gc_candidates ::
    "('c Chunk \<Rightarrow> nat) \<Rightarrow> (nat \<Rightarrow> bool) \<Rightarrow> GarbageCollectionOptions \<Rightarrow> 'c ChunkStore \<Rightarrow> 'c Chunk list" where
  "gc_candidates sz exhausted options s = gc_find_candidates sz exhausted s options
     (target_bytes_from_size (gc_target options) (unat (st_total_size_bytes (stats_total s))))"

lemma gc_id_irrelevant:
  "store_inv sz (s\<lparr>gc_id := g\<rparr>) V = store_inv sz s V"
  "gone (s\<lparr>gc_id := g\<rparr>) s' = gone s s'"
  "sweep_result sz ex (s\<lparr>gc_id := g\<rparr>) V chs s' V' R = sweep_result sz ex s V chs s' V' R"
  by (simp_all add: store_inv_def store_files_def physical_ok_def min_row_ids_exact_def stats_exact_def
      chunk_stats_def gone_def sweep_result_def swept_from_def)

lemma gc_id_reads:
  "find_temporal_chunks_furthest_from (s\<lparr>gc_id := g\<rparr>) = find_temporal_chunks_furthest_from s"
  "chunks_in_priority_order (s\<lparr>gc_id := g\<rparr>) = chunks_in_priority_order s"
  "stats_total (s\<lparr>gc_id := g\<rparr>) = stats_total s"
proof -
  have "physical_chunks_per_chunk_id (s\<lparr>gc_id := g\<rparr>) = physical_chunks_per_chunk_id s"
    "physical_chunk_ids_per_min_row_id (s\<lparr>gc_id := g\<rparr>) = physical_chunk_ids_per_min_row_id s"
    "temporal_chunk_ids_per_entity_per_component (s\<lparr>gc_id := g\<rparr>) = temporal_chunk_ids_per_entity_per_component s"
    by simp_all
  note eqs = this
  show "find_temporal_chunks_furthest_from (s\<lparr>gc_id := g\<rparr>) = find_temporal_chunks_furthest_from s"
    by (intro ext) (simp only: find_temporal_chunks_furthest_from_def furthest_by_def eqs)
  show "chunks_in_priority_order (s\<lparr>gc_id := g\<rparr>) = chunks_in_priority_order s"
    by (intro ext) (simp only: chunks_in_priority_order_def find_all_protected_physical_chunk_ids_def eqs)
  show "stats_total (s\<lparr>gc_id := g\<rparr>) = stats_total s" by (simp add: stats_total_def)
qed

lemma gc_id_candidates: "gc_candidates sz ex options (s\<lparr>gc_id := g\<rparr>) = gc_candidates sz ex options s"
  unfolding gc_candidates_def gc_find_candidates_def gc_id_reads by (rule refl)

lemma gc_sweeps:
  assumes inv: "store_inv sz s V" and run: "gc sz mark_exhausted sweep_exhausted options s = ((dels, st), s')"
  shows "\<exists>V' R. sweep_result sz sweep_exhausted s V (gc_candidates sz mark_exhausted options s) s' V' R
    \<and> del_chunk ` set dels = gone s s' \<and> (\<forall>d\<in>set dels. del_reason d = GarbageCollection)"
proof -
  let ?s = "s\<lparr>gc_id := gc_id s + 1\<rparr>"
  let ?chs = "gc_candidates sz mark_exhausted options ?s"
  let ?root = "\<lambda>ch. is_root_chunk (chunks_lineage ?s) (ch_id ch)"
  let ?deep = "if perform_deep_deletions options then ?chs else filter (\<lambda>ch. \<not> ?root ch) ?chs"
  let ?shallow = "if perform_deep_deletions options then [] else filter ?root ?chs"
  obtain dels1 s1 where sh: "remove_chunks_shallow sz sweep_exhausted GarbageCollection ?shallow ?s = (dels1, s1)"
    by (cases "remove_chunks_shallow sz sweep_exhausted GarbageCollection ?shallow ?s")
  obtain dels2 s2 where dp: "remove_chunks_deep sz GarbageCollection ?deep s1 = (dels2, s2)"
    by (cases "remove_chunks_deep sz GarbageCollection ?deep s1")
  have "gc_drop_at_least_num_bytes sz mark_exhausted sweep_exhausted options
      (target_bytes_from_size (gc_target options) (unat (st_total_size_bytes (stats_total ?s)))) ?s = (dels1 @ dels2, s2)"
    using sh dp unfolding gc_drop_at_least_num_bytes_def gc_candidates_def
    by (cases "perform_deep_deletions options") (simp_all add: Let_def)
  then have s': "s2 = s'" and dels: "dels = dels1 @ dels2"
    using run by (simp_all add: gc_def Let_def)
  have inv': "store_inv sz ?s V" using inv by (simp add: gc_id_irrelevant)
  have "\<forall>ch\<in>set ?chs. ch \<in> V \<and> physical ?s (ch_id ch) = Some ch"
    using gc_candidate(1,2) [OF inv'] unfolding gc_candidates_def by blast
  moreover have "set ?deep \<union> set ?shallow = set ?chs" "set ?deep \<inter> set ?shallow = {}" by auto
  ultimately have "\<exists>V' R. sweep_result sz sweep_exhausted ?s V ?chs s' V' R \<and> del_chunk ` set dels = gone ?s s'
      \<and> (\<forall>d\<in>set dels. del_reason d = GarbageCollection)"
    using sweep_candidates [OF inv' _ _ _ sh dp] unfolding dels s' by blast
  then show ?thesis by (simp only: gc_id_irrelevant gc_id_candidates)
qed

end
