(* ===== verification/Store_Writes.thy ===== *)
theory Store_Writes
  imports Store_Gc
begin

text \<open>
  Insertion into the chunk store (\<open>re_chunk_store\<close>: \<open>writes.rs\<close>, with the rest of \<open>lineage.rs\<close>):
  the checks of an incoming chunk, splitting on ingest, the election of a chunk to compact with,
  static overwrites, virtual chunks of an RRD manifest, and the removal of an entity. The event
  wrappers, the schema and the subscribers are left out. This is the build without the external
  roots of the web viewer and without debug assertions.
\<close>

section \<open>Results\<close>

datatype ChunkStoreError = UnsortedChunk | ChunkErr ChunkError

record RrdManifest =
  static_map :: "(EntityPath \<times> (ComponentIdentifier \<times> ChunkId) list) list"
  temporal_map :: "(EntityPath \<times> (TimelineName \<times>
    (ComponentIdentifier \<times> (ChunkId \<times> AbsoluteTimeRange) list) list) list) list"

datatype 'c ChunkStoreDiff =
    Addition (chunk_before_processing: "'c Chunk") (chunk_after_processing: "'c Chunk")
      (direct_lineage_report: "'c ChunkDirectLineageReport")
  | VirtualAddition RrdManifest
  | Deletion "'c ChunkStoreDiffDeletion"

text \<open>What the code takes from its surroundings: the build, the arrow kernels, the measured size of a
  chunk, the identifiers that \<open>ChunkId::new\<close> returns, in order, and the order in which a hash map is
  iterated.\<close>

record 'c write_env =
  we_build :: "'c build"
  we_kernels :: "'c arrow_kernels"
  we_size :: "'c Chunk \<Rightarrow> nat"
  we_fresh :: "nat \<Rightarrow> ChunkId"
  we_order :: "(ChunkId \<times> nat) list \<Rightarrow> (ChunkId \<times> nat) list"

section \<open>Lineage queries\<close>

partial_function (option) collect_root_manifest_chunks ::
    "Lineages \<Rightarrow> ChunkId list \<Rightarrow> ChunkId list \<Rightarrow> ChunkId list option" where
  "collect_root_manifest_chunks ls todo roots =
     (case todo of
        [] \<Rightarrow> Some roots
      | cid # todo \<Rightarrow>
          (case direct_lineage ls cid of
             Some (SplitFrom parent _) \<Rightarrow> collect_root_manifest_chunks ls (parent # todo) roots
           | Some (CompactedFrom cids) \<Rightarrow> collect_root_manifest_chunks ls (cids @ todo) roots
           | Some (RootFromManifest _) \<Rightarrow> collect_root_manifest_chunks ls todo (roots @ [cid])
           | _ \<Rightarrow> collect_root_manifest_chunks ls todo roots))"

definition find_root_manifest_chunks :: "Lineages \<Rightarrow> ChunkId \<Rightarrow> ChunkId list option" where
  "find_root_manifest_chunks ls cid = collect_root_manifest_chunks ls [cid] []"

text \<open>The walk along \<open>leaky_compactions\<close> to the first chunk in memory; it does not return on a cycle.\<close>

partial_function (option) leaky_descendant ::
    "(ChunkId \<times> ChunkId) list \<Rightarrow> (ChunkId \<Rightarrow> bool) \<Rightarrow> ChunkId \<Rightarrow> ChunkId option option" where
  "leaky_descendant leaky is_physical source_id =
     (case map_of leaky source_id of
        None \<Rightarrow> Some None
      | Some cid \<Rightarrow> if is_physical cid then Some (Some cid) else leaky_descendant leaky is_physical cid)"

definition collect_physical_descendents_of :: "'c ChunkStore \<Rightarrow> ChunkId \<Rightarrow> ChunkId list option" where
  "collect_physical_descendents_of s cid =
     (let is_physical = (\<lambda>c. physical s c \<noteq> None) in
      if is_physical cid then Some [cid]
      else case map_of (dangling_splits s) cid of
        Some split_chunks \<Rightarrow> Some (filter is_physical split_chunks)
      | None \<Rightarrow> map_option (\<lambda>c. case c of None \<Rightarrow> [] | Some c \<Rightarrow> [c])
          (leaky_descendant (leaky_compactions s) is_physical cid))"

section \<open>Splitting on ingest\<close>

definition split_chunk :: "'c write_env \<Rightarrow> ChunkStoreConfig \<Rightarrow> nat \<Rightarrow> 'c Chunk \<Rightarrow> ('c Chunk list \<times> nat) option" where
  "split_chunk env config n ch =
     map_option (\<lambda>pieces. (pieces, n + num_rows ch))
       (split_chunk_if_needed (we_kernels env) (\<lambda>i. we_fresh env (n + i)) (we_size env ch) ch
         (ChunkSplitConfig.truncate config))"

fun split_round ::
    "'c write_env \<Rightarrow> ChunkStoreConfig \<Rightarrow> Lineages \<Rightarrow> nat \<Rightarrow> 'c Chunk list \<Rightarrow> ('c Chunk list \<times> nat) option" where
  "split_round env config ls n [] = Some ([], n)"
| "split_round env config ls n (ch # chs) =
     (case descends_from_a_compaction ls (ch_id ch) of
        None \<Rightarrow> None
      | Some True \<Rightarrow> split_round env config ls n chs
      | Some False \<Rightarrow>
          (case split_chunk env config n ch of
             None \<Rightarrow> None
           | Some (pieces, n) \<Rightarrow> map_option (apfst ((@) pieces)) (split_round env config ls n chs)))"

partial_function (option) split_rounds ::
    "'c write_env \<Rightarrow> ChunkStoreConfig \<Rightarrow> Lineages \<Rightarrow> nat \<Rightarrow> 'c Chunk list \<Rightarrow> ('c Chunk list \<times> nat) option" where
  "split_rounds env config ls n chs =
     (case split_round env config ls n chs of
        None \<Rightarrow> None
      | Some (chs', n) \<Rightarrow>
          if length chs' = length chs then Some (chs', n) else split_rounds env config ls n chs')"

section \<open>Election\<close>

definition is_below_threshold :: "ChunkStoreConfig \<Rightarrow> nat \<Rightarrow> nat \<Rightarrow> bool \<Rightarrow> bool" where
  "is_below_threshold config total_bytes total_rows all_sorted \<longleftrightarrow>
     total_bytes \<le> chunk_max_bytes config
     \<and> total_rows \<le> (if all_sorted then chunk_max_rows config else chunk_max_rows_if_unsorted config)"

definition check_if_chunk_below_threshold :: "'c write_env \<Rightarrow> 'c ChunkStore \<Rightarrow> 'c Chunk \<Rightarrow> ChunkId \<Rightarrow> nat" where
  "check_if_chunk_below_threshold env s ch candidate_id =
     (case physical s candidate_id of
        None \<Rightarrow> 0
      | Some candidate \<Rightarrow>
          if ch_id ch = candidate_id \<or> \<not> concatenable ch candidate
            \<or> descends_from_a_split (chunks_lineage s) candidate_id then 0
          else if is_below_threshold (store_config s) (we_size env ch + we_size env candidate)
            (num_rows ch + num_rows candidate) (all_timelines_sorted candidate) then num_rows candidate
          else 0)"

text \<open>The neighbours of a range in an index, each with the points it earns: the chunks that start last
  before it, those that start first after it, and those with the same start, which count twice.\<close>

definition neighbors :: "ChunkIdSetPerTime \<Rightarrow> AbsoluteTimeRange \<Rightarrow> (ChunkId \<times> nat) list" where
  "neighbors ix time_range =
     (let before = next_back (filter (\<lambda>(t, _). t < range_min time_range) (per_start_time ix));
          after = list_first (filter (\<lambda>(t, _). time_inc (range_max time_range) \<le> t) (per_start_time ix));
          shared = map_of (per_start_time ix) (range_min time_range);
          ids = (\<lambda>w entry. case entry of None \<Rightarrow> [] | Some chunk_ids \<Rightarrow> map (\<lambda>cid. (cid, w)) chunk_ids)
      in ids 1 (map_option snd before) @ ids 1 (map_option snd after) @ ids 2 shared)"

definition candidate_points :: "'c ChunkStore \<Rightarrow> 'c Chunk \<Rightarrow> ChunkIdSetPerTimePerComponentPerTimeline \<Rightarrow> (ChunkId \<times> nat) list" where
  "candidate_points s ch per_timeline = concat (map (\<lambda>(timeline, ranges).
     case map_of per_timeline timeline of
       None \<Rightarrow> []
     | Some per_component \<Rightarrow> concat (map (\<lambda>(component, time_range).
         case map_of per_component component of None \<Rightarrow> [] | Some ix \<Rightarrow> neighbors ix time_range) ranges))
     (time_range_per_component ch))"

definition find_and_elect_compaction_candidate :: "'c write_env \<Rightarrow> 'c ChunkStore \<Rightarrow> 'c Chunk \<Rightarrow> 'c Chunk option" where
  "find_and_elect_compaction_candidate env s ch =
     (if descends_from_a_split (chunks_lineage s) (ch_id ch)
        \<or> \<not> is_below_threshold (store_config s) (we_size env ch) (num_rows ch) (all_timelines_sorted ch) then None
      else case map_of (temporal_chunk_ids_per_entity_per_component s) (ch_entity_path ch) of
        None \<Rightarrow> None
      | Some per_timeline \<Rightarrow>
          let candidates = fold (\<lambda>(cid, w). al_entry cid 0 (\<lambda>p. p + check_if_chunk_below_threshold env s ch cid * w))
                (candidate_points s ch per_timeline) [];
              candidates = rev (sort_key snd (we_order env candidates))
          in list_first (List.map_filter (\<lambda>(cid, _). physical s cid) (filter (\<lambda>(_, points). 0 < points) candidates)))"

section \<open>Static chunks\<close>

definition is_transform_archetype :: "string option \<Rightarrow> bool" where
  "is_transform_archetype archetype \<longleftrightarrow>
     archetype \<in> {Some ''rerun.archetypes.Transform3D'', Some ''rerun.archetypes.Pinhole''}"

definition row_id_max_for_component :: "'c Chunk \<Rightarrow> ComponentIdentifier \<Rightarrow> RowId option" where
  "row_id_max_for_component ch component = map_option snd (map_of (row_id_range_per_component ch) component)"

text \<open>One column of an incoming static chunk: the map of static chunks, and the chunks that lost a
  component to it with their least row id.\<close>

definition overwrite_static ::
    "'c ChunkStore \<Rightarrow> 'c Chunk \<Rightarrow> ComponentIdentifier \<times> 'c SerializedComponentColumn \<Rightarrow>
     (EntityPath \<times> ChunkIdPerComponent) list \<times> (ChunkId \<times> RowId) list \<Rightarrow>
     (EntityPath \<times> ChunkIdPerComponent) list \<times> (ChunkId \<times> RowId) list" where
  "overwrite_static s ch = (\<lambda>(component, column) (statics, overwritten).
     if la_nulls (sc_list_array column) = Some [] then (statics, overwritten)
     else case row_id_max_for_component ch component of
       None \<Rightarrow> (statics, overwritten)
     | Some row_id_max \<Rightarrow>
         let set_current = al_entry (ch_entity_path ch) [] (al_insert component (ch_id ch)) in
         (case map_of (al_get [] (ch_entity_path ch) statics) component of
            None \<Rightarrow> (set_current statics, overwritten)
          | Some cur_chunk_id \<Rightarrow>
              let cur_row_id_max = (case Option.bind (physical s cur_chunk_id) (\<lambda>cur. row_id_max_for_component cur component) of
                    None \<Rightarrow> Tuid_ZERO | Some row_id_max \<Rightarrow> row_id_max)
              in if cur_row_id_max < row_id_max then
                   (set_current statics,
                    case Option.bind (physical s cur_chunk_id) row_id_range of
                      Some (cur_row_id_min, _) \<Rightarrow>
                        if is_transform_archetype (cd_archetype (sc_descriptor column)) then overwritten
                        else al_insert cur_chunk_id cur_row_id_min overwritten
                    | None \<Rightarrow> overwritten)
                 else (statics, overwritten)))"

text \<open>A chunk that lost all its components is removed.\<close>

definition remove_dangling ::
    "('c Chunk \<Rightarrow> nat) \<Rightarrow> EntityPath \<Rightarrow> ChunkId \<times> RowId \<Rightarrow> 'c ChunkStore \<times> 'c ChunkStoreDiff list \<Rightarrow>
     'c ChunkStore \<times> 'c ChunkStoreDiff list" where
  "remove_dangling size_bytes entity_path = (\<lambda>(cid, row_id_min) (s, diffs).
     if cid \<in> set (map snd (al_get [] entity_path (static_chunk_ids_per_entity s))) then (s, diffs)
     else
       let s = s\<lparr>physical_chunk_ids_per_min_row_id := bs_remove (row_id_min, cid) (physical_chunk_ids_per_min_row_id s)\<rparr>
       in case physical s cid of
            None \<Rightarrow> (s, diffs)
          | Some chunk_removed \<Rightarrow>
              let s = s\<lparr>physical_chunks_per_chunk_id := bt_remove cid (physical_chunks_per_chunk_id s)\<rparr>;
                  s = drop_lineage_reference cid s
              in (s\<lparr>static_chunks_stats := stats_sub (static_chunks_stats s) (stats_from_chunk size_bytes chunk_removed)\<rparr>,
                  diffs @ [Deletion \<lparr>del_chunk = chunk_removed, del_reason = Overwrite\<rparr>]))"

definition insert_static ::
    "'c write_env \<Rightarrow> 'c Chunk \<Rightarrow> 'c ChunkDirectLineageReport \<Rightarrow> 'c ChunkStore \<Rightarrow> 'c ChunkStore \<times> 'c ChunkStoreDiff list" where
  "insert_static env ch lineage s =
     (let (statics, overwritten) = fold (overwrite_static s ch) (ch_components ch) (static_chunk_ids_per_entity s, []);
          s = s\<lparr>static_chunk_ids_per_entity := statics,
                static_chunks_stats := stats_add (static_chunks_stats s) (stats_from_chunk (we_size env) ch)\<rparr>
      in if map_of statics (ch_entity_path ch) = None then (s, [Addition ch ch lineage])
         else fold (remove_dangling (we_size env) (ch_entity_path ch)) overwritten (s, [Addition ch ch lineage]))"

section \<open>Temporal chunks\<close>

definition file_chunk :: "('c Chunk \<Rightarrow> nat) \<Rightarrow> 'c Chunk \<Rightarrow> 'c ChunkStore \<Rightarrow> 'c ChunkStore" where
  "file_chunk size_bytes ch s = s
     \<lparr>temporal_chunk_ids_per_entity_per_component := insert_with_component ch (temporal_chunk_ids_per_entity_per_component s),
      temporal_chunk_ids_per_entity := insert_without_component ch (temporal_chunk_ids_per_entity s),
      temporal_physical_chunks_stats := stats_add (temporal_physical_chunks_stats s) (stats_from_chunk size_bytes ch)\<rparr>"

definition insert_lineage :: "ChunkId \<Rightarrow> 'c ChunkDirectLineageReport \<Rightarrow> 'c ChunkStore \<Rightarrow> 'c ChunkStore" where
  "insert_lineage cid report s = s\<lparr>chunks_lineage := insert_lineage_if_missing cid (lineage_of_report report) (chunks_lineage s)\<rparr>"

text \<open>After a compaction: the sources point at the compacted chunk, which gets its lineage before the
  elected chunk is removed.\<close>

definition replace_elected ::
    "('c Chunk \<Rightarrow> nat) \<Rightarrow> 'c Chunk \<Rightarrow> 'c Chunk \<Rightarrow> 'c Chunk \<Rightarrow> 'c ChunkStore \<Rightarrow> 'c ChunkDirectLineageReport \<times> 'c ChunkStore" where
  "replace_elected size_bytes ch elected compacted s =
     (let srcs = bt_entry (ch_id elected) elected (\<lambda>_. elected) [(ch_id ch, ch)];
          report = ReportCompactedFrom srcs;
          s = s\<lparr>leaky_compactions := fold (\<lambda>(src, _). al_insert src (ch_id compacted)) srcs (leaky_compactions s)\<rparr>;
          s = insert_lineage (ch_id compacted) report s
      in (report, snd (remove_chunks_deep size_bytes Compaction [elected] s)))"

definition insert_temporal ::
    "'c write_env \<Rightarrow> nat \<Rightarrow> 'c Chunk \<Rightarrow> 'c ChunkDirectLineageReport \<Rightarrow> 'c ChunkStore \<Rightarrow>
     ((ChunkStoreError + 'c Chunk \<times> 'c ChunkStoreDiff list) \<times> nat \<times> 'c ChunkStore) option" where
  "insert_temporal env n ch lineage s =
     (case find_and_elect_compaction_candidate env s ch of
        None \<Rightarrow> Some (Inr (ch, [Addition ch ch lineage]), n, file_chunk (we_size env) ch s)
      | Some elected \<Rightarrow>
          (case concat_and_sort (we_build env) (we_kernels env) (we_fresh env n) (we_fresh env (n + 1)) (we_fresh env (n + 2))
                  elected ch of
             Inl None \<Rightarrow> None
           | Inl (Some e) \<Rightarrow> Some (Inl (ChunkErr e), n + 3, s)
           | Inr compacted \<Rightarrow>
               let s = file_chunk (we_size env) compacted s;
                   (report, s) = replace_elected (we_size env) ch elected compacted s
               in Some (Inr (compacted, [Addition ch compacted report]), n + 3, s)))"

section \<open>Insertion\<close>

definition insert_physical :: "'c Chunk \<Rightarrow> 'c ChunkStore \<Rightarrow> 'c ChunkStore" where
  "insert_physical ch s =
     (let s = s\<lparr>physical_chunks_per_chunk_id := bt_entry (ch_id ch) ch (\<lambda>_. ch) (physical_chunks_per_chunk_id s),
                chunks_lineage := add_reference (ch_id ch) (chunks_lineage s)\<rparr>
      in case row_id_range ch of
           None \<Rightarrow> s
         | Some (min_row_id, _) \<Rightarrow> s\<lparr>physical_chunk_ids_per_min_row_id :=
             bs_insert (min_row_id, ch_id ch) (physical_chunk_ids_per_min_row_id s)\<rparr>)"

text \<open>The cleanup before an insertion: a chunk known from a manifest leaves the indices, and the pieces of
  an earlier split of the same chunk are removed.\<close>

definition clear_virtual :: "('c Chunk \<Rightarrow> nat) \<Rightarrow> 'c Chunk \<Rightarrow> 'c ChunkStore \<Rightarrow> 'c ChunkStoreDiffDeletion list \<times> 'c ChunkStore" where
  "clear_virtual size_bytes ch s =
     (case direct_lineage (chunks_lineage s) (ch_id ch) of
        Some (RootFromManifest _) \<Rightarrow> remove_chunks_deep size_bytes VirtualToPhysicalReplacement [ch] s
      | _ \<Rightarrow> ([], s))"

definition clear_dangling_splits :: "('c Chunk \<Rightarrow> nat) \<Rightarrow> ChunkId \<Rightarrow> 'c ChunkStore \<Rightarrow> 'c ChunkStoreDiffDeletion list \<times> 'c ChunkStore" where
  "clear_dangling_splits size_bytes cid s =
     (case map_of (dangling_splits s) cid of
        None \<Rightarrow> ([], s)
      | Some split_chunk_ids \<Rightarrow>
          let s = s\<lparr>dangling_splits := al_remove cid (dangling_splits s)\<rparr>
          in remove_chunks_deep size_bytes DanglingSplitCleanup (List.map_filter (physical s) split_chunk_ids) s)"

datatype 'c insert_outcome =
    Inserted "'c ChunkStoreDiff list"
  | SplitInto "'c ChunkStoreDiff list" "'c Chunk list"
  | Refused ChunkStoreError

text \<open>The body of \<open>insert_chunk_impl\<close> up to its recursive calls; the pieces of a split are inserted by
  \<open>insert_loop\<close>.\<close>

definition store_unsplit ::
    "'c write_env \<Rightarrow> nat \<Rightarrow> 'c Chunk \<Rightarrow> 'c ChunkDirectLineageReport \<Rightarrow> 'c ChunkStoreDiff list \<Rightarrow> 'c ChunkStore \<Rightarrow>
     ('c insert_outcome \<times> nat \<times> 'c ChunkStore) option" where
  "store_unsplit env n ch lineage diffs s =
     (let s = s\<lparr>insert_id := insert_id s + 1\<rparr> in
      if chunk_is_static ch then
        let (s, added) = insert_static env ch lineage s
        in Some (Inserted (diffs @ added), n, insert_physical ch s)
      else case insert_temporal env n ch lineage s of
        None \<Rightarrow> None
      | Some (Inl e, n, s) \<Rightarrow> Some (Refused e, n, s)
      | Some (Inr (chunk_after, added), n, s) \<Rightarrow> Some (Inserted (diffs @ added), n, insert_physical chunk_after s))"

definition store_split ::
    "'c write_env \<Rightarrow> nat \<Rightarrow> 'c Chunk \<Rightarrow> 'c ChunkDirectLineageReport \<Rightarrow> 'c ChunkStoreDiff list \<Rightarrow> 'c ChunkStore \<Rightarrow>
     ('c insert_outcome \<times> nat \<times> 'c ChunkStore) option" where
  "store_split env n ch lineage diffs s =
     (case Option.bind (split_chunk env (store_config s) n ch)
          (\<lambda>(pieces, n). split_rounds env (store_config s) (chunks_lineage s) n pieces) of
        None \<Rightarrow> None
      | Some (pieces, n) \<Rightarrow>
          if 1 < length pieces then
            Some (SplitInto diffs pieces, n,
              s\<lparr>dangling_splits := al_insert (ch_id ch) (map ch_id pieces) (dangling_splits s),
                split_on_ingest := insert (ch_id ch) (split_on_ingest s)\<rparr>)
          else store_unsplit env n ch lineage diffs s)"

definition insert_step ::
    "'c write_env \<Rightarrow> nat \<Rightarrow> 'c Chunk \<Rightarrow> 'c ChunkDirectLineageReport \<Rightarrow> 'c ChunkStore \<Rightarrow>
     ('c insert_outcome \<times> nat \<times> 'c ChunkStore) option" where
  "insert_step env n ch lineage s =
     (if chunk_is_empty ch \<or> ch_components ch = [] \<or> physical s (ch_id ch) \<noteq> None then Some (Inserted [], n, s)
      else if \<not> ch_is_sorted ch then Some (Refused UnsortedChunk, n, s)
      else case leaky_descendant (leaky_compactions s) (\<lambda>c. physical s c \<noteq> None) (ch_id ch) of
        None \<Rightarrow> None
      | Some (Some _) \<Rightarrow> Some (Inserted [], n, s)
      | Some None \<Rightarrow>
          let (dels1, s) = clear_virtual (we_size env) ch s;
              (dels2, s) = clear_dangling_splits (we_size env) (ch_id ch) s;
              diffs = map Deletion (dels1 @ dels2);
              s = insert_lineage (ch_id ch) lineage s
          in case descends_from_a_compaction (chunks_lineage s) (ch_id ch) of
               None \<Rightarrow> None
             | Some from_compaction \<Rightarrow>
                 if \<not> chunk_is_static ch \<and> \<not> descends_from_a_split (chunks_lineage s) (ch_id ch) \<and> \<not> from_compaction
                 then store_split env n ch lineage diffs s
                 else store_unsplit env n ch lineage diffs s)"

text \<open>The additions of a split advertise the chunk that was split.\<close>

fun patch_diff :: "'c Chunk option \<Rightarrow> 'c ChunkStoreDiff \<Rightarrow> 'c ChunkStoreDiff" where
  "patch_diff (Some parent) (Addition _ after lineage) = Addition parent after lineage"
| "patch_diff _ diff = diff"

definition split_entries ::
    "'c Chunk option \<Rightarrow> 'c Chunk \<Rightarrow> 'c Chunk list \<Rightarrow> ('c Chunk \<times> 'c ChunkDirectLineageReport \<times> 'c Chunk option) list" where
  "split_entries parent ch pieces = map (\<lambda>piece.
     (piece, ReportSplitFrom ch (filter (\<lambda>c. ch_id c \<noteq> ch_id piece) pieces),
      case parent of None \<Rightarrow> Some ch | Some p \<Rightarrow> Some p)) pieces"

partial_function (option) insert_loop ::
    "'c write_env \<Rightarrow> ('c Chunk \<times> 'c ChunkDirectLineageReport \<times> 'c Chunk option) list \<Rightarrow> 'c ChunkStoreDiff list \<Rightarrow>
     nat \<Rightarrow> 'c ChunkStore \<Rightarrow> ((ChunkStoreError + 'c ChunkStoreDiff list) \<times> nat \<times> 'c ChunkStore) option" where
  "insert_loop env todo all_diffs n s =
     (case todo of
        [] \<Rightarrow> Some (Inr all_diffs, n, s)
      | (ch, lineage, parent) # todo \<Rightarrow>
          (case insert_step env n ch lineage s of
             None \<Rightarrow> None
           | Some (Refused e, n, s) \<Rightarrow> Some (Inl e, n, s)
           | Some (Inserted diffs, n, s) \<Rightarrow> insert_loop env todo (all_diffs @ map (patch_diff parent) diffs) n s
           | Some (SplitInto diffs pieces, n, s) \<Rightarrow>
               insert_loop env (split_entries parent ch pieces @ todo) (all_diffs @ map (patch_diff parent) diffs) n s))"

definition insert_chunk_impl ::
    "'c write_env \<Rightarrow> nat \<Rightarrow> 'c Chunk \<Rightarrow> 'c ChunkDirectLineageReport \<Rightarrow> 'c ChunkStore \<Rightarrow>
     ((ChunkStoreError + 'c ChunkStoreDiff list) \<times> nat \<times> 'c ChunkStore) option" where
  "insert_chunk_impl env n ch lineage s = insert_loop env [(ch, lineage, None)] [] n s"

definition insert_chunk ::
    "'c write_env \<Rightarrow> nat \<Rightarrow> 'c Chunk \<Rightarrow> 'c ChunkStore \<Rightarrow>
     ((ChunkStoreError + 'c ChunkStoreDiff list) \<times> nat \<times> 'c ChunkStore) option" where
  "insert_chunk env n ch s =
     (if \<not> is_root_chunk (chunks_lineage s) (ch_id ch) then Some (Inr [], n, s)
      else insert_chunk_impl env n ch ReportVolatile s)"

section \<open>Virtual chunks\<close>

definition manifest_lineage :: "bool \<Rightarrow> TrackedDirectChunkLineage" where
  "manifest_lineage st = \<lparr>direct = RootFromManifest st, ref_count = 0, descends_from_manifest = True\<rparr>"

definition insert_rrd_manifest :: "RrdManifest \<Rightarrow> 'c ChunkStore \<Rightarrow> 'c ChunkStoreDiff list \<times> 'c ChunkStore" where
  "insert_rrd_manifest manifest s =
     (let static_ids = concat (map (map snd \<circ> snd) (static_map manifest));
          entries = concat (map (\<lambda>(e, per_timeline). concat (map (\<lambda>(tln, per_component).
            concat (map (\<lambda>(c, per_chunk). map (\<lambda>(cid, r). (e, tln, c, cid, r)) per_chunk) per_component)) per_timeline))
            (temporal_map manifest));
          s = s\<lparr>chunks_lineage := fold (\<lambda>cid. al_insert cid (manifest_lineage True)) static_ids (chunks_lineage s)\<rparr>;
          s = s\<lparr>static_chunk_ids_per_entity := fold (\<lambda>(e, per_component).
            al_entry e [] (fold (\<lambda>(c, cid). al_insert c cid) per_component)) (static_map manifest) (static_chunk_ids_per_entity s)\<rparr>;
          s = s\<lparr>chunks_lineage := fold (\<lambda>(_, _, _, cid, _). al_insert cid (manifest_lineage False)) entries (chunks_lineage s)\<rparr>;
          s = s\<lparr>temporal_chunk_ids_per_entity_per_component := fold (\<lambda>(e, tln, c, cid, r).
              al_entry e [] (al_entry tln [] (al_entry c index_default (index_insert cid r))))
              entries (temporal_chunk_ids_per_entity_per_component s),
            temporal_chunk_ids_per_entity := fold (\<lambda>(e, tln, c, cid, r).
              al_entry e [] (al_entry tln index_default (index_insert cid r)))
              entries (temporal_chunk_ids_per_entity s)\<rparr>
      in ([VirtualAddition manifest], s))"

section \<open>Removal of an entity\<close>

text \<open>Both lists of ids are those of ordered sets. The lineage is left alone.\<close>

definition drop_row_ids :: "ChunkId list \<Rightarrow> 'c ChunkStore \<Rightarrow> 'c ChunkStore" where
  "drop_row_ids cids s = s\<lparr>physical_chunk_ids_per_min_row_id := fold (\<lambda>cid.
     case Option.bind (physical s cid) row_id_range of
       None \<Rightarrow> (\<lambda>m. m) | Some (min_row_id, _) \<Rightarrow> bs_remove (min_row_id, cid)) cids (physical_chunk_ids_per_min_row_id s)\<rparr>"

fun drop_physical :: "ChunkId list \<Rightarrow> (ChunkId \<times> 'c Chunk) list \<Rightarrow> 'c Chunk list \<times> (ChunkId \<times> 'c Chunk) list" where
  "drop_physical [] m = ([], m)"
| "drop_physical (cid # cids) m =
     (case map_of m cid of
        None \<Rightarrow> drop_physical cids m
      | Some ch \<Rightarrow> apfst ((#) ch) (drop_physical cids (bt_remove cid m)))"

definition drop_entity_path :: "('c Chunk \<Rightarrow> nat) \<Rightarrow> EntityPath \<Rightarrow> 'c ChunkStore \<Rightarrow> 'c ChunkStoreDiffDeletion list \<times> 'c ChunkStore" where
  "drop_entity_path size_bytes entity_path s =
     (let s = s\<lparr>gc_id := gc_id s + 1\<rparr>;
          static_ids = sorted_list_of_set (set (map snd (al_get [] entity_path (static_chunk_ids_per_entity s))));
          s = drop_row_ids static_ids (s\<lparr>static_chunk_ids_per_entity := al_remove entity_path (static_chunk_ids_per_entity s)\<rparr>);
          temporal_ids = sorted_list_of_set (set (concat (map (\<lambda>(_, ix). concat (map snd (per_start_time ix)))
            (al_get [] entity_path (temporal_chunk_ids_per_entity s)))));
          s = drop_row_ids temporal_ids (s
            \<lparr>temporal_chunk_ids_per_entity_per_component := al_remove entity_path (temporal_chunk_ids_per_entity_per_component s),
             temporal_chunk_ids_per_entity := al_remove entity_path (temporal_chunk_ids_per_entity s)\<rparr>);
          (dropped_static, m) = drop_physical static_ids (physical_chunks_per_chunk_id s);
          (dropped_temporal, m) = drop_physical temporal_ids m;
          sub = foldl (\<lambda>st ch. stats_sub st (stats_from_chunk size_bytes ch))
      in (map (\<lambda>ch. \<lparr>del_chunk = ch, del_reason = ExplicitDrop\<rparr>) (dropped_static @ dropped_temporal),
          s\<lparr>physical_chunks_per_chunk_id := m,
            static_chunks_stats := sub (static_chunks_stats s) dropped_static,
            temporal_physical_chunks_stats := sub (temporal_physical_chunks_stats s) dropped_temporal\<rparr>))"

end
