(* ===== verification/Store_Insert.thy ===== *)
theory Store_Insert
  imports Store_Writes
begin

text \<open>
  What insertion into the chunk store guarantees: it keeps the invariant of the store, and compaction
  loses no row.
\<close>

section \<open>Compaction of two chunks\<close>

lemma concatenated_id:
  assumes "concatenated B K new_id cl cr = Inr c" "num_rows cl \<noteq> 0" "num_rows cr \<noteq> 0"
  shows "ch_id c = new_id" "ch_entity_path c = ch_entity_path cl"
proof -
  obtain l0 l1 r0 r1 where r: "row_id_range cl = Some (l0, l1)" "row_id_range cr = Some (r0, r1)"
    using assms(2,3) row_id_range_None [of cl] row_id_range_None [of cr] by fastforce
  from assms(1) show "ch_id c = new_id" "ch_entity_path c = ch_entity_path cl"
    by (auto simp: concatenated_def r Let_def split: if_splits option.splits sum.splits)
qed

lemma sort_by_row_ids_id:
  assumes "sort_by_row_ids_if_needed K sort_id shuffle_id c = Some c'"
  shows "ch_id c' \<in> {ch_id c, shuffle_id}" "ch_entity_path c' = ch_entity_path c"
  using assms by (auto simp: sort_by_row_ids_if_needed_def shuffle_with_def Let_def split: if_splits option.splits)

lemma compaction_merges:
  assumes K: "arrow_laws K" and wf: "chunk_wf left" "chunk_wf right" and n: "num_rows left \<noteq> 0" "num_rows right \<noteq> 0"
    and cc: "concatenable left right" and pad: "pads_compactly left right" "pads_compactly right left"
  obtains c where "concat_and_sort B K new_id sort_id shuffle_id left right = Inr c" "chunk_wf c" "ch_is_sorted c"
    "mset (chunk_rows c) = mset (chunk_rows left) + mset (chunk_rows right)"
    "ch_id c \<in> {new_id, shuffle_id}" "ch_entity_path c = ch_entity_path left"
proof -
  let ?b = "goes_first left right"
  obtain c where c: "(if ?b then concatenated B K new_id left right else concatenated B K new_id right left) = Inr c"
    "chunk_wf c" "chunk_rows c = (if ?b then chunk_rows left @ chunk_rows right else chunk_rows right @ chunk_rows left)"
    by (rule concatenated_in_order [OF K wf cc pad])
  obtain c' where c': "sort_by_row_ids_if_needed K sort_id shuffle_id c = Some c'" "chunk_wf c'" "ch_is_sorted c'"
    "chunk_rows c' = sort_key r_id (chunk_rows c)" using sort_by_row_ids_rows [OF K c(2)] by blast
  have "ch_entity_path left = ch_entity_path right" using cc by (simp add: concatenable_def same_entity_paths_def)
  then have "ch_id c = new_id" "ch_entity_path c = ch_entity_path left"
    using c(1) concatenated_id n by (cases ?b; fastforce)+
  with sort_by_row_ids_id [OF c'(1)] have "ch_id c' \<in> {new_id, shuffle_id}" "ch_entity_path c' = ch_entity_path left" by simp_all
  moreover have "concat_and_sort B K new_id sort_id shuffle_id left right = Inr c'"
    unfolding concat_and_sort_eq c(1) by (simp add: c'(1))
  moreover have "mset (chunk_rows c') = mset (chunk_rows left) + mset (chunk_rows right)"
    by (simp add: c'(4) c(3) add.commute)
  ultimately show ?thesis using that c'(2,3) by blast
qed

text \<open>A chunk with rows is temporal when a row has a time.\<close>

lemma static_iff_rows:
  assumes "num_rows ch \<noteq> 0"
  shows "chunk_is_static ch \<longleftrightarrow> (\<forall>row\<in>set (chunk_rows ch). \<forall>tln. r_times row tln = None)"
proof
  assume "chunk_is_static ch"
  then show "\<forall>row\<in>set (chunk_rows ch). \<forall>tln. r_times row tln = None"
    by (auto simp: chunk_is_static_def chunk_rows_def chunk_row_def time_at_def)
next
  assume r: "\<forall>row\<in>set (chunk_rows ch). \<forall>tln. r_times row tln = None"
  have "chunk_row ch 0 \<in> set (chunk_rows ch)" using assms by (simp add: chunk_rows_def)
  then have "time_at ch 0 tln = None" for tln using r by (metis chunk_row_def row.select_convs(2))
  then have "map_of (ch_timelines ch) tln = None" for tln by (simp add: time_at_def split: option.splits)
  then have "map_of (ch_timelines ch) = Map.empty" by (simp add: fun_eq_iff)
  then show "chunk_is_static ch" by (simp add: chunk_is_static_def)
qed

section \<open>The steps of an insertion\<close>

definition add_stats :: "('c Chunk \<Rightarrow> nat) \<Rightarrow> 'c Chunk \<Rightarrow> 'c ChunkStore \<Rightarrow> 'c ChunkStore" where
  "add_stats size_bytes ch s = s\<lparr>temporal_physical_chunks_stats :=
     stats_add (temporal_physical_chunks_stats s) (stats_from_chunk size_bytes ch)\<rparr>"

definition file_only :: "'c Chunk \<Rightarrow> 'c ChunkStore \<Rightarrow> 'c ChunkStore" where
  "file_only ch s = s
     \<lparr>temporal_chunk_ids_per_entity_per_component := insert_with_component ch (temporal_chunk_ids_per_entity_per_component s),
      temporal_chunk_ids_per_entity := insert_without_component ch (temporal_chunk_ids_per_entity s)\<rparr>"

lemma file_chunk_eq: "file_chunk sz ch s = add_stats sz ch (file_only ch s)"
  by (simp add: file_chunk_def add_stats_def file_only_def)

lemma store_inv_cong:
  assumes "store_inv sz s V" "physical_chunks_per_chunk_id s' = physical_chunks_per_chunk_id s"
    "physical_chunk_ids_per_min_row_id s' = physical_chunk_ids_per_min_row_id s"
    "temporal_physical_chunks_stats s' = temporal_physical_chunks_stats s" "static_chunks_stats s' = static_chunks_stats s"
    "lineage_inv (chunks_lineage s') (dom (physical s))" "store_files s' V'"
    "\<forall>ch\<in>V'. chunk_wf ch \<and> \<not> chunk_is_static ch" "V \<subseteq> V'"
  shows "store_inv sz s' V'"
  using assms unfolding store_inv_def physical_ok_def min_row_ids_exact_def stats_exact_def chunk_stats_def
  by (simp only:) blast

lemma file_only_inv:
  assumes inv: "store_inv sz s V" and ch: "chunk_wf ch" "\<not> chunk_is_static ch" "ch_id ch \<notin> ch_id ` V"
    and gone: "physical s (ch_id ch) = None"
  shows "store_inv sz (file_only ch s) (insert ch V)"
proof (rule store_inv_cong [OF inv])
  have files: "store_files s V" using inv by (simp add: store_inv_def)
  have u: "unique_ids (insert ch V)" using files ch(3) by (auto simp: store_files_def unique_ids_def)
  show "store_files (file_only ch s) (insert ch V)"
    using files u by_component.indexes_file [OF _ ch(1) u] by_entity.indexes_file [OF _ ch(1) u] gone
    by (simp add: store_files_def file_only_def)
  show "lineage_inv (chunks_lineage (file_only ch s)) (dom (physical s))" using inv by (simp add: store_inv_def file_only_def)
  show "\<forall>x\<in>insert ch V. chunk_wf x \<and> \<not> chunk_is_static x" using inv ch by (simp add: store_inv_def)
qed (auto simp: file_only_def)

lemma insert_lineage_store_inv:
  assumes inv: "store_inv sz s V"
    and refs: "\<forall>r\<in>set (iter_referenced_chunks (lineage_of_report report)). map_of (chunks_lineage s) r \<noteq> None"
  shows "store_inv sz (insert_lineage cid report s) V"
proof (rule store_inv_cong [OF inv])
  have "lineage_inv (chunks_lineage s) (dom (physical s))" using inv by (simp add: store_inv_def)
  then show "lineage_inv (chunks_lineage (insert_lineage cid report s)) (dom (physical s))"
    using insert_lineage_inv [OF _ refs] by (simp add: insert_lineage_def)
  show "store_files (insert_lineage cid report s) V" using inv by (simp add: store_inv_def store_files_def insert_lineage_def)
  show "\<forall>x\<in>V. chunk_wf x \<and> \<not> chunk_is_static x" using inv by (simp add: store_inv_def)
qed (auto simp: insert_lineage_def)

section \<open>A new chunk in memory\<close>

lemma insert_physical_sel:
  assumes "row_id_range ch = Some (mn, mx)"
  shows "insert_physical ch s = s
    \<lparr>physical_chunks_per_chunk_id := bt_entry (ch_id ch) ch (\<lambda>_. ch) (physical_chunks_per_chunk_id s),
     chunks_lineage := add_reference (ch_id ch) (chunks_lineage s),
     physical_chunk_ids_per_min_row_id := bs_insert (mn, ch_id ch) (physical_chunk_ids_per_min_row_id s)\<rparr>"
  by (simp add: insert_physical_def assms)

lemma sum_list_bt_insert:
  fixes g :: "'v \<Rightarrow> u64"
  assumes "bt_wf m" "map_of m k = None"
  shows "sum_list (map g (filter P (map snd (bt_entry k v (\<lambda>_. v) m)))) =
    sum_list (map g (filter P (map snd m))) + (if P v then g v else 0)"
  using assms
proof (induction m)
  case (Cons x m)
  obtain k' v' where x: "x = (k', v')" by (cases x)
  have "k' \<noteq> k" using Cons.prems(2) x by auto
  with Cons x show ?case by (auto simp: ac_simps)
qed simp

lemma stats_add_sel [simp]:
  "st_num_chunks (stats_add a b) = st_num_chunks a + st_num_chunks b"
  "st_total_size_bytes (stats_add a b) = st_total_size_bytes a + st_total_size_bytes b"
  "st_num_rows (stats_add a b) = st_num_rows a + st_num_rows b"
  "st_num_events (stats_add a b) = st_num_events a + st_num_events b"
  by (simp_all add: stats_add_def)

lemma chunk_stats_insert:
  assumes "bt_wf (physical_chunks_per_chunk_id s)" "physical s (ch_id ch) = None"
    "physical_chunks_per_chunk_id s' = bt_entry (ch_id ch) ch (\<lambda>_. ch) (physical_chunks_per_chunk_id s)"
  shows "chunk_stats sz P s' = (if P ch then stats_add (chunk_stats sz P s) (stats_from_chunk sz ch) else chunk_stats sz P s)"
proof (rule ChunkStoreChunkStats.equality)
qed (use assms sum_list_bt_insert [OF assms(1,2), where P = P and v = ch] in
  \<open>simp_all add: chunk_stats_def stats_fields_sum comp_def\<close>)

lemma graph_insert:
  assumes "m k = None"
  shows "{(f x, c) | c x. (m(k \<mapsto> v)) c = Some x} = insert (f v, k) {(f x, c) | c x. m c = Some x}" (is "?A = ?B")
proof (intro equalityI subsetI)
  fix p assume "p \<in> ?A"
  then obtain c x where "p = (f x, c)" "(m(k \<mapsto> v)) c = Some x" by blast
  then show "p \<in> ?B" by (cases "c = k") auto
next
  fix p assume "p \<in> ?B"
  then consider "p = (f v, k)" | c x where "p = (f x, c)" "m c = Some x" by blast
  then show "p \<in> ?A"
  proof cases
    case 2
    with assms have "(m(k \<mapsto> v)) c = Some x" by (cases "c = k") auto
    with 2 show ?thesis by blast
  qed auto
qed

definition new_stats :: "('c Chunk \<Rightarrow> nat) \<Rightarrow> 'c Chunk \<Rightarrow> 'c ChunkStore \<Rightarrow> 'c ChunkStore \<Rightarrow> bool" where
  "new_stats size_bytes ch s s' \<longleftrightarrow>
     (if chunk_is_static ch
      then temporal_physical_chunks_stats s' = temporal_physical_chunks_stats s
        \<and> static_chunks_stats s' = stats_add (static_chunks_stats s) (stats_from_chunk size_bytes ch)
      else temporal_physical_chunks_stats s' = stats_add (temporal_physical_chunks_stats s) (stats_from_chunk size_bytes ch)
        \<and> static_chunks_stats s' = static_chunks_stats s)"

lemma new_physical_inv:
  assumes inv: "store_inv sz s V" and ch: "chunk_wf ch" "num_rows ch \<noteq> 0" "\<not> chunk_is_static ch \<Longrightarrow> ch \<in> V"
    and new: "physical s (ch_id ch) = None" "chunk_is_static ch \<Longrightarrow> ch_id ch \<notin> ch_id ` V"
      "map_of (chunks_lineage s) (ch_id ch) \<noteq> None"
    and s': "physical_chunks_per_chunk_id s' = bt_entry (ch_id ch) ch (\<lambda>_. ch) (physical_chunks_per_chunk_id s)"
      "chunks_lineage s' = add_reference (ch_id ch) (chunks_lineage s)"
      "physical_chunk_ids_per_min_row_id s' = bs_insert (fst (the (row_id_range ch)), ch_id ch) (physical_chunk_ids_per_min_row_id s)"
      "temporal_chunk_ids_per_entity_per_component s' = temporal_chunk_ids_per_entity_per_component s"
      "temporal_chunk_ids_per_entity s' = temporal_chunk_ids_per_entity s" "new_stats sz ch s s'"
  shows "store_inv sz s' V" "physical s' = (physical s)(ch_id ch \<mapsto> ch)"
proof -
  have files: "store_files s V" and po: "physical_ok s" and mr: "min_row_ids_exact s" and st: "stats_exact sz s"
    and li: "lineage_inv (chunks_lineage s) (dom (physical s))" and wfV: "\<forall>x\<in>V. chunk_wf x \<and> \<not> chunk_is_static x"
    and inV: "\<And>cid x. physical s cid = Some x \<Longrightarrow> \<not> chunk_is_static x \<Longrightarrow> x \<in> V"
    using inv by (simp_all add: store_inv_def)
  have wf: "bt_wf (physical_chunks_per_chunk_id s)" using po by (simp add: physical_ok_def)
  show phys: "physical s' = (physical s)(ch_id ch \<mapsto> ch)" unfolding s'(1) by (simp add: map_of_bt_entry [OF wf])
  have a: "store_files s' V"
    unfolding store_files_def s'(4,5)
  proof (intro conjI ballI allI impI)
    fix x y assume x: "x \<in> V" "map_of (physical_chunks_per_chunk_id s') (ch_id x) = Some y"
    show "y = x"
    proof (cases "ch_id x = ch_id ch")
      case True
      then have "\<not> chunk_is_static ch" using new(2) x(1) by (metis imageI)
      then have "ch \<in> V" by (rule ch(3))
      moreover have "unique_ids V" using files by (simp add: store_files_def)
      ultimately have "ch = x" using unique_idsD True x(1) by metis
      then have "physical s' (ch_id x) = Some x" unfolding phys by simp
      with x(2) show ?thesis by simp
    next
      case False
      then have "physical s (ch_id x) = Some y" using x(2) phys by simp
      then show ?thesis using x(1) files unfolding store_files_def by blast
    qed
  qed (use files in \<open>simp_all add: store_files_def\<close>)
  have b: "physical_ok s'"
    unfolding physical_ok_def phys
  proof (intro conjI allI impI)
    show "bt_wf (physical_chunks_per_chunk_id s')" unfolding s'(1) by (rule bt_wf_entry [OF wf])
    fix cid x assume x: "((physical s)(ch_id ch \<mapsto> ch)) cid = Some x"
    have "ch_id x = cid \<and> chunk_wf x \<and> num_rows x \<noteq> 0"
    proof (cases "cid = ch_id ch")
      case True
      with x ch(1,2) show ?thesis by simp
    next
      case False
      with x have "physical s cid = Some x" by simp
      with po show ?thesis unfolding physical_ok_def by blast
    qed
    then show "ch_id x = cid" "chunk_wf x" "num_rows x \<noteq> 0" by simp_all
  qed
  have c: "min_row_ids_exact s'"
    using mr graph_insert [where m = "physical s", OF new(1), of "\<lambda>x. fst (the (row_id_range x))" ch]
    unfolding min_row_ids_exact_def phys s'(3) by (simp add: bs_wf_insert)
  have d: "stats_exact sz s'"
    using st s'(6) unfolding stats_exact_def chunk_stats_insert [OF wf new(1) s'(1)] new_stats_def by (simp split: if_splits)
  have e: "lineage_inv (chunks_lineage s') (dom (physical s'))"
  proof -
    have dm: "dom (physical s') = insert (ch_id ch) (dom (physical s))" unfolding phys by simp
    have "ch_id ch \<notin> dom (physical s)" using new(1) by (simp add: domIff)
    then show ?thesis unfolding dm s'(2) by (rule add_physical_reference [OF li new(3)])
  qed
  have f: "\<forall>cid x. physical s' cid = Some x \<longrightarrow> \<not> chunk_is_static x \<longrightarrow> x \<in> V"
    unfolding phys using inV ch(3) by simp
  show "store_inv sz s' V" unfolding store_inv_def by (intro conjI a b c d e f wfV)
qed

section \<open>Removal and the statistics of a new chunk\<close>

lemma stats_upd_commute:
  fixes s :: "'c ChunkStore"
  shows "s\<lparr>temporal_physical_chunks_stats := x, chunks_lineage := y\<rparr> = s\<lparr>chunks_lineage := y, temporal_physical_chunks_stats := x\<rparr>"
    "s\<lparr>temporal_physical_chunks_stats := x, physical_chunks_per_chunk_id := m\<rparr>
      = s\<lparr>physical_chunks_per_chunk_id := m, temporal_physical_chunks_stats := x\<rparr>"
    "forget_chunk cid (s\<lparr>temporal_physical_chunks_stats := x\<rparr>) = (forget_chunk cid s)\<lparr>temporal_physical_chunks_stats := x\<rparr>"
  by (cases s; simp add: forget_chunk_def)+

lemma drop_loop_stats:
  fixes s :: "'c ChunkStore"
  shows "drop_loop ops (s\<lparr>temporal_physical_chunks_stats := x\<rparr>) = (drop_loop ops s)\<lparr>temporal_physical_chunks_stats := x\<rparr>"
proof (induction ops s rule: drop_loop.induct)
  case (2 cid ops s)
  show ?case
  proof (cases "map_of (chunks_lineage s) cid")
    case None
    with 2(1) show ?thesis by simp
  next
    case (Some l)
    from 2(2) [OF Some refl refl] Some show ?thesis by (simp add: Let_def stats_upd_commute)
  qed
next
  case (3 cid ops s)
  then show ?case by (cases "map_of (chunks_lineage s) cid") (simp_all add: stats_upd_commute)
qed simp

lemma drop_lineage_add_stats:
  "drop_lineage_reference cid ((add_stats sz c t)\<lparr>physical_chunks_per_chunk_id := m\<rparr>)
    = add_stats sz c (drop_lineage_reference cid (t\<lparr>physical_chunks_per_chunk_id := m\<rparr>))"
proof -
  let ?x = "stats_add (temporal_physical_chunks_stats t) (stats_from_chunk sz c)"
  have "(add_stats sz c t)\<lparr>physical_chunks_per_chunk_id := m\<rparr>
      = t\<lparr>physical_chunks_per_chunk_id := m, temporal_physical_chunks_stats := ?x\<rparr>"
    unfolding add_stats_def stats_upd_commute ..
  then have "drop_lineage_reference cid ((add_stats sz c t)\<lparr>physical_chunks_per_chunk_id := m\<rparr>)
      = (drop_lineage_reference cid (t\<lparr>physical_chunks_per_chunk_id := m\<rparr>))\<lparr>temporal_physical_chunks_stats := ?x\<rparr>"
    unfolding drop_lineage_reference_def by (simp only: drop_loop_stats)
  then show ?thesis by (simp add: add_stats_def)
qed

lemma stats_sub_add: "stats_sub (stats_add a b) c = stats_add (stats_sub a c) b"
  by (simp add: stats_sub_def stats_add_def)

lemma remove_shallow_add_stats:
  "remove_shallow sz ch (add_stats sz c s) = apsnd (add_stats sz c) (remove_shallow sz ch s)"
proof -
  have d: "drop_min_row_id ch (add_stats sz c s) = add_stats sz c (drop_min_row_id ch s)"
    by (simp add: drop_min_row_id_def add_stats_def split: option.split)
  let ?t = "drop_min_row_id ch s"
  have p: "physical_chunks_per_chunk_id (add_stats sz c t) = physical_chunks_per_chunk_id t"
    "chunks_lineage (add_stats sz c t) = chunks_lineage t" for t by (simp_all add: add_stats_def)
  have i: "snd (drop_from_indices x (add_stats sz c t)) = add_stats sz c (snd (drop_from_indices x t))" for x t
    by (simp add: drop_from_indices_eq add_stats_def)
  have u: "(add_stats sz c t)\<lparr>temporal_physical_chunks_stats :=
      stats_sub (temporal_physical_chunks_stats (add_stats sz c t)) y\<rparr>
    = add_stats sz c (t\<lparr>temporal_physical_chunks_stats := stats_sub (temporal_physical_chunks_stats t) y\<rparr>)" for t y
    by (simp add: add_stats_def stats_sub_add)
  show ?thesis
  proof (cases "map_of (physical_chunks_per_chunk_id ?t) (ch_id ch)")
    case None
    then show ?thesis by (simp add: remove_shallow_def d p)
  next
    case (Some x)
    let ?w = "drop_lineage_reference (ch_id x) (?t\<lparr>physical_chunks_per_chunk_id := bt_remove (ch_id ch) (physical_chunks_per_chunk_id ?t)\<rparr>)"
    have "remove_shallow sz ch (add_stats sz c s) = (Some x,
        let t = (if map_of (chunks_lineage ?w) (ch_id x) = None then snd (drop_from_indices x (add_stats sz c ?w)) else add_stats sz c ?w)
        in t\<lparr>temporal_physical_chunks_stats := stats_sub (temporal_physical_chunks_stats t) (stats_from_chunk sz x)\<rparr>)"
      unfolding remove_shallow_def d p Let_def Some drop_lineage_add_stats by simp
    also have "\<dots> = (Some x, add_stats sz c (let t = (if map_of (chunks_lineage ?w) (ch_id x) = None then snd (drop_from_indices x ?w) else ?w)
        in t\<lparr>temporal_physical_chunks_stats := stats_sub (temporal_physical_chunks_stats t) (stats_from_chunk sz x)\<rparr>))"
      unfolding i Let_def by (cases "map_of (chunks_lineage ?w) (ch_id x) = None") (simp_all only: u if_True if_False simp_thms)
    also have "\<dots> = apsnd (add_stats sz c) (remove_shallow sz ch s)"
      unfolding remove_shallow_def Let_def Some by simp
    finally show ?thesis .
  qed
qed

lemma remove_one_deep:
  "snd (remove_chunks_deep sz reason [e] s) = snd (drop_from_indices e (snd (remove_shallow sz e s)))"
proof -
  obtain x t where "remove_shallow sz e s = (x, t)" by (cases "remove_shallow sz e s")
  moreover obtain b u where "drop_from_indices e t = (b, u)" by (cases "drop_from_indices e t")
  ultimately show ?thesis
    by (cases x; cases b) (simp_all add: remove_chunks_deep_def remove_chunks_shallow_def Let_def)
qed

lemma remove_one_deep_add_stats:
  "snd (remove_chunks_deep sz reason [e] (add_stats sz c s)) = add_stats sz c (snd (remove_chunks_deep sz reason [e] s))"
  unfolding remove_one_deep remove_shallow_add_stats by (simp add: drop_from_indices_eq add_stats_def)

section \<open>Compaction in the store\<close>

text \<open>A lineage entry with another reference survives the loss of one.\<close>

lemma drop_shared_eq:
  assumes "map_of (chunks_lineage s) cid = Some l" "2 \<le> ref_count l"
  shows "drop_lineage_reference cid s = s\<lparr>chunks_lineage := al_insert cid (l\<lparr>ref_count := ref_count l - 1\<rparr>) (chunks_lineage s)\<rparr>"
  using assms by (simp add: drop_lineage_reference_def removals_def Let_def)

lemma drop_shared_reference:
  assumes "map_of (chunks_lineage s) cid = Some l" "2 \<le> ref_count l"
  shows "map_of (chunks_lineage (drop_lineage_reference cid s)) c = None \<longleftrightarrow> map_of (chunks_lineage s) c = None"
  using assms by (simp add: drop_shared_eq)

lemma remove_one_deep_leaky:
  assumes "store_inv sz s V" "physical s (ch_id e) = Some e" "map_of (chunks_lineage s) (ch_id e) = Some l" "2 \<le> ref_count l"
  shows "leaky_compactions (snd (remove_chunks_deep sz reason [e] s)) = leaky_compactions s"
proof -
  let ?t = "drop_min_row_id e s"
  have t: "physical_chunks_per_chunk_id ?t = physical_chunks_per_chunk_id s" "chunks_lineage ?t = chunks_lineage s"
    "leaky_compactions ?t = leaky_compactions s" by (simp_all add: drop_min_row_id_def split: option.split)
  let ?p = "?t\<lparr>physical_chunks_per_chunk_id := bt_remove (ch_id e) (physical_chunks_per_chunk_id ?t)\<rparr>"
  have "map_of (chunks_lineage ?p) (ch_id e) = Some l" using assms(3) t by simp
  note d = drop_shared_eq [OF this assms(4)]
  show ?thesis
    unfolding remove_one_deep drop_from_indices_eq remove_shallow_def Let_def t assms(2) option.case snd_conv d [unfolded t]
    by (simp add: t)
qed

lemma remove_one_deep_lineage:
  assumes "store_inv sz s V" "physical s (ch_id e) = Some e" "e \<in> V"
  shows "chunks_lineage (snd (remove_chunks_deep sz reason [e] s)) = chunks_lineage (drop_lineage_reference (ch_id e) s)"
proof -
  have "\<not> chunk_is_static e" using assms(1,3) by (simp add: store_inv_def)
  from remove_shallow_inv(3) [OF assms(1,2) this] show ?thesis unfolding remove_one_deep drop_from_indices_eq by simp
qed

section \<open>The elected chunk\<close>

lemma candidates_positive:
  assumes "(cid, points) \<in> set (fold (\<lambda>(cid, w). al_entry cid 0 (\<lambda>p. p + g cid * w)) ps m)" "(0 :: nat) < points"
    and "\<And>cid points. (cid, points) \<in> set m \<Longrightarrow> 0 < points \<Longrightarrow> 0 < g cid"
  shows "0 < (g cid :: nat)"
  using assms
proof (induction ps arbitrary: m)
  case (Cons x ps)
  obtain k w where x: "x = (k, w)" by (cases x)
  show ?case
  proof (rule Cons.IH [OF _ Cons.prems(2)])
    show "(cid, points) \<in> set (fold (\<lambda>(cid, w). al_entry cid 0 (\<lambda>p. p + g cid * w)) ps (al_entry k 0 (\<lambda>p. p + g k * w) m))"
      using Cons.prems(1) x by simp
  next
    fix c p assume a: "(c, p) \<in> set (al_entry k 0 (\<lambda>p. p + g k * w) m)" "0 < p"
    have set_ins: "(c, p) \<in> set (al_insert k v m) \<Longrightarrow> (c, p) \<in> set m \<or> (c = k \<and> p = v)" for v
      by (induction k v m rule: al_insert.induct) (auto split: if_splits)
    have get: "al_get 0 k m \<noteq> 0 \<Longrightarrow> (k, al_get 0 k m) \<in> set m"
      by (auto simp: al_get_def split: option.splits dest: map_of_SomeD)
    from a(1) have "(c, p) \<in> set m \<or> (c = k \<and> p = al_get 0 k m + g k * w)"
      unfolding al_entry_def by (rule set_ins)
    with a(2) get Cons.prems(3) show "0 < g c" by (metis add_0 gr0I mult_0)
  qed
qed simp

lemma list_first_mem: "list_first xs = Some x \<Longrightarrow> x \<in> set xs"
  by (cases xs) (simp_all add: list_first_def)

lemma elected_concatenable:
  assumes order: "\<And>xs. set (we_order env xs) = set xs"
    and e: "find_and_elect_compaction_candidate env s ch = Some e"
  obtains cid where "physical s cid = Some e" "cid \<noteq> ch_id ch" "concatenable ch e"
proof -
  let ?g = "check_if_chunk_below_threshold env s ch"
  obtain per_timeline where "map_of (temporal_chunk_ids_per_entity_per_component s) (ch_entity_path ch) = Some per_timeline"
    using e by (auto simp: find_and_elect_compaction_candidate_def split: if_splits option.splits)
  then have "list_first (List.map_filter (\<lambda>(cid, _). physical s cid) (filter (\<lambda>(_, points). 0 < points) (rev (sort_key snd (we_order env
      (fold (\<lambda>(cid, w). al_entry cid 0 (\<lambda>p. p + ?g cid * w)) (candidate_points s ch per_timeline) [])))))) = Some e"
    using e by (simp add: find_and_elect_compaction_candidate_def Let_def split: if_splits)
  from list_first_mem [OF this] obtain cid points where c: "physical s cid = Some e" "0 < points"
    "(cid, points) \<in> set (fold (\<lambda>(cid, w). al_entry cid 0 (\<lambda>p. p + ?g cid * w)) (candidate_points s ch per_timeline) [])"
    by (auto simp: set_map_filter order)
  have "0 < ?g cid" by (rule candidates_positive [OF c(3,2)]) simp
  then have "cid \<noteq> ch_id ch" "concatenable ch e"
    using c(1) by (auto simp: check_if_chunk_below_threshold_def split: if_splits)
  with c(1) show ?thesis using that by blast
qed

lemma concatenable_temporal: "concatenable a b \<Longrightarrow> chunk_is_static b = chunk_is_static a"
  by (auto simp: concatenable_def same_timelines_def chunk_is_static_def)

section \<open>The rows of a store\<close>

definition map_rows :: "('k \<times> 'c Chunk) list \<Rightarrow> 'c row multiset" where
  "map_rows m = mset (concat (map (chunk_rows \<circ> snd) m))"

definition store_rows :: "'c ChunkStore \<Rightarrow> 'c row multiset" where
  "store_rows s = map_rows (physical_chunks_per_chunk_id s)"

lemma map_rows_insert:
  "bt_wf m \<Longrightarrow> map_of m k = None \<Longrightarrow> map_rows (bt_entry k ch (\<lambda>_. ch) m) = map_rows m + mset (chunk_rows ch)"
proof (induction m)
  case (Cons x m)
  obtain k' v' where x: "x = (k', v')" by (cases x)
  have "k' \<noteq> k" using Cons.prems(2) x by auto
  with Cons x show ?case by (auto simp: map_rows_def)
qed (simp add: map_rows_def)

lemma map_rows_remove:
  "bt_wf m \<Longrightarrow> map_of m k = Some ch \<Longrightarrow> map_rows (bt_remove k m) + mset (chunk_rows ch) = map_rows m"
proof (induction m)
  case (Cons x m)
  obtain k' v' where x: "x = (k', v')" by (cases x)
  show ?case
  proof (cases "k' = k")
    case True
    have "distinct (map fst (x # m))" using bt_wf_distinct [OF Cons.prems(1)] .
    then have "bt_remove k m = m" using True x unfolding bt_remove_def by (intro filter_True) force
    moreover have "bt_remove k (x # m) = bt_remove k m" using True x by (simp add: bt_remove_def)
    moreover have "v' = ch" using Cons.prems(2) True x by simp
    ultimately show ?thesis using x by (simp add: map_rows_def)
  next
    case False
    then have "bt_remove k (x # m) = x # bt_remove k m" "map_of m k = Some ch"
      using Cons.prems(2) x by (simp_all add: bt_remove_def)
    moreover have "bt_wf m" using Cons.prems(1) x by simp
    ultimately show ?thesis using Cons.IH by (simp add: map_rows_def)
  qed
qed simp

section \<open>Filing a new chunk\<close>

lemma leaky_store_inv: "store_inv sz (s\<lparr>leaky_compactions := x\<rparr>) V = store_inv sz s V"
  by (simp add: store_inv_def store_files_def physical_ok_def min_row_ids_exact_def stats_exact_def chunk_stats_def)

lemma add_stats_sel [simp]:
  "physical_chunks_per_chunk_id (add_stats sz ch s) = physical_chunks_per_chunk_id s"
  "chunks_lineage (add_stats sz ch s) = chunks_lineage s"
  "physical_chunk_ids_per_min_row_id (add_stats sz ch s) = physical_chunk_ids_per_min_row_id s"
  "temporal_chunk_ids_per_entity_per_component (add_stats sz ch s) = temporal_chunk_ids_per_entity_per_component s"
  "temporal_chunk_ids_per_entity (add_stats sz ch s) = temporal_chunk_ids_per_entity s"
  "static_chunks_stats (add_stats sz ch s) = static_chunks_stats s"
  "leaky_compactions (add_stats sz ch s) = leaky_compactions s" "dangling_splits (add_stats sz ch s) = dangling_splits s"
  "store_config (add_stats sz ch s) = store_config s"
  by (simp_all add: add_stats_def)

lemma file_only_sel [simp]:
  "physical_chunks_per_chunk_id (file_only ch s) = physical_chunks_per_chunk_id s"
  "chunks_lineage (file_only ch s) = chunks_lineage s"
  "leaky_compactions (file_only ch s) = leaky_compactions s" "dangling_splits (file_only ch s) = dangling_splits s"
  "store_config (file_only ch s) = store_config s"
  by (simp_all add: file_only_def)

lemma insert_physical_inv:
  assumes inv: "store_inv sz s V" and ch: "chunk_wf ch" "num_rows ch \<noteq> 0" "\<not> chunk_is_static ch" "ch \<in> V"
    and new: "physical s (ch_id ch) = None" "map_of (chunks_lineage s) (ch_id ch) \<noteq> None"
  shows "store_inv sz (insert_physical ch (add_stats sz ch s)) V"
    "physical (insert_physical ch (add_stats sz ch s)) = (physical s)(ch_id ch \<mapsto> ch)"
    "store_rows (insert_physical ch (add_stats sz ch s)) = store_rows s + mset (chunk_rows ch)"
proof -
  obtain mn mx where r: "row_id_range ch = Some (mn, mx)" using ch(2) row_id_range_None [of ch] by fastforce
  let ?s = "insert_physical ch (add_stats sz ch s)"
  have sel: "physical_chunks_per_chunk_id ?s = bt_entry (ch_id ch) ch (\<lambda>_. ch) (physical_chunks_per_chunk_id s)"
    "chunks_lineage ?s = add_reference (ch_id ch) (chunks_lineage s)"
    "physical_chunk_ids_per_min_row_id ?s = bs_insert (fst (the (row_id_range ch)), ch_id ch) (physical_chunk_ids_per_min_row_id s)"
    "temporal_chunk_ids_per_entity_per_component ?s = temporal_chunk_ids_per_entity_per_component s"
    "temporal_chunk_ids_per_entity ?s = temporal_chunk_ids_per_entity s"
    unfolding insert_physical_sel [OF r] by (simp_all add: r)
  have "new_stats sz ch s ?s"
    unfolding insert_physical_sel [OF r] using ch(3) by (simp add: new_stats_def add_stats_def)
  note n = new_physical_inv [OF inv ch(1,2) _ new(1) _ new(2) sel this]
  show "store_inv sz ?s V" "physical ?s = (physical s)(ch_id ch \<mapsto> ch)" by (rule n; use ch(3,4) in simp)+
  have "bt_wf (physical_chunks_per_chunk_id s)" using inv by (simp add: store_inv_def physical_ok_def)
  then show "store_rows ?s = store_rows s + mset (chunk_rows ch)"
    unfolding store_rows_def sel(1) by (rule map_rows_insert) (rule new(1))
qed

text \<open>A chunk that is stored as it is.\<close>

lemma store_as_is:
  assumes inv: "store_inv sz s V" and ch: "chunk_wf ch" "num_rows ch \<noteq> 0" "\<not> chunk_is_static ch"
    and new: "ch_id ch \<notin> ch_id ` V" "physical s (ch_id ch) = None" "map_of (chunks_lineage s) (ch_id ch) \<noteq> None"
  defines "s' \<equiv> insert_physical ch (file_chunk sz ch s)"
  shows "store_inv sz s' (insert ch V)" "physical s' = (physical s)(ch_id ch \<mapsto> ch)"
    "store_rows s' = store_rows s + mset (chunk_rows ch)"
proof -
  have "store_inv sz (file_only ch s) (insert ch V)" by (rule file_only_inv [OF inv ch(1,3) new(1,2)])
  note n = insert_physical_inv [OF this ch insertI1]
  have "store_rows (file_only ch s) = store_rows s" by (simp add: store_rows_def)
  with n new(2,3) show "store_inv sz s' (insert ch V)" "physical s' = (physical s)(ch_id ch \<mapsto> ch)"
    "store_rows s' = store_rows s + mset (chunk_rows ch)"
    unfolding s'_def file_chunk_eq by simp_all
qed

text \<open>A chunk that replaces the one it was compacted with. The lineage entry of the elected chunk is also
  referenced by the compacted one, so it survives the removal.\<close>

lemma insert_lineage_entry:
  assumes "map_of (chunks_lineage s) cid = None"
  obtains l where "map_of (chunks_lineage (insert_lineage cid report s)) cid = Some l" "direct l = lineage_of_report report"
  using assms that by (auto simp: insert_lineage_def insert_lineage_if_missing_def add_references)

lemma insert_lineage_keeps:
  "map_of (chunks_lineage s) c \<noteq> None \<Longrightarrow> map_of (chunks_lineage (insert_lineage cid report s)) c \<noteq> None"
  by (simp add: insert_lineage_def insert_lineage_if_missing_def add_references split: option.split)

lemma replace_elected_eq:
  "snd (replace_elected sz ch e c (file_chunk sz c s)) = (let srcs = bt_entry (ch_id e) e (\<lambda>_. e) [(ch_id ch, ch)] in
    add_stats sz c (snd (remove_chunks_deep sz Compaction [e] (insert_lineage (ch_id c) (ReportCompactedFrom srcs)
      ((file_only c s)\<lparr>leaky_compactions := fold (\<lambda>(src, _). al_insert src (ch_id c)) srcs (leaky_compactions s)\<rparr>)))))"
proof -
  have u: "(add_stats sz c t)\<lparr>leaky_compactions := x\<rparr> = add_stats sz c (t\<lparr>leaky_compactions := x\<rparr>)"
    "insert_lineage cid report (add_stats sz c t) = add_stats sz c (insert_lineage cid report t)"
    for t :: "'a ChunkStore" and x cid and report :: "'a ChunkDirectLineageReport"
    by (cases t; simp add: add_stats_def insert_lineage_def)+
  show ?thesis unfolding replace_elected_def Let_def snd_conv file_chunk_eq u remove_one_deep_add_stats by simp
qed

lemma physical_known: "store_inv sz s V \<Longrightarrow> physical s cid = Some ch \<Longrightarrow> map_of (chunks_lineage s) cid \<noteq> None"
  unfolding store_inv_def lineage_inv_def map_of_eq_None_iff by blast

lemma physical_counted:
  assumes "store_inv sz s V" "physical s cid = Some ch" "map_of (chunks_lineage s) cid = Some l"
  shows "ref_count l = 1 + referenced_by (chunks_lineage s) cid"
proof -
  have "counted (chunks_lineage s) (phys_refs (dom (physical s)))" using assms(1) by (simp add: store_inv_def lineage_inv_def)
  moreover have "phys_refs (dom (physical s)) cid = 1" using assms(2) by (simp add: phys_refs_def domI)
  ultimately show ?thesis using assms(3) by (simp add: counted_def)
qed

text \<open>The store holds the data of a chunk: it is in memory, or the chunk it was compacted into is.\<close>

definition held :: "'c ChunkStore \<Rightarrow> ChunkId \<Rightarrow> bool" where
  "held s cid \<longleftrightarrow> physical s cid \<noteq> None \<or> (\<exists>c. map_of (leaky_compactions s) cid = Some c \<and> physical s c \<noteq> None)"

lemma insert_physical_fields:
  "chunks_lineage (insert_physical ch s) = add_reference (ch_id ch) (chunks_lineage s)"
  "leaky_compactions (insert_physical ch s) = leaky_compactions s" "dangling_splits (insert_physical ch s) = dangling_splits s"
  "split_on_ingest (insert_physical ch s) = split_on_ingest s"
  by (simp_all add: insert_physical_def Let_def split: option.split)

lemma direct_lineage_references: "direct_lineage (fold add_reference refs ls) c = direct_lineage ls c"
  by (simp add: direct_lineage_def add_references option.map_comp comp_def)

lemma direct_lineage_insert:
  "direct_lineage (chunks_lineage (insert_lineage cid report s)) c =
     (if c = cid \<and> direct_lineage (chunks_lineage s) cid = None then Some (lineage_of_report report)
      else direct_lineage (chunks_lineage s) c)"
  by (cases "map_of (chunks_lineage s) cid")
    (simp_all add: insert_lineage_def insert_lineage_if_missing_def direct_lineage_references, simp_all add: direct_lineage_def)

lemma direct_lineage_physical:
  "direct_lineage (chunks_lineage (insert_physical ch s)) c = direct_lineage (chunks_lineage s) c"
  using direct_lineage_references [of "[ch_id ch]"] by (simp add: insert_physical_fields)

lemma known_iff_direct: "map_of ls c = None \<longleftrightarrow> direct_lineage ls c = None"
  by (simp add: direct_lineage_def)

lemma compaction_inv:
  assumes inv: "store_inv sz s V" and e: "physical s (ch_id e) = Some e" "e \<in> V"
    and c: "chunk_wf c" "num_rows c \<noteq> 0" "\<not> chunk_is_static c"
    and new: "ch_id c \<notin> ch_id ` V" "physical s (ch_id c) = None" "map_of (chunks_lineage s) (ch_id c) = None"
    and ch: "map_of (chunks_lineage s) (ch_id ch) \<noteq> None"
  defines "s' \<equiv> insert_physical c (snd (replace_elected sz ch e c (file_chunk sz c s)))"
  shows "store_inv sz s' (insert c V - {e})" "physical s' = (physical s)(ch_id e := None, ch_id c \<mapsto> c)"
    "store_rows s' + mset (chunk_rows e) = store_rows s + mset (chunk_rows c)"
    "held s' (ch_id ch)"
proof -
  let ?srcs = "bt_entry (ch_id e) e (\<lambda>_. e) [(ch_id ch, ch)]"
  let ?report = "ReportCompactedFrom ?srcs"
  define u1 where "u1 = (file_only c s)\<lparr>leaky_compactions := fold (\<lambda>(src, _). al_insert src (ch_id c)) ?srcs (leaky_compactions s)\<rparr>"
  define u2 where "u2 = insert_lineage (ch_id c) ?report u1"
  define u3 where "u3 = snd (remove_chunks_deep sz Compaction [e] u2)"
  have s': "s' = insert_physical c (add_stats sz c u3)" unfolding s'_def u3_def u2_def u1_def replace_elected_eq Let_def ..
  have ls1: "chunks_lineage u1 = chunks_lineage s" and p1: "physical_chunks_per_chunk_id u1 = physical_chunks_per_chunk_id s"
    by (simp_all add: u1_def)
  have i1: "store_inv sz u1 (insert c V)" unfolding u1_def leaky_store_inv by (rule file_only_inv [OF inv c(1,3) new(1,2)])
  have le: "map_of (chunks_lineage s) (ch_id e) \<noteq> None"
    by (rule physical_known [OF inv e(1)])
  have refs: "set (iter_referenced_chunks (lineage_of_report ?report)) = {ch_id e, ch_id ch}"
    by (auto simp: keys_bt_entry)
  have i2: "store_inv sz u2 (insert c V)" unfolding u2_def
    by (rule insert_lineage_store_inv [OF i1]) (use le ch ls1 refs in simp)
  have p2: "physical_chunks_per_chunk_id u2 = physical_chunks_per_chunk_id s" by (simp add: u2_def insert_lineage_def p1)
  have "set [e] \<subseteq> insert c V" using e(2) by simp
  from remove_chunks_deep_inv(1) [OF i2 this prod.collapse [symmetric]]
  have i3: "store_inv sz u3 (insert c V - {e})" unfolding u3_def by simp
  have e2: "physical u2 (ch_id e) = Some e" "e \<in> insert c V" "\<not> chunk_is_static e"
    using p2 e inv by (simp_all add: store_inv_def)
  have p3: "physical_chunks_per_chunk_id u3 = bt_remove (ch_id e) (physical_chunks_per_chunk_id s)"
    using remove_shallow_inv(2) [OF i2 e2(1,3)] p2 unfolding u3_def remove_one_deep drop_from_indices_eq by simp
  obtain lc where lc: "map_of (chunks_lineage u2) (ch_id c) = Some lc" "direct lc = lineage_of_report ?report"
    using insert_lineage_entry [of u1 "ch_id c" ?report] new(3) ls1 unfolding u2_def by metis
  obtain l where l: "map_of (chunks_lineage u2) (ch_id e) = Some l"
    using insert_lineage_keeps [of u1 "ch_id e" "ch_id c" ?report] le ls1 unfolding u2_def by auto
  have "referenced_by (chunks_lineage u2) (ch_id e) \<noteq> 0"
    using referenced_by_zero [OF lc(1)] lc(2) refs by (metis insertI1)
  moreover have "ref_count l = 1 + referenced_by (chunks_lineage u2) (ch_id e)"
    by (rule physical_counted [OF i2 e2(1) l])
  ultimately have two: "2 \<le> ref_count l" by linarith
  from drop_shared_reference [OF l this] lc(1) have l3: "map_of (chunks_lineage u3) (ch_id c) \<noteq> None"
    unfolding u3_def remove_one_deep_lineage [OF i2 e2(1,2)] by simp
  have ne: "c \<noteq> e" using new(1) e(2) by blast
  have "physical u3 (ch_id c) = None" using new(2) p3 by simp
  note n = insert_physical_inv [OF i3 c _ this l3, folded s']
  have mem: "c \<in> insert c V - {e}" using ne by simp
  show "store_inv sz s' (insert c V - {e})" by (rule n(1) [OF mem])
  show "physical s' = (physical s)(ch_id e := None, ch_id c \<mapsto> c)" unfolding n(2) [OF mem] by (simp add: p3)
  have "bt_wf (physical_chunks_per_chunk_id s)" using inv by (simp add: store_inv_def physical_ok_def)
  from map_rows_remove [OF this e(1)] show "store_rows s' + mset (chunk_rows e) = store_rows s + mset (chunk_rows c)"
    unfolding n(3) [OF mem] by (simp add: store_rows_def p3 union_ac)
  have "map_of (fold (\<lambda>(src, _). al_insert src (ch_id c)) ?srcs (leaky_compactions s)) (ch_id ch) = Some (ch_id c)"
    by (cases "ch_id e = ch_id ch") simp_all
  then have "map_of (leaky_compactions u2) (ch_id ch) = Some (ch_id c)" by (simp add: u2_def u1_def insert_lineage_def)
  then have "map_of (leaky_compactions s') (ch_id ch) = Some (ch_id c)"
    unfolding s' insert_physical_fields by (simp add: u3_def remove_one_deep_leaky [OF i2 e2(1) l two])
  moreover have "physical s' (ch_id c) = Some c" unfolding n(2) [OF mem] by simp
  ultimately show "held s' (ch_id ch)" by (simp add: held_def)
qed

section \<open>Insertion without a split\<close>

text \<open>An identifier the store has never seen, and a chunk to be stored.\<close>

definition unknown :: "'c ChunkStore \<Rightarrow> 'c Chunk set \<Rightarrow> ChunkId \<Rightarrow> bool" where
  "unknown s V cid \<longleftrightarrow> map_of (chunks_lineage s) cid = None \<and> map_of (leaky_compactions s) cid = None
     \<and> map_of (dangling_splits s) cid = None \<and> physical s cid = None \<and> cid \<notin> ch_id ` V"

definition storable :: "'c Chunk \<Rightarrow> bool" where
  "storable ch \<longleftrightarrow> chunk_wf ch \<and> ch_is_sorted ch \<and> \<not> chunk_is_static ch \<and> num_rows ch \<noteq> 0 \<and> ch_components ch \<noteq> []"

text \<open>Every chunk in memory that can be compacted with \<open>ch\<close> has compact arrays where padding needs them.\<close>

definition pads_with_store :: "'c ChunkStore \<Rightarrow> 'c Chunk \<Rightarrow> bool" where
  "pads_with_store s ch \<longleftrightarrow> (\<forall>cid e. physical s cid = Some e \<longrightarrow> concatenable ch e \<longrightarrow> pads_compactly e ch \<and> pads_compactly ch e)"

definition write_laws :: "'c write_env \<Rightarrow> bool" where
  "write_laws env \<longleftrightarrow> arrow_laws (we_kernels env) \<and> (\<forall>xs. set (we_order env xs) = set xs)"

lemma insert_id_store_inv: "store_inv sz (s\<lparr>insert_id := x\<rparr>) V = store_inv sz s V"
  by (simp add: store_inv_def store_files_def physical_ok_def min_row_ids_exact_def stats_exact_def chunk_stats_def)

lemma insert_temporal_ok:
  assumes env: "write_laws env" and inv: "store_inv (we_size env) s V" and ch: "storable ch"
    and new: "ch_id ch \<notin> ch_id ` V" "physical s (ch_id ch) = None" "map_of (chunks_lineage s) (ch_id ch) \<noteq> None"
    and fresh: "\<And>i. n \<le> i \<Longrightarrow> i < n + 3 \<Longrightarrow> unknown s V (we_fresh env i)" and pad: "pads_with_store s ch"
  shows "\<exists>c added n' s1 V'. insert_temporal env n ch lineage s = Some (Inr (c, added), n', s1)
    \<and> store_inv (we_size env) (insert_physical c s1) V'
    \<and> store_rows (insert_physical c s1) = store_rows s + mset (chunk_rows ch)
    \<and> held (insert_physical c s1) (ch_id ch)"
proof (cases "find_and_elect_compaction_candidate env s ch")
  case None
  have "chunk_wf ch" "num_rows ch \<noteq> 0" "\<not> chunk_is_static ch" using ch by (simp_all add: storable_def)
  note st = store_as_is [OF inv this new]
  from None have "insert_temporal env n ch lineage s = Some (Inr (ch, [Addition ch ch lineage]), n, file_chunk (we_size env) ch s)"
    by (simp add: insert_temporal_def)
  moreover have "held (insert_physical ch (file_chunk (we_size env) ch s)) (ch_id ch)" by (simp add: held_def st(2))
  ultimately show ?thesis using st(1,3) by blast
next
  case (Some e)
  have order: "\<And>xs. set (we_order env xs) = set xs" and K: "arrow_laws (we_kernels env)" using env by (simp_all add: write_laws_def)
  obtain cid where e: "physical s cid = Some e" "cid \<noteq> ch_id ch" "concatenable ch e"
    using elected_concatenable [OF order Some] by blast
  have chw: "chunk_wf ch" "num_rows ch \<noteq> 0" "\<not> chunk_is_static ch" using ch by (simp_all add: storable_def)
  have ew: "ch_id e = cid" "chunk_wf e" "num_rows e \<noteq> 0" using inv e(1) by (simp_all add: store_inv_def physical_ok_def)
  have es: "\<not> chunk_is_static e" using concatenable_temporal [OF e(3)] chw(3) by simp
  have eV: "e \<in> V" using inv e(1) es by (simp add: store_inv_def)
  have pads: "pads_compactly e ch" "pads_compactly ch e" using pad e(1,3) by (simp_all add: pads_with_store_def)
  obtain c where c: "concat_and_sort (we_build env) (we_kernels env) (we_fresh env n) (we_fresh env (n + 1)) (we_fresh env (n + 2)) e ch = Inr c"
    "chunk_wf c" "mset (chunk_rows c) = mset (chunk_rows e) + mset (chunk_rows ch)" "ch_id c \<in> {we_fresh env n, we_fresh env (n + 2)}"
    using compaction_merges [OF K ew(2) chw(1) ew(3) chw(2) mergeable_sym [OF chw(1) ew(2) e(3)] pads] by blast
  have "unknown s V (ch_id c)" using c(4) fresh [of n] fresh [of "n + 2"] by auto
  then have cn: "ch_id c \<notin> ch_id ` V" "physical s (ch_id c) = None" "map_of (chunks_lineage s) (ch_id c) = None"
    by (simp_all add: unknown_def)
  have "size (mset (chunk_rows c)) = num_rows e + num_rows ch" unfolding c(3) by simp
  then have cr: "num_rows c \<noteq> 0" using ew(3) by simp
  have cs: "\<not> chunk_is_static c"
  proof -
    have "set (chunk_rows ch) \<subseteq> set (chunk_rows c)" using arg_cong [OF c(3), of set_mset] by simp
    then show ?thesis using static_iff_rows [OF chw(2)] static_iff_rows [OF cr] chw(3) by blast
  qed
  obtain report s1 where r: "replace_elected (we_size env) ch e c (file_chunk (we_size env) c s) = (report, s1)"
    by (metis prod.exhaust)
  have ep: "physical s (ch_id e) = Some e" using e(1) ew(1) by simp
  note ci = compaction_inv [OF inv ep eV c(2) cr cs cn new(3), unfolded r snd_conv]
  have "insert_temporal env n ch lineage s = Some (Inr (c, [Addition ch c report]), n + 3, s1)"
    unfolding insert_temporal_def Some option.case c(1) sum.case Let_def r by simp
  moreover have "store_rows (insert_physical c s1) = store_rows s + mset (chunk_rows ch)"
    using ci(3) unfolding c(3) by (metis (no_types, lifting) add.assoc add.commute add_right_cancel)
  ultimately show ?thesis using ci(1,4) by blast
qed

lemma store_unsplit_ok:
  assumes env: "write_laws env" and inv: "store_inv (we_size env) s V" and ch: "storable ch"
    and new: "ch_id ch \<notin> ch_id ` V" "physical s (ch_id ch) = None" "map_of (chunks_lineage s) (ch_id ch) \<noteq> None"
    and fresh: "\<And>i. n \<le> i \<Longrightarrow> i < n + 3 \<Longrightarrow> unknown s V (we_fresh env i)" and pad: "pads_with_store s ch"
  shows "\<exists>added n' s' V'. store_unsplit env n ch lineage diffs s = Some (Inserted (diffs @ added), n', s')
    \<and> store_inv (we_size env) s' V' \<and> store_rows s' = store_rows s + mset (chunk_rows ch)
    \<and> held s' (ch_id ch)"
proof -
  let ?s = "s\<lparr>insert_id := insert_id s + 1\<rparr>"
  have "store_inv (we_size env) ?s V" using inv by (simp add: insert_id_store_inv)
  moreover have "\<And>i. n \<le> i \<Longrightarrow> i < n + 3 \<Longrightarrow> unknown ?s V (we_fresh env i)" using fresh by (simp add: unknown_def)
  moreover have "pads_with_store ?s ch" using pad by (simp add: pads_with_store_def)
  moreover have "store_rows ?s = store_rows s" by (simp add: store_rows_def)
  ultimately obtain c added n' s1 V' where t: "insert_temporal env n ch lineage ?s = Some (Inr (c, added), n', s1)"
    "store_inv (we_size env) (insert_physical c s1) V'" "store_rows (insert_physical c s1) = store_rows s + mset (chunk_rows ch)"
    "held (insert_physical c s1) (ch_id ch)"
    using insert_temporal_ok [OF env _ ch new(1), of ?s n lineage] new(2,3) by auto
  have "\<not> chunk_is_static ch" using ch by (simp add: storable_def)
  with t(1) have "store_unsplit env n ch lineage diffs s = Some (Inserted (diffs @ added), n', insert_physical c s1)"
    by (simp add: store_unsplit_def Let_def)
  with t(2-4) show ?thesis by blast
qed

end
