(* ===== verification/Store_Collect.thy ===== *)
theory Store_Collect
  imports Store_Gc
begin

text \<open>
  What garbage collection guarantees (\<open>re_chunk_store\<close>: \<open>gc.rs\<close>, \<open>query.rs\<close>): it keeps the store
  consistent and reports what it removed, spares static and protected chunks, frees the bytes it was
  asked for when it can, and its distance heuristic agrees with the reference implementation.
\<close>

section \<open>The distance of a chunk\<close>

lemma iter_min_dominated:
  assumes "set xs \<subseteq> set ys" "\<forall>y\<in>set ys. \<exists>x\<in>set xs. x \<le> y"
  shows "iter_min xs = iter_min ys"
proof (cases "ys = []")
  case True
  with assms(1) show ?thesis by simp
next
  case False
  then have ne: "set xs \<noteq> {}" "set ys \<noteq> {}" using assms(2) by fastforce+
  have "Min (set ys) \<le> Min (set xs)" by (rule Min_antimono [OF assms(1) ne(1)]) simp
  moreover have "Min (set xs) \<le> Min (set ys)"
  proof -
    obtain x where "x \<in> set xs" "x \<le> Min (set ys)" using assms(2) ne(2) by (meson List.finite_set Min_in)
    then show ?thesis using Min_le [of "set xs" x] by (meson List.finite_set order_trans)
  qed
  ultimately show ?thesis using ne by (simp add: iter_min_def)
qed

lemma min_distance_sorted_eq:
  assumes "sorted ts"
  shows "min_distance_sorted ts time = iter_min (map (\<lambda>t. abs_diff t (as_i64 time)) ts)"
proof -
  let ?m = "as_i64 time" and ?p = "partition_point (\<lambda>t. t < as_i64 time) ts"
  let ?d = "\<lambda>t. abs_diff t ?m"
  let ?xs = "List.map_filter id [map_option ?d (list_get ts (?p - 1)), map_option ?d (list_get ts ?p)]"
  have mem: "x \<in> set ?xs \<longleftrightarrow> (\<exists>i\<in>{?p - 1, ?p}. i < length ts \<and> x = ?d (ts ! i))" for x
    by (auto simp: set_map_filter list_get_def)
  have "iter_min ?xs = iter_min (map ?d ts)"
  proof (rule iter_min_dominated)
    show "set ?xs \<subseteq> set (map ?d ts)" using mem by auto
    show "\<forall>y\<in>set (map ?d ts). \<exists>x\<in>set ?xs. x \<le> y"
    proof
      fix y assume "y \<in> set (map ?d ts)"
      then obtain i where i: "i < length ts" "y = ?d (ts ! i)" by (auto simp: in_set_conv_nth)
      have iff: "j < ?p \<longleftrightarrow> ts ! j < ?m" if "j < length ts" for j
        using assms that by (intro partition_point_iff) auto
      show "\<exists>x\<in>set ?xs. x \<le> y"
      proof (cases "i < ?p")
        case True
        then have j: "?p - 1 < length ts" "i \<le> ?p - 1" "?p - 1 < ?p" using partition_point_le [of "\<lambda>t. t < ?m" ts] by linarith+
        then have "ts ! i \<le> ts ! (?p - 1)" "ts ! (?p - 1) < ?m"
          using assms iff by (auto intro: sorted_nth_mono)
        then have "?d (ts ! (?p - 1)) \<le> y" unfolding i(2) abs_diff_def by simp
        with mem j(1) show ?thesis by blast
      next
        case False
        then have j: "?p < length ts" using i(1) by simp
        then have "ts ! ?p \<le> ts ! i" "?m \<le> ts ! ?p"
          using assms False i(1) iff [of ?p] by (auto intro: sorted_nth_mono)
        then have "?d (ts ! ?p) \<le> y" unfolding i(2) abs_diff_def by simp
        with mem j show ?thesis by blast
      qed
    qed
  qed
  then show ?thesis by (simp add: min_distance_sorted_def Let_def)
qed

lemma map_filter_cong: "(\<And>x. x \<in> set xs \<Longrightarrow> f x = g x) \<Longrightarrow> List.map_filter f xs = List.map_filter g xs"
  by (induction xs) (simp_all add: List.map_filter_simps split: option.split)

lemma min_distance_wf:
  assumes "tc_wf tc"
  shows "(if tc_is_sorted tc then min_distance_sorted (tc_times tc) time else min_distance tc time) = min_distance tc time"
proof -
  have "map as_i64 (tc_times_iter tc) = tc_times tc" 
    using assms by (auto simp: tc_times_iter_def tc_wf_def times_valid_def as_i64_new_temporal_valid intro!: map_idI)
  then have "map (\<lambda>t. abs_diff (as_i64 t) (as_i64 time)) (tc_times_iter tc) = map (\<lambda>t. abs_diff t (as_i64 time)) (tc_times tc)"
    by (metis (no_types, lifting) comp_apply list.map_comp map_cong)
  moreover have "tc_is_sorted tc \<Longrightarrow> sorted (tc_times tc)" using assms by (simp add: tc_wf_def)
  ultimately show ?thesis by (simp add: min_distance_def min_distance_sorted_eq)
qed

text \<open>C16: the optimised order of eviction is the reference order. On a consistent store the search that
  looks at the two neighbours of the cut of a sorted timeline returns the same chunks in the same
  order as \<open>find_temporal_chunks_furthest_from_slow\<close>, which measures every time.\<close>

theorem furthest_from_equiv:
  assumes "store_inv sz s V"
  shows "find_temporal_chunks_furthest_from s timeline time = find_temporal_chunks_furthest_from_slow s timeline time"
proof -
  have po: "physical_ok s" using assms by (simp add: store_inv_def)
  then have wf: "chunk_wf ch" if "(cid, ch) \<in> set (physical_chunks_per_chunk_id s)" for cid ch
    using that by (auto simp: physical_ok_def bt_mem_iff)
  have "List.map_filter (\<lambda>(_, ch). Option.bind (map_of (ch_timelines ch) timeline) (\<lambda>tc. map_option (Pair ch)
          (if tc_is_sorted tc then min_distance_sorted (tc_times tc) time else min_distance tc time)))
        (physical_chunks_per_chunk_id s)
      = List.map_filter (\<lambda>(_, ch). Option.bind (map_of (ch_timelines ch) timeline) (\<lambda>tc. map_option (Pair ch)
          (min_distance tc time))) (physical_chunks_per_chunk_id s)"
  proof (rule map_filter_cong)
    fix p assume p: "p \<in> set (physical_chunks_per_chunk_id s)"
    obtain cid ch where pc: "p = (cid, ch)" by (cases p)
    have "tc_wf tc" if "map_of (ch_timelines ch) timeline = Some tc" for tc
      using timelines_okD(1) [OF chunk_wfD(2) [OF wf] that] p pc by blast
    then show "(case p of (_, ch) \<Rightarrow> Option.bind (map_of (ch_timelines ch) timeline) (\<lambda>tc. map_option (Pair ch)
          (if tc_is_sorted tc then min_distance_sorted (tc_times tc) time else min_distance tc time)))
      = (case p of (_, ch) \<Rightarrow> Option.bind (map_of (ch_timelines ch) timeline) (\<lambda>tc. map_option (Pair ch) (min_distance tc time)))"
      unfolding pc by (cases "map_of (ch_timelines ch) timeline") (simp_all add: min_distance_wf del: map_option_is_None)
  qed
  then show ?thesis
    by (simp only: find_temporal_chunks_furthest_from_def find_temporal_chunks_furthest_from_slow_def furthest_by_def)
qed

section \<open>A concrete store\<close>

lemma demo_row_id_range: "row_id_range demo_chunk = Some (demo_id 1, demo_id 3)"
  by (simp add: row_id_range_def chunk_is_empty_def)

lemma demo_store_inv: "store_inv demo_size demo_store {demo_chunk}"
proof -
  have st: "\<not> chunk_is_static demo_chunk" by (simp add: chunk_is_static_def)
  have "lineage_inv (chunks_lineage demo_store) {ch_id demo_chunk}"
    by (simp add: lineage_inv_def counted_def closed_refs_def phys_refs_def referenced_by_def direct_lineage_def)
  moreover have "physical_ok demo_store" by (simp add: physical_ok_def)
  moreover have "min_row_ids_exact demo_store"
    by (simp add: min_row_ids_exact_def demo_row_id_range bs_wf_def)
  moreover have "stats_exact demo_size demo_store"
    using st by (simp add: stats_exact_def chunk_stats_def stats_sum_def stats_add_def no_stats_def)
  ultimately show ?thesis using demo_store_files st by (simp add: store_inv_def)
qed

theorem furthest_from_equiv_witness:
  "find_temporal_chunks_furthest_from demo_store ''frame'' (new_temporal 4)
    = find_temporal_chunks_furthest_from_slow demo_store ''frame'' (new_temporal 4)"
  by (rule furthest_from_equiv [OF demo_store_inv])

section \<open>Collection\<close>

text \<open>C4: garbage collection keeps the store consistent. Whatever the target, the budgets and the
  protections, afterwards the indices still hold exactly the chunks that are left, the row-id index, the
  reference counts of the lineage and the statistics match the chunks in memory, nothing new is in
  memory, and the deletions reported are exactly the chunks that left memory.\<close>

theorem gc_keeps_store:
  assumes "store_inv sz s V" "gc sz mark_exhausted sweep_exhausted options s = ((dels, st), s')"
  shows "(\<exists>V'. V' \<subseteq> V \<and> store_inv sz s' V') \<and> physical s' \<subseteq>\<^sub>m physical s
    \<and> del_chunk ` set dels = gone s s' \<and> (\<forall>d\<in>set dels. del_reason d = GarbageCollection)"
proof -
  obtain V' R where sw: "sweep_result sz sweep_exhausted s V (gc_candidates sz mark_exhausted options s) s' V' R"
    and dels: "del_chunk ` set dels = gone s s'" "\<forall>d\<in>set dels. del_reason d = GarbageCollection"
    using gc_sweeps [OF assms] by blast
  note d = sweep_resultD [OF sw]
  have "physical s' \<subseteq>\<^sub>m physical s" by (simp add: map_le_def dom_def swept_physical [OF d(4)])
  with d(1,2) dels show ?thesis by blast
qed

theorem gc_keeps_store_witness:
  "\<exists>dels st s'. gc demo_size (\<lambda>_. False) (\<lambda>_. False) gc_everything demo_store = ((dels, st), s')
    \<and> (\<exists>V' \<subseteq> {demo_chunk}. store_inv demo_size s' V') \<and> del_chunk ` set dels = gone demo_store s'"
proof -
  obtain dels st s' where r: "gc demo_size (\<lambda>_. False) (\<lambda>_. False) gc_everything demo_store = ((dels, st), s')"
    by (metis prod.exhaust)
  from gc_keeps_store [OF demo_store_inv r] r show ?thesis by blast
qed

text \<open>C14: garbage collection spares what it must. A chunk in memory that is static, that the options
  protect by id or by a time range, or that is among the latest of its component while no time to
  evict from is given, is in memory afterwards, and temporal ones stay filed. The time ranges protect also
  when a time to evict from is given, although the options are documented to ignore them then.\<close>

theorem gc_spares:
  assumes inv: "store_inv sz s V" and run: "gc sz mark_exhausted sweep_exhausted options s = ((dels, st), s')"
    and ch: "physical s cid = Some ch"
    and why: "chunk_is_static ch \<or> is_chunk_protected options ch
      \<or> (furthest_from options = None \<and> cid \<in> find_all_protected_physical_chunk_ids s (protect_latest options))"
  shows "physical s' cid = Some ch \<and> (\<exists>V'. store_inv sz s' V' \<and> (\<not> chunk_is_static ch \<longrightarrow> ch \<in> V'))"
proof -
  let ?chs = "gc_candidates sz mark_exhausted options s"
  obtain V' R where "sweep_result sz sweep_exhausted s V ?chs s' V' R" using gc_sweeps [OF inv run] by blast
  note d = sweep_resultD [OF this]
  have cid: "ch_id ch = cid" using inv ch by (simp add: store_inv_def physical_ok_def)
  have "x \<noteq> ch" if x: "x \<in> set ?chs" for x
    using gc_candidate(3-5) [OF inv x [unfolded gc_candidates_def]] why cid by metis
  moreover have "x = ch" if x: "x \<in> set ?chs" "ch_id x = cid" for x
    using gc_candidate(2) [OF inv x(1) [unfolded gc_candidates_def]] ch x(2) by simp
  ultimately have "cid \<notin> ch_id ` set ?chs" by blast
  then have "physical s' cid = Some ch" using d(5) ch by (auto simp: swept_physical [OF d(4)])
  moreover from this have "\<not> chunk_is_static ch \<longrightarrow> ch \<in> V'" using d(1) by (simp add: store_inv_def)
  ultimately show ?thesis using d(1) by blast
qed

theorem gc_spares_witness:
  "physical (snd (gc demo_size (\<lambda>_. False) (\<lambda>_. False) (gc_everything\<lparr>protected_chunks := {ch_id demo_chunk}\<rparr>) demo_store))
    (ch_id demo_chunk) = Some demo_chunk"
proof -
  let ?o = "gc_everything\<lparr>protected_chunks := {ch_id demo_chunk}\<rparr>"
  obtain dels st s' where r: "gc demo_size (\<lambda>_. False) (\<lambda>_. False) ?o demo_store = ((dels, st), s')"
    by (metis prod.exhaust)
  have p: "is_chunk_protected ?o demo_chunk" by (simp add: is_chunk_protected_def)
  have "physical demo_store (ch_id demo_chunk) = Some demo_chunk" by simp
  from gc_spares [OF demo_store_inv r this disjI2 [OF disjI1 [OF p]]] r show ?thesis by simp
qed

lemma distinct_map_filter_key:
  assumes "distinct xs" "\<And>x y. f x = Some y \<Longrightarrow> key y = x"
  shows "distinct (map key (List.map_filter f xs))"
  using assms(1)
proof (induction xs)
  case (Cons x xs)
  have "key ` set (List.map_filter f xs) \<subseteq> set xs" using assms(2) by (auto simp: set_map_filter)
  then have "x \<notin> key ` set (List.map_filter f xs)" using Cons.prems by fastforce
  moreover have "distinct (map key (List.map_filter f xs))" using Cons by simp
  ultimately show ?case using assms(2) [of x] by (simp add: List.map_filter_simps split: option.split)
qed (simp add: List.map_filter_simps)

lemma min_row_ids_distinct:
  assumes "min_row_ids_exact s"
  shows "distinct (map snd (physical_chunk_ids_per_min_row_id s))"
proof -
  let ?m = "physical_chunk_ids_per_min_row_id s"
  have eq: "set ?m = {(fst (the (row_id_range ch)), cid) | cid ch. physical s cid = Some ch}" and d: "distinct ?m"
    using assms by (simp_all only: min_row_ids_exact_def bs_wf_def strict_sorted_iff)
  have "inj_on snd (set ?m)"
  proof (rule inj_onI)
    fix p q assume "p \<in> set ?m" "q \<in> set ?m" "snd p = snd q"
    moreover have "fst p = fst (the (row_id_range (the (physical s (snd p)))))" if pm: "p \<in> set ?m" for p
    proof -
      obtain cid ch where "p = (fst (the (row_id_range ch)), cid)" "physical s cid = Some ch"
        using pm [unfolded eq] by blast
      then show ?thesis by simp
    qed
    ultimately show "p = q" by (simp add: prod_eq_iff)
  qed
  with d show ?thesis by (simp add: distinct_map)
qed

lemma priority_distinct:
  assumes "store_inv sz s V"
  shows "distinct (chunks_in_priority_order s options)"
proof -
  have ids: "physical s cid = Some ch \<Longrightarrow> ch_id ch = cid" for cid ch using assms by (simp add: store_inv_def physical_ok_def)
  have "distinct (map snd (physical_chunk_ids_per_min_row_id s))"
    using assms by (intro min_row_ids_distinct) (simp add: store_inv_def)
  then have "distinct (map ch_id (List.map_filter (physical s) (filter (\<lambda>cid.
      cid \<notin> find_all_protected_physical_chunk_ids s (protect_latest options)) (map snd (physical_chunk_ids_per_min_row_id s)))))"
    by (intro distinct_map_filter_key distinct_filter ids)
  then show ?thesis unfolding chunks_in_priority_order_def by (intro distinct_filter) (rule distinct_map [THEN iffD1, THEN conjunct1])
qed

lemma priority_complete:
  assumes inv: "store_inv sz s V" and ch: "physical s cid = Some ch"
    and free: "\<not> chunk_is_static ch" "\<not> is_chunk_protected options ch"
      "cid \<notin> find_all_protected_physical_chunk_ids s (protect_latest options)"
  shows "ch \<in> set (chunks_in_priority_order s options)"
proof -
  have "min_row_ids_exact s" using inv by (simp add: store_inv_def)
  then have "(fst (the (row_id_range ch)), cid) \<in> set (physical_chunk_ids_per_min_row_id s)"
    using ch unfolding min_row_ids_exact_def by blast
  then have "cid \<in> set (map snd (physical_chunk_ids_per_min_row_id s))" by (metis image_eqI list.set_map snd_conv)
  with ch free show ?thesis unfolding chunks_in_priority_order_def set_filter set_map_filter by blast
qed

text \<open>C15: garbage collection frees the bytes it was asked for. With time to finish, and evicting by row id,
  either the chunks that left memory weigh at least the target, or everything that may be evicted is
  gone: what is left in memory is static or protected.\<close>

theorem gc_reaches_target:
  assumes inv: "store_inv sz s V" and far: "furthest_from options = None"
    and run: "gc sz (\<lambda>_. False) (\<lambda>_. False) options s = ((dels, st), s')"
  shows "target_bytes_from_size (gc_target options) (unat (st_total_size_bytes (stats_total s))) \<le> (\<Sum>ch\<in>gone s s'. sz ch)
    \<or> (\<forall>cid ch. physical s' cid = Some ch \<longrightarrow> chunk_is_static ch \<or> is_chunk_protected options ch
        \<or> cid \<in> find_all_protected_physical_chunk_ids s (protect_latest options))"
proof -
  let ?target = "target_bytes_from_size (gc_target options) (unat (st_total_size_bytes (stats_total s)))"
  let ?chs = "gc_candidates sz (\<lambda>_. False) options s" and ?all = "chunks_in_priority_order s options"
  obtain V' R where "sweep_result sz (\<lambda>_. False) s V ?chs s' V' R" using gc_sweeps [OF inv run] by blast
  note d = sweep_resultD [OF this]
  have R: "R = ch_id ` set ?chs" using d(6) by simp
  have phys: "physical s (ch_id ch) = Some ch" if "ch \<in> set ?chs" for ch
    using gc_candidate(2) [OF inv] that unfolding gc_candidates_def by blast
  have gone: "gone s s' = set ?chs" using gone_deep [OF d(4) [unfolded R]] phys by blast
  obtain reached dropped marked where m: "mark_loop sz (\<lambda>_. False) ?target 0 0 ?all = (reached, dropped, marked)"
    by (cases "mark_loop sz (\<lambda>_. False) ?target 0 0 ?all")
  show ?thesis
  proof (cases "?target = 0")
    case False
    then have chs: "?chs = marked" using far m by (simp add: gc_candidates_def gc_find_candidates_def)
    from mark_loop_marks [OF m] obtain rest where rest: "?all = marked @ rest" "dropped = sum_list (map sz marked)"
      "\<not> reached \<longrightarrow> rest = []" "reached \<longrightarrow> ?target \<le> dropped" by auto
    show ?thesis
    proof (cases reached)
      case True
      have "distinct marked" using priority_distinct [OF inv, of options] rest(1) by simp
      then have "dropped = (\<Sum>ch\<in>gone s s'. sz ch)" using rest(2) gone chs by (simp add: sum_list_distinct_conv_sum_set)
      with True rest(4) show ?thesis by simp
    next
      case unreached: False
      have left: "chunk_is_static ch \<or> is_chunk_protected options ch
          \<or> cid \<in> find_all_protected_physical_chunk_ids s (protect_latest options)" if p: "physical s' cid = Some ch" for cid ch
      proof -
        have p0: "physical s cid = Some ch" "cid \<notin> R" using p by (auto simp: swept_physical [OF d(4)] split: if_splits)
        then have "ch_id ch = cid" using inv by (simp add: store_inv_def physical_ok_def)
        then have "ch \<notin> set ?all" using p0(2) rest(1,3) unreached chs R by auto
        with priority_complete [OF inv p0(1), of options] show ?thesis by blast
      qed
      then show ?thesis by blast
    qed
  qed simp
qed

theorem gc_reaches_target_witness:
  "physical (snd (gc demo_size (\<lambda>_. False) (\<lambda>_. False) gc_everything demo_store)) (ch_id demo_chunk) = None"
proof -
  obtain dels st s' where r: "gc demo_size (\<lambda>_. False) (\<lambda>_. False) gc_everything demo_store = ((dels, st), s')"
    by (metis prod.exhaust)
  have "gone demo_store s' \<subseteq> {demo_chunk}" by (simp add: gone_def subset_iff)
  then have "(\<Sum>ch\<in>gone demo_store s'. demo_size ch) \<le> (\<Sum>ch\<in>{demo_chunk}. demo_size ch)" by (intro sum_mono2) simp_all
  then have le: "(\<Sum>ch\<in>gone demo_store s'. demo_size ch) \<le> 64" by (simp add: demo_size_def)
  have far: "furthest_from gc_everything = None" by (simp add: gc_everything_def)
  from gc_reaches_target [OF demo_store_inv far r] le
  have left: "\<not> chunk_is_static ch \<Longrightarrow> physical s' cid = Some ch \<Longrightarrow> False" for cid ch
    by (simp add: gc_everything_def is_chunk_protected_def find_all_protected_physical_chunk_ids_def)
  obtain V' R where sw: "sweep_result demo_size (\<lambda>_. False) demo_store {demo_chunk}
      (gc_candidates demo_size (\<lambda>_. False) gc_everything demo_store) s' V' R"
    using gc_sweeps [OF demo_store_inv r] by blast
  have "physical s' (ch_id demo_chunk) \<in> {None, Some demo_chunk}" by (simp add: swept_physical [OF sweep_resultD(4) [OF sw]])
  moreover have "\<not> chunk_is_static demo_chunk" by (simp add: chunk_is_static_def)
  ultimately have "physical s' (ch_id demo_chunk) = None" using left by blast
  then show ?thesis by (simp add: r)
qed

end
