(* ===== verification/Store_Split.thy ===== *)
theory Store_Split
  imports Store_Insert Store_Collect
begin

text \<open>
  Splitting on ingest (\<open>re_chunk_store\<close>: \<open>writes.rs\<close>): the pieces of a chunk, the loop that splits until
  nothing is left to split, and the insertion of the pieces.
\<close>

section \<open>The pieces of a chunk\<close>

lemma row_sliced_id:
  "row_sliced_impl K new_id ch index len deep = Some p \<Longrightarrow> ch_id p = new_id"
  by (auto simp: row_sliced_impl_def emptied_def Let_def split: if_splits option.splits)

lemma slice_storable:
  assumes K: "arrow_laws K" and ch: "storable ch" and b: "start + len \<le> num_rows ch" "len \<noteq> 0"
  obtains p where "row_sliced_deep K new_id ch start len = Some p" "storable p" "ch_id p = new_id"
    "chunk_rows p = take len (drop start (chunk_rows ch))"
proof -
  have chs: "chunk_wf ch" "ch_is_sorted ch" "\<not> chunk_is_static ch" "ch_components ch \<noteq> []" using ch by (simp_all add: storable_def)
  obtain p where p: "row_sliced_impl K new_id ch start len True = Some p" "rows_gathered ch [start..<start + len] p" "chunk_wf p"
    using row_slice_columns [OF K chs(1) b, of new_id True] by blast
  have rows: "chunk_rows p = take len (drop start (chunk_rows ch))"
    using row_sliced_gathers [OF K chs(1), of new_id start len True] p(1) by fastforce
  have n: "num_rows p = len" using length_chunk_rows [of p] b unfolding rows by simp
  have ids: "ch_row_ids p = take len (drop start (ch_row_ids ch))"
    using p(2) b by (simp add: rows_gathered_def slice_gather num_rows_def)
  have "sorted (ch_row_ids p)"
    unfolding ids using chunk_wfD(1) [OF chs(1)] chs(2) by (simp add: sorted_wrt_take sorted_wrt_drop)
  then have "ch_is_sorted p" using chunk_wfD(1) [OF p(3)] by simp
  moreover have "ch_components p \<noteq> []"
  proof
    assume "ch_components p = []"
    then have "map_of (ch_components ch) c = None" for c using p(2) by (simp add: rows_gathered_def)
    with chs(4) show False by (metis map_of_eq_None_iff list.set_intros(1) image_eqI neq_Nil_conv)
  qed
  moreover have "\<not> chunk_is_static p"
  proof
    assume "chunk_is_static p"
    then have "map_of (ch_timelines ch) k = None" for k using p(2) by (simp add: rows_gathered_def chunk_is_static_def)
    with chs(3) show False unfolding chunk_is_static_def by (metis map_of_eq_None_iff list.set_intros(1) image_eqI neq_Nil_conv)
  qed
  ultimately have "storable p" using p(3) n b(2) by (simp add: storable_def)
  then show ?thesis using that p(1) rows row_sliced_id [OF p(1)] by (simp add: row_sliced_deep_def)
qed

lemma split_loop_storable:
  assumes K: "arrow_laws K" and ch: "storable ch" and t: "target_rows \<noteq> 0"
  shows "start \<le> num_rows ch \<Longrightarrow> \<exists>ps ixs. split_loop K new_ids ch target_rows start = Some ps
    \<and> concat (map chunk_rows ps) = drop start (chunk_rows ch) \<and> (\<forall>p\<in>set ps. storable p)
    \<and> map ch_id ps = map new_ids ixs \<and> distinct ixs \<and> set ixs \<subseteq> {start..<num_rows ch}"
proof (induction "num_rows ch - start" arbitrary: start rule: less_induct)
  case less
  show ?case
  proof (cases "start < num_rows ch")
    case False
    then show ?thesis using less.prems by (intro exI [of _ "[]"]) (simp add: split_loop.simps)
  next
    case True
    let ?size = "min (num_rows ch - start) target_rows"
    have sz: "start + ?size \<le> num_rows ch" "?size \<noteq> 0" "num_rows ch - (start + ?size) < num_rows ch - start" using True t by auto
    obtain p where p: "row_sliced_deep K (new_ids start) ch start ?size = Some p" "storable p" "ch_id p = new_ids start"
      "chunk_rows p = take ?size (drop start (chunk_rows ch))" using slice_storable [OF K ch sz(1,2)] by blast
    obtain ps ixs where ps: "split_loop K new_ids ch target_rows (start + ?size) = Some ps"
      "concat (map chunk_rows ps) = drop (start + ?size) (chunk_rows ch)" "\<forall>p\<in>set ps. storable p"
      "map ch_id ps = map new_ids ixs" "distinct ixs" "set ixs \<subseteq> {start + ?size..<num_rows ch}"
      using less.hyps [OF sz(3,1)] by blast
    have "split_loop K new_ids ch target_rows start = Some (p # ps)"
      using True t p(1) ps(1) by (simp add: split_loop.simps [of K new_ids ch target_rows start] Let_def)
    moreover have "concat (map chunk_rows (p # ps)) = drop start (chunk_rows ch)"
      by (simp add: p(4) ps(2)) (metis add.commute append_take_drop_id drop_drop)
    moreover have "distinct (start # ixs)" "set (start # ixs) \<subseteq> {start..<num_rows ch}" using ps(5,6) sz True by auto
    ultimately show ?thesis using p(2,3) ps(3,4)
      by (intro exI [of _ "p # ps"] exI [of _ "start # ixs"]) simp
  qed
qed

section \<open>Splitting until nothing is left to split\<close>

text \<open>\<open>pieces_of\<close>: the chunks \<open>ps\<close> carry the rows \<open>rows\<close>; their ids are distinct, and are from \<open>old\<close> or
  were drawn between \<open>n\<close> and \<open>n'\<close>.\<close>

definition pieces_of :: "'c write_env \<Rightarrow> ChunkId set \<Rightarrow> nat \<Rightarrow> nat \<Rightarrow> 'c row list \<Rightarrow> 'c Chunk list \<Rightarrow> bool" where
  "pieces_of env old n n' rows ps \<longleftrightarrow> concat (map chunk_rows ps) = rows \<and> (\<forall>p\<in>set ps. storable p)
     \<and> distinct (map ch_id ps) \<and> ch_id ` set ps \<subseteq> old \<union> we_fresh env ` {n..<n'} \<and> n \<le> n'"

lemma split_chunk_pieces:
  assumes K: "arrow_laws (we_kernels env)" and inj: "inj_on (we_fresh env) {n..<n + num_rows ch}" and ch: "storable ch"
  obtains ps where "split_chunk env config n ch = Some (ps, n + num_rows ch)"
    "pieces_of env {ch_id ch} n (n + num_rows ch) (chunk_rows ch) ps" "ps \<noteq> []"
    "(\<forall>m. split_chunk env config m ch = Some ([ch], m + num_rows ch)) \<or> pieces_of env {} n (n + num_rows ch) (chunk_rows ch) ps
      \<and> split_target_rows (we_size env ch) (num_rows ch) (all_timelines_sorted ch) (ChunkSplitConfig.truncate config) \<noteq> None"
proof -
  let ?cfg = "ChunkSplitConfig.truncate config" and ?ids = "\<lambda>i. we_fresh env (n + i)"
  have n: "num_rows ch \<noteq> 0" using ch by (simp add: storable_def)
  have sp: "split_chunk env config n ch = Some (ps, n + num_rows ch)"
    if "split_chunk_if_needed (we_kernels env) ?ids (we_size env ch) ch ?cfg = Some ps" for ps
    using that by (simp add: split_chunk_def)
  show ?thesis
  proof (cases "num_rows ch \<le> 1 \<or> split_target_rows (we_size env ch) (num_rows ch) (all_timelines_sorted ch) ?cfg = None")
    case True
    then have "split_chunk_if_needed (we_kernels env) ?ids (we_size env ch) ch ?cfg = Some [ch]"
      by (auto simp: split_chunk_if_needed_def)
    moreover have "split_chunk env config m ch = Some ([ch], m + num_rows ch)" for m
      using True by (auto simp: split_chunk_def split_chunk_if_needed_def)
    ultimately show ?thesis using that [OF sp] ch by (simp add: pieces_of_def)
  next
    case False
    then obtain t where t: "split_target_rows (we_size env ch) (num_rows ch) (all_timelines_sorted ch) ?cfg = Some t" by auto
    then have "t \<noteq> 0" by (auto simp: split_target_rows_def Let_def split: if_splits)
    from split_loop_storable [OF K ch this, of 0 ?ids] obtain ps ixs where
      ps: "split_loop (we_kernels env) ?ids ch t 0 = Some ps" "concat (map chunk_rows ps) = chunk_rows ch" "\<forall>p\<in>set ps. storable p"
      "map ch_id ps = map ?ids ixs" "distinct ixs" "set ixs \<subseteq> {0..<num_rows ch}" by auto
    have "inj_on ?ids (set ixs)" by (rule inj_onI, drule inj_onD [OF inj]) (use ps(6) in auto)
    then have d: "distinct (map ch_id ps)" unfolding ps(4) using ps(5) by (simp add: distinct_map)
    have "ch_id ` set ps = ?ids ` set ixs" using arg_cong [OF ps(4), of set] by simp
    also have "\<dots> \<subseteq> we_fresh env ` {n..<n + num_rows ch}" using ps(6) by auto
    finally have "pieces_of env {ch_id ch} n (n + num_rows ch) (chunk_rows ch) ps" "pieces_of env {} n (n + num_rows ch) (chunk_rows ch) ps"
      using ps(2,3) d by (auto simp: pieces_of_def)
    moreover have "ps \<noteq> []" using ps(2) n length_chunk_rows [of ch] by (metis concat.simps(1) list.map_disc_iff list.size(3))
    moreover have "split_chunk_if_needed (we_kernels env) ?ids (we_size env ch) ch ?cfg = Some ps"
      using False t ps(1) by (simp add: split_chunk_if_needed_def)
    ultimately show ?thesis using that sp t by blast
  qed
qed

text \<open>The ids that are drawn from \<open>n\<close> on, up to \<open>N\<close>, are not in use.\<close>

definition undrawn :: "'c write_env \<Rightarrow> nat \<Rightarrow> nat \<Rightarrow> 'c Chunk list \<Rightarrow> bool" where
  "undrawn env n N chs \<longleftrightarrow> inj_on (we_fresh env) {n..<N} \<and> ch_id ` set chs \<inter> we_fresh env ` {n..<N} = {}"

lemma fresh_disjoint: "inj_on f {n..<N} \<Longrightarrow> n \<le> k \<Longrightarrow> k \<le> (N :: nat) \<Longrightarrow> f ` {n..<k} \<inter> f ` {k..<N} = {}"
  by (rule inj_on_image_Int [symmetric, THEN trans]) auto

lemma drawn_mono:
  fixes n :: nat
  assumes "n \<le> n1" "n1 \<le> n2"
  shows "f ` {n..<n1} \<subseteq> f ` {n..<n2}" "f ` {n1..<n2} \<subseteq> f ` {n..<n2}"
  by (rule image_mono; use assms in auto)+

lemma undrawn_later: "inj_on f {n :: nat..<N} \<Longrightarrow> n \<le> n' \<Longrightarrow> inj_on f {n'..<N}"
  by (erule inj_on_subset) simp

lemma disjoint_within:
  "A \<subseteq> B \<union> F \<Longrightarrow> B \<inter> G = {} \<Longrightarrow> F \<inter> G' = {} \<Longrightarrow> G' \<subseteq> G \<Longrightarrow> A \<inter> G' = {}"
  by blast

lemma undrawn_pieces:
  assumes "undrawn env n N chs" "pieces_of env (ch_id ` set chs) n n' rows ps" "n' \<le> N"
  shows "undrawn env n' N ps"
proof -
  have i: "inj_on (we_fresh env) {n..<N}" and n: "n \<le> n'" using assms by (simp_all add: undrawn_def pieces_of_def)
  have "ch_id ` set ps \<subseteq> ch_id ` set chs \<union> we_fresh env ` {n..<n'}" "ch_id ` set chs \<inter> we_fresh env ` {n..<N} = {}"
    using assms by (simp_all add: undrawn_def pieces_of_def)
  from disjoint_within [OF this fresh_disjoint [OF i n assms(3)] drawn_mono(2) [OF n assms(3)]]
  have "ch_id ` set ps \<inter> we_fresh env ` {n'..<N} = {}" .
  with undrawn_later [OF i n] show ?thesis by (simp add: undrawn_def)
qed

lemma pieces_of_trans:
  assumes "pieces_of env old n n1 rows ps" "pieces_of env (ch_id ` set ps) n1 n2 rows qs"
  shows "pieces_of env old n n2 rows qs"
proof -
  have n: "n \<le> n1" "n1 \<le> n2" using assms by (simp_all add: pieces_of_def)
  have "ch_id ` set ps \<subseteq> old \<union> we_fresh env ` {n..<n1}" "ch_id ` set qs \<subseteq> ch_id ` set ps \<union> we_fresh env ` {n1..<n2}"
    using assms by (simp_all add: pieces_of_def)
  then have "ch_id ` set qs \<subseteq> old \<union> we_fresh env ` {n..<n2}" using drawn_mono(1,2) [OF n, of "we_fresh env"] by (meson Un_least Un_upper1 Un_upper2 order_trans)
  with assms(2) n show ?thesis by (simp add: pieces_of_def)
qed

lemma split_round_pieces:
  assumes K: "arrow_laws (we_kernels env)"
  defines "rows_in \<equiv> \<lambda>chs :: 'a Chunk list. length (concat (map chunk_rows chs))"
  shows "undrawn env n N chs \<Longrightarrow> n + rows_in chs \<le> N \<Longrightarrow> \<forall>c\<in>set chs. storable c \<Longrightarrow> distinct (map ch_id chs) \<Longrightarrow>
    \<forall>c\<in>ch_id ` set chs. descends_from_a_compaction ls c = Some False \<Longrightarrow>
    \<exists>ps. split_round env config ls n chs = Some (ps, n + rows_in chs)
      \<and> pieces_of env (ch_id ` set chs) n (n + rows_in chs) (concat (map chunk_rows chs)) ps \<and> length chs \<le> length ps"
proof (induction chs arbitrary: n)
  case Nil
  then show ?case by (simp add: pieces_of_def rows_in_def)
next
  case (Cons ch chs)
  let ?n1 = "n + num_rows ch" and ?n2 = "n + rows_in (ch # chs)"
  have n2: "?n1 + rows_in chs = ?n2" by (simp add: rows_in_def)
  have n1: "n \<le> ?n1" "?n1 \<le> N" "?n2 \<le> N" "?n1 \<le> ?n2" using Cons.prems(2) by (simp_all add: rows_in_def)
  have inj: "inj_on (we_fresh env) {n..<N}" using Cons.prems(1) by (simp add: undrawn_def)
  have "inj_on (we_fresh env) {n..<?n1}" by (rule inj_on_subset [OF inj]) (use n1 in auto)
  then obtain qs where q: "split_chunk env config n ch = Some (qs, ?n1)" "pieces_of env {ch_id ch} n ?n1 (chunk_rows ch) qs" "qs \<noteq> []"
    using split_chunk_pieces [OF K, of n ch config] Cons.prems(3) by (metis list.set_intros(1))
  note sub = drawn_mono [OF n1(1,2), of "we_fresh env"]
  have here: "ch_id ch \<notin> ch_id ` set chs" "ch_id ch \<notin> we_fresh env ` {n..<N}" "ch_id ` set chs \<inter> we_fresh env ` {n..<N} = {}"
    using Cons.prems(1,4) by (simp_all add: undrawn_def)
  have "undrawn env ?n1 N chs" unfolding undrawn_def
    using undrawn_later [OF inj n1(1)] disjoint_within [OF _ here(3) _ sub(2), of _ "{}"] by simp
  note ih = Cons.IH [OF this, unfolded n2, OF n1(3)]
  have "\<forall>c\<in>set chs. storable c" "distinct (map ch_id chs)" "\<forall>c\<in>ch_id ` set chs. descends_from_a_compaction ls c = Some False"
    using Cons.prems(3-5) by simp_all
  from ih [OF this] obtain ps where p: "split_round env config ls ?n1 chs = Some (ps, ?n2)"
    "pieces_of env (ch_id ` set chs) ?n1 ?n2 (concat (map chunk_rows chs)) ps" "length chs \<le> length ps" by blast
  have split: "split_round env config ls n (ch # chs) = Some (qs @ ps, ?n2)"
    using Cons.prems(5) q(1) p(1) by simp
  have ids: "ch_id ` set qs \<subseteq> {ch_id ch} \<union> we_fresh env ` {n..<?n1}" "ch_id ` set ps \<subseteq> ch_id ` set chs \<union> we_fresh env ` {?n1..<?n2}"
    using q(2) p(2) by (simp_all add: pieces_of_def)
  have "ch_id ` set ps \<inter> ({ch_id ch} \<union> we_fresh env ` {n..<?n1}) = {}"
  proof (rule disjoint_within [OF ids(2), of "{ch_id ch} \<union> we_fresh env ` {n..<N}"])
    show "ch_id ` set chs \<inter> ({ch_id ch} \<union> we_fresh env ` {n..<N}) = {}" using here(1,3) by (simp add: Int_Un_distrib)
    show "{ch_id ch} \<union> we_fresh env ` {n..<?n1} \<subseteq> {ch_id ch} \<union> we_fresh env ` {n..<N}"
      using sub(1) by (rule Un_mono [OF order_refl])
    have f: "we_fresh env ` {?n1..<?n2} \<subseteq> we_fresh env ` {?n1..<N}" by (rule image_mono) (use n1 in auto)
    have "ch_id ch \<notin> we_fresh env ` {?n1..<?n2}" using here(2) sub(2) f by (meson subsetD)
    moreover have "we_fresh env ` {?n1..<?n2} \<inter> we_fresh env ` {n..<?n1} = {}"
      using fresh_disjoint [OF inj n1(1,2)] f by blast
    ultimately show "we_fresh env ` {?n1..<?n2} \<inter> ({ch_id ch} \<union> we_fresh env ` {n..<?n1}) = {}" by (simp add: Int_Un_distrib)
  qed
  with ids(1) have "ch_id ` set qs \<inter> ch_id ` set ps = {}" by (meson disjoint_iff subsetD)
  then have "distinct (map ch_id (qs @ ps))" using q(2) p(2) by (simp add: pieces_of_def)
  moreover have "ch_id ` set (qs @ ps) \<subseteq> ch_id ` set (ch # chs) \<union> we_fresh env ` {n..<?n2}"
  proof -
    note m = drawn_mono [OF n1(1,4), of "we_fresh env"]
    have "ch_id ` set qs \<subseteq> insert (ch_id ch) (ch_id ` set chs) \<union> we_fresh env ` {n..<?n2}" using ids(1) m(1) by blast
    moreover have "ch_id ` set ps \<subseteq> insert (ch_id ch) (ch_id ` set chs) \<union> we_fresh env ` {n..<?n2}" using ids(2) m(2) by blast
    ultimately show ?thesis by (simp add: image_Un)
  qed
  ultimately have "pieces_of env (ch_id ` set (ch # chs)) n ?n2 (concat (map chunk_rows (ch # chs))) (qs @ ps)"
    using q(2) p(2) n1 by (simp add: pieces_of_def ball_Un)
  moreover have "length (ch # chs) \<le> length (qs @ ps)" using q(3) p(3) by (cases qs) simp_all
  ultimately show ?case using split by blast
qed

text \<open>Every round that goes on adds a piece, and there are never more pieces than rows: the loop ends.\<close>

lemma pieces_bounded: "\<forall>p\<in>set ps. storable p \<Longrightarrow> length ps \<le> length (concat (map chunk_rows ps))"
proof (induction ps)
  case (Cons p ps)
  then have "num_rows p \<noteq> 0" "length ps \<le> length (concat (map chunk_rows ps))" by (simp_all add: storable_def)
  then show ?case by simp
qed simp

text \<open>The ids drawn: a round draws at most one for every row.\<close>

lemma split_rounds_pieces:
  assumes K: "arrow_laws (we_kernels env)"
  shows "undrawn env n N chs \<Longrightarrow> n + R * (R - length chs + 1) \<le> N \<Longrightarrow> R = length (concat (map chunk_rows chs)) \<Longrightarrow>
    \<forall>c\<in>set chs. storable c \<Longrightarrow> distinct (map ch_id chs) \<Longrightarrow>
    \<forall>c\<in>ch_id ` set chs \<union> we_fresh env ` {n..<N}. descends_from_a_compaction ls c = Some False \<Longrightarrow>
    \<exists>ps n'. split_rounds env config ls n chs = Some (ps, n') \<and> n' \<le> n + R * (R - length chs + 1)
      \<and> pieces_of env (ch_id ` set chs) n n' (concat (map chunk_rows chs)) ps"
proof (induction "R - length chs" arbitrary: n chs rule: less_induct)
  case less
  let ?n1 = "n + R"
  have "?n1 \<le> n + R * (R - length chs + 1)" by simp
  then have n1: "n \<le> ?n1" "?n1 \<le> N" using less.prems(2) by simp_all
  obtain qs where q: "split_round env config ls n chs = Some (qs, ?n1)"
    "pieces_of env (ch_id ` set chs) n ?n1 (concat (map chunk_rows chs)) qs" "length chs \<le> length qs"
    using split_round_pieces [OF K less.prems(1), folded less.prems(3), OF n1(2) less.prems(4,5)] less.prems(6) by blast
  have qp: "concat (map chunk_rows qs) = concat (map chunk_rows chs)" "\<forall>p\<in>set qs. storable p" "distinct (map ch_id qs)"
    "ch_id ` set qs \<subseteq> ch_id ` set chs \<union> we_fresh env ` {n..<?n1}" using q(2) by (simp_all add: pieces_of_def)
  show ?case
  proof (cases "length qs = length chs")
    case True
    then have "split_rounds env config ls n chs = Some (qs, ?n1)" using q(1) by (simp add: split_rounds.simps [of env config ls n chs])
    with q(2) \<open>?n1 \<le> n + R * (R - length chs + 1)\<close> show ?thesis by blast
  next
    case False
    have "length qs \<le> R" using pieces_bounded [OF qp(2)] unfolding qp(1) less.prems(3) .
    then have m: "R - length qs < R - length chs" and "R - length qs + 1 \<le> R - length chs" using False q(3) by linarith+
    then have "R * (R - length qs + 1) \<le> R * (R - length chs)" by (intro mult_le_mono2)
    then have bound: "?n1 + R * (R - length qs + 1) \<le> n + R * (R - length chs + 1)" by simp
    note sub = drawn_mono [OF n1, of "we_fresh env"]
    have "ch_id ` set qs \<union> we_fresh env ` {?n1..<N} \<subseteq> ch_id ` set chs \<union> we_fresh env ` {n..<N}"
      using qp(4) sub by (meson Un_least Un_mono Un_upper2 order_refl order_trans)
    with less.prems(6) have d: "\<forall>c\<in>ch_id ` set qs \<union> we_fresh env ` {?n1..<N}. descends_from_a_compaction ls c = Some False"
      by (meson subsetD)
    obtain ps n' where p: "split_rounds env config ls ?n1 qs = Some (ps, n')" "n' \<le> ?n1 + R * (R - length qs + 1)"
      "pieces_of env (ch_id ` set qs) ?n1 n' (concat (map chunk_rows chs)) ps"
      using less.hyps [OF m undrawn_pieces [OF less.prems(1) q(2) n1(2)] order_trans [OF bound less.prems(2)] _ qp(2,3) d]
      unfolding qp(1) less.prems(3) [symmetric] by blast
    have "split_rounds env config ls n chs = Some (ps, n')"
      using False q(1) p(1) by (simp add: split_rounds.simps [of env config ls n chs])
    with pieces_of_trans [OF q(2) p(3)] order_trans [OF p(2) bound] show ?thesis by blast
  qed
qed

section \<open>Insertion of a piece\<close>

lemma insert_lineage_sel [simp]:
  "physical_chunks_per_chunk_id (insert_lineage cid report s) = physical_chunks_per_chunk_id s"
  "leaky_compactions (insert_lineage cid report s) = leaky_compactions s"
  "dangling_splits (insert_lineage cid report s) = dangling_splits s"
  "store_config (insert_lineage cid report s) = store_config s"
  by (simp_all add: insert_lineage_def)

lemma unknown_step:
  assumes "unknown s V (ch_id p)"
  shows "insert_step env n p lineage s =
    (if chunk_is_empty p \<or> ch_components p = [] then Some (Inserted [], n, s)
     else if \<not> ch_is_sorted p then Some (Refused UnsortedChunk, n, s)
     else let s = insert_lineage (ch_id p) lineage s in
       case descends_from_a_compaction (chunks_lineage s) (ch_id p) of
         None \<Rightarrow> None
       | Some from_compaction \<Rightarrow>
           if \<not> chunk_is_static p \<and> \<not> descends_from_a_split (chunks_lineage s) (ch_id p) \<and> \<not> from_compaction
           then store_split env n p lineage [] s else store_unsplit env n p lineage [] s)"
proof -
  have u: "physical s (ch_id p) = None" "map_of (leaky_compactions s) (ch_id p) = None"
    "map_of (dangling_splits s) (ch_id p) = None" "direct_lineage (chunks_lineage s) (ch_id p) = None"
    using assms by (simp_all add: unknown_def direct_lineage_def)
  then have "leaky_descendant (leaky_compactions s) (\<lambda>c. physical s c \<noteq> None) (ch_id p) = Some None"
    "clear_virtual (we_size env) p s = ([], s)" "clear_dangling_splits (we_size env) (ch_id p) s = ([], s)"
    by (simp_all add: leaky_descendant.simps clear_virtual_def clear_dangling_splits_def)
  then show ?thesis using u(1) by (simp add: insert_step_def Let_def split: option.split)
qed

lemma insert_piece:
  assumes inv: "store_inv (we_size env) s V" and p: "storable p" and new: "unknown s V (ch_id p)"
    and parent: "direct_lineage (chunks_lineage s) (ch_id ch) = Some Volatile"
  obtains added s' where "insert_step env n p (ReportSplitFrom ch siblings) s = Some (Inserted added, n, s')"
    "store_inv (we_size env) s' (insert p V)" "store_rows s' = store_rows s + mset (chunk_rows p)"
    "direct_lineage (chunks_lineage s') (ch_id ch) = Some Volatile"
    "\<And>c. c \<noteq> ch_id p \<Longrightarrow> unknown s V c \<Longrightarrow> unknown s' (insert p V) c"
proof -
  let ?sz = "we_size env" and ?report = "ReportSplitFrom ch siblings"
  have ps: "chunk_wf p" "num_rows p \<noteq> 0" "\<not> chunk_is_static p" "ch_is_sorted p" "ch_components p \<noteq> []"
    using p by (simp_all add: storable_def)
  have pn: "direct_lineage (chunks_lineage s) (ch_id p) = None" "physical s (ch_id p) = None" "ch_id p \<notin> ch_id ` V"
    using new by (simp_all add: unknown_def direct_lineage_def)
  define s1 where "s1 = insert_lineage (ch_id p) ?report s"
  define s2 where "s2 = s1\<lparr>insert_id := insert_id s1 + 1\<rparr>"
  define s' where "s' = insert_physical p (file_chunk ?sz p s2)"
  have l1: "direct_lineage (chunks_lineage s1) c = (if c = ch_id p then Some (lineage_of_report ?report)
      else direct_lineage (chunks_lineage s) c)" for c
    using pn(1) by (auto simp: s1_def direct_lineage_insert)
  have l2: "chunks_lineage s2 = chunks_lineage s1" by (simp add: s2_def)
  have cp: "ch_id ch \<noteq> ch_id p" using parent pn(1) by auto
  have "descends_from_a_compaction (chunks_lineage s1) (ch_id p) = Some False"
    using l1 parent cp by (simp add: descends_from_a_compaction.simps [of _ "ch_id p"] descends_from_a_compaction.simps [of _ "ch_id ch"])
  moreover have sp: "descends_from_a_split (chunks_lineage s1) (ch_id p)" using l1 by (simp add: descends_from_a_split_def)
  moreover have "\<not> chunk_is_empty p" using ps(2) by (simp add: chunk_is_empty_def)
  ultimately have "insert_step env n p ?report s = store_unsplit env n p ?report [] s1"
    using ps unfolding unknown_step [OF new] by (simp add: s1_def [symmetric])
  also have "\<dots> = Some (Inserted [Addition p p ?report], n, s')"
    using ps(3) sp by (simp add: store_unsplit_def Let_def s2_def [symmetric] insert_temporal_def
        find_and_elect_compaction_candidate_def l2 s'_def)
  finally have step: "insert_step env n p ?report s = Some (Inserted [Addition p p ?report], n, s')" .
  have "map_of (chunks_lineage s) (ch_id ch) \<noteq> None" unfolding known_iff_direct parent by simp
  then have i1: "store_inv ?sz s1 V" unfolding s1_def by (intro insert_lineage_store_inv [OF inv]) simp
  then have i2: "store_inv ?sz s2 V" unfolding s2_def insert_id_store_inv .
  have ph2: "physical_chunks_per_chunk_id s2 = physical_chunks_per_chunk_id s" by (simp add: s2_def s1_def)
  have k2: "physical s2 (ch_id p) = None" "map_of (chunks_lineage s2) (ch_id p) \<noteq> None"
    unfolding known_iff_direct l2 l1 using pn(2) ph2 by simp_all
  note st = store_as_is [OF i2 ps(1-3) pn(3) k2, folded s'_def]
  have rows: "store_rows s' = store_rows s + mset (chunk_rows p)" unfolding st(3) by (simp add: store_rows_def ph2)
  have d': "direct_lineage (chunks_lineage s') c = direct_lineage (chunks_lineage s1) c" for c
    unfolding s'_def direct_lineage_physical by (simp add: file_chunk_def l2)
  have lk: "leaky_compactions s' = leaky_compactions s" "dangling_splits s' = dangling_splits s"
    unfolding s'_def insert_physical_fields by (simp_all add: file_chunk_def s2_def s1_def)
  have unk: "unknown s' (insert p V) c" if c: "c \<noteq> ch_id p" "unknown s V c" for c
    using c unfolding unknown_def known_iff_direct d' l1 lk st(2) by (simp add: ph2)
  show ?thesis
    by (rule that [OF step st(1) rows _ unk]) (simp add: d' l1 cp parent)
qed

text \<open>The pieces of a split are stored one after the other.\<close>

lemma insert_pieces:
  assumes "store_inv (we_size env) s V" "\<forall>(p, _, _)\<in>set entries. storable p \<and> unknown s V (ch_id p)"
    "distinct (map (ch_id \<circ> fst) entries)" "\<forall>(p, report, _)\<in>set entries. \<exists>siblings. report = ReportSplitFrom ch siblings"
    "direct_lineage (chunks_lineage s) (ch_id ch) = Some Volatile"
  shows "\<exists>diffs' s' V'. insert_loop env entries diffs n s = Some (Inr diffs', n, s') \<and> store_inv (we_size env) s' V'
    \<and> store_rows s' = store_rows s + mset (concat (map (chunk_rows \<circ> fst) entries))"
  using assms
proof (induction entries arbitrary: s V diffs)
  case Nil
  then show ?case by (auto simp: insert_loop.simps)
next
  case (Cons x entries)
  obtain p report parent where x: "x = (p, report, parent)" by (cases x)
  obtain siblings where r: "report = ReportSplitFrom ch siblings" using Cons.prems(4) x by auto
  have p: "storable p" "unknown s V (ch_id p)" using Cons.prems(2) x by simp_all
  obtain added s1 where s1: "insert_step env n p report s = Some (Inserted added, n, s1)"
    "store_inv (we_size env) s1 (insert p V)" "store_rows s1 = store_rows s + mset (chunk_rows p)"
    "direct_lineage (chunks_lineage s1) (ch_id ch) = Some Volatile"
    "\<And>c. c \<noteq> ch_id p \<Longrightarrow> unknown s V c \<Longrightarrow> unknown s1 (insert p V) c"
    using insert_piece [OF Cons.prems(1) p Cons.prems(5), of n siblings] unfolding r by blast
  have "\<forall>(q, _, _)\<in>set entries. storable q \<and> unknown s1 (insert p V) (ch_id q)"
  proof
    fix y assume y: "y \<in> set entries"
    obtain q qr qp where q: "y = (q, qr, qp)" by (cases y)
    have "ch_id q \<noteq> ch_id p" using Cons.prems(3) x y q by force
    moreover have "storable q \<and> unknown s V (ch_id q)" using Cons.prems(2) y q by auto
    ultimately show "case y of (q, _, _) \<Rightarrow> storable q \<and> unknown s1 (insert p V) (ch_id q)" using s1(5) q by simp
  qed
  moreover have "distinct (map (ch_id \<circ> fst) entries)" "\<forall>(p, report, _)\<in>set entries. \<exists>siblings. report = ReportSplitFrom ch siblings"
    using Cons.prems(3,4) by (simp_all add: comp_def)
  ultimately obtain diffs' s' V' where ih: "insert_loop env entries (diffs @ map (patch_diff parent) added) n s1 = Some (Inr diffs', n, s')"
    "store_inv (we_size env) s' V'" "store_rows s' = store_rows s1 + mset (concat (map (chunk_rows \<circ> fst) entries))"
    using Cons.IH [OF s1(2) _ _ _ s1(4), of "diffs @ map (patch_diff parent) added"] by blast
  have "insert_loop env (x # entries) diffs n s = Some (Inr diffs', n, s')"
    by (subst insert_loop.simps) (simp add: x s1(1) ih(1))
  moreover have "store_rows s' = store_rows s + mset (concat (map (chunk_rows \<circ> fst) (x # entries)))"
    unfolding ih(3) s1(3) by (simp add: x)
  ultimately show ?case using ih(2) by blast
qed

section \<open>Insertion of a chunk\<close>

lemma unknown_after_lineage:
  "unknown s V c \<Longrightarrow> c \<noteq> cid \<Longrightarrow> unknown (insert_lineage cid report s) V c"
  unfolding unknown_def known_iff_direct direct_lineage_insert by simp

text \<open>The identifiers an insertion may draw: one for every row for the first split and for each of at most as
  many rounds, and three for a compaction.\<close>

definition ids_drawn :: "nat \<Rightarrow> nat" where
  "ids_drawn rows = rows * rows + rows + 3"

definition fresh_ids :: "'c write_env \<Rightarrow> nat \<Rightarrow> 'c ChunkStore \<Rightarrow> 'c Chunk set \<Rightarrow> 'c Chunk \<Rightarrow> bool" where
  "fresh_ids env n s V ch \<longleftrightarrow> inj_on (we_fresh env) {n..<n + ids_drawn (num_rows ch)}
     \<and> (\<forall>i\<in>{n..<n + ids_drawn (num_rows ch)}. unknown s V (we_fresh env i) \<and> we_fresh env i \<noteq> ch_id ch)"

definition needs_split :: "'c write_env \<Rightarrow> 'c ChunkStore \<Rightarrow> 'c Chunk \<Rightarrow> bool" where
  "needs_split env s ch \<longleftrightarrow> split_target_rows (we_size env ch) (num_rows ch) (all_timelines_sorted ch)
     (ChunkSplitConfig.truncate (store_config s)) \<noteq> None"

lemma store_split_pieces:
  assumes env: "write_laws env" and ch: "storable ch" and fresh: "fresh_ids env n s V ch"
    and root: "direct_lineage (chunks_lineage s) (ch_id ch) = Some Volatile"
  obtains ps n' where "Option.bind (split_chunk env (store_config s) n ch)
      (\<lambda>(pieces, n). split_rounds env (store_config s) (chunks_lineage s) n pieces) = Some (ps, n')"
    "n \<le> n'" "n' + 3 \<le> n + ids_drawn (num_rows ch)" "ps = [ch] \<or> pieces_of env {} n n' (chunk_rows ch) ps \<and> needs_split env s ch"
proof -
  let ?R = "num_rows ch"
  let ?n1 = "n + ?R" and ?N = "n + ids_drawn ?R"
  have K: "arrow_laws (we_kernels env)" using env by (simp add: write_laws_def)
  have n1: "n \<le> ?n1" "?n1 \<le> ?N" by (simp_all add: ids_drawn_def)
  have inj: "inj_on (we_fresh env) {n..<?N}" using fresh by (simp add: fresh_ids_def)
  have "inj_on (we_fresh env) {n..<?n1}" by (rule inj_on_subset [OF inj]) (use n1 in auto)
  then obtain qs where q: "split_chunk env (store_config s) n ch = Some (qs, ?n1)" "pieces_of env {ch_id ch} n ?n1 (chunk_rows ch) qs"
    "(\<forall>m. split_chunk env (store_config s) m ch = Some ([ch], m + ?R)) \<or> pieces_of env {} n ?n1 (chunk_rows ch) qs \<and> needs_split env s ch"
    "qs \<noteq> []"
    using split_chunk_pieces [OF K _ ch, of n "store_config s"] unfolding needs_split_def by metis
  have desc: "descends_from_a_compaction (chunks_lineage s) c = Some False" if c: "c \<in> insert (ch_id ch) (we_fresh env ` {n..<?N})" for c
  proof -
    have "direct_lineage (chunks_lineage s) c \<in> {None, Some Volatile}"
    proof (cases "c = ch_id ch")
      case True
      with root show ?thesis by simp
    next
      case False
      with c obtain i where "c = we_fresh env i" "i \<in> {n..<?N}" by auto
      with fresh show ?thesis by (simp add: fresh_ids_def unknown_def direct_lineage_def)
    qed
    then show ?thesis by (auto simp: descends_from_a_compaction.simps [of _ c])
  qed
  have "ch_id ch \<notin> we_fresh env ` {n..<?N}" using fresh unfolding fresh_ids_def by (metis imageE)
  then have "undrawn env n ?N [ch]" using inj by (simp add: undrawn_def)
  then have u: "undrawn env ?n1 ?N qs" by (rule undrawn_pieces [OF _ _ n1(2)]) (use q(2) in simp)
  have d: "\<forall>c\<in>ch_id ` set qs \<union> we_fresh env ` {?n1..<?N}. descends_from_a_compaction (chunks_lineage s) c = Some False"
  proof -
    note sub = drawn_mono [OF n1, of "we_fresh env"]
    have "ch_id ` set qs \<subseteq> {ch_id ch} \<union> we_fresh env ` {n..<?n1}" using q(2) by (simp add: pieces_of_def)
    also have "\<dots> \<subseteq> insert (ch_id ch) (we_fresh env ` {n..<?N})" using sub(1) by auto
    finally have "ch_id ` set qs \<subseteq> insert (ch_id ch) (we_fresh env ` {n..<?N})" .
    moreover have "we_fresh env ` {?n1..<?N} \<subseteq> insert (ch_id ch) (we_fresh env ` {n..<?N})"
      using sub(2) by (rule subset_insertI2)
    ultimately show ?thesis using desc by (meson Un_iff subsetD)
  qed
  have qp: "\<forall>c\<in>set qs. storable c" "distinct (map ch_id qs)" "concat (map chunk_rows qs) = chunk_rows ch"
    using q(2) by (simp_all add: pieces_of_def)
  have R: "?R = length (concat (map chunk_rows qs))" unfolding qp(3) by simp
  have "length qs \<le> ?R" using pieces_bounded [OF qp(1)] unfolding qp(3) by simp
  moreover have "1 \<le> length qs" using q(4) by (cases qs) simp_all
  ultimately have "?R - length qs + 1 \<le> ?R" by linarith
  then have "?R * (?R - length qs + 1) \<le> ?R * ?R" by (rule mult_le_mono2)
  then have rb: "?n1 + ?R * (?R - length qs + 1) + 3 \<le> ?N" by (simp add: ids_drawn_def)
  then have "?n1 + ?R * (?R - length qs + 1) \<le> ?N" by linarith
  from split_rounds_pieces [OF K u this R qp(1,2) d] obtain ps n' where
    p: "split_rounds env (store_config s) (chunks_lineage s) ?n1 qs = Some (ps, n')"
    "pieces_of env (ch_id ` set qs) ?n1 n' (chunk_rows ch) ps" "n' \<le> ?n1 + ?R * (?R - length qs + 1)" unfolding qp(3) by blast
  have bound: "Option.bind (split_chunk env (store_config s) n ch)
      (\<lambda>(pieces, n). split_rounds env (store_config s) (chunks_lineage s) n pieces) = Some (ps, n')" by (simp add: q(1) p(1))
  have n': "n \<le> n'" "n' + 3 \<le> ?N" using pieces_of_trans [OF q(2) p(2)] p(3) rb by (simp_all add: pieces_of_def)
  from q(3) show ?thesis
  proof
    assume whole: "\<forall>m. split_chunk env (store_config s) m ch = Some ([ch], m + num_rows ch)"
    then have qs: "qs = [ch]" using q(1) by simp
    have "split_round env (store_config s) (chunks_lineage s) ?n1 [ch] = Some ([ch], ?n1 + ?R)"
      using desc [of "ch_id ch"] whole by simp
    then have "ps = [ch]" using p(1) unfolding qs by (simp add: split_rounds.simps [of _ _ _ _ "[ch]"])
    then show ?thesis using that [OF bound n'] by simp
  next
    assume a: "pieces_of env {} n ?n1 (chunk_rows ch) qs \<and> needs_split env s ch"
    from pieces_of_trans [OF conjunct1 [OF a] p(2)] a show ?thesis using that [OF bound n'] by simp
  qed
qed

lemma splits_store_inv: "store_inv sz (s\<lparr>dangling_splits := x, split_on_ingest := y\<rparr>) V = store_inv sz s V"
  by (simp add: store_inv_def store_files_def physical_ok_def min_row_ids_exact_def stats_exact_def chunk_stats_def)

lemma insert_split:
  assumes inv: "store_inv (we_size env) s V" and ps: "pieces_of env {} n n' rows ps"
    and fresh: "\<And>i. n \<le> i \<Longrightarrow> i < n' \<Longrightarrow> unknown s V (we_fresh env i)" and root: "direct_lineage (chunks_lineage s) (ch_id ch) = Some Volatile"
  shows "\<exists>diffs s' V'. insert_loop env (split_entries None ch ps) [] n' s = Some (Inr diffs, n', s')
    \<and> store_inv (we_size env) s' V' \<and> store_rows s' = store_rows s + mset rows"
proof -
  have ids: "ch_id ` set ps \<subseteq> we_fresh env ` {n..<n'}" and dist: "distinct (map ch_id ps)"
    and st: "\<forall>p\<in>set ps. storable p" and rows: "concat (map chunk_rows ps) = rows" using ps by (simp_all add: pieces_of_def)
  have u: "unknown s V (ch_id p)" if p: "p \<in> set ps" for p
  proof -
    have "ch_id p \<in> we_fresh env ` {n..<n'}" using ids p by (simp add: image_subset_iff)
    then obtain i where "ch_id p = we_fresh env i" "n \<le> i" "i < n'" by (metis atLeastLessThan_iff imageE)
    with fresh [of i] show ?thesis by simp
  qed
  have e: "\<forall>(p, _, _)\<in>set (split_entries None ch ps). storable p \<and> unknown s V (ch_id p)"
    using st u by (simp add: split_entries_def)
  have r: "\<forall>(p, report, _)\<in>set (split_entries None ch ps). \<exists>siblings. report = ReportSplitFrom ch siblings"
    by (simp add: split_entries_def)
  have m: "map (ch_id \<circ> fst) (split_entries None ch ps) = map ch_id ps"
    "map (chunk_rows \<circ> fst) (split_entries None ch ps) = map chunk_rows ps" by (simp_all add: split_entries_def)
  show ?thesis using insert_pieces [OF inv e _ r root, of "[]" n', unfolded m rows, OF dist] .
qed

lemma insert_chunk_ok:
  assumes env: "write_laws env" and inv: "store_inv (we_size env) s V" and ch: "storable ch" and new: "unknown s V (ch_id ch)"
    and fresh: "fresh_ids env n s V ch" and pad: "pads_with_store s ch"
  shows "\<exists>diffs n' s' V'. insert_chunk env n ch s = Some (Inr diffs, n', s') \<and> store_inv (we_size env) s' V'
    \<and> store_rows s' = store_rows s + mset (chunk_rows ch)
    \<and> (needs_split env s ch \<or> held s' (ch_id ch))"
proof -
  define s1 where "s1 = insert_lineage (ch_id ch) ReportVolatile s"
  have none: "direct_lineage (chunks_lineage s) (ch_id ch) = None" using new by (simp add: unknown_def direct_lineage_def)
  have l1: "direct_lineage (chunks_lineage s1) (ch_id ch) = Some Volatile" using none by (simp add: s1_def direct_lineage_insert)
  have i1: "store_inv (we_size env) s1 V" unfolding s1_def by (rule insert_lineage_store_inv [OF inv]) simp
  have f1: "fresh_ids env n s1 V ch" using fresh unknown_after_lineage unfolding s1_def fresh_ids_def by blast
  have fu: "unknown s1 V (we_fresh env i)" "we_fresh env i \<noteq> ch_id ch" if "n \<le> i" "i < n + ids_drawn (num_rows ch)" for i
    using f1 that by (simp_all add: fresh_ids_def)
  have r1: "store_rows s1 = store_rows s" by (simp add: store_rows_def s1_def)
  have chs: "\<not> chunk_is_static ch" "ch_is_sorted ch" "ch_components ch \<noteq> []" "\<not> chunk_is_empty ch"
    using ch by (simp_all add: storable_def chunk_is_empty_def)
  have "descends_from_a_compaction (chunks_lineage s1) (ch_id ch) = Some False" "\<not> descends_from_a_split (chunks_lineage s1) (ch_id ch)"
    using l1 by (simp_all add: descends_from_a_compaction.simps [of _ "ch_id ch"] descends_from_a_split_def)
  then have step: "insert_step env n ch ReportVolatile s = store_split env n ch ReportVolatile [] s1"
    unfolding unknown_step [OF new] using chs by (simp add: s1_def [symmetric])
  have run: "insert_chunk env n ch s = insert_loop env [(ch, ReportVolatile, None)] [] n s"
    using none by (simp add: insert_chunk_def insert_chunk_impl_def is_root_chunk_def)
  obtain ps n' where p: "Option.bind (split_chunk env (store_config s1) n ch)
      (\<lambda>(pieces, n). split_rounds env (store_config s1) (chunks_lineage s1) n pieces) = Some (ps, n')"
    "ps = [ch] \<or> pieces_of env {} n n' (chunk_rows ch) ps \<and> needs_split env s1 ch" and n': "n \<le> n'" "n' + 3 \<le> n + ids_drawn (num_rows ch)"
    by (rule store_split_pieces [OF env ch f1 l1])
  show ?thesis
  proof (cases "1 < length ps")
    case False
    then have "store_split env n ch ReportVolatile [] s1 = store_unsplit env n' ch ReportVolatile [] s1"
      by (simp add: store_split_def p(1))
    moreover have "unknown s1 V (we_fresh env i)" if "n' \<le> i" "i < n' + 3" for i using fu [of i] n' that by simp
    moreover have "ch_id ch \<notin> ch_id ` V" "physical s1 (ch_id ch) = None" "pads_with_store s1 ch"
      using new pad by (simp_all add: unknown_def s1_def pads_with_store_def)
    moreover have "map_of (chunks_lineage s1) (ch_id ch) \<noteq> None" unfolding known_iff_direct l1 by simp
    ultimately obtain added n2 s' V' where u: "insert_step env n ch ReportVolatile s = Some (Inserted added, n2, s')"
      "store_inv (we_size env) s' V'" "store_rows s' = store_rows s + mset (chunk_rows ch)"
      "held s' (ch_id ch)" using store_unsplit_ok [OF env i1 ch, of n' ReportVolatile "[]"] step r1 by auto
    then show ?thesis unfolding run by (simp add: insert_loop.simps [of _ "_ # _"] insert_loop.simps [of _ "[]"]) blast
  next
    case True
    define s2 where "s2 = s1\<lparr>dangling_splits := al_insert (ch_id ch) (map ch_id ps) (dangling_splits s1),
      split_on_ingest := insert (ch_id ch) (split_on_ingest s1)\<rparr>"
    have pp: "pieces_of env {} n n' (chunk_rows ch) ps" using p(2) True by auto
    have "store_split env n ch ReportVolatile [] s1 = Some (SplitInto [] ps, n', s2)"
      using True by (simp add: store_split_def p(1) s2_def)
    then have go: "insert_chunk env n ch s = insert_loop env (split_entries None ch ps) [] n' s2"
      unfolding run by (subst insert_loop.simps) (simp add: step)
    have i2: "store_inv (we_size env) s2 V" using i1 by (simp add: s2_def splits_store_inv)
    have l2: "direct_lineage (chunks_lineage s2) (ch_id ch) = Some Volatile" using l1 by (simp add: s2_def)
    have f2: "unknown s2 V (we_fresh env i)" if "n \<le> i" "i < n'" for i
      using fu [of i] that n'(2) by (simp add: unknown_def s2_def)
    obtain diffs s' V' where "insert_loop env (split_entries None ch ps) [] n' s2 = Some (Inr diffs, n', s')"
      "store_inv (we_size env) s' V'" "store_rows s' = store_rows s2 + mset (chunk_rows ch)"
      using insert_split [OF i2 pp f2 l2] by blast
    moreover have "store_rows s2 = store_rows s" using r1 by (simp add: store_rows_def s2_def)
    moreover have "needs_split env s ch" using p(2) True by (auto simp: needs_split_def s1_def)
    ultimately show ?thesis unfolding go by metis
  qed
qed

text \<open>C3: inserting a new chunk loses nothing and keeps the store consistent. For a well-formed, sorted
  temporal chunk the store has not seen, insertion returns, without an error, whether the chunk is
  stored as it is, compacted with a chunk already in memory, or split into pieces: afterwards the rows
  in memory are exactly the rows that were there and those of the chunk, and the indices, the row-id
  index, the reference counts of the lineage and the statistics match the chunks in memory again. It is
  assumed that the identifiers drawn are new, that iterating a hash map visits its entries, and that the
  arrays a compaction pads are compact.\<close>

theorem insert_chunk_keeps_rows:
  assumes "write_laws env" "store_inv (we_size env) s V" "storable ch" "unknown s V (ch_id ch)"
    "fresh_ids env n s V ch" "pads_with_store s ch"
  shows "\<exists>diffs n' s' V'. insert_chunk env n ch s = Some (Inr diffs, n', s') \<and> store_inv (we_size env) s' V'
    \<and> store_rows s' = store_rows s + mset (chunk_rows ch)"
  using insert_chunk_ok [OF assms] by blast

section \<open>Insertions without an effect\<close>

lemma insert_chunk_step:
  assumes "is_root_chunk (chunks_lineage s) (ch_id ch)"
  shows "insert_step env n ch ReportVolatile s = Some (Inserted diffs, n', s') \<Longrightarrow> insert_chunk env n ch s = Some (Inr diffs, n', s')"
    "insert_step env n ch ReportVolatile s = Some (Refused e, n', s') \<Longrightarrow> insert_chunk env n ch s = Some (Inl e, n', s')"
proof -
  have "map (patch_diff None) ds = ds" for ds :: "'a ChunkStoreDiff list" by (induction ds) simp_all
  then show "insert_step env n ch ReportVolatile s = Some (Inserted diffs, n', s') \<Longrightarrow> insert_chunk env n ch s = Some (Inr diffs, n', s')"
    using assms by (simp add: insert_chunk_def insert_chunk_impl_def insert_loop.simps [of _ "_ # _"] insert_loop.simps [of _ "[]"])
  show "insert_step env n ch ReportVolatile s = Some (Refused e, n', s') \<Longrightarrow> insert_chunk env n ch s = Some (Inl e, n', s')"
    using assms by (simp add: insert_chunk_def insert_chunk_impl_def insert_loop.simps [of _ "_ # _"])
qed

lemma held_has_no_effect:
  assumes held: "held s (ch_id ch)" and sorted: "ch_is_sorted ch"
  shows "insert_chunk env n ch s = Some (Inr [], n, s)"
proof (cases "is_root_chunk (chunks_lineage s) (ch_id ch)")
  case True
  have "insert_step env n ch ReportVolatile s = Some (Inserted [], n, s)"
  proof (cases "physical s (ch_id ch)")
    case None
    with held obtain c where "map_of (leaky_compactions s) (ch_id ch) = Some c" "physical s c \<noteq> None" by (auto simp: held_def)
    then have "leaky_descendant (leaky_compactions s) (\<lambda>c. physical s c \<noteq> None) (ch_id ch) = Some (Some c)"
      by (simp add: leaky_descendant.simps)
    with None sorted show ?thesis by (simp add: insert_step_def)
  qed (simp add: insert_step_def)
  then show ?thesis by (rule insert_chunk_step(1) [OF True])
qed (simp add: insert_chunk_def)

text \<open>C18: inserting a temporal chunk a second time has no effect. After a new, sorted and non-empty temporal
  chunk that exceeds no limit was inserted, whether it was stored as it is or compacted away, inserting
  it again reports no event and leaves the store unchanged. A chunk that exceeds a limit (\<open>needs_split\<close>) is
  not covered: it is only in memory as its splits, and a second insertion removes them and splits it again.
  The hypotheses are those of insertion: new chunk ids are unused, and the arrays that a compaction pads
  are compact.\<close>

theorem insert_chunk_twice:
  assumes "write_laws env" "store_inv (we_size env) s V" "storable ch" "unknown s V (ch_id ch)"
    "fresh_ids env n s V ch" "pads_with_store s ch" "\<not> needs_split env s ch"
  shows "\<exists>diffs n' s'. insert_chunk env n ch s = Some (Inr diffs, n', s')
    \<and> (\<forall>m. insert_chunk env m ch s' = Some (Inr [], m, s'))"
proof -
  obtain diffs n' s' where s': "insert_chunk env n ch s = Some (Inr diffs, n', s')" "held s' (ch_id ch)"
    using insert_chunk_ok [OF assms(1-6)] assms(7) by blast
  have "ch_is_sorted ch" using assms(3) by (simp add: storable_def)
  from held_has_no_effect [OF s'(2) this] s'(1) show ?thesis by blast
qed

text \<open>C19: what insertion refuses or ignores leaves the store unchanged. A chunk without rows, without
  components, or whose id is already in memory is accepted without any event; so is a chunk the store
  made itself by a split or a compaction. Any other chunk whose row ids are not sorted is refused.\<close>

theorem insert_chunk_rejects:
  assumes "num_rows ch = 0 \<or> ch_components ch = [] \<or> physical s (ch_id ch) \<noteq> None
    \<or> \<not> is_root_chunk (chunks_lineage s) (ch_id ch) \<or> \<not> ch_is_sorted ch"
  shows "insert_chunk env n ch s = Some
    (if num_rows ch = 0 \<or> ch_components ch = [] \<or> physical s (ch_id ch) \<noteq> None
       \<or> \<not> is_root_chunk (chunks_lineage s) (ch_id ch) then Inr [] else Inl UnsortedChunk, n, s)"
proof (cases "is_root_chunk (chunks_lineage s) (ch_id ch)")
  case True
  show ?thesis
  proof (cases "num_rows ch = 0 \<or> ch_components ch = [] \<or> physical s (ch_id ch) \<noteq> None")
    case ignored: True
    then have "insert_step env n ch ReportVolatile s = Some (Inserted [], n, s)" by (auto simp: insert_step_def chunk_is_empty_def)
    from insert_chunk_step(1) [OF True this] ignored show ?thesis by auto
  next
    case False
    then have "insert_step env n ch ReportVolatile s = Some (Refused UnsortedChunk, n, s)"
      using True assms by (simp add: insert_step_def chunk_is_empty_def)
    from insert_chunk_step(2) [OF True this] False True show ?thesis by simp
  qed
qed (simp add: insert_chunk_def)

section \<open>A concrete insertion\<close>

definition demo_env :: "nat write_env" where
  "demo_env = \<lparr>we_build = \<lparr>debug_assertions = True, measured_heap_size = \<lambda>_. 0\<rparr>, we_kernels = list_kernels,
     we_size = demo_size, we_fresh = \<lambda>i. demo_id (100 + i), we_order = \<lambda>xs. xs\<rparr>"

lemma demo_insertion:
  "write_laws demo_env" "store_inv (we_size demo_env) demo_store {demo_chunk}" "storable demo_other"
  "unknown demo_store {demo_chunk} (ch_id demo_other)" "fresh_ids demo_env 0 demo_store {demo_chunk} demo_other"
  "pads_with_store demo_store demo_other"
proof -
  have f: "leaky_compactions demo_store = []" "dangling_splits demo_store = []" by (simp_all add: demo_store_def store_new_def)
  have c9: "ch_id demo_chunk = demo_id 9" "ch_id demo_other = demo_id 10" by (simp_all add: demo_chunk_def demo_other_def)
  have new: "unknown demo_store {demo_chunk} (demo_id k)" if "k < 2 ^ 128" "k \<noteq> 9" for k
    using that by (simp add: unknown_def f c9)
  have rows: "num_rows demo_other = 2" by (simp add: demo_other_def num_rows_def)
  show "write_laws demo_env" using arrow_laws_list_kernels by (simp add: write_laws_def demo_env_def)
  show "store_inv (we_size demo_env) demo_store {demo_chunk}" using demo_store_inv by (simp add: demo_env_def)
  show "storable demo_other" using demo_other_wf rows by (simp add: storable_def) (simp add: demo_other_def chunk_is_static_def)
  show "unknown demo_store {demo_chunk} (ch_id demo_other)" unfolding c9 by (rule new) simp_all
  have "unknown demo_store {demo_chunk} (demo_id (100 + i)) \<and> demo_id (100 + i) \<noteq> demo_id 10" if "i < 9" for i
    using new [of "100 + i"] that by simp
  moreover have "inj_on (\<lambda>i. demo_id (100 + i)) {0..<9}" by (rule inj_onI) simp
  ultimately show "fresh_ids demo_env 0 demo_store {demo_chunk} demo_other"
    by (simp add: fresh_ids_def demo_env_def rows ids_drawn_def c9)
  show "pads_with_store demo_store demo_other" using demo_mergeable by (simp add: pads_with_store_def split: if_splits)
qed

theorem insert_chunk_keeps_rows_witness:
  "\<exists>diffs n' s'. insert_chunk demo_env 0 demo_other demo_store = Some (Inr diffs, n', s')
    \<and> size (store_rows s') = 5"
proof -
  have "size (store_rows demo_store + mset (chunk_rows demo_other)) = 5"
    by (simp add: store_rows_def map_rows_def) (simp add: demo_other_def num_rows_def)
  then show ?thesis using insert_chunk_keeps_rows [OF demo_insertion] by metis
qed

theorem insert_chunk_twice_witness:
  "\<exists>diffs n' s'. insert_chunk demo_env 0 demo_other demo_store = Some (Inr diffs, n', s')
    \<and> insert_chunk demo_env n' demo_other s' = Some (Inr [], n', s')"
proof -
  have "\<not> needs_split demo_env demo_store demo_other"
    by (simp add: needs_split_def split_target_rows_def demo_env_def demo_size_def demo_store_def store_new_def
        demo_config_def ChunkSplitConfig.truncate_def all_timelines_sorted_def num_rows_def demo_other_def tc_new_def)
  from insert_chunk_twice [OF demo_insertion this] show ?thesis by metis
qed

theorem insert_chunk_rejects_witness:
  "insert_chunk demo_env 0 (demo_other\<lparr>ch_is_sorted := False\<rparr>) demo_store = Some (Inl UnsortedChunk, 0, demo_store)"
proof -
  let ?ch = "demo_other\<lparr>ch_is_sorted := False\<rparr>"
  have "num_rows ?ch \<noteq> 0" "ch_components ?ch \<noteq> []" by (simp_all add: demo_other_def num_rows_def)
  moreover have "physical demo_store (ch_id ?ch) = None" "is_root_chunk (chunks_lineage demo_store) (ch_id ?ch)"
    using demo_insertion(4) by (simp_all add: unknown_def is_root_chunk_def direct_lineage_def)
  ultimately show ?thesis using insert_chunk_rejects [of ?ch demo_store demo_env 0] by simp
qed

end
