(* ===== verification/Store_Drop.thy ===== *)
theory Store_Drop
  imports Store_Split
begin

text \<open>
  Removal of an entity (\<open>re_chunk_store\<close>: \<open>writes.rs\<close>, \<open>drop_entity_path\<close>): its temporal chunks leave
  memory and the indices, but their references in the lineage stay.
\<close>

lemma map_of_drop_physical: "map_of (snd (drop_physical cids m)) cid = (if cid \<in> set cids then None else map_of m cid)"
  by (induction cids m rule: drop_physical.induct) (auto split: option.splits)

definition filed_under :: "'c ChunkStore \<Rightarrow> EntityPath \<Rightarrow> ChunkId set" where
  "filed_under s e = set (concat (map (\<lambda>(_, ix). concat (map snd (per_start_time ix))) (al_get [] e (temporal_chunk_ids_per_entity s))))"

text \<open>What is left: nothing filed under the entity, and the lineage as it was.\<close>

lemma drop_entity_path_sel:
  fixes s :: "'c ChunkStore" and sz :: "'c Chunk \<Rightarrow> nat" and e :: EntityPath
  defines "s' \<equiv> snd (drop_entity_path sz e s)"
  shows "chunks_lineage s' = chunks_lineage s" "entity_index_of (temporal_chunk_ids_per_entity s') e tln = index_default"
    "component_index_of (temporal_chunk_ids_per_entity_per_component s') e tln c = index_default"
    "cid \<in> filed_under s e \<Longrightarrow> physical s' cid = None" "physical s' cid \<in> {None, physical s cid}"
proof -
  let ?statics = "sorted_list_of_set (set (map snd (al_get [] e (static_chunk_ids_per_entity s))))"
  let ?temporals = "sorted_list_of_set (filed_under s e)"
  have d: "\<And>cids (t :: 'c ChunkStore). physical_chunks_per_chunk_id (drop_row_ids cids t) = physical_chunks_per_chunk_id t"
    "\<And>cids (t :: 'c ChunkStore). chunks_lineage (drop_row_ids cids t) = chunks_lineage t"
    "\<And>cids (t :: 'c ChunkStore). temporal_chunk_ids_per_entity (drop_row_ids cids t) = temporal_chunk_ids_per_entity t"
    "\<And>cids (t :: 'c ChunkStore). temporal_chunk_ids_per_entity_per_component (drop_row_ids cids t) = temporal_chunk_ids_per_entity_per_component t"
    by (simp_all add: drop_row_ids_def)
  have p: "physical_chunks_per_chunk_id s' = snd (drop_physical ?temporals (snd (drop_physical ?statics (physical_chunks_per_chunk_id s))))"
    "chunks_lineage s' = chunks_lineage s" "temporal_chunk_ids_per_entity s' = al_remove e (temporal_chunk_ids_per_entity s)"
    "temporal_chunk_ids_per_entity_per_component s' = al_remove e (temporal_chunk_ids_per_entity_per_component s)"
    by (simp_all add: s'_def drop_entity_path_def Let_def d filed_under_def case_prod_unfold)
  show "chunks_lineage s' = chunks_lineage s" by (rule p(2))
  have g: "al_get [] e (al_remove e m) = []" for m :: "(EntityPath \<times> 'x list) list"
    by (simp add: al_get_def al_remove_def map_of_filter_ne)
  show "entity_index_of (temporal_chunk_ids_per_entity s') e tln = index_default"
    "component_index_of (temporal_chunk_ids_per_entity_per_component s') e tln c = index_default"
    unfolding entity_index_of_def component_index_of_def p(3,4) g by (simp_all add: al_get_def)
  have m: "physical s' cid = (if cid \<in> set ?temporals \<union> set ?statics then None else physical s cid)"
    unfolding p(1) map_of_drop_physical by simp
  show "physical s' cid \<in> {None, physical s cid}" unfolding m by simp
  have "set ?temporals = filed_under s e" unfolding filed_under_def by (rule set_sorted_list_of_set) (rule finite_set)
  with m show "cid \<in> filed_under s e \<Longrightarrow> physical s' cid = None" by simp
qed

lemma filed_under_entity:
  assumes "entity_indexes (temporal_chunk_ids_per_entity s) V" "ch \<in> V" "\<not> chunk_is_static ch"
  shows "ch_id ch \<in> filed_under s (ch_entity_path ch)"
proof -
  let ?per_timeline = "al_get [] (ch_entity_path ch) (temporal_chunk_ids_per_entity s)"
  obtain tln tc rest where tls: "ch_timelines ch = (tln, tc) # rest"
    using assms(3) by (cases "ch_timelines ch") (auto simp: chunk_is_static_def)
  let ?ix = "entity_index_of (temporal_chunk_ids_per_entity s) (ch_entity_path ch) tln"
  have "(ch_id ch, tc_time_range tc) \<in> entries_by (entity_filing (ch_entity_path ch) tln) V"
    using assms(2) tls by (auto simp: entries_by_def entity_filing_def)
  then have "(ch_id ch, range_min (tc_time_range tc)) \<in> apsnd range_min ` entries_by (entity_filing (ch_entity_path ch) tln) V"
    by (metis apsnd_conv image_eqI)
  moreover have "filed (per_start_time ?ix) (apsnd range_min ` entries_by (entity_filing (ch_entity_path ch) tln) V)"
    using assms(1) by (simp add: entity_indexes_def index_holds_def)
  ultimately obtain ids where ids: "map_of (per_start_time ?ix) (range_min (tc_time_range tc)) = Some ids" "ch_id ch \<in> set ids"
    using filedD(3) by metis
  then have "?ix \<noteq> index_default" by (auto simp: index_default_def)
  then have "map_of ?per_timeline tln = Some ?ix" by (auto simp: entity_index_of_def al_get_def split: option.splits)
  then have "(tln, ?ix) \<in> set ?per_timeline" "(range_min (tc_time_range tc), ids) \<in> set (per_start_time ?ix)"
    using ids(1) by (auto dest: map_of_SomeD)
  with ids(2) show ?thesis unfolding filed_under_def by force
qed

text \<open>C20: dropping an entity. Afterwards no temporal chunk of the entity is in memory and neither index files
  anything under it, and nothing new is in memory. The lineage is left as it was: as soon as one chunk
  was dropped, its entry counts a reference nobody holds, and the reference counts no longer match.\<close>

theorem drop_entity_path_leaks_references:
  assumes inv: "store_inv sz s V" and s': "s' = snd (drop_entity_path sz e s)"
  shows "(\<forall>cid ch. physical s' cid = Some ch \<longrightarrow> \<not> chunk_is_static ch \<longrightarrow> ch_entity_path ch \<noteq> e)
    \<and> (\<forall>tln c. entity_index_of (temporal_chunk_ids_per_entity s') e tln = index_default
        \<and> component_index_of (temporal_chunk_ids_per_entity_per_component s') e tln c = index_default)
    \<and> physical s' \<subseteq>\<^sub>m physical s \<and> chunks_lineage s' = chunks_lineage s
    \<and> (physical s' \<noteq> physical s \<longrightarrow> \<not> lineage_inv (chunks_lineage s') (dom (physical s')))"
proof (intro conjI allI impI)
  note sel = drop_entity_path_sel [where sz = sz and e = e and s = s, folded s']
  have left: "physical s cid = Some ch" if "physical s' cid = Some ch" for cid ch using sel(5) [of cid] that by auto
  show "ch_entity_path ch \<noteq> e" if ch: "physical s' cid = Some ch" "\<not> chunk_is_static ch" for cid ch
  proof
    assume "ch_entity_path ch = e"
    moreover have "ch \<in> V" "ch_id ch = cid" using inv left [OF ch(1)] ch(2) by (simp_all add: store_inv_def physical_ok_def)
    ultimately have "cid \<in> filed_under s e"
      using filed_under_entity [of s V ch] inv ch(2) by (simp add: store_inv_def store_files_def)
    with sel(4) ch(1) show False by simp
  qed
  show "physical s' \<subseteq>\<^sub>m physical s" unfolding map_le_def using left by fastforce
  show "\<not> lineage_inv (chunks_lineage s') (dom (physical s'))" if ne: "physical s' \<noteq> physical s"
  proof
    assume bad: "lineage_inv (chunks_lineage s') (dom (physical s'))"
    obtain cid where "physical s' cid \<noteq> physical s cid" using ne by (auto simp: fun_eq_iff)
    then obtain ch where c: "physical s' cid = None" "physical s cid = Some ch" using left by (metis not_Some_eq)
    obtain l where l: "map_of (chunks_lineage s) cid = Some l" using physical_known [OF inv c(2)] by auto
    have "ref_count l = phys_refs (dom (physical s')) cid + referenced_by (chunks_lineage s) cid"
      using bad l sel(1) by (simp add: lineage_inv_def counted_def)
    with physical_counted [OF inv c(2) l] c(1) show False by (simp add: phys_refs_def domIff)
  qed
qed (use drop_entity_path_sel [where sz = sz and e = e and s = s, folded s'] in simp_all)

theorem drop_entity_path_leaks_references_witness:
  "physical (snd (drop_entity_path demo_size ''/world'' demo_store)) (ch_id demo_chunk) = None
    \<and> chunks_lineage (snd (drop_entity_path demo_size ''/world'' demo_store)) = chunks_lineage demo_store
    \<and> \<not> lineage_inv (chunks_lineage demo_store) (dom (physical (snd (drop_entity_path demo_size ''/world'' demo_store))))"
proof -
  note d = drop_entity_path_leaks_references [OF demo_store_inv refl, of "''/world''"]
  let ?s = "snd (drop_entity_path demo_size ''/world'' demo_store)"
  have "ch_entity_path demo_chunk = ''/world''" "\<not> chunk_is_static demo_chunk" by (simp_all add: demo_chunk_def chunk_is_static_def)
  then have none: "physical ?s (ch_id demo_chunk) \<noteq> Some demo_chunk" using d by blast
  moreover have "physical ?s \<subseteq>\<^sub>m physical demo_store" using d by blast
  ultimately have "physical ?s (ch_id demo_chunk) = None" by (cases "physical ?s (ch_id demo_chunk)") (auto simp: map_le_def dom_def)
  moreover from this have "physical ?s \<noteq> physical demo_store" by auto
  ultimately show ?thesis using d by metis
qed

end
