(* ===== verification/Entity_Path.thy ===== *)
theory Entity_Path
  imports Prelude "HOL-Library.Sublist"
begin

text \<open>
  Entity paths (\<open>re_log_types/src/path\<close>: \<open>entity_path_part.rs\<close>, \<open>parse_path.rs\<close>, \<open>entity_path.rs\<close>): escaping and
  unescaping of a part, tokens, the strict and the forgiving parser, printing, and the operations on
  paths. A string is the list of its Unicode scalar values. Warnings, the cache of parsed paths and
  the precomputed hashes, by which the code compares paths, are left out: paths are compared by their parts.
\<close>

section \<open>Characters\<close>

type_synonym uchar = nat
type_synonym ustr = "uchar list"

text \<open>The character tables of the standard library, beyond ASCII, are a parameter.\<close>

record unicode =
  uc_alphanumeric :: "uchar \<Rightarrow> bool"
  uc_whitespace :: "uchar \<Rightarrow> bool"

definition ascii_alphanumeric :: "uchar \<Rightarrow> bool" where
  "ascii_alphanumeric c \<longleftrightarrow> (48 \<le> c \<and> c \<le> 57) \<or> (65 \<le> c \<and> c \<le> 90) \<or> (97 \<le> c \<and> c \<le> 122)"

definition unicode_laws :: "unicode \<Rightarrow> bool" where
  "unicode_laws U \<longleftrightarrow> (\<forall>c < 128. uc_alphanumeric U c = ascii_alphanumeric c)"

definition is_ascii_punctuation :: "uchar \<Rightarrow> bool" where
  "is_ascii_punctuation c \<longleftrightarrow> (33 \<le> c \<and> c \<le> 47) \<or> (58 \<le> c \<and> c \<le> 64) \<or> (91 \<le> c \<and> c \<le> 96) \<or> (123 \<le> c \<and> c \<le> 126)"

text \<open>\<open>char::from_u32\<close> accepts the scalar values; the length of a character in UTF-8.\<close>

definition is_scalar :: "nat \<Rightarrow> bool" where
  "is_scalar n \<longleftrightarrow> n < 55296 \<or> (57344 \<le> n \<and> n \<le> 1114111)"

definition utf8_len :: "uchar \<Rightarrow> nat" where
  "utf8_len c = (if c < 128 then 1 else if c < 2048 then 2 else if c < 65536 then 3 else 4)"

definition utf8_length :: "ustr \<Rightarrow> nat" where
  "utf8_length s = sum_list (map utf8_len s)"

abbreviation BACKSLASH :: uchar where "BACKSLASH \<equiv> 92"
abbreviation SLASH :: uchar where "SLASH \<equiv> 47"
abbreviation SPACE :: uchar where "SPACE \<equiv> 32"
abbreviation BRACE_OPEN :: uchar where "BRACE_OPEN \<equiv> 123"
abbreviation BRACE_CLOSE :: uchar where "BRACE_CLOSE \<equiv> 125"
abbreviation BRACKET_OPEN :: uchar where "BRACKET_OPEN \<equiv> 91"
abbreviation BRACKET_CLOSE :: uchar where "BRACKET_CLOSE \<equiv> 93"
abbreviation COLON :: uchar where "COLON \<equiv> 58"
abbreviation HASH :: uchar where "HASH \<equiv> 35"

text \<open>\<open>from_str_radix\<close> of an unsigned integer: an optional plus sign and at least one digit; \<open>None\<close> on an
  invalid digit or an overflow. Digits in base 10 or 16.\<close>

definition to_digit :: "nat \<Rightarrow> uchar \<Rightarrow> nat option" where
  "to_digit radix c =
     (let d = (if 48 \<le> c \<and> c \<le> 57 then c - 48 else if 65 \<le> c \<and> c \<le> 70 then c - 55
        else if 97 \<le> c \<and> c \<le> 102 then c - 87 else radix)
      in if d < radix then Some d else None)"

definition digits_value :: "nat \<Rightarrow> ustr \<Rightarrow> nat option" where
  "digits_value radix s = map_option (foldl (\<lambda>n d. n * radix + d) 0) (traverse (to_digit radix) s)"

definition from_str_radix :: "nat \<Rightarrow> nat \<Rightarrow> ustr \<Rightarrow> nat option" where
  "from_str_radix bits radix s =
     (let ds = (if s \<noteq> [] \<and> hd s = 43 then tl s else s)
      in if ds = [] then None
         else case digits_value radix ds of
           None \<Rightarrow> None | Some n \<Rightarrow> if n < 2 ^ bits then Some n else None)"

text \<open>The format \<open>{:04X}\<close>.\<close>

definition hex_digit :: "nat \<Rightarrow> uchar" where
  "hex_digit d = (if d < 10 then 48 + d else 55 + d)"

fun to_hex :: "nat \<Rightarrow> ustr" where
  "to_hex n = (if n < 16 then [hex_digit n] else to_hex (n div 16) @ [hex_digit (n mod 16)])"

declare to_hex.simps [simp del]

definition hex4 :: "nat \<Rightarrow> ustr" where
  "hex4 n = replicate (4 - length (to_hex n)) 48 @ to_hex n"

section \<open>Parts\<close>

datatype PathParseError =
    EmptyString | MissingPath | DoubleSlash | MissingSlash | TrailingSlash | EmptyPart
  | BadInstance ustr | UnexpectedInstance nat | UnexpectedComponent ustr
  | MissingComponentIdentifier | InvalidComponentIdentifier | TrailingColon
  | UnknownEscapeSequence uchar | TrailingBackslash | MissingEscape uchar | InvalidUnicodeEscape ustr

text \<open>The characters that \<open>parse_unicode_escape\<close> consumes, up to a brace or six bytes, and the rest.\<close>

fun take_escape :: "nat \<Rightarrow> ustr \<Rightarrow> ustr \<times> ustr" where
  "take_escape n [] = ([], [])"
| "take_escape n (c # cs) =
     (if c = BRACE_CLOSE \<or> n + utf8_len c = 6 then ([c], cs) else apfst ((#) c) (take_escape (n + utf8_len c) cs))"

definition parse_unicode_escape :: "ustr \<Rightarrow> (ustr + uchar) \<times> ustr" where
  "parse_unicode_escape input =
     (let (all_chars, rest) = take_escape 0 input in
      (case all_chars of
         [] \<Rightarrow> Inl all_chars
       | c # chars \<Rightarrow>
           if c \<noteq> BRACE_OPEN \<or> chars = [] \<or> last chars \<noteq> BRACE_CLOSE then Inl all_chars
           else if utf8_length (butlast chars) \<noteq> 4 then Inl all_chars
           else case from_str_radix 32 16 (butlast chars) of
             None \<Rightarrow> Inl all_chars
           | Some num \<Rightarrow> if is_scalar num then Inr num else Inl all_chars, rest))"

lemma length_take_escape: "length (snd (take_escape n cs)) \<le> length cs"
  by (induction n cs rule: take_escape.induct) auto

lemma length_unicode_escape: "(r, rest) = parse_unicode_escape cs \<Longrightarrow> length rest < Suc (Suc (length cs))"
  using length_take_escape [of 0 cs] by (auto simp: parse_unicode_escape_def split: prod.splits)

definition print_as_is :: "unicode \<Rightarrow> uchar \<Rightarrow> bool" where
  "print_as_is U c \<longleftrightarrow> uc_alphanumeric U c \<or> c \<in> {95, 45, 46}"

function part_parse_strict :: "unicode \<Rightarrow> ustr \<Rightarrow> PathParseError + ustr" where
  "part_parse_strict U input =
     (case input of
        [] \<Rightarrow> Inr []
      | c # cs \<Rightarrow>
          if c = BACKSLASH then
            (case cs of
               [] \<Rightarrow> Inl TrailingBackslash
             | d # cs \<Rightarrow>
                 if d = 110 then map_sum id ((#) 10) (part_parse_strict U cs)
                 else if d = 114 then map_sum id ((#) 13) (part_parse_strict U cs)
                 else if d = 116 then map_sum id ((#) 9) (part_parse_strict U cs)
                 else if d = 117 then
                   (case parse_unicode_escape cs of
                      (Inl s, _) \<Rightarrow> Inl (InvalidUnicodeEscape s)
                    | (Inr u, rest) \<Rightarrow> map_sum id ((#) u) (part_parse_strict U rest))
                 else if is_ascii_punctuation d \<or> d = SPACE then map_sum id ((#) d) (part_parse_strict U cs)
                 else Inl (UnknownEscapeSequence d))
          else if print_as_is U c then map_sum id ((#) c) (part_parse_strict U cs)
          else Inl (MissingEscape c))"
  by pat_completeness auto
termination
  by (relation "measure (\<lambda>(_, input). length input)") (auto dest: length_unicode_escape)

declare part_parse_strict.simps [simp del]

function part_parse_forgiving :: "ustr \<Rightarrow> ustr" where
  "part_parse_forgiving input =
     (case input of
        [] \<Rightarrow> []
      | c # cs \<Rightarrow>
          if c = BACKSLASH then
            (case cs of
               [] \<Rightarrow> [BACKSLASH]
             | d # cs \<Rightarrow>
                 if d = 110 then 10 # part_parse_forgiving cs
                 else if d = 114 then 13 # part_parse_forgiving cs
                 else if d = 116 then 9 # part_parse_forgiving cs
                 else if d = 117 then
                   (case parse_unicode_escape cs of
                      (Inl s, rest) \<Rightarrow> [BACKSLASH, 117] @ s @ part_parse_forgiving rest
                    | (Inr u, rest) \<Rightarrow> u # part_parse_forgiving rest)
                 else d # part_parse_forgiving cs)
          else c # part_parse_forgiving cs)"
  by pat_completeness auto
termination
  by (relation "measure length") (auto dest: length_unicode_escape)

declare part_parse_forgiving.simps [simp del]

definition escape_char :: "unicode \<Rightarrow> uchar \<Rightarrow> ustr" where
  "escape_char U c =
     (if print_as_is U c then [c]
      else if c = 10 then [BACKSLASH, 110]
      else if c = 13 then [BACKSLASH, 114]
      else if c = 9 then [BACKSLASH, 116]
      else if is_ascii_punctuation c \<or> c = SPACE then [BACKSLASH, c]
      else [BACKSLASH, 117, BRACE_OPEN] @ hex4 c @ [BRACE_CLOSE])"

definition escaped_string :: "unicode \<Rightarrow> ustr \<Rightarrow> ustr" where
  "escaped_string U part = concat (map (escape_char U) part)"

section \<open>Tokens\<close>

fun scan_token :: "uchar list \<Rightarrow> bool \<Rightarrow> ustr \<Rightarrow> ustr \<times> ustr" where
  "scan_token special_chars is_in_escape [] = ([], [])"
| "scan_token special_chars is_in_escape (c # cs) =
     (if \<not> is_in_escape \<and> c \<in> set special_chars then ([], c # cs)
      else apfst ((#) c) (scan_token special_chars (c = BACKSLASH) cs))"

lemma scan_token_append: "cs = fst (scan_token sp e cs) @ snd (scan_token sp e cs)"
  by (induction sp e cs rule: scan_token.induct) auto

lemma scan_token_shorter:
  assumes "(t, rest) = scan_token sp e cs" "t \<noteq> []"
  shows "length rest < length cs"
proof -
  have "cs = t @ rest" using scan_token_append [of cs sp e] by (simp flip: assms(1))
  then show ?thesis using assms(2) by simp
qed

function tokenize_by :: "uchar list \<Rightarrow> ustr \<Rightarrow> ustr list" where
  "tokenize_by special_chars path =
     (case path of
        [] \<Rightarrow> []
      | c # cs \<Rightarrow>
          (case scan_token special_chars False path of
             (token, rest) \<Rightarrow>
               if token = [] then [c] # tokenize_by special_chars cs else token # tokenize_by special_chars rest))"
  by pat_completeness auto
termination
  by (relation "measure (\<lambda>(_, path). length path)") (auto dest: scan_token_shorter simp del: scan_token.simps)

declare tokenize_by.simps [simp del]

definition tokenize_entity_path :: "ustr \<Rightarrow> ustr list" where
  "tokenize_entity_path = tokenize_by [SLASH]"

definition tokenize_data_path :: "ustr \<Rightarrow> ustr list" where
  "tokenize_data_path = tokenize_by [SLASH, BRACKET_OPEN, BRACKET_CLOSE, COLON, HASH]"

section \<open>Parsing\<close>

record DataPath =
  dp_entity_path :: "ustr list"
  dp_instance :: "nat option"
  dp_component :: "ustr option"

text \<open>The loop of \<open>entity_path_parts_from_tokens_strict\<close>, with the first of the remaining tokens apart.\<close>

fun parts_loop :: "unicode \<Rightarrow> ustr \<Rightarrow> ustr list \<Rightarrow> PathParseError + ustr list" where
  "parts_loop U token tokens =
     (if token = [SLASH] then Inl DoubleSlash
      else case part_parse_strict U token of
        Inl e \<Rightarrow> Inl e
      | Inr part \<Rightarrow>
          (case tokens of
             [] \<Rightarrow> Inr [part]
           | [next] \<Rightarrow> if next = [SLASH] then Inl TrailingSlash else Inl MissingSlash
           | next # token # tokens \<Rightarrow>
               if next = [SLASH] then map_sum id ((#) part) (parts_loop U token tokens) else Inl MissingSlash))"

declare parts_loop.simps [simp del]

definition entity_path_parts_from_tokens_strict :: "unicode \<Rightarrow> ustr list \<Rightarrow> PathParseError + ustr list" where
  "entity_path_parts_from_tokens_strict U tokens =
     (case tokens of
        [] \<Rightarrow> Inl MissingPath
      | token # tokens \<Rightarrow>
          if token = [SLASH] then (case tokens of [] \<Rightarrow> Inr [] | token # tokens \<Rightarrow> parts_loop U token tokens)
          else parts_loop U token tokens)"

text \<open>\<open>DataPath::from_str\<close>: the component after the first colon, the instance after the first bracket.\<close>

definition split_at_token :: "ustr \<Rightarrow> ustr list \<Rightarrow> ustr list \<times> ustr list option" where
  "split_at_token t tokens =
     (let front = takeWhile (\<lambda>x. x \<noteq> t) tokens
      in (front, if length front < length tokens then Some (drop (length front) tokens) else None))"

definition parse_component :: "ustr list \<Rightarrow> PathParseError + ustr" where
  "parse_component component_tokens =
     (if component_tokens = [] \<or> last component_tokens = [COLON] then Inl TrailingColon
      else if concat component_tokens = [] then Inl InvalidComponentIdentifier
      else Inr (concat component_tokens))"

definition parse_instance :: "ustr list \<Rightarrow> PathParseError + nat" where
  "parse_instance instance_tokens =
     (if length instance_tokens \<noteq> 4 \<or> last instance_tokens \<noteq> [BRACKET_CLOSE] then Inl (BadInstance (concat instance_tokens))
      else case from_str_radix 64 10 (instance_tokens ! 2) of
        None \<Rightarrow> Inl (BadInstance (instance_tokens ! 2)) | Some nr \<Rightarrow> Inr nr)"

definition data_path_from_str :: "unicode \<Rightarrow> ustr \<Rightarrow> PathParseError + DataPath" where
  "data_path_from_str U path =
     (if path = [] then Inl EmptyString
      else
        let (tokens, comp) = split_at_token [COLON] (tokenize_data_path path);
            component = (case comp of None \<Rightarrow> Inr None | Some ts \<Rightarrow> map_sum id Some (parse_component (tl ts)))
        in case component of
             Inl e \<Rightarrow> Inl e
           | Inr component \<Rightarrow>
               let (tokens, inst) = split_at_token [BRACKET_OPEN] tokens;
                   inst = (case inst of None \<Rightarrow> Inr None | Some ts \<Rightarrow> map_sum id Some (parse_instance ts))
               in case inst of
                    Inl e \<Rightarrow> Inl e
                  | Inr inst \<Rightarrow>
                      map_sum id (\<lambda>parts. \<lparr>dp_entity_path = parts, dp_instance = inst, dp_component = component\<rparr>)
                        (entity_path_parts_from_tokens_strict U tokens))"

definition parse_strict :: "unicode \<Rightarrow> ustr \<Rightarrow> PathParseError + ustr list" where
  "parse_strict U input =
     (case data_path_from_str U input of
        Inl e \<Rightarrow> Inl e
      | Inr dp \<Rightarrow>
          (case dp_instance dp of
             Some nr \<Rightarrow> Inl (UnexpectedInstance nr)
           | None \<Rightarrow>
               (case dp_component dp of
                  Some component \<Rightarrow> Inl (UnexpectedComponent component)
                | None \<Rightarrow> Inr (dp_entity_path dp))))"

definition parse_forgiving :: "ustr \<Rightarrow> ustr list" where
  "parse_forgiving input = map part_parse_forgiving (filter (\<lambda>part. part \<noteq> [SLASH]) (tokenize_entity_path input))"

text \<open>\<open>ComponentPath::from_str\<close>.\<close>

definition component_path_from_str :: "unicode \<Rightarrow> ustr \<Rightarrow> PathParseError + ustr list \<times> ustr" where
  "component_path_from_str U s =
     (case data_path_from_str U s of
        Inl e \<Rightarrow> Inl e
      | Inr dp \<Rightarrow>
          (case dp_instance dp of
             Some nr \<Rightarrow> Inl (UnexpectedInstance nr)
           | None \<Rightarrow>
               (case dp_component dp of
                  None \<Rightarrow> Inl MissingComponentIdentifier | Some component \<Rightarrow> Inr (dp_entity_path dp, component))))"

text \<open>\<open>Display\<close>.\<close>

definition path_to_string :: "unicode \<Rightarrow> ustr list \<Rightarrow> ustr" where
  "path_to_string U path = (if path = [] then [SLASH] else concat (map (\<lambda>part. SLASH # escaped_string U part) path))"

section \<open>Operations on paths\<close>

type_synonym entity_path = "ustr list"

definition path_ui_string :: "entity_path \<Rightarrow> ustr" where
  "path_ui_string path = (if path = [] then [SLASH] else concat (map (\<lambda>part. SLASH # part) path))"

definition from_single_string :: "ustr \<Rightarrow> entity_path" where
  "from_single_string string = [string]"

definition div_part :: "entity_path \<Rightarrow> ustr \<Rightarrow> entity_path" where
  "div_part path other = path @ [other]"

definition PROPERTIES_PART :: ustr where
  "PROPERTIES_PART = [95, 95, 112, 114, 111, 112, 101, 114, 116, 105, 101, 115]"

definition path_properties :: entity_path where
  "path_properties = [PROPERTIES_PART]"

definition is_reserved :: "entity_path \<Rightarrow> bool" where
  "is_reserved path = (case path of [] \<Rightarrow> False | part # _ \<Rightarrow> take 2 part = [95, 95])"

definition path_starts_with :: "entity_path \<Rightarrow> entity_path \<Rightarrow> bool" where
  "path_starts_with path pre \<longleftrightarrow> length pre \<le> length path \<and> list_all (\<lambda>(a, b). a = b) (zip path pre)"

definition is_property :: "entity_path \<Rightarrow> bool" where
  "is_property path = path_starts_with path path_properties"

definition strip_prefix :: "entity_path \<Rightarrow> entity_path \<Rightarrow> entity_path option" where
  "strip_prefix path pre = (if path_starts_with path pre then Some (drop (length pre) path) else None)"

definition is_descendant_of :: "entity_path \<Rightarrow> entity_path \<Rightarrow> bool" where
  "is_descendant_of path other \<longleftrightarrow> length other < length path \<and> list_all (\<lambda>(a, b). a = b) (zip path other)"

definition is_child_of :: "entity_path \<Rightarrow> entity_path \<Rightarrow> bool" where
  "is_child_of path other \<longleftrightarrow> length other + 1 = length path \<and> list_all (\<lambda>(a, b). a = b) (zip path other)"

definition path_parent :: "entity_path \<Rightarrow> entity_path option" where
  "path_parent path = (if path = [] then None else Some (take (length path - 1) path))"

definition path_join :: "entity_path \<Rightarrow> entity_path \<Rightarrow> entity_path" where
  "path_join path other = path @ other"

definition incremental_walk :: "entity_path option \<Rightarrow> entity_path \<Rightarrow> entity_path list" where
  "incremental_walk start end0 =
     (if case start of None \<Rightarrow> True | Some start \<Rightarrow> is_descendant_of end0 start
      then map (\<lambda>i. take i end0) [(case start of None \<Rightarrow> 0 | Some start \<Rightarrow> length start + 1)..<length end0 + 1]
      else [])"

fun common_ancestor :: "entity_path \<Rightarrow> entity_path \<Rightarrow> entity_path" where
  "common_ancestor (a # path) (b # other) = (if a = b then a # common_ancestor path other else [])"
| "common_ancestor _ _ = []"

definition common_ancestor_of :: "entity_path list \<Rightarrow> entity_path" where
  "common_ancestor_of entities = (case entities of [] \<Rightarrow> [] | e # es \<Rightarrow> foldl common_ancestor e es)"

lemma all_zip_prefix: "length pre \<le> length path \<Longrightarrow> list_all (\<lambda>(a, b). a = b) (zip path pre) \<longleftrightarrow> prefix pre path"
proof (induction pre arbitrary: path)
  case (Cons a pre)
  then show ?case by (cases path) auto
qed simp

lemma path_starts_with_prefix: "path_starts_with path pre \<longleftrightarrow> prefix pre path"
  using all_zip_prefix [of pre path] prefix_length_le by (auto simp: path_starts_with_def)

lemma is_descendant_of_strict: "is_descendant_of path other \<longleftrightarrow> strict_prefix other path"
proof (cases "length other < length path")
  case True
  then show ?thesis using all_zip_prefix [of other path] by (auto simp: is_descendant_of_def strict_prefix_def)
next
  case False
  then show ?thesis using prefix_length_less [of other path] by (auto simp: is_descendant_of_def)
qed

end
