(* ===== verification/Path_Roundtrip.thy ===== *)
theory Path_Roundtrip
  imports Entity_Path
begin

text \<open>
  Printing and parsing entity paths: what \<open>Display\<close> prints is tokenised at the slashes between the parts
  and read back by both parsers, as long as no character needs an escape of more than four digits and
  no part but the last ends in a backslash; what happens otherwise.
\<close>

section \<open>Escapes of four digits\<close>

definition hex_chars :: "ustr \<Rightarrow> bool" where
  "hex_chars s = list_all (\<lambda>c. (48 \<le> c \<and> c \<le> 57) \<or> (65 \<le> c \<and> c \<le> 70)) s"

lemma hex_chars_to_hex: "hex_chars (to_hex n)"
proof (induction n rule: to_hex.induct)
  case (1 n)
  have d: "d < 16 \<Longrightarrow> hex_chars [hex_digit d]" for d by (auto simp: hex_chars_def hex_digit_def)
  show ?case
  proof (cases "n < 16")
    case True
    then show ?thesis using d [of n] by (simp add: to_hex.simps [of n])
  next
    case False
    then show ?thesis using 1 d [of "n mod 16"] by (simp add: to_hex.simps [of n] hex_chars_def)
  qed
qed

lemma hex_chars_hex4: "hex_chars (hex4 n)"
  using hex_chars_to_hex [of n] by (auto simp: hex4_def hex_chars_def list_all_iff)

lemma hex4_digits:
  assumes "n < 65536"
  shows "hex4 n = map hex_digit [n div 4096, n div 256 mod 16, n div 16 mod 16, n mod 16]"
proof -
  have steps: "n div 16 div 16 = n div 256" "n div 256 div 16 = n div 4096" by (simp_all add: div_mult2_eq [symmetric])
  consider "n < 16" | "16 \<le> n" "n < 256" | "256 \<le> n" "n < 4096" | "4096 \<le> n" by linarith
  then show ?thesis
  proof cases
    case 1
    then show ?thesis by (simp add: hex4_def to_hex.simps [of n] hex_digit_def numeral_3_eq_3)
  next
    case 2
    then have "n div 16 < 16" by simp
    with 2 show ?thesis
      by (simp add: hex4_def to_hex.simps [of n] to_hex.simps [of "n div 16"] hex_digit_def numeral_2_eq_2)
  next
    case 3
    then have "n div 256 < 16" "\<not> n div 16 < 16" by simp_all
    with 3 show ?thesis
      by (simp add: hex4_def to_hex.simps [of n] to_hex.simps [of "n div 16"] to_hex.simps [of "n div 256"]
          steps hex_digit_def)
  next
    case 4
    then have "n div 4096 < 16" "\<not> n div 256 < 16" "\<not> n div 16 < 16" using assms by simp_all
    with 4 show ?thesis
      by (simp add: hex4_def to_hex.simps [of n] to_hex.simps [of "n div 16"] to_hex.simps [of "n div 256"]
          to_hex.simps [of "n div 4096"] steps)
  qed
qed

lemma to_digit_hex [simp]: "d < 16 \<Longrightarrow> to_digit 16 (hex_digit d) = Some d"
  by (auto simp: to_digit_def hex_digit_def)

lemma hex_digit_not_plus [simp]: "hex_digit d \<noteq> 43" "hex_digit d \<noteq> 125" if "d < 16" for d
  using that by (auto simp: hex_digit_def)

lemma utf8_len_hex [simp]: "d < 16 \<Longrightarrow> utf8_len (hex_digit d) = Suc 0"
  by (auto simp: utf8_len_def hex_digit_def)

lemma from_str_radix_hex4:
  assumes "n < 65536"
  shows "from_str_radix 32 16 (hex4 n) = Some n"
proof -
  have "n div 256 div 16 = n div 4096" "n div 16 div 16 = n div 256" by (simp_all add: div_mult2_eq [symmetric])
  then have "n div 4096 * 16 + n div 256 mod 16 = n div 256" "n div 256 * 16 + n div 16 mod 16 = n div 16"
    using div_mult_mod_eq [of "n div 256" 16] div_mult_mod_eq [of "n div 16" 16] by simp_all
  moreover have "n div 16 * 16 + n mod 16 = n" by simp
  moreover have "n div 4096 < 16" using assms by simp
  ultimately show ?thesis using assms
    by (simp add: hex4_digits [OF assms] from_str_radix_def digits_value_def del: div_mult_self_is_m)
qed

lemma parse_unicode_escape_hex4:
  assumes "n < 65536" "is_scalar n"
  shows "parse_unicode_escape (BRACE_OPEN # hex4 n @ BRACE_CLOSE # s) = (Inr n, s)"
proof -
  have "n div 4096 < 16" using assms(1) by simp
  then have "take_escape 0 (BRACE_OPEN # hex4 n @ BRACE_CLOSE # s) = (BRACE_OPEN # hex4 n @ [BRACE_CLOSE], s)"
    and "utf8_length (hex4 n) = 4"
    by (simp_all add: hex4_digits [OF assms(1)] utf8_length_def) (simp add: utf8_len_def)
  then show ?thesis
    using from_str_radix_hex4 [OF assms(1)] assms(2) by (simp add: parse_unicode_escape_def butlast_append)
qed

section \<open>One character\<close>

definition printable_char :: "unicode \<Rightarrow> uchar \<Rightarrow> bool" where
  "printable_char U c \<longleftrightarrow> is_scalar c \<and> (print_as_is U c \<or> c < 65536)"

lemma not_printed_as_is:
  assumes "unicode_laws U" "is_ascii_punctuation c" "c \<notin> {95, 45, 46}"
  shows "\<not> print_as_is U c"
  using assms by (auto simp: unicode_laws_def is_ascii_punctuation_def print_as_is_def ascii_alphanumeric_def)

lemma part_parse_strict_Nil [simp]: "part_parse_strict U [] = Inr []"
  by (simp add: part_parse_strict.simps)

lemma part_parse_strict_char:
  assumes "unicode_laws U" "printable_char U c"
  shows "part_parse_strict U (escape_char U c @ s) = map_sum id ((#) c) (part_parse_strict U s)"
proof -
  have nb: "\<not> print_as_is U BACKSLASH"
    using assms(1) by (intro not_printed_as_is) (simp_all add: is_ascii_punctuation_def)
  show ?thesis
  proof (cases "print_as_is U c \<or> c \<in> {10, 13, 9} \<or> is_ascii_punctuation c \<or> c = SPACE")
    case True
    then show ?thesis using nb
      by (subst part_parse_strict.simps) (auto simp: escape_char_def is_ascii_punctuation_def)
  next
    case False
    then have "escape_char U c = [BACKSLASH, 117, BRACE_OPEN] @ hex4 c @ [BRACE_CLOSE]" "c < 65536" "is_scalar c"
      using assms(2) by (simp_all add: escape_char_def printable_char_def)
    then show ?thesis
      using parse_unicode_escape_hex4 [of c s] by (subst part_parse_strict.simps) simp
  qed
qed

lemma part_parse_forgiving_char:
  assumes "unicode_laws U" "printable_char U c"
  shows "part_parse_forgiving (escape_char U c @ s) = c # part_parse_forgiving s"
proof -
  have nb: "\<not> print_as_is U BACKSLASH"
    using assms(1) by (intro not_printed_as_is) (simp_all add: is_ascii_punctuation_def)
  show ?thesis
  proof (cases "print_as_is U c \<or> c \<in> {10, 13, 9} \<or> is_ascii_punctuation c \<or> c = SPACE")
    case True
    then show ?thesis using nb
      by (subst part_parse_forgiving.simps) (auto simp: escape_char_def is_ascii_punctuation_def)
  next
    case False
    then have "escape_char U c = [BACKSLASH, 117, BRACE_OPEN] @ hex4 c @ [BRACE_CLOSE]" "c < 65536" "is_scalar c"
      using assms(2) by (simp_all add: escape_char_def printable_char_def)
    then show ?thesis
      using parse_unicode_escape_hex4 [of c s] by (subst part_parse_forgiving.simps) simp
  qed
qed

section \<open>One part\<close>

lemma escaped_string_simps [simp]:
  "escaped_string U [] = []" "escaped_string U (c # cs) = escape_char U c @ escaped_string U cs"
  "escaped_string U (xs @ ys) = escaped_string U xs @ escaped_string U ys"
  by (simp_all add: escaped_string_def)

lemma part_parse_strict_prefix:
  assumes "unicode_laws U" "list_all (printable_char U) part"
  shows "part_parse_strict U (escaped_string U part @ s) = map_sum id ((@) part) (part_parse_strict U s)"
  using assms(2)
proof (induction part)
  case Nil
  then show ?case by (cases "part_parse_strict U s") simp_all
next
  case (Cons c part)
  then show ?case
    using part_parse_strict_char [OF assms(1), of c "escaped_string U part @ s"]
    by (cases "part_parse_strict U s") simp_all
qed

lemma part_parse_forgiving_prefix:
  assumes "unicode_laws U" "list_all (printable_char U) part"
  shows "part_parse_forgiving (escaped_string U part @ s) = part @ part_parse_forgiving s"
  using assms(2)
  by (induction part) (simp_all add: part_parse_forgiving_char [OF assms(1)])

lemma part_parse_forgiving_Nil [simp]: "part_parse_forgiving [] = []"
  by (simp add: part_parse_forgiving.simps)

lemma part_roundtrip:
  assumes "unicode_laws U" "list_all (printable_char U) part"
  shows "part_parse_strict U (escaped_string U part) = Inr part" "part_parse_forgiving (escaped_string U part) = part"
  using part_parse_strict_prefix [OF assms, of "[]"] part_parse_forgiving_prefix [OF assms, of "[]"] by simp_all

section \<open>Tokens\<close>

definition path_specials :: "uchar list \<Rightarrow> bool" where
  "path_specials sp \<longleftrightarrow> SLASH \<in> set sp \<and> set sp \<subseteq> {SLASH, BRACKET_OPEN, BRACKET_CLOSE, COLON, HASH}"

lemma specials_facts:
  assumes "path_specials sp"
  shows "SLASH \<in> set sp" "BACKSLASH \<notin> set sp" "BRACE_OPEN \<notin> set sp" "BRACE_CLOSE \<notin> set sp"
    "(48 \<le> c \<and> c \<le> 57) \<or> (65 \<le> c \<and> c \<le> 70) \<Longrightarrow> c \<notin> set sp"
  using assms by (auto simp: path_specials_def)

lemma print_as_is_not_special:
  assumes "unicode_laws U" "path_specials sp" "print_as_is U c"
  shows "c \<notin> set sp" "c \<noteq> BACKSLASH"
proof -
  have "is_ascii_punctuation c \<Longrightarrow> c \<notin> {95, 45, 46} \<Longrightarrow> False" using not_printed_as_is assms(1, 3) by blast
  then show "c \<notin> set sp" "c \<noteq> BACKSLASH"
    using assms(2) by (auto simp: path_specials_def is_ascii_punctuation_def)
qed

lemma scan_token_hex:
  assumes "path_specials sp" "hex_chars ds"
  shows "scan_token sp False (ds @ BRACE_CLOSE # s) = apfst ((@) (ds @ [BRACE_CLOSE])) (scan_token sp False s)"
  using assms(2)
proof (induction ds)
  case Nil
  then show ?case using specials_facts [OF assms(1)] by (simp add: apfst_def map_prod_def)
next
  case (Cons d ds)
  then have "d \<notin> set sp" "d \<noteq> BACKSLASH" using specials_facts(5) [OF assms(1)] by (auto simp: hex_chars_def)
  then show ?case using Cons by (cases "scan_token sp False s") (simp add: hex_chars_def)
qed

lemma scan_token_char:
  assumes "unicode_laws U" "path_specials sp"
  shows "scan_token sp e (escape_char U c @ s) = apfst ((@) (escape_char U c)) (scan_token sp (c = BACKSLASH) s)"
proof -
  note specials_facts [OF assms(2), simp]
  consider (as_is) "print_as_is U c" | (esc) d where "escape_char U c = [BACKSLASH, d]" "(d = BACKSLASH) = (c = BACKSLASH)"
    | (hex) "escape_char U c = [BACKSLASH, 117, BRACE_OPEN] @ hex4 c @ [BRACE_CLOSE]" "c \<noteq> BACKSLASH"
  proof -
    have "is_ascii_punctuation BACKSLASH" by (simp add: is_ascii_punctuation_def)
    moreover have "\<exists>d. escape_char U c = [BACKSLASH, d] \<and> (d = BACKSLASH) = (c = BACKSLASH)"
      if "\<not> print_as_is U c" "c \<in> {10, 13, 9} \<or> is_ascii_punctuation c \<or> c = SPACE"
      using that by (cases "c \<in> {10, 13, 9}") (auto simp: escape_char_def)
    moreover have "escape_char U c = [BACKSLASH, 117, BRACE_OPEN] @ hex4 c @ [BRACE_CLOSE]"
      if "\<not> print_as_is U c" "\<not> (c \<in> {10, 13, 9} \<or> is_ascii_punctuation c \<or> c = SPACE)"
      using that by (simp add: escape_char_def)
    ultimately show thesis using as_is esc hex by blast
  qed
  then show ?thesis
  proof cases
    case as_is
    then show ?thesis using print_as_is_not_special [OF assms as_is] by (cases "scan_token sp False s") (simp add: escape_char_def)
  next
    case esc
    then show ?thesis by (cases "scan_token sp (c = BACKSLASH) s") simp
  next
    case hex
    then show ?thesis
      using scan_token_hex [OF assms(2) hex_chars_hex4, of c s] by (cases "scan_token sp False s") simp
  qed
qed

lemma scan_token_part:
  assumes "unicode_laws U" "path_specials sp"
  shows "scan_token sp e (escaped_string U part @ s)
    = apfst ((@) (escaped_string U part)) (scan_token sp (if part = [] then e else last part = BACKSLASH) s)"
proof (induction part arbitrary: e)
  case Nil
  then show ?case by (simp add: apfst_def map_prod_def)
next
  case (Cons c part)
  show ?case
    using Cons [of "c = BACKSLASH"] scan_token_char [OF assms, of e c "escaped_string U part @ s"]
    by (cases "part = []"; cases "scan_token sp (last (c # part) = BACKSLASH) s") simp_all
qed

lemma escape_char_nonempty [simp]: "escape_char U c \<noteq> []"
  by (simp add: escape_char_def)

lemma escaped_string_Nil_iff [simp]: "escaped_string U part = [] \<longleftrightarrow> part = []"
  by (cases part) simp_all

lemma tokenize_by_Nil [simp]: "tokenize_by sp [] = []"
  by (simp add: tokenize_by.simps)

lemma tokenize_by_slash: "path_specials sp \<Longrightarrow> tokenize_by sp (SLASH # s) = [SLASH] # tokenize_by sp s"
  by (subst tokenize_by.simps) (simp add: path_specials_def)

lemma tokenize_by_part:
  assumes "unicode_laws U" "path_specials sp" "part \<noteq> []" "s = [] \<or> last part \<noteq> BACKSLASH \<and> (\<exists>s'. s = SLASH # s')"
  shows "tokenize_by sp (escaped_string U part @ s) = escaped_string U part # tokenize_by sp s"
proof -
  have "scan_token sp False (escaped_string U part @ s) = (escaped_string U part, s)"
    using scan_token_part [OF assms(1, 2), of False part s] assms(3, 4) specials_facts(1) [OF assms(2)] by auto
  moreover obtain c cs where "escaped_string U part @ s = c # cs" using assms(3) by (cases "escaped_string U part @ s") auto
  ultimately show ?thesis using assms(3) by (subst tokenize_by.simps) simp
qed

text \<open>The tokens between the slashes: a part that ends in a backslash is glued to the part that follows it.\<close>

fun glued :: "unicode \<Rightarrow> entity_path \<Rightarrow> ustr list" where
  "glued U [] = []"
| "glued U [part] = [escaped_string U part]"
| "glued U (part # next # path) =
     (if last part = BACKSLASH
      then (escaped_string U part @ SLASH # hd (glued U (next # path))) # tl (glued U (next # path))
      else escaped_string U part # glued U (next # path))"

definition with_slashes :: "ustr list \<Rightarrow> ustr list" where
  "with_slashes ts = concat (map (\<lambda>t. [[SLASH], t]) ts)"

definition printed :: "unicode \<Rightarrow> entity_path \<Rightarrow> ustr" where
  "printed U path = concat (map (\<lambda>part. SLASH # escaped_string U part) path)"

lemma with_slashes_simps [simp]:
  "with_slashes [] = []" "with_slashes (t # ts) = [SLASH] # t # with_slashes ts"
  by (simp_all add: with_slashes_def)

lemma printed_simps [simp]: "printed U [] = []" "printed U (part # path) = SLASH # escaped_string U part @ printed U path"
  by (simp_all add: printed_def)

lemma glued_nonempty [simp]: "glued U (part # path) \<noteq> []"
  by (cases path) simp_all

definition token_ok :: "ustr \<Rightarrow> bool" where
  "token_ok t \<longleftrightarrow> t \<noteq> [] \<and> (\<forall>x \<in> {SLASH, BRACKET_OPEN, COLON}. t \<noteq> [x])"

lemma escaped_token_ok:
  assumes "unicode_laws U" "part \<noteq> []"
  shows "token_ok (escaped_string U part)"
proof -
  have sp: "path_specials [SLASH, BRACKET_OPEN, BRACKET_CLOSE, COLON, HASH]" by (simp add: path_specials_def)
  have "escaped_string U part \<noteq> [x]" if "x \<in> {SLASH, BRACKET_OPEN, COLON}" for x
  proof
    assume e: "escaped_string U part = [x]"
    obtain c cs where p: "part = c # cs" using assms(2) by (cases part) auto
    then have "escape_char U c = [x]" using e by (cases "escape_char U c") (auto simp: append_eq_Cons_conv)
    then have "print_as_is U c" "c = x" by (auto simp: escape_char_def split: if_splits)
    then show False using print_as_is_not_special(1) [OF assms(1) sp] that by auto
  qed
  then show ?thesis using assms(2) by (auto simp: token_ok_def)
qed

lemma glued_tokens_ok:
  assumes "unicode_laws U" "list_all (\<lambda>part. part \<noteq> []) path"
  shows "list_all token_ok (glued U path)"
  using assms
proof (induction U path rule: glued.induct)
  case (3 U part "next" path)
  obtain t ts where g: "glued U (next # path) = t # ts" by (cases "glued U (next # path)") auto
  have "escaped_string U part \<noteq> []" using "3.prems"(2) by simp
  then have "token_ok (escaped_string U part @ SLASH # t)"
    by (cases "escaped_string U part") (auto simp: token_ok_def)
  then show ?case using 3 g escaped_token_ok [OF "3.prems"(1)] by (cases "last part = BACKSLASH") auto
qed (auto simp: escaped_token_ok)

lemma tokenize_scanned:
  assumes "s \<noteq> []" "fst (scan_token sp False s) \<noteq> []"
  shows "tokenize_by sp s = fst (scan_token sp False s) # tokenize_by sp (snd (scan_token sp False s))"
proof -
  obtain c cs where "s = c # cs" using assms(1) by (cases s) auto
  then show ?thesis using assms(2) by (subst tokenize_by.simps) (simp add: case_prod_beta)
qed

lemma tokenize_printed:
  assumes "unicode_laws U" "path_specials sp" "list_all (\<lambda>part. part \<noteq> []) path"
  shows "tokenize_by sp (printed U path) = with_slashes (glued U path)"
  using assms(1, 3)
proof (induction U path rule: glued.induct)
  case (2 U part)
  then show ?case
    using tokenize_by_slash [OF assms(2)] tokenize_by_part [OF "2.prems"(1) assms(2), of part "[]"] by simp
next
  case (3 U part "next" path)
  let ?x = "escaped_string U next @ printed U path" and ?s = "escaped_string U part @ printed U (next # path)"
  obtain t ts where g: "glued U (next # path) = t # ts" by (cases "glued U (next # path)") auto
  show ?case
  proof (cases "last part = BACKSLASH")
    case True
    have "tokenize_by sp ?x = t # with_slashes ts" using 3 True g tokenize_by_slash [OF assms(2), of ?x] by simp
    moreover have "fst (scan_token sp False ?x) \<noteq> []"
      using scan_token_part [OF "3.prems"(1) assms(2), of False "next" "printed U path"] "3.prems"(2) by simp
    ultimately have "fst (scan_token sp False ?x) = t" "tokenize_by sp (snd (scan_token sp False ?x)) = with_slashes ts"
      using tokenize_scanned [of ?x sp] "3.prems"(2) by simp_all
    moreover have "scan_token sp False ?s = apfst (\<lambda>u. escaped_string U part @ SLASH # u) (scan_token sp False ?x)"
      using scan_token_part [OF "3.prems"(1) assms(2), of False part "printed U (next # path)"] "3.prems"(2) True
      by (cases "scan_token sp False ?x") simp
    ultimately have "tokenize_by sp ?s = (escaped_string U part @ SLASH # t) # with_slashes ts"
      using tokenize_scanned [of ?s sp] by simp
    then show ?thesis using True g tokenize_by_slash [OF assms(2), of ?s] by simp
  next
    case False
    then show ?thesis
      using 3 tokenize_by_slash [OF assms(2)] tokenize_by_part [OF "3.prems"(1) assms(2), of part "printed U (next # path)"] by simp
  qed
qed simp

section \<open>Parsing what was printed\<close>

lemma split_at_token_absent: "t \<notin> set tokens \<Longrightarrow> split_at_token t tokens = (tokens, None)"
proof -
  assume "t \<notin> set tokens"
  then have "takeWhile (\<lambda>x. x \<noteq> t) tokens = tokens" by (auto simp: takeWhile_eq_all_conv)
  then show ?thesis by (simp only: split_at_token_def Let_def less_irrefl if_False)
qed

lemma parse_strict_tokens:
  assumes "s \<noteq> []" "[COLON] \<notin> set (tokenize_data_path s)" "[BRACKET_OPEN] \<notin> set (tokenize_data_path s)"
  shows "parse_strict U s = entity_path_parts_from_tokens_strict U (tokenize_data_path s)"
  using assms
  by (cases "entity_path_parts_from_tokens_strict U (tokenize_data_path s)")
    (simp_all add: parse_strict_def data_path_from_str_def split_at_token_absent)

fun parse_all :: "unicode \<Rightarrow> ustr list \<Rightarrow> PathParseError + ustr list" where
  "parse_all U [] = Inr []"
| "parse_all U (t # ts) =
     (case part_parse_strict U t of Inl e \<Rightarrow> Inl e | Inr part \<Rightarrow> map_sum id ((#) part) (parse_all U ts))"

lemma parts_loop_parse_all:
  assumes "list_all token_ok (t # ts)"
  shows "parts_loop U t (with_slashes ts) = parse_all U (t # ts)"
  using assms
proof (induction ts arbitrary: t)
  case Nil
  then show ?case by (simp add: parts_loop.simps token_ok_def split: sum.splits)
next
  case (Cons t' ts)
  then show ?case by (subst parts_loop.simps) (auto simp: token_ok_def split: sum.splits)
qed

lemma parse_strict_printed:
  assumes "unicode_laws U" "list_all (\<lambda>part. part \<noteq> []) path"
  shows "parse_strict U (path_to_string U path) = parse_all U (glued U path)"
proof (cases path)
  case Nil
  have "tokenize_data_path [SLASH] = [[SLASH]]"
    using tokenize_by_slash [of "[SLASH, BRACKET_OPEN, BRACKET_CLOSE, COLON, HASH]" "[]"]
    by (simp add: tokenize_data_path_def path_specials_def)
  then show ?thesis
    using parse_strict_tokens [of "[SLASH]" U] Nil by (simp add: path_to_string_def entity_path_parts_from_tokens_strict_def)
next
  case (Cons part rest)
  obtain t ts where g: "glued U path = t # ts" using Cons by (cases "glued U path") auto
  have ok: "list_all token_ok (t # ts)" using glued_tokens_ok [OF assms] g by simp
  have "tokenize_data_path (path_to_string U path) = with_slashes (t # ts)"
    using tokenize_printed [OF assms(1) _ assms(2), of "[SLASH, BRACKET_OPEN, BRACKET_CLOSE, COLON, HASH]"] g Cons
    by (simp add: tokenize_data_path_def path_specials_def path_to_string_def printed_def)
  moreover have "[COLON] \<notin> set (with_slashes (t # ts))" "[BRACKET_OPEN] \<notin> set (with_slashes (t # ts))"
    using ok by (auto simp: with_slashes_def token_ok_def list_all_iff)
  ultimately show ?thesis
    using parse_strict_tokens [of "path_to_string U path" U] parts_loop_parse_all [OF ok, of U] g Cons
    by (simp add: path_to_string_def entity_path_parts_from_tokens_strict_def)
qed

lemma parse_forgiving_printed:
  assumes "unicode_laws U" "list_all (\<lambda>part. part \<noteq> []) path"
  shows "parse_forgiving (path_to_string U path) = map part_parse_forgiving (glued U path)"
proof -
  have sp: "path_specials [SLASH]" by (simp add: path_specials_def)
  have "filter (\<lambda>t. t \<noteq> [SLASH]) (with_slashes ts) = ts" if "list_all token_ok ts" for ts
    using that by (induction ts) (auto simp: token_ok_def)
  then show ?thesis
    using tokenize_printed [OF assms(1) sp assms(2)] glued_tokens_ok [OF assms] tokenize_by_slash [OF sp, of "[]"]
    by (cases path) (simp_all add: parse_forgiving_def tokenize_entity_path_def path_to_string_def printed_def)
qed

section \<open>What is not read back\<close>

lemma to_hex_nonempty [simp]: "to_hex n \<noteq> []"
  by (subst to_hex.simps) simp

lemma length_to_hex: "16 ^ k \<le> n \<Longrightarrow> k < length (to_hex n)"
proof (induction k arbitrary: n)
  case (Suc k)
  then have "16 ^ k \<le> n div 16" by (simp add: less_eq_div_iff_mult_less_eq)
  moreover have "16 * 1 \<le> 16 * (16 :: nat) ^ k" by (rule mult_le_mono2) simp
  moreover from this have "\<not> n < 16" using Suc.prems unfolding power_Suc by linarith
  ultimately show ?case using Suc.IH [of "n div 16"] by (simp add: to_hex.simps [of n])
qed simp

lemma take_escape_hex:
  assumes "hex_chars ds" "ds \<noteq> []" "n + length ds = 6"
  shows "take_escape n (ds @ s) = (ds, s)"
  using assms
proof (induction ds arbitrary: n)
  case (Cons d ds)
  then have d: "d \<noteq> BRACE_CLOSE" "utf8_len d = 1" "hex_chars ds" by (auto simp: hex_chars_def utf8_len_def)
  then show ?case using Cons.IH [of "n + 1"] Cons.prems(3) by (cases "ds = []") auto
qed simp

lemma long_escape_rejected:
  assumes "65536 \<le> c"
  obtains t rest where "parse_unicode_escape (BRACE_OPEN # hex4 c @ s) = (Inl (BRACE_OPEN # t), rest)"
proof -
  have len: "5 \<le> length (hex4 c)" using length_to_hex [of 4 c] assms by (simp add: hex4_def)
  have hex: "hex_chars (take 5 (hex4 c))"
    using hex_chars_hex4 [of c] by (auto simp: hex_chars_def list_all_iff dest: in_set_takeD)
  have ne: "take 5 (hex4 c) \<noteq> []" using len by auto
  have "take_escape 1 (take 5 (hex4 c) @ drop 5 (hex4 c) @ s) = (take 5 (hex4 c), drop 5 (hex4 c) @ s)"
    using len ne by (intro take_escape_hex [OF hex]) simp_all
  then have "take_escape 0 (BRACE_OPEN # hex4 c @ s) = (BRACE_OPEN # take 5 (hex4 c), drop 5 (hex4 c) @ s)"
    unfolding append_assoc [symmetric] append_take_drop_id by (simp add: utf8_len_def)
  moreover have "last (take 5 (hex4 c)) \<noteq> BRACE_CLOSE"
    using last_in_set [OF ne] hex by (auto simp: hex_chars_def list_all_iff)
  ultimately show thesis using that ne by (simp add: parse_unicode_escape_def)
qed

lemma unprintable_part:
  assumes "unicode_laws U" "list_all is_scalar part" "\<not> list_all (printable_char U) part"
  shows "part_parse_strict U (escaped_string U part) \<noteq> Inr part" "part_parse_forgiving (escaped_string U part) \<noteq> part"
proof -
  obtain pre c post where part: "part = pre @ c # post" "\<not> printable_char U c" "list_all (printable_char U) pre"
    using split_list_first_prop [of part "\<lambda>c. \<not> printable_char U c"] assms(3) by (auto simp: list_all_iff)
  have c: "65536 \<le> c" "\<not> print_as_is U c" using part(1, 2) assms(2) by (simp_all add: printable_char_def)
  then have esc: "escape_char U c = [BACKSLASH, 117, BRACE_OPEN] @ hex4 c @ [BRACE_CLOSE]"
    by (simp add: escape_char_def is_ascii_punctuation_def)
  let ?s = "BRACE_CLOSE # escaped_string U post"
  obtain t rest where e: "parse_unicode_escape (BRACE_OPEN # hex4 c @ ?s) = (Inl (BRACE_OPEN # t), rest)"
    using long_escape_rejected [OF c(1)] .
  have "part_parse_strict U (escape_char U c @ escaped_string U post) = Inl (InvalidUnicodeEscape (BRACE_OPEN # t))"
    using e esc by (subst part_parse_strict.simps) simp
  then show "part_parse_strict U (escaped_string U part) \<noteq> Inr part"
    using part_parse_strict_prefix [OF assms(1) part(3), of "escape_char U c @ escaped_string U post"] part(1) by simp
  have "part_parse_forgiving (escape_char U c @ escaped_string U post)
      = BACKSLASH # 117 # BRACE_OPEN # t @ part_parse_forgiving rest"
    using e esc by (subst part_parse_forgiving.simps) simp
  then show "part_parse_forgiving (escaped_string U part) \<noteq> part"
    using part_parse_forgiving_prefix [OF assms(1) part(3), of "escape_char U c @ escaped_string U post"] part(1) c(1) by auto
qed

lemma glued_split: "list_all (\<lambda>part. last part \<noteq> BACKSLASH) (butlast path) \<Longrightarrow> glued U path = map (escaped_string U) path"
  by (induction U path rule: glued.induct) auto

lemma length_glued: "length (glued U path) \<le> length path"
proof (induction U path rule: glued.induct)
  case (3 U part "next" path)
  have "glued U (next # path) \<noteq> []" by simp
  then show ?case using 3 by (cases "glued U (next # path)") (auto split: if_splits)
qed simp_all

lemma length_glued_less:
  "\<not> list_all (\<lambda>part. last part \<noteq> BACKSLASH) (butlast path) \<Longrightarrow> length (glued U path) < length path"
proof (induction U path rule: glued.induct)
  case (3 U part "next" path)
  have "glued U (next # path) \<noteq> []" by simp
  then show ?case
    using 3 length_glued [of U "next # path"]
    by (cases "glued U (next # path)"; cases "last part = BACKSLASH") auto
qed simp_all

lemma parse_all_Inr: "parse_all U ts = Inr path \<longleftrightarrow> list_all2 (\<lambda>t part. part_parse_strict U t = Inr part) ts path"
proof (induction ts arbitrary: path)
  case IH: (Cons t ts)
  show ?case
  proof (cases path)
    case (Cons part ps)
    then show ?thesis using IH.IH [of ps] by (cases "part_parse_strict U t"; cases "parse_all U ts") auto
  qed (cases "part_parse_strict U t"; cases "parse_all U ts"; simp)
qed auto

lemma parsed_parts:
  assumes "unicode_laws U" "\<forall>part \<in> set path. list_all is_scalar part"
  shows "(parse_all U (map (escaped_string U) path) = Inr path) = list_all (list_all (printable_char U)) path
    \<and> (map part_parse_forgiving (map (escaped_string U) path) = path) = list_all (list_all (printable_char U)) path"
  using assms(2)
proof (induction path)
  case (Cons part path)
  have "(part_parse_strict U (escaped_string U part) = Inr part) = list_all (printable_char U) part"
    "(part_parse_forgiving (escaped_string U part) = part) = list_all (printable_char U) part"
    using part_roundtrip [OF assms(1), of part] unprintable_part [OF assms(1), of part] Cons.prems by auto
  then show ?case using Cons by (simp add: parse_all_Inr del: parse_all.simps)
qed simp

definition printable_path :: "unicode \<Rightarrow> entity_path \<Rightarrow> bool" where
  "printable_path U path \<longleftrightarrow> list_all (list_all (printable_char U)) path
     \<and> list_all (\<lambda>part. last part \<noteq> BACKSLASH) (butlast path)"

text \<open>C24: A path of nonempty parts is read back from what \<open>Display\<close> prints, by the strict and by the forgiving
  parser, exactly when every character is printed as it is or escaped in four hexadecimal digits and no
  part before the last ends in a backslash. Otherwise the strict parser, documented to parse anything
  that \<open>to_string\<close> outputs, fails or returns another path: the escape of a character beyond the basic
  plane (an emoji) has more digits than \<open>parse_unicode_escape\<close> accepts, and an escaped backslash makes
  the tokenizer take the slash after it for an escaped one.\<close>

theorem entity_path_roundtrip:
  assumes "unicode_laws U" "list_all (\<lambda>part. part \<noteq> [] \<and> list_all is_scalar part) path"
  shows "(parse_strict U (path_to_string U path) = Inr path) = printable_path U path
    \<and> (parse_forgiving (path_to_string U path) = path) = printable_path U path"
proof -
  have ne: "list_all (\<lambda>part. part \<noteq> []) path" using assms(2) by (auto simp: list_all_iff)
  have sc: "\<forall>part \<in> set path. list_all is_scalar part" using assms(2) by (simp add: list_all_iff)
  note parsed = parse_strict_printed [OF assms(1) ne] parse_forgiving_printed [OF assms(1) ne]
  show ?thesis
  proof (cases "list_all (\<lambda>part. last part \<noteq> BACKSLASH) (butlast path)")
    case True
    then have "printable_path U path \<longleftrightarrow> list_all (list_all (printable_char U)) path" by (simp add: printable_path_def)
    then show ?thesis using parsed_parts [OF assms(1) sc] glued_split [OF True, of U] by (simp only: parsed)
  next
    case False
    have len: "length (glued U path) < length path" by (rule length_glued_less [OF False])
    have "parse_all U (glued U path) \<noteq> Inr path"
      using list_all2_lengthD [of _ "glued U path" path] len by (auto simp: parse_all_Inr)
    moreover have "map part_parse_forgiving (glued U path) \<noteq> path"
      using len length_map [of part_parse_forgiving "glued U path"] by (metis less_irrefl)
    ultimately show ?thesis using False by (simp add: parsed printable_path_def)
  qed
qed

theorem entity_path_roundtrip_witness:
  defines "U \<equiv> \<lparr>uc_alphanumeric = ascii_alphanumeric, uc_whitespace = \<lambda>c. c \<in> {9, 10, 13, 32}\<rparr>"
  shows "parse_strict U (path_to_string U [[97, 32], [9774, 98]]) = Inr [[97, 32], [9774, 98]]
    \<and> parse_strict U (path_to_string U [[128512]]) \<noteq> Inr [[128512]]
    \<and> parse_forgiving (path_to_string U [[97, 92], [98]]) \<noteq> [[97, 92], [98]]"
proof -
  have U: "unicode_laws U" by (simp add: U_def unicode_laws_def)
  have "printable_path U [[97, 32], [9774, 98]]" "\<not> printable_path U [[128512]]" "\<not> printable_path U [[97, 92], [98]]"
    by (simp_all add: printable_path_def printable_char_def is_scalar_def print_as_is_def U_def ascii_alphanumeric_def)
  then show ?thesis
    using entity_path_roundtrip [OF U, of "[[97, 32], [9774, 98]]"] entity_path_roundtrip [OF U, of "[[128512]]"]
      entity_path_roundtrip [OF U, of "[[97, 92], [98]]"]
    by (simp add: is_scalar_def)
qed

end
