(* ===== verification/Path_Filter.thy ===== *)
theory Path_Filter
  imports Entity_Path
begin

text \<open>
  Entity path filters (\<open>re_log_types/src/path/entity_path_filter.rs\<close>): the rules and their order, the
  parsing of filters, their resolution, and the queries and updates of resolved filters. A \<open>BTreeMap\<close> is an
  association list ordered by the comparison of its keys; the natural ordering of path parts, of the
  crate \<open>natord\<close>, is a parameter. The order of all rules and the preservation of it by every operation.
\<close>

section \<open>Comparisons and ordered maps\<close>

datatype Ordering = Less | Equal | Greater

fun ord_reverse :: "Ordering \<Rightarrow> Ordering" where
  "ord_reverse Less = Greater"
| "ord_reverse Equal = Equal"
| "ord_reverse Greater = Less"

text \<open>A new pair is put in its place; what becomes of a pair with an equal key is a parameter: \<open>insert\<close>
  keeps the key that is there, \<open>entry(k).or_insert(v)\<close> the value as well; \<open>collect\<close> keeps the last of the
  pairs with equal keys.\<close>

fun bm_upsert ::
  "('k \<Rightarrow> 'k \<Rightarrow> Ordering) \<Rightarrow> ('k \<times> 'v \<Rightarrow> 'k \<times> 'v) \<Rightarrow> 'k \<Rightarrow> 'v \<Rightarrow> ('k \<times> 'v) list \<Rightarrow> ('k \<times> 'v) list" where
  "bm_upsert c f k v [] = [(k, v)]"
| "bm_upsert c f k v (kv # m) =
     (case c k (fst kv) of
        Less \<Rightarrow> (k, v) # kv # m | Equal \<Rightarrow> f kv # m | Greater \<Rightarrow> kv # bm_upsert c f k v m)"

definition bm_insert :: "('k \<Rightarrow> 'k \<Rightarrow> Ordering) \<Rightarrow> 'k \<Rightarrow> 'v \<Rightarrow> ('k \<times> 'v) list \<Rightarrow> ('k \<times> 'v) list" where
  "bm_insert c k v m = bm_upsert c (\<lambda>kv. (fst kv, v)) k v m"

definition bm_or_insert :: "('k \<Rightarrow> 'k \<Rightarrow> Ordering) \<Rightarrow> 'k \<Rightarrow> 'v \<Rightarrow> ('k \<times> 'v) list \<Rightarrow> ('k \<times> 'v) list" where
  "bm_or_insert c k v m = bm_upsert c (\<lambda>kv. kv) k v m"

definition bm_put :: "('k \<Rightarrow> 'k \<Rightarrow> Ordering) \<Rightarrow> 'k \<Rightarrow> 'v \<Rightarrow> ('k \<times> 'v) list \<Rightarrow> ('k \<times> 'v) list" where
  "bm_put c k v m = bm_upsert c (\<lambda>_. (k, v)) k v m"

definition bm_collect :: "('k \<Rightarrow> 'k \<Rightarrow> Ordering) \<Rightarrow> ('k \<times> 'v) list \<Rightarrow> ('k \<times> 'v) list" where
  "bm_collect c kvs = foldl (\<lambda>m (k, v). bm_put c k v m) [] kvs"

definition bm_extend :: "('k \<Rightarrow> 'k \<Rightarrow> Ordering) \<Rightarrow> ('k \<times> 'v) list \<Rightarrow> ('k \<times> 'v) list \<Rightarrow> ('k \<times> 'v) list" where
  "bm_extend c m kvs = foldl (\<lambda>m (k, v). bm_insert c k v m) m kvs"

definition bm_wf :: "('k \<Rightarrow> 'k \<Rightarrow> Ordering) \<Rightarrow> ('k \<times> 'v) list \<Rightarrow> bool" where
  "bm_wf c m = sorted_wrt (\<lambda>a b. c (fst a) (fst b) = Less) m"

section \<open>Strings\<close>

text \<open>The order of strings is that of their bytes, which is that of their characters.\<close>

fun str_cmp :: "ustr \<Rightarrow> ustr \<Rightarrow> Ordering" where
  "str_cmp [] [] = Equal"
| "str_cmp [] (b # t) = Less"
| "str_cmp (a # s) [] = Greater"
| "str_cmp (a # s) (b # t) = (if a < b then Less else if b < a then Greater else str_cmp s t)"

definition trim :: "unicode \<Rightarrow> ustr \<Rightarrow> ustr" where
  "trim U s = rev (dropWhile (uc_whitespace U) (rev (dropWhile (uc_whitespace U) s)))"

definition ends_with :: "ustr \<Rightarrow> ustr \<Rightarrow> bool" where
  "ends_with s suf \<longleftrightarrow> length suf \<le> length s \<and> drop (length s - length suf) s = suf"

definition is_ascii_whitespace :: "uchar \<Rightarrow> bool" where
  "is_ascii_whitespace c \<longleftrightarrow> c \<in> {9, 10, 12, 13, 32}"

text \<open>\<open>str::replace\<close>, for a pattern that is not empty.\<close>

function str_replace :: "ustr \<Rightarrow> ustr \<Rightarrow> ustr \<Rightarrow> ustr" where
  "str_replace pat rep s =
     (case s of
        [] \<Rightarrow> []
      | c # cs \<Rightarrow>
          if pat \<noteq> [] \<and> take (length pat) s = pat then rep @ str_replace pat rep (drop (length pat) s)
          else c # str_replace pat rep cs)"
  by pat_completeness auto
termination
proof (relation "measure (\<lambda>(_, _, s). length s)", goal_cases)
  case (2 pat rep s c cs)
  then show ?case by (cases pat) auto
qed auto

declare str_replace.simps [simp del]

section \<open>Rules\<close>

datatype RuleEffect = Include | Exclude

type_synonym EntityPathRule = ustr

record ResolvedEntityPathRule =
  rule :: EntityPathRule
  resolved_path :: entity_path

type_synonym EntityPathFilter = "(EntityPathRule \<times> RuleEffect) list"
type_synonym ResolvedEntityPathFilter = "(ResolvedEntityPathRule \<times> RuleEffect) list"

datatype EntityPathFilterError = FilterPathParseError PathParseError | UnresolvedSubstitution ustr

abbreviation STAR :: uchar where "STAR \<equiv> 42"
abbreviation PLUS :: uchar where "PLUS \<equiv> 43"
abbreviation MINUS :: uchar where "MINUS \<equiv> 45"
abbreviation DOLLAR :: uchar where "DOLLAR \<equiv> 36"

definition SUBTREE :: ustr where
  "SUBTREE = [SLASH, STAR, STAR]"

definition rule_new :: "unicode \<Rightarrow> ustr \<Rightarrow> EntityPathRule" where
  "rule_new U expression = trim U expression"

definition include_subtree :: "EntityPathRule \<Rightarrow> bool" where
  "include_subtree r = ends_with r SUBTREE"

definition rule_exact_entity :: "unicode \<Rightarrow> entity_path \<Rightarrow> EntityPathRule" where
  "rule_exact_entity U path = path_to_string U path"

definition rule_including_subtree :: "ustr \<Rightarrow> EntityPathRule" where
  "rule_including_subtree path_or_variable = path_or_variable @ SUBTREE"

definition including_entity_subtree :: "unicode \<Rightarrow> entity_path \<Rightarrow> EntityPathRule" where
  "including_entity_subtree U path = rule_including_subtree (path_to_string U path)"

definition rule_matches :: "ResolvedEntityPathRule \<Rightarrow> entity_path \<Rightarrow> bool" where
  "rule_matches r path =
     (if include_subtree (rule r) then path_starts_with path (resolved_path r) else path = resolved_path r)"

definition resolved_exact_entity :: "unicode \<Rightarrow> entity_path \<Rightarrow> ResolvedEntityPathRule" where
  "resolved_exact_entity U path = \<lparr>rule = rule_exact_entity U path, resolved_path = path\<rparr>"

definition resolved_including_subtree :: "unicode \<Rightarrow> entity_path \<Rightarrow> ResolvedEntityPathRule" where
  "resolved_including_subtree U path = \<lparr>rule = including_entity_subtree U path, resolved_path = path\<rparr>"

definition resolved_to_string :: "unicode \<Rightarrow> ResolvedEntityPathRule \<Rightarrow> ustr" where
  "resolved_to_string U r = path_to_string U (resolved_path r) @ (if resolved_path r = [] then [] else [SLASH])
     @ (if include_subtree (rule r) then [STAR, STAR] else [])"

text \<open>\<open>natural_ordering::compare\<close>: the algorithm is \<open>compare_iter\<close> of the crate natord, a parameter, with the
  characters that it skips (none), the order of characters without regard to case, and the digits.\<close>

definition to_ascii_lowercase :: "uchar \<Rightarrow> uchar" where
  "to_ascii_lowercase c = (if 65 \<le> c \<and> c \<le> 90 then c + 32 else c)"

definition char_cmp :: "uchar \<Rightarrow> uchar \<Rightarrow> Ordering" where
  "char_cmp a b = (if a < b then Less else if a = b then Equal else Greater)"

definition compare_chars :: "uchar \<Rightarrow> uchar \<Rightarrow> Ordering" where
  "compare_chars a b =
     (let al = to_ascii_lowercase a; bl = to_ascii_lowercase b in if al = bl then char_cmp a b else char_cmp al bl)"

definition natural_compare ::
  "(ustr \<Rightarrow> ustr \<Rightarrow> (uchar \<Rightarrow> bool) \<Rightarrow> (uchar \<Rightarrow> uchar \<Rightarrow> Ordering) \<Rightarrow> (uchar \<Rightarrow> nat option) \<Rightarrow> Ordering)
    \<Rightarrow> ustr \<Rightarrow> ustr \<Rightarrow> Ordering" where
  "natural_compare compare_iter a b = compare_iter a b (\<lambda>_. False) compare_chars (to_digit 10)"

text \<open>The order: parts by their natural order with the reserved ones last, paths part by part, rules by
  path with a subtree before the path alone. \<open>natural\<close> stands for \<open>natural_compare compare_iter\<close>.\<close>

definition is_reserved_part :: "ustr \<Rightarrow> bool" where
  "is_reserved_part part \<longleftrightarrow> take 2 part = [95, 95]"

definition part_cmp :: "(ustr \<Rightarrow> ustr \<Rightarrow> Ordering) \<Rightarrow> ustr \<Rightarrow> ustr \<Rightarrow> Ordering" where
  "part_cmp natural a b =
     (if \<not> is_reserved_part a \<and> is_reserved_part b then Less
      else if is_reserved_part a \<and> \<not> is_reserved_part b then Greater
      else natural a b)"

fun path_cmp :: "(ustr \<Rightarrow> ustr \<Rightarrow> Ordering) \<Rightarrow> entity_path \<Rightarrow> entity_path \<Rightarrow> Ordering" where
  "path_cmp natural [] [] = Equal"
| "path_cmp natural [] (b # other) = Less"
| "path_cmp natural (a # path) [] = Greater"
| "path_cmp natural (a # path) (b # other) =
     (case part_cmp natural a b of Equal \<Rightarrow> path_cmp natural path other | Less \<Rightarrow> Less | Greater \<Rightarrow> Greater)"

definition bool_cmp :: "bool \<Rightarrow> bool \<Rightarrow> Ordering" where
  "bool_cmp a b = (if a = b then Equal else if b then Less else Greater)"

definition rule_cmp ::
  "(ustr \<Rightarrow> ustr \<Rightarrow> Ordering) \<Rightarrow> ResolvedEntityPathRule \<Rightarrow> ResolvedEntityPathRule \<Rightarrow> Ordering" where
  "rule_cmp natural r s =
     (case path_cmp natural (resolved_path r) (resolved_path s) of
        Equal \<Rightarrow> bool_cmp (\<not> include_subtree (rule r)) (\<not> include_subtree (rule s))
      | Less \<Rightarrow> Less | Greater \<Rightarrow> Greater)"

definition rule_eq :: "ResolvedEntityPathRule \<Rightarrow> ResolvedEntityPathRule \<Rightarrow> bool" where
  "rule_eq r s \<longleftrightarrow> include_subtree (rule r) = include_subtree (rule s) \<and> resolved_path r = resolved_path s"

section \<open>Filters as text\<close>

text \<open>\<open>split_whitespace_smart\<close>: a token, the escape flag where it ends, and the rest; then the whitespace.\<close>

fun scan_rule :: "bool \<Rightarrow> bool \<Rightarrow> bool \<Rightarrow> ustr \<Rightarrow> ustr \<times> bool \<times> ustr" where
  "scan_rule is_in_escape is_include_exclude new_token [] = ([], is_in_escape, [])"
| "scan_rule is_in_escape is_include_exclude new_token (c # cs) =
     (let is_unescaped_whitespace = (\<not> is_in_escape \<and> is_ascii_whitespace c);
          is_unescaped_newline = (\<not> is_in_escape \<and> c = 10)
      in if is_unescaped_newline \<or> (\<not> is_include_exclude \<and> is_unescaped_whitespace) then ([], is_in_escape, c # cs)
         else if c = PLUS \<or> c = MINUS then apfst ((#) c) (scan_rule (c = BACKSLASH) new_token new_token cs)
         else if \<not> is_unescaped_whitespace then apfst ((#) c) (scan_rule (c = BACKSLASH) False False cs)
         else apfst ((#) c) (scan_rule (c = BACKSLASH) is_include_exclude new_token cs))"

fun skip_whitespace :: "bool \<Rightarrow> ustr \<Rightarrow> ustr" where
  "skip_whitespace is_in_escape [] = []"
| "skip_whitespace is_in_escape (c # cs) =
     (if is_in_escape \<or> \<not> is_ascii_whitespace c then c # cs else skip_whitespace (c = BACKSLASH) cs)"

lemma length_skip_whitespace: "length (skip_whitespace e s) \<le> length s"
  by (induction e s rule: skip_whitespace.induct) auto

lemma length_scan_rule:
  "length (fst (scan_rule e i n s)) + length (snd (snd (scan_rule e i n s))) = length s"
  by (induction s arbitrary: e i n) (simp_all add: Let_def)

lemma scan_rule_stuck: "scan_rule False False n (c # cs) = ([], e', rest) \<Longrightarrow> \<not> e' \<and> rest = c # cs \<and> is_ascii_whitespace c"
  by (auto simp: Let_def apfst_def map_prod_def is_ascii_whitespace_def split: if_splits prod.splits)

function split_whitespace_smart :: "ustr \<Rightarrow> ustr list" where
  "split_whitespace_smart path =
     (if path = [] then []
      else case scan_rule False False True path of
        (token, is_in_escape, rest) \<Rightarrow>
          (if token = [] then [] else [token]) @ split_whitespace_smart (skip_whitespace is_in_escape rest))"
  by pat_completeness auto
termination
proof (relation "measure length", goal_cases)
  case (2 path token er e rest)
  then have s: "scan_rule False False True path = (token, e, rest)" by simp
  obtain c cs where p: "path = c # cs" using 2(1) by (cases path) auto
  have le: "length (skip_whitespace e rest) \<le> length rest" by (rule length_skip_whitespace)
  show ?case
  proof (cases "token = []")
    case True
    then show ?thesis
      using scan_rule_stuck [of True c cs e rest] s p length_skip_whitespace [of False cs] by (auto simp: is_ascii_whitespace_def)
  next
    case False
    then show ?thesis using length_scan_rule [of False False True path] s le by (cases token) auto
  qed
qed simp

declare split_whitespace_smart.simps [simp del]

definition from_query_expressions :: "unicode \<Rightarrow> ustr list \<Rightarrow> EntityPathFilter" where
  "from_query_expressions U rules =
     foldl (\<lambda>m line.
        let (effect, path_pattern) =
          (if hd line = PLUS then (Include, tl line) else if hd line = MINUS then (Exclude, tl line) else (Include, line))
        in bm_insert str_cmp (rule_new U path_pattern) effect m)
      [] (filter (\<lambda>line. line \<noteq> []) (map (trim U) rules))"

definition filter_parse_forgiving :: "unicode \<Rightarrow> ustr \<Rightarrow> EntityPathFilter" where
  "filter_parse_forgiving U rules = from_query_expressions U (split_whitespace_smart rules)"

definition insert_rule :: "RuleEffect \<Rightarrow> EntityPathRule \<Rightarrow> EntityPathFilter \<Rightarrow> EntityPathFilter" where
  "insert_rule effect r m = bm_insert str_cmp r effect m"

definition filter_add_assign :: "EntityPathFilter \<Rightarrow> EntityPathFilter \<Rightarrow> EntityPathFilter" where
  "filter_add_assign m rhs = bm_extend str_cmp m rhs"

definition filter_sum :: "EntityPathFilter list \<Rightarrow> EntityPathFilter" where
  "filter_sum items = foldl filter_add_assign [] items"

definition filter_all :: EntityPathFilter where
  "filter_all = [(rule_including_subtree [], Include)]"

definition add_exact :: "ustr \<Rightarrow> EntityPathFilter \<Rightarrow> EntityPathFilter" where
  "add_exact path_or_variable m = bm_insert str_cmp path_or_variable Include m"

definition add_exact_entity :: "unicode \<Rightarrow> entity_path \<Rightarrow> EntityPathFilter \<Rightarrow> EntityPathFilter" where
  "add_exact_entity U path m = bm_insert str_cmp (rule_exact_entity U path) Include m"

definition add_subtree :: "ustr \<Rightarrow> EntityPathFilter \<Rightarrow> EntityPathFilter" where
  "add_subtree path_or_variable m = bm_insert str_cmp (rule_including_subtree path_or_variable) Include m"

definition add_entity_subtree :: "unicode \<Rightarrow> entity_path \<Rightarrow> EntityPathFilter \<Rightarrow> EntityPathFilter" where
  "add_entity_subtree U path m = bm_insert str_cmp (including_entity_subtree U path) Include m"

definition single_filter :: "ustr \<Rightarrow> EntityPathFilter" where
  "single_filter path_or_variable = add_exact path_or_variable []"

definition subtree_filter :: "ustr \<Rightarrow> EntityPathFilter" where
  "subtree_filter path_or_variable = add_subtree path_or_variable []"

definition single_entity_filter :: "unicode \<Rightarrow> entity_path \<Rightarrow> EntityPathFilter" where
  "single_entity_filter U path = add_exact_entity U path []"

definition subtree_entity_filter :: "unicode \<Rightarrow> entity_path \<Rightarrow> EntityPathFilter" where
  "subtree_entity_filter U path = add_entity_subtree U path []"

definition rule_expression :: "EntityPathRule \<Rightarrow> RuleEffect \<Rightarrow> ustr" where
  "rule_expression r effect = (case effect of Include \<Rightarrow> [PLUS, SPACE] | Exclude \<Rightarrow> [MINUS, SPACE]) @ r"

definition iter_expressions :: "EntityPathFilter \<Rightarrow> ustr list" where
  "iter_expressions m = map (\<lambda>(r, effect). rule_expression r effect) m"

section \<open>Resolution\<close>

text \<open>The substitutions in the order in which the hash map iterates.\<close>

type_synonym EntityPathSubs = "(ustr \<times> ustr) list"

definition ORIGIN :: ustr where
  "ORIGIN = [111, 114, 105, 103, 105, 110]"

definition new_with_origin :: "unicode \<Rightarrow> entity_path \<Rightarrow> EntityPathSubs" where
  "new_with_origin U origin = [(ORIGIN, path_to_string U origin)]"

definition substitute_variables :: "EntityPathRule \<Rightarrow> EntityPathSubs \<Rightarrow> ustr" where
  "substitute_variables r subst_env =
     foldl (\<lambda>expression_sub (key, v).
        str_replace ([DOLLAR, BRACE_OPEN] @ key @ [BRACE_CLOSE]) v (str_replace (DOLLAR # key) v expression_sub))
      r subst_env"

definition strip_subtree :: "ustr \<Rightarrow> ustr option" where
  "strip_subtree s = (if ends_with s SUBTREE then Some (take (length s - 3) s) else None)"

definition resolved_parse_strict ::
  "unicode \<Rightarrow> ustr \<Rightarrow> EntityPathSubs \<Rightarrow> EntityPathFilterError + ResolvedEntityPathRule" where
  "resolved_parse_strict U expression subst_env =
     (let r = rule_new U expression;
          expression_sub = substitute_variables r subst_env;
          parse = (\<lambda>s. case parse_strict U s of
            Inl e \<Rightarrow> Inl (FilterPathParseError e) | Inr path \<Rightarrow> Inr \<lparr>rule = r, resolved_path = path\<rparr>)
      in if DOLLAR \<in> set expression_sub
         then Inl (UnresolvedSubstitution
           (takeWhile (\<lambda>c. \<not> uc_whitespace U c) (tl (dropWhile (\<lambda>c. c \<noteq> DOLLAR) expression_sub))))
         else if expression_sub = SUBTREE then Inr \<lparr>rule = r, resolved_path = []\<rparr>
         else case strip_subtree expression_sub of Some path \<Rightarrow> parse path | None \<Rightarrow> parse expression_sub)"

definition resolved_parse_forgiving :: "unicode \<Rightarrow> ustr \<Rightarrow> EntityPathSubs \<Rightarrow> ResolvedEntityPathRule" where
  "resolved_parse_forgiving U expression subst_env =
     (let r = rule_new U expression;
          expression_sub = substitute_variables r subst_env
      in if expression_sub = SUBTREE then \<lparr>rule = r, resolved_path = []\<rparr>
         else case strip_subtree expression_sub of
           Some path \<Rightarrow> \<lparr>rule = r, resolved_path = parse_forgiving path\<rparr>
         | None \<Rightarrow> \<lparr>rule = r, resolved_path = parse_forgiving expression_sub\<rparr>)"

definition exclude_properties ::
  "(ustr \<Rightarrow> ustr \<Rightarrow> Ordering) \<Rightarrow> unicode \<Rightarrow> ResolvedEntityPathFilter \<Rightarrow> ResolvedEntityPathFilter" where
  "exclude_properties natural U rules =
     bm_or_insert (rule_cmp natural) (resolved_including_subtree U path_properties) Exclude rules"

definition resolve_forgiving ::
  "(ustr \<Rightarrow> ustr \<Rightarrow> Ordering) \<Rightarrow> unicode \<Rightarrow> EntityPathFilter \<Rightarrow> EntityPathSubs \<Rightarrow> ResolvedEntityPathFilter" where
  "resolve_forgiving natural U rules subst_env =
     exclude_properties natural U
       (bm_collect (rule_cmp natural) (map (\<lambda>(r, effect). (resolved_parse_forgiving U r subst_env, effect)) rules))"

fun resolve_all ::
  "unicode \<Rightarrow> EntityPathFilter \<Rightarrow> EntityPathSubs \<Rightarrow> EntityPathFilterError + ResolvedEntityPathFilter" where
  "resolve_all U [] subst_env = Inr []"
| "resolve_all U ((r, effect) # rules) subst_env =
     (case resolved_parse_strict U r subst_env of
        Inl e \<Rightarrow> Inl e | Inr r' \<Rightarrow> map_sum id ((#) (r', effect)) (resolve_all U rules subst_env))"

definition resolve_strict ::
  "(ustr \<Rightarrow> ustr \<Rightarrow> Ordering) \<Rightarrow> unicode \<Rightarrow> EntityPathFilter \<Rightarrow> EntityPathSubs
    \<Rightarrow> EntityPathFilterError + ResolvedEntityPathFilter" where
  "resolve_strict natural U rules subst_env =
     map_sum id (\<lambda>kvs. exclude_properties natural U (bm_collect (rule_cmp natural) kvs)) (resolve_all U rules subst_env)"

definition resolve_without_substitutions ::
  "(ustr \<Rightarrow> ustr \<Rightarrow> Ordering) \<Rightarrow> unicode \<Rightarrow> EntityPathFilter \<Rightarrow> ResolvedEntityPathFilter" where
  "resolve_without_substitutions natural U rules = resolve_forgiving natural U rules []"

definition unresolved :: "unicode \<Rightarrow> ResolvedEntityPathFilter \<Rightarrow> EntityPathFilter" where
  "unresolved U rules =
     bm_collect str_cmp (map (\<lambda>(r, effect). (rule r, effect))
       (filter (\<lambda>(r, effect). \<not> (rule_eq r (resolved_including_subtree U path_properties) \<and> effect = Exclude)) rules))"

definition iter_unresolved_expressions_impl :: "unicode \<Rightarrow> bool \<Rightarrow> ResolvedEntityPathFilter \<Rightarrow> ustr list" where
  "iter_unresolved_expressions_impl U with_properties rules =
     map (\<lambda>(r, effect). rule_expression (rule r) effect)
       (filter (\<lambda>(r, effect). \<not> (\<not> with_properties \<and> rule r = including_entity_subtree U path_properties \<and> effect = Exclude)) rules)"

fun join_lines :: "ustr list \<Rightarrow> ustr" where
  "join_lines [] = []"
| "join_lines [s] = s"
| "join_lines (s # t # ts) = s @ 10 # join_lines (t # ts)"

definition filter_formatted :: "unicode \<Rightarrow> ResolvedEntityPathFilter \<Rightarrow> ustr" where
  "filter_formatted U rules = join_lines (iter_unresolved_expressions_impl U True rules)"

definition formatted_without_properties :: "unicode \<Rightarrow> ResolvedEntityPathFilter \<Rightarrow> ustr" where
  "formatted_without_properties U rules = join_lines (iter_unresolved_expressions_impl U False rules)"

section \<open>Queries and updates of resolved filters\<close>

definition filter_properties :: "unicode \<Rightarrow> ResolvedEntityPathFilter" where
  "filter_properties U = [(resolved_including_subtree U path_properties, Include)]"

text \<open>The last rule that matches a path, as several operations find it in reverse order.\<close>

definition last_matching :: "ResolvedEntityPathFilter \<Rightarrow> entity_path \<Rightarrow> (ResolvedEntityPathRule \<times> RuleEffect) option" where
  "last_matching rules path = List.find (\<lambda>(r, _). rule_matches r path) (rev rules)"

definition most_specific_match :: "ResolvedEntityPathFilter \<Rightarrow> entity_path \<Rightarrow> RuleEffect option" where
  "most_specific_match rules path = map_option snd (last_matching rules path)"

definition filter_matches :: "ResolvedEntityPathFilter \<Rightarrow> entity_path \<Rightarrow> bool" where
  "filter_matches rules path =
     (case (case most_specific_match rules path of None \<Rightarrow> Exclude | Some effect \<Rightarrow> effect) of
        Include \<Rightarrow> True | Exclude \<Rightarrow> False)"

definition matches_exactly :: "ResolvedEntityPathFilter \<Rightarrow> entity_path \<Rightarrow> bool" where
  "matches_exactly rules path =
     list_ex (\<lambda>(r, effect). effect = Include \<and> \<not> include_subtree (rule r) \<and> resolved_path r = path) rules"

definition add_rule ::
  "(ustr \<Rightarrow> ustr \<Rightarrow> Ordering) \<Rightarrow> RuleEffect \<Rightarrow> ResolvedEntityPathRule \<Rightarrow> ResolvedEntityPathFilter
    \<Rightarrow> ResolvedEntityPathFilter" where
  "add_rule natural effect r rules = bm_insert (rule_cmp natural) r effect rules"

definition remove_subtree_and_matching_rules ::
  "(ustr \<Rightarrow> ustr \<Rightarrow> Ordering) \<Rightarrow> unicode \<Rightarrow> entity_path \<Rightarrow> ResolvedEntityPathFilter \<Rightarrow> ResolvedEntityPathFilter" where
  "remove_subtree_and_matching_rules natural U path rules =
     (let new_exclusion = \<lparr>rule = including_entity_subtree U path, resolved_path = path\<rparr>;
          rules = filter (\<lambda>(r, _). \<not> rule_matches new_exclusion (resolved_path r)) rules
      in bm_insert (rule_cmp natural) new_exclusion Exclude rules)"

definition remove_rule_for :: "entity_path \<Rightarrow> ResolvedEntityPathFilter \<Rightarrow> ResolvedEntityPathFilter" where
  "remove_rule_for path rules = filter (\<lambda>(r, _). resolved_path r \<noteq> path) rules"

definition contains_rule_for_exactly :: "ResolvedEntityPathFilter \<Rightarrow> entity_path \<Rightarrow> bool" where
  "contains_rule_for_exactly rules path = list_ex (\<lambda>(r, _). resolved_path r = path) rules"

definition is_explicitly_included :: "ResolvedEntityPathFilter \<Rightarrow> entity_path \<Rightarrow> bool" where
  "is_explicitly_included rules path = list_ex (\<lambda>(r, effect). resolved_path r = path \<and> effect = Include) rules"

definition is_explicitly_excluded :: "ResolvedEntityPathFilter \<Rightarrow> entity_path \<Rightarrow> bool" where
  "is_explicitly_excluded rules path = list_ex (\<lambda>(r, effect). resolved_path r = path \<and> effect = Exclude) rules"

fun included_by_last :: "(ResolvedEntityPathRule \<times> RuleEffect) list \<Rightarrow> entity_path \<Rightarrow> bool" where
  "included_by_last [] path = False"
| "included_by_last ((r, effect) # rules) path =
     (if rule_matches r path
      then (case effect of
              Include \<Rightarrow> True
            | Exclude \<Rightarrow> if include_subtree (rule r) then False else included_by_last rules path)
      else included_by_last rules path)"

definition is_anything_in_subtree_included :: "ResolvedEntityPathFilter \<Rightarrow> entity_path \<Rightarrow> bool" where
  "is_anything_in_subtree_included rules path =
     (if list_ex (\<lambda>(r, effect). effect = Include \<and> path_starts_with (resolved_path r) path) rules then True
      else included_by_last (rev rules) path)"

definition is_superset_of :: "ResolvedEntityPathFilter \<Rightarrow> ResolvedEntityPathFilter \<Rightarrow> bool" where
  "is_superset_of rules other \<longleftrightarrow>
     list_all (\<lambda>(other_rule, other_effect).
        case other_effect of
          Include \<Rightarrow>
            (case last_matching rules (resolved_path other_rule) of
               Some (self_rule, self_effect) \<Rightarrow>
                 (case self_effect of
                    Include \<Rightarrow> \<not> (include_subtree (rule other_rule) \<and> \<not> include_subtree (rule self_rule))
                  | Exclude \<Rightarrow> False)
             | None \<Rightarrow> False)
        | Exclude \<Rightarrow> True) other
     \<and> list_all (\<lambda>(self_rule, self_effect).
        case self_effect of
          Include \<Rightarrow> True
        | Exclude \<Rightarrow>
            (case last_matching other (resolved_path self_rule) of
               Some (_, other_effect) \<Rightarrow> (case other_effect of Include \<Rightarrow> False | Exclude \<Rightarrow> True)
             | None \<Rightarrow> True)) rules"

record FilterEvaluation =
  subtree_included :: bool
  evaluated_matches :: bool
  evaluated_matches_exactly :: bool

definition evaluate_step ::
  "entity_path \<Rightarrow> bool \<times> bool \<times> (RuleEffect \<times> bool) option \<Rightarrow> ResolvedEntityPathRule \<times> RuleEffect
    \<Rightarrow> bool \<times> bool \<times> (RuleEffect \<times> bool) option" where
  "evaluate_step path st re =
     (case st of
        (found_include_in_subtree, exactly, last_match) \<Rightarrow>
          (case re of
             (r, effect) \<Rightarrow>
               (if \<not> found_include_in_subtree \<and> effect = Include \<and> path_starts_with (resolved_path r) path then True
                else found_include_in_subtree,
                if \<not> exactly \<and> effect = Include \<and> \<not> include_subtree (rule r) \<and> resolved_path r = path then True
                else exactly,
                if rule_matches r path then Some (effect, include_subtree (rule r)) else last_match)))"

text \<open>In the loop of the source \<open>subtree_included\<close> is set together with \<open>found_include_in_subtree\<close>.\<close>

definition evaluate :: "ResolvedEntityPathFilter \<Rightarrow> entity_path \<Rightarrow> FilterEvaluation" where
  "evaluate rules path =
     (case foldl (evaluate_step path) (False, False, None) rules of
        (found_include_in_subtree, exactly, last_match) \<Rightarrow>
          \<lparr>subtree_included =
             (case last_match of
                None \<Rightarrow> found_include_in_subtree
              | Some (effect, inc) \<Rightarrow>
                  (case effect of
                     Include \<Rightarrow> True
                   | Exclude \<Rightarrow> if inc \<and> \<not> found_include_in_subtree then False else found_include_in_subtree)),
           evaluated_matches = (case last_match of None \<Rightarrow> False | Some (effect, _) \<Rightarrow> effect = Include),
           evaluated_matches_exactly = exactly\<rparr>)"

end
