(* ===== verification/Filter_Match.thy ===== *)
theory Filter_Match
  imports Path_Filter
begin

text \<open>
  What entity path filters mean: the rules are kept in the order of their specificity by every
  operation, the last matching rule is the most specific one, and the queries about subtrees and
  supersets decide what they promise, with the exceptions stated.
\<close>

section \<open>Comparisons\<close>

text \<open>What a \<open>BTreeMap\<close> needs of the comparison of its keys.\<close>

locale total_cmp =
  fixes cmp :: "'k \<Rightarrow> 'k \<Rightarrow> Ordering"
  assumes cmp_flip: "cmp b a = ord_reverse (cmp a b)"
    and cmp_less_trans: "cmp a b = Less \<Longrightarrow> cmp b c = Less \<Longrightarrow> cmp a c = Less"
    and cmp_equal_less: "cmp a b = Equal \<Longrightarrow> cmp b c = Less \<Longrightarrow> cmp a c = Less"
begin

lemma cmp_refl: "cmp a a = Equal"
  using cmp_flip [of a a] by (cases "cmp a a") auto

lemma cmp_greater_less: "cmp a b = Greater \<longleftrightarrow> cmp b a = Less"
  using cmp_flip [of a b] by (cases "cmp b a") auto

lemma cmp_equal_sym: "cmp a b = Equal \<Longrightarrow> cmp b a = Equal"
  using cmp_flip [of b a] by simp

lemma cmp_less_equal:
  assumes "cmp a b = Less" "cmp b c = Equal"
  shows "cmp a c = Less"
proof (cases "cmp a c")
  case Equal
  then show ?thesis using cmp_equal_less [OF cmp_equal_sym assms(1)] cmp_equal_sym [OF assms(2)] by simp
next
  case Greater
  then show ?thesis using cmp_less_trans [OF _ assms(1)] cmp_equal_sym [OF assms(2)] cmp_greater_less [of a c] by auto
qed

lemma cmp_equal_trans:
  assumes "cmp a b = Equal" "cmp b c = Equal"
  shows "cmp a c = Equal"
proof (cases "cmp a c")
  case Less
  then show ?thesis using cmp_equal_less [OF cmp_equal_sym [OF assms(1)] Less] assms(2) by simp
next
  case Greater
  then have "cmp c a = Less" by (simp add: cmp_greater_less)
  then show ?thesis using cmp_less_equal [OF _ assms(1)] cmp_equal_sym [OF assms(2)] by force
qed

lemma bm_upsert_pairs: "kv \<in> set (bm_upsert cmp f k v m) \<Longrightarrow> kv = (k, v) \<or> kv \<in> set m \<or> kv \<in> f ` set m"
  by (induction m) (auto split: Ordering.splits)

lemma bm_wf_upsert:
  assumes "bm_wf cmp m" "\<And>kv. fst (f kv) = fst kv \<or> fst (f kv) = k"
  shows "bm_wf cmp (bm_upsert cmp f k v m)"
  using assms(1)
proof (induction m)
  case (Cons kv m)
  have all: "kv' \<in> set m \<Longrightarrow> cmp (fst kv) (fst kv') = Less" for kv' using Cons.prems by (simp add: bm_wf_def)
  have wf: "bm_wf cmp m" using Cons.prems by (simp add: bm_wf_def)
  show ?case
  proof (cases "cmp k (fst kv)")
    case Less
    then have "kv' \<in> set m \<Longrightarrow> cmp k (fst kv') = Less" for kv' using all cmp_less_trans by blast
    then show ?thesis using Less Cons.prems by (simp add: bm_wf_def)
  next
    case Equal
    have "cmp (fst (f kv)) (fst kv') = Less" if "kv' \<in> set m" for kv'
      using assms(2) [of kv] all [OF that] cmp_equal_less [OF Equal all [OF that]] by auto
    then show ?thesis using Equal wf by (simp add: bm_wf_def)
  next
    case Greater
    have "cmp (fst kv) (fst kv') = Less" if "kv' \<in> set (bm_upsert cmp f k v m)" for kv'
    proof -
      have "cmp (fst kv) k = Less" using Greater cmp_greater_less by blast
      then show ?thesis using bm_upsert_pairs [OF that] all assms(2) by (metis fst_conv imageE)
    qed
    then show ?thesis using Greater Cons.IH [OF wf] by (simp add: bm_wf_def)
  qed
qed (simp add: bm_wf_def)

lemma bm_upsert_new: "\<forall>kv \<in> set m. cmp k (fst kv) \<noteq> Equal \<Longrightarrow> set (bm_upsert cmp f k v m) = insert (k, v) (set m)"
  by (induction m) (auto split: Ordering.splits)

lemma bm_wf_insert: "bm_wf cmp m \<Longrightarrow> bm_wf cmp (bm_insert cmp k v m)"
  unfolding bm_insert_def by (rule bm_wf_upsert) simp_all

lemma bm_wf_or_insert: "bm_wf cmp m \<Longrightarrow> bm_wf cmp (bm_or_insert cmp k v m)"
  unfolding bm_or_insert_def by (rule bm_wf_upsert) simp_all

lemma bm_wf_put: "bm_wf cmp m \<Longrightarrow> bm_wf cmp (bm_put cmp k v m)"
  unfolding bm_put_def by (rule bm_wf_upsert) simp_all

lemma bm_collect_pairs: "kv \<in> set (bm_collect cmp kvs) \<Longrightarrow> kv \<in> set kvs"
proof -
  have "kv \<in> set (foldl (\<lambda>m (k, v). bm_put cmp k v m) m kvs) \<Longrightarrow> kv \<in> set m \<union> set kvs" for m
    by (induction kvs arbitrary: m) (fastforce simp: bm_put_def dest: bm_upsert_pairs)+
  then show "kv \<in> set (bm_collect cmp kvs) \<Longrightarrow> kv \<in> set kvs" unfolding bm_collect_def by fastforce
qed

lemma bm_wf_collect: "bm_wf cmp (bm_collect cmp kvs)"
proof -
  have "bm_wf cmp m \<Longrightarrow> bm_wf cmp (foldl (\<lambda>m (k, v). bm_put cmp k v m) m kvs)" for m
    by (induction kvs arbitrary: m) (auto intro: bm_wf_put)
  then show ?thesis by (simp add: bm_collect_def bm_wf_def)
qed

lemma bm_wf_extend: "bm_wf cmp m \<Longrightarrow> bm_wf cmp (bm_extend cmp m kvs)"
  unfolding bm_extend_def by (induction kvs arbitrary: m) (auto intro: bm_wf_insert)

end

text \<open>A comparison that agrees with equality, as the contract of \<open>Ord\<close> asks.\<close>

locale strict_cmp = total_cmp +
  assumes cmp_Equal: "cmp a b = Equal \<Longrightarrow> a = b"
begin

lemma cmp_Equal_iff: "cmp a b = Equal \<longleftrightarrow> a = b"
  using cmp_Equal cmp_refl by auto

end

lemma bm_wf_filter: "bm_wf c m \<Longrightarrow> bm_wf c (filter P m)"
  by (simp add: bm_wf_def sorted_wrt_filter)

lemma ord_reverse_simps [simp]: "ord_reverse x = Less \<longleftrightarrow> x = Greater" "ord_reverse x = Equal \<longleftrightarrow> x = Equal"
  "ord_reverse x = Greater \<longleftrightarrow> x = Less"
  by (cases x; simp)+

text \<open>Unresolved filters are ordered by the text of their rules.\<close>

interpretation str: strict_cmp str_cmp
proof
  show "str_cmp a b = Equal \<Longrightarrow> a = b" for a b by (induction a b rule: str_cmp.induct) (auto split: if_splits)
  show "str_cmp b a = ord_reverse (str_cmp a b)" for a b by (induction a b rule: str_cmp.induct) auto
  show "str_cmp a b = Less \<Longrightarrow> str_cmp b c = Less \<Longrightarrow> str_cmp a c = Less" for a b c
  proof (induction a arbitrary: b c)
    case Nil
    then show ?case by (cases b; cases c) auto
  next
    case (Cons x a)
    then show ?case by (cases b; cases c) (auto split: if_splits)
  qed
  show "str_cmp a b = Equal \<Longrightarrow> str_cmp b c = Less \<Longrightarrow> str_cmp a c = Less" for a b c
  proof (induction a arbitrary: b c)
    case Nil
    then show ?case by (cases b; cases c) auto
  next
    case (Cons x a)
    then show ?case by (cases b; cases c) (auto split: if_splits)
  qed
qed

text \<open>The order of characters that the natural order rests on.\<close>

lemma compare_chars_key:
  "compare_chars a b = (if to_ascii_lowercase a < to_ascii_lowercase b \<or> to_ascii_lowercase a = to_ascii_lowercase b \<and> a < b
     then Less else if a = b then Equal else Greater)"
  by (auto simp: compare_chars_def char_cmp_def Let_def)

interpretation chars: strict_cmp compare_chars
proof
  show "compare_chars b a = ord_reverse (compare_chars a b)" for a b by (auto simp: compare_chars_key)
  show "compare_chars a b = Less \<Longrightarrow> compare_chars b c = Less \<Longrightarrow> compare_chars a c = Less" for a b c
    by (auto simp: compare_chars_key split: if_splits)
  show "compare_chars a b = Equal \<Longrightarrow> compare_chars b c = Less \<Longrightarrow> compare_chars a c = Less" for a b c
    by (auto simp: compare_chars_key split: if_splits)
  show "compare_chars a b = Equal \<Longrightarrow> a = b" for a b by (auto simp: compare_chars_key split: if_splits)
qed

text \<open>Resolved filters are ordered by rule, given the natural order of parts.\<close>

lemma total_part_cmp:
  assumes "total_cmp natural"
  shows "total_cmp (part_cmp natural)"
proof
  show "part_cmp natural b a = ord_reverse (part_cmp natural a b)" for a b
    using total_cmp.cmp_flip [OF assms, of b a] by (auto simp: part_cmp_def)
  show "part_cmp natural a b = Less \<Longrightarrow> part_cmp natural b c = Less \<Longrightarrow> part_cmp natural a c = Less" for a b c
    using total_cmp.cmp_less_trans [OF assms, of a b c] by (auto simp: part_cmp_def split: if_splits)
  show "part_cmp natural a b = Equal \<Longrightarrow> part_cmp natural b c = Less \<Longrightarrow> part_cmp natural a c = Less" for a b c
    using total_cmp.cmp_equal_less [OF assms, of a b c] by (auto simp: part_cmp_def split: if_splits)
qed

lemma total_path_cmp:
  assumes "total_cmp natural"
  shows "total_cmp (path_cmp natural)"
proof
  note part = total_part_cmp [OF assms]
  show "path_cmp natural b a = ord_reverse (path_cmp natural a b)" for a b
  proof (induction a arbitrary: b)
    case Nil
    then show ?case by (cases b) auto
  next
    case (Cons x a)
    show ?case
    proof (cases b)
      case b: (Cons y b')
      then show ?thesis
        using Cons [of b'] total_cmp.cmp_flip [OF part, of y x] by (cases "part_cmp natural x y") auto
    qed simp
  qed
  show "path_cmp natural a b = Less \<Longrightarrow> path_cmp natural b c = Less \<Longrightarrow> path_cmp natural a c = Less" for a b c
  proof (induction a arbitrary: b c)
    case Nil
    then show ?case by (cases b; cases c) auto
  next
    case (Cons x a)
    obtain y b' z c' where bc: "b = y # b'" "c = z # c'" using Cons.prems by (cases b; cases c) auto
    then show ?case
      using Cons.prems Cons.IH [of b' c'] total_cmp.cmp_less_trans [OF part, of x y z] total_cmp.cmp_equal_less [OF part, of x y z]
        total_cmp.cmp_less_equal [OF part, of x y z] total_cmp.cmp_equal_trans [OF part, of x y z]
      by (cases "part_cmp natural x y"; cases "part_cmp natural y z") simp_all
  qed
  show "path_cmp natural a b = Equal \<Longrightarrow> path_cmp natural b c = Less \<Longrightarrow> path_cmp natural a c = Less" for a b c
  proof (induction a arbitrary: b c)
    case Nil
    then show ?case by (cases b; cases c) auto
  next
    case (Cons x a)
    obtain y b' z c' where bc: "b = y # b'" "c = z # c'" using Cons.prems by (cases b; cases c) auto
    then show ?case
      using Cons.prems Cons.IH [of b' c'] total_cmp.cmp_equal_less [OF part, of x y z] total_cmp.cmp_equal_trans [OF part, of x y z]
      by (cases "part_cmp natural x y"; cases "part_cmp natural y z") simp_all
  qed
qed

lemma total_rule_cmp:
  assumes "total_cmp natural"
  shows "total_cmp (rule_cmp natural)"
proof
  note path = total_path_cmp [OF assms]
  show "rule_cmp natural s r = ord_reverse (rule_cmp natural r s)" for r s
    using total_cmp.cmp_flip [OF path, of "resolved_path s" "resolved_path r"]
    by (cases "path_cmp natural (resolved_path r) (resolved_path s)") (auto simp: rule_cmp_def bool_cmp_def)
  have facts: "rule_cmp natural r s = Less \<longleftrightarrow> path_cmp natural (resolved_path r) (resolved_path s) = Less
      \<or> path_cmp natural (resolved_path r) (resolved_path s) = Equal \<and> include_subtree (rule r) \<and> \<not> include_subtree (rule s)"
    "rule_cmp natural r s = Equal \<longleftrightarrow> path_cmp natural (resolved_path r) (resolved_path s) = Equal
      \<and> include_subtree (rule r) = include_subtree (rule s)" for r s
    by (auto simp: rule_cmp_def bool_cmp_def split: Ordering.splits)
  show "rule_cmp natural r s = Less \<Longrightarrow> rule_cmp natural s t = Less \<Longrightarrow> rule_cmp natural r t = Less" for r s t
    unfolding facts using total_cmp.cmp_less_trans [OF path] total_cmp.cmp_equal_less [OF path] total_cmp.cmp_less_equal [OF path] by blast
  show "rule_cmp natural r s = Equal \<Longrightarrow> rule_cmp natural s t = Less \<Longrightarrow> rule_cmp natural r t = Less" for r s t
    unfolding facts using total_cmp.cmp_equal_trans [OF path] total_cmp.cmp_equal_less [OF path] by blast
qed

section \<open>The most specific rule\<close>

definition filter_wf :: "(ustr \<Rightarrow> ustr \<Rightarrow> Ordering) \<Rightarrow> ResolvedEntityPathFilter \<Rightarrow> bool" where
  "filter_wf natural rules = bm_wf (rule_cmp natural) rules"

definition more_specific :: "ResolvedEntityPathRule \<Rightarrow> ResolvedEntityPathRule \<Rightarrow> bool" where
  "more_specific r s \<longleftrightarrow> length (resolved_path s) < length (resolved_path r)
     \<or> (resolved_path r = resolved_path s \<and> include_subtree (rule s) \<and> \<not> include_subtree (rule r))"

lemma more_specific_asym: "more_specific r s \<Longrightarrow> \<not> more_specific s r"
  by (auto simp: more_specific_def)

lemma rule_matches_prefix: "rule_matches r path \<Longrightarrow> prefix (resolved_path r) path"
  by (auto simp: rule_matches_def path_starts_with_prefix split: if_splits)

lemma rule_matches_subtree: "include_subtree (rule r) \<Longrightarrow> rule_matches r path \<longleftrightarrow> prefix (resolved_path r) path"
  by (simp add: rule_matches_def path_starts_with_prefix)

lemma rule_matches_exact: "\<not> include_subtree (rule r) \<Longrightarrow> rule_matches r path \<longleftrightarrow> path = resolved_path r"
  by (simp add: rule_matches_def)

lemma path_cmp_prefix:
  assumes "total_cmp natural" "prefix p q" "p \<noteq> q"
  shows "path_cmp natural p q = Less"
proof -
  have "part_cmp natural a a = Equal" for a by (rule total_cmp.cmp_refl [OF total_part_cmp [OF assms(1)]])
  then have "path_cmp natural p (p @ b # r) = Less" for b r by (induction p) simp_all
  moreover obtain b r where "q = p @ b # r" using assms(2, 3) by (metis prefix_def append_Nil2 list.exhaust)
  ultimately show ?thesis by simp
qed

lemma ordered_more_specific:
  assumes "total_cmp natural" "rule_cmp natural r s = Less" "rule_matches r path" "rule_matches s path"
  shows "more_specific s r"
proof -
  let ?p = "resolved_path r" and ?q = "resolved_path s"
  have pre: "prefix ?p ?q \<or> prefix ?q ?p"
    using prefix_same_cases [OF rule_matches_prefix [OF assms(3)] rule_matches_prefix [OF assms(4)]] .
  show ?thesis
  proof (cases "?p = ?q")
    case True
    then show ?thesis
      using assms(2) total_cmp.cmp_refl [OF total_path_cmp [OF assms(1)], of ?q]
      by (auto simp: rule_cmp_def bool_cmp_def more_specific_def split: if_splits)
  next
    case False
    have "\<not> prefix ?q ?p"
    proof
      assume "prefix ?q ?p"
      then have "path_cmp natural ?q ?p = Less" using path_cmp_prefix [OF assms(1)] False by simp
      then have "path_cmp natural ?p ?q = Greater" using total_cmp.cmp_greater_less [OF total_path_cmp [OF assms(1)]] by blast
      then show False using assms(2) by (simp add: rule_cmp_def)
    qed
    then show ?thesis using pre False prefix_length_less [of ?p ?q] by (simp add: more_specific_def strict_prefix_def)
  qed
qed

definition top_rule ::
  "(ResolvedEntityPathRule \<times> RuleEffect \<Rightarrow> bool) \<Rightarrow> ResolvedEntityPathFilter \<Rightarrow> ResolvedEntityPathRule \<times> RuleEffect \<Rightarrow> bool" where
  "top_rule P rules x \<longleftrightarrow> x \<in> set rules \<and> P x \<and> (\<forall>y \<in> set rules. P y \<longrightarrow> y = x \<or> more_specific (fst x) (fst y))"

lemma top_rule_unique: "top_rule P rules x \<Longrightarrow> top_rule P rules y \<Longrightarrow> x = y"
  using more_specific_asym by (auto simp: top_rule_def)

lemma find_rev_top:
  assumes "total_cmp natural" "filter_wf natural rules" "\<And>x. P x \<Longrightarrow> rule_matches (fst x) path"
  shows "List.find P (rev rules) = Some x \<longleftrightarrow> top_rule P rules x"
proof -
  have found: "top_rule P rules x" if "List.find P (rev rules) = Some x" for x
    using assms(2) that
  proof (induction rules rule: rev_induct)
    case (snoc y rules)
    have wf: "filter_wf natural rules" and less: "\<And>z. z \<in> set rules \<Longrightarrow> rule_cmp natural (fst z) (fst y) = Less"
      using snoc.prems(1) by (auto simp: filter_wf_def bm_wf_def sorted_wrt_append)
    show ?case
    proof (cases "P y")
      case True
      then have "z \<in> set rules \<Longrightarrow> P z \<Longrightarrow> more_specific (fst y) (fst z)" for z
        using ordered_more_specific [OF assms(1) less assms(3) assms(3)] by blast
      then show ?thesis using True snoc.prems(2) by (auto simp: top_rule_def)
    next
      case False
      then show ?thesis using snoc wf by (auto simp: top_rule_def)
    qed
  qed simp
  show ?thesis
  proof
    assume x: "top_rule P rules x"
    then obtain y where y: "List.find P (rev rules) = Some y"
      by (cases x; cases "List.find P (rev rules)") (auto simp: find_None_iff top_rule_def)
    then show "List.find P (rev rules) = Some x" using found top_rule_unique x by blast
  qed (rule found)
qed

abbreviation matching :: "entity_path \<Rightarrow> ResolvedEntityPathRule \<times> RuleEffect \<Rightarrow> bool" where
  "matching path \<equiv> \<lambda>(r, _). rule_matches r path"

lemma last_matching_top:
  assumes "total_cmp natural" "filter_wf natural rules"
  shows "last_matching rules path = Some x \<longleftrightarrow> top_rule (matching path) rules x"
  unfolding last_matching_def using assms by (rule find_rev_top) auto

lemma last_matching_None: "last_matching rules path = None \<longleftrightarrow> (\<forall>x \<in> set rules. \<not> matching path x)"
  by (auto simp: last_matching_def find_None_iff)

lemma filter_matches_top:
  assumes "total_cmp natural" "filter_wf natural rules"
  shows "filter_matches rules path \<longleftrightarrow> (\<exists>r. top_rule (matching path) rules (r, Include))"
proof (cases "last_matching rules path")
  case None
  then show ?thesis using last_matching_top [OF assms, of path] by (auto simp: filter_matches_def most_specific_match_def)
next
  case (Some x)
  then have "top_rule (matching path) rules y \<longleftrightarrow> y = x" for y using last_matching_top [OF assms, of path y] by auto
  then show ?thesis
    using Some by (cases x) (auto simp: filter_matches_def most_specific_match_def split: RuleEffect.splits)
qed

text \<open>C22: Of the rules that match a path the most specific one decides: the effect found is that of a matching rule
  whose path is longer than that of every other matching rule, or equal to it where the other is a rule
  for the subtree and the rule itself is for the path alone; nothing is found exactly when no rule
  matches.\<close>

theorem most_specific_rule_wins:
  assumes "total_cmp natural" "filter_wf natural rules"
  shows "(most_specific_match rules path = Some effect)
      = (\<exists>r. (r, effect) \<in> set rules \<and> rule_matches r path
          \<and> (\<forall>(s, other) \<in> set rules. rule_matches s path \<longrightarrow> (s, other) = (r, effect) \<or> more_specific r s))
    \<and> (most_specific_match rules path = None) = (\<forall>(r, _) \<in> set rules. \<not> rule_matches r path)"
proof
  have "most_specific_match rules path = Some effect \<longleftrightarrow> (\<exists>r. top_rule (matching path) rules (r, effect))"
    using last_matching_top [OF assms, of path] by (auto simp: most_specific_match_def)
  then show "(most_specific_match rules path = Some effect)
      = (\<exists>r. (r, effect) \<in> set rules \<and> rule_matches r path
          \<and> (\<forall>(s, other) \<in> set rules. rule_matches s path \<longrightarrow> (s, other) = (r, effect) \<or> more_specific r s))"
    by (simp add: top_rule_def case_prod_beta prod_eq_iff)
  show "(most_specific_match rules path = None) = (\<forall>(r, _) \<in> set rules. \<not> rule_matches r path)"
    by (auto simp: most_specific_match_def last_matching_None)
qed

section \<open>Subtrees\<close>

definition decides :: "entity_path \<Rightarrow> ResolvedEntityPathRule \<times> RuleEffect \<Rightarrow> bool" where
  "decides path x \<longleftrightarrow> rule_matches (fst x) path \<and> (snd x = Include \<or> include_subtree (rule (fst x)))"

lemma included_by_last_find:
  "included_by_last rules path = (case List.find (decides path) rules of None \<Rightarrow> False | Some x \<Rightarrow> snd x = Include)"
proof (induction rules)
  case (Cons x rules)
  then show ?case by (cases x; cases "snd x") (auto simp: decides_def)
qed simp

lemma included_by_last_top:
  assumes "total_cmp natural" "filter_wf natural rules"
  shows "included_by_last (rev rules) path \<longleftrightarrow> (\<exists>r. top_rule (decides path) rules (r, Include))"
proof -
  have top: "List.find (decides path) (rev rules) = Some x \<longleftrightarrow> top_rule (decides path) rules x" for x
    by (rule find_rev_top [OF assms, of _ path]) (simp add: decides_def)
  show ?thesis
  proof (cases "List.find (decides path) (rev rules)")
    case None
    then show ?thesis using top by (auto simp: included_by_last_find)
  next
    case (Some x)
    then have "top_rule (decides path) rules y \<longleftrightarrow> y = x" for y using top [of y] by auto
    then show ?thesis using Some by (cases x) (auto simp: included_by_last_find)
  qed
qed

lemma filter_wf_unique:
  assumes "total_cmp natural" "filter_wf natural rules" "x \<in> set rules" "y \<in> set rules"
    "resolved_path (fst x) = resolved_path (fst y)" "include_subtree (rule (fst x)) = include_subtree (rule (fst y))"
  shows "x = y"
proof (rule ccontr)
  assume "x \<noteq> y"
  moreover obtain i j where "i < length rules" "rules ! i = x" "j < length rules" "rules ! j = y"
    using assms(3, 4) by (auto simp: in_set_conv_nth)
  ultimately have "rule_cmp natural (fst x) (fst y) = Less \<or> rule_cmp natural (fst y) (fst x) = Less"
    using assms(2) by (cases i j rule: linorder_cases) (auto simp: filter_wf_def bm_wf_def sorted_wrt_iff_nth_less)
  moreover have "rule_cmp natural (fst x) (fst y) = Equal" "rule_cmp natural (fst y) (fst x) = Equal"
    using assms(5, 6) total_cmp.cmp_refl [OF total_path_cmp [OF assms(1)]] by (simp_all add: rule_cmp_def bool_cmp_def)
  ultimately show False by simp
qed

lemma fresh_part: "\<exists>part. \<forall>x \<in> set rules. part \<notin> set (resolved_path (fst x))" for rules :: ResolvedEntityPathFilter
proof -
  have "finite (\<Union>x \<in> set rules. set (resolved_path (fst x)))" by simp
  then obtain part where "part \<notin> (\<Union>x \<in> set rules. set (resolved_path (fst x)))"
    using ex_new_if_finite [OF infinite_UNIV_listI] by blast
  then show ?thesis by blast
qed

lemma fresh_child_matches:
  assumes "part \<notin> set (resolved_path r)"
  shows "rule_matches r (path @ [part]) \<longleftrightarrow> include_subtree (rule r) \<and> prefix (resolved_path r) path"
proof (cases "include_subtree (rule r)")
  case True
  then show ?thesis using assms by (auto simp: rule_matches_subtree)
next
  case False
  have "path @ [part] \<noteq> resolved_path r" using assms by (metis in_set_conv_decomp)
  then show ?thesis using False by (simp add: rule_matches_exact)
qed

lemma included_rule_included:
  assumes "total_cmp natural" "filter_wf natural rules" "(r, Include) \<in> set rules"
  shows "\<exists>q. prefix (resolved_path r) q \<and> filter_matches rules q"
proof -
  have better: "y = (r, Include) \<or> more_specific r (fst y)"
    if "y \<in> set rules" "prefix (resolved_path (fst y)) (resolved_path r)"
      "include_subtree (rule (fst y)) \<or> \<not> include_subtree (rule r)" for y
  proof (cases "resolved_path (fst y) = resolved_path r")
    case True
    then show ?thesis
      using filter_wf_unique [OF assms(1, 2) that(1) assms(3)] that(3) by (auto simp: more_specific_def)
  next
    case False
    then show ?thesis using prefix_length_less [of "resolved_path (fst y)" "resolved_path r"] that(2)
      by (simp add: more_specific_def strict_prefix_def)
  qed
  show ?thesis
  proof (cases "include_subtree (rule r)")
    case True
    obtain part where part: "\<forall>x \<in> set rules. part \<notin> set (resolved_path (fst x))" using fresh_part by blast
    have "matching (resolved_path r @ [part]) y \<longleftrightarrow> include_subtree (rule (fst y)) \<and> prefix (resolved_path (fst y)) (resolved_path r)"
      if "y \<in> set rules" for y
      using fresh_child_matches [of part "fst y"] part that by (simp add: case_prod_beta)
    then have "top_rule (matching (resolved_path r @ [part])) rules (r, Include)"
      using better assms(3) True by (force simp: top_rule_def)
    then show ?thesis using filter_matches_top [OF assms(1, 2)] by (meson prefixI)
  next
    case False
    have "top_rule (matching (resolved_path r)) rules (r, Include)"
      unfolding top_rule_def
    proof (intro conjI ballI impI)
      show "matching (resolved_path r) (r, Include)" using False by (simp add: rule_matches_exact)
      show "y = (r, Include) \<or> more_specific (fst (r, Include)) (fst y)" if "y \<in> set rules" "matching (resolved_path r) y" for y
        using better [OF that(1)] that(2) False rule_matches_prefix by (auto simp: case_prod_beta)
    qed (rule assms(3))
    then show ?thesis using filter_matches_top [OF assms(1, 2)] by blast
  qed
qed

lemma included_from_above:
  assumes "total_cmp natural" "filter_wf natural rules" "prefix path q" "top_rule (matching q) rules (r, Include)"
    "\<not> prefix path (resolved_path r)"
  shows "included_by_last (rev rules) path"
proof -
  have rq: "rule_matches r q" "(r, Include) \<in> set rules" using assms(4) by (auto simp: top_rule_def)
  have rp: "prefix (resolved_path r) path"
    using prefix_same_cases [OF rule_matches_prefix [OF rq(1)] assms(3)] assms(5) by blast
  have "include_subtree (rule r)" using rq(1) assms(3, 5) rule_matches_exact [of r q] by auto
  then have "decides path (r, Include)" using rp by (simp add: decides_def rule_matches_subtree)
  then obtain x where x: "List.find (decides path) (rev rules) = Some x"
    using rq(2) find_None_iff [of "decides path" "rev rules"] by (cases "List.find (decides path) (rev rules)") auto
  have "List.find (decides path) (rev rules) = Some x \<longleftrightarrow> top_rule (decides path) rules x"
    by (rule find_rev_top [OF assms(1, 2), of _ path]) (simp add: decides_def)
  then have top: "top_rule (decides path) rules x" using x by blast
  show ?thesis
  proof (cases "snd x")
    case Include
    then show ?thesis using x by (simp add: included_by_last_find)
  next
    case Exclude
    then have sub: "include_subtree (rule (fst x))" "rule_matches (fst x) path" using top by (auto simp: top_rule_def decides_def)
    then have "matching q x" using assms(3) prefix_order.trans by (auto simp: case_prod_beta rule_matches_subtree)
    then have "x = (r, Include) \<or> more_specific r (fst x)" using top assms(4) unfolding top_rule_def fst_conv by blast
    moreover have "(r, Include) = x \<or> more_specific (fst x) r"
      using top \<open>decides path (r, Include)\<close> rq(2) unfolding top_rule_def by (metis fst_conv)
    ultimately have "x = (r, Include)" using more_specific_asym by blast
    then show ?thesis using Exclude by simp
  qed
qed

text \<open>C23: The question whether anything in a subtree is included is answered exactly: yes if and only if some path at or
  below the given one matches the filter, whatever exclusions of single paths there are.\<close>

theorem subtree_inclusion_exact:
  assumes "total_cmp natural" "filter_wf natural rules"
  shows "is_anything_in_subtree_included rules path = (\<exists>q. prefix path q \<and> filter_matches rules q)"
proof
  let ?below = "\<exists>r. (r, Include) \<in> set rules \<and> prefix path (resolved_path r)"
  have split: "is_anything_in_subtree_included rules path \<longleftrightarrow> ?below \<or> included_by_last (rev rules) path"
    by (auto simp: is_anything_in_subtree_included_def path_starts_with_prefix list_ex_iff)
  show "\<exists>q. prefix path q \<and> filter_matches rules q" if any: "is_anything_in_subtree_included rules path"
  proof (cases ?below)
    case True
    then show ?thesis using included_rule_included [OF assms] by (meson prefix_order.trans)
  next
    case False
    then obtain r where r: "top_rule (decides path) rules (r, Include)"
      using any split included_by_last_top [OF assms, of path] by blast
    obtain part where part: "\<forall>x \<in> set rules. part \<notin> set (resolved_path (fst x))" using fresh_part by blast
    have "prefix (resolved_path r) path" "include_subtree (rule r)"
      using r False rule_matches_prefix rule_matches_exact [of r path] by (auto simp: top_rule_def decides_def)
    then have "top_rule (matching (path @ [part])) rules (r, Include)"
      using r part fresh_child_matches by (force simp: top_rule_def decides_def rule_matches_subtree)
    then show ?thesis using filter_matches_top [OF assms] by (meson prefixI)
  qed
  show "is_anything_in_subtree_included rules path" if some: "\<exists>q. prefix path q \<and> filter_matches rules q"
  proof -
    obtain q r where q: "prefix path q" "top_rule (matching q) rules (r, Include)"
      using some filter_matches_top [OF assms] by blast
    show ?thesis
    proof (cases "prefix path (resolved_path r)")
      case True
      then show ?thesis using q(2) split by (auto simp: top_rule_def)
    next
      case False
      have "included_by_last (rev rules) path" by (rule included_from_above [OF assms q False])
      then show ?thesis using split by blast
    qed
  qed
qed

section \<open>Evaluation\<close>

lemma foldl_evaluate:
  "foldl (evaluate_step path) (False, False, None) rules =
     (list_ex (\<lambda>(r, effect). effect = Include \<and> prefix path (resolved_path r)) rules, matches_exactly rules path,
      map_option (\<lambda>(r, effect). (effect, include_subtree (rule r))) (last_matching rules path))"
proof (induction rules rule: rev_induct)
  case (snoc x rules)
  then show ?case
    by (cases x) (auto simp: evaluate_step_def matches_exactly_def last_matching_def path_starts_with_prefix list_ex_iff)
qed (simp add: matches_exactly_def last_matching_def)

text \<open>C27: \<open>evaluate\<close> reports in one pass what the single queries say of the path itself, but it answers for the subtree only
  if the path itself matches or some rule at or below it includes: where an exclusion of the path alone
  hides the inclusion of a subtree above it, it reports that the subtree can be skipped although paths
  below match.\<close>

theorem evaluate_misses_subtrees:
  assumes "total_cmp natural" "filter_wf natural rules"
  shows "evaluated_matches (evaluate rules path) = filter_matches rules path
    \<and> evaluated_matches_exactly (evaluate rules path) = matches_exactly rules path
    \<and> subtree_included (evaluate rules path)
      = ((\<exists>q. prefix path q \<and> filter_matches rules q)
          \<and> (filter_matches rules path \<or> (\<exists>r. (r, Include) \<in> set rules \<and> prefix path (resolved_path r))))"
proof -
  have m: "filter_matches rules path = (case last_matching rules path of None \<Rightarrow> False | Some x \<Rightarrow> snd x = Include)"
    by (auto simp: filter_matches_def most_specific_match_def split: option.splits RuleEffect.splits)
  have "\<exists>q. prefix path q \<and> filter_matches rules q" if "filter_matches rules path" using that by blast
  moreover have "\<exists>q. prefix path q \<and> filter_matches rules q" if "(r, Include) \<in> set rules" "prefix path (resolved_path r)" for r
    using included_rule_included [OF assms that(1)] that(2) by (meson prefix_order.trans)
  moreover have "subtree_included (evaluate rules path)
      \<longleftrightarrow> filter_matches rules path \<or> (\<exists>r. (r, Include) \<in> set rules \<and> prefix path (resolved_path r))"
    unfolding m by (auto simp: evaluate_def foldl_evaluate list_ex_iff split: option.splits RuleEffect.splits)
  moreover have "evaluated_matches (evaluate rules path) = filter_matches rules path"
    unfolding m by (auto simp: evaluate_def foldl_evaluate split: option.splits)
  moreover have "evaluated_matches_exactly (evaluate rules path) = matches_exactly rules path"
    by (simp add: evaluate_def foldl_evaluate)
  ultimately show ?thesis by blast
qed

section \<open>Supersets\<close>

lemma superset_includes:
  assumes "is_superset_of rules other" "(r, Include) \<in> set other"
  shows "\<exists>s. last_matching rules (resolved_path r) = Some (s, Include) \<and> (include_subtree (rule r) \<longrightarrow> include_subtree (rule s))"
proof -
  have "case last_matching rules (resolved_path r) of
      Some (s, effect) \<Rightarrow> (case effect of Include \<Rightarrow> \<not> (include_subtree (rule r) \<and> \<not> include_subtree (rule s)) | Exclude \<Rightarrow> False)
    | None \<Rightarrow> False"
    using assms unfolding is_superset_of_def list_all_iff by force
  moreover have "effect = Include \<or> effect = Exclude" for effect by (cases effect) simp_all
  ultimately show ?thesis by (fastforce split: option.splits RuleEffect.splits)
qed

lemma superset_excludes:
  assumes "is_superset_of rules other" "(s, Exclude) \<in> set rules"
  shows "last_matching other (resolved_path s) \<noteq> Some (t, Include)"
proof -
  have "case last_matching other (resolved_path s) of
      Some (_, effect) \<Rightarrow> (case effect of Include \<Rightarrow> False | Exclude \<Rightarrow> True) | None \<Rightarrow> True"
    using assms unfolding is_superset_of_def list_all_iff by force
  then show ?thesis by (auto split: option.splits RuleEffect.splits)
qed

lemma shadowed_below:
  assumes "rule_matches u q" "prefix p q" "\<not> rule_matches u p"
  shows "prefix p (resolved_path u)"
  using prefix_same_cases [OF assms(2) rule_matches_prefix [OF assms(1)]] assms rule_matches_exact [of u]
    rule_matches_subtree [of u p] by (cases "include_subtree (rule u)") auto

lemma exclusion_extends:
  assumes "rule_matches u q" "rule_matches t (resolved_path u)"
    "resolved_path u = resolved_path t \<Longrightarrow> include_subtree (rule u) \<Longrightarrow> include_subtree (rule t)"
  shows "rule_matches t q"
proof (cases "include_subtree (rule t)")
  case True
  then show ?thesis
    using rule_matches_prefix [OF assms(1)] assms(2) prefix_order.trans by (auto simp: rule_matches_subtree)
next
  case False
  then have "resolved_path u = resolved_path t" "\<not> include_subtree (rule u)" using assms(2, 3) rule_matches_exact by auto
  then show ?thesis using assms(1) False rule_matches_exact by metis
qed

text \<open>C25: The superset check is sound as long as no path is excluded with its subtree by the filter and alone by the other:
  every path that the other filter includes is included.\<close>

theorem superset_check_sound:
  assumes "total_cmp natural" "filter_wf natural rules" "filter_wf natural other" "is_superset_of rules other"
    and no_clash: "\<And>s t. (s, Exclude) \<in> set rules \<Longrightarrow> (t, Exclude) \<in> set other \<Longrightarrow> resolved_path s = resolved_path t
      \<Longrightarrow> include_subtree (rule s) \<Longrightarrow> include_subtree (rule t)"
    and "filter_matches other q"
  shows "filter_matches rules q"
proof -
  obtain r where r: "top_rule (matching q) other (r, Include)" using assms(6) filter_matches_top [OF assms(1, 3)] by blast
  then have rq: "(r, Include) \<in> set other" "rule_matches r q" by (auto simp: top_rule_def)
  obtain s where s: "last_matching rules (resolved_path r) = Some (s, Include)"
    "include_subtree (rule r) \<longrightarrow> include_subtree (rule s)" using superset_includes [OF assms(4) rq(1)] by blast
  then have top_s: "top_rule (matching (resolved_path r)) rules (s, Include)" using last_matching_top [OF assms(1, 2)] by blast
  show ?thesis
  proof (cases "include_subtree (rule r)")
    case False
    then show ?thesis using rq(2) top_s filter_matches_top [OF assms(1, 2), of q] rule_matches_exact by auto
  next
    case True
    have sm: "(s, Include) \<in> set rules" "rule_matches s q"
      using top_s rule_matches_prefix [OF rq(2)] s(2) True prefix_order.trans
      by (auto simp: top_rule_def rule_matches_subtree)
    then obtain u e where u: "top_rule (matching q) rules (u, e)"
      using last_matching_None [of rules q] last_matching_top [OF assms(1, 2), of q] by fastforce
    show ?thesis
    proof (cases e)
      case Include
      then show ?thesis using u filter_matches_top [OF assms(1, 2)] by blast
    next
      case Exclude
      have um: "(u, Exclude) \<in> set rules" "rule_matches u q" using u Exclude by (auto simp: top_rule_def)
      have "more_specific u s" using u sm Exclude by (auto simp: top_rule_def)
      then have "\<not> rule_matches u (resolved_path r)" using top_s um(1) more_specific_asym by (auto simp: top_rule_def)
      then have "prefix (resolved_path r) (resolved_path u)"
        using shadowed_below [OF um(2) rule_matches_prefix [OF rq(2)]] by blast
      then have "rule_matches r (resolved_path u)" using True by (simp add: rule_matches_subtree)
      then obtain t e' where t: "top_rule (matching (resolved_path u)) other (t, e')"
        using rq(1) last_matching_None [of other "resolved_path u"] last_matching_top [OF assms(1, 3), of "resolved_path u"]
        by fastforce
      have e': "e' = Exclude"
        using superset_excludes [OF assms(4) um(1)] last_matching_top [OF assms(1, 3), of "resolved_path u"] t
        by (cases e') auto
      have tm: "(t, Exclude) \<in> set other" "rule_matches t (resolved_path u)" using t e' by (auto simp: top_rule_def)
      have "more_specific t r" using t e' rq(1) \<open>rule_matches r (resolved_path u)\<close> by (auto simp: top_rule_def)
      then have "\<not> rule_matches t q" using r tm(1) more_specific_asym by (auto simp: top_rule_def)
      moreover have "rule_matches t q"
        using exclusion_extends [OF um(2) tm(2)] no_clash [OF um(1) tm(1)] by blast
      ultimately show ?thesis by blast
    qed
  qed
qed

section \<open>Rules for subtrees and for single paths\<close>

lemma ends_with_iff: "ends_with s suf \<longleftrightarrow> (\<exists>t. s = t @ suf)"
proof
  show "ends_with s suf \<Longrightarrow> \<exists>t. s = t @ suf" unfolding ends_with_def by (metis append_take_drop_id)
qed (auto simp: ends_with_def)

lemma subtree_rule_is_subtree [simp]: "include_subtree (including_entity_subtree U path)"
  by (auto simp: include_subtree_def ends_with_iff including_entity_subtree_def rule_including_subtree_def)

lemma printed_char_no_star:
  assumes "unicode_laws U" "escape_char U c = t @ [STAR]"
  shows "t = [BACKSLASH]"
proof -
  have "\<not> uc_alphanumeric U STAR" using assms(1) by (simp add: unicode_laws_def ascii_alphanumeric_def)
  then show ?thesis
    using assms(2) by (auto simp: escape_char_def print_as_is_def Cons_eq_append_conv append_eq_append_conv2 split: if_splits)
qed

lemma exact_rule_not_subtree:
  assumes "unicode_laws U"
  shows "\<not> include_subtree (rule_exact_entity U path)"
proof
  assume "include_subtree (rule_exact_entity U path)"
  then obtain t where t: "path_to_string U path = t @ [SLASH, STAR, STAR]"
    by (auto simp: include_subtree_def ends_with_iff rule_exact_entity_def SUBTREE_def)
  show False
  proof (cases path rule: rev_cases)
    case Nil
    then show False using t by (simp add: path_to_string_def Cons_eq_append_conv)
  next
    case (snoc pre part)
    define u where "u = concat (map (\<lambda>part. SLASH # escaped_string U part) pre) @ [SLASH]"
    then have u: "u @ escaped_string U part = t @ [SLASH, STAR, STAR]" "last u = SLASH"
      using t snoc by (simp_all add: path_to_string_def)
    show False
    proof (cases part rule: rev_cases)
      case Nil
      then have "u = t @ [SLASH, STAR, STAR]" using u(1) by (simp add: escaped_string_def)
      then show False using u(2) by simp
    next
      case (snoc ps c)
      then have e: "(u @ escaped_string U ps) @ escape_char U c = (t @ [SLASH, STAR]) @ [STAR]"
        using u(1) by (simp add: escaped_string_def)
      obtain w d where w: "escape_char U c = w @ [d]" by (cases "escape_char U c" rule: rev_cases) (auto simp: escape_char_def split: if_splits)
      then have "d = STAR" using e by (simp flip: append_assoc)
      then have "w = [BACKSLASH]" using printed_char_no_star [OF assms] w by blast
      then show False using e w by (simp flip: append_assoc)
    qed
  qed
qed

lemma resolved_rule_simps [simp]:
  "resolved_path (resolved_including_subtree U path) = path" "resolved_path (resolved_exact_entity U path) = path"
  "include_subtree (rule (resolved_including_subtree U path))"
  by (simp_all add: resolved_including_subtree_def resolved_exact_entity_def)

lemma resolved_exact_simps: "unicode_laws U \<Longrightarrow> \<not> include_subtree (rule (resolved_exact_entity U path))"
  by (simp add: resolved_exact_entity_def exact_rule_not_subtree)

text \<open>C26: The superset check, documented never to answer yes wrongly, does so when one filter excludes a child with its
  subtree and the other excludes the child alone: everything below the child is included by the other
  filter only.\<close>

theorem superset_check_unsound:
  fixes path :: entity_path and child below :: ustr
  assumes "unicode_laws U" "total_cmp natural"
  defines "parent \<equiv> (resolved_including_subtree U path, Include)"
  defines "rules \<equiv> [parent, (resolved_including_subtree U (path @ [child]), Exclude)]"
    and "other \<equiv> [parent, (resolved_exact_entity U (path @ [child]), Exclude)]"
  shows "filter_wf natural rules \<and> filter_wf natural other \<and> is_superset_of rules other
    \<and> filter_matches other (path @ [child, below]) \<and> \<not> filter_matches rules (path @ [child, below])"
proof -
  have less: "path_cmp natural path (path @ [child]) = Less" using path_cmp_prefix [OF assms(2), of path "path @ [child]"] by simp
  note exact = resolved_exact_simps [OF assms(1)]
  have "filter_wf natural rules" "filter_wf natural other"
    using less by (simp_all add: filter_wf_def bm_wf_def rules_def other_def parent_def rule_cmp_def)
  moreover have "is_superset_of rules other"
    by (simp add: is_superset_of_def rules_def other_def parent_def last_matching_def rule_matches_subtree rule_matches_exact exact)
  moreover have "filter_matches other (path @ [child, below])" "\<not> filter_matches rules (path @ [child, below])"
    by (simp_all add: filter_matches_def most_specific_match_def rules_def other_def parent_def last_matching_def
        rule_matches_subtree rule_matches_exact exact)
  ultimately show ?thesis by blast
qed

section \<open>Updates\<close>

text \<open>Every filter is kept in the order of its rules, from the least to the most specific where several match: after
  parsing and resolving, in both modes, and after adding and removing rules.\<close>

theorem filter_operations_keep_order:
  assumes "total_cmp natural"
  shows "bm_wf str_cmp (filter_parse_forgiving U text) \<and> bm_wf str_cmp (unresolved U rules)
    \<and> filter_wf natural (resolve_forgiving natural U unres env)
    \<and> (resolve_strict natural U unres env = Inr resolved \<longrightarrow> filter_wf natural resolved)
    \<and> (filter_wf natural rules \<longrightarrow> filter_wf natural (add_rule natural effect r rules)
        \<and> filter_wf natural (remove_subtree_and_matching_rules natural U path rules)
        \<and> filter_wf natural (remove_rule_for path rules))"
proof -
  note wf = total_cmp.bm_wf_insert [OF total_rule_cmp [OF assms]] total_cmp.bm_wf_or_insert [OF total_rule_cmp [OF assms]]
    total_cmp.bm_wf_collect [OF total_rule_cmp [OF assms]] bm_wf_filter
  have "bm_wf str_cmp m \<Longrightarrow> bm_wf str_cmp (foldl (\<lambda>m line.
        let (effect, path_pattern) =
          (if hd line = PLUS then (Include, tl line) else if hd line = MINUS then (Exclude, tl line) else (Include, line))
        in bm_insert str_cmp (rule_new U path_pattern) effect m) m lines)" for m lines
    by (induction lines arbitrary: m) (simp_all add: case_prod_beta str.bm_wf_insert)
  then have "bm_wf str_cmp (filter_parse_forgiving U text)"
    unfolding filter_parse_forgiving_def from_query_expressions_def by (simp add: bm_wf_def)
  moreover have "bm_wf str_cmp (unresolved U rules)" unfolding unresolved_def by (rule str.bm_wf_collect)
  moreover have "filter_wf natural (resolve_forgiving natural U unres env)"
    by (simp add: filter_wf_def resolve_forgiving_def exclude_properties_def wf)
  moreover have "filter_wf natural resolved" if "resolve_strict natural U unres env = Inr resolved"
    using that by (cases "resolve_all U unres env") (auto simp: filter_wf_def resolve_strict_def exclude_properties_def wf)
  moreover have "filter_wf natural (add_rule natural effect r rules)
        \<and> filter_wf natural (remove_subtree_and_matching_rules natural U path rules)
        \<and> filter_wf natural (remove_rule_for path rules)" if "filter_wf natural rules"
    using that
    by (simp add: filter_wf_def add_rule_def remove_subtree_and_matching_rules_def remove_rule_for_def wf Let_def)
  ultimately show ?thesis by blast
qed

lemma top_rule_cong:
  assumes "{x \<in> set rules. P x} = {x \<in> set rules'. P x}"
  shows "top_rule P rules x = top_rule P rules' x"
proof -
  have top: "top_rule P rs x \<longleftrightarrow> x \<in> {x \<in> set rs. P x} \<and> (\<forall>y \<in> {x \<in> set rs. P x}. y = x \<or> more_specific (fst x) (fst y))"
    for rs unfolding top_rule_def by blast
  show ?thesis unfolding top assms ..
qed

lemma strict_path_cmp:
  assumes "strict_cmp natural" "path_cmp natural p q = Equal"
  shows "p = q"
  using assms(2)
proof (induction p arbitrary: q)
  case Nil
  then show ?case by (cases q) auto
next
  case (Cons a p)
  then obtain b q' where q: "q = b # q'" by (cases q) auto
  then have "part_cmp natural a b = Equal" "path_cmp natural p q' = Equal"
    using Cons.prems by (auto split: Ordering.splits)
  then show ?case
    using Cons.IH q strict_cmp.cmp_Equal [OF assms(1)] by (auto simp: part_cmp_def split: if_splits)
qed

lemma rule_cmp_other_path:
  assumes "strict_cmp natural" "\<not> prefix path (resolved_path r)"
  shows "rule_cmp natural \<lparr>rule = s, resolved_path = path\<rparr> r \<noteq> Equal"
  using strict_path_cmp [OF assms(1), of path "resolved_path r"] assms(2) by (auto simp: rule_cmp_def split: Ordering.splits)

lemma subtree_excluded:
  assumes "total_cmp natural" "filter_wf natural rules" "set rules = insert (new, Exclude) kept"
    "include_subtree (rule new)" "\<And>x. x \<in> kept \<Longrightarrow> \<not> prefix (resolved_path new) (resolved_path (fst x))"
    "prefix (resolved_path new) q"
  shows "\<not> filter_matches rules q"
proof -
  have "\<not> top_rule (matching q) rules (r, Include)" for r
  proof
    assume r: "top_rule (matching q) rules (r, Include)"
    then have "(r, Include) \<in> kept" "prefix (resolved_path r) q"
      using assms(3) rule_matches_prefix by (auto simp: top_rule_def)
    then have "prefix (resolved_path r) (resolved_path new)" "resolved_path r \<noteq> resolved_path new"
      using assms(5) [of "(r, Include)"] prefix_same_cases [OF _ assms(6)] by auto
    moreover have "more_specific r new"
      using r assms(3, 4, 6) by (auto simp: top_rule_def rule_matches_subtree)
    ultimately show False using prefix_length_le [of "resolved_path r" "resolved_path new"] by (simp add: more_specific_def)
  qed
  then show ?thesis using filter_matches_top [OF assms(1, 2)] by blast
qed

text \<open>C28: Removing a subtree excludes exactly that subtree: afterwards a path matches if and only if it matched before and
  is neither the removed path nor below it.\<close>

theorem remove_subtree_excludes_exactly:
  assumes "strict_cmp natural" "filter_wf natural rules"
  shows "filter_matches (remove_subtree_and_matching_rules natural U path rules) q
    = (filter_matches rules q \<and> \<not> prefix path q)"
proof -
  note total = strict_cmp.axioms(1) [OF assms(1)]
  let ?new = "\<lparr>rule = including_entity_subtree U path, resolved_path = path\<rparr>"
  let ?kept = "filter (\<lambda>(r, _). \<not> rule_matches ?new (resolved_path r)) rules"
  let ?rules = "remove_subtree_and_matching_rules natural U path rules"
  have new: "rule_matches ?new p \<longleftrightarrow> prefix path p" for p by (simp add: rule_matches_subtree)
  have kept: "x \<in> set ?kept \<longleftrightarrow> x \<in> set rules \<and> \<not> prefix path (resolved_path (fst x))" for x
    by (auto simp: new)
  have "rule_cmp natural ?new (fst x) \<noteq> Equal" if "x \<in> set ?kept" for x
    using rule_cmp_other_path [OF assms(1)] that kept [of x] by blast
  then have set: "set ?rules = insert (?new, Exclude) (set ?kept)"
    unfolding remove_subtree_and_matching_rules_def Let_def bm_insert_def
    by (intro total_cmp.bm_upsert_new [OF total_rule_cmp [OF total]]) blast
  have wf: "filter_wf natural ?rules"
    using assms(2) by (simp add: filter_wf_def remove_subtree_and_matching_rules_def Let_def bm_wf_filter
        total_cmp.bm_wf_insert [OF total_rule_cmp [OF total]])
  note top = filter_matches_top [OF total wf] filter_matches_top [OF total assms(2)]
  show ?thesis
  proof (cases "prefix path q")
    case True
    have "\<not> filter_matches ?rules q"
      by (rule subtree_excluded [OF total wf set]) (use True kept in simp_all)
    then show ?thesis using True by blast
  next
    case False
    have "{x \<in> set ?rules. matching q x} = {x \<in> set rules. matching q x}"
    proof -
      have "x \<in> set ?rules \<and> matching q x \<longleftrightarrow> x \<in> set rules \<and> matching q x" for x
        using set kept [of x] new [of q] False rule_matches_prefix [of "fst x" q] prefix_order.trans [of path _ q]
        by (auto simp: case_prod_beta)
      then show ?thesis by blast
    qed
    then show ?thesis using top_rule_cong [of ?rules "matching q" rules] False top by simp
  qed
qed

text \<open>Recording properties are excluded by default: unless a rule of the filter is for the properties or a path below
  them, no such path matches the resolved filter, not even where a rule includes everything.\<close>

theorem properties_excluded_by_default:
  assumes "strict_cmp natural" "is_property q"
    and user: "\<forall>(r, effect) \<in> set unres. \<not> is_property (resolved_path (resolved_parse_forgiving U r env))"
  shows "\<not> filter_matches (resolve_forgiving natural U unres env) q"
proof -
  note total = strict_cmp.axioms(1) [OF assms(1)]
  let ?new = "resolved_including_subtree U path_properties"
  let ?user = "bm_collect (rule_cmp natural) (map (\<lambda>(r, effect). (resolved_parse_forgiving U r env, effect)) unres)"
  have other: "\<not> prefix path_properties (resolved_path (fst x))" if "x \<in> set ?user" for x
    using total_cmp.bm_collect_pairs [OF total_rule_cmp [OF total] that] user
    by (auto simp: is_property_def path_starts_with_prefix)
  have "set (resolve_forgiving natural U unres env) = insert (?new, Exclude) (set ?user)"
    unfolding resolve_forgiving_def exclude_properties_def bm_or_insert_def resolved_including_subtree_def
    by (intro total_cmp.bm_upsert_new [OF total_rule_cmp [OF total]] ballI rule_cmp_other_path [OF assms(1)] other)
  moreover have "filter_wf natural (resolve_forgiving natural U unres env)"
    by (simp add: filter_wf_def resolve_forgiving_def exclude_properties_def
        total_cmp.bm_wf_or_insert [OF total_rule_cmp [OF total]] total_cmp.bm_wf_collect [OF total_rule_cmp [OF total]])
  ultimately show ?thesis
    using subtree_excluded [OF total, of _ ?new "set ?user" q] other assms(2)
    by (simp add: is_property_def path_starts_with_prefix)
qed

section \<open>An example\<close>

text \<open>The filter of the documentation's kind, \<open>+ /w/**\<close> and \<open>- /w/c\<close>.\<close>

definition ascii :: unicode where
  "ascii = \<lparr>uc_alphanumeric = ascii_alphanumeric, uc_whitespace = is_ascii_whitespace\<rparr>"

definition demo_rules :: ResolvedEntityPathFilter where
  "demo_rules = [(resolved_including_subtree ascii [[119]], Include), (resolved_exact_entity ascii [[119], [99]], Exclude)]"

lemma ascii_laws: "unicode_laws ascii"
  by (simp add: ascii_def unicode_laws_def)

lemma demo_wf: "filter_wf str_cmp demo_rules"
  by (simp add: demo_rules_def filter_wf_def bm_wf_def rule_cmp_def part_cmp_def is_reserved_part_def)

lemmas demo_match = demo_rules_def rule_matches_subtree rule_matches_exact resolved_exact_simps [OF ascii_laws]

lemma demo_matches: "filter_matches demo_rules [[119], [99], [100]]" "\<not> filter_matches demo_rules [[119], [99]]"
  by (simp_all add: filter_matches_def most_specific_match_def last_matching_def demo_match)

theorem most_specific_rule_wins_witness:
  "most_specific_match demo_rules [[119], [99]] = Some Exclude"
proof -
  let ?x = "(resolved_exact_entity ascii [[119], [99]], Exclude)"
  have "?x \<in> set demo_rules \<and> rule_matches (fst ?x) [[119], [99]]
      \<and> (\<forall>(s, other) \<in> set demo_rules. rule_matches s [[119], [99]] \<longrightarrow> (s, other) = ?x \<or> more_specific (fst ?x) s)"
    by (simp add: demo_match more_specific_def)
  then show ?thesis
    using most_specific_rule_wins [OF str.total_cmp_axioms demo_wf, of "[[119], [99]]" Exclude] unfolding fst_conv by blast
qed

theorem subtree_inclusion_exact_witness: "is_anything_in_subtree_included demo_rules [[119], [99]]"
  using subtree_inclusion_exact [OF str.total_cmp_axioms demo_wf, of "[[119], [99]]"] demo_matches(1)
  by (metis append_Cons append_Nil prefixI)

theorem evaluate_misses_subtrees_witness:
  "\<not> subtree_included (evaluate demo_rules [[119], [99]]) \<and> filter_matches demo_rules [[119], [99], [100]]"
proof -
  have "\<not> ((r, Include) \<in> set demo_rules \<and> prefix [[119], [99]] (resolved_path r))" for r
    by (auto simp: demo_rules_def)
  then show ?thesis
    using evaluate_misses_subtrees [OF str.total_cmp_axioms demo_wf, of "[[119], [99]]"] demo_matches by blast
qed

theorem superset_check_sound_witness: "filter_matches demo_rules [[119], [100]]"
proof (rule superset_check_sound [OF str.total_cmp_axioms demo_wf])
  let ?other = "[(resolved_exact_entity ascii [[119], [100]], Include)]"
  show "filter_wf str_cmp ?other" by (simp add: filter_wf_def bm_wf_def)
  show "is_superset_of demo_rules ?other" by (simp add: is_superset_of_def last_matching_def demo_match)
  show "filter_matches ?other [[119], [100]]"
    by (simp add: filter_matches_def most_specific_match_def last_matching_def demo_match)
qed simp

theorem superset_check_unsound_witness:
  "filter_matches [(resolved_including_subtree ascii [[97]], Include), (resolved_exact_entity ascii ([[97]] @ [[98]]), Exclude)]
     ([[97]] @ [[98], [99]])"
  using superset_check_unsound [OF ascii_laws str.total_cmp_axioms, of "[[97]]" "[98]" "[99]"] by blast

theorem filter_operations_keep_order_witness:
  "filter_wf str_cmp (add_rule str_cmp Include (resolved_exact_entity ascii [[120]]) demo_rules)"
  using filter_operations_keep_order [OF str.total_cmp_axioms] demo_wf by blast

theorem remove_subtree_excludes_exactly_witness:
  "\<not> filter_matches (remove_subtree_and_matching_rules str_cmp ascii [[119], [99]] demo_rules) [[119], [99], [100]]"
  using remove_subtree_excludes_exactly [OF str.strict_cmp_axioms demo_wf, of ascii "[[119], [99]]" "[[119], [99], [100]]"]
  by simp

theorem properties_excluded_by_default_witness:
  "\<not> filter_matches (resolve_forgiving str_cmp ascii filter_all []) (path_properties @ [[97]])"
proof (rule properties_excluded_by_default [OF str.strict_cmp_axioms])
  show "is_property (path_properties @ [[97]])" by (simp add: is_property_def path_starts_with_prefix)
  show "\<forall>(r, effect) \<in> set filter_all. \<not> is_property (resolved_path (resolved_parse_forgiving ascii r []))"
    by (simp add: filter_all_def rule_including_subtree_def resolved_parse_forgiving_def substitute_variables_def rule_new_def
        trim_def SUBTREE_def ascii_def is_ascii_whitespace_def is_property_def path_starts_with_def path_properties_def)
qed

end
