(* ===== verification/Chunk_Batcher.thy ===== *)
theory Chunk_Batcher
  imports Chunk Ordered_Map
begin

text \<open>
  The batcher (\<open>re_chunk/src/batcher.rs\<close>): rows that are logged one by one, how a batch of them becomes
  chunks, and the batching thread as a state machine over the commands and ticks it receives. What it
  sends is the list of chunks in the state. The end of the command channel is the command \<open>Shutdown\<close>. Hash maps
  are association lists in insertion order. The clock, the channels with their quotas, the hooks and the
  configuration from the environment are left out, and sums of sizes are not bounded.
\<close>

section \<open>Pending rows\<close>

record TimeCell =
  cell_typ :: TimeType
  cell_value :: NonMinI64

text \<open>An arrow array is its data type and its values.\<close>

type_synonym 'c typed_array = "string \<times> 'c list"

record 'c SerializedComponentBatch =
  ba_array :: "'c typed_array"
  ba_descriptor :: ComponentDescriptor

record 'c PendingRow =
  pr_row_id :: RowId
  pr_timepoint :: "(TimelineName \<times> TimeCell) list"
  pr_components :: "(ComponentIdentifier \<times> 'c SerializedComponentBatch) list"

text \<open>What the code takes from its surroundings: the build, arrow's \<open>concat\<close> of values (\<open>None\<close> is an error), the
  hashers, the traversal order of an \<open>IntMap\<close>, the measured size of a row, and the identifiers that
  \<open>ChunkId::new\<close> returns, in order. A map keeps its entries in the order of their insertion; \<open>IntMap\<close> traverses
  them in an order of its own, which its keys and the order of their insertion determine, and which the two
  ranks give for the components of a row and for the groups of rows.\<close>

record 'c batcher_env =
  be_build :: "'c build"
  be_concat :: "'c typed_array list \<Rightarrow> 'c list option"
  be_hash_timelines :: "TimelineName list \<Rightarrow> nat"
  be_hash_datatypes :: "string list \<Rightarrow> nat"
  be_rank_components :: "ComponentIdentifier list \<Rightarrow> ComponentIdentifier \<Rightarrow> nat"
  be_rank_groups :: "nat list \<Rightarrow> nat \<Rightarrow> nat"
  be_row_size :: "'c PendingRow \<Rightarrow> nat"
  be_fresh :: "nat \<Rightarrow> ChunkId"

definition pending_new ::
  "RowId \<Rightarrow> (TimelineName \<times> TimeCell) list \<Rightarrow> (ComponentIdentifier \<times> 'c SerializedComponentBatch) list \<Rightarrow> 'c PendingRow" where
  "pending_new row_id timepoint comps = \<lparr>pr_row_id = row_id, pr_timepoint = timepoint, pr_components = comps\<rparr>"

definition pending_from_iter ::
  "RowId \<Rightarrow> (TimelineName \<times> TimeCell) list \<Rightarrow> 'c SerializedComponentBatch list \<Rightarrow> 'c PendingRow" where
  "pending_from_iter row_id timepoint comps =
     pending_new row_id timepoint (foldl (\<lambda>m b. al_insert (cd_component (ba_descriptor b)) b m) [] comps)"

section \<open>List arrays from the arrays of single rows\<close>

definition somes :: "'a option list \<Rightarrow> 'a list" where
  "somes xs = map the (filter (\<lambda>x. x \<noteq> None) xs)"

definition arrays_to_list_array ::
  "'c batcher_env \<Rightarrow> string \<Rightarrow> 'c typed_array option list \<Rightarrow> 'c list_array option" where
  "arrays_to_list_array E array_datatype arrays =
     (let arrays_dense = somes arrays;
          data = (if arrays_dense = [] then Some [] else be_concat E arrays_dense)
      in map_option (\<lambda>data. \<lparr>la_datatype = array_datatype,
           la_offsets = from_lengths (map (\<lambda>a. case a of None \<Rightarrow> 0 | Some a \<Rightarrow> length (snd a)) arrays),
           la_values = data, la_nulls = Some (map (\<lambda>a. a \<noteq> None) arrays)\<rparr>) data)"

definition arrays_to_list_array_opt :: "'c batcher_env \<Rightarrow> 'c typed_array option list \<Rightarrow> 'c list_array option" where
  "arrays_to_list_array_opt E arrays =
     (case somes arrays of [] \<Rightarrow> None | a # _ \<Rightarrow> arrays_to_list_array E (fst a) arrays)"

section \<open>Pending time columns\<close>

record PendingTimeColumn =
  pt_timeline :: Timeline
  pt_times :: "i64 list"
  pt_is_sorted :: bool
  pt_time_range :: AbsoluteTimeRange

definition pt_new :: "Timeline \<Rightarrow> PendingTimeColumn" where
  "pt_new timeline = \<lparr>pt_timeline = timeline, pt_times = [], pt_is_sorted = True, pt_time_range = AbsoluteTimeRange_EMPTY\<rparr>"

definition pt_push :: "TimeInt \<Rightarrow> PendingTimeColumn \<Rightarrow> PendingTimeColumn" where
  "pt_push time col =
     (let r = pt_time_range col;
          r = range_set_min r (Some (min (range_min r) time));
          r = range_set_max r (Some (max (range_max r) time))
      in col\<lparr>pt_is_sorted := pt_is_sorted col
               \<and> (case list_last (pt_times col) of None \<Rightarrow> as_i64 TimeInt_MIN | Some t \<Rightarrow> t) \<le> as_i64 time,
             pt_time_range := r, pt_times := pt_times col @ [as_i64 time]\<rparr>)"

definition pt_finish :: "PendingTimeColumn \<Rightarrow> TimeColumn" where
  "pt_finish col = \<lparr>tc_timeline = pt_timeline col, tc_times = pt_times col, tc_is_sorted = pt_is_sorted col,
     tc_time_range = pt_time_range col\<rparr>"

section \<open>Rows into chunks\<close>

text \<open>The components of a chunk under construction: descriptor and one optional array per row.\<close>

type_synonym 'c building = "(ComponentIdentifier \<times> ComponentDescriptor \<times> 'c typed_array option list) list"

definition finish_components :: "'c batcher_env \<Rightarrow> 'c building \<Rightarrow> 'c ChunkComponents" where
  "finish_components E comps =
     foldl (\<lambda>m (_, desc, arrays).
        case arrays_to_list_array_opt E arrays of None \<Rightarrow> m | Some la \<Rightarrow> components_insert (sc_new la desc) m) [] comps"

definition into_chunk :: "'c batcher_env \<Rightarrow> ChunkId \<Rightarrow> EntityPath \<Rightarrow> 'c PendingRow \<Rightarrow> ChunkError + 'c Chunk" where
  "into_chunk E id0 path row =
     chunk_new (be_build E) id0 path (Some True) [pr_row_id row]
       (map (\<lambda>(name, c). (name, tc_new (Some True) \<lparr>tl_name = name, tl_typ = cell_typ c\<rparr> [nonmin_get (cell_value c)]))
         (pr_timepoint row))
       (finish_components E (map (\<lambda>(c, b). (c, ba_descriptor b, [Some (ba_array b)])) (pr_components row)))"

record 'c batch_state =
  bs_row_ids :: "RowId list"
  bs_timelines :: "(TimelineName \<times> PendingTimeColumn) list"
  bs_components :: "'c building"
  bs_chunks :: "(RowId list \<times> (TimelineName \<times> PendingTimeColumn) list \<times> 'c building) list"

text \<open>Every component of the batch, with the descriptor of its first appearance and no arrays yet.\<close>

definition all_components :: "'c PendingRow list \<Rightarrow> 'c building" where
  "all_components rows =
     foldl (\<lambda>m row. foldl (\<lambda>m (c, b). if map_of m c = None then al_insert c (ba_descriptor b, []) m else m) m
       (pr_components row)) [] rows"

definition column_entry :: "TimelineName \<times> TimeCell \<Rightarrow> (TimelineName \<times> PendingTimeColumn) list \<Rightarrow> PendingTimeColumn" where
  "column_entry nc tls = al_get (pt_new \<lparr>tl_name = fst nc, tl_typ = cell_typ (snd nc)\<rparr>) (fst nc) tls"

text \<open>The search for unsorted timelines: one turn of the loop over the times of a row.\<close>

definition split_if_unsorted ::
  "nat \<Rightarrow> 'c building \<Rightarrow> TimelineName \<times> TimeCell \<Rightarrow> 'c batch_state \<Rightarrow> 'c batch_state" where
  "split_if_unsorted max_rows all nc st =
     (let col = column_entry nc (bs_timelines st);
          tls = al_insert (fst nc) col (bs_timelines st)
      in if bs_row_ids st \<noteq> [] \<and> length (bs_row_ids st) \<ge> max_rows \<and> \<not> pt_is_sorted col
         then \<lparr>bs_row_ids = [], bs_timelines = [], bs_components = all,
               bs_chunks = bs_chunks st @ [(bs_row_ids st, tls, bs_components st)]\<rparr>
         else st\<lparr>bs_timelines := tls\<rparr>)"

definition push_time :: "TimelineName \<times> TimeCell \<Rightarrow> (TimelineName \<times> PendingTimeColumn) list \<Rightarrow> (TimelineName \<times> PendingTimeColumn) list" where
  "push_time nc tls = al_insert (fst nc) (pt_push (TimeInt (Some (cell_value (snd nc)))) (column_entry nc tls)) tls"

definition batch_row :: "nat \<Rightarrow> 'c building \<Rightarrow> 'c batch_state \<Rightarrow> 'c PendingRow \<Rightarrow> 'c batch_state" where
  "batch_row max_rows all st row =
     (let st = fold (split_if_unsorted max_rows all) (pr_timepoint row) st
      in st\<lparr>bs_row_ids := bs_row_ids st @ [pr_row_id row],
            bs_timelines := fold push_time (pr_timepoint row) (bs_timelines st),
            bs_components := map (\<lambda>(c, desc, arrays).
              (c, desc, arrays @ [map_option ba_array (map_of (pr_components row) c)])) (bs_components st)\<rparr>)"

definition batch_drafts ::
  "nat \<Rightarrow> 'c PendingRow list \<Rightarrow> (RowId list \<times> (TimelineName \<times> PendingTimeColumn) list \<times> 'c building) list" where
  "batch_drafts max_rows rows =
     (let all = all_components rows;
          st = foldl (batch_row max_rows all)
            \<lparr>bs_row_ids = [], bs_timelines = [], bs_components = all, bs_chunks = []\<rparr> rows
      in bs_chunks st @ [(bs_row_ids st, bs_timelines st, bs_components st)])"

definition finish_draft ::
  "'c batcher_env \<Rightarrow> EntityPath \<Rightarrow> ChunkId \<Rightarrow> RowId list \<times> (TimelineName \<times> PendingTimeColumn) list \<times> 'c building
    \<Rightarrow> ChunkError + 'c Chunk" where
  "finish_draft E path id0 draft =
     (case draft of
        (row_ids, tls, comps) \<Rightarrow>
          chunk_new (be_build E) id0 path (Some True) row_ids (map (\<lambda>(name, col). (name, pt_finish col)) tls)
            (finish_components E comps))"

text \<open>The entries of an \<open>IntMap\<close> in the order of its traversal.\<close>

definition int_map_iter :: "('k list \<Rightarrow> 'k \<Rightarrow> nat) \<Rightarrow> ('k \<times> 'v) list \<Rightarrow> ('k \<times> 'v) list" where
  "int_map_iter rank m = sort_key (\<lambda>e. rank (map fst m) (fst e)) m"

definition group_rows ::
  "'c batcher_env \<Rightarrow> ('c PendingRow \<Rightarrow> nat) \<Rightarrow> 'c PendingRow list \<Rightarrow> 'c PendingRow list list" where
  "group_rows E h rows =
     map snd (int_map_iter (be_rank_groups E) (foldl (\<lambda>m row. al_entry (h row) [] (\<lambda>g. g @ [row]) m) [] rows))"

definition timeline_hash :: "'c batcher_env \<Rightarrow> 'c PendingRow \<Rightarrow> nat" where
  "timeline_hash E row = be_hash_timelines E (map fst (pr_timepoint row))"

definition hashed_datatypes :: "'c batcher_env \<Rightarrow> 'c PendingRow \<Rightarrow> string list" where
  "hashed_datatypes E row = map (fst \<circ> ba_array \<circ> snd) (int_map_iter (be_rank_components E) (pr_components row))"

definition datatype_hash :: "'c batcher_env \<Rightarrow> 'c PendingRow \<Rightarrow> nat" where
  "datatype_hash E row = be_hash_datatypes E (hashed_datatypes E row)"

text \<open>\<open>many_into_chunks\<close>; the chunk identifiers are drawn from the given position on.\<close>

definition many_into_chunks ::
  "'c batcher_env \<Rightarrow> EntityPath \<Rightarrow> nat \<Rightarrow> nat \<Rightarrow> 'c PendingRow list \<Rightarrow> (ChunkError + 'c Chunk) list" where
  "many_into_chunks E path n chunk_max_rows_if_unsorted rows =
     (let drafts = concat (map (\<lambda>rows. concat (map (batch_drafts chunk_max_rows_if_unsorted) (group_rows E (datatype_hash E) rows)))
            (group_rows E (timeline_hash E) (sort_key pr_row_id rows)))
      in map (\<lambda>(i, draft). finish_draft E path (be_fresh E (n + i)) draft) (zip [0..<length drafts] drafts))"

section \<open>The batching thread\<close>

text \<open>Durations are in nanoseconds.\<close>

record ChunkBatcherConfig =
  flush_tick :: nat
  flush_num_bytes :: nat
  flush_num_rows :: nat
  chunk_max_rows_if_unsorted :: nat
  max_bytes_in_flight :: nat

definition Duration_MAX :: nat where
  "Duration_MAX = (2 ^ 64 - 1) * 10 ^ 9 + 999999999"

definition config_DEFAULT :: ChunkBatcherConfig where
  "config_DEFAULT = \<lparr>flush_tick = 200 * 10 ^ 6, flush_num_bytes = 2 * 1024 * 1024, flush_num_rows = 2 ^ 64 - 1,
     chunk_max_rows_if_unsorted = 8192, max_bytes_in_flight = 100 * 1024 * 1024\<rparr>"

definition config_LOW_LATENCY :: ChunkBatcherConfig where
  "config_LOW_LATENCY = config_DEFAULT\<lparr>flush_tick := 8 * 10 ^ 6\<rparr>"

definition config_ALWAYS_TEST_ONLY :: ChunkBatcherConfig where
  "config_ALWAYS_TEST_ONLY = config_DEFAULT\<lparr>flush_tick := Duration_MAX, flush_num_bytes := 0, flush_num_rows := 0,
     chunk_max_rows_if_unsorted := 256\<rparr>"

definition config_NEVER :: ChunkBatcherConfig where
  "config_NEVER = config_DEFAULT\<lparr>flush_tick := Duration_MAX, flush_num_bytes := 2 ^ 64 - 1, flush_num_rows := 2 ^ 64 - 1,
     chunk_max_rows_if_unsorted := 256\<rparr>"

definition always_flushes :: "ChunkBatcherConfig \<Rightarrow> bool" where
  "always_flushes c \<longleftrightarrow> flush_num_rows c = 0 \<or> flush_num_bytes c = 0"

record 'c Accumulator =
  acc_pending_rows :: "'c PendingRow list"
  acc_pending_num_bytes :: nat

definition acc_new :: "'c Accumulator" where
  "acc_new = \<lparr>acc_pending_rows = [], acc_pending_num_bytes = 0\<rparr>"

datatype 'c Command =
    AppendChunk "'c Chunk" | AppendRow EntityPath "'c PendingRow" | Flush | UpdateConfig ChunkBatcherConfig | Shutdown

datatype 'c batcher_event = Recv "'c Command" | Tick

text \<open>The state of the thread: accumulators by entity, what was sent, how many identifiers were drawn.\<close>

record 'c batcher =
  bt_accs :: "(EntityPath \<times> 'c Accumulator) list"
  bt_config :: ChunkBatcherConfig
  bt_skip_next_tick :: bool
  bt_sent :: "'c Chunk list"
  bt_drawn :: nat
  bt_running :: bool

definition batcher_new :: "ChunkBatcherConfig \<Rightarrow> 'c batcher" where
  "batcher_new c = \<lparr>bt_accs = [], bt_config = c, bt_skip_next_tick = False, bt_sent = [], bt_drawn = 0, bt_running = True\<rparr>"

definition send_chunk :: "'c Chunk \<Rightarrow> 'c batcher \<Rightarrow> 'c batcher" where
  "send_chunk chunk st = (if ch_components chunk \<noteq> [] then st\<lparr>bt_sent := bt_sent st @ [chunk]\<rparr> else st)"

definition do_push_row :: "'c batcher_env \<Rightarrow> 'c PendingRow \<Rightarrow> 'c Accumulator \<Rightarrow> 'c Accumulator" where
  "do_push_row E row acc = acc\<lparr>acc_pending_num_bytes := acc_pending_num_bytes acc + be_row_size E row,
     acc_pending_rows := acc_pending_rows acc @ [row]\<rparr>"

definition do_flush_all :: "'c batcher_env \<Rightarrow> EntityPath \<Rightarrow> 'c batcher \<Rightarrow> 'c batcher" where
  "do_flush_all E path st =
     (let rows = acc_pending_rows (al_get acc_new path (bt_accs st))
      in if rows = [] then st
         else
           let chunks = many_into_chunks E path (bt_drawn st) (chunk_max_rows_if_unsorted (bt_config st)) rows;
               st = fold (\<lambda>chunk st. case chunk of Inr chunk \<Rightarrow> send_chunk chunk st | Inl _ \<Rightarrow> st) chunks st
           in st\<lparr>bt_accs := al_insert path acc_new (bt_accs st), bt_drawn := bt_drawn st + length chunks\<rparr>)"

definition flush_every :: "'c batcher_env \<Rightarrow> 'c batcher \<Rightarrow> 'c batcher" where
  "flush_every E st = fold (do_flush_all E) (map fst (bt_accs st)) st"

definition append_row :: "'c batcher_env \<Rightarrow> EntityPath \<Rightarrow> 'c PendingRow \<Rightarrow> 'c batcher \<Rightarrow> 'c batcher" where
  "append_row E path row st =
     (let acc = do_push_row E row (al_get acc_new path (bt_accs st));
          st = st\<lparr>bt_accs := al_insert path acc (bt_accs st)\<rparr>
      in if length (acc_pending_rows acc) \<ge> flush_num_rows (bt_config st)
         then (do_flush_all E path st)\<lparr>bt_skip_next_tick := True\<rparr>
         else if acc_pending_num_bytes acc \<ge> flush_num_bytes (bt_config st)
         then (do_flush_all E path st)\<lparr>bt_skip_next_tick := True\<rparr>
         else st)"

fun batcher_step :: "'c batcher_env \<Rightarrow> 'c batcher_event \<Rightarrow> 'c batcher \<Rightarrow> 'c batcher" where
  "batcher_step E (Recv (AppendChunk chunk)) st = send_chunk chunk st"
| "batcher_step E (Recv (AppendRow path row)) st = append_row E path row st"
| "batcher_step E (Recv Flush) st = flush_every E (st\<lparr>bt_skip_next_tick := True\<rparr>)"
| "batcher_step E (Recv (UpdateConfig c)) st = st\<lparr>bt_config := c\<rparr>"
| "batcher_step E (Recv Shutdown) st = (flush_every E st)\<lparr>bt_running := False\<rparr>"
| "batcher_step E Tick st =
     (if bt_skip_next_tick st then st\<lparr>bt_skip_next_tick := False\<rparr> else flush_every E st)"

definition batching_thread :: "'c batcher_env \<Rightarrow> ChunkBatcherConfig \<Rightarrow> 'c batcher_event list \<Rightarrow> 'c batcher" where
  "batching_thread E c events =
     fold (\<lambda>ev st. if bt_running st then batcher_step E ev st else st) events (batcher_new c)"

end
