(* ===== verification/Batcher_Rows.thy ===== *)
theory Batcher_Rows
  imports Chunk_Batcher Chunk_Shuffle "HOL-Library.Multiset"
begin

text \<open>
  What \<open>many_into_chunks\<close> keeps: the chunks made of a batch hold exactly its rows, every chunk is well
  formed, and how large a chunk with unsorted times may get.
\<close>

section \<open>Rows as logged\<close>

definition logged_time :: "TimelineName \<Rightarrow> 'c PendingRow \<Rightarrow> i64" where
  "logged_time k row = nonmin_get (cell_value (the (map_of (pr_timepoint row) k)))"

definition pending_row :: "'c PendingRow \<Rightarrow> 'c row" where
  "pending_row row = \<lparr>r_id = pr_row_id row,
     r_times = (\<lambda>k. map_option (\<lambda>c. nonmin_get (cell_value c)) (map_of (pr_timepoint row) k)),
     r_cells = (\<lambda>c. map_option (\<lambda>b. snd (ba_array b)) (map_of (pr_components row) c))\<rparr>"

text \<open>What \<open>concat\<close> promises on arrays of one type.\<close>

definition concat_laws :: "'c batcher_env \<Rightarrow> bool" where
  "concat_laws E \<longleftrightarrow> (\<forall>xs ty. xs \<noteq> [] \<longrightarrow> fst ` set xs \<subseteq> {ty} \<longrightarrow> be_concat E xs = Some (concat (map snd xs)))"

definition row_ok :: "'c PendingRow \<Rightarrow> bool" where
  "row_ok row \<longleftrightarrow> distinct (map fst (pr_timepoint row)) \<and> pr_components row \<noteq> []
     \<and> (\<forall>(c, b) \<in> set (pr_components row). cd_component (ba_descriptor b) = c)"

definition same_types :: "'c PendingRow list \<Rightarrow> bool" where
  "same_types rows \<longleftrightarrow> (\<forall>r \<in> set rows. \<forall>s \<in> set rows. \<forall>c a b.
     map_of (pr_components r) c = Some a \<and> map_of (pr_components s) c = Some b \<longrightarrow> fst (ba_array a) = fst (ba_array b))"

definition batch_ok :: "TimelineName list \<Rightarrow> 'c PendingRow list \<Rightarrow> bool" where
  "batch_ok ns rows \<longleftrightarrow> (\<forall>r \<in> set rows. row_ok r \<and> map fst (pr_timepoint r) = ns) \<and> same_types rows"

section \<open>Columns of values\<close>

lemma somes_simps [simp]: "somes [] = []" "somes (None # xs) = somes xs" "somes (Some x # xs) = x # somes xs"
  by (simp_all add: somes_def)

lemma somes_Nil_iff: "somes xs = [] \<longleftrightarrow> (\<forall>x \<in> set xs. x = None)"
  by (induction xs) (auto simp: somes_def)

lemma set_somes: "set (somes xs) = {x. Some x \<in> set xs}"
  by (induction xs) (auto simp: somes_def)

lemma concat_somes:
  "concat (map snd (somes arrays)) = concat (map (\<lambda>r. case r of None \<Rightarrow> [] | Some xs \<Rightarrow> xs) (map (map_option snd) arrays))"
proof (induction arrays)
  case (Cons a arrays)
  then show ?case by (cases a) simp_all
qed simp

lemma list_array_of_rows:
  assumes "concat_laws E" "fst ` set (somes arrays) \<subseteq> {ty}"
  shows "arrays_to_list_array E ty arrays = Some (la_of_rows ty (map (map_option snd) arrays))"
proof -
  have d: "(if somes arrays = [] then Some [] else be_concat E (somes arrays)) = Some (concat (map snd (somes arrays)))"
    using assms unfolding concat_laws_def by (cases "somes arrays = []") (simp, metis)
  have l: "map (\<lambda>a. case a of None \<Rightarrow> 0 | Some a \<Rightarrow> length (snd a)) arrays
      = map length (map (\<lambda>r. case r of None \<Rightarrow> [] | Some xs \<Rightarrow> xs) (map (map_option snd) arrays))"
    by (auto split: option.splits)
  have n: "map (\<lambda>a. a \<noteq> None) arrays = map (\<lambda>r. r \<noteq> None) (map (map_option snd) arrays)" by auto
  show ?thesis unfolding arrays_to_list_array_def la_of_rows_def Let_def d l n concat_somes by simp
qed

definition column_of :: "ComponentDescriptor \<Rightarrow> 'c typed_array option list \<Rightarrow> 'c SerializedComponentColumn option" where
  "column_of desc arrays =
     (if somes arrays = [] then None else Some (sc_new (la_of_rows (fst (hd (somes arrays))) (map (map_option snd) arrays)) desc))"

definition one_type :: "'c typed_array option list \<Rightarrow> bool" where
  "one_type arrays \<longleftrightarrow> (\<exists>ty. fst ` set (somes arrays) \<subseteq> {ty})"

lemma finish_column:
  assumes "concat_laws E" "one_type arrays"
  shows "map_option (\<lambda>la. sc_new la desc) (arrays_to_list_array_opt E arrays) = column_of desc arrays"
proof (cases "somes arrays")
  case (Cons a as)
  then have "fst ` set (somes arrays) \<subseteq> {fst a}" using assms(2) by (auto simp: one_type_def)
  then show ?thesis
    using list_array_of_rows [OF assms(1), of arrays "fst a"] Cons by (simp add: arrays_to_list_array_opt_def column_of_def)
qed (simp add: arrays_to_list_array_opt_def column_of_def)

definition building_ok :: "nat \<Rightarrow> 'c building \<Rightarrow> bool" where
  "building_ok n comps \<longleftrightarrow> distinct (map fst comps)
     \<and> (\<forall>(c, desc, arrays) \<in> set comps. cd_component desc = c \<and> length arrays = n \<and> one_type arrays)"

definition finished :: "'c building \<Rightarrow> 'c SerializedComponentColumn list" where
  "finished comps = List.map_filter (\<lambda>(_, desc, arrays). column_of desc arrays) comps"

lemma finished_simps [simp]: "finished [] = []"
  "finished ((c, desc, arrays) # comps) = (case column_of desc arrays of None \<Rightarrow> [] | Some col \<Rightarrow> [col]) @ finished comps"
  by (auto simp: finished_def List.map_filter_simps split: option.splits)

lemma finish_components_fold:
  assumes "concat_laws E" "\<forall>(c, desc, arrays) \<in> set comps. one_type arrays"
  shows "foldl (\<lambda>m (_, desc, arrays).
        case arrays_to_list_array_opt E arrays of None \<Rightarrow> m | Some la \<Rightarrow> components_insert (sc_new la desc) m) m comps
    = fold components_insert (finished comps) m"
  using assms(2)
proof (induction comps arbitrary: m)
  case (Cons x comps)
  obtain c desc arrays where x: "x = (c, desc, arrays)" by (cases x) auto
  have "map_option (\<lambda>la. sc_new la desc) (arrays_to_list_array_opt E arrays) = column_of desc arrays"
    using finish_column [OF assms(1)] Cons.prems x by auto
  then show ?case
    using Cons.IH Cons.prems x by (cases "arrays_to_list_array_opt E arrays"; cases "column_of desc arrays") auto
qed simp

lemma column_of_sel: "column_of desc arrays = Some col \<Longrightarrow> sc_descriptor col = desc \<and> la_wf (sc_list_array col)
    \<and> la_len (sc_list_array col) = length arrays \<and> la_iter (sc_list_array col) = map (map_option snd) arrays"
  by (auto simp: column_of_def sc_new_def split: if_splits)

lemma finished_keys:
  assumes "building_ok n comps"
  shows "distinct (map (cd_component \<circ> sc_descriptor) (finished comps))
    \<and> (cd_component \<circ> sc_descriptor) ` set (finished comps) \<subseteq> fst ` set comps"
  using assms
proof (induction comps)
  case (Cons x comps)
  obtain c desc arrays where x: "x = (c, desc, arrays)" by (cases x) auto
  have ok: "building_ok n comps" "cd_component desc = c" "c \<notin> fst ` set comps" using Cons.prems x by (auto simp: building_ok_def)
  show ?case
  proof (cases "column_of desc arrays")
    case None
    then show ?thesis using Cons.IH [OF ok(1)] x by auto
  next
    case (Some col)
    then have "cd_component (sc_descriptor col) = c" using column_of_sel ok(2) by blast
    then show ?thesis using Cons.IH [OF ok(1)] x Some ok(3) by auto
  qed
qed simp

lemma finish_components_eq:
  assumes "concat_laws E" "building_ok n comps"
  shows "finish_components E comps = map (\<lambda>col. (cd_component (sc_descriptor col), col)) (finished comps)"
proof -
  have "finish_components E comps = components_from_iter (finished comps)"
    unfolding finish_components_def components_from_iter_def
    by (rule finish_components_fold [OF assms(1)]) (use assms(2) in \<open>auto simp: building_ok_def\<close>)
  then show ?thesis using components_from_iter_distinct [OF finished_keys [OF assms(2), THEN conjunct1]] by simp
qed

lemma map_of_finished:
  assumes "building_ok n comps"
  shows "map_of (map (\<lambda>col. (cd_component (sc_descriptor col), col)) (finished comps)) c
    = Option.bind (map_of comps c) (\<lambda>(desc, arrays). column_of desc arrays)"
  using assms
proof (induction comps)
  case (Cons x comps)
  obtain d desc arrays where x: "x = (d, desc, arrays)" by (cases x) auto
  have ok: "building_ok n comps" "cd_component desc = d" "d \<notin> fst ` set comps" using Cons.prems x by (auto simp: building_ok_def)
  have "map_of comps d = None" using ok(3) by (simp add: map_of_eq_None_iff)
  then show ?case
    using Cons.IH [OF ok(1)] x ok(2) column_of_sel [of desc arrays] by (auto split: option.splits)
qed simp

lemma finish_components_ok:
  assumes "concat_laws E" "building_ok n comps"
  shows "columns_ok n (finish_components E comps)"
    "map_of (finish_components E comps) c = Option.bind (map_of comps c) (\<lambda>(desc, arrays). column_of desc arrays)"
proof -
  note eq = finish_components_eq [OF assms]
  show "map_of (finish_components E comps) c = Option.bind (map_of comps c) (\<lambda>(desc, arrays). column_of desc arrays)"
    unfolding eq by (rule map_of_finished [OF assms(2)])
  have "la_wf (sc_list_array col) \<and> la_len (sc_list_array col) = n" if "col \<in> set (finished comps)" for col
    using assms(2) that
  proof (induction comps)
    case (Cons x comps)
    obtain d desc arrays where x: "x = (d, desc, arrays)" by (cases x) auto
    then show ?case
      using Cons column_of_sel [of desc arrays col] by (auto simp: building_ok_def split: option.splits)
  qed simp
  then show "columns_ok n (finish_components E comps)"
    unfolding eq columns_ok_def using finished_keys [OF assms(2), THEN conjunct1] by (auto simp: comp_def)
qed

section \<open>Columns of times\<close>

definition col_ok :: "i64 list \<Rightarrow> PendingTimeColumn \<Rightarrow> bool" where
  "col_ok ts col \<longleftrightarrow> pt_times col = ts \<and> pt_is_sorted col = sorted ts \<and> times_valid ts
     \<and> as_i64 (range_min (pt_time_range col)) = Min (insert i64_MAX (set ts))
     \<and> as_i64 (range_max (pt_time_range col)) = Max (insert (i64_MIN + 1) (set ts))"

lemma col_ok_new: "col_ok [] (pt_new timeline)"
  by (simp add: col_ok_def pt_new_def AbsoluteTimeRange_EMPTY_def times_valid_def)

lemma sorted_snoc: "sorted (ts @ [t]) \<longleftrightarrow> sorted ts \<and> (ts = [] \<or> last ts \<le> (t :: 'a :: linorder))"
proof (cases "ts = []")
  case False
  then have "sorted ts \<Longrightarrow> x \<in> set ts \<Longrightarrow> x \<le> last ts" for x using sorted_Max_last [of ts] Max_ge [of "set ts" x] by simp
  then show ?thesis using False by (auto simp: sorted_append intro: order_trans)
qed simp

lemma col_ok_push:
  assumes "col_ok ts col"
  shows "col_ok (ts @ [nonmin_get v]) (pt_push (TimeInt (Some v)) col)"
proof -
  let ?t = "TimeInt (Some v)" and ?r = "pt_time_range col"
  have v: "as_i64 ?t = nonmin_get v" "i64_MIN + 1 \<le> nonmin_get v" "nonmin_get v \<le> i64_MAX"
    using nonmin_get_range [of v] by simp_all
  have "as_i64 (range_min (pt_time_range (pt_push ?t col))) = Min (insert i64_MAX (set (ts @ [nonmin_get v])))"
  proof -
    have "Min (insert i64_MAX (set (ts @ [nonmin_get v]))) = min (Min (insert i64_MAX (set ts))) (nonmin_get v)"
      by (simp add: insert_commute [of i64_MAX] min.commute)
    moreover have "i64_MIN + 1 \<le> Min (insert i64_MAX (set ts))"
      using assms by (auto simp: col_ok_def times_valid_def i64_MAX_def i64_MIN_def)
    ultimately show ?thesis
      using assms v by (simp add: pt_push_def Let_def range_set_min_def range_set_max_def as_i64_min as_i64_max col_ok_def)
  qed
  moreover have "as_i64 (range_max (pt_time_range (pt_push ?t col))) = Max (insert (i64_MIN + 1) (set (ts @ [nonmin_get v])))"
  proof -
    have "Max (insert (i64_MIN + 1) (set (ts @ [nonmin_get v]))) = max (Max (insert (i64_MIN + 1) (set ts))) (nonmin_get v)"
      by (simp add: insert_commute [of "i64_MIN + 1"] max.commute)
    then show ?thesis
      using assms v by (simp add: pt_push_def Let_def range_set_min_def range_set_max_def as_i64_max col_ok_def)
  qed
  ultimately show ?thesis
    using assms v nonmin_get_range [of v]
    by (simp add: col_ok_def pt_push_def Let_def sorted_snoc list_last_def times_valid_def)
qed

lemma col_ok_finish:
  assumes "col_ok ts col"
  shows "tc_wf (pt_finish col)" "tc_times (pt_finish col) = ts"
proof -
  show "tc_times (pt_finish col) = ts" using assms by (simp add: pt_finish_def col_ok_def)
  have "range_tight (pt_time_range col) ts"
  proof (cases "ts = []")
    case False
    have valid: "times_valid ts" using assms by (simp add: col_ok_def)
    have "Min (set ts) \<in> set ts" "Max (set ts) \<in> set ts" using False by simp_all
    then have "Min (set ts) \<le> i64_MAX" "i64_MIN < Max (set ts)" using valid unfolding times_valid_def by blast+
    then have "Min (set ts) \<le> i64_MAX" "i64_MIN + 1 \<le> Max (set ts)" by linarith+
    then show ?thesis using assms False by (simp add: range_tight_def col_ok_def min_absorb2 max_absorb2)
  qed (simp add: range_tight_def)
  then show "tc_wf (pt_finish col)" using assms by (simp add: tc_wf_def pt_finish_def col_ok_def)
qed

section \<open>One batch\<close>

definition tls_ok :: "TimelineName list \<Rightarrow> 'c PendingRow list \<Rightarrow> (TimelineName \<times> PendingTimeColumn) list \<Rightarrow> bool" where
  "tls_ok ns cur tls \<longleftrightarrow> distinct (map fst tls) \<and> fst ` set tls \<subseteq> set ns \<and> (cur \<noteq> [] \<longrightarrow> set ns \<subseteq> fst ` set tls)
     \<and> (\<forall>k col. map_of tls k = Some col \<longrightarrow> col_ok (map (logged_time k) cur) col)"

definition comps_of :: "'c building \<Rightarrow> 'c PendingRow list \<Rightarrow> 'c building" where
  "comps_of all cur = map (\<lambda>(c, desc, _). (c, desc, map (\<lambda>r. map_option ba_array (map_of (pr_components r) c)) cur)) all"

definition draft_ok ::
  "TimelineName list \<Rightarrow> 'c building \<Rightarrow> 'c PendingRow list
    \<Rightarrow> RowId list \<times> (TimelineName \<times> PendingTimeColumn) list \<times> 'c building \<Rightarrow> bool" where
  "draft_ok ns all cur draft \<longleftrightarrow> fst draft = map pr_row_id cur \<and> tls_ok ns cur (fst (snd draft)) \<and> snd (snd draft) = comps_of all cur"

text \<open>A chunk above the limit is sorted on every timeline, up to its last row.\<close>

definition within_limit :: "nat \<Rightarrow> TimelineName list \<Rightarrow> 'c PendingRow list \<Rightarrow> bool" where
  "within_limit max_rows ns cur \<longleftrightarrow> length cur \<le> max 1 max_rows \<or> (\<forall>k \<in> set ns. sorted (map (logged_time k) (butlast cur)))"

definition st_ok ::
  "nat \<Rightarrow> TimelineName list \<Rightarrow> 'c building \<Rightarrow> 'c PendingRow list list \<Rightarrow> 'c PendingRow list \<Rightarrow> 'c batch_state \<Rightarrow> bool" where
  "st_ok max_rows ns all groups cur st \<longleftrightarrow> draft_ok ns all cur (bs_row_ids st, bs_timelines st, bs_components st)
     \<and> within_limit max_rows ns cur
     \<and> list_all2 (\<lambda>g d. g \<noteq> [] \<and> within_limit max_rows ns g \<and> draft_ok ns all g d) groups (bs_chunks st)"

text \<open>Whether another row may join: the rows so far are few, or sorted on the given timelines.\<close>

definition may_join :: "nat \<Rightarrow> TimelineName set \<Rightarrow> 'c PendingRow list \<Rightarrow> bool" where
  "may_join max_rows ks cur \<longleftrightarrow> cur = [] \<or> length cur < max_rows \<or> (\<forall>k \<in> ks. sorted (map (logged_time k) cur))"

lemma column_entry_ok:
  assumes "tls_ok ns cur tls" "cur = [] \<or> fst nc \<in> set ns"
  shows "col_ok (map (logged_time (fst nc)) cur) (column_entry nc tls)"
proof (cases "map_of tls (fst nc)")
  case None
  then have "cur = []" using assms by (auto simp: tls_ok_def map_of_eq_None_iff)
  then show ?thesis using None col_ok_new by (simp add: column_entry_def al_get_def)
next
  case (Some col)
  then show ?thesis using assms(1) by (simp add: column_entry_def al_get_def tls_ok_def)
qed

lemma tls_ok_entry:
  assumes "tls_ok ns cur tls" "fst nc \<in> set ns"
  shows "tls_ok ns cur (al_insert (fst nc) (column_entry nc tls) tls)"
  using assms column_entry_ok [OF assms(1)]
  by (auto simp: tls_ok_def distinct_al_insert keys_al_insert)

lemma draft_ok_empty: "all = comps_of all [] \<Longrightarrow> draft_ok ns all [] ([], [], all)"
  by (simp add: draft_ok_def tls_ok_def)

lemma split_if_unsorted_ok:
  assumes "st_ok max_rows ns all groups cur st" "fst nc \<in> set ns" "may_join max_rows ks cur" "all = comps_of all []"
  shows "\<exists>groups' cur'. st_ok max_rows ns all groups' cur' (split_if_unsorted max_rows all nc st)
    \<and> concat groups' @ cur' = concat groups @ cur \<and> may_join max_rows (insert (fst nc) ks) cur'"
proof -
  let ?col = "column_entry nc (bs_timelines st)"
  have d: "draft_ok ns all cur (bs_row_ids st, bs_timelines st, bs_components st)" using assms(1) by (simp add: st_ok_def)
  then have tls: "tls_ok ns cur (bs_timelines st)" and ids: "bs_row_ids st = map pr_row_id cur" by (simp_all add: draft_ok_def)
  have col: "pt_is_sorted ?col = sorted (map (logged_time (fst nc)) cur)"
    using column_entry_ok [OF tls] assms(2) by (auto simp: col_ok_def)
  have d': "draft_ok ns all cur (bs_row_ids st, al_insert (fst nc) ?col (bs_timelines st), bs_components st)"
    using d tls_ok_entry [OF tls assms(2)] by (simp add: draft_ok_def)
  show ?thesis
  proof (cases "bs_row_ids st \<noteq> [] \<and> length (bs_row_ids st) \<ge> max_rows \<and> \<not> pt_is_sorted ?col")
    case True
    then have "cur \<noteq> []" using ids by auto
    then have "st_ok max_rows ns all (groups @ [cur]) [] (split_if_unsorted max_rows all nc st)"
      using True assms(1) d' draft_ok_empty [OF assms(4)]
      by (simp add: st_ok_def split_if_unsorted_def Let_def list_all2_appendI within_limit_def)
    then show ?thesis by (intro exI [of _ "groups @ [cur]"] exI [of _ "[]"]) (simp add: may_join_def)
  next
    case False
    then have "st_ok max_rows ns all groups cur (split_if_unsorted max_rows all nc st)"
      using assms(1) d' by (auto simp: st_ok_def split_if_unsorted_def Let_def)
    moreover have "may_join max_rows (insert (fst nc) ks) cur" using assms(3) False col ids by (auto simp: may_join_def)
    ultimately show ?thesis by blast
  qed
qed

lemma fold_split_ok:
  assumes "st_ok max_rows ns all groups cur st" "fst ` set ncs \<subseteq> set ns" "may_join max_rows ks cur" "all = comps_of all []"
  shows "\<exists>groups' cur'. st_ok max_rows ns all groups' cur' (fold (split_if_unsorted max_rows all) ncs st)
    \<and> concat groups' @ cur' = concat groups @ cur \<and> may_join max_rows (fst ` set ncs \<union> ks) cur'"
  using assms(1-3)
proof (induction ncs arbitrary: groups cur st ks)
  case (Cons nc ncs)
  have "fst nc \<in> set ns" using Cons.prems(2) by simp
  then obtain groups' cur' where one: "st_ok max_rows ns all groups' cur' (split_if_unsorted max_rows all nc st)"
    "concat groups' @ cur' = concat groups @ cur" "may_join max_rows (insert (fst nc) ks) cur'"
    using split_if_unsorted_ok [OF Cons.prems(1) _ Cons.prems(3) assms(4)] by blast
  obtain groups'' cur'' where "st_ok max_rows ns all groups'' cur'' (fold (split_if_unsorted max_rows all) ncs (split_if_unsorted max_rows all nc st))"
    "concat groups'' @ cur'' = concat groups' @ cur'" "may_join max_rows (fst ` set ncs \<union> insert (fst nc) ks) cur''"
    using Cons.IH [OF one(1) _ one(3)] Cons.prems(2) by auto
  then show ?case using one(2) by (intro exI [of _ groups''] exI [of _ cur'']) simp
qed (use assms in auto)

lemma push_times:
  assumes "distinct (map fst ncs)"
  shows "map_of (fold push_time ncs tls) k =
      (case map_of ncs k of None \<Rightarrow> map_of tls k
       | Some c \<Rightarrow> Some (pt_push (TimeInt (Some (cell_value c))) (column_entry (k, c) tls)))"
    "fst ` set (fold push_time ncs tls) = fst ` set ncs \<union> fst ` set tls"
    "distinct (map fst tls) \<Longrightarrow> distinct (map fst (fold push_time ncs tls))"
proof -
  show "map_of (fold push_time ncs tls) k =
      (case map_of ncs k of None \<Rightarrow> map_of tls k
       | Some c \<Rightarrow> Some (pt_push (TimeInt (Some (cell_value c))) (column_entry (k, c) tls)))"
    using assms
  proof (induction ncs arbitrary: tls)
    case (Cons nc ncs)
    obtain n c where nc: "nc = (n, c)" by (cases nc)
    have none: "map_of ncs n = None" using Cons.prems nc by (simp add: map_of_eq_None_iff image_iff)
    have other: "column_entry (j, c') (push_time nc tls) = column_entry (j, c') tls" if "j \<noteq> n" for j c'
      using that nc by (simp add: push_time_def column_entry_def al_get_def)
    have one: "map_of (push_time nc tls) = (map_of tls)(n \<mapsto> pt_push (TimeInt (Some (cell_value c))) (column_entry (n, c) tls))"
      using nc by (simp add: push_time_def)
    have IH: "map_of (fold push_time ncs (push_time nc tls)) k =
        (case map_of ncs k of None \<Rightarrow> map_of (push_time nc tls) k
         | Some c \<Rightarrow> Some (pt_push (TimeInt (Some (cell_value c))) (column_entry (k, c) (push_time nc tls))))"
      using Cons.IH Cons.prems by simp
    show ?case
    proof (cases "k = n")
      case True
      then show ?thesis using IH none nc one by simp
    next
      case False
      then show ?thesis using IH other nc one by (cases "map_of ncs k") simp_all
    qed
  qed simp
  show "fst ` set (fold push_time ncs tls) = fst ` set ncs \<union> fst ` set tls"
    by (induction ncs arbitrary: tls) (auto simp: push_time_def keys_al_insert)
  show "distinct (map fst tls) \<Longrightarrow> distinct (map fst (fold push_time ncs tls))"
    by (induction ncs arbitrary: tls) (simp_all add: push_time_def distinct_al_insert)
qed

lemma tls_ok_push:
  assumes "tls_ok ns cur tls" "map fst (pr_timepoint row) = ns" "distinct ns"
  shows "tls_ok ns (cur @ [row]) (fold push_time (pr_timepoint row) tls)"
proof -
  have d: "distinct (map fst (pr_timepoint row))" using assms(2, 3) by simp
  note push = push_times [OF d, of tls]
  have keys: "fst ` set (pr_timepoint row) = set ns" using assms(2) by (simp flip: set_map)
  have "col_ok (map (logged_time k) (cur @ [row])) col" if "map_of (fold push_time (pr_timepoint row) tls) k = Some col" for k col
  proof (cases "map_of (pr_timepoint row) k")
    case None
    then have "k \<notin> set ns" using keys by (simp add: map_of_eq_None_iff)
    then show ?thesis using that push(1) None assms(1) by (auto simp: tls_ok_def dest: map_of_SomeD)
  next
    case (Some c)
    then have "k \<in> fst ` set (pr_timepoint row)" by (metis domI dom_map_of_conv_image_fst)
    then have "k \<in> set ns" using keys by simp
    then have "col_ok (map (logged_time k) cur) (column_entry (k, c) tls)" using column_entry_ok [OF assms(1), of "(k, c)"] by simp
    then show ?thesis
      using that push(1) Some col_ok_push [of "map (logged_time k) cur" "column_entry (k, c) tls" "cell_value c"]
      by (simp add: logged_time_def)
  qed
  then show ?thesis using assms(1) push(2, 3) keys by (auto simp: tls_ok_def)
qed

lemma within_limit_push:
  assumes "may_join max_rows (set ns) cur"
  shows "within_limit max_rows ns (cur @ [row])"
  using assms by (auto simp: within_limit_def may_join_def)

lemma comps_of_push:
  "map (\<lambda>(c, desc, arrays). (c, desc, arrays @ [map_option ba_array (map_of (pr_components row) c)])) (comps_of all cur)
    = comps_of all (cur @ [row])"
  by (auto simp: comps_of_def)

lemma batch_row_ok:
  assumes "st_ok max_rows ns all groups cur st" "map fst (pr_timepoint row) = ns" "distinct ns" "all = comps_of all []"
  shows "\<exists>groups' cur'. st_ok max_rows ns all groups' (cur' @ [row]) (batch_row max_rows all st row)
    \<and> concat groups' @ cur' = concat groups @ cur"
proof -
  have keys: "fst ` set (pr_timepoint row) = set ns" using assms(2) by (simp flip: set_map)
  obtain groups' cur' where s: "st_ok max_rows ns all groups' cur' (fold (split_if_unsorted max_rows all) (pr_timepoint row) st)"
    "concat groups' @ cur' = concat groups @ cur" "may_join max_rows (set ns) cur'"
    using fold_split_ok [OF assms(1) _ _ assms(4), of "pr_timepoint row" "{}"] keys by (auto simp: may_join_def)
  let ?st = "fold (split_if_unsorted max_rows all) (pr_timepoint row) st"
  have d: "draft_ok ns all cur' (bs_row_ids ?st, bs_timelines ?st, bs_components ?st)" using s(1) by (simp add: st_ok_def)
  then have "tls_ok ns (cur' @ [row]) (fold push_time (pr_timepoint row) (bs_timelines ?st))"
    using tls_ok_push [OF _ assms(2, 3)] by (simp add: draft_ok_def)
  then have "st_ok max_rows ns all groups' (cur' @ [row]) (batch_row max_rows all st row)"
    using s(1) d within_limit_push [OF s(3), of row] comps_of_push [of row all cur']
    by (simp add: st_ok_def batch_row_def Let_def draft_ok_def)
  then show ?thesis using s(2) by blast
qed

lemma foldl_batch_ok:
  assumes "st_ok max_rows ns all groups cur st" "\<forall>r \<in> set rows. map fst (pr_timepoint r) = ns" "distinct ns" "all = comps_of all []"
  shows "\<exists>groups' cur'. st_ok max_rows ns all groups' cur' (foldl (batch_row max_rows all) st rows)
    \<and> concat groups' @ cur' = concat groups @ cur @ rows \<and> (rows \<noteq> [] \<longrightarrow> cur' \<noteq> [])"
  using assms(1, 2)
proof (induction rows arbitrary: groups cur st)
  case (Cons row rows)
  obtain groups' cur' where one: "st_ok max_rows ns all groups' (cur' @ [row]) (batch_row max_rows all st row)"
    "concat groups' @ cur' = concat groups @ cur"
    using batch_row_ok [OF Cons.prems(1) _ assms(3, 4), of row] Cons.prems(2) by force
  obtain groups'' cur'' where "st_ok max_rows ns all groups'' cur'' (foldl (batch_row max_rows all) (batch_row max_rows all st row) rows)"
    "concat groups'' @ cur'' = concat groups' @ (cur' @ [row]) @ rows" "rows \<noteq> [] \<longrightarrow> cur'' \<noteq> []"
    "rows = [] \<longrightarrow> cur'' = cur' @ [row]"
  proof (cases "rows = []")
    case True
    then show ?thesis using that [of groups' "cur' @ [row]"] one(1) by simp
  next
    case False
    then show ?thesis using Cons.IH [OF one(1)] Cons.prems(2) that by auto
  qed
  then show ?case using one(2) by (intro exI [of _ groups''] exI [of _ cur'']) (cases "rows = []", auto)
qed auto

lemma batch_drafts_ok:
  assumes "\<forall>r \<in> set rows. map fst (pr_timepoint r) = ns" "distinct ns" "rows \<noteq> []" "all_components rows = comps_of (all_components rows) []"
  shows "\<exists>groups. list_all2 (\<lambda>g d. g \<noteq> [] \<and> within_limit max_rows ns g \<and> draft_ok ns (all_components rows) g d) groups (batch_drafts max_rows rows)
    \<and> concat groups = rows"
proof -
  let ?all = "all_components rows"
  let ?st = "\<lparr>bs_row_ids = [], bs_timelines = [], bs_components = ?all, bs_chunks = []\<rparr>"
  have "st_ok max_rows ns ?all [] [] ?st"
    using draft_ok_empty [OF assms(4), of ns] by (simp add: st_ok_def within_limit_def)
  then obtain groups cur where g: "st_ok max_rows ns ?all groups cur (foldl (batch_row max_rows ?all) ?st rows)"
    "concat groups @ cur = rows" "cur \<noteq> []"
    using foldl_batch_ok [OF _ assms(1, 2, 4), of max_rows "[]" "[]" ?st] assms(3) by auto
  then have "list_all2 (\<lambda>g d. g \<noteq> [] \<and> within_limit max_rows ns g \<and> draft_ok ns ?all g d) (groups @ [cur]) (batch_drafts max_rows rows)"
    by (simp add: batch_drafts_def Let_def st_ok_def list_all2_appendI)
  then show ?thesis using g(2) by (intro exI [of _ "groups @ [cur]"]) simp
qed

section \<open>The components of a batch\<close>

definition all_ok :: "'c building \<Rightarrow> bool" where
  "all_ok m \<longleftrightarrow> distinct (map fst m) \<and> (\<forall>(c, desc, arrays) \<in> set m. cd_component desc = c \<and> arrays = [])"

lemma all_ok_comps: "all_ok m \<Longrightarrow> m = comps_of m []"
  by (induction m) (auto simp: all_ok_def comps_of_def)

lemma all_components_row:
  assumes "all_ok m" "\<forall>(c, b) \<in> set bs. cd_component (ba_descriptor b) = c"
  shows "all_ok (foldl (\<lambda>m (c, b). if map_of m c = None then al_insert c (ba_descriptor b, []) m else m) m bs)
    \<and> fst ` set (foldl (\<lambda>m (c, b). if map_of m c = None then al_insert c (ba_descriptor b, []) m else m) m bs)
      = fst ` set m \<union> fst ` set bs"
  using assms
proof (induction bs arbitrary: m)
  case (Cons x bs)
  obtain c b where x: "x = (c, b)" by (cases x)
  let ?m = "if map_of m c = None then al_insert c (ba_descriptor b, []) m else m"
  have c: "cd_component (ba_descriptor b) = c" using Cons.prems(2) x by simp
  have "map_of m c = None \<Longrightarrow> al_insert c (ba_descriptor b, []) m = m @ [(c, ba_descriptor b, [])]"
    by (rule al_insert_fresh) (simp add: map_of_eq_None_iff)
  then have "all_ok ?m" "fst ` set ?m = insert c (fst ` set m)"
    using Cons.prems(1) c by (auto simp: all_ok_def map_of_eq_None_iff)
  then show ?case using Cons.IH [of ?m] Cons.prems(2) x by simp
qed simp

lemma all_components_ok:
  assumes "\<forall>r \<in> set rows. row_ok r"
  shows "all_ok (all_components rows) \<and> fst ` set (all_components rows) = (\<Union>r \<in> set rows. fst ` set (pr_components r))"
proof -
  have "all_ok (foldl (\<lambda>m row. foldl (\<lambda>m (c, b). if map_of m c = None then al_insert c (ba_descriptor b, []) m else m) m
        (pr_components row)) m rows)
      \<and> fst ` set (foldl (\<lambda>m row. foldl (\<lambda>m (c, b). if map_of m c = None then al_insert c (ba_descriptor b, []) m else m) m
        (pr_components row)) m rows) = fst ` set m \<union> (\<Union>r \<in> set rows. fst ` set (pr_components r))" if "all_ok m" for m
    using that assms
  proof (induction rows arbitrary: m)
    case (Cons r rows)
    let ?m = "foldl (\<lambda>m (c, b). if map_of m c = None then al_insert c (ba_descriptor b, []) m else m) m (pr_components r)"
    have "all_ok ?m \<and> fst ` set ?m = fst ` set m \<union> fst ` set (pr_components r)"
      using Cons.prems all_components_row [of m "pr_components r"] by (simp add: row_ok_def)
    then show ?case using Cons.IH [of ?m] Cons.prems(2) by auto
  qed simp
  from this [of "[]"] show ?thesis by (simp add: all_components_def all_ok_def)
qed

definition arrays_of :: "ComponentIdentifier \<Rightarrow> 'c PendingRow list \<Rightarrow> 'c typed_array option list" where
  "arrays_of c g = map (\<lambda>r. map_option ba_array (map_of (pr_components r) c)) g"

lemma arrays_of_somes:
  assumes "a \<in> set (somes (arrays_of c g))"
  obtains r b where "r \<in> set g" "map_of (pr_components r) c = Some b" "a = ba_array b"
proof -
  obtain r where r: "r \<in> set g" "Some a = map_option ba_array (map_of (pr_components r) c)"
    using assms unfolding set_somes arrays_of_def set_map by blast
  then show thesis using that by (cases "map_of (pr_components r) c") simp_all
qed

lemma one_type_arrays:
  assumes "same_types rows" "set g \<subseteq> set rows"
  shows "one_type (arrays_of c g)"
proof -
  have "fst a = fst b" if "a \<in> set (somes (arrays_of c g))" "b \<in> set (somes (arrays_of c g))" for a b
    using that(1)
  proof (rule arrays_of_somes)
    fix r x assume r: "r \<in> set g" "map_of (pr_components r) c = Some x" "a = ba_array x"
    obtain s y where s: "s \<in> set g" "map_of (pr_components s) c = Some y" "b = ba_array y"
      using \<open>b \<in> set (somes (arrays_of c g))\<close> by (rule arrays_of_somes)
    have "r \<in> set rows" "s \<in> set rows" using r(1) s(1) assms(2) by blast+
    then have "fst (ba_array x) = fst (ba_array y)" using assms(1) r(2) s(2) unfolding same_types_def by blast
    then show "fst a = fst b" using r(3) s(3) by simp
  qed
  then show ?thesis unfolding one_type_def by blast
qed

lemma building_ok_batch:
  assumes "batch_ok ns rows" "set g \<subseteq> set rows"
  shows "building_ok (length g) (comps_of (all_components rows) g)"
proof -
  have all: "all_ok (all_components rows)" using all_components_ok [of rows] assms(1) by (auto simp: batch_ok_def)
  have "one_type (map (\<lambda>r. map_option ba_array (map_of (pr_components r) c)) g)" for c
    using one_type_arrays [OF _ assms(2), of c] assms(1) by (simp add: batch_ok_def arrays_of_def)
  then have "\<forall>(c, desc, arrays) \<in> set (comps_of (all_components rows) g). cd_component desc = c \<and> length arrays = length g \<and> one_type arrays"
    using all by (auto simp: comps_of_def all_ok_def)
  moreover have "map fst (comps_of (all_components rows) g) = map fst (all_components rows)" by (auto simp: comps_of_def)
  ultimately show ?thesis using all unfolding building_ok_def all_ok_def by (simp only: simp_thms)
qed

lemma map_of_comps_of:
  "map_of (comps_of all g) c = map_option (\<lambda>(desc, _). (desc, map (\<lambda>r. map_option ba_array (map_of (pr_components r) c)) g)) (map_of all c)"
  by (induction all) (auto simp: comps_of_def)

section \<open>A chunk of the batch\<close>

lemma draft_times:
  assumes "tls_ok ns g tls" "i < length g" "map fst (pr_timepoint (g ! i)) = ns"
  shows "map_option (\<lambda>tc. tc_times tc ! i) (map_of (map (\<lambda>(name, col). (name, pt_finish col)) tls) k)
    = r_times (pending_row (g ! i)) k"
proof (cases "k \<in> set ns")
  case True
  have "k \<in> fst ` set tls" using True assms(1, 2) by (auto simp: tls_ok_def)
  then obtain col where col: "map_of tls k = Some col" by (metis map_of_eq_None_iff option.exhaust)
  have "k \<in> fst ` set (pr_timepoint (g ! i))" using True assms(3) by (simp flip: set_map)
  then obtain c where c: "map_of (pr_timepoint (g ! i)) k = Some c" by (metis map_of_eq_None_iff option.exhaust)
  have "tc_times (pt_finish col) = map (logged_time k) g" using col assms(1) col_ok_finish by (auto simp: tls_ok_def)
  then show ?thesis using col c assms(2) by (simp add: map_of_map_values pending_row_def logged_time_def)
next
  case False
  then have "map_of tls k = None" using assms(1) by (auto simp: tls_ok_def map_of_eq_None_iff)
  moreover have "map_of (pr_timepoint (g ! i)) k = None" using False assms(3) by (simp add: map_of_eq_None_iff flip: set_map)
  ultimately show ?thesis by (simp add: map_of_map_values pending_row_def)
qed

lemma draft_cells:
  assumes "concat_laws E" "batch_ok ns rows" "set g \<subseteq> set rows" "i < length g"
  shows "Option.bind (map_of (finish_components E (comps_of (all_components rows) g)) c) (\<lambda>col. la_iter (sc_list_array col) ! i)
    = r_cells (pending_row (g ! i)) c"
proof -
  let ?arrays = "map (\<lambda>r. map_option ba_array (map_of (pr_components r) c)) g"
  have in_all: "map_of (all_components rows) c \<noteq> None" if "map_of (pr_components (g ! i)) c \<noteq> None"
  proof -
    have "g ! i \<in> set rows" using assms(3) nth_mem [OF assms(4)] by blast
    then show ?thesis
      using that assms(2) all_components_ok [of rows] unfolding batch_ok_def map_of_eq_None_iff by blast
  qed
  show ?thesis
  proof (cases "map_of (all_components rows) c")
    case None
    then have "map_of (pr_components (g ! i)) c = None" using in_all by blast
    then show ?thesis
      using None finish_components_ok(2) [OF assms(1) building_ok_batch [OF assms(2, 3)], of c]
      by (simp add: map_of_comps_of pending_row_def)
  next
    case (Some da)
    then have col: "map_of (finish_components E (comps_of (all_components rows) g)) c = column_of (fst da) ?arrays"
      using finish_components_ok(2) [OF assms(1) building_ok_batch [OF assms(2, 3)]] by (simp add: map_of_comps_of case_prod_beta)
    show ?thesis
    proof (cases "column_of (fst da) ?arrays")
      case None
      then have "?arrays ! i = None" using assms(4) nth_mem [of i ?arrays] by (auto simp: column_of_def somes_Nil_iff split: if_splits)
      then show ?thesis using col None assms(4) by (simp add: pending_row_def)
    next
      case (Some sc)
      then show ?thesis
        using col column_of_sel [OF Some] assms(4)
        by (simp add: pending_row_def option.map_comp comp_def)
    qed
  qed
qed

lemma finish_draft_new:
  fixes E :: "'c batcher_env" and g :: "'c PendingRow list" and comps :: "'c building" and path id0
  assumes "tls_ok ns g tls" "sorted (map pr_row_id g)" "columns_ok (length g) (finish_components E comps)"
  defines "ch \<equiv> \<lparr>ch_id = id0, ch_entity_path = path, ch_heap_size_bytes = 0, ch_is_sorted = True, ch_row_ids = map pr_row_id g,
    ch_timelines = map (\<lambda>(name, col). (name, pt_finish col)) tls, ch_components = finish_components E comps\<rparr>"
  shows "finish_draft E path id0 (map pr_row_id g, tls, comps) = Inr ch" "chunk_wf ch"
proof -
  have n: "num_rows ch = length g" by (simp add: ch_def num_rows_def)
  have "timelines_ok (length g) (ch_timelines ch)"
    using assms(1) col_ok_finish unfolding timelines_ok_def ch_def
    by (fastforce simp: tls_ok_def comp_def case_prod_beta dest: map_of_is_SomeI)
  then show wf: "chunk_wf ch" using assms(2,3) by (simp add: chunk_wf_def n) (simp add: ch_def)
  show "finish_draft E path id0 (map pr_row_id g, tls, comps) = Inr ch"
    using sanity_check_wf [OF wf, of "be_build E"] by (simp add: finish_draft_def chunk_new_def Let_def ch_def)
qed

lemma finish_draft_ok:
  assumes "concat_laws E" "batch_ok ns rows" "set g \<subseteq> set rows" "g \<noteq> []" "sorted (map pr_row_id g)"
    and draft: "draft_ok ns (all_components rows) g d"
  shows "\<exists>ch. finish_draft E path id0 d = Inr ch \<and> chunk_wf ch \<and> ch_entity_path ch = path \<and> ch_components ch \<noteq> []
    \<and> chunk_rows ch = map pending_row g \<and> (\<forall>(k, tc) \<in> set (ch_timelines ch). k \<in> set ns \<and> tc_times tc = map (logged_time k) g)"
proof -
  obtain ids tls comps where d: "d = (ids, tls, comps)" by (cases d) auto
  have parts: "ids = map pr_row_id g" "tls_ok ns g tls" "comps = comps_of (all_components rows) g"
    using draft d by (simp_all add: draft_ok_def)
  define ch where "ch = \<lparr>ch_id = id0, ch_entity_path = path, ch_heap_size_bytes = 0, ch_is_sorted = True, ch_row_ids = map pr_row_id g,
    ch_timelines = map (\<lambda>(name, col). (name, pt_finish col)) tls, ch_components = finish_components E comps\<rparr>"
  have n: "num_rows ch = length g" by (simp add: ch_def num_rows_def parts)
  have "columns_ok (length g) (finish_components E comps)"
    using finish_components_ok(1) [OF assms(1) building_ok_batch [OF assms(2, 3)]] by (simp add: parts)
  note new = finish_draft_new [OF parts(2) assms(5) this, where path = path and ?id0.0 = id0, folded ch_def]
  have wf: "chunk_wf ch" by (rule new(2))
  have "finish_draft E path id0 d = Inr ch" using new(1) d parts(1) by simp
  moreover have "chunk_rows ch = map pending_row g"
  proof (rule nth_equalityI)
    fix i assume "i < length (chunk_rows ch)"
    then have i: "i < length g" by (simp add: n)
    have "map fst (pr_timepoint (g ! i)) = ns" using assms(2, 3) i nth_mem by (fastforce simp: batch_ok_def)
    then have "time_at ch i = r_times (pending_row (g ! i))"
      using draft_times [OF parts(2) i] by (simp add: time_at_def ch_def fun_eq_iff)
    moreover have "cell_at ch i = r_cells (pending_row (g ! i))"
      using draft_cells [OF assms(1-3) i] by (simp add: cell_at_def ch_def parts fun_eq_iff)
    ultimately show "chunk_rows ch ! i = map pending_row g ! i"
      using i n by (simp add: chunk_row_def) (simp add: ch_def parts pending_row_def)
  qed (simp add: n)
  moreover have "ch_components ch \<noteq> []"
  proof
    assume "ch_components ch = []"
    then have "r_cells (pending_row (g ! 0)) c = None" for c
      using draft_cells [OF assms(1-3), of 0 c] assms(4) by (simp add: ch_def parts)
    then have none: "map_of (pr_components (hd g)) c = None" for c using assms(4) by (simp add: pending_row_def hd_conv_nth)
    have "hd g \<in> set rows" using assms(3) hd_in_set [OF assms(4)] by blast
    then have "row_ok (hd g)" using assms(2) by (simp add: batch_ok_def)
    then obtain c b ys where "pr_components (hd g) = (c, b) # ys" by (auto simp: row_ok_def neq_Nil_conv)
    then show False using none [of c] by simp
  qed
  moreover have "k \<in> set ns \<and> tc_times tc = map (logged_time k) g" if tc: "(k, tc) \<in> set (ch_timelines ch)" for k tc
  proof -
    obtain col where col: "(k, col) \<in> set tls" "tc = pt_finish col" using tc by (auto simp: ch_def)
    then have "map_of tls k = Some col" using parts(2) by (simp add: tls_ok_def)
    then show ?thesis using col parts(2) col_ok_finish(2) by (auto simp: tls_ok_def)
  qed
  moreover have "ch_entity_path ch = path" by (simp add: ch_def)
  ultimately show ?thesis using wf by blast
qed

section \<open>Grouping\<close>

lemma mset_al_entry:
  "mset (concat (map snd (al_entry k [] (\<lambda>g. g @ [r]) m))) = add_mset r (mset (concat (map snd m)))"
proof -
  have "mset (concat (map snd (al_insert k (al_get [] k m @ [r]) m))) = add_mset r (mset (concat (map snd m)))"
    by (induction m) (auto simp: al_get_def)
  then show ?thesis by (simp add: al_entry_def)
qed

lemma mset_group_rows: "mset (concat (group_rows E h rows)) = mset rows"
proof -
  have "mset (concat (map snd (int_map_iter rank m))) = mset (concat (map snd m))"
    for rank :: "nat list \<Rightarrow> nat \<Rightarrow> nat" and m :: "(nat \<times> 'a PendingRow list) list"
    by (simp add: mset_concat int_map_iter_def flip: sum_mset_sum_list)
  moreover have "mset (concat (map snd (foldl (\<lambda>m row. al_entry (h row) [] (\<lambda>g. g @ [row]) m) [] rows))) = mset rows"
    by (induction rows rule: rev_induct) (simp_all add: mset_al_entry)
  ultimately show ?thesis by (simp add: group_rows_def)
qed

lemma group_rows_groups:
  assumes "g \<in> set (group_rows E h rows)"
  shows "\<exists>k. g = filter (\<lambda>r. h r = k) rows \<and> g \<noteq> []"
proof -
  let ?m = "\<lambda>rows. foldl (\<lambda>m row. al_entry (h row) [] (\<lambda>g. g @ [row]) m) [] rows"
  have "distinct (map fst (?m rows)) \<and> fst ` set (?m rows) = h ` set rows
    \<and> (\<forall>k. al_get [] k (?m rows) = filter (\<lambda>r. h r = k) rows)"
  proof (induction rows rule: rev_induct)
    case (snoc r rows)
    then show ?case by (simp add: al_get_entry) (simp add: al_entry_def distinct_al_insert keys_al_insert)
  qed simp
  moreover obtain k where k: "(k, g) \<in> set (?m rows)" using assms by (auto simp: group_rows_def int_map_iter_def)
  ultimately have "g = filter (\<lambda>r. h r = k) rows" "k \<in> h ` set rows"
    by (auto simp: al_get_def split: option.splits dest: map_of_is_SomeI) (force simp: al_get_def)+
  then show ?thesis by (auto simp: filter_empty_conv)
qed

definition rows_ok :: "'c batcher_env \<Rightarrow> 'c PendingRow set \<Rightarrow> bool" where
  "rows_ok E R \<longleftrightarrow> (\<forall>r \<in> R. row_ok r) \<and> (\<forall>r \<in> R. \<forall>s \<in> R. timeline_hash E r = timeline_hash E s \<longrightarrow>
     map fst (pr_timepoint r) = map fst (pr_timepoint s) \<and> (datatype_hash E r = datatype_hash E s \<longrightarrow> same_types [r, s]))"

lemma rows_ok_mono: "rows_ok E R \<Longrightarrow> R' \<subseteq> R \<Longrightarrow> rows_ok E R'"
  unfolding rows_ok_def by blast

definition batches :: "'c batcher_env \<Rightarrow> 'c PendingRow list \<Rightarrow> 'c PendingRow list list" where
  "batches E rows = concat (map (group_rows E (datatype_hash E)) (group_rows E (timeline_hash E) (sort_key pr_row_id rows)))"

lemma mset_batches: "mset (concat (batches E rows)) = mset rows"
proof -
  have "mset (concat (concat (map (group_rows E (datatype_hash E)) gs))) = mset (concat gs)" for gs
    by (induction gs) (simp_all add: mset_group_rows)
  then show ?thesis by (simp add: batches_def mset_group_rows)
qed

lemma batches_ok:
  assumes "rows_ok E (set rows)" "b \<in> set (batches E rows)"
  shows "b \<noteq> [] \<and> set b \<subseteq> set rows \<and> sorted (map pr_row_id b) \<and> batch_ok (map fst (pr_timepoint (hd b))) b
    \<and> distinct (map fst (pr_timepoint (hd b)))"
proof -
  obtain g where "g \<in> set (group_rows E (timeline_hash E) (sort_key pr_row_id rows))" "b \<in> set (group_rows E (datatype_hash E) g)"
    using assms(2) by (auto simp: batches_def)
  then obtain t k where g: "g = filter (\<lambda>r. timeline_hash E r = t) (sort_key pr_row_id rows)"
    and b: "b = filter (\<lambda>r. datatype_hash E r = k) g" "b \<noteq> []" using group_rows_groups by blast
  have sub: "set b \<subseteq> set rows" using b(1) g by auto
  have same: "timeline_hash E r = t" "datatype_hash E r = k" if "r \<in> set b" for r using that b(1) g by auto
  have "sorted (map pr_row_id b)" unfolding b(1) g by (intro sorted_filter) simp
  moreover have hd: "hd b \<in> set b" using b(2) by simp
  have "batch_ok (map fst (pr_timepoint (hd b))) b"
  proof -
    have "row_ok r \<and> map fst (pr_timepoint r) = map fst (pr_timepoint (hd b))" if r: "r \<in> set b" for r
      using assms(1) same [OF r] same [OF hd] sub r hd unfolding rows_ok_def by (metis subsetD)
    moreover have "same_types b"
    proof -
      have "same_types [r, s]" if "r \<in> set b" "s \<in> set b" for r s
        using assms(1) same [OF that(1)] same [OF that(2)] sub that unfolding rows_ok_def by (metis subsetD)
      then show ?thesis unfolding same_types_def by (metis list.set_intros)
    qed
    ultimately show ?thesis by (simp add: batch_ok_def)
  qed
  moreover have "distinct (map fst (pr_timepoint (hd b)))"
    using assms(1) sub hd unfolding rows_ok_def row_ok_def by blast
  ultimately show ?thesis using b(2) sub by blast
qed

section \<open>All chunks of a batch\<close>

text \<open>The documented limit on unsorted chunks, as the code keeps it: the last row may break it.\<close>

definition chunk_within_limit :: "nat \<Rightarrow> 'c Chunk \<Rightarrow> bool" where
  "chunk_within_limit max_rows ch \<longleftrightarrow>
     num_rows ch \<le> max 1 max_rows \<or> (\<forall>(k, tc) \<in> set (ch_timelines ch). sorted (butlast (tc_times tc)))"

definition made_of :: "nat \<Rightarrow> EntityPath \<Rightarrow> 'c PendingRow list \<Rightarrow> 'c Chunk \<Rightarrow> bool" where
  "made_of max_rows path g ch \<longleftrightarrow> chunk_wf ch \<and> ch_entity_path ch = path \<and> ch_components ch \<noteq> []
     \<and> chunk_rows ch = map pending_row g \<and> chunk_within_limit max_rows ch"

lemma sorted_concat_member: "sorted (map f (concat gs)) \<Longrightarrow> g \<in> set gs \<Longrightarrow> sorted (map f g)"
  by (induction gs) (auto simp: sorted_append)

lemma batch_chunks:
  assumes "concat_laws E" "batch_ok ns b" "distinct ns" "b \<noteq> []" "sorted (map pr_row_id b)"
  shows "\<exists>groups. concat groups = b
    \<and> list_all2 (\<lambda>g d. \<forall>id0. \<exists>ch. finish_draft E path id0 d = Inr ch \<and> made_of max_rows path g ch) groups (batch_drafts max_rows b)"
proof -
  have names: "\<forall>r \<in> set b. map fst (pr_timepoint r) = ns" and rows: "\<forall>r \<in> set b. row_ok r" using assms(2) by (simp_all add: batch_ok_def)
  have all: "all_components b = comps_of (all_components b) []" using all_ok_comps all_components_ok [OF rows] by blast
  obtain groups where g: "concat groups = b"
    "list_all2 (\<lambda>g d. g \<noteq> [] \<and> within_limit max_rows ns g \<and> draft_ok ns (all_components b) g d) groups (batch_drafts max_rows b)"
    using batch_drafts_ok [OF names assms(3, 4) all] by blast
  have each: "\<forall>id0. \<exists>ch. finish_draft E path id0 d = Inr ch \<and> made_of max_rows path g ch"
    if gd: "g \<in> set groups" "g \<noteq> []" "within_limit max_rows ns g" "draft_ok ns (all_components b) g d" for g d
  proof
    fix id0
    have "set g \<subseteq> set b" "sorted (map pr_row_id g)" using gd(1) g(1) assms(5) sorted_concat_member [of pr_row_id groups g] by auto
    then obtain ch where ch: "finish_draft E path id0 d = Inr ch" "chunk_wf ch" "ch_entity_path ch = path" "ch_components ch \<noteq> []"
      "chunk_rows ch = map pending_row g" "\<forall>(k, tc) \<in> set (ch_timelines ch). k \<in> set ns \<and> tc_times tc = map (logged_time k) g"
      using finish_draft_ok [OF assms(1, 2) _ gd(2) _ gd(4), of path id0] by blast
    have "num_rows ch = length g" using arg_cong [OF ch(5), of length] by simp
    then have "chunk_within_limit max_rows ch"
      using gd(3) ch(6) by (auto simp: chunk_within_limit_def within_limit_def map_butlast)
    then show "\<exists>ch. finish_draft E path id0 d = Inr ch \<and> made_of max_rows path g ch" using ch by (auto simp: made_of_def)
  qed
  have "list_all2 (\<lambda>g d. \<forall>id0. \<exists>ch. finish_draft E path id0 d = Inr ch \<and> made_of max_rows path g ch) groups (batch_drafts max_rows b)"
    using g(2) by (rule list.rel_mono_strong) (use each in blast)
  then show ?thesis using g(1) by blast
qed

lemma chunks_of_drafts:
  assumes "list_all2 (\<lambda>g d. \<forall>id0. \<exists>ch. F id0 d = Inr ch \<and> Q g ch) groups drafts"
  shows "\<exists>chunks. map (\<lambda>(i, d). F (f i) d) (zip [k..<k + length drafts] drafts) = map Inr chunks \<and> list_all2 Q groups chunks"
  using assms
proof (induction groups drafts arbitrary: k rule: list_all2_induct)
  case (Cons g groups d drafts)
  obtain ch where "F (f k) d = Inr ch" "Q g ch" using Cons(1) by blast
  moreover obtain chunks where "map (\<lambda>(i, d). F (f i) d) (zip [Suc k..<Suc k + length drafts] drafts) = map Inr chunks"
    "list_all2 Q groups chunks" using Cons.IH [of "Suc k"] by blast
  moreover have "[k..<k + length (d # drafts)] = k # [Suc k..<Suc k + length drafts]" by (subst upt_conv_Cons) simp_all
  ultimately show ?case by (intro exI [of _ "ch # chunks"]) (simp del: upt_Suc)
qed simp

lemma concat_batches:
  assumes "\<forall>b \<in> set bs. \<exists>groups. concat groups = b \<and> list_all2 R groups (D b)"
  shows "\<exists>groups. concat groups = concat bs \<and> list_all2 R groups (concat (map D bs))"
  using assms
proof (induction bs)
  case (Cons b bs)
  obtain gs where "concat gs = b" "list_all2 R gs (D b)" using Cons.prems by auto
  moreover obtain gs' where "concat gs' = concat bs" "list_all2 R gs' (concat (map D bs))" using Cons by auto
  ultimately show ?case by (intro exI [of _ "gs @ gs'"]) (simp add: list_all2_appendI)
qed simp

lemma many_into_chunks_made:
  assumes "concat_laws E" "rows_ok E (set rows)"
  shows "\<exists>chunks groups. many_into_chunks E path n max_rows rows = map Inr chunks
    \<and> list_all2 (made_of max_rows path) groups chunks \<and> mset (concat groups) = mset rows"
proof -
  have "\<exists>groups. concat groups = b
      \<and> list_all2 (\<lambda>g d. \<forall>id0. \<exists>ch. finish_draft E path id0 d = Inr ch \<and> made_of max_rows path g ch) groups (batch_drafts max_rows b)"
    if "b \<in> set (batches E rows)" for b
    using batches_ok [OF assms(2) that] batch_chunks [OF assms(1)] by blast
  then obtain groups where g: "concat groups = concat (batches E rows)"
    "list_all2 (\<lambda>g d. \<forall>id0. \<exists>ch. finish_draft E path id0 d = Inr ch \<and> made_of max_rows path g ch) groups
      (concat (map (batch_drafts max_rows) (batches E rows)))"
    using concat_batches [of "batches E rows"] by blast
  have drafts: "concat (map (\<lambda>rows. concat (map (batch_drafts max_rows) (group_rows E (datatype_hash E) rows)))
      (group_rows E (timeline_hash E) (sort_key pr_row_id rows))) = concat (map (batch_drafts max_rows) (batches E rows))"
  proof -
    have "concat (map (\<lambda>rows. concat (map (batch_drafts max_rows) (group_rows E (datatype_hash E) rows))) gs)
      = concat (map (batch_drafts max_rows) (concat (map (group_rows E (datatype_hash E)) gs)))" for gs by (induction gs) simp_all
    then show ?thesis by (simp add: batches_def)
  qed
  let ?drafts = "concat (map (batch_drafts max_rows) (batches E rows))"
  obtain chunks where "map (\<lambda>(i, d). finish_draft E path (be_fresh E (n + i)) d) (zip [0..<0 + length ?drafts] ?drafts) = map Inr chunks"
    "list_all2 (made_of max_rows path) groups chunks"
    using chunks_of_drafts [OF g(2), of "\<lambda>i. be_fresh E (n + i)" 0] by blast
  then show ?thesis using g(1) mset_batches [of E rows] unfolding many_into_chunks_def Let_def drafts by auto
qed

lemma made_rows:
  assumes "list_all2 (made_of max_rows path) groups chunks"
  shows "mset (concat (map chunk_rows chunks)) = image_mset pending_row (mset (concat groups))"
    "ch \<in> set chunks \<Longrightarrow> chunk_wf ch \<and> ch_entity_path ch = path \<and> ch_components ch \<noteq> [] \<and> chunk_within_limit max_rows ch"
  using assms by (induction groups chunks rule: list_all2_induct) (auto simp: made_of_def)

section \<open>Columns of mixed datatypes\<close>

text \<open>What \<open>concat\<close> does on arrays of different types: it fails.\<close>

definition concat_fails_mixed :: "'c batcher_env \<Rightarrow> bool" where
  "concat_fails_mixed E \<longleftrightarrow> (\<forall>xs x y. x \<in> set xs \<longrightarrow> y \<in> set xs \<longrightarrow> fst x \<noteq> fst y \<longrightarrow> be_concat E xs = None)"

lemma list_array_opt_mixed:
  assumes "concat_fails_mixed E" "\<not> one_type arrays"
  shows "arrays_to_list_array_opt E arrays = None"
proof -
  obtain a as where a: "somes arrays = a # as" using assms(2) by (cases "somes arrays") (auto simp: one_type_def)
  have "\<not> fst ` set (somes arrays) \<subseteq> {fst a}" using assms(2) unfolding one_type_def by blast
  then obtain b where b: "b \<in> set (somes arrays)" "fst b \<noteq> fst a" by blast
  have "a \<in> set (somes arrays)" using a by simp
  then have "be_concat E (somes arrays) = None" using assms(1) b unfolding concat_fails_mixed_def by blast
  then show ?thesis using a by (simp add: arrays_to_list_array_opt_def arrays_to_list_array_def)
qed

text \<open>Columns of more than one type leave no trace in the finished components.\<close>

definition typed_only :: "'c building \<Rightarrow> 'c building" where
  "typed_only comps = filter (\<lambda>(_, _, arrays). one_type arrays) comps"

lemma finish_components_typed:
  assumes "concat_fails_mixed E"
  shows "finish_components E comps = finish_components E (typed_only comps)"
proof -
  have "foldl (\<lambda>m (_, desc, arrays).
        case arrays_to_list_array_opt E arrays of None \<Rightarrow> m | Some la \<Rightarrow> components_insert (sc_new la desc) m) m comps
    = foldl (\<lambda>m (_, desc, arrays).
        case arrays_to_list_array_opt E arrays of None \<Rightarrow> m | Some la \<Rightarrow> components_insert (sc_new la desc) m) m (typed_only comps)"
    for m :: "'a ChunkComponents"
    by (induction comps arbitrary: m) (auto simp: typed_only_def list_array_opt_mixed [OF assms])
  then show ?thesis by (simp add: finish_components_def)
qed

lemma typed_only_ok:
  assumes "all_ok all"
  shows "building_ok (length g) (typed_only (comps_of all g))"
    "\<not> one_type (arrays_of c g) \<Longrightarrow> map_of (typed_only (comps_of all g)) c = None"
proof -
  have "map fst (comps_of all g) = map fst all" by (auto simp: comps_of_def)
  then have "distinct (map fst (typed_only (comps_of all g)))"
    using assms unfolding typed_only_def all_ok_def by (metis distinct_map_filter)
  then show "building_ok (length g) (typed_only (comps_of all g))"
    using assms by (auto simp: building_ok_def typed_only_def comps_of_def all_ok_def)
  show "map_of (typed_only (comps_of all g)) c = None" if "\<not> one_type (arrays_of c g)"
    using that by (auto simp: map_of_eq_None_iff typed_only_def comps_of_def arrays_of_def)
qed

text \<open>A draft with at most one row is sorted on every timeline, so that the next row joins it.\<close>

lemma split_if_unsorted_short:
  assumes "st_ok max_rows ns all groups cur st" "fst nc \<in> set ns" "length cur \<le> 1"
  shows "st_ok max_rows ns all groups cur (split_if_unsorted max_rows all nc st)"
proof -
  let ?col = "column_entry nc (bs_timelines st)"
  have d: "draft_ok ns all cur (bs_row_ids st, bs_timelines st, bs_components st)" using assms(1) by (simp add: st_ok_def)
  then have tls: "tls_ok ns cur (bs_timelines st)" by (simp add: draft_ok_def)
  have "sorted (map (logged_time (fst nc)) cur)" using assms(3) by (cases cur) simp_all
  then have "pt_is_sorted ?col" using column_entry_ok [OF tls] assms(2) by (auto simp: col_ok_def)
  then show ?thesis
    using assms(1) d tls_ok_entry [OF tls assms(2)]
    by (simp add: st_ok_def split_if_unsorted_def Let_def draft_ok_def)
qed

lemma fold_split_short:
  assumes "st_ok max_rows ns all groups cur st" "fst ` set ncs \<subseteq> set ns" "length cur \<le> 1"
  shows "st_ok max_rows ns all groups cur (fold (split_if_unsorted max_rows all) ncs st)"
  using assms(1,2) by (induction ncs arbitrary: st) (simp_all add: split_if_unsorted_short [OF _ _ assms(3)])

lemma batch_row_short:
  assumes "st_ok max_rows ns all groups cur st" "map fst (pr_timepoint row) = ns" "distinct ns" "length cur \<le> 1"
  shows "st_ok max_rows ns all groups (cur @ [row]) (batch_row max_rows all st row)"
proof -
  have "fst ` set (pr_timepoint row) = set ns" using assms(2) by (simp flip: set_map)
  then have s: "st_ok max_rows ns all groups cur (fold (split_if_unsorted max_rows all) (pr_timepoint row) st)"
    using fold_split_short [OF assms(1) _ assms(4)] by simp
  let ?st = "fold (split_if_unsorted max_rows all) (pr_timepoint row) st"
  have d: "draft_ok ns all cur (bs_row_ids ?st, bs_timelines ?st, bs_components ?st)" using s by (simp add: st_ok_def)
  then have "tls_ok ns (cur @ [row]) (fold push_time (pr_timepoint row) (bs_timelines ?st))"
    using tls_ok_push [OF _ assms(2, 3)] by (simp add: draft_ok_def)
  moreover have "may_join max_rows (set ns) cur" using assms(4) by (cases cur) (simp_all add: may_join_def)
  ultimately show ?thesis
    using s d within_limit_push [of max_rows ns cur row] comps_of_push [of row all cur]
    by (simp add: st_ok_def batch_row_def Let_def draft_ok_def)
qed

lemma batch_drafts_two:
  assumes "map fst (pr_timepoint r) = ns" "map fst (pr_timepoint s) = ns" "distinct ns" "all_ok (all_components [r, s])"
  shows "\<exists>d. batch_drafts max_rows [r, s] = [d] \<and> draft_ok ns (all_components [r, s]) [r, s] d"
proof -
  let ?all = "all_components [r, s]"
  let ?st = "\<lparr>bs_row_ids = [], bs_timelines = [], bs_components = ?all, bs_chunks = []\<rparr>"
  have "st_ok max_rows ns ?all [] [] ?st"
    using draft_ok_empty [OF all_ok_comps [OF assms(4)], of ns] by (simp add: st_ok_def within_limit_def)
  from batch_row_short [OF this assms(1,3)] have one: "st_ok max_rows ns ?all [] [r] (batch_row max_rows ?all ?st r)" by simp
  have "st_ok max_rows ns ?all [] [r, s] (batch_row max_rows ?all (batch_row max_rows ?all ?st r) s)"
    using batch_row_short [OF one assms(2,3)] by simp
  then show ?thesis by (simp add: batch_drafts_def Let_def st_ok_def)
qed

lemma group_rows_single:
  assumes "rows \<noteq> []" "\<And>r. r \<in> set rows \<Longrightarrow> h r = k"
  shows "group_rows E h rows = [rows]"
proof -
  have "foldl (\<lambda>m row. al_entry (h row) [] (\<lambda>g. g @ [row]) m) [] rows = [(k, rows)]"
    using assms
  proof (induction rows rule: rev_induct)
    case (snoc r rows)
    then show ?case by (cases "rows = []") (simp_all add: al_entry_def al_get_def)
  qed simp
  then show ?thesis by (simp add: group_rows_def int_map_iter_def)
qed

text \<open>Two rows in one batch become one chunk, without the columns of more than one type.\<close>

lemma many_into_chunks_two:
  assumes E: "concat_laws E" "concat_fails_mixed E" and ok: "row_ok r" "row_ok s"
    and tl: "map fst (pr_timepoint r) = map fst (pr_timepoint s)"
    and dt: "hashed_datatypes E r = hashed_datatypes E s" and srt: "pr_row_id r \<le> pr_row_id s"
    and rows: "sort_key pr_row_id rows = [r, s]"
  shows "\<exists>ch. many_into_chunks E path n max_rows rows = [Inr ch] \<and> chunk_wf ch \<and> ch_row_ids ch = [pr_row_id r, pr_row_id s]
    \<and> (\<forall>c. \<not> one_type (arrays_of c [r, s]) \<longrightarrow> map_of (ch_components ch) c = None)"
proof -
  let ?ns = "map fst (pr_timepoint s)"
  have all: "all_ok (all_components [r, s])" using all_components_ok [of "[r, s]"] ok by simp
  have "distinct ?ns" using ok(2) by (simp add: row_ok_def)
  from batch_drafts_two [OF tl refl this all, of max_rows] obtain d where
    d: "batch_drafts max_rows [r, s] = [d]" "draft_ok ?ns (all_components [r, s]) [r, s] d" by blast
  obtain tls where tls: "d = (map pr_row_id [r, s], tls, comps_of (all_components [r, s]) [r, s])" "tls_ok ?ns [r, s] tls"
    using d(2) by (cases d) (simp add: draft_ok_def)
  let ?comps = "comps_of (all_components [r, s]) [r, s]"
  note typed = typed_only_ok [OF all, where g = "[r, s]"]
  have cols: "columns_ok (length [r, s]) (finish_components E ?comps)"
    unfolding finish_components_typed [OF E(2), of ?comps] by (rule finish_components_ok(1) [OF E(1) typed(1)])
  have "sorted (map pr_row_id [r, s])" using srt by simp
  note new = finish_draft_new [OF tls(2) this cols, where path = path and ?id0.0 = "be_fresh E n"]
  have lost: "map_of (finish_components E ?comps) c = None" if "\<not> one_type (arrays_of c [r, s])" for c
    unfolding finish_components_typed [OF E(2), of ?comps]
    using finish_components_ok(2) [OF E(1) typed(1), of c] typed(2) [OF that] by simp
  have "group_rows E (timeline_hash E) [r, s] = [[r, s]]"
    by (rule group_rows_single [where k = "timeline_hash E s"]) (use tl in \<open>auto simp: timeline_hash_def\<close>)
  moreover have "group_rows E (datatype_hash E) [r, s] = [[r, s]]"
    by (rule group_rows_single [where k = "datatype_hash E s"]) (use dt in \<open>auto simp: datatype_hash_def\<close>)
  ultimately have "many_into_chunks E path n max_rows rows = [finish_draft E path (be_fresh E n) d]"
    by (simp add: many_into_chunks_def rows d(1))
  then show ?thesis unfolding tls(1) new(1) using new(2) lost by (intro exI conjI) (assumption | simp)+
qed

section \<open>Single rows\<close>

lemma col_ok_single:
  "col_ok [nonmin_get v] \<lparr>pt_timeline = timeline, pt_times = [nonmin_get v], pt_is_sorted = True,
     pt_time_range = tc_time_range (tc_new (Some True) timeline [nonmin_get v])\<rparr>"
proof -
  have v: "i64_MIN + 1 \<le> nonmin_get v" "nonmin_get v \<le> i64_MAX" "i64_MIN < nonmin_get v" using nonmin_get_range [of v] by simp_all
  then have "as_i64 (new_temporal (nonmin_get v)) = nonmin_get v" by (simp add: as_i64_new_temporal_valid)
  then show ?thesis
    using v by (simp add: col_ok_def tc_new_def range_new_def list_first_def list_last_def times_valid_def map_or_def as_i64_max)
qed

lemma all_components_single:
  fixes row :: "'c PendingRow"
  assumes "distinct (map fst (pr_components row))"
  shows "all_components [row] = map (\<lambda>(c, b). (c, ba_descriptor b, [])) (pr_components row)"
proof -
  have "foldl (\<lambda>m (c, b). if map_of m c = None then al_insert c (ba_descriptor b, []) m else m) m comps
      = m @ map (\<lambda>(c, b). (c, ba_descriptor b, [])) comps"
    if "distinct (map fst comps)" "fst ` set m \<inter> fst ` set comps = {}"
    for m :: "'c building" and comps :: "(ComponentIdentifier \<times> 'c SerializedComponentBatch) list"
    using that
  proof (induction comps arbitrary: m)
    case (Cons x comps)
    obtain c b where x: "x = (c, b)" by (cases x)
    have new: "c \<notin> fst ` set m" using Cons.prems(2) x by auto
    then have "map_of m c = None" "al_insert c (ba_descriptor b, []) m = m @ [(c, ba_descriptor b, [])]"
      by (simp_all add: map_of_eq_None_iff al_insert_fresh)
    moreover have "distinct (map fst comps)" "fst ` set (m @ [(c, ba_descriptor b, [])]) \<inter> fst ` set comps = {}"
      using Cons.prems x by auto
    ultimately show ?case using Cons.IH x by simp
  qed simp
  then show ?thesis using assms by (simp add: all_components_def)
qed

lemma into_chunk_keeps_row:
  assumes "concat_laws E" "row_ok row" "distinct (map fst (pr_components row))"
  shows "\<exists>ch. into_chunk E id0 path row = Inr ch \<and> chunk_wf ch \<and> ch_entity_path ch = path \<and> chunk_rows ch = [pending_row row]"
proof -
  let ?col = "\<lambda>(name, c). \<lparr>pt_timeline = \<lparr>tl_name = name, tl_typ = cell_typ c\<rparr>, pt_times = [nonmin_get (cell_value c)],
     pt_is_sorted = True, pt_time_range = tc_time_range (tc_new (Some True) \<lparr>tl_name = name, tl_typ = cell_typ c\<rparr> [nonmin_get (cell_value c)])\<rparr>"
  let ?tls = "map (\<lambda>nc. (fst nc, ?col nc)) (pr_timepoint row)"
  let ?d = "([pr_row_id row], ?tls, map (\<lambda>(c, b). (c, ba_descriptor b, [Some (ba_array b)])) (pr_components row))"
  have "into_chunk E id0 path row = finish_draft E path id0 ?d"
    by (simp add: into_chunk_def finish_draft_def pt_finish_def tc_new_def split_def comp_def)
  moreover have "tls_ok (map fst (pr_timepoint row)) [row] ?tls"
  proof -
    have dist: "distinct (map fst (pr_timepoint row))" using assms(2) by (simp add: row_ok_def)
    have "col_ok (map (logged_time k) [row]) col" if k: "map_of ?tls k = Some col" for k col
    proof -
      obtain c where c: "(k, c) \<in> set (pr_timepoint row)" "col = ?col (k, c)" using map_of_SomeD [OF k] by auto
      then have "logged_time k row = nonmin_get (cell_value c)" using dist by (simp add: logged_time_def)
      then show ?thesis using col_ok_single c(2) by simp
    qed
    then show ?thesis using dist by (simp add: tls_ok_def comp_def image_image)
  qed
  moreover have "map (\<lambda>(c, b). (c, ba_descriptor b, [Some (ba_array b)])) (pr_components row) = comps_of (all_components [row]) [row]"
    using assms(3) by (simp add: comps_of_def all_components_single) (auto simp: comp_def)
  ultimately have "into_chunk E id0 path row = finish_draft E path id0 ?d"
    "draft_ok (map fst (pr_timepoint row)) (all_components [row]) [row] ?d" by (simp_all add: draft_ok_def)
  moreover have "batch_ok (map fst (pr_timepoint row)) [row]" using assms(2) unfolding batch_ok_def same_types_def
    by (simp, intro allI impI, elim conjE) (simp only: option.inject)
  ultimately show ?thesis using finish_draft_ok [OF assms(1), of _ "[row]" "[row]"] by fastforce
qed

section \<open>Example rows\<close>

text \<open>An environment in which \<open>concat\<close> fails on arrays of different types and the hashes are lossless enough.\<close>

definition demo_env :: "nat batcher_env" where
  "demo_env = \<lparr>be_build = \<lparr>debug_assertions = True, measured_heap_size = (\<lambda>_. 0)\<rparr>,
     be_concat = (\<lambda>xs. if list_all (\<lambda>x. fst x = fst (hd xs)) xs then Some (concat (map snd xs)) else None),
     be_hash_timelines = length, be_hash_datatypes = (\<lambda>tys. sum_list (map length tys)),
     be_rank_components = (\<lambda>_ c. length c), be_rank_groups = (\<lambda>_ h. h),
     be_row_size = (\<lambda>_. 100), be_fresh = demo_id\<rparr>"

definition demo_batch :: "ComponentIdentifier \<Rightarrow> string \<Rightarrow> nat \<Rightarrow> ComponentIdentifier \<times> nat SerializedComponentBatch" where
  "demo_batch c ty v = (c, \<lparr>ba_array = (ty, [v]),
     ba_descriptor = \<lparr>cd_archetype = None, cd_component = c, cd_component_type = None\<rparr>\<rparr>)"

definition demo_row :: "nat \<Rightarrow> int \<Rightarrow> (ComponentIdentifier \<times> nat SerializedComponentBatch) list \<Rightarrow> nat PendingRow" where
  "demo_row n t comps = pending_new (demo_id n)
     [(''frame'', \<lparr>cell_typ = Sequence, cell_value = nonmin_saturating_from_i64 t\<rparr>)] comps"

lemma demo_concat_laws: "concat_laws demo_env"
  unfolding concat_laws_def
proof (intro allI impI)
  fix xs :: "nat typed_array list" and ty
  assume xs: "xs \<noteq> []" "fst ` set xs \<subseteq> {ty}"
  have "fst x = ty" if "x \<in> set xs" for x using xs(2) that by blast
  then have "\<forall>x \<in> set xs. fst x = fst (hd xs)" using hd_in_set [OF xs(1)] by simp
  then show "be_concat demo_env xs = Some (concat (map snd xs))" by (simp add: demo_env_def list_all_iff)
qed

lemma demo_row_ok:
  "row_ok (demo_row n t [demo_batch c ty v])" "map fst (pr_timepoint (demo_row n t comps)) = [''frame'']"
  by (simp_all add: row_ok_def demo_row_def demo_batch_def pending_new_def)

lemma same_types_typed:
  assumes "\<And>r. r \<in> set rows \<Longrightarrow> (fst \<circ> ba_array \<circ> snd) ` set (pr_components r) \<subseteq> {ty}"
  shows "same_types rows"
proof -
  have "fst (ba_array a) = ty" if "r \<in> set rows" "map_of (pr_components r) c = Some a" for r c a
  proof -
    have "(fst \<circ> ba_array \<circ> snd) (c, a) \<in> (fst \<circ> ba_array \<circ> snd) ` set (pr_components r)"
      by (rule imageI) (rule map_of_SomeD [OF that(2)])
    then have "(fst \<circ> ba_array \<circ> snd) (c, a) \<in> {ty}" using assms [OF that(1)] by (rule rev_subsetD)
    then show ?thesis by simp
  qed
  then show ?thesis unfolding same_types_def by (intro ballI allI impI) (elim conjE, simp only:)
qed

lemma demo_same_types: "same_types [demo_row n t [demo_batch c ty v], demo_row n' t' [demo_batch c ty v']]"
proof (rule same_types_typed)
  have *: "(fst \<circ> ba_array \<circ> snd) ` set (pr_components (demo_row n t [demo_batch c ty v])) \<subseteq> {ty}" for n t v
    by (simp add: demo_row_def demo_batch_def pending_new_def)
  show "(fst \<circ> ba_array \<circ> snd) ` set (pr_components r) \<subseteq> {ty}"
    if "r \<in> set [demo_row n t [demo_batch c ty v], demo_row n' t' [demo_batch c ty v']]" for r
    using that unfolding list.set by (elim insertE emptyE) (simp_all only: *)
qed

lemma demo_rows_ok: "rows_ok demo_env {demo_row 1 5 [demo_batch ''pos'' ''i32'' 1], demo_row 2 3 [demo_batch ''pos'' ''i32'' 2]}"
  unfolding rows_ok_def
proof (intro conjI ballI impI)
  let ?R = "{demo_row 1 5 [demo_batch ''pos'' ''i32'' 1], demo_row 2 3 [demo_batch ''pos'' ''i32'' 2]}"
  show "row_ok r" if "r \<in> ?R" for r using that by (elim insertE emptyE) (simp_all only: demo_row_ok)
  fix r s
  assume rs: "r \<in> ?R" "s \<in> ?R"
  then show "map fst (pr_timepoint r) = map fst (pr_timepoint s)" by (elim insertE emptyE) (simp_all only: demo_row_ok)
  show "same_types [r, s]" using rs by (elim insertE emptyE) (simp_all only: demo_same_types)
qed

section \<open>Rows kept, and how the limit and a component can be lost\<close>

text \<open>C6: Turning a batch of rows into chunks loses and invents nothing: every chunk is built without error and is well
  formed, belongs to the entity, has at least one component, and together the chunks hold exactly the
  rows of the batch, with their ids, times and cells. A chunk with more rows than the limit is sorted on
  every timeline, except that its last row may be out of order. The rows are assumed to be as \<open>rows_ok\<close> says:
  each has distinct timelines and at least one component, each under its own identifier; two rows whose
  timelines hash alike have the same timelines, and when their datatypes hash alike too, they agree on the
  datatype of every component that both have. Without the last condition a component can be lost,
  as shown below. Of arrow's \<open>concat\<close> it is assumed that it appends arrays of one type.\<close>

theorem batch_keeps_rows:
  assumes "concat_laws E" "rows_ok E (set rows)"
  shows "\<exists>chunks. many_into_chunks E path n max_rows rows = map Inr chunks
    \<and> mset (concat (map chunk_rows chunks)) = mset (map pending_row rows)
    \<and> (\<forall>ch \<in> set chunks. chunk_wf ch \<and> ch_entity_path ch = path \<and> ch_components ch \<noteq> [] \<and> chunk_within_limit max_rows ch)"
proof -
  obtain chunks groups where c: "many_into_chunks E path n max_rows rows = map Inr chunks"
    "list_all2 (made_of max_rows path) groups chunks" "mset (concat groups) = mset rows"
    using many_into_chunks_made [OF assms] by blast
  then show ?thesis using made_rows [OF c(2)] by (intro exI [of _ chunks]) simp
qed

theorem batch_keeps_rows_witness:
  "\<exists>chunks. many_into_chunks demo_env ''/world'' 7 1 [demo_row 1 5 [demo_batch ''pos'' ''i32'' 1], demo_row 2 3 [demo_batch ''pos'' ''i32'' 2]]
      = map Inr chunks
    \<and> mset (concat (map chunk_rows chunks))
      = mset (map pending_row [demo_row 1 5 [demo_batch ''pos'' ''i32'' 1], demo_row 2 3 [demo_batch ''pos'' ''i32'' 2]])
    \<and> list_all (\<lambda>ch. chunk_wf ch \<and> ch_entity_path ch = ''/world'' \<and> ch_components ch \<noteq> [] \<and> chunk_within_limit 1 ch) chunks"
  unfolding list_all_iff
  by (rule batch_keeps_rows [OF demo_concat_laws]) (use demo_rows_ok in \<open>simp only: list.set insert_def\<close>)

text \<open>The documented limit on chunks with unsorted timelines is not kept: four rows at the times 1, 2, 3, 0 and a limit
  of two rows give one chunk of four rows with an unsorted timeline, because the row that breaks the order
  is only noticed when the next one arrives.\<close>

theorem unsorted_chunk_exceeds_limit:
  "case many_into_chunks demo_env ''/world'' 0 2
     [demo_row 1 1 [demo_batch ''pos'' ''i32'' 1], demo_row 2 2 [demo_batch ''pos'' ''i32'' 2],
      demo_row 3 3 [demo_batch ''pos'' ''i32'' 3], demo_row 4 0 [demo_batch ''pos'' ''i32'' 4]]
   of [Inr ch] \<Rightarrow> num_rows ch = 4 \<and> map (\<lambda>(k, tc). (k, tc_times tc, tc_is_sorted tc)) (ch_timelines ch) = [(''frame'', [1, 2, 3, 0], False)]
    | _ \<Rightarrow> False"
  by code_simp

text \<open>C30: Two rows with different datatypes for one component can end up in one batch, and then that component is
  lost. Rows are batched by the hash of their datatypes, taken in the traversal order of their components
  and without the names of the components. So take two rows with the same timelines whose datatypes read the
  same in that order, whatever the traversal order, the hash function and the limit on unsorted rows are,
  and a component that both have, with different datatypes; arrow's \<open>concat\<close> fails on arrays of different
  types. Then the batch gives one chunk, without an error; it is well formed, has both row ids, and has no
  column for that component. The values that both rows logged for it are gone.\<close>

theorem mixed_datatypes_lose_component:
  assumes E: "concat_laws E" "concat_fails_mixed E" and ok: "row_ok r" "row_ok s"
    and tl: "map fst (pr_timepoint r) = map fst (pr_timepoint s)" and dt: "hashed_datatypes E r = hashed_datatypes E s"
    and c: "map_of (pr_components r) c = Some a" "map_of (pr_components s) c = Some b"
    and ab: "fst (ba_array a) \<noteq> fst (ba_array b)"
  shows "\<exists>ch. many_into_chunks E path n max_rows [r, s] = [Inr ch] \<and> chunk_wf ch
    \<and> set (ch_row_ids ch) = {pr_row_id r, pr_row_id s} \<and> num_rows ch = 2 \<and> map_of (ch_components ch) c = None"
proof -
  have mixed: "\<not> one_type (arrays_of c [r, s])" "\<not> one_type (arrays_of c [s, r])"
    using ab c by (auto simp: one_type_def arrays_of_def)
  show ?thesis
  proof (cases "pr_row_id r \<le> pr_row_id s")
    case True
    then have "sort_key pr_row_id [r, s] = [r, s]" by simp
    from many_into_chunks_two [OF E ok tl dt True this, of path n max_rows] obtain ch where
      "many_into_chunks E path n max_rows [r, s] = [Inr ch]" "chunk_wf ch" "ch_row_ids ch = [pr_row_id r, pr_row_id s]"
      "map_of (ch_components ch) c = None" using mixed(1) by blast
    then show ?thesis by (intro exI [of _ ch]) (simp add: num_rows_def)
  next
    case False
    then have le: "pr_row_id s \<le> pr_row_id r" and "sort_key pr_row_id [r, s] = [s, r]" by simp_all
    from many_into_chunks_two [OF E ok(2,1) tl [symmetric] dt [symmetric] this, of path n max_rows] obtain ch where
      "many_into_chunks E path n max_rows [r, s] = [Inr ch]" "chunk_wf ch" "ch_row_ids ch = [pr_row_id s, pr_row_id r]"
      "map_of (ch_components ch) c = None" using mixed(2) by blast
    then show ?thesis by (intro exI [of _ ch]) (auto simp: num_rows_def)
  qed
qed

text \<open>Here every map is traversed in one fixed order of the keys: c, a, b.\<close>

definition ranked_env :: "nat batcher_env" where
  "ranked_env = demo_env\<lparr>be_rank_components := (\<lambda>_ c. if c = ''c'' then 0 else if c = ''a'' then 1 else 2)\<rparr>"

lemma ranked_env_concat: "concat_laws ranked_env" "concat_fails_mixed ranked_env"
proof -
  show "concat_laws ranked_env" using demo_concat_laws by (simp add: concat_laws_def ranked_env_def)
  show "concat_fails_mixed ranked_env"
    unfolding concat_fails_mixed_def
  proof (intro allI impI)
    fix xs :: "nat typed_array list" and x y
    assume "x \<in> set xs" "y \<in> set xs" "fst x \<noteq> fst y"
    then have "\<not> list_all (\<lambda>x. fst x = fst (hd xs)) xs" unfolding list_all_iff by metis
    then show "be_concat ranked_env xs = None" by (simp add: ranked_env_def demo_env_def)
  qed
qed

theorem mixed_datatypes_lose_component_witness:
  "\<exists>ch. many_into_chunks ranked_env ''/world'' 0 256
      [demo_row 1 1 [demo_batch ''a'' ''i32'' 1, demo_batch ''b'' ''f32'' 2],
       demo_row 2 2 [demo_batch ''a'' ''f32'' 4, demo_batch ''c'' ''i32'' 3]] = [Inr ch] \<and> chunk_wf ch
    \<and> set (ch_row_ids ch) = {demo_id 1, demo_id 2} \<and> num_rows ch = 2 \<and> map_of (ch_components ch) ''a'' = None"
  using mixed_datatypes_lose_component [OF ranked_env_concat,
      of "demo_row 1 1 [demo_batch ''a'' ''i32'' 1, demo_batch ''b'' ''f32'' 2]"
         "demo_row 2 2 [demo_batch ''a'' ''f32'' 4, demo_batch ''c'' ''i32'' 3]" "''a''"]
  by (simp add: row_ok_def demo_row_def demo_batch_def pending_new_def hashed_datatypes_def int_map_iter_def ranked_env_def)



end
