(* ===== verification/Batcher_Thread.thy ===== *)
theory Batcher_Thread
  imports Batcher_Rows
begin

text \<open>
  The batching thread over whole runs: along every sequence of commands and ticks the rows that were logged
  are those sent and those pending, a flush, a shutdown or two ticks leave nothing pending, and what is
  pending stays below the configured thresholds.
\<close>

section \<open>Conservation of rows\<close>

definition chunk_contents :: "'c Chunk \<Rightarrow> (EntityPath \<times> 'c row) multiset" where
  "chunk_contents ch = image_mset (Pair (ch_entity_path ch)) (mset (chunk_rows ch))"

definition sent_rows :: "'c batcher \<Rightarrow> (EntityPath \<times> 'c row) multiset" where
  "sent_rows st = sum_list (map chunk_contents (bt_sent st))"

definition acc_contents :: "EntityPath \<Rightarrow> 'c Accumulator \<Rightarrow> (EntityPath \<times> 'c row) multiset" where
  "acc_contents path acc = image_mset (\<lambda>r. (path, pending_row r)) (mset (acc_pending_rows acc))"

definition pending_rows :: "'c batcher \<Rightarrow> (EntityPath \<times> 'c row) multiset" where
  "pending_rows st = sum_list (map (\<lambda>(path, acc). acc_contents path acc) (bt_accs st))"

fun logged_rows :: "'c batcher_event \<Rightarrow> (EntityPath \<times> 'c row) multiset" where
  "logged_rows (Recv (AppendChunk ch)) = (if ch_components ch \<noteq> [] then chunk_contents ch else {#})"
| "logged_rows (Recv (AppendRow path row)) = {#(path, pending_row row)#}"
| "logged_rows _ = {#}"

lemma acc_contents_new [simp]: "acc_contents path acc_new = {#}"
  by (simp add: acc_contents_def acc_new_def)

lemma pending_insert:
  "sum_list (map (\<lambda>(path, acc). acc_contents path acc) (al_insert p acc m)) + acc_contents p (al_get acc_new p m)
    = sum_list (map (\<lambda>(path, acc). acc_contents path acc) m) + acc_contents p acc"
  by (induction m) (auto simp: al_get_def ac_simps)

definition thread_inv :: "(EntityPath \<Rightarrow> 'c PendingRow set) \<Rightarrow> 'c batcher \<Rightarrow> bool" where
  "thread_inv R st \<longleftrightarrow> distinct (map fst (bt_accs st)) \<and> (\<forall>p. set (acc_pending_rows (al_get acc_new p (bt_accs st))) \<subseteq> R p)"

lemma send_all:
  assumes "\<forall>ch \<in> set chunks. ch_components ch \<noteq> []"
  shows "fold (\<lambda>chunk st. case chunk of Inr chunk \<Rightarrow> send_chunk chunk st | Inl _ \<Rightarrow> st) (map Inr chunks) st
    = st\<lparr>bt_sent := bt_sent st @ chunks\<rparr>"
  using assms by (induction chunks arbitrary: st) (simp_all add: send_chunk_def)

lemma made_contents:
  assumes "list_all2 (made_of max_rows path) groups chunks"
  shows "sum_list (map chunk_contents chunks) = image_mset (\<lambda>r. (path, pending_row r)) (mset (concat groups))"
  using assms
  by (induction groups chunks rule: list_all2_induct) (auto simp: made_of_def chunk_contents_def multiset.map_comp comp_def)

lemma flush_one:
  assumes "concat_laws E" "\<And>p. rows_ok E (R p)" "thread_inv R st"
  shows "sent_rows (do_flush_all E p st) + pending_rows (do_flush_all E p st) = sent_rows st + pending_rows st"
    and "thread_inv R (do_flush_all E p st)"
    and "fst ` set (bt_accs (do_flush_all E p st)) \<subseteq> insert p (fst ` set (bt_accs st))"
    and "acc_pending_rows (al_get acc_new q (bt_accs (do_flush_all E p st)))
      = (if q = p then [] else acc_pending_rows (al_get acc_new q (bt_accs st)))"
    and "bt_running (do_flush_all E p st) = bt_running st"
proof -
  let ?acc = "al_get acc_new p (bt_accs st)" and ?st = "do_flush_all E p st"
  have "sent_rows ?st + pending_rows ?st = sent_rows st + pending_rows st \<and> thread_inv R ?st
    \<and> fst ` set (bt_accs ?st) \<subseteq> insert p (fst ` set (bt_accs st))
    \<and> (\<forall>q. acc_pending_rows (al_get acc_new q (bt_accs ?st)) = (if q = p then [] else acc_pending_rows (al_get acc_new q (bt_accs st))))
    \<and> bt_running ?st = bt_running st"
  proof (cases "acc_pending_rows ?acc = []")
    case True
    then have "?st = st" by (simp add: do_flush_all_def)
    then show ?thesis using assms(3) True by auto
  next
    case False
    have "rows_ok E (set (acc_pending_rows ?acc))" using rows_ok_mono [OF assms(2) [of p]] assms(3) by (simp add: thread_inv_def)
    then obtain chunks groups where c:
      "many_into_chunks E p (bt_drawn st) (chunk_max_rows_if_unsorted (bt_config st)) (acc_pending_rows ?acc) = map Inr chunks"
      "list_all2 (made_of (chunk_max_rows_if_unsorted (bt_config st)) p) groups chunks" "mset (concat groups) = mset (acc_pending_rows ?acc)"
      using many_into_chunks_made [OF assms(1)] by blast
    have "\<forall>ch \<in> set chunks. ch_components ch \<noteq> []" using made_rows(2) [OF c(2)] by blast
    then have st: "?st = st\<lparr>bt_sent := bt_sent st @ chunks, bt_accs := al_insert p acc_new (bt_accs st), bt_drawn := bt_drawn st + length chunks\<rparr>"
      using False by (simp add: do_flush_all_def Let_def c(1) send_all)
    have "sent_rows ?st = sent_rows st + acc_contents p ?acc"
      using made_contents [OF c(2)] c(3) by (simp add: st sent_rows_def acc_contents_def)
    moreover have "pending_rows ?st + acc_contents p ?acc = pending_rows st"
      using pending_insert [of p acc_new "bt_accs st"] by (simp add: st pending_rows_def)
    ultimately have "sent_rows ?st + pending_rows ?st = sent_rows st + pending_rows st" by (simp add: ac_simps)
    moreover have others: "acc_pending_rows (al_get acc_new q (bt_accs ?st))
        = (if q = p then [] else acc_pending_rows (al_get acc_new q (bt_accs st)))" for q
      by (simp add: st al_get_def acc_new_def)
    moreover have "thread_inv R ?st" using assms(3) others by (simp add: thread_inv_def) (simp add: st distinct_al_insert)
    moreover have "fst ` set (bt_accs ?st) \<subseteq> insert p (fst ` set (bt_accs st))" "bt_running ?st = bt_running st"
      by (simp_all add: st keys_al_insert)
    ultimately show ?thesis by blast
  qed
  then show "sent_rows ?st + pending_rows ?st = sent_rows st + pending_rows st" "thread_inv R ?st"
    "fst ` set (bt_accs ?st) \<subseteq> insert p (fst ` set (bt_accs st))"
    "acc_pending_rows (al_get acc_new q (bt_accs ?st)) = (if q = p then [] else acc_pending_rows (al_get acc_new q (bt_accs st)))"
    "bt_running ?st = bt_running st" by blast+
qed

lemma flush_fold:
  assumes "concat_laws E" "\<And>p. rows_ok E (R p)" "thread_inv R st"
  shows "sent_rows (fold (do_flush_all E) ps st) + pending_rows (fold (do_flush_all E) ps st) = sent_rows st + pending_rows st
    \<and> thread_inv R (fold (do_flush_all E) ps st)
    \<and> fst ` set (bt_accs (fold (do_flush_all E) ps st)) \<subseteq> set ps \<union> fst ` set (bt_accs st)
    \<and> (\<forall>q. q \<in> set ps \<or> acc_pending_rows (al_get acc_new q (bt_accs st)) = [] \<longrightarrow>
         acc_pending_rows (al_get acc_new q (bt_accs (fold (do_flush_all E) ps st))) = [])
    \<and> bt_running (fold (do_flush_all E) ps st) = bt_running st"
  using assms(3)
proof (induction ps arbitrary: st)
  case (Cons p ps)
  note one = flush_one [OF assms(1, 2) Cons.prems, where p = p]
  let ?st = "do_flush_all E p st"
  note IH = Cons.IH [OF one(2)]
  have eq: "fold (do_flush_all E) (p # ps) st = fold (do_flush_all E) ps ?st" by simp
  have "fst ` set (bt_accs (fold (do_flush_all E) ps ?st)) \<subseteq> set ps \<union> fst ` set (bt_accs ?st)"
    by (rule IH [THEN conjunct2, THEN conjunct2, THEN conjunct1])
  also have "\<dots> \<subseteq> set ps \<union> insert p (fst ` set (bt_accs st))" using one(3) by (rule Un_mono [OF subset_refl])
  also have "\<dots> = set (p # ps) \<union> fst ` set (bt_accs st)" by simp
  finally have keys: "fst ` set (bt_accs (fold (do_flush_all E) ps ?st)) \<subseteq> set (p # ps) \<union> fst ` set (bt_accs st)" .
  have none: "acc_pending_rows (al_get acc_new q (bt_accs (fold (do_flush_all E) ps ?st))) = []"
    if "q \<in> set (p # ps) \<or> acc_pending_rows (al_get acc_new q (bt_accs st)) = []" for q
  proof -
    have "q \<in> set ps \<or> acc_pending_rows (al_get acc_new q (bt_accs ?st)) = []" using that one(4) [of q] by auto
    then show ?thesis using IH [THEN conjunct2, THEN conjunct2, THEN conjunct2, THEN conjunct1] by blast
  qed
  show ?case
    unfolding eq using IH [THEN conjunct1] IH [THEN conjunct2, THEN conjunct1] keys none one(1, 5)
      IH [THEN conjunct2, THEN conjunct2, THEN conjunct2, THEN conjunct2] by (intro conjI allI impI) simp_all
qed simp

lemma sum_list_none: "(\<And>x. x \<in> set xs \<Longrightarrow> f x = {#}) \<Longrightarrow> sum_list (map f xs) = {#}"
  by (induction xs) simp_all

lemma flush_every_ok:
  assumes "concat_laws E" "\<And>p. rows_ok E (R p)" "thread_inv R st"
  shows "sent_rows (flush_every E st) = sent_rows st + pending_rows st" "pending_rows (flush_every E st) = {#}"
    "thread_inv R (flush_every E st)" "bt_running (flush_every E st) = bt_running st"
proof -
  let ?st = "flush_every E st"
  note fl = flush_fold [OF assms, of "map fst (bt_accs st)", folded flush_every_def]
  have inv: "thread_inv R ?st" using fl by blast
  have "acc_contents p acc = {#}" if pa: "(p, acc) \<in> set (bt_accs ?st)" for p acc
  proof -
    have "p \<in> fst ` set (bt_accs ?st)" using pa by (rule rev_image_eqI) simp
    then have "p \<in> set (map fst (bt_accs st))" using fl [THEN conjunct2, THEN conjunct2, THEN conjunct1] by auto
    then have none: "acc_pending_rows (al_get acc_new p (bt_accs ?st)) = []"
      using fl [THEN conjunct2, THEN conjunct2, THEN conjunct2, THEN conjunct1] by blast
    have "map_of (bt_accs ?st) p = Some acc" using inv pa by (simp add: thread_inv_def)
    then show ?thesis using none by (simp add: al_get_def acc_contents_def)
  qed
  then show none: "pending_rows ?st = {#}" unfolding pending_rows_def by (intro sum_list_none) auto
  show "sent_rows ?st = sent_rows st + pending_rows st" using fl [THEN conjunct1] unfolding none by simp
  show "thread_inv R ?st" by (rule inv)
  show "bt_running ?st = bt_running st" using fl by blast
qed

lemma rows_update [simp]:
  "sent_rows (st\<lparr>bt_skip_next_tick := b\<rparr>) = sent_rows st" "pending_rows (st\<lparr>bt_skip_next_tick := b\<rparr>) = pending_rows st"
  "sent_rows (st\<lparr>bt_running := b\<rparr>) = sent_rows st" "pending_rows (st\<lparr>bt_running := b\<rparr>) = pending_rows st"
  "sent_rows (st\<lparr>bt_config := c\<rparr>) = sent_rows st" "pending_rows (st\<lparr>bt_config := c\<rparr>) = pending_rows st"
  "thread_inv R (st\<lparr>bt_skip_next_tick := b\<rparr>) = thread_inv R st" "thread_inv R (st\<lparr>bt_running := b\<rparr>) = thread_inv R st"
  "thread_inv R (st\<lparr>bt_config := c\<rparr>) = thread_inv R st"
  by (simp_all add: sent_rows_def pending_rows_def thread_inv_def)

lemma append_row_ok:
  assumes "concat_laws E" "\<And>p. rows_ok E (R p)" "thread_inv R st" "row \<in> R path"
  shows "sent_rows (append_row E path row st) + pending_rows (append_row E path row st)
      = sent_rows st + pending_rows st + {#(path, pending_row row)#}"
    "thread_inv R (append_row E path row st)" "bt_running (append_row E path row st) = bt_running st"
proof -
  let ?old = "al_get acc_new path (bt_accs st)"
  let ?acc = "do_push_row E row ?old"
  define st1 where "st1 = st\<lparr>bt_accs := al_insert path ?acc (bt_accs st)\<rparr>"
  have "acc_contents path ?acc = acc_contents path ?old + {#(path, pending_row row)#}" by (simp add: acc_contents_def do_push_row_def)
  then have "pending_rows st1 + acc_contents path ?old = pending_rows st + {#(path, pending_row row)#} + acc_contents path ?old"
    using pending_insert [of path ?acc "bt_accs st"] by (simp add: st1_def pending_rows_def ac_simps)
  then have p1: "pending_rows st1 = pending_rows st + {#(path, pending_row row)#}" by (metis add_right_cancel)
  have s1: "sent_rows st1 = sent_rows st" by (simp add: st1_def sent_rows_def)
  have inv1: "thread_inv R st1"
    using assms(3, 4) by (auto simp: thread_inv_def st1_def distinct_al_insert al_get_def do_push_row_def)
  note fl = flush_one [OF assms(1, 2) inv1, where p = path]
  have "append_row E path row st \<in> {(do_flush_all E path st1)\<lparr>bt_skip_next_tick := True\<rparr>, st1}"
    by (simp add: append_row_def Let_def st1_def)
  moreover have "bt_running st1 = bt_running st" by (simp add: st1_def)
  ultimately show "sent_rows (append_row E path row st) + pending_rows (append_row E path row st)
      = sent_rows st + pending_rows st + {#(path, pending_row row)#}"
    "thread_inv R (append_row E path row st)" "bt_running (append_row E path row st) = bt_running st"
    using fl(1, 2, 5) p1 s1 inv1 by (auto simp: ac_simps)
qed

lemma step_ok:
  assumes "concat_laws E" "\<And>p. rows_ok E (R p)" "thread_inv R st" "\<And>p r. ev = Recv (AppendRow p r) \<Longrightarrow> r \<in> R p"
  shows "sent_rows (batcher_step E ev st) + pending_rows (batcher_step E ev st) = sent_rows st + pending_rows st + logged_rows ev
    \<and> thread_inv R (batcher_step E ev st)
    \<and> (ev \<noteq> Recv Shutdown \<longrightarrow> bt_running (batcher_step E ev st) = bt_running st)"
proof -
  consider (chunk) ch where "ev = Recv (AppendChunk ch)" | (row) p r where "ev = Recv (AppendRow p r)"
    | (flush) "ev = Recv Flush" | (config) c where "ev = Recv (UpdateConfig c)" | (shutdown) "ev = Recv Shutdown" | (tick) "ev = Tick"
    by (metis Command.exhaust batcher_event.exhaust)
  then show ?thesis
  proof cases
    case chunk
    then show ?thesis using assms(3) by (auto simp: send_chunk_def sent_rows_def pending_rows_def thread_inv_def)
  next
    case row
    then show ?thesis using append_row_ok [OF assms(1-3) assms(4)] by simp
  next
    case flush
    then show ?thesis using flush_every_ok [OF assms(1, 2), where st = "st\<lparr>bt_skip_next_tick := True\<rparr>"] assms(3) by simp
  next
    case config
    then show ?thesis using assms(3) by simp
  next
    case shutdown
    then show ?thesis using flush_every_ok [OF assms(1-3)] by simp
  next
    case tick
    then show ?thesis using flush_every_ok [OF assms(1-3)] assms(3) by simp
  qed
qed

section \<open>Runs\<close>

definition run_events :: "'c batcher_env \<Rightarrow> 'c batcher_event list \<Rightarrow> 'c batcher \<Rightarrow> 'c batcher" where
  "run_events E events st = fold (\<lambda>ev st. if bt_running st then batcher_step E ev st else st) events st"

lemma run_events_simps [simp]:
  "run_events E [] st = st"
  "run_events E (ev # evs) st = run_events E evs (if bt_running st then batcher_step E ev st else st)"
  by (simp_all add: run_events_def)

lemma batching_thread_append: "batching_thread E c (xs @ ys) = run_events E ys (batching_thread E c xs)"
  by (simp add: batching_thread_def run_events_def)

lemma run_ok:
  assumes "concat_laws E" "\<And>p. rows_ok E (R p)" "thread_inv R st" "bt_running st" "Recv Shutdown \<notin> set evs"
    "\<And>p r. Recv (AppendRow p r) \<in> set evs \<Longrightarrow> r \<in> R p"
  shows "sent_rows (run_events E evs st) + pending_rows (run_events E evs st)
      = sent_rows st + pending_rows st + sum_list (map logged_rows evs)
    \<and> thread_inv R (run_events E evs st) \<and> bt_running (run_events E evs st)"
  using assms(3-)
proof (induction evs arbitrary: st)
  case (Cons ev evs)
  let ?st = "batcher_step E ev st"
  have "r \<in> R p" if "ev = Recv (AppendRow p r)" for p r using Cons.prems(4) that by simp
  then have step: "sent_rows ?st + pending_rows ?st = sent_rows st + pending_rows st + logged_rows ev \<and> thread_inv R ?st
    \<and> (ev \<noteq> Recv Shutdown \<longrightarrow> bt_running ?st = bt_running st)"
    by (rule step_ok [OF assms(1, 2) Cons.prems(1)])
  have run: "bt_running ?st" using step Cons.prems(2, 3) by auto
  have "sent_rows (run_events E evs ?st) + pending_rows (run_events E evs ?st)
      = sent_rows ?st + pending_rows ?st + sum_list (map logged_rows evs)
    \<and> thread_inv R (run_events E evs ?st) \<and> bt_running (run_events E evs ?st)"
    using step Cons.prems(3, 4) by (intro Cons.IH run) simp_all
  then show ?case using step Cons.prems(2) by (simp add: ac_simps)
qed simp

lemma thread_inv_new: "thread_inv R (batcher_new c)"
  by (simp add: thread_inv_def batcher_new_def al_get_def acc_new_def)

lemma rows_new: "sent_rows (batcher_new c) = {#}" "pending_rows (batcher_new c) = {#}" "bt_running (batcher_new c)"
  by (simp_all add: sent_rows_def pending_rows_def batcher_new_def)

definition demo_events :: "nat batcher_event list" where
  "demo_events = [Recv (AppendRow ''/world'' (demo_row 1 5 [demo_batch ''pos'' ''i32'' 1])), Tick,
     Recv (AppendRow ''/robot'' (demo_row 2 3 [demo_batch ''pos'' ''i32'' 2]))]"

text \<open>C5: The batching thread neither loses nor invents a row: whatever sequence of commands and ticks it has
  received, the rows of the chunks it sent and the rows pending in its accumulators are together exactly
  the rows that were logged. After a flush, a shutdown or two ticks everything has been sent. The rows of an
  entity are to have distinct timelines, at least one component and hashes that separate different timelines
  and different datatypes of a component.\<close>

theorem batcher_conserves_rows:
  assumes "concat_laws E" "\<And>p. rows_ok E {r. Recv (AppendRow p r) \<in> set events}" "Recv Shutdown \<notin> set events"
  shows "sent_rows (batching_thread E c events) + pending_rows (batching_thread E c events) = sum_list (map logged_rows events)
    \<and> (\<forall>tail \<in> {[Recv Flush], [Recv Shutdown], [Tick, Tick]}.
         sent_rows (batching_thread E c (events @ tail)) = sum_list (map logged_rows events)
         \<and> pending_rows (batching_thread E c (events @ tail)) = {#})"
proof -
  let ?R = "\<lambda>p. {r. Recv (AppendRow p r) \<in> set events}" and ?st = "batching_thread E c events"
  have "batching_thread E c events = run_events E events (batcher_new c)" by (simp add: batching_thread_def run_events_def)
  then have run: "sent_rows ?st + pending_rows ?st = sum_list (map logged_rows events)" "thread_inv ?R ?st" "bt_running ?st"
    using run_ok [where R = ?R, OF assms(1, 2) thread_inv_new rows_new(3) [of c] assms(3)] by (simp_all add: rows_new)
  have every: "sent_rows (flush_every E st) = sum_list (map logged_rows events)" "pending_rows (flush_every E st) = {#}"
    "thread_inv ?R (flush_every E st)" "bt_running (flush_every E st) = bt_running st"
    if "sent_rows st + pending_rows st = sum_list (map logged_rows events)" "thread_inv ?R st" for st
    using flush_every_ok [OF assms(1, 2) that(2)] that(1) by simp_all
  have "sent_rows (batching_thread E c (events @ tail)) = sum_list (map logged_rows events)
      \<and> pending_rows (batching_thread E c (events @ tail)) = {#}"
    if t: "tail \<in> {[Recv Flush], [Recv Shutdown], [Tick, Tick]}" for tail
  proof -
    consider "tail = [Recv Flush]" | "tail = [Recv Shutdown]" | "tail = [Tick, Tick]" using t by blast
    then show ?thesis
    proof cases
      case 1
      then show ?thesis using every [of "?st\<lparr>bt_skip_next_tick := True\<rparr>"] run by (simp add: batching_thread_append)
    next
      case 2
      then show ?thesis using every [of ?st] run by (simp add: batching_thread_append)
    next
      case 3
      have flushed: "sent_rows (flush_every E (flush_every E ?st)) = sum_list (map logged_rows events)"
        "pending_rows (flush_every E (flush_every E ?st)) = {#}"
        using every [of ?st] every [of "flush_every E ?st"] run by simp_all
      show ?thesis
      proof (cases "bt_skip_next_tick ?st")
        case True
        then show ?thesis
          using 3 every [of "?st\<lparr>bt_skip_next_tick := False\<rparr>"] run by (simp add: batching_thread_append)
      next
        case False
        then show ?thesis using 3 every [of ?st] flushed run by (simp add: batching_thread_append)
      qed
    qed
  qed
  then show ?thesis using run(1) by blast
qed

theorem batcher_conserves_rows_witness:
  "sent_rows (batching_thread demo_env config_DEFAULT demo_events) + pending_rows (batching_thread demo_env config_DEFAULT demo_events)
      = sum_list (map logged_rows demo_events)
    \<and> sent_rows (batching_thread demo_env config_DEFAULT (demo_events @ [Recv Flush])) = sum_list (map logged_rows demo_events)
    \<and> sent_rows (batching_thread demo_env config_DEFAULT (demo_events @ [Tick, Tick])) = sum_list (map logged_rows demo_events)
    \<and> pending_rows (batching_thread demo_env config_DEFAULT (demo_events @ [Recv Shutdown])) = {#}"
proof -
  have "rows_ok demo_env {r. Recv (AppendRow p r) \<in> set demo_events}" for p
    by (rule rows_ok_mono [OF demo_rows_ok]) (auto simp: demo_events_def)
  moreover have "Recv Shutdown \<notin> set demo_events" by (simp add: demo_events_def)
  ultimately show ?thesis
    using batcher_conserves_rows [OF demo_concat_laws, where events = demo_events and c = config_DEFAULT] by blast
qed

section \<open>Thresholds\<close>

definition acc_below :: "'c batcher_env \<Rightarrow> ChunkBatcherConfig \<Rightarrow> 'c Accumulator \<Rightarrow> bool" where
  "acc_below E c acc \<longleftrightarrow> acc_pending_num_bytes acc = sum_list (map (be_row_size E) (acc_pending_rows acc))
     \<and> (acc_pending_rows acc = []
        \<or> length (acc_pending_rows acc) < flush_num_rows c \<and> acc_pending_num_bytes acc < flush_num_bytes c)"

definition accs_below :: "'c batcher_env \<Rightarrow> ChunkBatcherConfig \<Rightarrow> 'c batcher \<Rightarrow> bool" where
  "accs_below E c st \<longleftrightarrow> bt_config st = c \<and> (\<forall>p. acc_below E c (al_get acc_new p (bt_accs st))) \<and> distinct (map fst (bt_accs st))"

lemma acc_below_new: "acc_below E c acc_new"
  by (simp add: acc_below_def acc_new_def)

lemma send_fold_accs:
  "bt_accs (fold (\<lambda>chunk st. case chunk of Inr chunk \<Rightarrow> send_chunk chunk st | Inl _ \<Rightarrow> st) chunks st) = bt_accs st
    \<and> bt_config (fold (\<lambda>chunk st. case chunk of Inr chunk \<Rightarrow> send_chunk chunk st | Inl _ \<Rightarrow> st) chunks st) = bt_config st"
  by (induction chunks arbitrary: st) (simp_all add: send_chunk_def split: sum.split)

lemma flush_accs:
  "bt_config (do_flush_all E p st) = bt_config st"
  "bt_accs (do_flush_all E p st)
    = (if acc_pending_rows (al_get acc_new p (bt_accs st)) = [] then bt_accs st else al_insert p acc_new (bt_accs st))"
  by (simp_all add: do_flush_all_def Let_def send_fold_accs)

lemma flush_below: "accs_below E c st \<Longrightarrow> accs_below E c (do_flush_all E p st)"
  by (simp add: accs_below_def flush_accs distinct_al_insert al_get_def acc_below_new)

lemma flush_every_below: "accs_below E c st \<Longrightarrow> accs_below E c (flush_every E st)"
proof -
  have "accs_below E c st \<Longrightarrow> accs_below E c (fold (do_flush_all E) ps st)" for ps
    by (induction ps arbitrary: st) (simp_all add: flush_below)
  then show "accs_below E c st \<Longrightarrow> accs_below E c (flush_every E st)" by (simp add: flush_every_def)
qed

lemma below_update [simp]:
  "accs_below E c (st\<lparr>bt_skip_next_tick := b\<rparr>) = accs_below E c st" "accs_below E c (st\<lparr>bt_running := b\<rparr>) = accs_below E c st"
  by (simp_all add: accs_below_def)

lemma append_row_below:
  assumes "accs_below E c st"
  shows "accs_below E c (append_row E path row st)"
proof -
  let ?acc = "do_push_row E row (al_get acc_new path (bt_accs st))"
  let ?st = "st\<lparr>bt_accs := al_insert path ?acc (bt_accs st)\<rparr>"
  have st: "bt_config st = c" "\<And>p. acc_below E c (al_get acc_new p (bt_accs st))" "distinct (map fst (bt_accs st))"
    using assms by (simp_all add: accs_below_def)
  have bytes: "acc_pending_num_bytes ?acc = sum_list (map (be_row_size E) (acc_pending_rows ?acc))"
    using st(2) [of path] by (simp add: do_push_row_def acc_below_def)
  have full: "accs_below E c (do_flush_all E path ?st)"
  proof -
    have "acc_pending_rows ?acc \<noteq> []" by (simp add: do_push_row_def)
    then have "bt_accs (do_flush_all E path ?st) = al_insert path acc_new (al_insert path ?acc (bt_accs st))"
      by (simp add: flush_accs al_get_def)
    then show ?thesis using st by (simp add: accs_below_def flush_accs(1) distinct_al_insert al_get_def acc_below_new)
  qed
  have small: "accs_below E c ?st" if "length (acc_pending_rows ?acc) < flush_num_rows c" "acc_pending_num_bytes ?acc < flush_num_bytes c"
  proof -
    have "acc_below E c ?acc" using bytes that by (simp add: acc_below_def)
    then show ?thesis using st by (simp add: accs_below_def distinct_al_insert al_get_def)
  qed
  show ?thesis using full small st(1) by (simp add: append_row_def Let_def)
qed

lemma step_below:
  assumes "accs_below E c st" "\<And>c'. ev \<noteq> Recv (UpdateConfig c')"
  shows "accs_below E c (batcher_step E ev st)"
proof -
  consider (chunk) ch where "ev = Recv (AppendChunk ch)" | (row) p r where "ev = Recv (AppendRow p r)"
    | (flush) "ev = Recv Flush" | (shutdown) "ev = Recv Shutdown" | (tick) "ev = Tick"
    using assms(2) by (metis Command.exhaust batcher_event.exhaust)
  then show ?thesis
  proof cases
    case chunk
    then show ?thesis using assms(1) by (simp add: send_chunk_def accs_below_def)
  qed (use assms(1) in \<open>simp_all add: append_row_below flush_every_below\<close>)
qed

lemma run_below:
  assumes "\<And>c'. Recv (UpdateConfig c') \<notin> set events" "accs_below E c st"
  shows "accs_below E c (run_events E events st)"
  using assms
proof (induction events arbitrary: st)
  case (Cons ev events)
  have "ev \<noteq> Recv (UpdateConfig c')" for c' using Cons.prems(1) [of c'] by auto
  then have "accs_below E c (batcher_step E ev st)" by (rule step_below [OF Cons.prems(2)])
  moreover have "Recv (UpdateConfig c') \<notin> set events" for c' using Cons.prems(1) [of c'] by simp
  ultimately show ?case using Cons.IH Cons.prems(2) by simp
qed simp

text \<open>C29: What the batcher holds back stays below its thresholds: as long as the configuration is not changed, after
  every event each accumulator is empty or has fewer than \<open>flush_num_rows\<close> rows and fewer than
  \<open>flush_num_bytes\<close> bytes, its byte count being the sum of the sizes of its rows. With a configuration that
  always flushes nothing is ever held back.\<close>

theorem pending_below_thresholds:
  assumes "\<And>c'. Recv (UpdateConfig c') \<notin> set events"
  shows "\<forall>(p, acc) \<in> set (bt_accs (batching_thread E c events)).
      acc_pending_num_bytes acc = sum_list (map (be_row_size E) (acc_pending_rows acc))
      \<and> (acc_pending_rows acc \<noteq> [] \<longrightarrow>
           length (acc_pending_rows acc) < flush_num_rows c \<and> acc_pending_num_bytes acc < flush_num_bytes c)
      \<and> (always_flushes c \<longrightarrow> acc_pending_rows acc = [])"
proof -
  have "accs_below E c (batcher_new c)" by (simp add: accs_below_def batcher_new_def al_get_def acc_below_new)
  then have below: "accs_below E c (batching_thread E c events)"
    using run_below [OF assms] by (simp add: batching_thread_def run_events_def)
  have "acc_below E c acc" if "(p, acc) \<in> set (bt_accs (batching_thread E c events))" for p acc
  proof -
    have "al_get acc_new p (bt_accs (batching_thread E c events)) = acc" using below that by (simp add: accs_below_def al_get_def)
    then show ?thesis using below by (auto simp: accs_below_def)
  qed
  then show ?thesis by (auto simp: acc_below_def always_flushes_def)
qed

theorem pending_below_thresholds_witness:
  "list_all (\<lambda>(p, acc). acc_pending_num_bytes acc = sum_list (map (be_row_size demo_env) (acc_pending_rows acc))
      \<and> (acc_pending_rows acc = []
         \<or> length (acc_pending_rows acc) < flush_num_rows config_DEFAULT \<and> acc_pending_num_bytes acc < flush_num_bytes config_DEFAULT))
    (bt_accs (batching_thread demo_env config_DEFAULT demo_events))"
proof -
  have "Recv (UpdateConfig c') \<notin> set demo_events" for c' by (simp add: demo_events_def)
  then show ?thesis
    using pending_below_thresholds [where events = demo_events and c = config_DEFAULT and E = demo_env] unfolding list_all_iff by fast
qed

end
