(* ===== verification/Spec2Isabelle.thy ===== *)
theory Spec2Isabelle
  imports Chunk_Stats Chunk_Merge Chunk_Query Rrd_Roundtrip Store_Drop Path_Roundtrip Filter_Match Batcher_Thread
begin

text \<open>
  Verification of the data layer of Rerun: the columnar chunks that hold logged data, the operations and
  queries on them, the store that indexes, compacts and collects them, the RRD format in which they are
  stored and streamed, and the paths and filters that name their entities. Paths below are relative to
  \<open>src/crates\<close>.

  \<^bold>\<open>The program.\<close> A \<^emph>\<open>chunk\<close> (\<open>store/re_chunk\<close>) holds the rows of one entity, column by column: a row id per
  row, one time column per timeline, one nullable list column per component. The \<^emph>\<open>batcher\<close> collects rows that are
  logged one by one and builds chunks of them, the \<^emph>\<open>store\<close> (\<open>store/re_chunk_store\<close>) files them in indices by entity, timeline, component and time, merges
  small ones and splits large ones, records where each came from, and drops the oldest when memory runs
  out. Queries ask the store for chunks and slice them: \<^emph>\<open>latest-at\<close> returns the newest row not after a
  time, \<^emph>\<open>range\<close> the rows of a time range. An entity is named by an \<^emph>\<open>entity path\<close>, and a view selects entities by
  a filter, a set of rules of which the most specific decides. Chunks travel as messages of an \<^emph>\<open>RRD stream\<close> (\<open>store/re_log_encoding\<close>): a stream
  header, framed messages, an end message with the manifests, a stream footer. Streams may be
  concatenated and arrive in pieces of any size.

  \<^bold>\<open>The theories.\<close>
  \<^item> \<open>Prelude\<close>: Rust's integers, slice routines, list lemmas. \<open>Bytes\<close>: little- and big-endian encodings.
  \<^item> \<open>Time_Int\<close>: \<open>store/re_log_types/src/index\<close>, the integer without \<open>i64::MIN\<close>, times and time ranges.
    \<open>Tuid\<close>: \<open>utils/re_tuid\<close>, time-ordered identifiers.
  \<^item> \<open>Arrow\<close>: \<open>utils/re_arrow_util/src/arrays.rs\<close> and the list arrays it works on, with offsets, values and
    null mask. The kernels of the arrow crate are the fields of \<open>arrow_kernels\<close>; \<open>arrow_laws\<close> is what the
    code relies on, and \<open>list_kernels\<close> satisfies it.
  \<^item> \<open>Time_Column\<close>, \<open>Chunk\<close>: the types, constructors, checks and clones of \<open>chunk.rs\<close>. A chunk is a record with
    the fields of the code; hash maps are association lists in insertion order. \<open>chunk_wf\<close> is the
    invariant; \<open>chunk_rows\<close> reads a chunk as a list of rows and is the abstraction of all that follows.
    \<open>Row_Ops\<close> states as locales what an operation promises on rows (\<open>row_operation\<close>, \<open>row_selection\<close>,
    \<open>row_pipeline\<close>), and the operations are interpretations.
  \<^item> \<open>Chunk_Stats\<close> (counting and range queries of \<open>chunk.rs\<close>, cell lookup of \<open>slice.rs\<close>), \<open>Chunk_Shuffle\<close>
    (\<open>shuffle.rs\<close>), \<open>Chunk_Slice\<close> (\<open>slice.rs\<close>), \<open>Chunk_Merge\<close> (\<open>merge.rs\<close>, \<open>split.rs\<close>), \<open>Chunk_Query\<close> (\<open>latest_at.rs\<close>,
    \<open>range.rs\<close>, \<open>unit_chunk.rs\<close>).
  \<^item> \<open>Chunk_Batcher\<close> (\<open>store/re_chunk/src/batcher.rs\<close>): pending rows, \<open>many_into_chunks\<close>, and the batching thread as a
    state machine over commands and ticks. Arrow's \<open>concat\<close>, the hashers, row sizes and fresh ids are the fields
    of \<open>batcher_env\<close>, with the traversal order of the maps, and \<open>concat_laws\<close> is what the code relies on. \<open>Batcher_Rows\<close>: rows into chunks.
    \<open>Batcher_Thread\<close>: runs of the thread.
  \<^item> \<open>Rrd_Frames\<close> (\<open>rrd/frames.rs\<close>, \<open>build/re_build_info/src/crate_version.rs\<close>): the frames and their codecs, with
    the contract \<open>frame_codec\<close>. \<open>Rrd_Buffer\<close>, \<open>Rrd_Decoder\<close> (\<open>rrd/decoder/state_machine.rs\<close>): the queue of byte
    chunks, with the contract \<open>byte_source\<close>, and the state machine on top of any such source. \<open>Rrd_Stream\<close>:
    its histories. \<open>Rrd_Iterator\<close> (\<open>rrd/decoder/iterator.rs\<close>): the pull interface. \<open>Rrd_Encoder\<close>
    (\<open>rrd/encoder.rs\<close>, \<open>rrd/log_msg.rs\<close>), with the contract \<open>writer\<close>. \<open>Rrd_Roundtrip\<close>: encoder and decoder together.
  \<^item> The store, in \<open>store/re_chunk_store/src\<close>. \<open>Ordered_Map\<close>: \<open>BTreeMap\<close>s and \<open>BTreeSet\<close>s as ordered lists.
    \<open>Store_Index\<close> (\<open>store.rs\<close>, \<open>query.rs\<close>): one index from times to chunks, with the contract \<open>chunk_index\<close>.
    \<open>Store_Search\<close>: the nested maps of indices. \<open>Store_Lineage\<close> (\<open>lineage.rs\<close>): the origins of chunks and their
    reference counts. \<open>Chunk_Store\<close> (\<open>store.rs\<close>, \<open>query.rs\<close>, \<open>stats.rs\<close>): the state and the relevance queries.
    \<open>Store_Gc\<close>, \<open>Store_Collect\<close> (\<open>gc.rs\<close>): protection, candidates, removal. \<open>Store_Writes\<close> (\<open>writes.rs\<close>): insertion,
    compaction, splitting, static overwrites, manifests, removal of an entity; the results of other
    crates it uses are the fields of \<open>write_env\<close>. \<open>Store_Insert\<close>, \<open>Store_Split\<close>, \<open>Store_Drop\<close>: what the writes
    keep. \<open>store_inv\<close> is the invariant of the store.
  \<^item> Paths, in \<open>store/re_log_types/src/path\<close>. \<open>Entity_Path\<close> (\<open>entity_path_part.rs\<close>, \<open>parse_path.rs\<close>,
    \<open>entity_path.rs\<close>): escapes, tokens, parsers, printing, operations; a string is a list of scalar values.
    \<open>Path_Roundtrip\<close>: printing and parsing together. \<open>Path_Filter\<close> (\<open>entity_path_filter.rs\<close>): filters as text,
    their resolution and evaluation. \<open>Filter_Match\<close>: what filters mean. The comparison by which a \<open>BTreeMap\<close>
    orders its keys is the locale \<open>total_cmp\<close>, with equality \<open>strict_cmp\<close>, interpreted for the text of rules; for
    resolved rules it follows from the same law of the natural order of parts, which rests on \<open>compare_iter\<close> of
    the crate natord, a parameter, and on the order of characters in \<open>natural_ordering.rs\<close>.

  \<^bold>\<open>Conventions.\<close> An operation that can fail returns a sum with the error on the left; one that can panic
  returns \<open>None\<close>. Fresh identifiers are arguments. The build mode, which decides whether debug
  assertions and overflow checks run, is an argument where it matters: of the checks of chunks, of the end of the
  encoder, and of the stream footer in the decoder. A buffer of more than \<open>isize::MAX\<close> bytes panics; memory and
  the stack are otherwise taken to suffice. Sums of byte sizes and reference counts are natural numbers: they
  would have to exceed the memory of the machine to wrap. Where the result depends on the traversal order of a
  hash map, as in the hashes of \<open>many_into_chunks\<close> and the order of its groups, the order is a parameter.
  Logging and profiling are left out.

  \<^bold>\<open>What is shown.\<close>
  \<^item> The checks accept exactly the well-formed chunks, among them chunks with columns that are entirely null
    (\<open>sanity_check_null_column\<close>); every operation keeps the invariant.
  \<^item> Every operation on columns is the evident operation on rows: slices, filters, densification, gathering,
    deduplication, stable sorts, concatenation (of columns that are padded only if compact), splitting, and
    both queries, for sorted and unsorted chunks, with their error cases.
  \<^item> The chunks built from a batch hold exactly its rows, when rows with equal hashes agree on timelines and
    datatypes. Along every run of the batching thread the rows sent
    and the rows pending are those logged; a flush, a shutdown or two ticks send everything, and what is
    pending stays below the thresholds.
  \<^item> The statistics agree with reference counts; identifiers are ordered alike as integers, bytes and
    text, round-trip, and grow.
  \<^item> Frames round-trip. The decoder returns on every input, with a panic only on the three kinds of malformed
    frames that \<open>read_returns\<close> names, yields the same results however its input is
    cut and whenever it is read, and keeps exact count of its bytes. The iterator delivers all of them.
    What the encoder writes is read back, also from concatenated streams, and its footer points at the
    manifests. Protobuf is a parameter with the law \<open>prost_ok\<close>, which the examples satisfy.
  \<^item> The indices contain exactly the chunks inserted and not removed. A latest-at query through the store
    finds the newest row, a range query every row of the range. Inserting a chunk keeps every row that
    was in the store and adds those of the chunk, through compaction and splitting; inserting it again
    has no effect unless it was split; unfit chunks are refused and change nothing. Reference counts stay exact
    when references are dropped, entries that are needed stay and those no longer needed go. Collection keeps the store consistent, spares what is protected, and frees
    what was asked.
  \<^item> A path that is printed is read back, under a condition that is also necessary. Of the rules of a
    filter the most specific wins; the questions about subtrees and supersets are answered exactly or
    soundly, with the exceptions stated; updates keep the order of rules.
  \<^item> Defects: statements such as \<open>padding_sliced_array_wrong\<close>, \<open>latest_at_returns_future_row\<close>,
    \<open>row_id_range_per_component_swapped\<close>, \<open>footer_decode_panics_iff\<close>, \<open>footer_error_keeps_waiting\<close>,
    \<open>null_column_hides_past\<close>, \<open>drop_entity_path_leaks_references\<close>, \<open>superset_check_unsound\<close>,
    \<open>evaluate_misses_subtrees\<close>, \<open>unsorted_chunk_exceeds_limit\<close>, \<open>mixed_datatypes_lose_component\<close> prove where the code does not do what it or its documentation means.

  \<^bold>\<open>Loops.\<close> The loops of the code are total functions with a termination proof, with two groups of exceptions,
  which are partial functions. The reading loop of the decoder is proved to return (\<open>read_returns\<close>) by a
  measure on the bytes that are left and the state. The walks along lineages and the recursive splits and
  insertions of the store end because the records of origins have no cycles (\<open>find_root_chunks_exact\<close>) and
  because every split makes chunks smaller (\<open>insert_chunk_keeps_rows\<close>, which shows that insertion
  returns). Fresh chunk ids come from a sequence; \<open>ids_drawn\<close> bounds how many one insertion takes. No fuel
  is used.

  \<^bold>\<open>Not modelled.\<close> Floating-point conversions, serde and byte casts; typed iteration over components;
  protobuf, Arrow IPC, compression and checksums (parameters). Of the store: schemas, the entity tree,
  subscribers, the external roots of the web viewer, and the query caches, of which only the
  lookup on a miss is modelled. Of paths: hashes, by which the code compares them, the parse cache,
  warnings, short names, file paths. Of the batcher: channels and their quotas, the clock, hooks, the
  configuration from the environment. All other threading; network, servers and importers;
  generated types; viewer and renderer: they are input and output, concurrency, generated code and user
  interface around the data layer.
\<close>

end
